(* ===== verification/TxlPrelude.thy ===== *)
theory TxlPrelude
  imports Main "HOL-Library.Word"
begin

text \<open>
  What every component theory of the txl development shares: the type of failures a call can
  end in, the model of the \<^verbatim>\<open>std::vector\<close> operations and of \<^verbatim>\<open>std::lower_bound\<close> that
  the headers call, and the collections of facts the component proofs draw on.

  A call of the library either returns a value (\<open>Inr\<close>) or ends in a \<open>fault\<close>
  (\<open>Inl\<close>): a C++ exception, by its class, or \<open>UB\<close> when the code does something the
  language gives no meaning to (an access past the end of an array, a division by zero, the
  destructor run on raw memory).
\<close>

datatype fault =
    UB
  | OutOfRange
  | RuntimeError string
  | EofError
  | ExpectError

type_synonym 'a res = "fault + 'a"

named_theorems vec_simps \<open>lengths and contents of vectors after an update\<close>

section \<open>Sequencing calls\<close>

definition and_then :: "'a res \<Rightarrow> ('a \<Rightarrow> 'b res) \<Rightarrow> 'b res" where
  "and_then m f = (case m of Inl e \<Rightarrow> Inl e | Inr x \<Rightarrow> f x)"

lemma and_then_Inr [simp]: "and_then (Inr x) f = f x"
  by (simp add: and_then_def)

lemma and_then_Inl [simp]: "and_then (Inl e) f = Inl e"
  by (simp add: and_then_def)

lemma and_then_eq_Inr: "and_then m f = Inr y \<longleftrightarrow> (\<exists>x. m = Inr x \<and> f x = Inr y)"
  by (cases m) auto

text \<open>The same for calls that may not return: \<open>None\<close> is divergence, or a thread that is blocked for ever.\<close>

definition run_bind :: "'a res option \<Rightarrow> ('a \<Rightarrow> 'b res option) \<Rightarrow> 'b res option" where
  "run_bind m f = Option.bind m (\<lambda>r. case r of Inl e \<Rightarrow> Some (Inl e) | Inr x \<Rightarrow> f x)"

lemma run_bind_simps [simp]:
  "run_bind None f = None"
  "run_bind (Some (Inl e)) f = Some (Inl e)"
  "run_bind (Some (Inr x)) f = f x"
  by (simp_all add: run_bind_def)

section \<open>Vectors\<close>

text \<open>\<^verbatim>\<open>vector::at\<close> throws on a bad index; \<open>operator[]\<close>, \<open>emplace\<close> and \<open>erase\<close> on a bad
  position are undefined behaviour.\<close>

definition vec_at :: "'a list \<Rightarrow> nat \<Rightarrow> 'a res" where
  "vec_at xs i = (if i < length xs then Inr (xs ! i) else Inl OutOfRange)"

definition vec_get :: "'a list \<Rightarrow> nat \<Rightarrow> 'a res" where
  "vec_get xs i = (if i < length xs then Inr (xs ! i) else Inl UB)"

definition vec_put :: "'a list \<Rightarrow> nat \<Rightarrow> 'a \<Rightarrow> 'a list res" where
  "vec_put xs i x = (if i < length xs then Inr (xs[i := x]) else Inl UB)"

definition ins_at :: "nat \<Rightarrow> 'a \<Rightarrow> 'a list \<Rightarrow> 'a list" where
  "ins_at i x xs = take i xs @ x # drop i xs"

definition del_at :: "nat \<Rightarrow> 'a list \<Rightarrow> 'a list" where
  "del_at i xs = take i xs @ drop (Suc i) xs"

definition vec_emplace :: "nat \<Rightarrow> 'a \<Rightarrow> 'a list \<Rightarrow> 'a list res" where
  "vec_emplace i x xs = (if i \<le> length xs then Inr (ins_at i x xs) else Inl UB)"

definition vec_erase :: "nat \<Rightarrow> 'a list \<Rightarrow> 'a list res" where
  "vec_erase i xs = (if i < length xs then Inr (del_at i xs) else Inl UB)"

lemma length_ins_at [vec_simps]: "length (ins_at i x xs) = Suc (length xs)"
  by (simp add: ins_at_def)

lemma length_del_at [vec_simps]: "i < length xs \<Longrightarrow> length (del_at i xs) = length xs - 1"
  by (simp add: del_at_def)

lemma set_ins_at [vec_simps]: "set (ins_at i x xs) = insert x (set xs)"
proof -
  have "set (take i xs) \<union> set (drop i xs) = set xs"
    by (metis append_take_drop_id set_append)
  then show ?thesis by (auto simp: ins_at_def)
qed

lemma set_del_at_subset: "set (del_at i xs) \<subseteq> set xs"
  using set_take_subset[of i xs] set_drop_subset[of "Suc i" xs] by (auto simp: del_at_def)

lemma take_ins_at [vec_simps]: "i \<le> length xs \<Longrightarrow> take i (ins_at i x xs) = take i xs"
  by (simp add: ins_at_def)

lemma drop_ins_at [vec_simps]: "i \<le> length xs \<Longrightarrow> drop (Suc i) (ins_at i x xs) = drop i xs"
  by (simp add: ins_at_def)

lemma nth_ins_at [vec_simps]: "i \<le> length xs \<Longrightarrow> ins_at i x xs ! i = x"
  by (simp add: ins_at_def nth_append)

lemma split_at_nth: "i < length xs \<Longrightarrow> xs = take i xs @ xs ! i # drop (Suc i) xs"
  by (rule id_take_nth_drop)

section \<open>Binary search\<close>

text \<open>
  \<^verbatim>\<open>std::lower_bound\<close> and \<^verbatim>\<open>std::upper_bound\<close>, as a loop that halves the range
  \<open>[first, first + len)\<close>: it keeps the half where the predicate \<open>p\<close> stops holding. For
  \<open>lower_bound\<close> the predicate is "the element is less than the key", for \<open>upper_bound\<close>
  "the key is not less than the element".
\<close>

fun bisect_loop :: "('a \<Rightarrow> bool) \<Rightarrow> 'a list \<Rightarrow> nat \<Rightarrow> nat \<Rightarrow> nat" where
  "bisect_loop p xs first len =
     (if len = 0 then first
      else let half = len div 2; mid = first + half
           in if p (xs ! mid) then bisect_loop p xs (Suc mid) (len - half - 1)
              else bisect_loop p xs first half)"

declare bisect_loop.simps [simp del]

definition partition_point :: "('a \<Rightarrow> bool) \<Rightarrow> 'a list \<Rightarrow> nat" where
  "partition_point p xs = bisect_loop p xs 0 (length xs)"

text \<open>A list on which \<open>p\<close> holds for a prefix and fails from then on.\<close>

definition partitioned :: "('a \<Rightarrow> bool) \<Rightarrow> 'a list \<Rightarrow> bool" where
  "partitioned p xs \<longleftrightarrow> (\<forall>i j. i \<le> j \<and> j < length xs \<and> p (xs ! j) \<longrightarrow> p (xs ! i))"

lemma partitionedD: "partitioned p xs \<Longrightarrow> p (xs ! j) \<Longrightarrow> i \<le> j \<Longrightarrow> j < length xs \<Longrightarrow> p (xs ! i)"
  unfolding partitioned_def by blast

lemma bisect_loop_correct:
  assumes "partitioned p xs"
  shows "first + len \<le> length xs \<Longrightarrow> (\<And>i. i < first \<Longrightarrow> p (xs ! i)) \<Longrightarrow>
    (\<And>i. first + len \<le> i \<Longrightarrow> i < length xs \<Longrightarrow> \<not> p (xs ! i)) \<Longrightarrow>
    bisect_loop p xs first len \<le> length xs \<and>
    (\<forall>i < bisect_loop p xs first len. p (xs ! i)) \<and>
    (\<forall>i. bisect_loop p xs first len \<le> i \<longrightarrow> i < length xs \<longrightarrow> \<not> p (xs ! i))"
proof (induction len arbitrary: first rule: less_induct)
  case (less len)
  show ?case
  proof (cases "len = 0")
    case True
    with less.prems show ?thesis by (auto simp: bisect_loop.simps[of p xs first 0])
  next
    case False
    define mid where "mid = first + len div 2"
    have mid: "mid < first + len" "mid < length xs" "len div 2 < len" "len - len div 2 - 1 < len"
      using False less.prems(1) by (auto simp: mid_def)
    have unfold: "bisect_loop p xs first len =
        (if p (xs ! mid) then bisect_loop p xs (Suc mid) (len - len div 2 - 1)
         else bisect_loop p xs first (len div 2))"
      using False by (simp add: bisect_loop.simps[of p xs first len] Let_def mid_def)
    show ?thesis
    proof (cases "p (xs ! mid)")
      case True
      have e: "Suc mid + (len - len div 2 - 1) = first + len" using mid by (simp add: mid_def)
      have l: "\<And>i. i < Suc mid \<Longrightarrow> p (xs ! i)"
        using partitionedD[OF assms True] mid(2) by simp
      show ?thesis
        unfolding unfold if_P[OF True]
      proof (rule less.IH[OF mid(4)])
        show "Suc mid + (len - len div 2 - 1) \<le> length xs" using e less.prems(1) by simp
        show "\<And>i. i < Suc mid \<Longrightarrow> p (xs ! i)" by (rule l)
        show "\<And>i. Suc mid + (len - len div 2 - 1) \<le> i \<Longrightarrow> i < length xs \<Longrightarrow> \<not> p (xs ! i)"
          using e less.prems(3) by simp
      qed
    next
      case no: False
      have u: "\<And>i. first + len div 2 \<le> i \<Longrightarrow> i < length xs \<Longrightarrow> \<not> p (xs ! i)"
        using no partitionedD[OF assms, of _ mid] by (auto simp: mid_def)
      show ?thesis
        unfolding unfold if_not_P[OF no]
      proof (rule less.IH[OF mid(3)])
        show "first + len div 2 \<le> length xs" using mid by (simp add: mid_def)
        show "\<And>i. i < first \<Longrightarrow> p (xs ! i)" by (rule less.prems(2))
        show "\<And>i. first + len div 2 \<le> i \<Longrightarrow> i < length xs \<Longrightarrow> \<not> p (xs ! i)" by (rule u)
      qed
    qed
  qed
qed

lemma partition_point_takeWhile:
  assumes "partitioned p xs"
  shows "partition_point p xs = length (takeWhile p xs)"
proof -
  have r: "partition_point p xs \<le> length xs" "\<forall>i < partition_point p xs. p (xs ! i)"
    "\<forall>i. partition_point p xs \<le> i \<longrightarrow> i < length xs \<longrightarrow> \<not> p (xs ! i)"
    using bisect_loop_correct[OF assms, of 0 "length xs"] by (auto simp: partition_point_def)
  have t: "take (partition_point p xs) xs = takeWhile p xs"
  proof (rule takeWhile_eq_take_P_nth[symmetric])
    show "\<And>i. i < partition_point p xs \<Longrightarrow> i < length xs \<Longrightarrow> p (xs ! i)" using r(2) by blast
    show "partition_point p xs < length xs \<Longrightarrow> \<not> p (xs ! partition_point p xs)" using r(3) by blast
  qed
  have "length (take (partition_point p xs) xs) = partition_point p xs" using r(1) by simp
  then show ?thesis by (simp only: t)
qed

lemma partition_point_le: "partitioned p xs \<Longrightarrow> partition_point p xs \<le> length xs"
  by (simp add: partition_point_takeWhile length_takeWhile_le)

lemma partition_point_take: "partitioned p xs \<Longrightarrow> take (partition_point p xs) xs = takeWhile p xs"
  by (simp add: partition_point_takeWhile flip: takeWhile_eq_take)

lemma partition_point_drop: "partitioned p xs \<Longrightarrow> drop (partition_point p xs) xs = dropWhile p xs"
  by (simp add: partition_point_takeWhile flip: dropWhile_eq_drop)

text \<open>A sorted list is partitioned by "less than the key" and by "not greater than the key".\<close>

lemma sorted_partitioned_less: "sorted xs \<Longrightarrow> partitioned (\<lambda>x. x < (k :: 'a :: linorder)) xs"
  unfolding partitioned_def by (meson le_less_trans sorted_nth_mono)

lemma sorted_partitioned_le: "sorted xs \<Longrightarrow> partitioned (\<lambda>x. \<not> (k :: 'a :: linorder) < x) xs"
  unfolding partitioned_def by (meson leD leI order_trans sorted_nth_mono)

end
