(* ===== verification/Storage.thy ===== *)
theory Storage
  imports TxlPrelude
begin

text \<open>
  \<open>unsafe_storage\<close> of \<^verbatim>\<open>include/txl/storage.h\<close>: memory for one value that does not know whether it
  holds one. A \<open>slot\<close> is what the memory really holds: nothing (\<open>Raw\<close>), a live value, or the shell
  a move has left (\<open>Moved\<close>). Reading, moving from or destroying raw memory is undefined behaviour. The
  containers keep lists of slots.
\<close>

datatype 'v slot = Raw | Live 'v | Moved

fun slot_val :: "'v slot \<Rightarrow> 'v option" where
  "slot_val (Live v) = Some v"
| "slot_val _ = None"

definition st_emplace :: "'v slot list \<Rightarrow> nat \<Rightarrow> 'v \<Rightarrow> 'v slot list res" where
  "st_emplace d i v = vec_put d i (Live v)"

definition st_erase :: "'v slot list \<Rightarrow> nat \<Rightarrow> 'v slot list res" where
  "st_erase d i = and_then (vec_get d i) (\<lambda>s. case s of Raw \<Rightarrow> Inl UB | _ \<Rightarrow> Inr (d[i := Raw]))"

definition st_get :: "'v slot list \<Rightarrow> nat \<Rightarrow> 'v res" where
  "st_get d i = and_then (vec_get d i) (\<lambda>s. case s of Live v \<Rightarrow> Inr v | _ \<Rightarrow> Inl UB)"

text \<open>The move assignment \<open>data[dst] = std::move(data[src])\<close>: a placement new over the destination.\<close>

definition st_move :: "'v slot list \<Rightarrow> nat \<Rightarrow> nat \<Rightarrow> 'v slot list res" where
  "st_move d src dst =
     (if length d \<le> src \<or> length d \<le> dst then Inl UB
      else if src = dst then Inr d
      else case d ! src of
        Raw \<Rightarrow> Inl UB
      | Live v \<Rightarrow> Inr (d[dst := Live v, src := Moved])
      | Moved \<Rightarrow> Inr (d[dst := Moved]))"

text \<open>\<^verbatim>\<open>std::move_backward\<close> of \<open>n\<close> slots from \<open>first\<close> on, to the range that ends at \<open>d_last\<close>.\<close>

fun st_move_backward :: "'v slot list \<Rightarrow> nat \<Rightarrow> nat \<Rightarrow> nat \<Rightarrow> 'v slot list res" where
  "st_move_backward d first 0 d_last = Inr d"
| "st_move_backward d first (Suc n) d_last =
     (if d_last = 0 then Inl UB
      else and_then (st_move d (first + n) (d_last - 1)) (\<lambda>d'. st_move_backward d' first n (d_last - 1)))"

section \<open>Lists of slots\<close>

lemma st_move_Live: "src < length d \<Longrightarrow> dst < length d \<Longrightarrow> src \<noteq> dst \<Longrightarrow> d ! src = Live v \<Longrightarrow>
    st_move d src dst = Inr (d[dst := Live v, src := Moved])"
  by (simp add: st_move_def)

text \<open>A move to the right of live slots by \<open>k > 0\<close> places opens a gap of \<open>k\<close> moved-from or untouched slots.\<close>

lemma st_move_backward_right:
  assumes "0 < k" "first + n + k \<le> length d" "\<forall>i < n. d ! (first + i) = Live (f i)"
  shows "\<exists>d'. st_move_backward d first n (first + n + k) = Inr d' \<and> length d' = length d \<and>
    (\<forall>i < n. d' ! (first + k + i) = Live (f i)) \<and>
    (\<forall>j. j < first \<or> first + n + k \<le> j \<longrightarrow> d' ! j = d ! j)"
  using assms(2,3)
proof (induction n arbitrary: d)
  case (Suc n)
  let ?d = "d[first + n + k := Live (f n), first + n := Moved]"
  have "st_move d (first + n) (first + n + k) = Inr ?d"
    using Suc.prems assms(1) by (intro st_move_Live) auto
  moreover from Suc.IH[of ?d] Suc.prems assms(1) obtain d' where
    d': "st_move_backward ?d first n (first + n + k) = Inr d'" "length d' = length d"
      "\<forall>i < n. d' ! (first + k + i) = Live (f i)" "\<forall>j. j < first \<or> first + n + k \<le> j \<longrightarrow> d' ! j = ?d ! j"
    by auto
  moreover have "d' ! (first + k + n) = Live (f n)"
    using d'(4) Suc.prems assms(1) by (simp add: add_ac)
  ultimately show ?case using assms(1)
    by (intro exI[of _ d']) (auto simp: less_Suc_eq add_ac)
qed simp


section \<open>Copies\<close>

text \<open>The copy and the move constructor make a value in fresh memory; the copy assignment makes one in the memory of the target, over
  what lives there. The second component of an assignment is the values that are lost: their destructor never runs.\<close>

definition st_copy_new :: "'v slot \<Rightarrow> 'v slot res" where
  "st_copy_new s = (case s of Raw \<Rightarrow> Inl UB | _ \<Rightarrow> Inr s)"

definition st_move_new :: "'v slot \<Rightarrow> ('v slot \<times> 'v slot) res" where
  "st_move_new s = (case s of Raw \<Rightarrow> Inl UB | _ \<Rightarrow> Inr (s, Moved))"

definition st_copy_assign :: "'v slot \<Rightarrow> 'v slot \<Rightarrow> ('v slot \<times> 'v list) res" where
  "st_copy_assign this s = and_then (st_copy_new s) (\<lambda>s'. Inr (s', case this of Live w \<Rightarrow> [w] | _ \<Rightarrow> []))"

text \<open>Only a target without a value can be assigned to without a loss.\<close>

lemma st_copy_assign_lossless: "st_copy_assign this s = Inr (s', []) \<longleftrightarrow> s' = s \<and> s \<noteq> Raw \<and> slot_val this = None"
  by (cases this; cases s) (auto simp: st_copy_assign_def st_copy_new_def)

end
