(* ===== verification/RingBuffer.thy ===== *)
theory RingBuffer
  imports Storage
begin

text \<open>
  The in-memory ring buffer of \<^verbatim>\<open>include/txl/ring_buffer.h\<close>: a header (capacity, head, tail)
  and an array of value slots in one memory map. A slot is raw memory, a constructed value or
  a moved-from value; \<open>rb_dtors\<close> is the ghost list of the values whose destructor has run, in
  order. The section ends with the bounded queue the buffer implements.
\<close>

unbundle bit_operations_syntax

section \<open>Flags\<close>

type_synonym ring_buffer_flags = "32 word"

definition flag_none :: ring_buffer_flags where "flag_none = 0"
definition preserve_values :: ring_buffer_flags where "preserve_values = 1"
definition no_initialize :: ring_buffer_flags where "no_initialize = push_bit 1 1"

definition flags_or :: "ring_buffer_flags \<Rightarrow> ring_buffer_flags \<Rightarrow> ring_buffer_flags" where
  "flags_or x y = x OR y"

definition flags_and :: "ring_buffer_flags \<Rightarrow> ring_buffer_flags \<Rightarrow> ring_buffer_flags" where
  "flags_and x y = x AND y"

definition destruct_on_close :: "ring_buffer_flags \<Rightarrow> bool" where
  "destruct_on_close fl \<longleftrightarrow> flags_and fl preserve_values \<noteq> preserve_values"

definition is_no_initialize :: "ring_buffer_flags \<Rightarrow> bool" where
  "is_no_initialize fl \<longleftrightarrow> flags_and fl no_initialize = no_initialize"

section \<open>State and operations\<close>

record 'v ring_buffer =
  rb_size :: nat
  rb_head :: nat
  rb_tail :: nat
  rb_data :: "'v slot list"
  rb_flags :: ring_buffer_flags
  rb_dtors :: "'v list"

text \<open>
  The constructor maps the memory and, unless told not to, resets the header. \<open>mem\<close> is what
  the map holds already: zeroed memory for an anonymous map, the file's content for a shared
  one. \<open>mapped\<close> is whether \<^verbatim>\<open>memory_map::open\<close> succeeded.
\<close>

definition rb_open :: "nat \<Rightarrow> ring_buffer_flags \<Rightarrow> bool \<Rightarrow> 'v ring_buffer \<Rightarrow> 'v ring_buffer res" where
  "rb_open cap fl mapped mem =
     (if \<not> mapped then Inl (RuntimeError ''system_error'')
      else if \<not> is_no_initialize fl
        then Inr (mem\<lparr>rb_size := cap, rb_head := 0, rb_tail := 0, rb_flags := fl\<rparr>)
        else Inr (mem\<lparr>rb_flags := fl\<rparr>))"

definition rb_fresh :: "nat \<Rightarrow> 'v ring_buffer" where
  "rb_fresh cap = \<lparr>rb_size = 0, rb_head = 0, rb_tail = 0, rb_data = replicate cap Raw,
                   rb_flags = flag_none, rb_dtors = []\<rparr>"

definition rb_destroy :: "nat \<Rightarrow> 'v ring_buffer \<Rightarrow> 'v ring_buffer res" where
  "rb_destroy i rb =
     (if i < length (rb_data rb) then
        (case rb_data rb ! i of
           Raw \<Rightarrow> Inl UB
         | Live v \<Rightarrow> Inr (rb\<lparr>rb_data := (rb_data rb)[i := Raw], rb_dtors := rb_dtors rb @ [v]\<rparr>)
         | Moved \<Rightarrow> Inr (rb\<lparr>rb_data := (rb_data rb)[i := Raw]\<rparr>))
      else Inl UB)"

text \<open>The \<open>++i; if (i == capacity()) i = 0;\<close> of every method.\<close>

definition rb_next :: "'v ring_buffer \<Rightarrow> nat \<Rightarrow> nat" where
  "rb_next rb i = (if Suc i = rb_size rb then 0 else Suc i)"

text \<open>The loop of \<open>clear\<close>, with one unit of fuel per slot; \<open>rb_clear_abs\<close> below shows that the
  capacity is enough.\<close>

fun rb_clear_loop :: "nat \<Rightarrow> 'v ring_buffer \<Rightarrow> 'v ring_buffer res" where
  "rb_clear_loop fuel rb =
     (if rb_head rb = rb_tail rb then Inr rb
      else case fuel of 0 \<Rightarrow> Inl UB
      | Suc n \<Rightarrow>
          and_then (rb_destroy (rb_head rb) rb)
            (\<lambda>rb1. rb_clear_loop n (rb1\<lparr>rb_head := rb_next rb1 (rb_head rb1)\<rparr>)))"

declare rb_clear_loop.simps [simp del]

definition rb_clear :: "'v ring_buffer \<Rightarrow> 'v ring_buffer res" where
  "rb_clear rb = rb_clear_loop (rb_size rb) rb"

definition rb_close :: "'v ring_buffer \<Rightarrow> 'v ring_buffer res" where
  "rb_close rb = (if destruct_on_close (rb_flags rb) then rb_clear rb else Inr rb)"

definition rb_length :: "'v ring_buffer \<Rightarrow> nat" where
  "rb_length rb =
     (if rb_tail rb \<ge> rb_head rb then rb_tail rb - rb_head rb
      else (rb_head rb + rb_size rb - 1) - rb_tail rb)"

definition rb_capacity :: "'v ring_buffer \<Rightarrow> nat" where
  "rb_capacity rb = rb_size rb"

definition rb_read :: "'v ring_buffer \<Rightarrow> ('v option \<times> 'v ring_buffer) res" where
  "rb_read rb =
     (if rb_head rb = rb_tail rb then Inr (None, rb)
      else if rb_head rb < length (rb_data rb) then
        (case rb_data rb ! rb_head rb of
           Live v \<Rightarrow> Inr (Some v, rb\<lparr>rb_data := (rb_data rb)[rb_head rb := Moved],
                                    rb_head := rb_next rb (rb_head rb)\<rparr>)
         | _ \<Rightarrow> Inl UB)
      else Inl UB)"

definition rb_emplace :: "'v \<Rightarrow> 'v ring_buffer \<Rightarrow> 'v ring_buffer res" where
  "rb_emplace v rb =
     (if rb_size rb = 0 then Inl UB
      else and_then
        (if rb_head rb = (rb_tail rb + 1) mod rb_size rb then rb_destroy (rb_head rb) rb
         else Inr rb)
        (\<lambda>rb1. and_then (vec_put (rb_data rb1) (rb_tail rb1) (Live v))
          (\<lambda>d. let rb2 = rb1\<lparr>rb_data := d, rb_tail := rb_next rb1 (rb_tail rb1)\<rparr>
               in Inr (if rb_head rb2 = rb_tail rb2
                       then rb2\<lparr>rb_head := rb_next rb2 (rb_head rb2)\<rparr> else rb2))))"


section \<open>Walking the ring\<close>

definition ring_pos :: "nat \<Rightarrow> nat \<Rightarrow> nat \<Rightarrow> nat" where
  "ring_pos n h i = (h + i) mod n"

lemma ring_pos_if: "h < n \<Longrightarrow> i < n \<Longrightarrow> ring_pos n h i = (if h + i < n then h + i else h + i - n)"
  by (simp add: ring_pos_def le_mod_geq)

lemma ring_pos_0: "h < n \<Longrightarrow> ring_pos n h 0 = h"
  by (simp add: ring_pos_def)

lemma ring_pos_less: "0 < n \<Longrightarrow> ring_pos n h i < n"
  by (simp add: ring_pos_def)

lemma ring_pos_inj: "h < n \<Longrightarrow> i < n \<Longrightarrow> j < n \<Longrightarrow> ring_pos n h i = ring_pos n h j \<longleftrightarrow> i = j"
  by (auto simp: ring_pos_if split: if_splits)

lemma ring_pos_Suc: "ring_pos n h (Suc i) = (ring_pos n h i + 1) mod n"
  by (simp add: ring_pos_def mod_Suc_eq)

lemma ring_pos_shift: "ring_pos n (ring_pos n h (Suc 0)) i = ring_pos n h (Suc i)"
  using mod_add_left_eq[of "Suc h" n i] by (simp add: ring_pos_def)

lemma rb_next_mod: "i < rb_size rb \<Longrightarrow> rb_next rb i = (i + 1) mod rb_size rb"
  by (auto simp: rb_next_def)

definition rb_count :: "'v ring_buffer \<Rightarrow> nat" where
  "rb_count rb = (if rb_head rb \<le> rb_tail rb then rb_tail rb - rb_head rb
                  else rb_tail rb + rb_size rb - rb_head rb)"

definition rb_slots :: "'v ring_buffer \<Rightarrow> 'v option list" where
  "rb_slots rb = map (\<lambda>i. slot_val (rb_data rb ! ring_pos (rb_size rb) (rb_head rb) i)) [0..<rb_count rb]"

definition rb_abs :: "'v ring_buffer \<Rightarrow> 'v list" where
  "rb_abs rb = map the (rb_slots rb)"

definition rb_inv :: "'v ring_buffer \<Rightarrow> bool" where
  "rb_inv rb \<longleftrightarrow> 2 \<le> rb_size rb \<and> length (rb_data rb) = rb_size rb \<and>
     rb_head rb < rb_size rb \<and> rb_tail rb < rb_size rb \<and> None \<notin> set (rb_slots rb)"

lemma rb_tail_pos: "rb_inv rb \<Longrightarrow> rb_tail rb = ring_pos (rb_size rb) (rb_head rb) (rb_count rb)"
  by (auto simp: rb_inv_def rb_count_def ring_pos_if)

lemma rb_count_less: "rb_inv rb \<Longrightarrow> rb_count rb < rb_size rb"
  by (auto simp: rb_inv_def rb_count_def)

lemma rb_count_eq: "h < n \<Longrightarrow> k < n \<Longrightarrow> rb_size rb = n \<Longrightarrow> rb_head rb = h \<Longrightarrow>
    rb_tail rb = ring_pos n h k \<Longrightarrow> rb_count rb = k"
  by (auto simp: rb_count_def ring_pos_if split: if_splits)

lemma rb_empty_iff: "rb_inv rb \<Longrightarrow> rb_head rb = rb_tail rb \<longleftrightarrow> rb_count rb = 0"
  by (auto simp: rb_inv_def rb_count_def)

lemma rb_full_iff:
  assumes "rb_inv rb"
  shows "rb_head rb = (rb_tail rb + 1) mod rb_size rb \<longleftrightarrow> Suc (rb_count rb) = rb_size rb"
proof (cases "Suc (rb_tail rb) = rb_size rb")
  case True
  with assms show ?thesis by (auto simp: rb_inv_def rb_count_def)
next
  case False
  with assms have "(rb_tail rb + 1) mod rb_size rb = rb_tail rb + 1" by (simp add: rb_inv_def)
  with False assms show ?thesis by (auto simp: rb_inv_def rb_count_def)
qed

lemma rb_slot_live:
  assumes "rb_inv rb" "i < rb_count rb"
  obtains v where "rb_data rb ! ring_pos (rb_size rb) (rb_head rb) i = Live v"
proof -
  have "rb_slots rb ! i \<in> set (rb_slots rb)" using assms(2) by (simp add: rb_slots_def)
  moreover have "rb_slots rb ! i = slot_val (rb_data rb ! ring_pos (rb_size rb) (rb_head rb) i)"
    using assms(2) by (simp add: rb_slots_def)
  ultimately have "slot_val (rb_data rb ! ring_pos (rb_size rb) (rb_head rb) i) \<noteq> None"
    using assms(1) by (metis rb_inv_def)
  then show ?thesis by (cases "rb_data rb ! ring_pos (rb_size rb) (rb_head rb) i") (auto intro: that)
qed

lemma rb_abs_length: "length (rb_abs rb) = rb_count rb"
  by (simp add: rb_abs_def rb_slots_def)

text \<open>The slots from the head on: the head's slot, then the slots from the next position.\<close>

lemma rb_slots_pop:
  assumes "rb_inv rb" "0 < rb_count rb"
    and "rb_size rb' = rb_size rb" "rb_head rb' = rb_next rb (rb_head rb)" "rb_tail rb' = rb_tail rb"
    and "\<And>i. i < rb_size rb \<Longrightarrow> i \<noteq> rb_head rb \<Longrightarrow> rb_data rb' ! i = rb_data rb ! i"
  shows "rb_slots rb = slot_val (rb_data rb ! rb_head rb) # rb_slots rb'"
    and "rb_count rb = Suc (rb_count rb')"
proof -
  let ?n = "rb_size rb" and ?h = "rb_head rb"
  have h: "?h < ?n" and n: "0 < ?n" using assms(1) by (auto simp: rb_inv_def)
  have nx: "rb_next rb ?h = ring_pos ?n ?h (Suc 0)" using h by (simp add: rb_next_mod ring_pos_def)
  have k: "rb_count rb < ?n" by (rule rb_count_less[OF assms(1)])
  obtain m where m: "rb_count rb = Suc m" using assms(2) by (cases "rb_count rb") auto
  have "rb_tail rb = ring_pos ?n (ring_pos ?n ?h (Suc 0)) m"
    using rb_tail_pos[OF assms(1)] by (simp add: m ring_pos_shift)
  then have c: "rb_count rb' = m"
    using rb_count_eq[of "ring_pos ?n ?h (Suc 0)" ?n m rb'] ring_pos_less[OF n] k m assms(3-5) nx by simp
  then show "rb_count rb = Suc (rb_count rb')" using m by simp
  have "rb_data rb ! ring_pos ?n ?h (Suc i) = rb_data rb' ! ring_pos ?n (ring_pos ?n ?h (Suc 0)) i"
    if "i < m" for i
  proof -
    have "ring_pos ?n ?h (Suc i) \<noteq> ring_pos ?n ?h 0"
      using ring_pos_inj[OF h, of "Suc i" 0] that k m n by simp
    then show ?thesis
      using assms(6)[of "ring_pos ?n ?h (Suc i)"] ring_pos_less[OF n] h
      by (simp add: ring_pos_shift ring_pos_0)
  qed
  moreover have "[0..<Suc m] = 0 # map Suc [0..<m]" by (simp only: map_Suc_upt upt_conv_Cons zero_less_Suc)
  ultimately show "rb_slots rb = slot_val (rb_data rb ! ?h) # rb_slots rb'"
    using h by (simp add: rb_slots_def m c assms(3,4) nx ring_pos_0 del: upt_Suc)
qed

lemma rb_slots_push:
  assumes "rb_inv rb" "Suc (rb_count rb) < rb_size rb"
    and "rb_size rb' = rb_size rb" "rb_head rb' = rb_head rb" "rb_tail rb' = rb_next rb (rb_tail rb)"
    and "rb_data rb' = (rb_data rb)[rb_tail rb := Live v]"
  shows "rb_slots rb' = rb_slots rb @ [Some v]" and "rb_count rb' = Suc (rb_count rb)"
proof -
  let ?n = "rb_size rb" and ?h = "rb_head rb" and ?k = "rb_count rb"
  have h: "?h < ?n" and t: "rb_tail rb < ?n" and l: "length (rb_data rb) = ?n"
    using assms(1) by (auto simp: rb_inv_def)
  have tl: "rb_tail rb = ring_pos ?n ?h ?k" by (rule rb_tail_pos[OF assms(1)])
  have "rb_tail rb' = ring_pos ?n ?h (Suc ?k)"
    using assms(5) rb_next_mod[OF t] by (simp add: tl ring_pos_Suc)
  then show c: "rb_count rb' = Suc ?k"
    using rb_count_eq[OF h, of "Suc ?k" rb'] assms(2-4) by simp
  have "rb_tail rb \<noteq> ring_pos ?n ?h i" if "i < ?k" for i
    using ring_pos_inj[OF h, of i ?k] that assms(2) by (simp add: tl)
  then show "rb_slots rb' = rb_slots rb @ [Some v]"
    using t l by (simp add: rb_slots_def c assms(3,4,6)) (simp add: tl)
qed

lemma rb_inv_pop:
  assumes "rb_inv rb" "0 < rb_count rb"
    and "rb_size rb' = rb_size rb" "rb_head rb' = rb_next rb (rb_head rb)" "rb_tail rb' = rb_tail rb"
    and "length (rb_data rb') = length (rb_data rb)"
    and "\<And>i. i < rb_size rb \<Longrightarrow> i \<noteq> rb_head rb \<Longrightarrow> rb_data rb' ! i = rb_data rb ! i"
  shows "rb_inv rb'"
  using assms(1,3-6) rb_slots_pop(1)[OF assms(1-5,7)]
  by (auto simp: rb_inv_def rb_next_def)

lemma rb_inv_push:
  assumes "rb_inv rb" "Suc (rb_count rb) < rb_size rb"
    and "rb_size rb' = rb_size rb" "rb_head rb' = rb_head rb" "rb_tail rb' = rb_next rb (rb_tail rb)"
    and "rb_data rb' = (rb_data rb)[rb_tail rb := Live v]"
  shows "rb_inv rb'"
  using assms(1,3-6) rb_slots_push(1)[OF assms]
  by (auto simp: rb_inv_def rb_next_def)

lemma rb_head_live:
  assumes "rb_inv rb" "0 < rb_count rb"
  obtains v where "rb_data rb ! rb_head rb = Live v" "rb_head rb < length (rb_data rb)"
proof -
  obtain v where "rb_data rb ! ring_pos (rb_size rb) (rb_head rb) 0 = Live v"
    using rb_slot_live[OF assms] by blast
  then show ?thesis using assms(1) by (auto simp: ring_pos_0 rb_inv_def intro: that)
qed

text \<open>Destroying the head's value and stepping the head, as \<open>clear\<close> and a full \<open>emplace\<close> do.\<close>

lemma rb_destroy_head:
  assumes "rb_inv rb" "0 < rb_count rb"
  obtains x where "rb_abs rb = x # tl (rb_abs rb)"
    and "rb_destroy (rb_head rb) rb =
           Inr (rb\<lparr>rb_data := (rb_data rb)[rb_head rb := Raw], rb_dtors := rb_dtors rb @ [x]\<rparr>)"
    and "rb_data rb ! rb_head rb = Live x"
proof -
  obtain x where x: "rb_data rb ! rb_head rb = Live x" "rb_head rb < length (rb_data rb)"
    by (rule rb_head_live[OF assms])
  let ?rb' = "rb\<lparr>rb_head := rb_next rb (rb_head rb)\<rparr>"
  have "rb_slots rb = Some x # rb_slots ?rb'"
    using rb_slots_pop(1)[OF assms, of ?rb'] x by simp
  then have "rb_abs rb = x # tl (rb_abs rb)" by (simp add: rb_abs_def)
  with x that show ?thesis by (simp add: rb_destroy_def)
qed

section \<open>What the operations do to the queue\<close>

lemma rb_open_inv:
  assumes "2 \<le> cap" "\<not> is_no_initialize fl"
  obtains rb where "rb_open cap fl True (rb_fresh cap) = Inr rb" "rb_inv rb" "rb_abs rb = []"
    "rb_size rb = cap" "rb_dtors rb = []" "rb_flags rb = fl"
  using assms that
  by (auto simp: rb_open_def rb_fresh_def rb_inv_def rb_abs_def rb_slots_def rb_count_def)

lemma rb_read_empty: "rb_inv rb \<Longrightarrow> rb_abs rb = [] \<Longrightarrow> rb_read rb = Inr (None, rb)"
  using rb_empty_iff[of rb] rb_abs_length[of rb] by (simp add: rb_read_def)

lemma rb_read_front:
  assumes "rb_inv rb" "rb_abs rb = x # xs"
  obtains rb' where "rb_read rb = Inr (Some x, rb')" "rb_inv rb'" "rb_abs rb' = xs"
    "rb_size rb' = rb_size rb" "rb_dtors rb' = rb_dtors rb"
proof -
  have c: "0 < rb_count rb" using assms(2) rb_abs_length[of rb] by simp
  obtain v where v: "rb_data rb ! rb_head rb = Live v" "rb_head rb < length (rb_data rb)"
    by (rule rb_head_live[OF assms(1) c])
  let ?rb' = "rb\<lparr>rb_data := (rb_data rb)[rb_head rb := Moved], rb_head := rb_next rb (rb_head rb)\<rparr>"
  have "rb_slots rb = Some v # rb_slots ?rb'"
    using rb_slots_pop(1)[OF assms(1) c, of ?rb'] v by simp
  then have "v = x" "rb_abs ?rb' = xs" using assms(2) by (auto simp: rb_abs_def)
  moreover have "rb_inv ?rb'" using rb_inv_pop[OF assms(1) c, of ?rb'] by simp
  moreover have "rb_read rb = Inr (Some v, ?rb')"
    using v c rb_empty_iff[OF assms(1)] by (simp add: rb_read_def)
  ultimately show ?thesis using that by simp
qed

lemma rb_emplace_room:
  assumes "rb_inv rb" "Suc (length (rb_abs rb)) < rb_size rb"
  obtains rb' where "rb_emplace v rb = Inr rb'" "rb_inv rb'" "rb_abs rb' = rb_abs rb @ [v]"
    "rb_size rb' = rb_size rb" "rb_dtors rb' = rb_dtors rb"
proof -
  let ?rb' = "rb\<lparr>rb_data := (rb_data rb)[rb_tail rb := Live v], rb_tail := rb_next rb (rb_tail rb)\<rparr>"
  have c: "Suc (rb_count rb) < rb_size rb" using assms(2) by (simp add: rb_abs_length)
  have s: "0 < rb_size rb" "rb_tail rb < length (rb_data rb)" using assms(1) by (auto simp: rb_inv_def)
  have inv: "rb_inv ?rb'" using rb_inv_push[OF assms(1) c, of ?rb' v] by simp
  have "rb_slots ?rb' = rb_slots rb @ [Some v]" "rb_count ?rb' = Suc (rb_count rb)"
    using rb_slots_push[OF assms(1) c, of ?rb' v] by simp_all
  then have abs: "rb_abs ?rb' = rb_abs rb @ [v]" and "rb_head ?rb' \<noteq> rb_tail ?rb'"
    using rb_empty_iff[OF inv] by (auto simp: rb_abs_def)
  moreover have "rb_head rb \<noteq> (rb_tail rb + 1) mod rb_size rb"
    using rb_full_iff[OF assms(1)] c by simp
  ultimately have "rb_emplace v rb = Inr ?rb'"
    using s by (simp add: rb_emplace_def vec_put_def Let_def)
  with inv abs that show ?thesis by simp
qed

lemma rb_emplace_full:
  assumes "rb_inv rb" "Suc (length (rb_abs rb)) = rb_size rb"
  obtains rb' where "rb_emplace v rb = Inr rb'" "rb_inv rb'" "rb_abs rb' = tl (rb_abs rb) @ [v]"
    "rb_size rb' = rb_size rb" "rb_dtors rb' = rb_dtors rb @ [hd (rb_abs rb)]"
proof -
  have c: "Suc (rb_count rb) = rb_size rb" using assms(2) by (simp add: rb_abs_length)
  have n: "2 \<le> rb_size rb" and tl: "rb_tail rb < rb_size rb" and l: "length (rb_data rb) = rb_size rb"
    using assms(1) by (auto simp: rb_inv_def)
  then have pos: "0 < rb_count rb" using c by simp
  obtain x where x: "rb_abs rb = x # tl (rb_abs rb)"
    "rb_destroy (rb_head rb) rb =
       Inr (rb\<lparr>rb_data := (rb_data rb)[rb_head rb := Raw], rb_dtors := rb_dtors rb @ [x]\<rparr>)"
    "rb_data rb ! rb_head rb = Live x" by (rule rb_destroy_head[OF assms(1) pos])
  let ?d = "(rb_data rb)[rb_head rb := Raw]"
  let ?p = "rb\<lparr>rb_data := ?d, rb_dtors := rb_dtors rb @ [x], rb_head := rb_next rb (rb_head rb)\<rparr>"
  let ?rb' = "?p\<lparr>rb_data := ?d[rb_tail rb := Live v], rb_tail := rb_next rb (rb_tail rb)\<rparr>"
  have p: "rb_slots rb = Some x # rb_slots ?p" "rb_count rb = Suc (rb_count ?p)" "rb_inv ?p"
    using rb_slots_pop[OF assms(1) pos, of ?p] rb_inv_pop[OF assms(1) pos, of ?p] x(3) by simp_all
  then have cp: "Suc (rb_count ?p) < rb_size ?p" using c by simp
  have inv: "rb_inv ?rb'" using rb_inv_push[OF p(3) cp, of ?rb' v] by (simp add: rb_next_def)
  have "rb_slots ?rb' = rb_slots ?p @ [Some v]"
    using rb_slots_push(1)[OF p(3) cp, of ?rb' v] by (simp add: rb_next_def)
  then have abs: "rb_abs ?rb' = tl (rb_abs rb) @ [v]" using p(1) by (simp add: rb_abs_def)
  have full: "rb_head rb = (rb_tail rb + 1) mod rb_size rb"
    using rb_full_iff[OF assms(1)] c by simp
  then have e: "rb_next rb (rb_tail rb) = rb_head rb" using rb_next_mod[OF tl] by simp
  have "rb_emplace v rb = Inr ?rb'"
    using n l tl full x(2) e by (simp add: rb_emplace_def vec_put_def Let_def rb_next_def)
  moreover have "x = hd (rb_abs rb)" using x(1) by (metis list.sel(1))
  ultimately show ?thesis using that[of ?rb'] inv abs by simp
qed

lemma rb_clear_loop_abs:
  assumes "rb_inv rb" "length (rb_abs rb) \<le> fuel"
  shows "\<exists>rb'. rb_clear_loop fuel rb = Inr rb' \<and> rb_inv rb' \<and> rb_abs rb' = [] \<and>
           rb_size rb' = rb_size rb \<and> rb_dtors rb' = rb_dtors rb @ rb_abs rb"
  using assms
proof (induction fuel arbitrary: rb)
  case 0
  then have "rb_head rb = rb_tail rb" using rb_empty_iff[of rb] rb_abs_length[of rb] by simp
  with 0 show ?case by (simp add: rb_clear_loop.simps[of _ rb])
next
  case (Suc n)
  show ?case
  proof (cases "rb_abs rb = []")
    case True
    then have "rb_head rb = rb_tail rb" using Suc.prems rb_empty_iff[of rb] rb_abs_length[of rb] by simp
    with True Suc.prems show ?thesis by (simp add: rb_clear_loop.simps[of _ rb])
  next
    case False
    then have pos: "0 < rb_count rb" using rb_abs_length[of rb] by (metis length_greater_0_conv)
    obtain x where x: "rb_abs rb = x # tl (rb_abs rb)"
      "rb_destroy (rb_head rb) rb =
         Inr (rb\<lparr>rb_data := (rb_data rb)[rb_head rb := Raw], rb_dtors := rb_dtors rb @ [x]\<rparr>)"
      "rb_data rb ! rb_head rb = Live x" by (rule rb_destroy_head[OF Suc.prems(1) pos])
    let ?p = "rb\<lparr>rb_data := (rb_data rb)[rb_head rb := Raw], rb_dtors := rb_dtors rb @ [x],
                  rb_head := rb_next rb (rb_head rb)\<rparr>"
    have p: "rb_slots rb = Some x # rb_slots ?p" "rb_inv ?p"
      using rb_slots_pop[OF Suc.prems(1) pos, of ?p] rb_inv_pop[OF Suc.prems(1) pos, of ?p] x(3)
      by simp_all
    then have abs: "rb_abs rb = x # rb_abs ?p" by (simp add: rb_abs_def)
    have "rb_clear_loop (Suc n) rb = rb_clear_loop n ?p"
      using x(2) pos rb_empty_iff[OF Suc.prems(1)]
      by (simp add: rb_clear_loop.simps[of _ rb] rb_next_def)
    moreover have "length (rb_abs ?p) \<le> n" using Suc.prems(2) abs by simp
    ultimately show ?thesis using Suc.IH[OF p(2)] abs by simp
  qed
qed

lemma rb_clear_abs:
  assumes "rb_inv rb"
  obtains rb' where "rb_clear rb = Inr rb'" "rb_inv rb'" "rb_abs rb' = []"
    "rb_size rb' = rb_size rb" "rb_dtors rb' = rb_dtors rb @ rb_abs rb"
proof -
  have "length (rb_abs rb) \<le> rb_size rb"
    using rb_count_less[OF assms] by (simp add: rb_abs_length)
  from rb_clear_loop_abs[OF assms this] that show ?thesis unfolding rb_clear_def by blast
qed

section \<open>The contract: a queue that drops its oldest value when full\<close>

fun put_all :: "('v \<Rightarrow> 'q \<Rightarrow> 'q res) \<Rightarrow> 'v list \<Rightarrow> 'q \<Rightarrow> 'q res" where
  "put_all put [] q = Inr q"
| "put_all put (v # vs) q = and_then (put v q) (put_all put vs)"

text \<open>Reading until the queue reports that it is empty, at most \<open>n\<close> times.\<close>

fun drain :: "('q \<Rightarrow> ('v option \<times> 'q) res) \<Rightarrow> nat \<Rightarrow> 'q \<Rightarrow> 'v list res" where
  "drain get 0 q = Inr []"
| "drain get (Suc n) q =
     and_then (get q) (\<lambda>(r, q'). case r of None \<Rightarrow> Inr []
        | Some v \<Rightarrow> and_then (drain get n q') (\<lambda>vs. Inr (v # vs)))"

definition last_n :: "nat \<Rightarrow> 'a list \<Rightarrow> 'a list" where
  "last_n n xs = drop (length xs - n) xs"

lemma last_n_snoc: "0 < n \<Longrightarrow> last_n n (xs @ [v]) =
    (if length xs < n then xs @ [v] else tl (last_n n xs) @ [v])"
  by (auto simp: last_n_def Suc_diff_le drop_Suc tl_drop)

lemma last_n_last_n: "last_n n (last_n n xs @ ys) = last_n n (xs @ ys)"
proof -
  have "length xs - n + (n + length ys - n) = length (xs @ ys) - n" if "n \<le> length xs"
    using that by simp
  then show ?thesis by (cases "n \<le> length xs") (auto simp: last_n_def add.commute)
qed

locale lossy_queue =
  fixes put :: "'v \<Rightarrow> 'q \<Rightarrow> 'q res"
    and get :: "'q \<Rightarrow> ('v option \<times> 'q) res"
    and cont :: "'q \<Rightarrow> 'v list"
    and limit :: "'q \<Rightarrow> nat"
    and inv :: "'q \<Rightarrow> bool"
  assumes limit_pos: "inv q \<Longrightarrow> 0 < limit q"
    and cont_limit: "inv q \<Longrightarrow> length (cont q) \<le> limit q"
    and put_ok: "inv q \<Longrightarrow> \<exists>q'. put v q = Inr q' \<and> inv q' \<and> limit q' = limit q \<and>
      cont q' = (if length (cont q) < limit q then cont q @ [v] else tl (cont q) @ [v])"
    and get_none: "inv q \<Longrightarrow> cont q = [] \<Longrightarrow> get q = Inr (None, q)"
    and get_some: "inv q \<Longrightarrow> cont q = x # xs \<Longrightarrow>
      \<exists>q'. get q = Inr (Some x, q') \<and> inv q' \<and> cont q' = xs \<and> limit q' = limit q"
begin

lemma put_all_cont:
  "inv q \<Longrightarrow> \<exists>q'. put_all put vs q = Inr q' \<and> inv q' \<and> limit q' = limit q \<and>
     cont q' = last_n (limit q) (cont q @ vs)"
proof (induction vs arbitrary: q)
  case Nil
  then show ?case using cont_limit[of q] by (simp add: last_n_def)
next
  case (Cons v vs)
  from put_ok[OF Cons.prems, of v] obtain q1 where q1: "put v q = Inr q1" "inv q1" "limit q1 = limit q"
    "cont q1 = (if length (cont q) < limit q then cont q @ [v] else tl (cont q) @ [v])" by blast
  have "cont q = last_n (limit q) (cont q)" using cont_limit[OF Cons.prems] by (simp add: last_n_def)
  then have "cont q1 = last_n (limit q) (cont q @ [v])"
    using last_n_snoc[OF limit_pos[OF Cons.prems], of "cont q" v] q1(4) by (simp split: if_splits)
  then have "last_n (limit q) (cont q1 @ vs) = last_n (limit q) (cont q @ v # vs)"
    using last_n_last_n[of "limit q" "cont q @ [v]" vs] by simp
  with Cons.IH[OF q1(2)] q1 show ?case by simp
qed

lemma drain_cont:
  "inv q \<Longrightarrow> length (cont q) \<le> n \<Longrightarrow> drain get n q = Inr (cont q)"
proof (induction n arbitrary: q)
  case 0
  then show ?case by simp
next
  case (Suc n)
  show ?case
  proof (cases "cont q")
    case Nil
    with get_none[OF Suc.prems(1)] show ?thesis by simp
  next
    case (Cons x xs)
    with get_some[OF Suc.prems(1)] obtain q' where "get q = Inr (Some x, q')" "inv q'" "cont q' = xs"
      by blast
    with Suc.IH[of q'] Suc.prems(2) Cons show ?thesis by simp
  qed
qed

lemma put_all_drain:
  "inv q \<Longrightarrow> limit q \<le> n \<Longrightarrow>
     and_then (put_all put vs q) (drain get n) = Inr (last_n (limit q) (cont q @ vs))"
  using put_all_cont[of q vs] drain_cont cont_limit by fastforce

end

definition rb_limit :: "'v ring_buffer \<Rightarrow> nat" where
  "rb_limit rb = rb_size rb - 1"

lemma rb_emplace_cases:
  assumes "rb_inv rb"
  shows "\<exists>rb'. rb_emplace v rb = Inr rb' \<and> rb_inv rb' \<and> rb_limit rb' = rb_limit rb \<and>
    rb_abs rb' = (if length (rb_abs rb) < rb_limit rb then rb_abs rb @ [v] else tl (rb_abs rb) @ [v]) \<and>
    rb_dtors rb' @ rb_abs rb' = rb_dtors rb @ rb_abs rb @ [v]"
proof (cases "Suc (length (rb_abs rb)) < rb_size rb")
  case True
  from rb_emplace_room[OF assms this, of v] True show ?thesis by (fastforce simp: rb_limit_def)
next
  case False
  then have f: "Suc (length (rb_abs rb)) = rb_size rb"
    using rb_count_less[OF assms] by (simp add: rb_abs_length)
  then have "rb_abs rb \<noteq> []" using assms by (auto simp: rb_inv_def)
  then have "hd (rb_abs rb) # tl (rb_abs rb) = rb_abs rb" by simp
  with rb_emplace_full[OF assms f, of v] f show ?thesis
    by (metis (no_types, lifting) Suc_lessI append.assoc append_Cons append_Nil diff_Suc_1
        less_not_refl rb_limit_def)
qed

interpretation rbq: lossy_queue rb_emplace rb_read rb_abs rb_limit rb_inv
proof unfold_locales
  fix q :: "'v ring_buffer" and v x xs
  assume inv: "rb_inv q"
  show "0 < rb_limit q" using inv by (auto simp: rb_inv_def rb_limit_def)
  show "length (rb_abs q) \<le> rb_limit q"
    using rb_count_less[OF inv] by (simp add: rb_abs_length rb_limit_def)
  show "\<exists>q'. rb_emplace v q = Inr q' \<and> rb_inv q' \<and> rb_limit q' = rb_limit q \<and>
      rb_abs q' = (if length (rb_abs q) < rb_limit q then rb_abs q @ [v] else tl (rb_abs q) @ [v])"
    using rb_emplace_cases[OF inv, of v] by blast
  show "rb_read q = Inr (None, q)" if "rb_abs q = []" using rb_read_empty[OF inv that] .
  show "\<exists>q'. rb_read q = Inr (Some x, q') \<and> rb_inv q' \<and> rb_abs q' = xs \<and> rb_limit q' = rb_limit q"
    if "rb_abs q = x # xs" using rb_read_front[OF inv that] by (metis rb_limit_def)
qed

section \<open>Properties\<close>

definition rb_emplace_all :: "'v list \<Rightarrow> 'v ring_buffer \<Rightarrow> 'v ring_buffer res" where
  "rb_emplace_all = put_all rb_emplace"

text \<open>C1: A ring buffer opened with capacity at least 2 is a lossy FIFO queue of
  \<open>capacity - 1\<close> places: after any sequence of \<open>emplace\<close> calls, reading until it is empty
  returns the last \<open>capacity - 1\<close> values in the order they were emplaced.\<close>

theorem rb_fifo:
  fixes vs :: "'v list"
  assumes "2 \<le> cap" "\<not> is_no_initialize fl"
  shows "and_then (rb_open cap fl True (rb_fresh cap))
           (\<lambda>rb. and_then (rb_emplace_all vs rb) (drain rb_read cap)) = Inr (last_n (cap - 1) vs)"
proof -
  obtain rb :: "'v ring_buffer" where rb: "rb_open cap fl True (rb_fresh cap) = Inr rb"
    "rb_inv rb" "rb_abs rb = []" "rb_size rb = cap" by (rule rb_open_inv[OF assms])
  show ?thesis
    using rbq.put_all_drain[OF rb(2), of cap vs] rb by (simp add: rb_emplace_all_def rb_limit_def)
qed

theorem rb_fifo_witness:
  "and_then (rb_open 3 flag_none True (rb_fresh 3))
     (\<lambda>rb. and_then (rb_emplace_all [7, 8, 9 :: nat] rb) (drain rb_read 3)) = Inr [8, 9]"
proof -
  have "\<not> is_no_initialize flag_none"
    by (simp add: is_no_initialize_def flags_and_def flag_none_def no_initialize_def)
  from rb_fifo[of 3, OF _ this, of "[7, 8, 9]"] show ?thesis by (simp add: last_n_def)
qed

lemma rb_emplace_all_history:
  "rb_inv rb \<Longrightarrow> \<exists>rb'. rb_emplace_all vs rb = Inr rb' \<and> rb_inv rb' \<and>
     rb_dtors rb' @ rb_abs rb' = rb_dtors rb @ rb_abs rb @ vs"
proof (induction vs arbitrary: rb)
  case Nil
  then show ?case by (simp add: rb_emplace_all_def)
next
  case (Cons v vs)
  from rb_emplace_cases[OF Cons.prems, of v] obtain rb1 where
    rb1: "rb_emplace v rb = Inr rb1" "rb_inv rb1"
      "rb_dtors rb1 @ rb_abs rb1 = rb_dtors rb @ rb_abs rb @ [v]" by blast
  from Cons.IH[OF rb1(2)] rb1 show ?case
    by (metis (no_types, lifting) and_then_Inr append.assoc append_Cons append_Nil
        put_all.simps(2) rb_emplace_all_def)
qed

text \<open>C26: No value leaks and none is destroyed twice: after any sequence of \<open>emplace\<close> calls
  and a \<open>clear\<close> (which the destructor runs), the destructors that ran are those of exactly
  the emplaced values, oldest first, and the buffer is empty.\<close>

theorem rb_destructors:
  assumes "rb_inv rb" "rb_abs rb = []" "rb_dtors rb = []"
  shows "\<exists>rb'. and_then (rb_emplace_all vs rb) rb_clear = Inr rb' \<and> rb_dtors rb' = vs \<and> rb_abs rb' = []"
proof -
  obtain rb1 where rb1: "rb_emplace_all vs rb = Inr rb1" "rb_inv rb1"
    "rb_dtors rb1 @ rb_abs rb1 = vs" using rb_emplace_all_history[OF assms(1), of vs] assms(2,3) by auto
  show ?thesis by (rule rb_clear_abs[OF rb1(2)]) (use rb1 in simp)
qed

theorem rb_destructors_witness:
  "\<exists>rb'. and_then (rb_emplace_all [7, 8, 9 :: nat]
            ((rb_fresh 3)\<lparr>rb_size := 3\<rparr>)) rb_clear = Inr rb' \<and> rb_dtors rb' = [7, 8, 9] \<and> rb_abs rb' = []"
  by (rule rb_destructors)
     (auto simp: rb_inv_def rb_fresh_def rb_slots_def rb_count_def rb_abs_def)

text \<open>\<open>size()\<close> is right while the content does not wrap around the end of the array,
  and never right once it does: in every wrapped state it differs from the number of values
  that are in the buffer.\<close>

theorem rb_length_right_iff:
  assumes "rb_inv rb"
  shows "rb_length rb = length (rb_abs rb) \<longleftrightarrow> rb_head rb \<le> rb_tail rb"
  using assms by (simp add: rb_abs_length) (auto simp: rb_inv_def rb_length_def rb_count_def; presburger)

theorem rb_length_right_iff_witness:
  "\<exists>rb. and_then (rb_open 3 flag_none True (rb_fresh 3)) (rb_emplace_all [1, 2, 3 :: nat]) = Inr rb \<and>
     rb_abs rb = [2, 3] \<and> rb_length rb \<noteq> length (rb_abs rb)"
proof -
  let ?rb = "\<lparr>rb_size = 3, rb_head = 1, rb_tail = 0, rb_data = [Raw, Live 2, Live (3 :: nat)],
              rb_flags = flag_none, rb_dtors = [1]\<rparr>"
  have run: "and_then (rb_open 3 flag_none True (rb_fresh 3)) (rb_emplace_all [1, 2, 3]) = Inr ?rb"
    by code_simp
  have "rb_inv ?rb" and "rb_abs ?rb = [2, 3]"
    by (simp_all add: rb_inv_def rb_abs_def rb_slots_def rb_count_def ring_pos_def numeral_2_eq_2)
  with run rb_length_right_iff[of ?rb] show ?thesis by auto
qed

text \<open>A buffer of capacity 1 cannot be used: the first \<open>emplace\<close> takes the empty buffer
  for a full one and runs the destructor on raw memory; capacity 0 divides by zero.\<close>

theorem rb_tiny_capacity:
  "and_then (rb_open 1 flag_none True (rb_fresh 1)) (rb_emplace v) = Inl UB \<and>
   and_then (rb_open 0 flag_none True (rb_fresh 0)) (rb_emplace v) = Inl UB"
  by (simp add: rb_open_def rb_fresh_def is_no_initialize_def flags_and_def flag_none_def
      no_initialize_def rb_emplace_def rb_destroy_def)

end
