(* ===== verification/CsvSplitter.thy ===== *)
theory CsvSplitter
  imports TxlPrelude
begin

text \<open>
  The CSV reader of \<^verbatim>\<open>include/txl/csv.h\<close>: the character-driven state machine \<open>splitter\<close>,
  the column iterator \<open>string_view_splitter\<close>, and the line and document parsers on top of it.
  The character type is \<open>char\<close>.
\<close>

section \<open>The splitter\<close>

datatype splitter_status = StAdd | StMoreData | StDelimiter | StNoOp

datatype csv_state = Begin | Data | BeginQuote | QuoteData | EndQuote | Delimiter

definition QUOTE :: char where "QUOTE = CHR 0x22"

record splitter =
  sp_delim :: char
  sp_state :: csv_state

definition sp_new :: "char \<Rightarrow> splitter" where
  "sp_new d = \<lparr>sp_delim = d, sp_state = Begin\<rparr>"

definition sp_reset :: "splitter \<Rightarrow> splitter" where
  "sp_reset sp = sp\<lparr>sp_state := Begin\<rparr>"

definition sp_push :: "char \<Rightarrow> splitter \<Rightarrow> splitter_status \<times> splitter" where
  "sp_push ch sp =
     (case sp_state sp of
        Begin \<Rightarrow>
          if ch = QUOTE then (StAdd, sp\<lparr>sp_state := QuoteData\<rparr>)
          else if ch = sp_delim sp then (StDelimiter, sp\<lparr>sp_state := Delimiter\<rparr>)
          else (StAdd, sp\<lparr>sp_state := Data\<rparr>)
      | Data \<Rightarrow>
          if ch \<noteq> sp_delim sp then (StAdd, sp)
          else (StDelimiter, sp\<lparr>sp_state := Delimiter\<rparr>)
      | BeginQuote \<Rightarrow>
          if ch \<noteq> QUOTE then (StAdd, sp\<lparr>sp_state := QuoteData\<rparr>)
          else (StMoreData, sp\<lparr>sp_state := EndQuote\<rparr>)
      | QuoteData \<Rightarrow>
          if ch \<noteq> QUOTE then (StAdd, sp)
          else (StMoreData, sp\<lparr>sp_state := EndQuote\<rparr>)
      | EndQuote \<Rightarrow>
          if ch = QUOTE then (StAdd, sp\<lparr>sp_state := QuoteData\<rparr>)
          else if ch = sp_delim sp then (StDelimiter, sp\<lparr>sp_state := Delimiter\<rparr>)
          else (StAdd, sp\<lparr>sp_state := Data\<rparr>)
      | Delimiter \<Rightarrow>
          if ch = QUOTE then (StMoreData, sp\<lparr>sp_state := BeginQuote\<rparr>)
          else (StAdd, sp\<lparr>sp_state := Data\<rparr>))"

section \<open>Columns of a string\<close>

datatype split_status = SplDelimiter | SplEndOfLine | SplEmpty

record view_splitter =
  vs_sp :: splitter
  vs_str :: string

definition vs_new :: "string \<Rightarrow> char \<Rightarrow> view_splitter" where
  "vs_new s d = \<lparr>vs_sp = sp_new d, vs_str = s\<rparr>"

definition vs_reset :: "string \<Rightarrow> view_splitter \<Rightarrow> view_splitter" where
  "vs_reset s v = v\<lparr>vs_str := s, vs_sp := sp_reset (vs_sp v)\<rparr>"

definition vs_empty :: "view_splitter \<Rightarrow> bool" where
  "vs_empty v \<longleftrightarrow> vs_str v = []"

text \<open>The loop of \<open>next\<close>: the characters handed to the callback, whether a delimiter stopped
  it, the splitter and the rest of the string.\<close>

fun vs_loop :: "splitter \<Rightarrow> string \<Rightarrow> string \<Rightarrow> string \<times> bool \<times> splitter \<times> string" where
  "vs_loop sp [] out = (out, False, sp, [])"
| "vs_loop sp (c # cs) out =
     (case sp_push c sp of
        (StAdd, sp') \<Rightarrow> vs_loop sp' cs (out @ [c])
      | (StDelimiter, sp') \<Rightarrow> (out, True, sp', cs)
      | (_, sp') \<Rightarrow> vs_loop sp' cs out)"

definition vs_next :: "view_splitter \<Rightarrow> string \<Rightarrow> split_status \<times> string \<times> view_splitter" where
  "vs_next v dst =
     (if vs_empty v then (SplEmpty, dst, v)
      else case vs_loop (vs_sp v) (vs_str v) dst of
        (out, hit, sp', rest) \<Rightarrow>
          (if hit then SplDelimiter else SplEndOfLine, out, v\<lparr>vs_sp := sp', vs_str := rest\<rparr>))"

section \<open>Lines\<close>

text \<open>
  The lambda writer of \<open>parse_line\<close>: each character goes through the splitter; a delimiter
  hands the buffered column to \<open>dst\<close> (here: appends it to the row). The state is the splitter,
  the column buffer and the row.
\<close>

type_synonym line_state = "splitter \<times> string \<times> string list"

definition line_init :: line_state where
  "line_init = (sp_new CHR '','', [], [])"

fun line_char :: "char \<Rightarrow> line_state \<Rightarrow> line_state" where
  "line_char c (sp, buf, row) =
     (case sp_push c sp of
        (StAdd, sp') \<Rightarrow> (sp', buf @ [c], row)
      | (StDelimiter, sp') \<Rightarrow> (sp', [], row @ [buf])
      | (_, sp') \<Rightarrow> (sp', buf, row))"

text \<open>
  \<open>copy_until\<close> reads one character at a time. The reader is the list of its answers: a
  character, the end of the data, or an error. It returns the number of characters read,
  newline included, and what the reader has left.
\<close>

datatype ('e) rd_answer = Ch char | RdEof | RdErr 'e

fun copy_until_line :: "'e rd_answer list \<Rightarrow> nat \<Rightarrow> line_state \<Rightarrow>
    ('e + nat) \<times> line_state \<times> 'e rd_answer list" where
  "copy_until_line [] n st = (Inr n, st, [])"
| "copy_until_line (RdErr e # rs) n st = (Inl e, st, rs)"
| "copy_until_line (RdEof # rs) n st = (Inr n, st, rs)"
| "copy_until_line (Ch c # rs) n st =
     (if c = CHR 0x0A then (Inr (Suc n), st, rs)
      else copy_until_line rs (Suc n) (line_char c st))"

definition parse_line :: "'e rd_answer list \<Rightarrow> ('e + nat) \<times> string list \<times> 'e rd_answer list" where
  "parse_line rd =
     (case copy_until_line rd 0 line_init of
        (res, (sp, buf, row), rd') \<Rightarrow> (res, if buf \<noteq> [] then row @ [buf] else row, rd'))"

section \<open>Documents\<close>

type_synonym row = "string list"

record row_view =
  rv_row :: row
  rv_header :: "row option"

definition row_view_get :: "row_view \<Rightarrow> nat \<Rightarrow> string res" where
  "row_view_get v i = vec_get (rv_row v) i"

definition row_view_size :: "row_view \<Rightarrow> nat" where
  "row_view_size v = length (rv_row v)"

fun find_index :: "'a \<Rightarrow> 'a list \<Rightarrow> nat" where
  "find_index x [] = 0"
| "find_index x (y # ys) = (if y = x then 0 else Suc (find_index x ys))"

definition row_view_key :: "row_view \<Rightarrow> string \<Rightarrow> string res" where
  "row_view_key v key =
     (case rv_header v of
        None \<Rightarrow> Inl (RuntimeError ''no header row specified'')
      | Some h \<Rightarrow>
          let idx = find_index key h
          in if idx = length h then Inl (RuntimeError ''key not found'')
             else if idx \<ge> length (rv_row v) then Inl (RuntimeError ''index out-of-bounds'')
             else row_view_get v idx)"

record document =
  doc_rows :: "row list"
  doc_use_header :: bool

definition doc_new :: "row list \<Rightarrow> bool \<Rightarrow> document" where
  "doc_new rows h = \<lparr>doc_rows = rows, doc_use_header = h\<rparr>"

definition doc_get :: "document \<Rightarrow> nat \<Rightarrow> row_view res" where
  "doc_get d i =
     (if doc_use_header d then
        and_then (vec_get (doc_rows d) (i + 1)) (\<lambda>r.
          and_then (vec_get (doc_rows d) 0) (\<lambda>h. Inr \<lparr>rv_row = r, rv_header = Some h\<rparr>))
      else and_then (vec_get (doc_rows d) i) (\<lambda>r. Inr \<lparr>rv_row = r, rv_header = None\<rparr>))"

definition doc_clear :: "document \<Rightarrow> document" where
  "doc_clear d = d\<lparr>doc_rows := []\<rparr>"

definition doc_insert :: "nat \<Rightarrow> row \<Rightarrow> document \<Rightarrow> document res" where
  "doc_insert i r d = and_then (vec_emplace i r (doc_rows d)) (\<lambda>rs. Inr (d\<lparr>doc_rows := rs\<rparr>))"

definition doc_erase :: "nat \<Rightarrow> document \<Rightarrow> document res" where
  "doc_erase i d = and_then (vec_erase i (doc_rows d)) (\<lambda>rs. Inr (d\<lparr>doc_rows := rs\<rparr>))"

definition doc_add :: "row \<Rightarrow> document \<Rightarrow> document" where
  "doc_add r d = d\<lparr>doc_rows := doc_rows d @ [r]\<rparr>"

definition doc_size :: "document \<Rightarrow> 64 word" where
  "doc_size d =
     (if doc_use_header d then of_nat (length (doc_rows d)) - 1 else of_nat (length (doc_rows d)))"

section \<open>Whole documents\<close>

lemma copy_until_line_length:
  "copy_until_line rd n st = (Inr m, st', rd') \<Longrightarrow>
     n \<le> m \<and> length rd' \<le> length rd \<and> (m \<noteq> n \<longrightarrow> length rd' < length rd)"
  by (induction rd n st rule: copy_until_line.induct) (auto split: if_splits)

lemma parse_line_length:
  "parse_line rd = (Inr m, r, rd') \<Longrightarrow> m \<noteq> 0 \<Longrightarrow> length rd' < length rd"
  by (auto simp: parse_line_def split: prod.splits dest: copy_until_line_length)

function parse_document :: "'e rd_answer list \<Rightarrow> nat \<Rightarrow> document \<Rightarrow> ('e + nat) \<times> document" where
  "parse_document rd bytes_read d =
     (case parse_line rd of
        (Inl e, r, rd') \<Rightarrow> (Inl e, d)
      | (Inr m, r, rd') \<Rightarrow>
          if m = 0 then (Inr bytes_read, d) else parse_document rd' (bytes_read + m) (doc_add r d))"
  by pat_completeness auto
termination
  by (relation "measure (\<lambda>(rd, _, _). length rd)") (auto dest!: parse_line_length[OF sym])

declare parse_document.simps [simp del]

section \<open>Runs of the line machine\<close>

lemma copy_until_chars:
  "CHR 0x0A \<notin> set cs \<Longrightarrow>
   copy_until_line (map Ch cs @ rs) n st = copy_until_line rs (n + length cs) (fold line_char cs st)"
  by (induction cs arbitrary: n st) auto

definition row_of :: "string \<Rightarrow> row" where
  "row_of cs = (case fold line_char cs line_init of (_, buf, r) \<Rightarrow> if buf \<noteq> [] then r @ [buf] else r)"

lemma parse_line_newline:
  "CHR 0x0A \<notin> set cs \<Longrightarrow> parse_line (map Ch cs @ Ch CHR 0x0A # rs) = (Inr (Suc (length cs)), row_of cs, rs)"
  by (simp add: parse_line_def copy_until_chars row_of_def split: prod.splits)

lemma parse_line_end:
  "CHR 0x0A \<notin> set cs \<Longrightarrow>
   parse_line (map Ch cs :: 'e rd_answer list) = (Inr (length cs), row_of cs, [])"
  using copy_until_chars[of cs "[] :: 'e rd_answer list" 0 line_init]
  by (cases "fold line_char cs line_init") (auto simp: parse_line_def row_of_def)

text \<open>Text outside quotes: no delimiter in it.\<close>

lemma fold_data:
  "CHR '','' \<notin> set cs \<Longrightarrow>
   fold line_char cs (\<lparr>sp_delim = CHR '','', sp_state = Data\<rparr>, buf, r) =
     (\<lparr>sp_delim = CHR '','', sp_state = Data\<rparr>, buf @ cs, r)"
  by (induction cs arbitrary: buf) (auto simp: sp_push_def)

definition plain :: "string \<Rightarrow> bool" where
  "plain cs \<longleftrightarrow> cs \<noteq> [] \<and> hd cs \<noteq> QUOTE \<and> CHR '','' \<notin> set cs \<and> CHR 0x0A \<notin> set cs"

lemma fold_plain:
  assumes "plain cs" "st = Begin \<or> st = Delimiter"
  shows "fold line_char cs (\<lparr>sp_delim = CHR '','', sp_state = st\<rparr>, [], r) =
     (\<lparr>sp_delim = CHR '','', sp_state = Data\<rparr>, cs, r)"
proof -
  obtain c cs' where cs: "cs = c # cs'" using assms(1) by (cases cs) (auto simp: plain_def)
  have "line_char c (\<lparr>sp_delim = CHR '','', sp_state = st\<rparr>, [], r) =
      (\<lparr>sp_delim = CHR '','', sp_state = Data\<rparr>, [c], r)"
    using assms by (auto simp: cs plain_def sp_push_def)
  then show ?thesis using fold_data[of cs' "[c]" r] assms(1) by (simp add: cs plain_def)
qed

text \<open>A quoted column, each quote in it written twice.\<close>

definition escape :: "string \<Rightarrow> string" where
  "escape col = concat (map (\<lambda>c. if c = QUOTE then [QUOTE, QUOTE] else [c]) col)"

definition quoted :: "string \<Rightarrow> string" where
  "quoted col = QUOTE # escape col @ [QUOTE]"

lemma escape_simps [simp]:
  "escape [] = []" "escape (c # cs) = (if c = QUOTE then [QUOTE, QUOTE] else [c]) @ escape cs"
  by (simp_all add: escape_def)

lemma newline_quoted: "CHR 0x0A \<notin> set col \<Longrightarrow> CHR 0x0A \<notin> set (quoted col)"
  by (induction col) (auto simp: quoted_def QUOTE_def)

lemma fold_escape:
  "fold line_char (escape col) (\<lparr>sp_delim = CHR '','', sp_state = QuoteData\<rparr>, buf, r) =
     (\<lparr>sp_delim = CHR '','', sp_state = QuoteData\<rparr>, buf @ col, r)"
  by (induction col arbitrary: buf) (auto simp: sp_push_def)

lemma fold_quoted:
  "fold line_char (quoted col) (\<lparr>sp_delim = CHR '','', sp_state = Delimiter\<rparr>, [], r) =
     (\<lparr>sp_delim = CHR '','', sp_state = EndQuote\<rparr>, col, r)"
proof (cases col)
  case Nil
  then show ?thesis by (simp add: quoted_def sp_push_def)
next
  case (Cons c cs)
  then show ?thesis by (simp add: quoted_def sp_push_def fold_escape)
qed

definition csv_line :: "string \<Rightarrow> string list \<Rightarrow> string" where
  "csv_line c0 cols = c0 @ concat (map (\<lambda>c. CHR '','' # quoted c) cols)"

lemma fold_columns:
  assumes "st = Data \<or> st = EndQuote"
  shows "\<exists>st'. fold line_char (concat (map (\<lambda>c. CHR '','' # quoted c) cols))
       (\<lparr>sp_delim = CHR '','', sp_state = st\<rparr>, buf, r) =
     (\<lparr>sp_delim = CHR '','', sp_state = st'\<rparr>, last (buf # cols), r @ butlast (buf # cols))"
  using assms
proof (induction cols arbitrary: st buf r)
  case Nil
  then show ?case by auto
next
  case (Cons c cols)
  have "line_char CHR '','' (\<lparr>sp_delim = CHR '','', sp_state = st\<rparr>, buf, r) =
      (\<lparr>sp_delim = CHR '','', sp_state = Delimiter\<rparr>, [], r @ [buf])"
    using Cons.prems by (auto simp: sp_push_def QUOTE_def)
  with Cons.IH[of EndQuote c "r @ [buf]"] show ?case by (simp add: fold_quoted)
qed

section \<open>Properties\<close>

text \<open>C3: Reading back what was written: a line of an unquoted first column and any further
  columns, quoted with their quotes doubled (any characters but newline, empty ones too), parses into exactly
  those columns, consumes the line with its newline, and leaves the rest unread; only an empty last
  column is dropped.\<close>

theorem csv_line_roundtrip:
  assumes "plain c0" "\<And>c. c \<in> set cols \<Longrightarrow> CHR 0x0A \<notin> set c"
  shows "parse_line (map Ch (csv_line c0 cols) @ Ch CHR 0x0A # rs) =
    (Inr (Suc (length (csv_line c0 cols))), if last (c0 # cols) = [] then butlast (c0 # cols) else c0 # cols, rs)"
proof -
  have nl: "CHR 0x0A \<notin> set (csv_line c0 cols)"
    using assms newline_quoted by (auto simp: csv_line_def plain_def)
  have "fold line_char c0 line_init = (\<lparr>sp_delim = CHR '','', sp_state = Data\<rparr>, c0, [])"
    using fold_plain[OF assms(1), of Begin "[]"] by (simp add: line_init_def sp_new_def)
  with fold_columns[of Data cols c0 "[]"] obtain st' where
    "fold line_char (csv_line c0 cols) line_init =
       (\<lparr>sp_delim = CHR '','', sp_state = st'\<rparr>, last (c0 # cols), butlast (c0 # cols))"
    by (auto simp: csv_line_def)
  then have "row_of (csv_line c0 cols) =
      (if last (c0 # cols) = [] then butlast (c0 # cols) else butlast (c0 # cols) @ [last (c0 # cols)])"
    unfolding row_of_def by (simp only: prod.case if_not_P split: if_split) simp
  then have "row_of (csv_line c0 cols) = (if last (c0 # cols) = [] then butlast (c0 # cols) else c0 # cols)"
    by (simp only: append_butlast_last_id list.distinct simp_thms)
  with parse_line_newline[OF nl, of rs] show ?thesis by simp
qed

theorem csv_line_roundtrip_witness:
  "parse_line (map Ch (csv_line ''id'' [''a,b'', [], [CHR ''x'', QUOTE]]) @ [Ch CHR 0x0A] :: unit rd_answer list)
     = (Inr 18, [''id'', ''a,b'', [], [CHR ''x'', QUOTE]], [])"
proof -
  have l: "length (csv_line ''id'' [''a,b'', [], [CHR ''x'', QUOTE]]) = 17" by code_simp
  have p: "plain ''id''" by code_simp
  have nl: "CHR 0x0A \<notin> set c" if "c \<in> set [''a,b'', [], [CHR ''x'', QUOTE]]" for c
    using that by (auto simp: QUOTE_def)
  from csv_line_roundtrip[where cols = "[''a,b'', [], [CHR ''x'', QUOTE]]"
      and rs = "[] :: unit rd_answer list", OF p nl] l
  show ?thesis by simp
qed

text \<open>The lines of a text: pieces ended by a newline, and the last piece unless it is empty.\<close>

fun csv_lines :: "string \<Rightarrow> string \<Rightarrow> string list" where
  "csv_lines acc [] = (if acc = [] then [] else [acc])"
| "csv_lines acc (c # cs) = (if c = CHR 0x0A then acc # csv_lines [] cs else csv_lines (acc @ [c]) cs)"

lemma csv_lines_plain:
  "CHR 0x0A \<notin> set cs \<Longrightarrow> csv_lines acc cs = (if acc @ cs = [] then [] else [acc @ cs])"
  by (induction cs arbitrary: acc) auto

lemma csv_lines_newline:
  "CHR 0x0A \<notin> set cs \<Longrightarrow> csv_lines acc (cs @ CHR 0x0A # rest) = (acc @ cs) # csv_lines [] rest"
  by (induction cs arbitrary: acc) auto

text \<open>C13: \<open>parse_document\<close> always ends; on a text of any length it reads every character,
  returns their number, and appends one row per line, each row being the columns the line
  machine collects on that line alone.\<close>

theorem parse_document_lines:
  "parse_document (map Ch cs :: 'e rd_answer list) n d =
     (Inr (n + length cs), d\<lparr>doc_rows := doc_rows d @ map row_of (csv_lines [] cs)\<rparr>)"
proof (induction "length cs" arbitrary: cs n d rule: less_induct)
  case less
  show ?case
  proof (cases "CHR 0x0A \<in> set cs")
    case True
    then obtain l rest where cs: "cs = l @ CHR 0x0A # rest" "CHR 0x0A \<notin> set l"
      using split_list_first[of "CHR 0x0A" cs] by blast
    then have "length rest < length cs" by simp
    note ih = less[OF this, of "n + Suc (length l)" "doc_add (row_of l) d"]
    have "parse_line (map Ch cs :: 'e rd_answer list) = (Inr (Suc (length l)), row_of l, map Ch rest)"
      using parse_line_newline[OF cs(2), of "map Ch rest"] by (simp add: cs(1))
    then show ?thesis
      using ih by (simp add: parse_document.simps[of "map Ch cs"])
         (simp add: cs doc_add_def csv_lines_newline)
  next
    case False
    note pl = parse_line_end[OF False, where 'e = 'e]
    show ?thesis
    proof (cases "cs = []")
      case True
      with pl show ?thesis by (simp add: parse_document.simps[of "[]"])
    next
      case ne: False
      have "parse_line ([] :: 'e rd_answer list) = (Inr 0, row_of [], [])"
        using parse_line_end[of "[]", where 'e = 'e] by simp
      with pl ne show ?thesis
        by (simp add: parse_document.simps[of "map Ch cs"] parse_document.simps[of "[]"]
            doc_add_def csv_lines_plain[OF False])
    qed
  qed
qed

text \<open>An empty field in the middle of a line is lost: on \<open>a,,b\<close> the second comma is taken
  as data, so the line parses into the two columns \<open>a\<close> and \<open>,b\<close> instead of three.\<close>

theorem csv_empty_field:
  assumes "plain a" "plain b"
  shows "parse_line (map Ch (a @ '',,'' @ b)) = (Inr (length a + 2 + length b), [a, CHR '','' # b], [])"
proof -
  have nl: "CHR 0x0A \<notin> set (a @ '',,'' @ b)" using assms by (auto simp: plain_def)
  have "fold line_char a line_init = (\<lparr>sp_delim = CHR '','', sp_state = Data\<rparr>, a, [])"
    using fold_plain[OF assms(1), of Begin "[]"] by (simp add: line_init_def sp_new_def)
  then have "fold line_char (a @ '',,'' @ b) line_init =
      (\<lparr>sp_delim = CHR '','', sp_state = Data\<rparr>, CHR '','' # b, [a])"
    using fold_data[of b "'',''" "[a]"] assms(2) by (simp add: sp_push_def QUOTE_def plain_def)
  then have "row_of (a @ '',,'' @ b) = [a, CHR '','' # b]" by (simp add: row_of_def)
  with parse_line_end[OF nl] show ?thesis by simp
qed

theorem csv_empty_field_witness:
  "parse_line (map Ch ''1,,2'' :: unit rd_answer list) = (Inr 4, [''1'', '',2''], [])"
proof -
  have "plain ''1''" "plain ''2''" by code_simp+
  from csv_empty_field[OF this, where 'a = unit] show ?thesis by simp
qed

text \<open>A quoted first column keeps its opening quote: the column the caller gets is the quote
  followed by the text (from the second column on, the same text comes out without it).\<close>

theorem csv_first_quote_kept:
  assumes "CHR 0x0A \<notin> set col"
  shows "parse_line (map Ch (quoted col)) = (Inr (length (quoted col)), [QUOTE # col], [])"
proof -
  have "fold line_char (quoted col) line_init =
      (\<lparr>sp_delim = CHR '','', sp_state = EndQuote\<rparr>, QUOTE # col, [])"
    using fold_escape[of col "[QUOTE]" "[]"]
    by (simp add: quoted_def line_init_def sp_new_def sp_push_def)
  then have "row_of (quoted col) = [QUOTE # col]" by (simp add: row_of_def)
  with parse_line_end[OF newline_quoted[OF assms]] show ?thesis by simp
qed

theorem csv_first_quote_kept_witness:
  "parse_line (map Ch (quoted ''ab'') :: unit rd_answer list) = (Inr 4, [QUOTE # ''ab''], [])"
  using csv_first_quote_kept[of "''ab''", where 'a = unit] by (simp add: quoted_def QUOTE_def)

end
