(* ===== verification/SortedSet.thy ===== *)
theory SortedSet
  imports TxlPrelude "HOL-Library.Multiset"
begin

text \<open>
  The sorted-vector set of \<^verbatim>\<open>include/txl/set.h\<close>, the vector and the sorted adaptor of
  \<^verbatim>\<open>vector.h\<close> and \<^verbatim>\<open>sorted.h\<close>, and the \<open>lower_bound\<close>/\<open>upper_bound\<close> helpers of
  \<^verbatim>\<open>patterns.h\<close> they call. A container is the list of its values, an iterator is an index
  (the length is \<open>end()\<close>), and the comparison \<open>Less\<close> is a parameter \<open>lt\<close>. What the set
  needs of its comparison is the locale \<open>strict_order\<close>.
\<close>

section \<open>Bounds\<close>

definition lower_bound :: "('a \<Rightarrow> 'k \<Rightarrow> bool) \<Rightarrow> 'a list \<Rightarrow> 'k \<Rightarrow> nat" where
  "lower_bound cmp xs k = partition_point (\<lambda>x. cmp x k) xs"

definition upper_bound :: "('k \<Rightarrow> 'a \<Rightarrow> bool) \<Rightarrow> 'a list \<Rightarrow> 'k \<Rightarrow> nat" where
  "upper_bound cmp xs k = partition_point (\<lambda>x. \<not> cmp k x) xs"

section \<open>The set\<close>

definition LINEAR_SEARCH_LIMIT :: nat where "LINEAR_SEARCH_LIMIT = 50"

definition equiv_at :: "('a \<Rightarrow> 'a \<Rightarrow> bool) \<Rightarrow> 'a \<Rightarrow> 'a \<Rightarrow> bool" where
  "equiv_at lt e v \<longleftrightarrow> \<not> lt e v \<and> \<not> lt v e"

fun find_if :: "('a \<Rightarrow> bool) \<Rightarrow> 'a list \<Rightarrow> nat" where
  "find_if p [] = 0"
| "find_if p (x # xs) = (if p x then 0 else Suc (find_if p xs))"

definition linear_search :: "('a \<Rightarrow> 'a \<Rightarrow> bool) \<Rightarrow> 'a \<Rightarrow> 'a list \<Rightarrow> nat" where
  "linear_search lt v xs = find_if (\<lambda>e. equiv_at lt e v) xs"

definition bisect :: "('a \<Rightarrow> 'a \<Rightarrow> bool) \<Rightarrow> 'a \<Rightarrow> 'a list \<Rightarrow> nat" where
  "bisect lt v xs =
     (let it = lower_bound lt xs v
      in if it \<noteq> length xs \<and> equiv_at lt (xs ! it) v then it else length xs)"

definition set_find :: "('a \<Rightarrow> 'a \<Rightarrow> bool) \<Rightarrow> 'a \<Rightarrow> 'a list \<Rightarrow> nat" where
  "set_find lt v xs =
     (if length xs \<le> LINEAR_SEARCH_LIMIT then linear_search lt v xs else bisect lt v xs)"

definition set_contains :: "('a \<Rightarrow> 'a \<Rightarrow> bool) \<Rightarrow> 'a \<Rightarrow> 'a list \<Rightarrow> bool" where
  "set_contains lt v xs \<longleftrightarrow> set_find lt v xs \<noteq> length xs"

definition set_add :: "('a \<Rightarrow> 'a \<Rightarrow> bool) \<Rightarrow> 'a \<Rightarrow> 'a list \<Rightarrow> 'a list" where
  "set_add lt v xs =
     (let it = lower_bound lt xs v
      in if it \<noteq> length xs \<and> equiv_at lt (xs ! it) v then xs else ins_at it v xs)"

definition set_new :: "('a \<Rightarrow> 'a \<Rightarrow> bool) \<Rightarrow> 'a list \<Rightarrow> 'a list" where
  "set_new lt vals = fold (set_add lt) vals []"

definition set_erase_at :: "nat \<Rightarrow> 'a list \<Rightarrow> 'a list res" where
  "set_erase_at it xs = vec_erase it xs"

definition set_erase :: "('a \<Rightarrow> 'a \<Rightarrow> bool) \<Rightarrow> 'a \<Rightarrow> 'a list \<Rightarrow> 'a list res" where
  "set_erase lt v xs =
     (let it = lower_bound lt xs v in if it \<noteq> length xs then set_erase_at it xs else Inr xs)"

text \<open>\<^verbatim>\<open>std::set_intersection\<close> and \<^verbatim>\<open>std::set_union\<close>; the values taken are those of the first
  range.\<close>

fun set_intersection :: "('a \<Rightarrow> 'b \<Rightarrow> bool) \<Rightarrow> ('b \<Rightarrow> 'a \<Rightarrow> bool) \<Rightarrow> 'a list \<Rightarrow> 'b list \<Rightarrow> 'a list" where
  "set_intersection l1 l2 (x # xs) (y # ys) =
     (if l1 x y then set_intersection l1 l2 xs (y # ys)
      else if l2 y x then set_intersection l1 l2 (x # xs) ys
      else x # set_intersection l1 l2 xs ys)"
| "set_intersection l1 l2 _ _ = []"

fun set_union :: "('a \<Rightarrow> 'a \<Rightarrow> bool) \<Rightarrow> 'a list \<Rightarrow> 'a list \<Rightarrow> 'a list" where
  "set_union lt [] ys = ys"
| "set_union lt xs [] = xs"
| "set_union lt (x # xs) (y # ys) =
     (if lt x y then x # set_union lt xs (y # ys)
      else if lt y x then y # set_union lt (x # xs) ys
      else x # set_union lt xs ys)"

definition key_comparer :: "('k \<Rightarrow> 'k \<Rightarrow> bool) \<Rightarrow> ('v \<Rightarrow> 'k) \<Rightarrow> ('k + 'v) \<Rightarrow> ('k + 'v) \<Rightarrow> bool" where
  "key_comparer lt ext a b = lt (case a of Inl k \<Rightarrow> k | Inr v \<Rightarrow> ext v) (case b of Inl k \<Rightarrow> k | Inr v \<Rightarrow> ext v)"

definition set_intersect_keys :: "('k \<Rightarrow> 'k \<Rightarrow> bool) \<Rightarrow> ('v \<Rightarrow> 'k) \<Rightarrow> 'v list \<Rightarrow> 'k list \<Rightarrow> 'v list" where
  "set_intersect_keys lt ext this keys =
     set_intersection (\<lambda>v k. key_comparer lt ext (Inr v) (Inl k))
       (\<lambda>k v. key_comparer lt ext (Inl k) (Inr v)) this keys"

definition set_intersect :: "('a \<Rightarrow> 'a \<Rightarrow> bool) \<Rightarrow> 'a list \<Rightarrow> 'a list \<Rightarrow> 'a list" where
  "set_intersect lt this vals = set_intersection lt lt vals this"

definition set_merge :: "('a \<Rightarrow> 'a \<Rightarrow> bool) \<Rightarrow> 'a list \<Rightarrow> 'a list \<Rightarrow> 'a list" where
  "set_merge lt this vals = set_union lt vals this"

text \<open>\<open>merge_from\<close>: the inner loop moves \<open>x\<close> past the values below \<open>*y\<close>; then \<open>*y\<close> is emplaced
  before \<open>x\<close>. At the end the rest of the other set is appended.\<close>

function skip_less :: "('a \<Rightarrow> 'a \<Rightarrow> bool) \<Rightarrow> 'a \<Rightarrow> nat \<Rightarrow> 'a list \<Rightarrow> nat" where
  "skip_less lt y x xs = (if x < length xs \<and> lt (xs ! x) y then skip_less lt y (Suc x) xs else x)"
  by pat_completeness auto
termination by (relation "measure (\<lambda>(lt, y, x, xs). length xs - x)") auto

declare skip_less.simps [simp del]

fun merge_loop :: "('a \<Rightarrow> 'a \<Rightarrow> bool) \<Rightarrow> nat \<Rightarrow> 'a list \<Rightarrow> 'a list \<Rightarrow> 'a list" where
  "merge_loop lt x xs [] = xs"
| "merge_loop lt x xs (y # ys) =
     (if x \<noteq> length xs
      then let x' = skip_less lt y x xs in merge_loop lt (Suc x') (ins_at x' y xs) ys
      else xs @ y # ys)"

definition set_merge_from :: "('a \<Rightarrow> 'a \<Rightarrow> bool) \<Rightarrow> 'a list \<Rightarrow> 'a list \<Rightarrow> 'a list" where
  "set_merge_from lt this vals = merge_loop lt 0 this vals"

section \<open>Vectors and sorted vectors\<close>

definition vector_emplace_at :: "nat \<Rightarrow> 'a \<Rightarrow> 'a list \<Rightarrow> 'a list res" where
  "vector_emplace_at i v xs = vec_emplace i v xs"

definition vector_erase_at :: "nat \<Rightarrow> 'a list \<Rightarrow> 'a list res" where
  "vector_erase_at i xs = vec_erase i xs"

definition vector_find :: "'a \<Rightarrow> 'a list \<Rightarrow> nat" where
  "vector_find v xs = find_if (\<lambda>x. x = v) xs"

definition vector_contains :: "'a \<Rightarrow> 'a list \<Rightarrow> bool" where
  "vector_contains v xs \<longleftrightarrow> vector_find v xs \<noteq> length xs"

definition vector_index_of :: "'a \<Rightarrow> 'a list \<Rightarrow> nat option" where
  "vector_index_of v xs =
     (let it = vector_find v xs in if it \<noteq> length xs then Some it else None)"

definition vector_sort :: "'a :: linorder list \<Rightarrow> 'a list" where
  "vector_sort xs = sort xs"

definition sorted_new :: "'a :: linorder list \<Rightarrow> 'a list" where
  "sorted_new vals = vector_sort vals"

definition emplace_sorted :: "('a \<Rightarrow> 'a \<Rightarrow> bool) \<Rightarrow> 'a \<Rightarrow> 'a list \<Rightarrow> 'a list res" where
  "emplace_sorted lt v xs = vec_emplace (upper_bound lt xs v) v xs"

section \<open>The contract of a comparison\<close>

lemma find_if_le: "find_if p xs \<le> length xs"
  by (induction xs) auto

lemma find_if_end: "find_if p xs = length xs \<longleftrightarrow> (\<forall>x \<in> set xs. \<not> p x)"
  by (induction xs) auto

lemma find_if_hit: "find_if p xs \<noteq> length xs \<Longrightarrow> find_if p xs < length xs \<and> p (xs ! find_if p xs)"
  by (induction xs) auto

lemma find_if_append: "\<forall>x \<in> set xs. \<not> p x \<Longrightarrow> find_if p (xs @ ys) = length xs + find_if p ys"
  by (induction xs) auto

locale strict_order =
  fixes lt :: "'a \<Rightarrow> 'a \<Rightarrow> bool"
  assumes irrefl: "\<not> lt x x"
    and trans: "lt x y \<Longrightarrow> lt y z \<Longrightarrow> lt x z"
    and total: "lt x y \<or> x = y \<or> lt y x"
begin

lemma equiv_iff [simp]: "equiv_at lt e v \<longleftrightarrow> e = v"
  using irrefl total by (auto simp: equiv_at_def)

lemma asym: "lt x y \<Longrightarrow> \<not> lt y x"
  using irrefl trans by blast

lemma not_less_trans: "\<not> lt y x \<Longrightarrow> lt y z \<Longrightarrow> lt x z"
  using total trans by metis

lemma sorted_partitioned: "sorted_wrt (\<lambda>x y. \<not> lt y x) xs \<Longrightarrow> partitioned (\<lambda>x. lt x k) xs"
  unfolding partitioned_def sorted_wrt_iff_nth_less
  using not_less_trans by (metis le_neq_implies_less)

lemma strict_weak: "sorted_wrt lt xs \<Longrightarrow> sorted_wrt (\<lambda>x y. \<not> lt y x) xs"
  using sorted_wrt_mono_rel[of xs lt "\<lambda>x y. \<not> lt y x"] asym by blast

lemma lower_bound_split:
  assumes "sorted_wrt lt xs"
  obtains us ws where "xs = us @ ws" "lower_bound lt xs k = length us"
    "\<forall>u \<in> set us. lt u k" "ws \<noteq> [] \<longrightarrow> \<not> lt (hd ws) k"
proof
  let ?p = "\<lambda>x. lt x k"
  show "xs = takeWhile ?p xs @ dropWhile ?p xs" by simp
  show "lower_bound lt xs k = length (takeWhile ?p xs)"
    using partition_point_takeWhile[OF sorted_partitioned[OF strict_weak[OF assms]]]
    by (simp add: lower_bound_def)
  show "\<forall>u \<in> set (takeWhile ?p xs). lt u k" by (auto dest: set_takeWhileD)
  show "dropWhile ?p xs \<noteq> [] \<longrightarrow> \<not> lt (hd (dropWhile ?p xs)) k"
    using hd_dropWhile[of ?p xs] by blast
qed

lemma lower_bound_cases:
  assumes "sorted_wrt lt xs"
  obtains (hit) us ws where "xs = us @ k # ws" "lower_bound lt xs k = length us" "k \<notin> set us"
  | (gap) us ws where "xs = us @ ws" "lower_bound lt xs k = length us" "k \<notin> set xs"
      "\<forall>u \<in> set us. lt u k" "\<forall>w \<in> set ws. lt k w"
proof -
  obtain us ws where s: "xs = us @ ws" "lower_bound lt xs k = length us"
    "\<forall>u \<in> set us. lt u k" "ws \<noteq> [] \<longrightarrow> \<not> lt (hd ws) k" by (rule lower_bound_split[OF assms])
  have nus: "k \<notin> set us" using s(3) irrefl by blast
  show thesis
  proof (cases "ws \<noteq> [] \<and> hd ws = k")
    case True
    then obtain ws' where "ws = k # ws'" by (cases ws) auto
    with s(1,2) nus show thesis by (auto intro: hit)
  next
    case False
    have "\<forall>w \<in> set ws. lt k w"
    proof (cases ws)
      case (Cons w ws')
      then have "lt k w" using False s(4) total by auto
      moreover have "\<forall>w' \<in> set ws'. lt w w'" using assms s(1) Cons by (simp add: sorted_wrt_append)
      ultimately show ?thesis using Cons trans by auto
    qed simp
    moreover from this nus have "k \<notin> set xs" using s(1) irrefl by auto
    ultimately show thesis using s(1-3) gap by blast
  qed
qed

lemma bisect_hit: "sorted_wrt lt xs \<Longrightarrow> v \<in> set xs \<Longrightarrow> bisect lt v xs < length xs \<and> xs ! bisect lt v xs = v"
  by (erule lower_bound_cases[of xs v]) (auto simp: bisect_def Let_def)

lemma bisect_miss: "sorted_wrt lt xs \<Longrightarrow> v \<notin> set xs \<Longrightarrow> bisect lt v xs = length xs"
  by (erule lower_bound_cases[of xs v]) (auto simp: bisect_def Let_def nth_append hd_conv_nth)

lemma linear_is_bisect:
  assumes "sorted_wrt lt xs"
  shows "linear_search lt v xs = bisect lt v xs"
proof (cases rule: lower_bound_cases[OF assms, of v])
  case (1 us ws)
  then have "linear_search lt v xs = length us"
    using find_if_append[of us "\<lambda>e. e = v" "v # ws"] by (auto simp: linear_search_def)
  with 1 show ?thesis by (simp add: bisect_def Let_def)
next
  case (2 us ws)
  have "linear_search lt v xs = length xs"
    unfolding linear_search_def find_if_end using 2(3) by auto
  with bisect_miss[OF assms 2(3)] show ?thesis by simp
qed

lemma contains_iff: "sorted_wrt lt xs \<Longrightarrow> set_contains lt v xs \<longleftrightarrow> v \<in> set xs"
  using bisect_hit[of xs v] bisect_miss[of xs v] linear_is_bisect[of xs v]
  by (auto simp: set_contains_def set_find_def)

lemma add_spec:
  assumes "sorted_wrt lt xs"
  shows "sorted_wrt lt (set_add lt v xs)" and "set (set_add lt v xs) = insert v (set xs)"
proof -
  have "sorted_wrt lt (set_add lt v xs) \<and> set (set_add lt v xs) = insert v (set xs)"
  proof (cases rule: lower_bound_cases[OF assms, of v])
    case (1 us ws)
    then show ?thesis using assms by (auto simp: set_add_def Let_def)
  next
    case (2 us ws)
    have "set_add lt v xs = us @ v # ws"
      using 2 by (auto simp: set_add_def Let_def ins_at_def nth_append)
    then show ?thesis using assms 2 by (auto simp: sorted_wrt_append dest: trans)
  qed
  then show "sorted_wrt lt (set_add lt v xs)" and "set (set_add lt v xs) = insert v (set xs)" by auto
qed

lemma fold_add_spec:
  "sorted_wrt lt xs \<Longrightarrow> sorted_wrt lt (fold (set_add lt) vs xs) \<and>
     set (fold (set_add lt) vs xs) = set xs \<union> set vs"
proof (induction vs arbitrary: xs)
  case (Cons v vs)
  from Cons.IH[OF add_spec(1)[OF Cons.prems]] add_spec(2)[OF Cons.prems] show ?case by auto
qed simp

lemma new_spec: "sorted_wrt lt (set_new lt vs)" "set (set_new lt vs) = set vs"
  using fold_add_spec[of "[]" vs] by (auto simp: set_new_def)

lemma erase_hit:
  assumes "sorted_wrt lt xs" "v \<in> set xs"
  shows "set_erase lt v xs = Inr (remove1 v xs)"
proof (cases rule: lower_bound_cases[OF assms(1), of v])
  case (1 us ws)
  then show ?thesis
    by (simp add: set_erase_def Let_def set_erase_at_def vec_erase_def del_at_def remove1_append)
next
  case (2 us ws)
  with assms(2) show ?thesis by simp
qed

text \<open>On a value that is not there: the next greater value goes instead, if there is one.\<close>

lemma erase_miss:
  assumes "sorted_wrt lt xs" "v \<notin> set xs"
  shows "set_erase lt v xs = Inr (filter (\<lambda>x. lt x v) xs @ tl (filter (lt v) xs))"
proof (cases rule: lower_bound_cases[OF assms(1), of v])
  case (1 us ws)
  with assms(2) show ?thesis by simp
next
  case (2 us ws)
  have "filter (\<lambda>x. lt x v) us = us" "filter (\<lambda>x. lt x v) ws = []" "filter (lt v) us = []"
    "filter (lt v) ws = ws" using 2(4,5) asym by (auto simp: filter_empty_conv intro!: filter_True)
  then have "filter (\<lambda>x. lt x v) xs @ tl (filter (lt v) xs) = us @ tl ws" using 2(1) by simp
  then show ?thesis using 2(1,2)
    by (cases ws) (simp_all add: set_erase_def Let_def set_erase_at_def vec_erase_def del_at_def)
qed

lemma intersection_filter:
  assumes "sorted_wrt (\<lambda>a b. lt (f a) (f b)) xs" "sorted_wrt lt ys"
  shows "set_intersection (\<lambda>x y. lt (f x) y) (\<lambda>y x. lt y (f x)) xs ys =
           filter (\<lambda>x. f x \<in> set ys) xs" (is "?I xs ys = _")
  using assms
proof (induction "length xs + length ys" arbitrary: xs ys rule: less_induct)
  case less
  show ?case
  proof (cases "xs = [] \<or> ys = []")
    case True
    then show ?thesis by (cases xs; cases ys) auto
  next
    case False
    then obtain x xs' y ys' where c: "xs = x # xs'" "ys = y # ys'" by (meson neq_Nil_conv)
    have sx: "sorted_wrt (\<lambda>a b. lt (f a) (f b)) xs'" "\<forall>x' \<in> set xs'. lt (f x) (f x')"
      and sy: "sorted_wrt lt ys'" "\<forall>y' \<in> set ys'. lt y y'" using less.prems c by auto
    have ih1: "?I xs' (y # ys') = filter (\<lambda>x. f x \<in> set (y # ys')) xs'"
      using less.hyps[of xs' ys] sx(1) less.prems(2) c by simp
    have ih2: "?I (x # xs') ys' = filter (\<lambda>x. f x \<in> set ys') (x # xs')"
      using less.hyps[of xs ys'] sy(1) less.prems(1) c by simp
    have ih3: "?I xs' ys' = filter (\<lambda>x. f x \<in> set ys') xs'"
      using less.hyps[of xs' ys'] sx(1) sy(1) c by simp
    consider (l) "lt (f x) y" | (g) "\<not> lt (f x) y" "lt y (f x)" | (e) "f x = y" using total by blast
    then show ?thesis
    proof cases
      case l
      then have "f x \<notin> set (y # ys')" using sy(2) irrefl trans by (metis set_ConsD)
      with l ih1 c show ?thesis by simp
    next
      case g
      then have "\<And>x'. x' \<in> set (x # xs') \<Longrightarrow> f x' \<noteq> y" using sx(2) irrefl trans by (metis set_ConsD)
      then have "filter (\<lambda>z. f z \<in> set (y # ys')) (x # xs') = filter (\<lambda>z. f z \<in> set ys') (x # xs')"
        by (intro filter_cong) auto
      moreover have "?I (x # xs') (y # ys') = ?I (x # xs') ys'" using g by simp
      ultimately show ?thesis using ih2 c by metis
    next
      case e
      then have "\<And>x'. x' \<in> set xs' \<Longrightarrow> f x' \<noteq> y" using sx(2) irrefl by auto
      then have "filter (\<lambda>z. f z \<in> set (y # ys')) xs' = filter (\<lambda>z. f z \<in> set ys') xs'"
        by (intro filter_cong) auto
      moreover have "?I (x # xs') (y # ys') = x # ?I xs' ys'" using e irrefl by simp
      ultimately show ?thesis using ih3 c e by simp
    qed
  qed
qed

lemma union_spec:
  assumes "sorted_wrt lt xs" "sorted_wrt lt ys"
  shows "sorted_wrt lt (set_union lt xs ys) \<and> set (set_union lt xs ys) = set xs \<union> set ys"
  using assms
proof (induction "length xs + length ys" arbitrary: xs ys rule: less_induct)
  case less
  show ?case
  proof (cases "xs = [] \<or> ys = []")
    case True
    with less.prems show ?thesis by (cases xs; cases ys) auto
  next
    case False
    then obtain x xs' y ys' where c: "xs = x # xs'" "ys = y # ys'" by (meson neq_Nil_conv)
    have sx: "sorted_wrt lt xs'" "\<forall>x' \<in> set xs'. lt x x'"
      and sy: "sorted_wrt lt ys'" "\<forall>y' \<in> set ys'. lt y y'" using less.prems c by auto
    note ih1 = less.hyps[of xs' ys] and ih2 = less.hyps[of xs ys'] and ih3 = less.hyps[of xs' ys']
    consider (l) "lt x y" | (g) "\<not> lt x y" "lt y x" | (e) "x = y" using total by blast
    then show ?thesis
    proof cases
      case l
      then have "\<forall>z \<in> set xs' \<union> set ys. lt x z" using sx(2) sy(2) c by (auto dest: trans)
      with l ih1 sx(1) less.prems(2) c show ?thesis by auto
    next
      case g
      then have "\<forall>z \<in> set xs \<union> set ys'. lt y z" using sx(2) sy(2) c by (auto dest: trans)
      with g ih2 sy(1) less.prems(1) c show ?thesis by auto
    next
      case e
      then have "\<forall>z \<in> set xs' \<union> set ys'. lt x z" using sx(2) sy(2) by auto
      with e irrefl ih3 sx(1) sy(1) c show ?thesis by auto
    qed
  qed
qed

lemma skip_less_spec:
  "x \<le> length xs \<Longrightarrow> x \<le> skip_less lt y x xs \<and> skip_less lt y x xs \<le> length xs \<and>
     (\<forall>i. x \<le> i \<longrightarrow> i < skip_less lt y x xs \<longrightarrow> lt (xs ! i) y) \<and>
     (skip_less lt y x xs < length xs \<longrightarrow> \<not> lt (xs ! skip_less lt y x xs) y)"
proof (induction "length xs - x" arbitrary: x)
  case 0
  then show ?case by (simp add: skip_less.simps[of lt y x xs])
next
  case (Suc n)
  show ?case
  proof (cases "x < length xs \<and> lt (xs ! x) y")
    case True
    have u: "skip_less lt y x xs = skip_less lt y (Suc x) xs"
      using True by (simp add: skip_less.simps[of lt y x xs])
    have "n = length xs - Suc x" "Suc x \<le> length xs" using Suc.hyps(2) True by auto
    note ih = Suc.hyps(1)[OF this]
    show ?thesis unfolding u
    proof (intro conjI allI impI)
      show "lt (xs ! i) y" if "x \<le> i" "i < skip_less lt y (Suc x) xs" for i
        using ih True that by (cases "i = x") auto
    qed (use ih in auto)
  next
    case False
    then have "skip_less lt y x xs = x" using skip_less.simps[of lt y x xs] by auto
    with Suc.prems False show ?thesis by auto
  qed
qed

text \<open>Values in order, equal neighbours allowed.\<close>

definition ordered :: "'a list \<Rightarrow> bool" where
  "ordered xs \<longleftrightarrow> sorted_wrt (\<lambda>x y. \<not> lt y x) xs"

lemma ordered_strict_iff: "sorted_wrt lt xs \<longleftrightarrow> ordered xs \<and> distinct xs"
  unfolding ordered_def
proof (induction xs)
  case (Cons x xs)
  have "lt x y \<longleftrightarrow> \<not> lt y x \<and> x \<noteq> y" for y using total irrefl asym by blast
  with Cons show ?case by auto
qed simp

lemma merge_loop_spec:
  assumes "ordered xs" "ordered ys" "x \<le> length xs" "\<forall>u \<in> set (take x xs). \<forall>y \<in> set ys. \<not> lt y u"
  shows "ordered (merge_loop lt x xs ys) \<and> mset (merge_loop lt x xs ys) = mset xs + mset ys"
  using assms
proof (induction ys arbitrary: x xs)
  case (Cons y ys)
  show ?case
  proof (cases "x = length xs")
    case True
    with Cons.prems show ?thesis by (auto simp: ordered_def sorted_wrt_append)
  next
    case False
    define k where "k = skip_less lt y x xs"
    have k: "k \<le> length xs" "\<forall>i. x \<le> i \<longrightarrow> i < k \<longrightarrow> lt (xs ! i) y" "k < length xs \<longrightarrow> \<not> lt (xs ! k) y"
      using skip_less_spec[OF Cons.prems(3), of y] by (auto simp: k_def)
    have below: "\<forall>u \<in> set (take k xs). \<not> lt y u"
    proof
      fix u assume "u \<in> set (take k xs)"
      then obtain i where i: "i < k" "u = xs ! i" using k(1) by (auto simp: in_set_conv_nth)
      show "\<not> lt y u"
      proof (cases "i < x")
        case True
        then have "u \<in> set (take x xs)"
          using i k(1) Cons.prems(3) by (auto simp: in_set_conv_nth intro!: exI[of _ i])
        with Cons.prems(4) show ?thesis by auto
      next
        case False
        with k(2) i asym show ?thesis by auto
      qed
    qed
    have above: "\<forall>w \<in> set (drop k xs). \<not> lt w y"
    proof (cases "k < length xs")
      case True
      then obtain w0 ws where d: "drop k xs = w0 # ws" "w0 = xs ! k" by (metis Cons_nth_drop_Suc)
      have "ordered (drop k xs)" using Cons.prems(1) by (simp add: ordered_def sorted_wrt_drop)
      then have "\<forall>w \<in> set ws. \<not> lt w w0" by (simp add: d(1) ordered_def)
      moreover have "\<not> lt w0 y" using k(3) True d(2) by simp
      ultimately show ?thesis unfolding d(1) using not_less_trans by (metis set_ConsD)
    qed simp
    have o: "ordered (ins_at k y xs)"
    proof -
      have "\<not> lt w u" if "u \<in> set (take k xs)" "w \<in> set (drop k xs)" for u w
      proof -
        have "ordered (take k xs @ drop k xs)" using Cons.prems(1) by simp
        with that show ?thesis unfolding ordered_def sorted_wrt_append by blast
      qed
      moreover have "ordered (take k xs)" "ordered (drop k xs)"
        using Cons.prems(1) by (simp_all add: ordered_def sorted_wrt_take sorted_wrt_drop)
      ultimately show ?thesis using below above
        unfolding ordered_def ins_at_def sorted_wrt_append by auto
    qed
    have "\<forall>u \<in> set (take (Suc k) (ins_at k y xs)). \<forall>z \<in> set ys. \<not> lt z u"
    proof -
      have "take (Suc k) (ins_at k y xs) = take k xs @ [y]" using k(1) by (simp add: ins_at_def)
      moreover have "\<not> lt z u" if "\<not> lt y u" "\<not> lt z y" for u z using that not_less_trans total by metis
      ultimately show ?thesis using below Cons.prems(2) by (auto simp: ordered_def)
    qed
    moreover have "mset (ins_at k y xs) = add_mset y (mset xs)"
      by (metis append_take_drop_id ins_at_def mset.simps(2) mset_append union_mset_add_mset_right)
    ultimately show ?thesis
      using Cons.IH[OF o, of "Suc k"] Cons.prems(2) False k(1)
      by (simp add: k_def[symmetric] Let_def length_ins_at ordered_def)
  qed
qed simp

lemma merge_from_spec:
  assumes "sorted_wrt lt xs" "sorted_wrt lt ys"
  shows "ordered (set_merge_from lt xs ys)" "mset (set_merge_from lt xs ys) = mset xs + mset ys"
    "sorted_wrt lt (set_merge_from lt xs ys) \<longleftrightarrow> set xs \<inter> set ys = {}"
proof -
  have o: "ordered xs" "ordered ys" "distinct xs" "distinct ys" using assms ordered_strict_iff by auto
  show 1: "ordered (set_merge_from lt xs ys)" and 2: "mset (set_merge_from lt xs ys) = mset xs + mset ys"
    using merge_loop_spec[OF o(1,2), of 0] by (simp_all add: set_merge_from_def)
  have "mset (set_merge_from lt xs ys) = mset (xs @ ys)" using 2 by simp
  then have "distinct (set_merge_from lt xs ys) \<longleftrightarrow> distinct (xs @ ys)"
    by (rule mset_eq_imp_distinct_iff)
  then show "sorted_wrt lt (set_merge_from lt xs ys) \<longleftrightarrow> set xs \<inter> set ys = {}"
    using 1 o(3,4) by (simp add: ordered_strict_iff)
qed

end

interpretation less_order: strict_order "(<) :: 'a :: linorder \<Rightarrow> 'a \<Rightarrow> bool"
  by unfold_locales auto

section \<open>Properties\<close>

text \<open>C7: Searching a set gives the same answer by both strategies of \<open>find\<close>: on a set of
  any size the linear search and the bisection return the same iterator, so \<open>contains\<close> is
  membership below and above the 50-element limit.\<close>

theorem set_strategies_agree:
  fixes xs :: "'a :: linorder list"
  assumes "sorted_wrt (<) xs"
  shows "linear_search (<) v xs = bisect (<) v xs \<and> (set_contains (<) v xs \<longleftrightarrow> v \<in> set xs)"
  using less_order.linear_is_bisect[OF assms] less_order.contains_iff[OF assms] by blast

theorem set_strategies_agree_witness:
  "linear_search (<) 7 [1, 4, 7 :: nat] = bisect (<) 7 [1, 4, 7 :: nat] \<and>
   set_contains (<) 7 [1, 4, 7 :: nat]"
  using set_strategies_agree[of "[1, 4, 7 :: nat]" 7] by simp

text \<open>A set built from any list of values holds them in strictly increasing order, each
  once, and \<open>contains\<close> answers for exactly those values; adding one more keeps all of it.\<close>

theorem set_new_contains:
  fixes vals :: "'a :: linorder list"
  shows "sorted_wrt (<) (set_new (<) vals) \<and>
    (set_contains (<) v (set_new (<) vals) \<longleftrightarrow> v \<in> set vals) \<and>
    sorted_wrt (<) (set_add (<) w (set_new (<) vals)) \<and>
    (set_contains (<) v (set_add (<) w (set_new (<) vals)) \<longleftrightarrow> v = w \<or> v \<in> set vals)"
proof (intro conjI)
  note n = less_order.new_spec[of vals]
  note a = less_order.add_spec[OF n(1), of w]
  show "sorted_wrt (<) (set_new (<) vals)" by (rule n(1))
  show "set_contains (<) v (set_new (<) vals) \<longleftrightarrow> v \<in> set vals"
    using less_order.contains_iff[OF n(1)] n(2) by simp
  show "sorted_wrt (<) (set_add (<) w (set_new (<) vals))" by (rule a(1))
  show "set_contains (<) v (set_add (<) w (set_new (<) vals)) \<longleftrightarrow> v = w \<or> v \<in> set vals"
    using less_order.contains_iff[OF a(1)] a(2) n(2) by simp
qed

text \<open>C18: \<open>intersect\<close> and \<open>merge\<close> of two sets are intersection and union, in order; the keyed
  \<open>intersect\<close> keeps exactly the values whose extracted key is in the key set.\<close>

theorem set_algebra:
  fixes xs ys :: "'a :: linorder list" and ext :: "'v \<Rightarrow> 'a"
  assumes "sorted_wrt (<) xs" "sorted_wrt (<) ys" "sorted_wrt (\<lambda>a b. ext a < ext b) vs"
  shows "set_intersect (<) xs ys = filter (\<lambda>y. y \<in> set xs) ys \<and>
    sorted_wrt (<) (set_merge (<) xs ys) \<and> set (set_merge (<) xs ys) = set xs \<union> set ys \<and>
    set_intersect_keys (<) ext vs ys = filter (\<lambda>v. ext v \<in> set ys) vs"
  using less_order.intersection_filter[of "\<lambda>x. x" ys xs] less_order.union_spec[OF assms(2,1)]
    less_order.intersection_filter[of ext vs ys] assms
  by (auto simp: set_intersect_def set_merge_def set_intersect_keys_def key_comparer_def)

theorem set_algebra_witness:
  "set_intersect (<) [1, 3, 5 :: nat] [3, 4, 5] = [3, 5] \<and>
   set (set_merge (<) [1, 3, 5 :: nat] [3, 4, 5]) = {1, 3, 4, 5} \<and>
   set_intersect_keys (<) fst [(1, ''a''), (4 :: nat, ''b'')] [3, 4, 5] = [(4, ''b'')]"
  using set_algebra[of "[1, 3, 5 :: nat]" "[3, 4, 5]" fst "[(1, ''a''), (4 :: nat, ''b'')]"] by auto

text \<open>\<open>erase(v)\<close> removes \<open>v\<close> when it is in the set, but when it is not, it removes the
  least greater value instead, if the set has one.\<close>

theorem set_erase_value:
  fixes xs :: "'a :: linorder list"
  assumes "sorted_wrt (<) xs"
  shows "set_erase (<) v xs =
    Inr (if v \<in> set xs then remove1 v xs else filter (\<lambda>x. x < v) xs @ tl (filter ((<) v) xs))"
  using less_order.erase_hit[OF assms] less_order.erase_miss[OF assms] by simp

theorem set_erase_value_witness:
  "set_erase (<) 2 [1, 3, 5 :: nat] = Inr [1, 5] \<and> set_erase (<) 3 [1, 3, 5 :: nat] = Inr [1, 5]"
  using set_erase_value[of "[1, 3, 5 :: nat]" 2] set_erase_value[of "[1, 3, 5 :: nat]" 3] by simp

text \<open>\<open>merge_from\<close> keeps the values of both sets, in order, but keeps both copies of a
  common value: its result is a set again exactly when the two sets are disjoint.\<close>

theorem set_merge_from_duplicates:
  fixes xs ys :: "'a :: linorder list"
  assumes "sorted_wrt (<) xs" "sorted_wrt (<) ys"
  shows "mset (set_merge_from (<) xs ys) = mset xs + mset ys \<and> sorted (set_merge_from (<) xs ys) \<and>
    (sorted_wrt (<) (set_merge_from (<) xs ys) \<longleftrightarrow> set xs \<inter> set ys = {})"
  using less_order.merge_from_spec[OF assms] by (simp add: less_order.ordered_def not_less)

theorem set_merge_from_duplicates_witness:
  "mset (set_merge_from (<) [1, 3 :: nat] [3]) = {#1, 3, 3#} \<and>
   \<not> sorted_wrt (<) (set_merge_from (<) [1, 3 :: nat] [3])"
  using set_merge_from_duplicates[of "[1, 3 :: nat]" "[3]"] by simp

text \<open>\<open>emplace_sorted\<close> keeps a sorted vector sorted, adds exactly the new value, and puts
  it after every value that is not greater.\<close>

theorem emplace_sorted_correct:
  fixes xs :: "'a :: linorder list"
  assumes "sorted xs"
  shows "\<exists>us ws. emplace_sorted (<) v xs = Inr (us @ v # ws) \<and> xs = us @ ws \<and>
    (\<forall>u \<in> set us. u \<le> v) \<and> (\<forall>w \<in> set ws. v < w) \<and> sorted (us @ v # ws)"
proof (intro exI conjI)
  let ?p = "\<lambda>x. \<not> v < x"
  have k: "upper_bound (<) xs v = length (takeWhile ?p xs)"
    using partition_point_takeWhile[OF sorted_partitioned_le[OF assms]] by (simp add: upper_bound_def)
  have t: "take (length (takeWhile ?p xs)) xs = takeWhile ?p xs"
    "drop (length (takeWhile ?p xs)) xs = dropWhile ?p xs"
    by (simp_all flip: takeWhile_eq_take dropWhile_eq_drop)
  show x: "xs = takeWhile ?p xs @ dropWhile ?p xs" by simp
  show "emplace_sorted (<) v xs = Inr (takeWhile ?p xs @ v # dropWhile ?p xs)"
    by (simp add: emplace_sorted_def vec_emplace_def k ins_at_def t length_takeWhile_le)
  show 1: "\<forall>u \<in> set (takeWhile ?p xs). u \<le> v" by (auto dest: set_takeWhileD simp: not_less)
  show 2: "\<forall>w \<in> set (dropWhile ?p xs). v < w"
  proof (cases "dropWhile ?p xs")
    case (Cons w ws)
    then have "v < w" using hd_dropWhile[of ?p xs] by simp
    moreover have "sorted (w # ws)" using sorted_dropWhile[OF assms, of ?p] Cons by simp
    ultimately show ?thesis using Cons by auto
  next
    case Nil
    then show ?thesis by (simp only: list.set ball_empty)
  qed
  have "\<forall>u \<in> set (takeWhile ?p xs). \<forall>w \<in> set (v # dropWhile ?p xs). u \<le> w"
  proof (intro ballI)
    fix u w assume u: "u \<in> set (takeWhile ?p xs)" and w: "w \<in> set (v # dropWhile ?p xs)"
    have "u \<le> v" using 1 u by blast
    moreover have "v \<le> w"
    proof -
      from w have "w = v \<or> w \<in> set (dropWhile ?p xs)" by simp
      then show ?thesis using 2 by (blast intro: less_imp_le order_refl)
    qed
    ultimately show "u \<le> w" by (rule order_trans)
  qed
  moreover have "sorted (v # dropWhile ?p xs)"
    unfolding sorted_simps(2) using 2 sorted_dropWhile[OF assms, of ?p] by (blast intro: less_imp_le)
  ultimately show "sorted (takeWhile ?p xs @ v # dropWhile ?p xs)"
    unfolding sorted_append using sorted_takeWhile[OF assms, of ?p] by blast
qed

theorem emplace_sorted_correct_witness:
  "\<exists>us ws. emplace_sorted (<) 2 [1, 2, 3 :: nat] = Inr (us @ 2 # ws) \<and> [1, 2, 3] = us @ ws"
proof -
  have "sorted [1, 2, 3 :: nat]" by simp
  note emplace_sorted_correct[OF this, of 2]
  then show ?thesis by (elim exE conjE) (intro exI conjI, assumption+)
qed

end
