(* ===== verification/Lexer.thy ===== *)
theory Lexer
  imports SortedSet
begin

text \<open>
  The tokenizer and the token combinators of \<^verbatim>\<open>include/txl/lexer.h\<close>. A token is a tree; its
  call operator is \<open>accepts\<close> and its \<open>process\<close> method is \<open>process\<close>. The functions a
  \<open>transform\<close> token wraps keep state between calls, so \<open>process\<close> threads a state of type
  \<open>'s\<close>. \<open>char\<close> is a signed 8-bit type: \<open>schar\<close> is the value the code sees when it widens a
  character to \<open>int\<close>, and the byte \<open>0xFF\<close> is \<open>-1\<close>.
\<close>

section \<open>Characters as integers\<close>

definition schar :: "char \<Rightarrow> int" where
  "schar c = (if of_char c < (128 :: int) then of_char c else of_char c - 256)"

definition to_char :: "int \<Rightarrow> char" where
  "to_char i = char_of (i mod 256)"

definition char_less :: "char \<Rightarrow> char \<Rightarrow> bool" where
  "char_less a b \<longleftrightarrow> schar a < schar b"

lemma to_char_schar [simp]: "to_char (schar c) = c"
proof -
  have "char_of (of_char c - 256 :: int) = c"
    by (metis char_of_char char_of_mod_256 minus_mod_self2)
  then show ?thesis by (simp add: to_char_def schar_def)
qed

lemma schar_inj [simp]: "schar a = schar b \<longleftrightarrow> a = b"
  by (metis to_char_schar)

interpretation char_order: strict_order char_less
  by unfold_locales (auto simp: char_less_def)

section \<open>The tokenizer\<close>

record tokenizer =
  tk_data :: string
  tk_next :: nat

definition tk_new :: "string \<Rightarrow> tokenizer" where
  "tk_new d = \<lparr>tk_data = d, tk_next = 0\<rparr>"

definition num_parsed :: "tokenizer \<Rightarrow> nat" where
  "num_parsed tk = tk_next tk"

definition tk_empty :: "tokenizer \<Rightarrow> bool" where
  "tk_empty tk \<longleftrightarrow> tk_next tk \<ge> length (tk_data tk)"

definition tk_here :: "tokenizer \<Rightarrow> char" where
  "tk_here tk = tk_data tk ! tk_next tk"

definition tk_step :: "tokenizer \<Rightarrow> tokenizer" where
  "tk_step tk = tk\<lparr>tk_next := Suc (tk_next tk)\<rparr>"

definition read_one :: "tokenizer \<Rightarrow> (char \<times> tokenizer) res" where
  "read_one tk = (if tk_empty tk then Inl EofError else Inr (tk_here tk, tk_step tk))"

definition read_one_or :: "int \<Rightarrow> tokenizer \<Rightarrow> int \<times> tokenizer" where
  "read_one_or d tk = (if tk_empty tk then (d, tk) else (schar (tk_here tk), tk_step tk))"

definition try_expect :: "char \<Rightarrow> tokenizer \<Rightarrow> bool \<times> tokenizer" where
  "try_expect ch tk =
     (if tk_empty tk then (False, tk)
      else if tk_here tk \<noteq> ch then (False, tk)
      else (True, tk_step tk))"

definition expect :: "char \<Rightarrow> tokenizer \<Rightarrow> tokenizer res" where
  "expect ch tk =
     (if tk_empty tk then Inl EofError
      else if tk_here tk \<noteq> ch then Inl ExpectError
      else Inr (tk_step tk))"

definition peek :: "int \<Rightarrow> tokenizer \<Rightarrow> int" where
  "peek d tk = (if tk_empty tk then d else schar (tk_here tk))"

definition skip :: "tokenizer \<Rightarrow> bool \<times> tokenizer" where
  "skip tk = (if \<not> tk_empty tk then (True, tk_step tk) else (False, tk))"

section \<open>Tokens\<close>

type_synonym 's transformer = "'s \<Rightarrow> tokenizer \<Rightarrow> string \<Rightarrow> bool \<times> 's \<times> tokenizer \<times> string"

datatype 's token =
    InRange char char
  | IsChar char
  | InSet "char list"
  | IsNot "'s token"
  | OrTok "'s token" "'s token"
  | Transform "'s token" "'s transformer"

primrec accepts :: "'s token \<Rightarrow> char \<Rightarrow> bool" where
  "accepts (InRange b e) ch = (schar b \<le> schar ch \<and> schar ch \<le> schar e)"
| "accepts (IsChar a) ch = (a = ch)"
| "accepts (InSet cs) ch = set_contains char_less ch (set_new char_less cs)"
| "accepts (IsNot t) ch = (\<not> accepts t ch)"
| "accepts (OrTok t1 t2) ch = (accepts t1 ch \<or> accepts t2 ch)"
| "accepts (Transform t f) ch = accepts t ch"

text \<open>\<open>token_tag::process\<close>, which the plain tokens inherit.\<close>

definition process_tag :: "'s transformer" where
  "process_tag s tk dst =
     (case read_one_or (-1) tk of (ch, tk') \<Rightarrow>
        if ch = -1 then (False, s, tk', dst) else (True, s, tk', dst @ [to_char ch]))"

primrec process :: "'s token \<Rightarrow> 's transformer" where
  "process (InRange b e) = process_tag"
| "process (IsChar a) = process_tag"
| "process (InSet cs) = process_tag"
| "process (IsNot t) = process t"
| "process (OrTok t1 t2) = (\<lambda>s tk dst.
     let ch = peek (-1) tk
     in if ch = -1 then (False, s, tk, dst)
        else if accepts t1 (to_char ch) then process t1 s tk dst
        else process t2 s tk dst)"
| "process (Transform t f) = f"

section \<open>The loops of the tokenizer\<close>

text \<open>
  \<open>consume_while\<close> and \<open>consume_until\<close> go on as long as \<open>process\<close> returns true, whether it
  moves forward or not: \<open>None\<close> is a loop that never ends.
\<close>

partial_function (option) consume_while ::
  "'s token \<Rightarrow> 's \<Rightarrow> tokenizer \<Rightarrow> string \<Rightarrow> (bool \<times> 's \<times> tokenizer \<times> string) option" where
  "consume_while t s tk dst =
     (if \<not> tk_empty tk \<and> accepts t (tk_here tk) then
        (let r = process t s tk dst
         in if \<not> fst r then Some r
            else consume_while t (fst (snd r)) (fst (snd (snd r))) (snd (snd (snd r))))
      else Some (True, s, tk, dst))"

partial_function (option) consume_until ::
  "'s token \<Rightarrow> 's \<Rightarrow> tokenizer \<Rightarrow> string \<Rightarrow> (bool \<times> 's \<times> tokenizer \<times> string) option" where
  "consume_until t s tk dst =
     (if \<not> tk_empty tk \<and> \<not> accepts t (tk_here tk) then
        (let r = process t s tk dst
         in if \<not> fst r then Some r
            else consume_until t (fst (snd r)) (fst (snd (snd r))) (snd (snd (snd r))))
      else Some (True, s, tk, dst))"

function skip_while :: "'s token \<Rightarrow> tokenizer \<Rightarrow> tokenizer" where
  "skip_while t tk =
     (if \<not> tk_empty tk \<and> accepts t (tk_here tk) then skip_while t (tk_step tk) else tk)"
  by pat_completeness auto
termination
  by (relation "measure (\<lambda>(t, tk). length (tk_data tk) - tk_next tk)")
     (auto simp: tk_empty_def tk_step_def)

function skip_until :: "'s token \<Rightarrow> tokenizer \<Rightarrow> tokenizer" where
  "skip_until t tk =
     (if \<not> tk_empty tk \<and> \<not> accepts t (tk_here tk) then skip_until t (tk_step tk) else tk)"
  by pat_completeness auto
termination
  by (relation "measure (\<lambda>(t, tk). length (tk_data tk) - tk_next tk)")
     (auto simp: tk_empty_def tk_step_def)

declare skip_while.simps [simp del] skip_until.simps [simp del]
declare consume_while.simps [code] consume_until.simps [code]

section \<open>Reading the rest of the input\<close>

definition rest :: "tokenizer \<Rightarrow> string" where
  "rest tk = drop (tk_next tk) (tk_data tk)"

definition adv :: "nat \<Rightarrow> tokenizer \<Rightarrow> tokenizer" where
  "adv n tk = tk\<lparr>tk_next := tk_next tk + n\<rparr>"

named_theorems lex_simps \<open>the tokenizer over the rest of its input\<close>

lemma rest_new [lex_simps]: "rest (tk_new d) = d"
  by (simp add: rest_def tk_new_def)

lemma rest_adv [lex_simps]: "rest (adv n tk) = drop n (rest tk)"
  by (simp add: rest_def adv_def add.commute)

lemma adv_adv [lex_simps]: "adv m (adv n tk) = adv (n + m) tk"
  by (simp add: adv_def add.assoc)

lemma adv_0 [lex_simps]: "adv 0 tk = tk"
  by (simp add: adv_def)

lemma tk_step_adv [lex_simps]: "tk_step tk = adv 1 tk"
  by (simp add: tk_step_def adv_def)

lemma tk_empty_rest [lex_simps]: "tk_empty tk \<longleftrightarrow> rest tk = []"
  by (simp add: tk_empty_def rest_def)

lemma tk_here_rest [lex_simps]: "rest tk = c # cs \<Longrightarrow> tk_here tk = c"
  by (metis drop_eq_Nil2 hd_drop_conv_nth linorder_not_le list.distinct(1) list.sel(1) rest_def tk_here_def)

lemma peek_rest [lex_simps]: "peek d tk = (case rest tk of [] \<Rightarrow> d | c # _ \<Rightarrow> schar c)"
  by (auto simp: peek_def lex_simps split: list.splits)

lemma skip_rest [lex_simps]: "skip tk = (if rest tk = [] then (False, tk) else (True, adv 1 tk))"
  by (simp add: skip_def lex_simps)

lemma try_expect_rest [lex_simps]: "try_expect ch tk =
    (case rest tk of [] \<Rightarrow> (False, tk) | c # _ \<Rightarrow> if c = ch then (True, adv 1 tk) else (False, tk))"
  by (auto simp: try_expect_def lex_simps split: list.splits)

lemma schar_minus1 [simp]: "schar c = -1 \<longleftrightarrow> c = CHR 0xFF"
proof -
  have "schar CHR 0xFF = -1" by (simp add: schar_def)
  then show ?thesis by (metis schar_inj)
qed

lemma process_tag_rest [lex_simps]: "rest tk = c # cs \<Longrightarrow> process_tag s tk dst =
    (if c = CHR 0xFF then (False, s, adv 1 tk, dst) else (True, s, adv 1 tk, dst @ [c]))"
  by (simp add: process_tag_def read_one_or_def lex_simps)

lemma accepts_InSet [simp]: "accepts (InSet cs) ch \<longleftrightarrow> ch \<in> set cs"
  using char_order.new_spec[of cs] char_order.contains_iff by (simp del: char_order.equiv_iff)

declare accepts.simps(3) [simp del]

section \<open>One turn of the loops\<close>

lemma consume_while_more:
  assumes "rest tk = c # cs" "accepts t c" "process t s tk dst = (True, s', tk', dst')"
  shows "consume_while t s tk dst = consume_while t s' tk' dst'"
  using assms by (simp add: consume_while.simps[of t s tk dst] lex_simps)

lemma consume_while_fail:
  assumes "rest tk = c # cs" "accepts t c" "process t s tk dst = (False, s', tk', dst')"
  shows "consume_while t s tk dst = Some (False, s', tk', dst')"
  using assms by (simp add: consume_while.simps[of t s tk dst] lex_simps)

lemma consume_while_stop:
  "rest tk = [] \<or> \<not> accepts t (hd (rest tk)) \<Longrightarrow> consume_while t s tk dst = Some (True, s, tk, dst)"
  by (cases "rest tk") (auto simp: consume_while.simps[of t s tk dst] lex_simps)

lemma consume_until_more:
  assumes "rest tk = c # cs" "\<not> accepts t c" "process t s tk dst = (True, s', tk', dst')"
  shows "consume_until t s tk dst = consume_until t s' tk' dst'"
  using assms by (simp add: consume_until.simps[of t s tk dst] lex_simps)

lemma consume_until_fail:
  assumes "rest tk = c # cs" "\<not> accepts t c" "process t s tk dst = (False, s', tk', dst')"
  shows "consume_until t s tk dst = Some (False, s', tk', dst')"
  using assms by (simp add: consume_until.simps[of t s tk dst] lex_simps)

lemma consume_until_stop:
  "rest tk = [] \<or> accepts t (hd (rest tk)) \<Longrightarrow> consume_until t s tk dst = Some (True, s, tk, dst)"
  by (cases "rest tk") (auto simp: consume_until.simps[of t s tk dst] lex_simps)

text \<open>A run of \<open>consume_until\<close> over a set of stop characters.\<close>

lemma consume_until_run:
  assumes "rest tk = cs @ rs" "\<forall>c \<in> set cs. c \<notin> set S \<and> c \<noteq> CHR 0xFF" "rs = [] \<or> hd rs \<in> set S"
  shows "consume_until (InSet S) s tk dst = Some (True, s, adv (length cs) tk, dst @ cs)"
  using assms
proof (induction cs arbitrary: tk dst)
  case Nil
  then show ?case using consume_until_stop[of tk "InSet S"] by (auto simp: lex_simps)
next
  case (Cons c cs)
  have r: "rest tk = c # (cs @ rs)" using Cons.prems(1) by simp
  have "process (InSet S) s tk dst = (True, s, adv 1 tk, dst @ [c])"
    using process_tag_rest[OF r] Cons.prems(2) by simp
  from consume_until_more[OF r _ this] Cons.prems(2)
  have "consume_until (InSet S) s tk dst = consume_until (InSet S) s (adv 1 tk) (dst @ [c])" by simp
  also have "\<dots> = Some (True, s, adv (length cs) (adv 1 tk), (dst @ [c]) @ cs)"
    by (rule Cons.IH) (use Cons.prems r in \<open>auto simp: lex_simps\<close>)
  finally show ?case by (simp add: lex_simps)
qed

text \<open>It always ends, on any input: each turn reads a character.\<close>

lemma consume_until_returns:
  "\<exists>b n dst'. consume_until (InSet S) s tk dst = Some (b, s, adv n tk, dst') \<and> n \<le> length (rest tk) \<and>
     (rest tk \<noteq> [] \<longrightarrow> hd (rest tk) \<notin> set S \<longrightarrow> 0 < n) \<and>
     (b \<longrightarrow> drop n (rest tk) = [] \<or> hd (drop n (rest tk)) \<in> set S)"
proof (induction "rest tk" arbitrary: tk dst)
  case Nil
  then show ?case using consume_until_stop[of tk "InSet S" s dst]
    by (intro exI[of _ True] exI[of _ 0] exI[of _ dst]) (auto simp: lex_simps)
next
  case (Cons c cs)
  note r = Cons.hyps(2)[symmetric]
  consider "c \<in> set S" | "c \<notin> set S" "c = CHR 0xFF" | "c \<notin> set S" "c \<noteq> CHR 0xFF" by blast
  then show ?case
  proof cases
    case 1
    then show ?thesis using consume_until_stop[of tk "InSet S" s dst] r
      by (intro exI[of _ True] exI[of _ 0] exI[of _ dst]) (auto simp: lex_simps)
  next
    case 2
    then show ?thesis using consume_until_fail[OF r, of "InSet S" s dst s "adv 1 tk" dst]
        process_tag_rest[OF r] r
      by (intro exI[of _ False] exI[of _ 1] exI[of _ dst]) (auto simp: lex_simps)
  next
    case 3
    have p: "process (InSet S) s tk dst = (True, s, adv 1 tk, dst @ [c])"
      using process_tag_rest[OF r] 3 by simp
    have eq: "consume_until (InSet S) s tk dst = consume_until (InSet S) s (adv 1 tk) (dst @ [c])"
      by (rule consume_until_more[OF r _ p]) (use 3 in simp)
    have "cs = rest (adv 1 tk)" using r by (simp add: lex_simps)
    from Cons.hyps(1)[OF this, of "dst @ [c]"] obtain b n dst' where
      ih: "consume_until (InSet S) s (adv 1 tk) (dst @ [c]) = Some (b, s, adv n (adv 1 tk), dst')"
        "n \<le> length (rest (adv 1 tk))"
        "b \<longrightarrow> drop n (rest (adv 1 tk)) = [] \<or> hd (drop n (rest (adv 1 tk))) \<in> set S" by blast
    have "rest (adv 1 tk) = cs" using r by (simp add: lex_simps)
    with eq r ih show ?thesis
      by (intro exI[of _ b] exI[of _ "1 + n"] exI[of _ dst']) (auto simp: lex_simps)
  qed
qed

lemma skip_while_run:
  "rest (skip_while t tk) = dropWhile (accepts t) (rest tk) \<and>
   skip_while t tk = adv (length (takeWhile (accepts t) (rest tk))) tk"
proof (induction "rest tk" arbitrary: tk)
  case Nil
  then show ?case by (simp add: skip_while.simps[of t tk] lex_simps)
next
  case (Cons c cs)
  note r = Cons.hyps(2)[symmetric]
  show ?case
  proof (cases "accepts t c")
    case True
    then have "skip_while t tk = skip_while t (adv 1 tk)"
      using r by (simp add: skip_while.simps[of t tk] lex_simps)
    moreover have "cs = rest (adv 1 tk)" using r by (simp add: lex_simps)
    from Cons.hyps(1)[OF this, folded this]
    have "rest (skip_while t (adv 1 tk)) = dropWhile (accepts t) cs"
      "skip_while t (adv 1 tk) = adv (length (takeWhile (accepts t) cs)) (adv 1 tk)" by blast+
    ultimately show ?thesis using True by (simp add: r[symmetric] flip: r) (simp add: r lex_simps)
  next
    case False
    with r show ?thesis by (simp add: skip_while.simps[of t tk] lex_simps)
  qed
qed

section \<open>Properties\<close>

text \<open>C20: \<open>consume_until\<close> over a set of stop characters copies exactly the text before the first
  stop character (or the end of the input) and leaves the tokenizer there, provided no byte
  \<open>0xFF\<close>, which the code takes for the end of the input, comes first.\<close>

theorem consume_until_prefix:
  assumes "CHR 0xFF \<notin> set (takeWhile (\<lambda>c. c \<notin> set S) (rest tk))"
  shows "consume_until (InSet S) s tk dst =
    Some (True, s, adv (length (takeWhile (\<lambda>c. c \<notin> set S) (rest tk))) tk,
          dst @ takeWhile (\<lambda>c. c \<notin> set S) (rest tk))"
proof (rule consume_until_run)
  let ?p = "\<lambda>c. c \<notin> set S"
  show "rest tk = takeWhile ?p (rest tk) @ dropWhile ?p (rest tk)" by simp
  show "\<forall>c \<in> set (takeWhile ?p (rest tk)). c \<notin> set S \<and> c \<noteq> CHR 0xFF"
    using assms by (auto dest: set_takeWhileD)
  show "dropWhile ?p (rest tk) = [] \<or> hd (dropWhile ?p (rest tk)) \<in> set S"
    using hd_dropWhile[of ?p "rest tk"] by blast
qed

theorem consume_until_prefix_witness:
  "consume_until (InSet '' '') () (tk_new ''GET /'') [] = Some (True, (), adv 3 (tk_new ''GET /''), ''GET'')"
  using consume_until_prefix[of "'' ''" "tk_new ''GET /''" "()" "[]"]
  by (simp add: lex_simps numeral_3_eq_3)

end
