(* ===== verification/HttpParser.thy ===== *)
theory HttpParser
  imports Lexer
begin

text \<open>
  The incremental HTTP/1.1 request parser of \<^verbatim>\<open>include/txl/http.h\<close>: percent decoding
  (\<open>hex_transformer\<close>), the query string parser and the request state machine. One definition
  per \<open>case\<close> of the state machine; \<open>process\<close> is the loop over them.
\<close>

unbundle bit_operations_syntax

section \<open>Percent decoding\<close>

datatype hex_state = HS0 | HS1 | HS2 | HS3

record hex_transformer =
  hex1 :: int
  hex2 :: int
  hx_state :: hex_state

text \<open>The two digit fields are written before they are read; their first value does not matter.\<close>

definition hex_new :: hex_transformer where
  "hex_new = \<lparr>hex1 = 0, hex2 = 0, hx_state = HS0\<rparr>"

definition hex_to_int :: "char \<Rightarrow> int" where
  "hex_to_int c =
     (if schar CHR ''0'' \<le> schar c \<and> schar c \<le> schar CHR ''9'' then schar c - schar CHR ''0''
      else if schar CHR ''a'' \<le> schar c \<and> schar c \<le> schar CHR ''f'' then 10 + (schar c - schar CHR ''a'')
      else if schar CHR ''A'' \<le> schar c \<and> schar c \<le> schar CHR ''F'' then 10 + (schar c - schar CHR ''A'')
      else -1)"

definition hex_decode :: "int \<Rightarrow> int \<Rightarrow> char" where
  "hex_decode a b = to_char (push_bit 4 a OR b)"

function hex_run :: "hex_transformer transformer" where
  "hex_run h tk dst =
     (if tk_empty tk then (True, h, tk, dst)
      else case hx_state h of
        HS0 \<Rightarrow> hex_run (h\<lparr>hx_state := HS1\<rparr>) (snd (skip tk)) dst
      | HS1 \<Rightarrow>
          let r = read_one_or (-1) tk; h' = h\<lparr>hex1 := fst r\<rparr>
          in if fst r = -1 then (True, h', snd r, dst) else hex_run (h'\<lparr>hx_state := HS2\<rparr>) (snd r) dst
      | HS2 \<Rightarrow>
          let r = read_one_or (-1) tk; h' = h\<lparr>hex2 := fst r\<rparr>
          in if fst r = -1 then (True, h', snd r, dst) else hex_run (h'\<lparr>hx_state := HS3\<rparr>) (snd r) dst
      | HS3 \<Rightarrow>
          let a = hex_to_int (to_char (hex1 h)); b = hex_to_int (to_char (hex2 h));
              h' = h\<lparr>hex1 := a, hex2 := b, hx_state := HS0\<rparr>
          in if a = -1 \<or> b = -1 then (False, h', tk, dst) else (True, h', tk, dst @ [hex_decode a b]))"
  by pat_completeness auto
termination
  by (relation "measure (\<lambda>(h, tk, dst). length (tk_data tk) - tk_next tk)")
     (auto simp: tk_empty_def skip_def tk_step_def read_one_or_def)

declare hex_run.simps [simp del]

text \<open>The lambda of the \<open>'+'\<close> token.\<close>

definition plus_run :: "'s transformer" where
  "plus_run s tk dst = (True, s, snd (skip tk), dst @ '' '')"

section \<open>The query string\<close>

record query_param =
  qp_name :: string
  qp_value :: string

datatype query_state = QS0 | QS1 | QS2 | QS3 | QS4

record query_string_parser =
  q_name :: string
  q_value :: string
  q_hex :: hex_transformer
  q_state :: query_state

definition query_new :: query_string_parser where
  "query_new = \<lparr>q_name = [], q_value = [], q_hex = hex_new, q_state = QS0\<rparr>"

definition parse_state_0 :: "query_string_parser \<Rightarrow> tokenizer \<Rightarrow> query_string_parser \<times> tokenizer" where
  "parse_state_0 q tk =
     (case try_expect CHR ''?'' tk of (ok, tk') \<Rightarrow>
        if \<not> ok then (q\<lparr>q_state := QS4\<rparr>, tk') else (q\<lparr>q_state := QS1, q_name := []\<rparr>, tk'))"

definition query_reset :: "query_state \<Rightarrow> query_string_parser \<Rightarrow> query_string_parser" where
  "query_reset s q = q\<lparr>q_name := [], q_value := [], q_state := s\<rparr>"

definition query_plain :: "hex_transformer token" where
  "query_plain =
     OrTok (OrTok (OrTok
       (InRange CHR ''0'' CHR ''9'')
       (InRange CHR ''A'' CHR ''Z''))
       (InRange CHR ''a'' CHR ''z''))
       (InSet [CHR ''!'', CHR ''$'', CHR 0x27, CHR ''*'', CHR ''-'', CHR ''.'', CHR ''^'', CHR ''_'',
               CHR 0x60, CHR ''|'', CHR ''~'', CHR ''['', CHR '']''])"

definition query_token :: "hex_transformer token" where
  "query_token =
     OrTok (OrTok query_plain (Transform (IsChar CHR ''%'') hex_run))
       (Transform (IsChar CHR ''+'') plus_run)"

definition consume_tokens ::
  "hex_transformer \<Rightarrow> tokenizer \<Rightarrow> string \<Rightarrow> (hex_transformer \<times> tokenizer \<times> string) option" where
  "consume_tokens h tk dst = map_option snd (consume_while query_token h tk dst)"

definition notify :: "query_string_parser \<Rightarrow> query_param list \<Rightarrow> query_param list" where
  "notify q ps = (if q_name q \<noteq> [] then ps @ [\<lparr>qp_name = q_name q, qp_value = q_value q\<rparr>] else ps)"

type_synonym query_run = "query_string_parser \<times> tokenizer \<times> query_param list"

definition parse_state_1 :: "query_string_parser \<Rightarrow> tokenizer \<Rightarrow> query_param list \<Rightarrow> query_run option" where
  "parse_state_1 q tk ps =
     map_option (\<lambda>(h, tk', name).
       let q' = q\<lparr>q_hex := h, q_name := name\<rparr>; ch = peek (-1) tk'
       in if ch = schar CHR ''='' then (q'\<lparr>q_state := QS2\<rparr>, snd (skip tk'), ps)
          else if ch = schar CHR ''&'' \<or> ch = schar CHR ''?''
            then (query_reset QS1 q', snd (skip tk'), notify q' ps)
          else (query_reset QS3 q', tk', notify q' ps))
       (consume_tokens (q_hex q) tk (q_name q))"

definition parse_state_2 :: "query_string_parser \<Rightarrow> tokenizer \<Rightarrow> query_param list \<Rightarrow> query_run option" where
  "parse_state_2 q tk ps =
     map_option (\<lambda>(h, tk', val).
       let q' = q\<lparr>q_hex := h, q_value := val\<rparr>; ch = peek (-1) tk'
       in if ch = schar CHR ''&''
            then (query_reset QS1 q', snd (skip tk'), notify q' ps)
          else (query_reset QS3 q', tk', notify q' ps))
       (consume_tokens (q_hex q) tk (q_value q))"

definition query_is_error :: "query_string_parser \<Rightarrow> bool" where
  "query_is_error q \<longleftrightarrow> q_state q = QS4"

partial_function (option) query_parse ::
  "query_string_parser \<Rightarrow> tokenizer \<Rightarrow> query_param list \<Rightarrow> query_run option" where
  "query_parse q tk ps =
     (if tk_empty tk then Some (q, tk, ps)
      else case q_state q of
        QS0 \<Rightarrow> query_parse (fst (parse_state_0 q tk)) (snd (parse_state_0 q tk)) ps
      | QS1 \<Rightarrow> Option.bind (parse_state_1 q tk ps) (\<lambda>r. query_parse (fst r) (fst (snd r)) (snd (snd r)))
      | QS2 \<Rightarrow> Option.bind (parse_state_2 q tk ps) (\<lambda>r. query_parse (fst r) (fst (snd r)) (snd (snd r)))
      | QS3 \<Rightarrow> Some (q, tk, ps)
      | QS4 \<Rightarrow> Some (q, tk, ps))"

declare query_parse.simps [code]

section \<open>The request\<close>

record header_field =
  hf_name :: string
  hf_value :: string

record http_request =
  request_type :: string
  uri :: string
  query_params :: "query_param list"
  http_version :: string
  headers :: "header_field list"

datatype http_state =
    REQUEST_TYPE | URI | QUERY_PARAM | HTTP_VERSION | REQUEST_CR | REQUEST_LF
  | HEADER_KEY | HEADER_VALUE | HEADER_CR | HEADER_LF | END_CR | END_LF
  | PARSER_COMPLETE | PARSER_ERROR

record http_parser =
  hp_stg :: http_request
  hp_query :: query_string_parser
  hp_hex :: hex_transformer
  hp_state :: http_state
  hp_new_header :: bool
  hp_fault :: bool

definition http_new :: http_parser where
  "http_new = \<lparr>hp_stg = \<lparr>request_type = [], uri = [], query_params = [], http_version = [], headers = []\<rparr>,
               hp_query = query_new, hp_hex = hex_new, hp_state = REQUEST_TYPE, hp_new_header = True, hp_fault = False\<rparr>"

definition goto :: "http_state \<Rightarrow> http_parser \<Rightarrow> http_parser" where
  "goto s p = p\<lparr>hp_state := s\<rparr>"

text \<open>\<open>stg_header()\<close> and the update its caller makes through the reference. \<^verbatim>\<open>back()\<close> of a vector without a header is undefined: the
  ghost field \<open>hp_fault\<close> records that it was taken.\<close>

definition map_last :: "('a \<Rightarrow> 'a) \<Rightarrow> 'a list \<Rightarrow> 'a list" where
  "map_last f xs = (if xs = [] then [] else butlast xs @ [f (last xs)])"

definition stg_header :: "(header_field \<Rightarrow> header_field) \<Rightarrow> http_parser \<Rightarrow> http_parser" where
  "stg_header f p =
     (let hs = headers (hp_stg p);
          hs' = (if hp_new_header p then hs @ [\<lparr>hf_name = [], hf_value = []\<rparr>] else hs)
      in p\<lparr>hp_stg := (hp_stg p)\<lparr>headers := map_last f hs'\<rparr>, hp_new_header := False, hp_fault := hp_fault p \<or> hs' = []\<rparr>)"

definition has_error :: "http_parser \<Rightarrow> bool" where
  "has_error p \<longleftrightarrow> hp_state p = PARSER_ERROR"

definition is_complete :: "http_parser \<Rightarrow> bool" where
  "is_complete p \<longleftrightarrow> hp_state p = PARSER_COMPLETE \<or> has_error p"

section \<open>The states\<close>

type_synonym http_run = "http_parser \<times> tokenizer"

definition on_request_type :: "http_parser \<Rightarrow> tokenizer \<Rightarrow> http_run option" where
  "on_request_type p tk =
     map_option (\<lambda>(_, _, tk', buf).
       let p' = p\<lparr>hp_stg := (hp_stg p)\<lparr>request_type := request_type (hp_stg p) @ buf\<rparr>\<rparr>;
           ch = peek (-1) tk'
       in if ch = schar CHR '' '' then (goto URI p', snd (skip tk'))
          else if ch = -1 then (p', tk')
          else (goto PARSER_ERROR p', tk'))
       (consume_until (InSet [CHR '' '', CHR 0x0D, CHR 0x0A]) () tk [])"

definition uri_token :: "hex_transformer token" where
  "uri_token =
     OrTok (OrTok (Transform (IsChar CHR ''%'') hex_run) (Transform (IsChar CHR ''+'') plus_run))
       (IsNot (InSet [CHR '' '', CHR 0x0D, CHR 0x0A, CHR ''?'']))"

definition on_uri :: "http_parser \<Rightarrow> tokenizer \<Rightarrow> http_run option" where
  "on_uri p tk =
     map_option (\<lambda>(_, h, tk', buf).
       let p' = p\<lparr>hp_hex := h, hp_stg := (hp_stg p)\<lparr>uri := uri (hp_stg p) @ buf\<rparr>\<rparr>;
           ch = peek (-1) tk'
       in if ch = schar CHR ''?'' then (goto QUERY_PARAM p', tk')
          else if ch = schar CHR '' '' then (goto HTTP_VERSION p', snd (skip tk'))
          else if ch = -1 then (p', tk')
          else (goto PARSER_ERROR p', tk'))
       (consume_while uri_token (hp_hex p) tk [])"

definition on_query_param :: "http_parser \<Rightarrow> tokenizer \<Rightarrow> http_run option" where
  "on_query_param p tk =
     map_option (\<lambda>(q, tk', ps).
       let p' = p\<lparr>hp_query := q, hp_stg := (hp_stg p)\<lparr>query_params := ps\<rparr>\<rparr>
       in if query_is_error q then (goto PARSER_ERROR p', tk')
          else (goto HTTP_VERSION p', snd (skip tk')))
       (query_parse (hp_query p) tk (query_params (hp_stg p)))"

definition on_http_version :: "http_parser \<Rightarrow> tokenizer \<Rightarrow> http_run option" where
  "on_http_version p tk =
     map_option (\<lambda>(_, _, tk', buf).
       let p' = p\<lparr>hp_stg := (hp_stg p)\<lparr>http_version := http_version (hp_stg p) @ buf\<rparr>\<rparr>;
           ch = peek (-1) tk'
       in if ch = schar CHR 0x0D then (goto REQUEST_CR p', tk')
          else if ch = schar CHR 0x0A then (goto REQUEST_LF p', tk')
          else (p', tk'))
       (consume_until (InSet [CHR 0x0D, CHR 0x0A]) () tk [])"

text \<open>The five states that expect one character.\<close>

definition on_expect :: "char \<Rightarrow> (http_parser \<Rightarrow> http_parser) \<Rightarrow> http_parser \<Rightarrow> tokenizer \<Rightarrow> http_run" where
  "on_expect ch ok p tk =
     (case try_expect ch tk of (b, tk') \<Rightarrow> (if b then ok p else goto PARSER_ERROR p, tk'))"

definition on_header_key :: "http_parser \<Rightarrow> tokenizer \<Rightarrow> http_run option" where
  "on_header_key p tk =
     map_option (\<lambda>(_, _, tk', buf).
       let p' = (if buf \<noteq> [] then stg_header (\<lambda>f. f\<lparr>hf_name := hf_name f @ buf\<rparr>) p else p);
           ch = peek (-1) tk'
       in if ch = schar CHR 0x0D then (goto END_CR p', tk')
          else if ch = schar CHR 0x0A then (goto PARSER_COMPLETE p', snd (skip tk'))
          else if ch = schar CHR '':''
            then (goto HEADER_VALUE p', skip_while (IsChar CHR '' '' :: unit token) (snd (skip tk')))
          else (p', tk'))
       (consume_until (InSet [CHR '':'', CHR 0x0D, CHR 0x0A]) () tk [])"

definition on_header_value :: "http_parser \<Rightarrow> tokenizer \<Rightarrow> http_run option" where
  "on_header_value p tk =
     map_option (\<lambda>(_, _, tk', buf).
       let p' = stg_header (\<lambda>f. f\<lparr>hf_value := hf_value f @ buf\<rparr>) p;
           ch = peek (-1) tk'
       in if ch = schar CHR 0x0D then (goto HEADER_CR p', tk')
          else if ch = schar CHR 0x0A
            then ((goto HEADER_KEY p')\<lparr>hp_new_header := True\<rparr>, snd (skip tk'))
          else (p', tk'))
       (consume_until (InSet [CHR 0x0D, CHR 0x0A]) () tk [])"

definition http_step :: "http_parser \<Rightarrow> tokenizer \<Rightarrow> http_run option" where
  "http_step p tk =
     (case hp_state p of
        REQUEST_TYPE \<Rightarrow> on_request_type p tk
      | URI \<Rightarrow> on_uri p tk
      | QUERY_PARAM \<Rightarrow> on_query_param p tk
      | HTTP_VERSION \<Rightarrow> on_http_version p tk
      | REQUEST_CR \<Rightarrow> Some (on_expect CHR 0x0D (goto REQUEST_LF) p tk)
      | REQUEST_LF \<Rightarrow> Some (on_expect CHR 0x0A (goto HEADER_KEY) p tk)
      | HEADER_KEY \<Rightarrow> on_header_key p tk
      | HEADER_VALUE \<Rightarrow> on_header_value p tk
      | HEADER_CR \<Rightarrow> Some (on_expect CHR 0x0D (goto HEADER_LF) p tk)
      | HEADER_LF \<Rightarrow> Some (on_expect CHR 0x0A (\<lambda>p. (goto HEADER_KEY p)\<lparr>hp_new_header := True\<rparr>) p tk)
      | END_CR \<Rightarrow> Some (on_expect CHR 0x0D (goto END_LF) p tk)
      | END_LF \<Rightarrow> Some (on_expect CHR 0x0A (goto PARSER_COMPLETE) p tk)
      | PARSER_COMPLETE \<Rightarrow> Some (p, tk)
      | PARSER_ERROR \<Rightarrow> Some (p, tk))"

text \<open>The loop of \<open>process\<close>: the number of characters it reports and the parser it leaves.\<close>

partial_function (option) http_loop :: "http_parser \<Rightarrow> tokenizer \<Rightarrow> (nat \<times> http_parser) option" where
  "http_loop p tk =
     (if tk_empty tk then Some (0, p)
      else if hp_state p = PARSER_COMPLETE then Some (num_parsed tk, p)
      else if hp_state p = PARSER_ERROR then Some (0, p)
      else Option.bind (http_step p tk) (\<lambda>r. http_loop (fst r) (snd r)))"

declare http_loop.simps [code]

definition http_process :: "string \<Rightarrow> http_parser \<Rightarrow> (nat \<times> http_parser) option" where
  "http_process data p = http_loop p (tk_new data)"

section \<open>The last header\<close>

text \<open>A parser that is going to start a header or has one, and has not gone wrong.\<close>

definition parser_ok :: "http_parser \<Rightarrow> bool" where
  "parser_ok p \<longleftrightarrow> (hp_new_header p \<or> headers (hp_stg p) \<noteq> []) \<and> \<not> hp_fault p"

lemma parser_ok_simps [simp]:
  "parser_ok http_new" "parser_ok (goto s p) = parser_ok p" "parser_ok p \<Longrightarrow> parser_ok (stg_header f p)"
  "parser_ok p \<Longrightarrow> parser_ok (p\<lparr>hp_new_header := True\<rparr>)" "parser_ok (p\<lparr>hp_hex := h\<rparr>) = parser_ok p" "parser_ok (p\<lparr>hp_query := q\<rparr>) = parser_ok p"
  "headers r = headers (hp_stg p) \<Longrightarrow> parser_ok (p\<lparr>hp_stg := r\<rparr>) = parser_ok p"
  by (auto simp: parser_ok_def http_new_def goto_def stg_header_def map_last_def Let_def)

lemma http_step_ok:
  assumes "http_step p tk = Some (p', tk')" "parser_ok p"
  shows "parser_ok p'"
  using assms
  by (cases "hp_state p")
    (auto simp: http_step_def on_request_type_def on_uri_def on_query_param_def on_http_version_def on_expect_def on_header_key_def
      on_header_value_def Let_def split: if_splits prod.splits)

lemma http_loop_ok: "http_loop p tk = Some r \<Longrightarrow> parser_ok p \<longrightarrow> parser_ok (snd r)"
proof (rule http_loop.raw_induct[where P = "\<lambda>p tk r. parser_ok p \<longrightarrow> parser_ok (snd r)"])
  fix loop p tk r
  assume IH: "\<And>p tk r. loop p tk = Some r \<Longrightarrow> parser_ok p \<longrightarrow> parser_ok (snd r)"
    and e: "(if tk_empty tk then Some (0, p) else if hp_state p = PARSER_COMPLETE then Some (num_parsed tk, p)
      else if hp_state p = PARSER_ERROR then Some (0, p) else Option.bind (http_step p tk) (\<lambda>r. loop (fst r) (snd r))) = Some r"
  show "parser_ok p \<longrightarrow> parser_ok (snd r)"
  proof
    assume ok: "parser_ok p"
    show "parser_ok (snd r)"
    proof (cases "http_step p tk")
      case None
      then show ?thesis using e ok by (auto split: if_splits)
    next
      case (Some x)
      then have "parser_ok (fst x)" using http_step_ok[of p tk "fst x" "snd x"] ok by simp
      then show ?thesis using e ok Some IH[of "fst x" "snd x" r] by (auto split: if_splits)
    qed
  qed
qed

lemma http_process_ok: "http_process data p = Some (k, p') \<Longrightarrow> parser_ok p \<Longrightarrow> parser_ok p'"
  using http_loop_ok[of p "tk_new data" "(k, p')"] by (simp add: http_process_def)

section \<open>Percent-encoded text\<close>

definition hex_digit :: "int \<Rightarrow> char" where
  "hex_digit n = to_char (if n < 10 then 48 + n else 55 + n)"

definition pct :: "char \<Rightarrow> string" where
  "pct c = [CHR ''%'', hex_digit (of_char c div 16), hex_digit (of_char c mod 16)]"

definition encode :: "(char \<Rightarrow> bool) \<Rightarrow> string \<Rightarrow> string" where
  "encode safe s = concat (map (\<lambda>c. if safe c then [c] else pct c) s)"

lemma encode_simps [simp]:
  "encode safe [] = []" "encode safe (c # cs) = (if safe c then [c] else pct c) @ encode safe cs"
  by (simp_all add: encode_def)

lemma hex_digit_value:
  assumes "0 \<le> n" "n < 16"
  shows "hex_to_int (hex_digit n) = n \<and> hex_digit n \<noteq> CHR 0xFF"
proof -
  have "\<forall>n \<in> set [0..15]. hex_to_int (hex_digit n) = n \<and> hex_digit n \<noteq> CHR 0xFF" by code_simp
  then show ?thesis using assms by simp
qed

lemma hex_decode_pct: "hex_decode (of_char c div 16) (of_char c mod 16) = c"
proof -
  have e: "of_char c mod 16 = take_bit 4 (of_char c :: int)" "of_char c div 16 = drop_bit 4 (of_char c :: int)"
    by (simp_all add: take_bit_eq_mod drop_bit_eq_div)
  have "push_bit 4 (drop_bit 4 (of_char c)) OR take_bit 4 (of_char c) = (of_char c :: int)"
    by (rule bit_eqI) (auto simp: bit_simps)
  then show ?thesis by (simp add: hex_decode_def to_char_def e)
qed

lemma read_one_or_rest: "rest tk = c # cs \<Longrightarrow> read_one_or d tk = (schar c, adv 1 tk)"
  by (simp add: read_one_or_def lex_simps)

lemma hex_run_0: "hx_state h = HS0 \<Longrightarrow> rest tk = c # cs \<Longrightarrow>
    hex_run h tk dst = hex_run (h\<lparr>hx_state := HS1\<rparr>) (adv 1 tk) dst"
  by (simp add: hex_run.simps[of h tk dst] lex_simps)

lemma hex_run_1: "hx_state h = HS1 \<Longrightarrow> rest tk = c # cs \<Longrightarrow> c \<noteq> CHR 0xFF \<Longrightarrow>
    hex_run h tk dst = hex_run (h\<lparr>hex1 := schar c, hx_state := HS2\<rparr>) (adv 1 tk) dst"
  by (simp add: hex_run.simps[of h tk dst] lex_simps read_one_or_rest)

lemma hex_run_2: "hx_state h = HS2 \<Longrightarrow> rest tk = c # cs \<Longrightarrow> c \<noteq> CHR 0xFF \<Longrightarrow>
    hex_run h tk dst = hex_run (h\<lparr>hex2 := schar c, hx_state := HS3\<rparr>) (adv 1 tk) dst"
  by (simp add: hex_run.simps[of h tk dst] lex_simps read_one_or_rest)

lemma hex_run_decode:
  assumes "hx_state h = HS0" "rest tk = pct c @ r # rs"
  shows "\<exists>h'. hx_state h' = HS0 \<and> hex_run h tk dst = (True, h', adv 3 tk, dst @ [c])"
proof -
  let ?a = "of_char c div 16 :: int" and ?b = "of_char c mod 16 :: int"
  have "(of_char c :: int) = of_char c mod 256" by simp
  then have b: "0 \<le> (of_char c :: int)" "(of_char c :: int) < 256" by presburger+
  then have a: "0 \<le> ?a" "?a < 16" "0 \<le> ?b" "?b < 16" by presburger+
  have f: "hex_digit ?a \<noteq> CHR 0xFF" "hex_digit ?b \<noteq> CHR 0xFF"
    "hex_to_int (hex_digit ?a) = ?a" "hex_to_int (hex_digit ?b) = ?b"
    using hex_digit_value a by blast+
  let ?h = "h\<lparr>hex1 := schar (hex_digit ?a), hex2 := schar (hex_digit ?b), hx_state := HS3\<rparr>"
  have r: "rest tk = CHR ''%'' # hex_digit ?a # hex_digit ?b # r # rs" using assms(2) by (simp add: pct_def)
  have "hex_run h tk dst = hex_run ?h (adv 3 tk) dst"
    using assms(1) r f(1,2)
    by (simp add: hex_run_0 hex_run_1 hex_run_2 lex_simps numeral_3_eq_3)
  also have "\<dots> = (True, ?h\<lparr>hex1 := ?a, hex2 := ?b, hx_state := HS0\<rparr>, adv 3 tk, dst @ [c])"
  proof -
    have "?a \<noteq> -1" "?b \<noteq> -1" using a by linarith+
    with r f(3,4) show ?thesis
      by (simp add: hex_run.simps[of ?h] lex_simps hex_decode_pct Let_def)
  qed
  finally show ?thesis by (intro exI[of _ "?h\<lparr>hex1 := ?a, hex2 := ?b, hx_state := HS0\<rparr>"]) simp
qed

text \<open>
  What the two users of percent decoding need of their token: it copies the characters it
  calls safe, it sends a percent sign to the hex transformer.
\<close>

locale escaping_token =
  fixes t :: "hex_transformer token" and safe :: "char \<Rightarrow> bool"
  assumes accepts_safe: "safe c \<Longrightarrow> accepts t c"
    and process_safe: "safe c \<Longrightarrow> rest tk = c # cs \<Longrightarrow> process t h tk dst = (True, h, adv 1 tk, dst @ [c])"
    and accepts_pct: "accepts t CHR ''%''"
    and process_pct: "rest tk = CHR ''%'' # cs \<Longrightarrow> process t h tk dst = hex_run h tk dst"
begin

lemma consume_encoded_prefix:
  assumes "hx_state h = HS0" "rest tk = encode safe s @ r # rs"
  shows "\<exists>h'. hx_state h' = HS0 \<and>
    consume_while t h tk dst = consume_while t h' (adv (length (encode safe s)) tk) (dst @ s)"
  using assms
proof (induction s arbitrary: h tk dst)
  case Nil
  then show ?case by (auto simp: lex_simps)
next
  case (Cons c s)
  have "\<exists>h1 n. hx_state h1 = HS0 \<and> n = length (if safe c then [c] else pct c) \<and>
      consume_while t h tk dst = consume_while t h1 (adv n tk) (dst @ [c])"
  proof (cases "safe c")
    case True
    with Cons.prems(2) have r: "rest tk = c # (encode safe s @ r # rs)" by simp
    from consume_while_more[OF r accepts_safe[OF True] process_safe[OF True r]] Cons.prems(1) True
    show ?thesis by (intro exI[of _ h] exI[of _ 1]) simp
  next
    case False
    define rs' where "rs' = encode safe s @ r # rs"
    obtain r1 rs1 where rs1: "rs' = r1 # rs1" by (cases rs') (auto simp: rs'_def)
    have r: "rest tk = pct c @ r1 # rs1" using Cons.prems(2) False rs1 by (simp add: rs'_def)
    then have r': "rest tk = CHR ''%'' # tl (pct c) @ r1 # rs1" by (simp add: pct_def)
    obtain h1 where h1: "hx_state h1 = HS0" "hex_run h tk dst = (True, h1, adv 3 tk, dst @ [c])"
      using hex_run_decode[OF Cons.prems(1) r] by blast
    have "process t h tk dst = (True, h1, adv 3 tk, dst @ [c])" using process_pct[OF r'] h1(2) by simp
    from consume_while_more[OF r' accepts_pct this] h1(1) False
    show ?thesis by (intro exI[of _ h1] exI[of _ 3]) (simp add: pct_def)
  qed
  then obtain h1 n where h1: "hx_state h1 = HS0" "n = length (if safe c then [c] else pct c)"
    "consume_while t h tk dst = consume_while t h1 (adv n tk) (dst @ [c])" by blast
  have "rest (adv n tk) = encode safe s @ r # rs" using Cons.prems(2) h1(2) by (simp add: lex_simps)
  from Cons.IH[OF h1(1) this, of "dst @ [c]"] h1(2,3) show ?case by (auto simp: lex_simps)
qed

lemma consume_encoded:
  assumes "hx_state h = HS0" "rest tk = encode safe s @ r # rs" "\<not> accepts t r"
  shows "\<exists>h'. hx_state h' = HS0 \<and>
    consume_while t h tk dst = Some (True, h', adv (length (encode safe s)) tk, dst @ s)"
proof -
  obtain h' where h': "hx_state h' = HS0"
    "consume_while t h tk dst = consume_while t h' (adv (length (encode safe s)) tk) (dst @ s)"
    using consume_encoded_prefix[OF assms(1,2)] by blast
  have "rest (adv (length (encode safe s)) tk) = r # rs" using assms(2) by (simp add: rest_adv)
  with h' assms(3) consume_while_stop[of "adv (length (encode safe s)) tk" t h' "dst @ s"] show ?thesis by auto
qed

end

definition uri_safe :: "char \<Rightarrow> bool" where
  "uri_safe c \<longleftrightarrow> c \<noteq> CHR 0xFF \<and> c \<noteq> CHR ''%'' \<and> c \<noteq> CHR ''+'' \<and> accepts uri_token c"

definition query_safe :: "char \<Rightarrow> bool" where
  "query_safe c \<longleftrightarrow> c \<noteq> CHR 0xFF \<and> c \<noteq> CHR ''%'' \<and> c \<noteq> CHR ''+'' \<and> accepts query_token c"

interpretation uri_esc: escaping_token uri_token uri_safe
  by unfold_locales (auto simp: uri_safe_def uri_token_def lex_simps)

lemma query_plain_process: "rest tk = c # cs \<Longrightarrow> c \<noteq> CHR 0xFF \<Longrightarrow>
    process query_plain h tk dst = (True, h, adv 1 tk, dst @ [c])"
  by (simp add: query_plain_def lex_simps Let_def)

lemma query_plain_pct: "\<not> accepts query_plain CHR ''%''" "\<not> accepts query_plain CHR ''+''"
  "\<not> accepts query_plain CHR 0xFF" by code_simp+

interpretation query_esc: escaping_token query_token query_safe
  by unfold_locales
     (auto simp: query_safe_def query_token_def lex_simps query_plain_process query_plain_pct)

section \<open>Query strings\<close>

definition enc_param :: "query_param \<Rightarrow> string" where
  "enc_param p = encode query_safe (qp_name p) @ CHR ''='' # encode query_safe (qp_value p)"

fun enc_params :: "query_param list \<Rightarrow> string" where
  "enc_params [] = []"
| "enc_params [p] = enc_param p"
| "enc_params (p # ps) = enc_param p @ CHR ''&'' # enc_params ps"

lemma query_param_eta [simp]: "\<lparr>qp_name = qp_name p, qp_value = qp_value p\<rparr> = p"
  by simp

text \<open>A character that ends a query: not one of the query's own.\<close>

definition ends_query :: "char \<Rightarrow> bool" where
  "ends_query r \<longleftrightarrow> \<not> accepts query_token r \<and> r \<notin> {CHR ''&'', CHR ''='', CHR ''?''}"

lemma query_stops: "\<not> accepts query_token CHR ''=''" "\<not> accepts query_token CHR ''&''" by code_simp+

lemma parse_state_1_name:
  assumes "hx_state (q_hex q) = HS0" "q_name q = []" "rest tk = encode query_safe n @ CHR ''='' # rs"
  obtains h where "hx_state h = HS0" "parse_state_1 q tk ps =
    Some (q\<lparr>q_hex := h, q_name := n, q_state := QS2\<rparr>, adv (Suc (length (encode query_safe n))) tk, ps)"
proof -
  from query_esc.consume_encoded[OF assms(1,3) query_stops(1), of "[]"] obtain h where
    h: "hx_state h = HS0" "consume_while query_token (q_hex q) tk [] =
      Some (True, h, adv (length (encode query_safe n)) tk, n)" by auto
  have "rest (adv (length (encode query_safe n)) tk) = CHR ''='' # rs" using assms(3) by (simp add: lex_simps)
  with h assms(2) show ?thesis
    by (intro that[of h]) (auto simp: parse_state_1_def consume_tokens_def lex_simps)
qed

lemma parse_state_2_value:
  assumes "hx_state (q_hex q) = HS0" "q_value q = []" "q_name q \<noteq> []"
    "rest tk = encode query_safe v @ r # rs" "r = CHR ''&'' \<or> ends_query r"
  obtains h where "hx_state h = HS0" "parse_state_2 q tk ps =
    Some (query_reset (if r = CHR ''&'' then QS1 else QS3) (q\<lparr>q_hex := h\<rparr>),
          adv ((if r = CHR ''&'' then 1 else 0) + length (encode query_safe v)) tk,
          ps @ [\<lparr>qp_name = q_name q, qp_value = v\<rparr>])"
proof -
  have nr: "\<not> accepts query_token r" using assms(5) query_stops by (auto simp: ends_query_def)
  from query_esc.consume_encoded[OF assms(1,4) nr, of "[]"] obtain h where
    h: "hx_state h = HS0" "consume_while query_token (q_hex q) tk [] =
      Some (True, h, adv (length (encode query_safe v)) tk, v)" by auto
  have "rest (adv (length (encode query_safe v)) tk) = r # rs" using assms(4) by (simp add: lex_simps)
  with h assms(2,3,5) show ?thesis
    by (intro that[of h])
       (auto simp: parse_state_2_def consume_tokens_def lex_simps ends_query_def notify_def query_reset_def Let_def)
qed

lemma query_parse_params:
  assumes "q_state q = QS1" "hx_state (q_hex q) = HS0" "q_name q = []" "q_value q = []"
    "ps \<noteq> []" "\<forall>p \<in> set ps. qp_name p \<noteq> []" "rest tk = enc_params ps @ r # rs" "ends_query r"
  shows "\<exists>q'. q_state q' = QS3 \<and>
    query_parse q tk acc = Some (q', adv (length (enc_params ps)) tk, acc @ ps)"
  using assms(1-7)
proof (induction ps arbitrary: q tk acc)
  case (Cons p ps)
  define more where "more = (if ps = [] then r # rs else CHR ''&'' # enc_params ps @ r # rs)"
  define r' where "r' = hd more"
  have more: "more = r' # tl more" by (simp add: more_def r'_def)
  have r': "r' = CHR ''&'' \<or> ends_query r'" "r' = CHR ''&'' \<longleftrightarrow> ps \<noteq> []"
    using assms(8) by (auto simp: more_def r'_def ends_query_def)
  let ?n = "encode query_safe (qp_name p)" and ?v = "encode query_safe (qp_value p)"
  have rs: "rest tk = ?n @ CHR ''='' # ?v @ more"
    using Cons.prems(7) by (cases ps) (auto simp: enc_param_def more_def)
  obtain h1 where h1: "hx_state h1 = HS0" "parse_state_1 q tk acc =
      Some (q\<lparr>q_hex := h1, q_name := qp_name p, q_state := QS2\<rparr>, adv (Suc (length ?n)) tk, acc)"
    by (rule parse_state_1_name[OF Cons.prems(2,3) rs])
  let ?q1 = "q\<lparr>q_hex := h1, q_name := qp_name p, q_state := QS2\<rparr>" and ?t1 = "adv (Suc (length ?n)) tk"
  have s1: "query_parse q tk acc = query_parse ?q1 ?t1 acc"
    using h1 Cons.prems(1) rs by (simp add: query_parse.simps[of q tk] lex_simps)
  have rs1: "rest ?t1 = ?v @ r' # tl more" using rs more by (simp add: lex_simps)
  obtain h2 where h2: "hx_state h2 = HS0" "parse_state_2 ?q1 ?t1 acc =
      Some (query_reset (if r' = CHR ''&'' then QS1 else QS3) (?q1\<lparr>q_hex := h2\<rparr>),
            adv ((if r' = CHR ''&'' then 1 else 0) + length ?v) ?t1,
            acc @ [p])"
    using parse_state_2_value[OF _ _ _ rs1 r'(1), of ?q1 acc] h1(1) Cons.prems(4,6) by auto
  let ?q2 = "query_reset (if r' = CHR ''&'' then QS1 else QS3) (?q1\<lparr>q_hex := h2\<rparr>)"
  let ?t2 = "adv ((if r' = CHR ''&'' then 1 else 0) + length ?v) ?t1"
  have s2: "query_parse ?q1 ?t1 acc = query_parse ?q2 ?t2 (acc @ [p])"
    using h2(2) rs1 by (simp add: query_parse.simps[of ?q1 ?t1] lex_simps)
  show ?case
  proof (cases "ps = []")
    case True
    have "rest ?t2 = r # rs"
      unfolding rest_adv[of _ ?t1] rs1 using True r'(2) by (simp add: r'_def more_def)
    then have "query_parse ?q2 ?t2 (acc @ [p]) = Some (?q2, ?t2, acc @ [p])"
      using r'(2) True by (subst query_parse.simps) (simp add: lex_simps query_reset_def)
    then show ?thesis unfolding s1 s2 using True r'(2)
      by (simp add: query_reset_def lex_simps enc_param_def)
  next
    case False
    have "rest ?t2 = enc_params ps @ r # rs"
      unfolding rest_adv[of _ ?t1] rs1 using False r'(2) by (simp add: more_def)
    moreover have "q_state ?q2 = QS1" "hx_state (q_hex ?q2) = HS0" "q_name ?q2 = []" "q_value ?q2 = []"
      using False r'(2) h2(1) by (simp_all add: query_reset_def)
    ultimately obtain q' where q': "q_state q' = QS3"
      "query_parse ?q2 ?t2 (acc @ [p]) = Some (q', adv (length (enc_params ps)) ?t2, (acc @ [p]) @ ps)"
      using Cons.IH[of ?q2 ?t2 "acc @ [p]"] False Cons.prems(6) by auto
    have "length (enc_params (p # ps)) = length ?n + length ?v + 2 + length (enc_params ps)"
      using False by (cases ps) (auto simp: enc_param_def)
    then have "adv (length (enc_params ps)) ?t2 = adv (length (enc_params (p # ps))) tk"
      using False r'(2) by (simp add: lex_simps)
    with q' show ?thesis unfolding s1 s2 by auto
  qed
qed simp

lemma query_parse_string:
  assumes "ps \<noteq> []" "\<forall>p \<in> set ps. qp_name p \<noteq> []" "ends_query r"
    "rest tk = CHR ''?'' # enc_params ps @ r # rs"
  shows "\<exists>q'. q_state q' = QS3 \<and>
    query_parse query_new tk acc = Some (q', adv (Suc (length (enc_params ps))) tk, acc @ ps)"
proof -
  let ?q = "query_new\<lparr>q_state := QS1, q_name := []\<rparr>"
  have "query_parse query_new tk acc = query_parse ?q (adv 1 tk) acc"
    using assms(4)
    by (subst query_parse.simps) (simp add: lex_simps query_new_def parse_state_0_def)
  moreover have "rest (adv 1 tk) = enc_params ps @ r # rs" using assms(4) by (simp add: lex_simps)
  ultimately show ?thesis
    using query_parse_params[OF _ _ _ _ assms(1,2) _ assms(3), of ?q "adv 1 tk"]
    by (simp add: query_new_def hex_new_def lex_simps)
qed

end
