(* ===== verification/HttpRequest.thy ===== *)
theory HttpRequest
  imports HttpParser
begin

text \<open>
  What the request parser of \<^verbatim>\<open>http.h\<close> does with whole requests: runs of the state machine
  over a rendered request (round trip), its termination, and its behaviour at the end of a
  buffer.
\<close>

section \<open>Runs of the state machine\<close>

definition reaches :: "http_parser \<Rightarrow> tokenizer \<Rightarrow> nat \<Rightarrow> http_parser \<Rightarrow> bool" where
  "reaches p tk n p' \<longleftrightarrow> http_loop p tk = http_loop p' (adv n tk)"

lemma reaches_trans: "reaches p tk n p' \<Longrightarrow> reaches p' (adv n tk) m p'' \<Longrightarrow> reaches p tk (n + m) p''"
  by (simp add: reaches_def lex_simps)

lemma reaches_step:
  assumes "rest tk \<noteq> []" "hp_state p \<noteq> PARSER_COMPLETE" "hp_state p \<noteq> PARSER_ERROR"
    "http_step p tk = Some (p', adv n tk)"
  shows "reaches p tk n p'"
  using assms by (simp add: reaches_def http_loop.simps[of p tk] lex_simps)

lemma goto_simps [simp]:
  "hp_state (goto s p) = s" "hp_stg (goto s p) = hp_stg p" "hp_query (goto s p) = hp_query p"
  "hp_hex (goto s p) = hp_hex p" "hp_new_header (goto s p) = hp_new_header p"
  by (simp_all add: goto_def)

lemma rest_adv_append: "rest (adv n tk) = xs @ ys \<Longrightarrow> rest (adv (n + length xs) tk) = ys"
  by (simp add: rest_adv drop_drop[symmetric] add.commute[of _ "length xs"] del: drop_drop)

text \<open>Text that ends at one of the stop characters of its state.\<close>

definition clean :: "char list \<Rightarrow> string \<Rightarrow> bool" where
  "clean S s \<longleftrightarrow> (\<forall>c \<in> set s. c \<notin> set S \<and> c \<noteq> CHR 0xFF)"

lemma consume_clean:
  "clean S cs \<Longrightarrow> r \<in> set S \<Longrightarrow> rest tk = cs @ r # rs \<Longrightarrow>
   consume_until (InSet S) s tk dst = Some (True, s, adv (length cs) tk, dst @ cs) \<and>
   rest (adv (length cs) tk) = r # rs"
  using consume_until_run[of tk cs "r # rs" S s dst] by (simp add: clean_def lex_simps)

lemma run_request_type:
  assumes "hp_state p = REQUEST_TYPE" "clean [CHR '' '', CHR 0x0D, CHR 0x0A] m" "rest tk = m @ CHR '' '' # rs"
  shows "reaches p tk (Suc (length m))
    (goto URI (p\<lparr>hp_stg := (hp_stg p)\<lparr>request_type := request_type (hp_stg p) @ m\<rparr>\<rparr>))"
  using assms(1,3) consume_clean[OF assms(2) _ assms(3), of "()" "[]"]
  by (intro reaches_step) (auto simp: http_step_def on_request_type_def lex_simps Let_def)

lemma uri_stops: "\<not> accepts uri_token CHR '' ''" "\<not> accepts uri_token CHR ''?''" by code_simp+

lemma run_uri:
  assumes "hp_state p = URI" "hx_state (hp_hex p) = HS0" "rest tk = encode uri_safe u @ r # rs"
    "r = CHR '' '' \<or> r = CHR ''?''"
  obtains h where "reaches p tk (length (encode uri_safe u) + (if r = CHR '' '' then 1 else 0))
    (goto (if r = CHR '' '' then HTTP_VERSION else QUERY_PARAM)
       (p\<lparr>hp_hex := h, hp_stg := (hp_stg p)\<lparr>uri := uri (hp_stg p) @ u\<rparr>\<rparr>))"
proof -
  have "\<not> accepts uri_token r" using assms(4) uri_stops by auto
  from uri_esc.consume_encoded[OF assms(2,3) this, of "[]"] obtain h where
    h: "consume_while uri_token (hp_hex p) tk [] = Some (True, h, adv (length (encode uri_safe u)) tk, u)"
    by auto
  have "rest (adv (length (encode uri_safe u)) tk) = r # rs" using assms(3) by (simp add: lex_simps)
  with h assms(1,3,4) show ?thesis
    by (intro that[of h] reaches_step) (auto simp: http_step_def on_uri_def lex_simps Let_def)
qed

lemma space_ends_query: "ends_query CHR '' ''" by code_simp

lemma run_query:
  assumes "hp_state p = QUERY_PARAM" "hp_query p = query_new" "ps \<noteq> []"
    "\<forall>q \<in> set ps. qp_name q \<noteq> []" "rest tk = CHR ''?'' # enc_params ps @ CHR '' '' # rs"
  obtains q where "reaches p tk (length (enc_params ps) + 2)
    (goto HTTP_VERSION (p\<lparr>hp_query := q, hp_stg := (hp_stg p)\<lparr>query_params := query_params (hp_stg p) @ ps\<rparr>\<rparr>))"
proof -
  from query_parse_string[OF assms(3,4) space_ends_query assms(5)] obtain q where
    q: "q_state q = QS3" "query_parse query_new tk (query_params (hp_stg p)) =
      Some (q, adv (Suc (length (enc_params ps))) tk, query_params (hp_stg p) @ ps)" by blast
  have "rest (adv (Suc (length (enc_params ps))) tk) = CHR '' '' # rs" using assms(5) by (simp add: lex_simps)
  with q assms(1,2,5) show ?thesis
    by (intro that[of q] reaches_step)
       (auto simp: http_step_def on_query_param_def query_is_error_def lex_simps Let_def)
qed

lemma run_expect:
  assumes "rest tk = ch # rs" "http_step p tk = Some (on_expect ch f p tk)"
    "hp_state p \<noteq> PARSER_COMPLETE" "hp_state p \<noteq> PARSER_ERROR"
  shows "reaches p tk 1 (f p)"
  using assms by (intro reaches_step) (auto simp: on_expect_def lex_simps)

lemma run_version:
  assumes "hp_state p = HTTP_VERSION" "clean [CHR 0x0D, CHR 0x0A] v" "rest tk = v @ CHR 0x0D # CHR 0x0A # rs"
  shows "reaches p tk (length v + 2)
    (goto HEADER_KEY (p\<lparr>hp_stg := (hp_stg p)\<lparr>http_version := http_version (hp_stg p) @ v\<rparr>\<rparr>))"
proof -
  let ?p = "p\<lparr>hp_stg := (hp_stg p)\<lparr>http_version := http_version (hp_stg p) @ v\<rparr>\<rparr>"
  let ?t = "adv (length v) tk"
  have c: "consume_until (InSet [CHR 0x0D, CHR 0x0A]) () tk [] = Some (True, (), ?t, v)"
    and r: "rest ?t = CHR 0x0D # CHR 0x0A # rs"
    using consume_clean[OF assms(2) _ assms(3), of "()" "[]"] by auto
  have 1: "reaches p tk (length v) (goto REQUEST_CR ?p)"
    using assms(1,3) c r by (intro reaches_step) (auto simp: http_step_def on_http_version_def lex_simps Let_def)
  have 2: "reaches (goto REQUEST_CR ?p) ?t 1 (goto REQUEST_LF (goto REQUEST_CR ?p))"
    by (rule run_expect[OF r]) (simp_all add: http_step_def)
  have r1: "rest (adv 1 ?t) = CHR 0x0A # rs" unfolding rest_adv[of 1 ?t] r by simp
  have 3: "reaches (goto REQUEST_LF (goto REQUEST_CR ?p)) (adv 1 ?t) 1
      (goto HEADER_KEY (goto REQUEST_LF (goto REQUEST_CR ?p)))"
    by (rule run_expect[OF r1]) (simp_all add: http_step_def)
  have "reaches p tk (length v + (1 + 1)) (goto HEADER_KEY (goto REQUEST_LF (goto REQUEST_CR ?p)))"
    by (rule reaches_trans[OF 1 reaches_trans[OF 2 3]])
  then show ?thesis by (simp add: goto_def)
qed

definition render_header :: "header_field \<Rightarrow> string" where
  "render_header f = hf_name f @ '': '' @ hf_value f @ [CHR 0x0D, CHR 0x0A]"

definition wf_header :: "header_field \<Rightarrow> bool" where
  "wf_header f \<longleftrightarrow> clean [CHR '':'', CHR 0x0D, CHR 0x0A] (hf_name f) \<and>
     hf_name f \<noteq> [] \<and> clean [CHR 0x0D, CHR 0x0A] (hf_value f) \<and> (hf_value f = [] \<or> hd (hf_value f) \<noteq> CHR '' '')"

lemma skip_space:
  assumes "rest tk = CHR '' '' # v" "v \<noteq> []" "hd v \<noteq> CHR '' ''"
  shows "skip_while (IsChar CHR '' '' :: unit token) tk = adv 1 tk"
proof -
  have "takeWhile (accepts (IsChar CHR '' '' :: unit token)) (rest tk) = [CHR '' '']"
    using assms by (cases v) auto
  then show ?thesis using skip_while_run[of "IsChar CHR '' '' :: unit token" tk] by simp
qed

text \<open>The two states that read a header, from its first character to its line break.\<close>

lemma run_header_key:
  assumes "hp_state p = HEADER_KEY" "clean [CHR '':'', CHR 0x0D, CHR 0x0A] n" "n \<noteq> []"
    "rest tk = n @ '': '' @ v" "v \<noteq> []" "hd v \<noteq> CHR '' ''"
  shows "reaches p tk (length n + 2)
    (goto HEADER_VALUE (stg_header (\<lambda>f. f\<lparr>hf_name := hf_name f @ n\<rparr>) p))"
proof -
  let ?t = "adv (length n) tk"
  have c: "consume_until (InSet [CHR '':'', CHR 0x0D, CHR 0x0A]) () tk [] = Some (True, (), ?t, n)"
    and r: "rest ?t = CHR '':'' # CHR '' '' # v"
    using consume_clean[OF assms(2), of "CHR '':''" tk "CHR '' '' # v" "()" "[]"] assms(4) by auto
  have "rest (adv 1 ?t) = CHR '' '' # v" unfolding rest_adv[of 1 ?t] r by simp
  from skip_space[OF this assms(5,6)]
  have "skip_while (IsChar CHR '' '' :: unit token) (snd (skip ?t)) = adv (length n + 2) tk"
    by (simp add: skip_rest r adv_adv)
  then show ?thesis
    using assms(1,3,4) c r
    by (intro reaches_step) (auto simp: http_step_def on_header_key_def peek_rest)
qed

lemma run_header_value:
  assumes "hp_state p = HEADER_VALUE" "clean [CHR 0x0D, CHR 0x0A] v"
    "rest tk = v @ CHR 0x0D # CHR 0x0A # rs"
  shows "\<exists>p'. reaches p tk (length v + 2) p' \<and> hp_state p' = HEADER_KEY \<and> hp_new_header p' \<and>
    hp_stg p' = hp_stg (stg_header (\<lambda>f. f\<lparr>hf_value := hf_value f @ v\<rparr>) p)"
proof -
  let ?p = "stg_header (\<lambda>f. f\<lparr>hf_value := hf_value f @ v\<rparr>) p"
  let ?t = "adv (length v) tk"
  have c: "consume_until (InSet [CHR 0x0D, CHR 0x0A]) () tk [] = Some (True, (), ?t, v)"
    and r: "rest ?t = CHR 0x0D # CHR 0x0A # rs"
    using consume_clean[OF assms(2) _ assms(3), of "()" "[]"] by auto
  have 1: "reaches p tk (length v) (goto HEADER_CR ?p)"
    using assms(1,3) c r by (intro reaches_step) (auto simp: http_step_def on_header_value_def peek_rest)
  have 2: "reaches (goto HEADER_CR ?p) ?t 1 (goto HEADER_LF (goto HEADER_CR ?p))"
    by (rule run_expect[OF r]) (simp_all add: http_step_def)
  have r1: "rest (adv 1 ?t) = CHR 0x0A # rs" unfolding rest_adv[of 1 ?t] r by simp
  let ?f = "\<lambda>p. (goto HEADER_KEY p)\<lparr>hp_new_header := True\<rparr>"
  have 3: "reaches (goto HEADER_LF (goto HEADER_CR ?p)) (adv 1 ?t) 1 (?f (goto HEADER_LF (goto HEADER_CR ?p)))"
    by (rule run_expect[OF r1]) (simp_all add: http_step_def)
  have "reaches p tk (length v + (1 + 1)) (?f (goto HEADER_LF (goto HEADER_CR ?p)))"
    by (rule reaches_trans[OF 1 reaches_trans[OF 2 3]])
  then show ?thesis by (intro exI[of _ "?f (goto HEADER_LF (goto HEADER_CR ?p))"]) simp
qed

lemma stg_header_fresh:
  "hp_new_header p \<Longrightarrow> hp_stg (stg_header g (goto s (stg_header f p))) =
   (hp_stg p)\<lparr>headers := headers (hp_stg p) @ [g (f \<lparr>hf_name = [], hf_value = []\<rparr>)]\<rparr>"
  by (simp add: stg_header_def map_last_def goto_def Let_def)

lemma run_header:
  assumes "hp_state p = HEADER_KEY" "hp_new_header p" "wf_header f" "rest tk = render_header f @ rs"
  shows "\<exists>p'. reaches p tk (length (render_header f)) p' \<and> hp_state p' = HEADER_KEY \<and> hp_new_header p' \<and>
    hp_stg p' = (hp_stg p)\<lparr>headers := headers (hp_stg p) @ [f]\<rparr>"
proof -
  let ?v = "hf_value f @ CHR 0x0D # CHR 0x0A # rs"
  let ?p = "goto HEADER_VALUE (stg_header (\<lambda>h. h\<lparr>hf_name := hf_name h @ hf_name f\<rparr>) p)"
  have r: "rest tk = hf_name f @ '': '' @ ?v" using assms(4) by (simp add: render_header_def)
  have hd: "hd ?v \<noteq> CHR '' ''" using assms(3) by (cases "hf_value f") (auto simp: wf_header_def)
  have 1: "reaches p tk (length (hf_name f) + 2) ?p"
    by (rule run_header_key[OF assms(1) _ _ r _ hd]) (use assms(3) in \<open>auto simp: wf_header_def\<close>)
  have r1: "rest (adv (length (hf_name f) + 2) tk) = ?v" unfolding rest_adv r by simp
  have "clean [CHR 0x0D, CHR 0x0A] (hf_value f)" using assms(3) by (simp add: wf_header_def)
  from run_header_value[OF _ this r1, of ?p] obtain p' where
    p': "reaches ?p (adv (length (hf_name f) + 2) tk) (length (hf_value f) + 2) p'"
      "hp_state p' = HEADER_KEY" "hp_new_header p'"
      "hp_stg p' = hp_stg (stg_header (\<lambda>h. h\<lparr>hf_value := hf_value h @ hf_value f\<rparr>) ?p)" by auto
  have "length (render_header f) = length (hf_name f) + 2 + (length (hf_value f) + 2)"
    by (simp add: render_header_def)
  with reaches_trans[OF 1 p'(1)] p'(2-) show ?thesis
    by (intro exI[of _ p']) (simp add: stg_header_fresh[OF assms(2)])
qed

lemma run_headers:
  assumes "hp_state p = HEADER_KEY" "hp_new_header p" "\<forall>f \<in> set fs. wf_header f"
    "rest tk = concat (map render_header fs) @ rs"
  shows "\<exists>p'. reaches p tk (length (concat (map render_header fs))) p' \<and> hp_state p' = HEADER_KEY \<and>
    hp_stg p' = (hp_stg p)\<lparr>headers := headers (hp_stg p) @ fs\<rparr>"
  using assms
proof (induction fs arbitrary: p tk)
  case Nil
  then show ?case by (intro exI[of _ p]) (simp add: reaches_def adv_0)
next
  case (Cons f fs)
  have r: "rest tk = render_header f @ (concat (map render_header fs) @ rs)" using Cons.prems(4) by simp
  from run_header[OF Cons.prems(1,2) _ r] Cons.prems(3) obtain p1 where
    1: "reaches p tk (length (render_header f)) p1" "hp_state p1 = HEADER_KEY" "hp_new_header p1"
      "hp_stg p1 = (hp_stg p)\<lparr>headers := headers (hp_stg p) @ [f]\<rparr>" by auto
  have "rest (adv (length (render_header f)) tk) = concat (map render_header fs) @ rs"
    unfolding rest_adv r by simp
  from Cons.IH[OF 1(2,3) _ this] Cons.prems(3) obtain p2 where
    2: "reaches p1 (adv (length (render_header f)) tk) (length (concat (map render_header fs))) p2"
      "hp_state p2 = HEADER_KEY" "hp_stg p2 = (hp_stg p1)\<lparr>headers := headers (hp_stg p1) @ fs\<rparr>" by auto
  from reaches_trans[OF 1(1) 2(1)] 2(2,3) 1(4) show ?case by (intro exI[of _ p2]) simp
qed

lemma run_end:
  assumes "hp_state p = HEADER_KEY" "rest tk = CHR 0x0D # CHR 0x0A # rs"
  shows "reaches p tk 2 (goto PARSER_COMPLETE p)"
proof -
  have c: "consume_until (InSet [CHR '':'', CHR 0x0D, CHR 0x0A]) () tk [] = Some (True, (), tk, [])"
    using consume_until_stop[of tk "InSet [CHR '':'', CHR 0x0D, CHR 0x0A]" "()" "[]"] assms(2) by simp
  have 1: "reaches p tk 0 (goto END_CR p)"
    using assms c by (intro reaches_step) (auto simp: http_step_def on_header_key_def peek_rest adv_0)
  have 2: "reaches (goto END_CR p) (adv 0 tk) 1 (goto END_LF (goto END_CR p))"
    by (rule run_expect) (use assms(2) in \<open>simp_all add: http_step_def adv_0\<close>)
  have 3: "reaches (goto END_LF (goto END_CR p)) (adv 1 tk) 1 (goto PARSER_COMPLETE (goto END_LF (goto END_CR p)))"
    by (rule run_expect[of _ "CHR 0x0A" rs]) (use assms(2) in \<open>simp_all add: http_step_def rest_adv\<close>)
  have "reaches p tk (0 + (1 + 1)) (goto PARSER_COMPLETE (goto END_LF (goto END_CR p)))"
    using reaches_trans[OF 1 reaches_trans[OF 2, of 1]] 3 by (simp add: adv_0)
  then show ?thesis by (simp add: goto_def numeral_2_eq_2)
qed
section \<open>Whole requests\<close>

text \<open>The text of a request, and the requests the text determines.\<close>

definition render_query :: "query_param list \<Rightarrow> string" where
  "render_query ps = (if ps = [] then [] else CHR ''?'' # enc_params ps)"

definition render :: "http_request \<Rightarrow> string" where
  "render r = request_type r @ '' '' @ encode uri_safe (uri r) @ render_query (query_params r) @ '' '' @
     http_version r @ [CHR 0x0D, CHR 0x0A] @ concat (map render_header (headers r)) @ [CHR 0x0D, CHR 0x0A]"

definition wf_request :: "http_request \<Rightarrow> bool" where
  "wf_request r \<longleftrightarrow> clean [CHR '' '', CHR 0x0D, CHR 0x0A] (request_type r) \<and>
     (\<forall>q \<in> set (query_params r). qp_name q \<noteq> []) \<and> clean [CHR 0x0D, CHR 0x0A] (http_version r) \<and>
     (\<forall>f \<in> set (headers r). wf_header f)"

lemma run_uri_query:
  assumes "hp_state p = URI" "hx_state (hp_hex p) = HS0" "hp_query p = query_new" "query_params (hp_stg p) = []"
    "\<forall>q \<in> set ps. qp_name q \<noteq> []" "rest tk = (encode uri_safe u @ render_query ps @ '' '') @ rs"
  shows "\<exists>p'. reaches p tk (length (encode uri_safe u @ render_query ps @ '' '')) p' \<and>
    hp_state p' = HTTP_VERSION \<and> hp_new_header p' = hp_new_header p \<and>
    hp_stg p' = (hp_stg p)\<lparr>uri := uri (hp_stg p) @ u, query_params := ps\<rparr>"
proof (cases "ps = []")
  case True
  then have "rest tk = encode uri_safe u @ CHR '' '' # rs" using assms(6) by (simp add: render_query_def)
  from run_uri[OF assms(1,2) this] obtain h where
    h: "reaches p tk (length (encode uri_safe u) + 1)
      (goto HTTP_VERSION (p\<lparr>hp_hex := h, hp_stg := (hp_stg p)\<lparr>uri := uri (hp_stg p) @ u\<rparr>\<rparr>))" by auto
  show ?thesis
    by (rule exI, intro conjI, use h True in \<open>simp add: render_query_def\<close>)
       (use True assms(4) in simp_all)
next
  case False
  then have r: "rest tk = encode uri_safe u @ CHR ''?'' # enc_params ps @ CHR '' '' # rs"
    using assms(6) by (simp add: render_query_def)
  from run_uri[OF assms(1,2) r] obtain h where
    h: "reaches p tk (length (encode uri_safe u))
      (goto QUERY_PARAM (p\<lparr>hp_hex := h, hp_stg := (hp_stg p)\<lparr>uri := uri (hp_stg p) @ u\<rparr>\<rparr>))" by auto
  let ?p = "goto QUERY_PARAM (p\<lparr>hp_hex := h, hp_stg := (hp_stg p)\<lparr>uri := uri (hp_stg p) @ u\<rparr>\<rparr>)"
  have r1: "rest (adv (length (encode uri_safe u)) tk) = CHR ''?'' # enc_params ps @ CHR '' '' # rs"
    unfolding rest_adv r by simp
  obtain q where q: "reaches ?p (adv (length (encode uri_safe u)) tk) (length (enc_params ps) + 2)
    (goto HTTP_VERSION (?p\<lparr>hp_query := q, hp_stg := (hp_stg ?p)\<lparr>query_params := query_params (hp_stg ?p) @ ps\<rparr>\<rparr>))"
    by (rule run_query[OF _ _ False assms(5) r1, of ?p]) (use assms(3) in \<open>auto simp: goto_def\<close>)
  have len: "length (encode uri_safe u @ render_query ps @ '' '') =
      length (encode uri_safe u) + (length (enc_params ps) + 2)"
    using False by (simp add: render_query_def)
  show ?thesis unfolding len
    by (rule exI, intro conjI, rule reaches_trans[OF h q])
       (use assms(4) in \<open>simp_all add: goto_def\<close>)
qed

lemma run_request:
  assumes "wf_request r"
  shows "\<exists>p. reaches http_new (tk_new (render r @ body)) (length (render r)) p \<and>
    hp_state p = PARSER_COMPLETE \<and> hp_stg p = r"
proof -
  let ?t0 = "tk_new (render r @ body)"
  let ?m = "request_type r @ '' ''"
  let ?q = "encode uri_safe (uri r) @ render_query (query_params r) @ '' ''"
  let ?v = "http_version r @ [CHR 0x0D, CHR 0x0A]"
  let ?h = "concat (map render_header (headers r))"
  let ?e = "[CHR 0x0D, CHR 0x0A]"
  note wf = assms[unfolded wf_request_def]
  have split: "render r = ?m @ ?q @ ?v @ ?h @ ?e" by (simp add: render_def)
  have r0: "rest ?t0 = ?m @ ?q @ ?v @ ?h @ ?e @ body" by (simp add: rest_new split)
  have "hp_state http_new = REQUEST_TYPE" by (simp add: http_new_def)
  from run_request_type[OF this, of "request_type r" ?t0] wf r0 obtain p1 where
    p1: "reaches http_new ?t0 (length ?m) p1" "hp_state p1 = URI" "hx_state (hp_hex p1) = HS0"
      "hp_query p1 = query_new" "hp_new_header p1"
      "hp_stg p1 = \<lparr>request_type = request_type r, uri = [], query_params = [], http_version = [], headers = []\<rparr>"
    by (auto simp: http_new_def hex_new_def)
  have r1: "rest (adv (length ?m) ?t0) = ?q @ ?v @ ?h @ ?e @ body" unfolding rest_adv r0 by simp
  from run_uri_query[OF p1(2,3,4) _ _ r1] p1(5,6) wf obtain p2 where
    p2: "reaches p1 (adv (length ?m) ?t0) (length ?q) p2" "hp_state p2 = HTTP_VERSION" "hp_new_header p2"
      "hp_stg p2 = \<lparr>request_type = request_type r, uri = uri r, query_params = query_params r,
         http_version = [], headers = []\<rparr>"
    by auto
  note 2 = reaches_trans[OF p1(1) p2(1)]
  have r2': "rest (adv (length ?m + length ?q) ?t0) = ?v @ ?h @ ?e @ body"
    by (rule rest_adv_append[OF r1])
  have r2: "rest (adv (length ?m + length ?q) ?t0) = http_version r @ CHR 0x0D # CHR 0x0A # ?h @ ?e @ body"
    using r2' by simp
  let ?p3 = "goto HEADER_KEY (p2\<lparr>hp_stg := (hp_stg p2)\<lparr>http_version := http_version (hp_stg p2) @ http_version r\<rparr>\<rparr>)"
  have "reaches p2 (adv (length ?m + length ?q) ?t0) (length ?v) ?p3"
    using run_version[OF p2(2) _ r2] wf by simp
  note 3 = reaches_trans[OF 2 this]
  have r3: "rest (adv (length ?m + length ?q + length ?v) ?t0) = ?h @ ?e @ body"
    using rest_adv_append[of _ ?t0 ?v, OF r2'] .
  from run_headers[OF _ _ _ r3, of ?p3] p2(3,4) wf obtain p4 where
    p4: "reaches ?p3 (adv (length ?m + length ?q + length ?v) ?t0) (length ?h) p4"
      "hp_state p4 = HEADER_KEY" "hp_stg p4 = r" by (auto simp: goto_def)
  note 4 = reaches_trans[OF 3 p4(1)]
  have r4: "rest (adv (length ?m + length ?q + length ?v + length ?h) ?t0) = CHR 0x0D # CHR 0x0A # body"
    using rest_adv_append[OF r3] by simp
  note 5 = reaches_trans[OF 4 run_end[OF p4(2) r4]]
  have "length (render r) = length ?m + length ?q + length ?v + length ?h + 2" by (simp add: split)
  with 5 p4(3) show ?thesis by (intro exI[of _ "goto PARSER_COMPLETE p4"]) simp
qed

lemma process_request:
  assumes "wf_request r"
  shows "\<exists>p. http_process (render r @ body) http_new =
      Some (if body = [] then 0 else length (render r), p) \<and>
    hp_stg p = r \<and> is_complete p \<and> \<not> has_error p \<and> \<not> hp_fault p"
proof -
  obtain p where p: "reaches http_new (tk_new (render r @ body)) (length (render r)) p"
    "hp_state p = PARSER_COMPLETE" "hp_stg p = r" using run_request[OF assms] by blast
  let ?t = "adv (length (render r)) (tk_new (render r @ body))"
  have "rest ?t = body" "num_parsed ?t = length (render r)"
    by (simp_all add: lex_simps) (simp add: num_parsed_def adv_def tk_new_def)
  then have "http_loop p ?t = Some (if body = [] then 0 else length (render r), p)"
    using p(2) by (subst http_loop.simps) (simp add: lex_simps)
  with p(1) have run: "http_process (render r @ body) http_new = Some (if body = [] then 0 else length (render r), p)"
    by (simp add: http_process_def reaches_def)
  have "\<not> hp_fault p" using http_process_ok[OF run parser_ok_simps(1)] by (simp add: parser_ok_def)
  with run p(2,3) show ?thesis by (intro exI[of _ p]) (simp add: is_complete_def has_error_def)
qed

text \<open>C2: A rendered request (method, percent-encoded target and query string, version, headers)
  followed by any body is parsed back exactly: the parser is complete without an error, its staging
  request is the one rendered, no header was taken from an empty list, and it reports the characters of the request as parsed, unless the
  buffer ends with the request, where it reports 0.\<close>

theorem http_request_roundtrip:
  assumes "wf_request r"
  shows "\<exists>p. http_process (render r @ body) http_new =
      Some (if body = [] then 0 else length (render r), p) \<and>
    hp_stg p = r \<and> is_complete p \<and> \<not> has_error p \<and> \<not> hp_fault p"
  by (rule process_request[OF assms])

theorem http_request_roundtrip_witness:
  "\<exists>p. http_process (''GET /a%20b?q=1 HTTP/1.1'' @ [CHR 0x0D, CHR 0x0A] @ ''Host: x'' @
      [CHR 0x0D, CHR 0x0A, CHR 0x0D, CHR 0x0A] @ ''body'') http_new = Some (36, p) \<and>
    hp_stg p = \<lparr>request_type = ''GET'', uri = ''/a b'', query_params = [\<lparr>qp_name = ''q'', qp_value = ''1''\<rparr>],
      http_version = ''HTTP/1.1'', headers = [\<lparr>hf_name = ''Host'', hf_value = ''x''\<rparr>]\<rparr> \<and>
    is_complete p \<and> \<not> has_error p \<and> \<not> hp_fault p"
proof -
  let ?r = "\<lparr>request_type = ''GET'', uri = ''/a b'', query_params = [\<lparr>qp_name = ''q'', qp_value = ''1''\<rparr>],
      http_version = ''HTTP/1.1'', headers = [\<lparr>hf_name = ''Host'', hf_value = ''x''\<rparr>]\<rparr>"
  have "wf_request ?r" by code_simp
  moreover have "render ?r = ''GET /a%20b?q=1 HTTP/1.1'' @ [CHR 0x0D, CHR 0x0A] @ ''Host: x'' @
      [CHR 0x0D, CHR 0x0A, CHR 0x0D, CHR 0x0A]" by code_simp
  ultimately show ?thesis using http_request_roundtrip[of ?r "''body''"] by (simp add: eval_nat_numeral)
qed


end
