(* ===== verification/HttpTermination.thy ===== *)
theory HttpTermination
  imports HttpRequest
begin

text \<open>
  When \<open>process\<close> of \<^verbatim>\<open>http.h\<close> returns. Each of its loops either moves forward in the buffer or
  moves down in an order on its states; the one exception is the byte \<open>0xFF\<close> in the target of the
  request, on which the parser never returns. The last property is about the end of a buffer.
\<close>

section \<open>The loops over tokens\<close>

definition pending :: "hex_transformer \<Rightarrow> nat" where
  "pending h = (if hx_state h = HS3 then 1 else 0)"

definition moves :: "hex_transformer \<Rightarrow> tokenizer \<Rightarrow> hex_transformer \<Rightarrow> tokenizer \<Rightarrow> bool" where
  "moves h tk h' tk' \<longleftrightarrow> (\<exists>n. tk' = adv n tk \<and> n \<le> length (rest tk) \<and> (0 < n \<or> pending h' < pending h))"

lemma moves_adv: "rest tk \<noteq> [] \<Longrightarrow> moves h tk h' (adv 1 tk)"
  by (cases "rest tk") (auto simp: moves_def)

lemma moves_more:
  assumes "\<exists>n. tk' = adv n (adv 1 tk) \<and> n \<le> length (rest (adv 1 tk))" "rest tk \<noteq> []"
  shows "moves h tk h' tk'"
proof -
  obtain n where "tk' = adv n (adv 1 tk)" "n \<le> length (rest (adv 1 tk))" using assms(1) by blast
  with assms(2) show ?thesis
    unfolding moves_def by (intro exI[of _ "1 + n"]) (cases "rest tk", auto simp: lex_simps)
qed

lemma hex_run_within:
  "\<exists>n. fst (snd (snd (hex_run h tk dst))) = adv n tk \<and> n \<le> length (rest tk)"
proof (induction "length (rest tk) + 4" arbitrary: h tk rule: less_induct)
  case less
  have step: "\<exists>n. fst (snd (snd (hex_run h' (adv 1 tk) dst))) = adv n tk \<and> n \<le> length (rest tk)"
    if "rest tk \<noteq> []" for h'
  proof -
    have "length (rest (adv 1 tk)) + 4 < length (rest tk) + 4" using that by (simp add: lex_simps)
    from less[OF this, of h'] obtain n where
      "fst (snd (snd (hex_run h' (adv 1 tk) dst))) = adv (1 + n) tk" "n \<le> length (rest (adv 1 tk))"
      by (auto simp: lex_simps)
    with that show ?thesis by (intro exI[of _ "1 + n"]) (cases "rest tk", auto simp: lex_simps)
  qed
  have stop: "\<exists>n. adv m tk = adv n tk \<and> n \<le> length (rest tk)" if "m \<le> length (rest tk)" for m
    using that by blast
  show ?case
  proof (cases "rest tk")
    case Nil
    then show ?thesis using stop[of 0] by (simp add: hex_run.simps[of h tk dst] lex_simps)
  next
    case (Cons c cs)
    then have r: "read_one_or (-1) tk = (schar c, adv 1 tk)" by (rule read_one_or_rest)
    show ?thesis
      using Cons r step stop[of 0] stop[of 1]
      by (cases "hx_state h") (auto simp: hex_run.simps[of h tk dst] tk_empty_rest skip_rest adv_0 Let_def)
  qed
qed

lemma hex_run_moves:
  assumes "rest tk = c # cs"
  shows "moves h tk (fst (snd (hex_run h tk dst))) (fst (snd (snd (hex_run h tk dst))))"
proof -
  have r: "read_one_or (-1) tk = (schar c, adv 1 tk)" by (rule read_one_or_rest[OF assms])
  have ne: "rest tk \<noteq> []" using assms by simp
  show ?thesis
  proof (cases "hx_state h = HS3")
    case True
    then have "moves h tk (h\<lparr>hex1 := a, hex2 := b, hx_state := HS0\<rparr>) tk" for a b
      by (auto simp: moves_def pending_def adv_0 intro: exI[of _ 0])
    then show ?thesis
      using True assms by (simp add: hex_run.simps[of h tk dst] tk_empty_rest Let_def)
  next
    case False
    have "moves h tk h'' (fst (snd (snd (hex_run h' (adv 1 tk) dst))))" for h' h''
      by (rule moves_more[OF hex_run_within ne])
    then show ?thesis
      using False assms r moves_adv[OF ne]
      by (cases "hx_state h") (auto simp: hex_run.simps[of h tk dst] tk_empty_rest skip_rest Let_def)
  qed
qed

text \<open>The tokens of the target and of the query either stop or move.\<close>

definition esc_token :: "hex_transformer token \<Rightarrow> bool" where
  "esc_token t \<longleftrightarrow> t = uri_token \<or> t = query_token"

lemma process_OrTok: "rest tk = c # cs \<Longrightarrow> process (OrTok t1 t2) h tk dst =
    (if c = CHR 0xFF then (False, h, tk, dst)
     else if accepts t1 c then process t1 h tk dst else process t2 h tk dst)"
  by (simp add: peek_rest Let_def)

definition tame :: "hex_transformer token \<Rightarrow> bool" where
  "tame t \<longleftrightarrow> (\<forall>h tk dst. rest tk \<noteq> [] \<longrightarrow> process t h tk dst \<in>
     {hex_run h tk dst, plus_run h tk dst, process_tag h tk dst, (False, h, tk, dst)})"

lemma tame_OrTok: "tame t1 \<Longrightarrow> tame t2 \<Longrightarrow> tame (OrTok t1 t2)"
  unfolding tame_def
proof (intro allI impI)
  fix h tk dst
  assume t: "\<forall>h tk dst. rest tk \<noteq> [] \<longrightarrow> process t1 h tk dst \<in>
      {hex_run h tk dst, plus_run h tk dst, process_tag h tk dst, (False, h, tk, dst)}"
    "\<forall>h tk dst. rest tk \<noteq> [] \<longrightarrow> process t2 h tk dst \<in>
      {hex_run h tk dst, plus_run h tk dst, process_tag h tk dst, (False, h, tk, dst)}"
    and ne: "rest tk \<noteq> []"
  then obtain c cs where r: "rest tk = c # cs" by (cases "rest tk") auto
  from t ne have "process t1 h tk dst \<in> {hex_run h tk dst, plus_run h tk dst, process_tag h tk dst, (False, h, tk, dst)}"
    "process t2 h tk dst \<in> {hex_run h tk dst, plus_run h tk dst, process_tag h tk dst, (False, h, tk, dst)}"
    by blast+
  then show "process (OrTok t1 t2) h tk dst \<in>
      {hex_run h tk dst, plus_run h tk dst, process_tag h tk dst, (False, h, tk, dst)}"
    unfolding process_OrTok[OF r] by (cases "c = CHR 0xFF"; cases "accepts t1 c") simp_all
qed

lemma tame_others:
  "tame (InRange a b)" "tame (IsChar a)" "tame (InSet s)" "tame (IsNot (InSet s))"
  "tame (Transform (IsChar a) hex_run)" "tame (Transform (IsChar a) plus_run)"
  unfolding tame_def by simp_all

lemma esc_token_cases:
  assumes "esc_token t" "rest tk = c # cs"
  shows "process t h tk dst \<in>
    {hex_run h tk dst, plus_run h tk dst, process_tag h tk dst, (False, h, tk, dst)}"
proof -
  have "tame uri_token" "tame query_token"
    unfolding uri_token_def query_token_def query_plain_def by (intro tame_OrTok tame_others)+
  then have "tame t" using assms(1) by (auto simp: esc_token_def)
  moreover have "rest tk \<noteq> []" using assms(2) by simp
  ultimately show ?thesis unfolding tame_def by blast
qed

lemma process_tag_cases: "rest tk = c # cs \<Longrightarrow>
    process_tag h tk dst \<in> {(False, h, adv 1 tk, dst), (True, h, adv 1 tk, dst @ [c])}"
  by (simp add: process_tag_rest)

lemma esc_token_moves:
  assumes "esc_token t" "rest tk = c # cs" "fst (process t h tk dst)"
  shows "moves h tk (fst (snd (process t h tk dst))) (fst (snd (snd (process t h tk dst))))"
proof -
  have ne: "rest tk \<noteq> []" using assms(2) by simp
  show ?thesis
    using esc_token_cases[OF assms(1,2), of h dst] process_tag_cases[OF assms(2), of h dst] assms(3)
      hex_run_moves[OF assms(2), of h dst] moves_adv[OF ne] ne
    by (auto simp: plus_run_def skip_rest)
qed

lemma moves_measure:
  assumes "moves h tk h' tk'"
  shows "2 * length (rest tk') + pending h' < 2 * length (rest tk) + pending h"
proof -
  obtain n where n: "tk' = adv n tk" "n \<le> length (rest tk)" "0 < n \<or> pending h' < pending h"
    using assms by (auto simp: moves_def)
  have "pending h' \<le> 1" by (simp add: pending_def)
  with n show ?thesis by (auto simp: rest_adv)
qed

lemma esc_process_within:
  assumes "esc_token t" "rest tk = c # cs"
  shows "\<exists>n. fst (snd (snd (process t h tk dst))) = adv n tk \<and> n \<le> length (rest tk)"
proof -
  have n: "0 \<le> length (rest tk)" "1 \<le> length (rest tk)" using assms(2) by simp_all
  have "process t h tk dst = hex_run h tk dst \<or> fst (snd (snd (process t h tk dst))) = adv 1 tk \<or>
      fst (snd (snd (process t h tk dst))) = adv 0 tk"
    using esc_token_cases[OF assms, of h dst] process_tag_cases[OF assms(2), of h dst] assms(2)
    by (auto simp: plus_run_def skip_rest adv_0)
  then show ?thesis using hex_run_within[of h tk dst] n by metis
qed

lemma consume_while_returns:
  assumes "esc_token t"
  shows "\<exists>b h' n dst'. consume_while t h tk dst = Some (b, h', adv n tk, dst') \<and> n \<le> length (rest tk)"
proof (induction "2 * length (rest tk) + pending h" arbitrary: h tk dst rule: less_induct)
  case less
  have stay: "\<exists>b h' n dst'. Some (b0, h0, adv m tk, d0) = Some (b, h', adv n tk, dst') \<and> n \<le> length (rest tk)"
    if "m \<le> length (rest tk)" for b0 :: bool and h0 :: hex_transformer and m d0 using that by blast
  show ?case
  proof (cases "rest tk = [] \<or> \<not> accepts t (hd (rest tk))")
    case True
    from consume_while_stop[OF this, of h dst] stay[of 0 True h dst] show ?thesis by (simp add: adv_0)
  next
    case False
    then obtain c cs where r: "rest tk = c # cs" "accepts t c" by (cases "rest tk") auto
    obtain b h1 tk1 d1 where p: "process t h tk dst = (b, h1, tk1, d1)" by (cases "process t h tk dst")
    obtain m where m: "tk1 = adv m tk" "m \<le> length (rest tk)"
      using esc_process_within[OF assms r(1), of h dst] p by auto
    show ?thesis
    proof (cases b)
      case False
      with consume_while_fail[OF r, of h dst h1 tk1 d1] p m stay[of m False h1 d1] show ?thesis by simp
    next
      case True
      with p have p': "process t h tk dst = (True, h1, tk1, d1)" by simp
      have "moves h tk h1 tk1" using esc_token_moves[OF assms r(1), of h dst] p' by simp
      from less[OF moves_measure[OF this], of d1] obtain b' h' n dst' where
        ih: "consume_while t h1 tk1 d1 = Some (b', h', adv n tk1, dst')" "n \<le> length (rest tk1)" by blast
      have "m + n \<le> length (rest tk)" using ih(2) m by (simp add: rest_adv)
      with consume_while_more[OF r p'] ih(1) stay[of "m + n" b' h' dst'] m show ?thesis
        by (simp add: adv_adv)
    qed
  qed
qed

section \<open>The query string\<close>

lemma esc_tokens: "esc_token uri_token" "esc_token query_token" by (simp_all add: esc_token_def)

lemma consume_tokens_returns:
  "\<exists>h' n dst'. consume_tokens h tk dst = Some (h', adv n tk, dst') \<and> n \<le> length (rest tk)"
  using consume_while_returns[OF esc_tokens(2), of h tk dst] by (auto simp: consume_tokens_def)

text \<open>One state of the query: it moves or stops there.\<close>

definition query_step_ok :: "tokenizer \<Rightarrow> query_run option \<Rightarrow> bool" where
  "query_step_ok tk r \<longleftrightarrow> (\<exists>q' n ps'. r = Some (q', adv n tk, ps') \<and> n \<le> length (rest tk) \<and>
     (0 < n \<or> q_state q' = QS3))"

lemma query_step_skip:
  assumes "n \<le> length (rest tk)"
  shows "rest (adv n tk) \<noteq> [] \<Longrightarrow> query_step_ok tk (Some (q, snd (skip (adv n tk)), ps))"
    "q_state q = QS3 \<Longrightarrow> query_step_ok tk (Some (q, adv n tk, ps))"
  using assms by (auto simp: query_step_ok_def skip_rest adv_adv rest_adv)

lemma peek_not_empty: "peek (-1) tk = schar c \<Longrightarrow> c \<noteq> CHR 0xFF \<Longrightarrow> rest tk \<noteq> []"
  using schar_minus1[of c] by (auto simp: peek_rest simp del: schar_minus1)

lemma parse_state_1_ok: "query_step_ok tk (parse_state_1 q tk ps)"
proof -
  obtain h n d where c: "consume_tokens (q_hex q) tk (q_name q) = Some (h, adv n tk, d)" "n \<le> length (rest tk)"
    using consume_tokens_returns by blast
  show ?thesis
    using query_step_skip[OF c(2)] peek_not_empty[of "adv n tk"]
    by (auto simp: parse_state_1_def c(1) Let_def query_reset_def)
qed

lemma parse_state_2_ok: "query_step_ok tk (parse_state_2 q tk ps)"
proof -
  obtain h n d where c: "consume_tokens (q_hex q) tk (q_value q) = Some (h, adv n tk, d)" "n \<le> length (rest tk)"
    using consume_tokens_returns by blast
  show ?thesis
    using query_step_skip[OF c(2)] peek_not_empty[of "adv n tk"]
    by (auto simp: parse_state_2_def c(1) Let_def query_reset_def)
qed

definition query_open :: "query_string_parser \<Rightarrow> nat" where
  "query_open q = (case q_state q of QS0 \<Rightarrow> 1 | QS1 \<Rightarrow> 1 | QS2 \<Rightarrow> 1 | _ \<Rightarrow> 0)"

lemma query_parse_returns:
  "\<exists>q' n ps'. query_parse q tk ps = Some (q', adv n tk, ps') \<and> n \<le> length (rest tk) \<and>
     (n = length (rest tk) \<or> q_state q' \<in> {QS3, QS4})"
proof (induction "2 * length (rest tk) + query_open q" arbitrary: q tk ps rule: less_induct)
  case less
  have go: "\<exists>q'' m ps''. query_parse q' (adv n tk) ps' = Some (q'', adv m tk, ps'') \<and> m \<le> length (rest tk) \<and>
     (m = length (rest tk) \<or> q_state q'' \<in> {QS3, QS4})"
    if "n \<le> length (rest tk)" "0 < n \<or> query_open q' < query_open q" for q' n ps'
  proof -
    have "query_open q' \<le> 1" by (simp add: query_open_def split: query_state.split)
    then have "2 * length (rest (adv n tk)) + query_open q' < 2 * length (rest tk) + query_open q"
      using that by (auto simp: rest_adv)
    from less[OF this, of ps'] obtain q'' m ps'' where
      "query_parse q' (adv n tk) ps' = Some (q'', adv m (adv n tk), ps'')" "m \<le> length (rest (adv n tk))"
      "m = length (rest (adv n tk)) \<or> q_state q'' \<in> {QS3, QS4}" by blast
    with that(1) show ?thesis
      by (intro exI[of _ q''] exI[of _ "n + m"] exI[of _ ps'']) (auto simp: adv_adv rest_adv)
  qed
  have state: "\<exists>q'' m ps''. query_parse q tk ps = Some (q'', adv m tk, ps'') \<and> m \<le> length (rest tk) \<and>
     (m = length (rest tk) \<or> q_state q'' \<in> {QS3, QS4})"
    if "rest tk \<noteq> []" "q_state q \<in> {QS1, QS2}" "query_step_ok tk r"
      "r = (if q_state q = QS1 then parse_state_1 q tk ps else parse_state_2 q tk ps)" for r
  proof -
    from that(3) obtain q' n ps' where r: "r = Some (q', adv n tk, ps')" "n \<le> length (rest tk)"
      "0 < n \<or> q_state q' = QS3" by (auto simp: query_step_ok_def)
    have "query_parse q tk ps = query_parse q' (adv n tk) ps'"
      using that(1,2,4) r(1) by (auto simp: query_parse.simps[of q tk ps] tk_empty_rest dest: sym)
    moreover have "0 < n \<or> query_open q' < query_open q"
      using r(3) that(2) by (auto simp: query_open_def)
    ultimately show ?thesis using go[OF r(2)] by simp
  qed
  have stop: "q_state q \<in> {QS3, QS4} \<or> rest tk = [] \<Longrightarrow> query_parse q tk ps = Some (q, adv 0 tk, ps)"
    by (auto simp: query_parse.simps[of q tk ps] tk_empty_rest adv_0)
  show ?case
  proof (cases "rest tk")
    case Nil
    then show ?thesis using stop by (intro exI[of _ q] exI[of _ 0] exI[of _ ps]) simp
  next
    case (Cons c cs)
    consider "q_state q = QS0" | "q_state q \<in> {QS1, QS2}" | "q_state q \<in> {QS3, QS4}"
      by (cases "q_state q") auto
    then show ?thesis
    proof cases
      case 1
      have "query_parse q tk ps = query_parse (fst (parse_state_0 q tk)) (snd (parse_state_0 q tk)) ps"
        using 1 Cons by (simp add: query_parse.simps[of q tk ps] tk_empty_rest)
      moreover have "\<exists>n. snd (parse_state_0 q tk) = adv n tk \<and> n \<le> length (rest tk) \<and>
          (0 < n \<or> query_open (fst (parse_state_0 q tk)) < query_open q)"
        using 1 Cons
        by (cases "c = CHR ''?''")
           (auto simp: parse_state_0_def try_expect_rest query_open_def adv_0 intro: exI[of _ 1] exI[of _ 0])
      ultimately show ?thesis using go by metis
    next
      case 2
      then show ?thesis using state[of "if q_state q = QS1 then parse_state_1 q tk ps else parse_state_2 q tk ps"]
          parse_state_1_ok parse_state_2_ok Cons by auto
    next
      case 3
      then show ?thesis using stop by (intro exI[of _ q] exI[of _ 0] exI[of _ ps]) simp
    qed
  qed
qed


section \<open>The request\<close>

fun state_rank :: "http_state \<Rightarrow> nat" where
  "state_rank URI = 2"
| "state_rank HTTP_VERSION = 2"
| "state_rank HEADER_KEY = 2"
| "state_rank HEADER_VALUE = 2"
| "state_rank PARSER_COMPLETE = 0"
| "state_rank PARSER_ERROR = 0"
| "state_rank _ = 1"

definition http_moves :: "http_parser \<Rightarrow> tokenizer \<Rightarrow> http_run \<Rightarrow> bool" where
  "http_moves p tk r \<longleftrightarrow> (\<exists>n. snd r = adv n tk \<and> n \<le> length (rest tk) \<and>
     (0 < n \<or> state_rank (hp_state (fst r)) < state_rank (hp_state p)))"

lemma http_moves_adv:
  "n \<le> length (rest tk) \<Longrightarrow> 0 < n \<or> state_rank (hp_state p') < state_rank (hp_state p) \<Longrightarrow>
   http_moves p tk (p', adv n tk)"
  by (auto simp: http_moves_def)

lemma http_moves_skip:
  "n \<le> length (rest tk) \<Longrightarrow> rest tk \<noteq> [] \<Longrightarrow> http_moves p tk (p', snd (skip (adv n tk)))"
  by (cases "n = length (rest tk)") (auto simp: http_moves_def skip_rest adv_adv rest_adv)

lemma http_moves_stop:
  "n \<le> length (rest tk) \<Longrightarrow> rest tk \<noteq> [] \<Longrightarrow> rest (adv n tk) = [] \<Longrightarrow> http_moves p tk (p', adv n tk)"
  by (auto simp: http_moves_def rest_adv)

lemma peek_end: "peek (-1) tk = -1 \<Longrightarrow> CHR 0xFF \<notin> set (rest tk) \<Longrightarrow> rest tk = []"
  by (cases "rest tk") (auto simp: peek_rest)

lemma rest_adv_set: "c \<notin> set (rest tk) \<Longrightarrow> c \<notin> set (rest (adv n tk))"
  by (auto simp: rest_adv dest: in_set_dropD)

lemma on_expect_moves:
  assumes "rest tk \<noteq> []" "0 < state_rank (hp_state p)"
  shows "http_moves p tk (on_expect ch f p tk)"
proof (cases "rest tk")
  case (Cons c cs)
  have n: "1 \<le> length (rest tk)" "0 \<le> length (rest tk)" using Cons by simp_all
  show ?thesis
    using Cons http_moves_adv[OF n(1), of "f p" p] http_moves_adv[OF n(2), of "goto PARSER_ERROR p" p] assms(2)
    by (cases "c = ch") (simp_all add: on_expect_def try_expect_rest adv_0)
qed (use assms in simp)

text \<open>The four states that read up to a set of stop characters.\<close>

lemma until_moves:
  assumes "rest tk \<noteq> []" "CHR 0xFF \<notin> set (rest tk)"
  shows "\<exists>b n buf. consume_until (InSet S) () tk [] = Some (b, (), adv n tk, buf) \<and> n \<le> length (rest tk) \<and>
    (rest (adv n tk) = [] \<or> (\<exists>c \<in> set S. peek (-1) (adv n tk) = schar c \<and> rest (adv n tk) \<noteq> []))"
proof -
  let ?w = "takeWhile (\<lambda>c. c \<notin> set S) (rest tk)"
  have "CHR 0xFF \<notin> set ?w" using assms(2) by (auto dest: set_takeWhileD)
  from consume_until_run[of tk ?w "dropWhile (\<lambda>c. c \<notin> set S) (rest tk)" S "()" "[]"] this
  have c: "consume_until (InSet S) () tk [] = Some (True, (), adv (length ?w) tk, ?w)"
    using hd_dropWhile[of "\<lambda>c. c \<notin> set S" "rest tk"] by (auto dest: set_takeWhileD)
  have r: "rest (adv (length ?w) tk) = dropWhile (\<lambda>c. c \<notin> set S) (rest tk)"
    by (simp add: rest_adv dropWhile_eq_drop)
  have "rest (adv (length ?w) tk) = [] \<or>
      (\<exists>c \<in> set S. peek (-1) (adv (length ?w) tk) = schar c \<and> rest (adv (length ?w) tk) \<noteq> [])"
    using hd_dropWhile[of "\<lambda>c. c \<notin> set S" "rest tk"] unfolding peek_rest r
    by (cases "dropWhile (\<lambda>c. c \<notin> set S) (rest tk)") auto
  with c show ?thesis by (metis length_takeWhile_le)
qed


lemma on_request_type_moves:
  assumes "rest tk \<noteq> []" "CHR 0xFF \<notin> set (rest tk)" "0 < state_rank (hp_state p)"
  shows "\<exists>r. on_request_type p tk = Some r \<and> http_moves p tk r"
proof -
  obtain b n buf where c: "consume_until (InSet [CHR '' '', CHR 0x0D, CHR 0x0A]) () tk [] = Some (b, (), adv n tk, buf)"
    "n \<le> length (rest tk)" using until_moves[OF assms(1,2)] by blast
  have e: "peek (-1) (adv n tk) = -1 \<Longrightarrow> rest (adv n tk) = []"
    using peek_end[of "adv n tk"] rest_adv_set[OF assms(2)] by blast
  show ?thesis
    using http_moves_adv[OF c(2), of _ p] http_moves_skip[OF c(2) assms(1)] http_moves_stop[OF c(2) assms(1)] e assms(3)
    by (auto simp: on_request_type_def c(1) Let_def)
qed

lemma on_uri_moves:
  assumes "rest tk \<noteq> []" "CHR 0xFF \<notin> set (rest tk)" "hp_state p = URI"
  shows "\<exists>r. on_uri p tk = Some r \<and> http_moves p tk r"
proof -
  obtain b h n buf where c: "consume_while uri_token (hp_hex p) tk [] = Some (b, h, adv n tk, buf)"
    "n \<le> length (rest tk)" using consume_while_returns[OF esc_tokens(1)] by blast
  have e: "peek (-1) (adv n tk) = -1 \<Longrightarrow> rest (adv n tk) = []"
    using peek_end[of "adv n tk"] rest_adv_set[OF assms(2)] by blast
  show ?thesis
    using http_moves_adv[OF c(2), of _ p] http_moves_skip[OF c(2) assms(1)] http_moves_stop[OF c(2) assms(1)] e assms(3)
    by (auto simp: on_uri_def c(1) Let_def)
qed

lemma on_query_param_moves:
  assumes "rest tk \<noteq> []" "hp_state p = QUERY_PARAM"
  shows "\<exists>r. on_query_param p tk = Some r \<and> http_moves p tk r"
proof -
  obtain q n ps where c: "query_parse (hp_query p) tk (query_params (hp_stg p)) = Some (q, adv n tk, ps)"
    "n \<le> length (rest tk)" using query_parse_returns by blast
  show ?thesis
    using http_moves_adv[OF c(2), of _ p] http_moves_skip[OF c(2) assms(1)] assms(2)
    by (auto simp: on_query_param_def c(1) Let_def)
qed

lemma on_http_version_moves:
  assumes "rest tk \<noteq> []" "CHR 0xFF \<notin> set (rest tk)" "hp_state p = HTTP_VERSION"
  shows "\<exists>r. on_http_version p tk = Some r \<and> http_moves p tk r"
proof -
  obtain b n buf where c: "consume_until (InSet [CHR 0x0D, CHR 0x0A]) () tk [] = Some (b, (), adv n tk, buf)"
    "n \<le> length (rest tk)"
    "rest (adv n tk) = [] \<or> (\<exists>c \<in> set [CHR 0x0D, CHR 0x0A]. peek (-1) (adv n tk) = schar c \<and> rest (adv n tk) \<noteq> [])"
    using until_moves[OF assms(1,2), of "[CHR 0x0D, CHR 0x0A]"] by blast
  show ?thesis
    using http_moves_adv[OF c(2), of _ p] http_moves_skip[OF c(2) assms(1)] http_moves_stop[OF c(2) assms(1)] c(3) assms(3)
    by (auto simp: on_http_version_def c(1) Let_def)
qed

lemma http_moves_skip_while:
  assumes "n \<le> length (rest tk)" "rest (adv n tk) \<noteq> []"
  shows "http_moves p tk (p', skip_while t (snd (skip (adv n tk))))"
proof -
  have n: "n + 1 \<le> length (rest tk)" using assms by (simp add: rest_adv)
  let ?w = "takeWhile (accepts t) (rest (adv (n + 1) tk))"
  have "skip_while t (snd (skip (adv n tk))) = adv (n + 1 + length ?w) tk"
    using skip_while_run[of t "adv (n + 1) tk"] assms(2) by (simp add: skip_rest adv_adv)
  moreover have "length ?w \<le> length (rest tk) - (n + 1)"
    using length_takeWhile_le[of "accepts t" "rest (adv (n + 1) tk)"] by (simp add: rest_adv)
  then have "n + 1 + length ?w \<le> length (rest tk)" using n by linarith
  ultimately show ?thesis by (simp add: http_moves_adv del: add_Suc_right)
qed

lemma on_header_key_moves:
  assumes "rest tk \<noteq> []" "CHR 0xFF \<notin> set (rest tk)" "hp_state p = HEADER_KEY"
  shows "\<exists>r. on_header_key p tk = Some r \<and> http_moves p tk r"
proof -
  let ?S = "[CHR '':'', CHR 0x0D, CHR 0x0A]"
  obtain b n buf where c: "consume_until (InSet ?S) () tk [] = Some (b, (), adv n tk, buf)" "n \<le> length (rest tk)"
    "rest (adv n tk) = [] \<or> (\<exists>c \<in> set ?S. peek (-1) (adv n tk) = schar c \<and> rest (adv n tk) \<noteq> [])"
    using until_moves[OF assms(1,2), of ?S] by blast
  have ne: "peek (-1) (adv n tk) = schar CHR '':'' \<Longrightarrow> rest (adv n tk) \<noteq> []"
    by (rule peek_not_empty) auto
  show ?thesis
    using http_moves_adv[OF c(2), of _ p] http_moves_skip[OF c(2) assms(1)] http_moves_stop[OF c(2) assms(1)] c(3)
      http_moves_skip_while[OF c(2) ne] assms(3)
    by (auto simp: on_header_key_def c(1) Let_def)
qed

lemma on_header_value_moves:
  assumes "rest tk \<noteq> []" "CHR 0xFF \<notin> set (rest tk)" "hp_state p = HEADER_VALUE"
  shows "\<exists>r. on_header_value p tk = Some r \<and> http_moves p tk r"
proof -
  obtain b n buf where c: "consume_until (InSet [CHR 0x0D, CHR 0x0A]) () tk [] = Some (b, (), adv n tk, buf)"
    "n \<le> length (rest tk)"
    "rest (adv n tk) = [] \<or> (\<exists>c \<in> set [CHR 0x0D, CHR 0x0A]. peek (-1) (adv n tk) = schar c \<and> rest (adv n tk) \<noteq> [])"
    using until_moves[OF assms(1,2), of "[CHR 0x0D, CHR 0x0A]"] by blast
  show ?thesis
    using http_moves_adv[OF c(2), of _ p] http_moves_skip[OF c(2) assms(1)] http_moves_stop[OF c(2) assms(1)] c(3) assms(3)
    by (auto simp: on_header_value_def c(1) Let_def)
qed


lemma http_step_moves:
  assumes "rest tk \<noteq> []" "CHR 0xFF \<notin> set (rest tk)" "hp_state p \<noteq> PARSER_COMPLETE" "hp_state p \<noteq> PARSER_ERROR"
  shows "\<exists>r. http_step p tk = Some r \<and> http_moves p tk r"
  using assms on_request_type_moves[OF assms(1,2)] on_uri_moves[OF assms(1,2)] on_query_param_moves[OF assms(1)]
    on_http_version_moves[OF assms(1,2)] on_header_key_moves[OF assms(1,2)] on_header_value_moves[OF assms(1,2)]
    on_expect_moves[OF assms(1)]
  by (cases "hp_state p") (simp_all add: http_step_def)

lemma http_loop_returns:
  assumes "CHR 0xFF \<notin> set (rest tk)"
  shows "\<exists>k p'. http_loop p tk = Some (k, p') \<and> k \<le> tk_next tk + length (rest tk) \<and>
    (0 < k \<longrightarrow> hp_state p' = PARSER_COMPLETE)"
  using assms
proof (induction "3 * length (rest tk) + state_rank (hp_state p)" arbitrary: p tk rule: less_induct)
  case less
  consider "rest tk = []" | "hp_state p = PARSER_COMPLETE" "rest tk \<noteq> []" | "hp_state p = PARSER_ERROR" "rest tk \<noteq> []"
    | "rest tk \<noteq> []" "hp_state p \<noteq> PARSER_COMPLETE" "hp_state p \<noteq> PARSER_ERROR" by blast
  then show ?case
  proof cases
    case 4
    from http_step_moves[OF 4(1) less.prems 4(2,3)] obtain p1 n where
      s: "http_step p tk = Some (p1, adv n tk)" "n \<le> length (rest tk)"
        "0 < n \<or> state_rank (hp_state p1) < state_rank (hp_state p)" by (force simp: http_moves_def)
    have "state_rank (hp_state p1) \<le> 2" by (cases "hp_state p1") simp_all
    with s have "3 * length (rest (adv n tk)) + state_rank (hp_state p1) <
        3 * length (rest tk) + state_rank (hp_state p)" by (auto simp: rest_adv)
    from less.hyps[OF this rest_adv_set[OF less.prems]] obtain k p' where
      ih: "http_loop p1 (adv n tk) = Some (k, p')" "k \<le> tk_next (adv n tk) + length (rest (adv n tk))"
        "0 < k \<longrightarrow> hp_state p' = PARSER_COMPLETE" by blast
    moreover have "http_loop p tk = http_loop p1 (adv n tk)"
      using 4 s(1) by (simp add: http_loop.simps[of p tk] tk_empty_rest)
    ultimately show ?thesis using s(2) by (auto simp: rest_adv) (simp add: adv_def)
  qed (simp_all add: http_loop.simps[of p tk] tk_empty_rest num_parsed_def)
qed

text \<open>C5: \<open>process\<close> returns from every state of the parser on every buffer without the byte \<open>0xFF\<close>;
  it reports at most the length of the buffer, and a positive number only for a complete request. A parser that was new takes no
  header from an empty list, in however many calls (\<open>parser_ok\<close>).\<close>

theorem http_process_returns:
  assumes "CHR 0xFF \<notin> set data"
  shows "\<exists>k p'. http_process data p = Some (k, p') \<and> k \<le> length data \<and>
    (0 < k \<longrightarrow> is_complete p' \<and> \<not> has_error p') \<and> (parser_ok p \<longrightarrow> parser_ok p')"
proof -
  have "CHR 0xFF \<notin> set (rest (tk_new data))" using assms by (simp add: rest_new)
  from http_loop_returns[OF this, of p] obtain k p' where "http_process data p = Some (k, p')" "k \<le> length data"
    "0 < k \<longrightarrow> hp_state p' = PARSER_COMPLETE" by (auto simp: http_process_def rest_new) (simp add: tk_new_def)
  with http_process_ok[OF this(1)] show ?thesis by (intro exI[of _ k] exI[of _ p']) (simp add: is_complete_def has_error_def)
qed

theorem http_process_returns_witness:
  "\<exists>k p'. http_process ''GET /%zz HTTP'' http_new = Some (k, p') \<and> k \<le> 13"
  using http_process_returns[of "''GET /%zz HTTP''" http_new] by (auto simp: eval_nat_numeral)

section \<open>The byte \<open>0xFF\<close>\<close>

lemma uri_token_ff: "rest tk = CHR 0xFF # rs \<Longrightarrow> consume_while uri_token h tk dst = Some (False, h, tk, dst)"
proof (rule consume_while_fail)
  show "accepts uri_token CHR 0xFF" by code_simp
  assume "rest tk = CHR 0xFF # rs"
  then show "process uri_token h tk dst = (False, h, tk, dst)"
    unfolding uri_token_def by (simp add: process_OrTok del: process.simps(5))
qed

lemma http_step_ff:
  "hp_state p = URI \<Longrightarrow> rest tk = CHR 0xFF # rs \<Longrightarrow> http_step p tk = Some (p, tk)"
  using schar_minus1[of "CHR 0xFF"]
  by (auto simp: http_step_def on_uri_def uri_token_ff peek_rest Let_def schar_def)

lemma http_loop_ff:
  assumes "hp_state p = URI" "rest tk = CHR 0xFF # rs"
  shows "http_loop p tk = None"
proof (rule ccontr)
  assume "http_loop p tk \<noteq> None"
  then obtain y where "http_loop p tk = Some y" by blast
  then have "\<not> (hp_state p = URI \<and> (\<exists>rs. rest tk = CHR 0xFF # rs))"
    by (rule http_loop.raw_induct[where P = "\<lambda>p tk _. \<not> (hp_state p = URI \<and> (\<exists>rs. rest tk = CHR 0xFF # rs))", rotated])
       (auto simp: tk_empty_rest http_step_ff split: if_splits)
  with assms show False by blast
qed


lemma run_uri_ff:
  assumes "hp_state p = URI" "hx_state (hp_hex p) = HS0" "rest tk = encode uri_safe u @ CHR 0xFF # rs"
  shows "http_loop p tk = None"
proof -
  let ?t = "adv (length (encode uri_safe u)) tk"
  obtain h where h: "consume_while uri_token (hp_hex p) tk [] = consume_while uri_token h ?t u"
    using uri_esc.consume_encoded_prefix[OF assms(2,3), of "[]"] by auto
  have r: "rest ?t = CHR 0xFF # rs" using assms(3) by (simp add: rest_adv)
  let ?p = "p\<lparr>hp_hex := h, hp_stg := (hp_stg p)\<lparr>uri := uri (hp_stg p) @ u\<rparr>\<rparr>"
  have "http_step p tk = Some (?p, ?t)"
    using assms(1) h uri_token_ff[OF r, of h u] r
    by (simp add: http_step_def on_uri_def peek_rest schar_def Let_def)
  then have "http_loop p tk = http_loop ?p ?t"
    using assms(1,3) by (simp add: http_loop.simps[of p tk] tk_empty_rest)
  with http_loop_ff[OF _ r, of ?p] assms(1) show ?thesis by simp
qed

text \<open>\<open>process\<close> never returns on a request line whose target holds the byte \<open>0xFF\<close>: \<open>peek(-1)\<close>
  takes the byte for the end of the buffer, the token does not consume it, and the loop goes on
  as the tokenizer is not empty.\<close>

theorem http_uri_ff_diverges:
  assumes "clean [CHR '' '', CHR 0x0D, CHR 0x0A] m"
  shows "http_process (m @ '' '' @ encode uri_safe u @ CHR 0xFF # ds) http_new = None"
proof -
  let ?t = "tk_new (m @ '' '' @ encode uri_safe u @ CHR 0xFF # ds)"
  have r: "rest ?t = m @ CHR '' '' # encode uri_safe u @ CHR 0xFF # ds" by (simp add: rest_new)
  let ?p = "goto URI (http_new\<lparr>hp_stg := (hp_stg http_new)\<lparr>request_type := request_type (hp_stg http_new) @ m\<rparr>\<rparr>)"
  have "reaches http_new ?t (Suc (length m)) ?p"
    by (rule run_request_type[OF _ assms r]) (simp add: http_new_def)
  moreover have "http_loop ?p (adv (Suc (length m)) ?t) = None"
    by (rule run_uri_ff[where u = u and rs = ds]) (use r in \<open>simp_all add: http_new_def hex_new_def rest_adv\<close>)
  ultimately show ?thesis by (simp add: http_process_def reaches_def)
qed

theorem http_uri_ff_diverges_witness:
  "http_process (''GET /'' @ CHR 0xFF # '' HTTP/1.1'') http_new = None"
proof -
  have "clean [CHR '' '', CHR 0x0D, CHR 0x0A] ''GET''" by code_simp
  moreover have "encode uri_safe ''/'' = ''/''" by code_simp
  ultimately show ?thesis using http_uri_ff_diverges[of "''GET''" "''/''" "'' HTTP/1.1''"] by simp
qed

section \<open>Requests in two buffers\<close>

text \<open>A request cut in two buffers is not always the request of the whole text. A percent escape at
  the end of a buffer is dropped (the transformer stops at an empty tokenizer before it writes the
  character), and a query string that reaches the end of a buffer ends there: the next buffer is read
  as the HTTP version.\<close>

theorem http_split_differs:
  "(\<exists>p q. http_process ''GET /%41'' http_new = Some (0, p) \<and>
      http_process ('' HTTP/1.1'' @ [CHR 0x0D, CHR 0x0A, CHR 0x0D, CHR 0x0A]) p = Some (0, q) \<and>
      is_complete q \<and> uri (hp_stg q) = ''/'') \<and>
   (\<exists>p q. http_process ''GET /?a=1'' http_new = Some (0, p) \<and>
      http_process (''2 HTTP/1.1'' @ [CHR 0x0D, CHR 0x0A, CHR 0x0D, CHR 0x0A]) p = Some (0, q) \<and>
      is_complete q \<and> query_params (hp_stg q) = [\<lparr>qp_name = ''a'', qp_value = ''1''\<rparr>] \<and> http_version (hp_stg q) = ''2 HTTP/1.1'') \<and>
   (\<exists>q. http_process (''GET /%41?a=12 HTTP/1.1'' @ [CHR 0x0D, CHR 0x0A, CHR 0x0D, CHR 0x0A]) http_new =
      Some (0, q) \<and> is_complete q \<and> uri (hp_stg q) = ''/A'' \<and>
      query_params (hp_stg q) = [\<lparr>qp_name = ''a'', qp_value = ''12''\<rparr>])"
proof -
  have "map_option (\<lambda>(k, p). (k, map_option (\<lambda>(k, q). (k, is_complete q, uri (hp_stg q)))
      (http_process ('' HTTP/1.1'' @ [CHR 0x0D, CHR 0x0A, CHR 0x0D, CHR 0x0A]) p)))
      (http_process ''GET /%41'' http_new) = Some (0, Some (0, True, ''/''))" by code_simp
  moreover have "map_option (\<lambda>(k, p). (k, map_option (\<lambda>(k, q). (k, is_complete q, query_params (hp_stg q), http_version (hp_stg q)))
      (http_process (''2 HTTP/1.1'' @ [CHR 0x0D, CHR 0x0A, CHR 0x0D, CHR 0x0A]) p)))
      (http_process ''GET /?a=1'' http_new) = Some (0, Some (0, True, [\<lparr>qp_name = ''a'', qp_value = ''1''\<rparr>], ''2 HTTP/1.1''))" by code_simp
  moreover have "map_option (\<lambda>(k, q). (k, is_complete q, uri (hp_stg q), query_params (hp_stg q)))
      (http_process (''GET /%41?a=12 HTTP/1.1'' @ [CHR 0x0D, CHR 0x0A, CHR 0x0D, CHR 0x0A]) http_new) =
      Some (0, True, ''/A'', [\<lparr>qp_name = ''a'', qp_value = ''12''\<rparr>])" by code_simp
  ultimately show ?thesis by (auto simp: map_option_case split: option.splits)
qed


end
