(* ===== verification/StreamFind.thy ===== *)
theory StreamFind
  imports TxlPrelude "HOL-Library.Sublist"
begin

text \<open>
  \<open>stream_find\<close> of \<^verbatim>\<open>include/txl/find.h\<close>: the search for a byte string in a stream that arrives in
  buffers. The object keeps the match, the table of Knuth, Morris and Pratt, the number of matched bytes and
  the number of bytes seen. The loops are partial functions: \<open>None\<close> is a loop that does not end, a fault
  an access outside of the table or the match.
\<close>

section \<open>The table and the search\<close>

record 'a stream_find =
  sf_match :: "'a list"
  sf_lps :: "nat list"
  sf_index :: nat
  sf_processed :: nat

partial_function (option) init_lps_table :: "'a list \<Rightarrow> nat list \<Rightarrow> nat \<Rightarrow> nat \<Rightarrow> nat list res option" where
  "init_lps_table m lps pre nxt =
     (if nxt < length m then
        (if length m \<le> pre then Some (Inl UB)
         else if m ! pre = m ! nxt then
           (case vec_put lps nxt (pre + 1) of Inl e \<Rightarrow> Some (Inl e)
            | Inr lps' \<Rightarrow> init_lps_table m lps' (pre + 1) (nxt + 1))
         else if pre = 0 then
           (case vec_put lps nxt 0 of Inl e \<Rightarrow> Some (Inl e)
            | Inr lps' \<Rightarrow> init_lps_table m lps' pre (nxt + 1))
         else
           (case vec_get lps (pre - 1) of Inl e \<Rightarrow> Some (Inl e)
            | Inr l \<Rightarrow> init_lps_table m lps l nxt))
      else Some (Inr lps))"

text \<open>
  The constructor initialises the table with \<open>lps_{match.size(), 0}\<close>, which is the list of the two values
  \<open>match.size()\<close> and \<open>0\<close>, not \<open>match.size()\<close> zeros.
\<close>

definition sf_new :: "'a list \<Rightarrow> 'a stream_find res option" where
  "sf_new m = map_option (map_sum id (\<lambda>lps. \<lparr>sf_match = m, sf_lps = lps, sf_index = 0, sf_processed = 0\<rparr>))
     (init_lps_table m [length m, 0] 0 1)"

definition sf_reset :: "'a stream_find \<Rightarrow> 'a stream_find" where
  "sf_reset f = f\<lparr>sf_index := 0, sf_processed := 0\<rparr>"

definition sf_is_matched :: "'a stream_find \<Rightarrow> bool" where
  "sf_is_matched f \<longleftrightarrow> sf_index f = length (sf_match f)"

definition sf_advance :: "'a stream_find \<Rightarrow> 'a stream_find" where
  "sf_advance f = f\<lparr>sf_index := Suc (sf_index f), sf_processed := Suc (sf_processed f)\<rparr>"

definition sf_skip :: "'a stream_find \<Rightarrow> 'a stream_find" where
  "sf_skip f = f\<lparr>sf_processed := Suc (sf_processed f)\<rparr>"

definition sf_fall_back :: "'a stream_find \<Rightarrow> 'a stream_find res" where
  "sf_fall_back f =
     (if sf_index f > 0 then and_then (vec_get (sf_lps f) (sf_index f - 1)) (\<lambda>l. Inr (f\<lparr>sf_index := l\<rparr>))
      else Inr f)"

partial_function (option) sf_run :: "'a stream_find \<Rightarrow> 'a list \<Rightarrow> nat \<Rightarrow> 'a stream_find res option" where
  "sf_run f src i =
     (if \<not> sf_is_matched f \<and> i < length src then
        (if length (sf_match f) \<le> sf_index f then Some (Inl UB)
         else if src ! i = sf_match f ! sf_index f then sf_run (sf_advance f) src (Suc i)
         else (case sf_fall_back f of Inl e \<Rightarrow> Some (Inl e)
               | Inr f' \<Rightarrow> if sf_index f' = 0 then sf_run (sf_skip f') src (Suc i) else sf_run f' src i))
      else Some (Inr f))"

definition sf_process :: "'a stream_find \<Rightarrow> 'a list \<Rightarrow> 'a stream_find res option" where
  "sf_process f src = sf_run f src 0"

declare init_lps_table.simps [code] sf_run.simps [code]

section \<open>Borders\<close>

text \<open>\<open>border m k i\<close>: the first \<open>k\<close> characters of the match end its first \<open>i\<close>, and \<open>k < i\<close>.\<close>

definition border :: "'a list \<Rightarrow> nat \<Rightarrow> nat \<Rightarrow> bool" where
  "border m k i \<longleftrightarrow> k < i \<and> suffix (take k m) (take i m)"

definition longest_border :: "'a list \<Rightarrow> nat \<Rightarrow> nat \<Rightarrow> bool" where
  "longest_border m k i \<longleftrightarrow> border m k i \<and> (\<forall>k'. border m k' i \<longrightarrow> k' \<le> k)"

lemma border_0: "0 < i \<Longrightarrow> border m 0 i"
  by (simp add: border_def)

lemma border_trans: "border m k j \<Longrightarrow> border m j i \<Longrightarrow> border m k i"
  unfolding border_def using suffix_order.trans by force

lemma border_between: "border m k i \<Longrightarrow> border m j i \<Longrightarrow> k < j \<Longrightarrow> j \<le> length m \<Longrightarrow> border m k j"
  unfolding border_def by (auto intro: suffix_length_suffix)

lemma border_Suc:
  "i < length m \<Longrightarrow> border m (Suc k) (Suc i) \<longleftrightarrow> border m k i \<and> m ! k = m ! i"
  by (auto simp: border_def take_Suc_conv_app_nth)

text \<open>The invariant of \<open>init_lps_table\<close>.\<close>

definition lps_inv :: "'a list \<Rightarrow> nat list \<Rightarrow> nat \<Rightarrow> nat \<Rightarrow> bool" where
  "lps_inv m lps pre nxt \<longleftrightarrow> length lps = length m \<and> 0 < nxt \<and> nxt \<le> length m \<and>
     (\<forall>i < nxt. longest_border m (lps ! i) (Suc i)) \<and> border m pre nxt \<and>
     (\<forall>k. nxt < length m \<longrightarrow> border m k (Suc nxt) \<longrightarrow> k \<le> Suc pre)"

lemma lps_inv_next:
  assumes "lps_inv m lps pre nxt" "nxt < length m" "longest_border m l (Suc nxt)"
  shows "lps_inv m (lps[nxt := l]) l (Suc nxt)"
proof -
  have "k \<le> Suc l" if "Suc nxt < length m" "border m k (Suc (Suc nxt))" for k
    using that assms(3) border_Suc[OF that(1)] by (cases k) (auto simp: longest_border_def)
  moreover have "border m l (Suc nxt)" using assms(3) by (simp add: longest_border_def)
  ultimately show ?thesis using assms by (auto simp: lps_inv_def nth_list_update less_Suc_eq)
qed

lemma lps_match:
  assumes "lps_inv m lps pre nxt" "nxt < length m" "m ! pre = m ! nxt"
  shows "longest_border m (Suc pre) (Suc nxt)"
  using assms by (auto simp: lps_inv_def longest_border_def border_Suc)

lemma lps_none:
  assumes "lps_inv m lps 0 nxt" "nxt < length m" "m ! 0 \<noteq> m ! nxt"
  shows "longest_border m 0 (Suc nxt)"
proof -
  have "k = 0" if "border m k (Suc nxt)" for k
  proof (cases k)
    case (Suc k')
    have "k \<le> Suc 0" using that assms(1,2) by (auto simp: lps_inv_def)
    moreover have "m ! k' = m ! nxt" using that Suc assms(2) by (auto simp: border_Suc)
    ultimately show ?thesis using Suc assms(3) by auto
  qed simp
  then show ?thesis by (auto simp: longest_border_def border_0)
qed

lemma lps_back:
  assumes "lps_inv m lps pre nxt" "nxt < length m" "m ! pre \<noteq> m ! nxt" "0 < pre"
  shows "lps_inv m lps (lps ! (pre - 1)) nxt"
proof -
  let ?l = "lps ! (pre - 1)"
  have b: "border m pre nxt" using assms(1) by (simp add: lps_inv_def)
  then have ln: "pre < nxt" by (simp add: border_def)
  have l: "longest_border m ?l pre"
    using assms(1,4) ln unfolding lps_inv_def by (metis Suc_pred' less_imp_diff_less)
  have "k \<le> Suc ?l" if k: "border m k (Suc nxt)" for k
  proof (cases k)
    case (Suc k')
    with k assms(2) have k': "border m k' nxt" "m ! k' = m ! nxt" by (auto simp: border_Suc)
    have "k' < pre" using assms(1,2,3) k k'(2) Suc by (auto simp: lps_inv_def le_less)
    with border_between[OF k'(1) b this] ln assms(2) l Suc show ?thesis by (simp add: longest_border_def)
  qed simp
  moreover have "border m ?l nxt" using l b border_trans by (auto simp: longest_border_def)
  ultimately show ?thesis using assms(1) by (simp add: lps_inv_def)
qed

lemma init_lps_table_inv:
  assumes "lps_inv m lps pre nxt"
  shows "\<exists>lps'. init_lps_table m lps pre nxt = Some (Inr lps') \<and> length lps' = length m \<and>
    (\<forall>i < length m. longest_border m (lps' ! i) (Suc i))"
  using assms
proof (induction "(length m - nxt, pre)" arbitrary: lps pre nxt rule: wf_induct_rule[OF wf_lex_prod[OF wf_less_than wf_less_than]])
  case 1
  note inv = 1(2)
  have b: "length lps = length m" "nxt \<le> length m" "pre < nxt" using inv by (auto simp: lps_inv_def border_def)
  note step = init_lps_table.simps[of m lps pre nxt]
  consider "nxt = length m" | "nxt < length m" "m ! pre = m ! nxt" | "nxt < length m" "m ! pre \<noteq> m ! nxt" "pre = 0"
    | "nxt < length m" "m ! pre \<noteq> m ! nxt" "0 < pre" using b(2) by linarith
  then show ?case
  proof cases
    case 1
    then show ?thesis using inv step by (simp add: lps_inv_def)
  next
    case 2
    from 1(1)[OF _ lps_inv_next[OF inv 2(1) lps_match[OF inv 2]]] show ?thesis
      using step 2 b by (simp add: vec_put_def)
  next
    case 3
    from inv 3(3) have inv0: "lps_inv m lps 0 nxt" by simp
    have ne: "m \<noteq> []" using 3(1) by auto
    from 1(1)[OF _ lps_inv_next[OF inv0 3(1) lps_none[OF inv0 3(1)]]] show ?thesis
      using step 3 b ne by (simp add: vec_put_def)
  next
    case 4
    obtain p where p: "pre = Suc p" using 4(3) by (cases pre) auto
    then have "longest_border m (lps ! (pre - 1)) pre" using inv b(3) by (simp add: lps_inv_def)
    then have "lps ! (pre - 1) < pre" using 4(3) by (simp add: longest_border_def border_def)
    from 1(1)[OF _ lps_back[OF inv 4]] this show ?thesis
      using step 4 b by (simp add: vec_get_def)
  qed
qed

lemma lps_inv_start: "m \<noteq> [] \<Longrightarrow> length lps = length m \<Longrightarrow> lps ! 0 = 0 \<Longrightarrow> lps_inv m lps 0 1"
  by (cases m) (auto simp: lps_inv_def longest_border_def border_def)

text \<open>On a table of the size of the match whose first entry is zero, \<open>init_lps_table\<close> computes the table of
  Knuth, Morris and Pratt: entry \<open>i\<close> is the length of the longest proper border of the first
  \<open>i + 1\<close> characters of the match. The constructor does not start from such a table.\<close>

lemma init_lps_table_correct:
  assumes "m \<noteq> []" "length lps0 = length m" "lps0 ! 0 = 0"
  shows "\<exists>lps. init_lps_table m lps0 0 1 = Some (Inr lps) \<and> length lps = length m \<and>
    (\<forall>i < length m. longest_border m (lps ! i) (Suc i))"
  by (rule init_lps_table_inv[OF lps_inv_start[OF assms]])

section \<open>The search\<close>

text \<open>A table whose entries are borders, and the invariant of \<open>process\<close>: the matched characters end the
  characters seen so far.\<close>

definition table_ok :: "'a stream_find \<Rightarrow> bool" where
  "table_ok f \<longleftrightarrow> length (sf_lps f) = length (sf_match f) \<and>
     (\<forall>i < length (sf_match f). border (sf_match f) (sf_lps f ! i) (Suc i))"

definition seen_ok :: "'a stream_find \<Rightarrow> 'a list \<Rightarrow> bool" where
  "seen_ok f hist \<longleftrightarrow> sf_index f \<le> length (sf_match f) \<and> suffix (take (sf_index f) (sf_match f)) hist"

lemma seen_advance:
  "seen_ok f hist \<Longrightarrow> sf_index f < length (sf_match f) \<Longrightarrow> x = sf_match f ! sf_index f \<Longrightarrow>
   seen_ok (sf_advance f) (hist @ [x])"
  by (auto simp: seen_ok_def sf_advance_def take_Suc_conv_app_nth)

lemma seen_fall_back:
  assumes "table_ok f" "seen_ok f hist" "sf_index f < length (sf_match f)"
  shows "\<exists>f'. sf_fall_back f = Inr f' \<and> seen_ok f' hist \<and> table_ok f' \<and> sf_match f' = sf_match f \<and>
    sf_processed f' = sf_processed f \<and> sf_index f' < length (sf_match f) \<and>
    (sf_index f' = 0 \<or> sf_index f' < sf_index f)"
proof (cases "sf_index f = 0")
  case False
  let ?l = "sf_lps f ! (sf_index f - 1)"
  have "border (sf_match f) ?l (sf_index f)"
    using assms(1,3) False unfolding table_ok_def by (metis Suc_pred' less_imp_diff_less neq0_conv)
  then have "?l < sf_index f" "suffix (take ?l (sf_match f)) hist"
    using assms(2) suffix_order.trans by (force simp: border_def seen_ok_def)+
  then show ?thesis using False assms
    by (auto simp: sf_fall_back_def table_ok_def seen_ok_def vec_get_def)
qed (use assms in \<open>auto simp: sf_fall_back_def\<close>)

lemma sf_run_seen:
  assumes "table_ok f" "seen_ok f (hist @ take i src)" "i \<le> length src"
  shows "\<exists>f' j. sf_run f src i = Some (Inr f') \<and> i \<le> j \<and> j \<le> length src \<and> table_ok f' \<and>
    sf_match f' = sf_match f \<and> seen_ok f' (hist @ take j src) \<and>
    sf_processed f' + i = sf_processed f + j \<and> (sf_is_matched f' \<or> j = length src)"
  using assms
proof (induction "(length src - i, sf_index f)" arbitrary: f i rule: wf_induct_rule[OF wf_lex_prod[OF wf_less_than wf_less_than]])
  case 1
  note prems = 1(2-4)
  show ?case
  proof (cases "\<not> sf_is_matched f \<and> i < length src")
    case False
    then show ?thesis using prems by (intro exI[of _ f] exI[of _ i]) (auto simp: sf_run.simps[of f src i])
  next
    case True
    have idx: "sf_index f < length (sf_match f)" using True prems(2) by (auto simp: sf_is_matched_def seen_ok_def)
    have hist: "hist @ take (Suc i) src = (hist @ take i src) @ [src ! i]" using True by (simp add: take_Suc_conv_app_nth)
    show ?thesis
    proof (cases "src ! i = sf_match f ! sf_index f")
      case m: True
      have "table_ok (sf_advance f)" using prems(1) by (simp add: table_ok_def sf_advance_def)
      from 1(1)[OF _ this seen_advance[OF prems(2) idx m, folded hist]] True obtain f' j where
        "sf_run (sf_advance f) src (Suc i) = Some (Inr f')" "Suc i \<le> j" "j \<le> length src" "table_ok f'"
        "sf_match f' = sf_match f" "seen_ok f' (hist @ take j src)"
        "sf_processed f' + Suc i = Suc (sf_processed f) + j" "sf_is_matched f' \<or> j = length src"
        by (auto simp: sf_advance_def diff_less_mono2)
      then show ?thesis using True m idx
        by (intro exI[of _ f'] exI[of _ j]) (auto simp: sf_run.simps[of f src i])
    next
      case m: False
      from seen_fall_back[OF prems(1,2) idx] obtain f1 where
        f1: "sf_fall_back f = Inr f1" "seen_ok f1 (hist @ take i src)" "table_ok f1" "sf_match f1 = sf_match f"
          "sf_processed f1 = sf_processed f" "sf_index f1 = 0 \<or> sf_index f1 < sf_index f" by blast
      show ?thesis
      proof (cases "sf_index f1 = 0")
        case z: True
        have "table_ok (sf_skip f1)" "seen_ok (sf_skip f1) (hist @ take (Suc i) src)"
          using f1(3) z by (simp_all add: table_ok_def sf_skip_def seen_ok_def)
        from 1(1)[OF _ this] True f1(4,5) obtain f' j where
          "sf_run (sf_skip f1) src (Suc i) = Some (Inr f')" "Suc i \<le> j" "j \<le> length src" "table_ok f'"
          "sf_match f' = sf_match f" "seen_ok f' (hist @ take j src)"
          "sf_processed f' + Suc i = Suc (sf_processed f) + j" "sf_is_matched f' \<or> j = length src"
          by (auto simp: sf_skip_def diff_less_mono2)
        then show ?thesis using True m idx f1(1) z
          by (intro exI[of _ f'] exI[of _ j]) (auto simp: sf_run.simps[of f src i])
      next
        case nz: False
        then have "sf_index f1 < sf_index f" using f1(6) by simp
        from 1(1)[OF _ f1(3,2)] this True f1(4,5) show ?thesis using m idx f1(1) nz
          by (simp add: sf_run.simps[of f src i])
      qed
    qed
  qed
qed

text \<open>With a table of borders \<open>process\<close> returns and is sound, however the stream is cut into buffers: when a match is
  reported, the characters counted so far end with the match; without a match the whole buffer was counted.\<close>

lemma process_sound:
  assumes "table_ok f" "seen_ok f hist"
  shows "\<exists>f' j. sf_process f src = Some (Inr f') \<and> j \<le> length src \<and> table_ok f' \<and>
    seen_ok f' (hist @ take j src) \<and> sf_processed f' = sf_processed f + j \<and>
    (if sf_is_matched f' then suffix (sf_match f) (hist @ take j src) else j = length src)"
proof -
  have "seen_ok f (hist @ take 0 src)" using assms(2) by simp
  from sf_run_seen[OF assms(1) this, simplified] obtain f' j where
    "sf_run f src 0 = Some (Inr f')" "j \<le> length src" "table_ok f'" "sf_match f' = sf_match f"
    "seen_ok f' (hist @ take j src)" "sf_processed f' = sf_processed f + j" "sf_is_matched f' \<or> j = length src"
    by auto
  then show ?thesis
    by (intro exI[of _ f'] exI[of _ j]) (auto simp: sf_process_def seen_ok_def sf_is_matched_def)
qed

text \<open>\<open>process\<close> is not complete, even with the right table: after it falls back to the beginning of the
  match it skips the current character without comparing it with the first one, so the text
  aab is read to its end without finding ab.\<close>

theorem process_misses:
  "(\<exists>lps. init_lps_table ''ab'' [0, 0] 0 1 = Some (Inr lps) \<and>
     (\<exists>f. sf_process \<lparr>sf_match = ''ab'', sf_lps = lps, sf_index = 0, sf_processed = 0\<rparr> ''aab'' = Some (Inr f) \<and>
        \<not> sf_is_matched f \<and> sf_processed f = 3)) \<and> suffix ''ab'' ''aab''"
proof -
  let ?f = "\<lparr>sf_match = ''ab'', sf_lps = [0, 0], sf_index = 0, sf_processed = 0\<rparr>"
  have "init_lps_table ''ab'' [0, 0] 0 1 = Some (Inr [0, 0])" by code_simp
  moreover have "sf_process ?f ''aab'' = Some (Inr (?f\<lparr>sf_processed := 3\<rparr>))" by code_simp
  ultimately show ?thesis by (simp add: sf_is_matched_def suffix_def)
qed

section \<open>The constructor\<close>

text \<open>The table of the search that the constructor makes of a match of at most two characters.\<close>

fun built_table :: "'a list \<Rightarrow> nat list" where
  "built_table [a, b] = [2, if a = b then 1 else 0]"
| "built_table m = [length m, 0]"

lemma init_over:
  assumes "3 \<le> length m" "length lps = 2"
  shows "length m \<le> p \<or> p = 0 \<or> m ! p = m ! 2 \<Longrightarrow> init_lps_table m lps p 2 = Some (Inl UB)"
    "p = 1 \<Longrightarrow> m ! p \<noteq> m ! 2 \<Longrightarrow> init_lps_table m lps p 2 = init_lps_table m lps (lps ! 0) 2"
  using assms by (subst init_lps_table.simps, auto simp: vec_put_def vec_get_def)+

lemma sf_new_cases:
  "sf_new m = Some (if length m \<le> 2 then Inr \<lparr>sf_match = m, sf_lps = built_table m, sf_index = 0, sf_processed = 0\<rparr> else Inl UB)"
proof (cases "3 \<le> length m")
  case True
  then obtain x y z r where m: "m = x # y # z # r" by (auto simp: eval_nat_numeral Suc_le_length_iff)
  let ?n = "length m"
  have zero: "init_lps_table m lps 0 2 = Some (Inl UB)" if "length lps = 2" for lps
    using init_over(1)[OF True that, of 0] by simp
  have big: "init_lps_table m lps ?n 2 = Some (Inl UB)" if "length lps = 2" for lps
    using init_over(1)[OF True that, of ?n] by simp
  have "init_lps_table m [?n, v] 1 2 = Some (Inl UB)" for v
    using init_over[OF True, of "[?n, v]" 1] big[of "[?n, v]"] by (cases "m ! 1 = m ! 2") simp_all
  moreover have "init_lps_table m [?n, 0] 0 1 =
      (if x = y then init_lps_table m [?n, 1] 1 2 else init_lps_table m [?n, 0] 0 2)"
    by (subst init_lps_table.simps) (simp add: m vec_put_def numeral_2_eq_2)
  ultimately show ?thesis using zero[of "[?n, 0]"] True by (simp add: sf_new_def)
next
  case False
  then consider "m = []" | a where "m = [a]" | a b where "m = [a, b]"
    by (cases m; cases "tl m"; cases "tl (tl m)") auto
  then show ?thesis
  proof cases
    case (3 a b)
    have "init_lps_table [a, b] lps p (Suc (Suc 0)) = Some (Inr lps)" for lps p by (subst init_lps_table.simps) simp
    moreover have "init_lps_table [a, b] [Suc (Suc 0), 0] 0 (Suc 0) =
        (if a = b then init_lps_table [a, b] [Suc (Suc 0), Suc 0] (Suc 0) (Suc (Suc 0))
         else init_lps_table [a, b] [Suc (Suc 0), 0] 0 (Suc (Suc 0)))"
      by (subst init_lps_table.simps) (simp add: vec_put_def)
    ultimately show ?thesis using 3 by (cases "a = b") (simp_all add: sf_new_def numeral_2_eq_2)
  qed (simp_all add: sf_new_def, (subst init_lps_table.simps, simp)+)
qed

text \<open>C8: What the constructor makes of any match: its table has two entries whatever the size of the match, so it ends without
  a fault just for at most two characters, with the size of the match as the first entry instead of zero, and reads or writes outside of its
  memory for every longer match.\<close>

theorem sf_new_exact:
  "sf_new m = Some (if length m \<le> 2 then Inr \<lparr>sf_match = m, sf_lps = built_table m, sf_index = 0, sf_processed = 0\<rparr> else Inl UB)"
  by (rule sf_new_cases)

section \<open>A stream in buffers\<close>

text \<open>\<open>process\<close> on one buffer after the other, as \<open>until\<close> and \<open>copy\<close> call it.\<close>

fun sf_feed :: "'a stream_find \<Rightarrow> 'a list list \<Rightarrow> 'a stream_find res option" where
  "sf_feed f [] = Some (Inr f)"
| "sf_feed f (b # bs) = run_bind (sf_process f b) (\<lambda>f'. sf_feed f' bs)"

text \<open>What such a search finds in a text: whether it reports a match, and the number of characters it counts. The first place of the
  first character is taken, if as many characters follow as the match has; that they are the match is seen from the count only.\<close>

definition find_spec :: "'a list \<Rightarrow> 'a list \<Rightarrow> bool \<times> nat" where
  "find_spec m s = (if m = [] then (True, 0) else
     let n = length (takeWhile (\<lambda>c. c \<noteq> hd m) s)
     in if n + length m \<le> length s then (True, if take (length m) (drop n s) = m then n + length m else n + 1) else (False, length s))"

text \<open>The search as a machine on single characters: its position in the match and its count.\<close>

fun scan :: "'a list \<Rightarrow> nat \<times> nat \<Rightarrow> 'a list \<Rightarrow> nat \<times> nat" where
  "scan m (i, n) [] = (i, n)"
| "scan m (i, n) (c # cs) =
     (if i = length m then (i, n) else if c = m ! i then scan m (i + 1, n + 1) cs
      else if i = 0 then scan m (0, n + 1) cs else (length m, n))"

definition built :: "'a list \<Rightarrow> nat \<times> nat \<Rightarrow> 'a stream_find" where
  "built m s = \<lparr>sf_match = m, sf_lps = built_table m, sf_index = fst s, sf_processed = snd s\<rparr>"

lemma built_simps:
  "sf_match (built m s) = m" "sf_index (built m s) = fst s" "sf_is_matched (built m s) \<longleftrightarrow> fst s = length m"
  "sf_advance (built m (i, n)) = built m (Suc i, Suc n)" "sf_skip (built m (i, n)) = built m (i, Suc n)"
  "sf_fall_back (built m (i, n)) =
     (if 0 < i then and_then (vec_get (built_table m) (i - 1)) (\<lambda>l. Inr (built m (l, n))) else Inr (built m (i, n)))"
  by (simp_all add: built_def sf_is_matched_def sf_advance_def sf_skip_def sf_fall_back_def)

lemma scan_full [simp]: "scan m (length m, n) s = (length m, n)"
  by (cases s) auto

lemma scan_append: "scan m s (xs @ ys) = scan m (scan m s xs) ys"
  by (induction m s xs rule: scan.induct) auto

lemma scan_le: "i \<le> length m \<Longrightarrow> fst (scan m (i, n) s) \<le> length m"
  by (induction m "(i, n)" s arbitrary: i n rule: scan.induct) auto

lemma built_run:
  assumes "length m \<le> 2"
  shows "i \<le> length m \<Longrightarrow> k \<le> length src \<Longrightarrow> sf_run (built m (i, n)) src k = Some (Inr (built m (scan m (i, n) (drop k src))))"
proof (induction "length src - k" arbitrary: i n k)
  case 0
  then show ?case by (simp add: sf_run.simps[of _ src k])
next
  case (Suc d)
  then have k: "k < length src" "drop k src = src ! k # drop (Suc k) src" by (simp_all add: Cons_nth_drop_Suc)
  show ?case
  proof (cases "i = length m")
    case True
    then show ?thesis by (simp add: sf_run.simps[of _ src k] built_simps)
  next
    case False
    then have i: "i < length m" using Suc.prems by simp
    have d: "d = length src - Suc k" using Suc.hyps(2) by simp
    have ih: "j \<le> length m \<Longrightarrow> sf_run (built m (j, l)) src (Suc k) = Some (Inr (built m (scan m (j, l) (drop (Suc k) src))))" for j l
      using Suc.hyps(1)[OF d] k(1) by simp
    have full: "sf_run (built m (length m, n)) src k = Some (Inr (built m (length m, n)))"
      by (simp add: sf_run.simps[of _ src k] built_simps)
    have first: "vec_get (built_table m) 0 = Inr (length m)" if "i = 1"
    proof -
      from i that assms have "length m = 2" by linarith
      then obtain a b where "m = [a, b]" by (auto simp: numeral_2_eq_2 length_Suc_conv)
      then show ?thesis by (simp add: vec_get_def)
    qed
    have "i = 0 \<or> i = 1" using i assms by linarith
    then show ?thesis
      using k i ih[of "Suc i" "Suc n"] ih[of 0 "Suc n"] full first
      by (auto simp: sf_run.simps[of "built m (i, n)" src k] built_simps)
  qed
qed

lemma built_feed:
  assumes "length m \<le> 2"
  shows "i \<le> length m \<Longrightarrow> sf_feed (built m (i, n)) bs = Some (Inr (built m (scan m (i, n) (concat bs))))"
proof (induction bs arbitrary: i n)
  case (Cons b bs)
  obtain j l where s: "scan m (i, n) b = (j, l)" by (cases "scan m (i, n) b")
  then have "j \<le> length m" using scan_le[OF Cons.prems, of n b] by simp
  from Cons.IH[OF this, of l] built_run[OF assms Cons.prems, of 0 b n] s show ?case
    by (simp add: sf_process_def scan_append)
qed simp

lemma find_spec_Cons:
  assumes "m \<noteq> []"
  shows "find_spec m (c # s) =
    (if c \<noteq> hd m then (fst (find_spec m s), Suc (snd (find_spec m s)))
     else if length m \<le> Suc (length s) then (True, if take (length m) (c # s) = m then length m else 1) else (False, Suc (length s)))"
  using assms by (simp add: find_spec_def Let_def)

lemma scan_find:
  assumes "length m \<le> 2"
  shows "scan m (0, n) s = (i, l) \<Longrightarrow> (i = length m) = fst (find_spec m s) \<and> l = n + snd (find_spec m s)"
proof (induction s arbitrary: n)
  case Nil
  then show ?case by (auto simp: find_spec_def)
next
  case (Cons c s)
  consider "m = []" | a where "m = [a]" | a b where "m = [a, b]"
    using assms by (cases m; cases "tl m"; cases "tl (tl m)") auto
  then show ?case
  proof cases
    case 1
    then show ?thesis using Cons.prems by (simp add: find_spec_def)
  next
    case (2 a)
    have "scan [a] (Suc 0, k) s = (Suc 0, k)" for k using scan_full[of "[a]" k s] by simp
    then show ?thesis using Cons.prems Cons.IH[of "Suc n"] 2 by (cases "c = a") (auto simp: find_spec_Cons)
  next
    case (3 a b)
    show ?thesis
    proof (cases "c = a")
      case True
      have "scan [a, b] (Suc (Suc 0), k) t = (Suc (Suc 0), k)" for k t using scan_full[of "[a, b]" k t] by simp
      then show ?thesis using Cons.prems 3 True by (cases s) (auto simp: find_spec_Cons split: if_splits)
    next
      case False
      then show ?thesis using Cons.prems Cons.IH[of "Suc n"] 3 by (simp add: find_spec_Cons)
    qed
  qed
qed

text \<open>C10: A search that the constructor makes runs through a stream without a fault, however the stream is cut into buffers. It
  reports a match at the first place of the first character of the match that is followed by enough characters, counts the characters up to
  there, and otherwise counts them all. A match of one character is therefore the first one of the stream; of two characters the second is
  not compared, it only decides whether it is counted.\<close>

theorem built_search_finds:
  assumes "sf_new m = Some (Inr f)"
  shows "\<exists>f'. sf_feed f bufs = Some (Inr f') \<and> (sf_is_matched f', sf_processed f') = find_spec m (concat bufs)"
proof -
  have m: "length m \<le> 2" and f: "f = built m (0, 0)"
    using assms sf_new_cases[of m] by (auto simp: built_def split: if_splits)
  obtain i l where s: "scan m (0, 0) (concat bufs) = (i, l)" by (cases "scan m (0, 0) (concat bufs)")
  from built_feed[OF m, of 0 0 bufs] scan_find[OF m s] s f show ?thesis
    by (auto simp: built_def sf_is_matched_def prod_eq_iff)
qed

theorem built_search_finds_witness:
  "\<exists>f f'. sf_new [7 :: nat] = Some (Inr f) \<and> sf_feed f [[1, 2], [], [3, 7], [9]] = Some (Inr f') \<and> sf_is_matched f' \<and> sf_processed f' = 4"
proof -
  obtain f where f: "sf_new [7 :: nat] = Some (Inr f)" using sf_new_cases[of "[7 :: nat]"] by auto
  from built_search_finds[OF f, of "[[1, 2], [], [3, 7], [9]]"] f show ?thesis by (auto simp: find_spec_def)
qed

text \<open>A match of two different characters is reported as soon as the first one is followed by any other than the second.\<close>

lemma sf_false_match:
  assumes "a \<noteq> b" "c \<noteq> b"
  shows "\<exists>f f'. sf_new [a, b] = Some (Inr f) \<and> sf_process f [a, c] = Some (Inr f') \<and> sf_is_matched f'"
  using built_run[of "[a, b]" 0 0 "[a, c]" 0] assms sf_new_cases[of "[a, b]"]
  by (auto simp: sf_process_def built_def sf_is_matched_def)

end
