(* ===== verification/Buffers.thy ===== *)
theory Buffers
  imports TxlPrelude
begin

text \<open>
  The two views of memory: \<open>buffer_ref\<close> of \<^verbatim>\<open>include/txl/buffer_ref.h\<close>, a pointer and a length in
  bytes, and \<open>array_view\<close> of \<^verbatim>\<open>include/txl/array_view.h\<close>, the same over values of any type. The
  memory a view points into is one object, a list; a pointer is a position in it, and
  \<open>nullptr\<close> is \<open>None\<close>. \<open>bytes\<close> and \<open>elems\<close> read a view. A view checks no index itself, so an
  access is undefined when it leaves the object, not when it leaves the view. \<open>size_t\<close> sums are taken modulo \<open>2 ^ 64\<close>.
\<close>

section \<open>The state\<close>

type_synonym byte = "8 word"

definition size_t :: "nat \<Rightarrow> nat" where
  "size_t n = n mod 2 ^ 64"

record buffer_ref =
  br_ptr :: "nat option"
  br_len :: nat

definition br_null :: buffer_ref where
  "br_null = \<lparr>br_ptr = None, br_len = 0\<rparr>"

definition br_at :: "nat \<Rightarrow> nat \<Rightarrow> buffer_ref" where
  "br_at p n = \<lparr>br_ptr = Some p, br_len = n\<rparr>"

definition br_valid :: "'a list \<Rightarrow> buffer_ref \<Rightarrow> bool" where
  "br_valid m r \<longleftrightarrow> br_len r < 2 ^ 64 \<and>
     (case br_ptr r of None \<Rightarrow> br_len r = 0 | Some a \<Rightarrow> a + br_len r \<le> length m)"

definition bytes :: "'a list \<Rightarrow> buffer_ref \<Rightarrow> 'a list" where
  "bytes m r = (case br_ptr r of None \<Rightarrow> [] | Some a \<Rightarrow> take (br_len r) (drop a m))"

text \<open>The move constructor and the move assignment swap: the pair is (this, other) afterwards.\<close>

definition br_move :: "buffer_ref \<Rightarrow> buffer_ref \<times> buffer_ref" where
  "br_move b = (b, br_null)"

definition br_move_assign :: "buffer_ref \<Rightarrow> buffer_ref \<Rightarrow> buffer_ref \<times> buffer_ref" where
  "br_move_assign this b = (b, this)"

section \<open>Slices\<close>

definition br_slice :: "nat \<Rightarrow> nat \<Rightarrow> buffer_ref \<Rightarrow> buffer_ref" where
  "br_slice b e r =
     (if b \<ge> br_len r \<or> e \<le> b then br_null
      else \<lparr>br_ptr = map_option (\<lambda>a. a + b) (br_ptr r), br_len = min (br_len r - b) (e - b)\<rparr>)"

definition br_slice_n :: "nat \<Rightarrow> nat \<Rightarrow> buffer_ref \<Rightarrow> buffer_ref" where
  "br_slice_n pos len r = br_slice pos (size_t (pos + len)) r"

definition br_slice_from :: "nat \<Rightarrow> buffer_ref \<Rightarrow> buffer_ref" where
  "br_slice_from b r = br_slice b (br_len r) r"

section \<open>Reading and writing through a view\<close>

fun memcmp :: "byte list \<Rightarrow> byte list \<Rightarrow> int" where
  "memcmp (x # xs) (y # ys) = (if x < y then -1 else if y < x then 1 else memcmp xs ys)"
| "memcmp _ _ = 0"

definition br_compare :: "byte list \<Rightarrow> buffer_ref \<Rightarrow> buffer_ref \<Rightarrow> int" where
  "br_compare m a b =
     (let n = min (br_len a) (br_len b); cmp = memcmp (take n (bytes m a)) (take n (bytes m b))
      in if cmp \<noteq> 0 then cmp
         else if br_len a > br_len b then 1
         else if br_len a < br_len b then -1
         else 0)"

definition br_equal :: "byte list \<Rightarrow> buffer_ref \<Rightarrow> buffer_ref \<Rightarrow> bool" where
  "br_equal m a b \<longleftrightarrow> br_compare m a b = 0"

definition br_same :: "buffer_ref \<Rightarrow> buffer_ref \<Rightarrow> bool" where
  "br_same a b \<longleftrightarrow> br_ptr a = br_ptr b \<and> br_len a = br_len b"

definition overwrite :: "'a list \<Rightarrow> nat \<Rightarrow> 'a list \<Rightarrow> 'a list" where
  "overwrite m a xs = take a m @ xs @ drop (a + length xs) m"

definition br_write :: "'a list \<Rightarrow> buffer_ref \<Rightarrow> 'a list \<Rightarrow> 'a list" where
  "br_write m r xs = (case br_ptr r of None \<Rightarrow> m | Some a \<Rightarrow> overwrite m a xs)"

definition br_fill :: "byte list \<Rightarrow> buffer_ref \<Rightarrow> byte \<Rightarrow> byte list" where
  "br_fill m r b = br_write m r (replicate (br_len r) b)"

text \<open>\<^verbatim>\<open>std::copy\<close> is undefined when the destination begins inside the source range.\<close>

definition copy_overlaps :: "buffer_ref \<Rightarrow> buffer_ref \<Rightarrow> nat \<Rightarrow> bool" where
  "copy_overlaps dst src n =
     (case (br_ptr dst, br_ptr src) of (Some d, Some s) \<Rightarrow> s \<le> d \<and> d < s + n | _ \<Rightarrow> False)"

definition br_copy_from :: "'a list \<Rightarrow> buffer_ref \<Rightarrow> buffer_ref \<Rightarrow> (nat \<times> 'a list) res" where
  "br_copy_from m dst src =
     (let n = min (br_len src) (br_len dst)
      in if copy_overlaps dst src n then Inl UB
         else Inr (n, br_write m dst (take n (bytes m src))))"

definition br_get :: "'a list \<Rightarrow> buffer_ref \<Rightarrow> nat \<Rightarrow> 'a res" where
  "br_get m r i = (case br_ptr r of None \<Rightarrow> Inl UB | Some a \<Rightarrow> vec_get m (a + i))"

definition br_to_string_view :: "nat \<Rightarrow> buffer_ref \<Rightarrow> nat option \<times> nat" where
  "br_to_string_view csz r = (br_ptr r, br_len r div csz)"

text \<open>The pointer \<open>to_alias\<close> returns, for a type of \<open>sz\<close> bytes.\<close>

definition br_to_alias :: "nat \<Rightarrow> nat \<Rightarrow> buffer_ref \<Rightarrow> nat option" where
  "br_to_alias sz off r = (if off + sz \<le> br_len r then map_option (\<lambda>a. a + off) (br_ptr r) else None)"

definition br_is_zero :: "byte list \<Rightarrow> buffer_ref \<Rightarrow> bool" where
  "br_is_zero m r \<longleftrightarrow> list_all (\<lambda>b. b = 0) (bytes m r)"

definition br_empty :: "buffer_ref \<Rightarrow> bool" where
  "br_empty r \<longleftrightarrow> br_len r = 0"

section \<open>Array views\<close>

record array_view =
  av_data :: "nat option"
  av_size :: nat

definition av_new :: "nat \<Rightarrow> nat \<Rightarrow> array_view" where
  "av_new b e = \<lparr>av_data = Some b, av_size = size_t (e + 2 ^ 64 - b)\<rparr>"

definition av_empty_view :: array_view where
  "av_empty_view = \<lparr>av_data = None, av_size = 0\<rparr>"

definition av_get :: "'a list \<Rightarrow> array_view \<Rightarrow> nat \<Rightarrow> 'a res" where
  "av_get m v i = (case av_data v of None \<Rightarrow> Inl UB | Some a \<Rightarrow> vec_get m (a + i))"

definition av_put :: "'a list \<Rightarrow> array_view \<Rightarrow> nat \<Rightarrow> 'a \<Rightarrow> 'a list res" where
  "av_put m v i x = (case av_data v of None \<Rightarrow> Inl UB | Some a \<Rightarrow> vec_put m (a + i) x)"

definition av_empty :: "array_view \<Rightarrow> bool" where
  "av_empty v \<longleftrightarrow> av_size v = 0"

definition av_sub :: "nat \<Rightarrow> nat \<Rightarrow> array_view \<Rightarrow> array_view" where
  "av_sub b e v = \<lparr>av_data = map_option (\<lambda>a. a + b) (av_data v), av_size = e - b\<rparr>"

definition av_slice :: "nat \<Rightarrow> nat \<Rightarrow> array_view \<Rightarrow> array_view" where
  "av_slice pos len v =
     (let pos = min pos (av_size v); len = min len (av_size v - pos) in av_sub pos (pos + len) v)"

definition av_slice_from :: "nat \<Rightarrow> array_view \<Rightarrow> array_view" where
  "av_slice_from pos v = (let pos = min pos (av_size v) in av_sub pos (av_size v) v)"

definition av_valid :: "'a list \<Rightarrow> array_view \<Rightarrow> bool" where
  "av_valid m v \<longleftrightarrow> av_size v < 2 ^ 64 \<and>
     (case av_data v of None \<Rightarrow> av_size v = 0 | Some a \<Rightarrow> a + av_size v \<le> length m)"

definition elems :: "'a list \<Rightarrow> array_view \<Rightarrow> 'a list" where
  "elems m v = (case av_data v of None \<Rightarrow> [] | Some a \<Rightarrow> take (av_size v) (drop a m))"

section \<open>What a slice holds\<close>

text \<open>
  The contract of the two views: the slice of a valid view is valid and holds the elements from
  \<open>pos\<close> on, at most \<open>len\<close> of them. Its clients are the loops that cut a buffer in pieces.
\<close>

locale sliceable =
  fixes contents :: "'v \<Rightarrow> 'a list" and valid :: "'v \<Rightarrow> bool" and sub :: "nat \<Rightarrow> nat \<Rightarrow> 'v \<Rightarrow> 'v"
  assumes sub_valid: "valid v \<Longrightarrow> valid (sub pos len v)"
    and sub_contents: "valid v \<Longrightarrow> contents (sub pos len v) = take len (drop pos (contents v))"
begin

lemma sub_sub:
  "valid v \<Longrightarrow> contents (sub p l (sub p' l' v)) = take (min l (l' - p)) (drop (p' + p) (contents v))"
  by (simp add: sub_valid sub_contents drop_take min_def add.commute)

lemma sub_all: "valid v \<Longrightarrow> length (contents v) \<le> len \<Longrightarrow> contents (sub 0 len v) = contents v"
  by (simp add: sub_contents)

lemma chunks:
  assumes "valid v"
  shows "concat (map (\<lambda>i. contents (sub (i * k) k v)) [0..<n]) = take (n * k) (contents v)"
proof (induction n)
  case (Suc n)
  then show ?case using assms
    by (simp add: sub_contents add.commute[of k]) (simp only: take_add)
qed simp

end

lemma bytes_slice:
  assumes "br_valid m r"
  shows "bytes m (br_slice b e r) = take (e - b) (drop b (bytes m r))"
proof (cases "b \<ge> br_len r \<or> e \<le> b")
  case True
  moreover have "length (bytes m r) \<le> br_len r" by (simp add: bytes_def split: option.split)
  ultimately show ?thesis by (auto simp: br_slice_def br_null_def bytes_def)
next
  case False
  then show ?thesis
    by (cases "br_ptr r")
       (simp_all add: br_slice_def bytes_def drop_take min.commute add.commute min_def)
qed

lemma valid_slice: "br_valid m r \<Longrightarrow> br_valid m (br_slice b e r)"
  by (auto simp: br_valid_def br_slice_def br_null_def split: option.splits)

interpretation br_slices: sliceable "bytes m" "br_valid m" "\<lambda>pos len. br_slice pos (pos + len)" for m
  by unfold_locales (simp_all add: valid_slice bytes_slice)

lemma elems_slice:
  assumes "av_valid m v"
  shows "elems m (av_slice pos len v) = take len (drop pos (elems m v))"
proof -
  have l: "length (elems m v) \<le> av_size v" by (simp add: elems_def split: option.split)
  show ?thesis
  proof (cases "pos \<le> av_size v")
    case True
    then show ?thesis
      by (cases "av_data v") (simp_all add: av_slice_def av_sub_def elems_def drop_take add.commute)
  next
    case False
    then show ?thesis using l
      by (cases "av_data v") (simp_all add: av_slice_def av_sub_def elems_def)
  qed
qed

lemma av_valid_slice: "av_valid m v \<Longrightarrow> av_valid m (av_slice pos len v)"
  by (auto simp: av_valid_def av_slice_def av_sub_def Let_def min_def split: option.splits)

interpretation av_slices: sliceable "elems m" "av_valid m" av_slice for m
  by unfold_locales (simp_all add: av_valid_slice elems_slice)

lemma length_bytes: "br_valid m r \<Longrightarrow> length (bytes m r) = br_len r"
  by (auto simp: br_valid_def bytes_def split: option.splits)

text \<open>Cutting a valid buffer into consecutive slices of \<open>k\<close> bytes with \<open>slice_n\<close> loses and repeats
  nothing, as long as the positions stay below \<open>2 ^ 64\<close>.\<close>

theorem buffer_ref_chunks:
  assumes "br_valid m r" "n * k < 2 ^ 64"
  shows "concat (map (\<lambda>i. bytes m (br_slice_n (i * k) k r)) [0..<n]) = take (n * k) (bytes m r)"
proof -
  have "br_slice_n (i * k) k r = br_slice (i * k) (i * k + k) r" if "i < n" for i
  proof -
    have "i * k + k \<le> n * k" using that by (metis Suc_leI add.commute mult_Suc mult_le_mono1)
    then show ?thesis using assms(2) by (simp add: br_slice_n_def size_t_def)
  qed
  then have "map (\<lambda>i. bytes m (br_slice_n (i * k) k r)) [0..<n] =
      map (\<lambda>i. bytes m (br_slice (i * k) (i * k + k) r)) [0..<n]" by simp
  then show ?thesis using br_slices.chunks[OF assms(1), of k n] by (simp only:)
qed

theorem buffer_ref_chunks_witness:
  "concat (map (\<lambda>i. bytes ''hello world'' (br_slice_n (i * 2) 2 (br_at 6 5))) [0..<3]) = ''world''"
  using buffer_ref_chunks[of "''hello world''" "br_at 6 5" 3 2]
  by (simp add: br_valid_def br_at_def bytes_def)

text \<open>A length that makes \<open>pos + len\<close> wrap gives the empty slice instead of the rest of the buffer:
  \<open>slice_n(1, SIZE_MAX)\<close> of any buffer is empty, where \<open>array_view::slice\<close> with the same arguments
  gives everything but the first element.\<close>

theorem slice_n_wraps:
  assumes "av_valid m v"
  shows "br_slice_n 1 (2 ^ 64 - 1) r = br_null \<and> elems m (av_slice 1 (2 ^ 64 - 1) v) = tl (elems m v)"
proof -
  have "size_t (1 + (2 ^ 64 - 1)) = 0" by (simp add: size_t_def)
  moreover have "length (elems m v) < 2 ^ 64"
    using assms by (auto simp: av_valid_def elems_def split: option.splits)
  ultimately show ?thesis
    using elems_slice[OF assms, of 1 "2 ^ 64 - 1"] by (simp add: br_slice_n_def br_slice_def drop_Suc)
qed

theorem slice_n_wraps_witness:
  "br_slice_n 1 (2 ^ 64 - 1) (br_at 0 3) = br_null \<and>
   elems ''abc'' (av_slice 1 (2 ^ 64 - 1) (av_new 0 3)) = ''bc''"
  using slice_n_wraps[of "''abc''" "av_new 0 3" "br_at 0 3"]
  by (simp add: av_valid_def av_new_def size_t_def elems_def)

section \<open>Comparing and copying\<close>

text \<open>The order \<open>compare\<close> decides: unsigned bytes, first difference, then length.\<close>

fun byte_less :: "byte list \<Rightarrow> byte list \<Rightarrow> bool" where
  "byte_less xs [] = False"
| "byte_less [] (y # ys) = True"
| "byte_less (x # xs) (y # ys) = (x < y \<or> (x = y \<and> byte_less xs ys))"

lemma byte_less_Nil [simp]: "byte_less [] ys \<longleftrightarrow> ys \<noteq> []"
  by (cases ys) simp_all

lemma byte_less_trans: "byte_less xs ys \<Longrightarrow> byte_less ys zs \<Longrightarrow> byte_less xs zs"
proof (induction xs zs arbitrary: ys rule: byte_less.induct)
  case (3 x xs z zs)
  then show ?case by (cases ys) auto
qed auto

lemma compare_bytes:
  "(let n = min (length xs) (length ys); cmp = memcmp (take n xs) (take n ys)
    in if cmp \<noteq> 0 then cmp else if length xs > length ys then 1 else if length xs < length ys then -1 else (0 :: int)) =
   (if byte_less xs ys then -1 else if byte_less ys xs then 1 else 0)"
  by (induction xs ys rule: memcmp.induct) (auto simp: Let_def split: if_splits)

lemma byte_less_linear: "\<not> byte_less xs ys \<Longrightarrow> \<not> byte_less ys xs \<Longrightarrow> xs = ys"
proof (induction xs ys rule: byte_less.induct)
  case (3 x xs y ys)
  then show ?case by (metis byte_less.simps(3) linorder_neqE)
qed auto

lemma byte_less_irrefl: "\<not> byte_less xs xs"
  by (induction xs) auto

text \<open>\<open>compare\<close> is the lexicographic order of the unsigned bytes the two buffers hold: negative
  exactly when the first is below the second, positive exactly when it is above, 0 exactly when they
  hold the same bytes, wherever they point.\<close>

theorem buffer_compare:
  assumes "br_valid m a" "br_valid m b"
  shows "(br_compare m a b = -1 \<longleftrightarrow> byte_less (bytes m a) (bytes m b)) \<and>
    (br_compare m a b = 1 \<longleftrightarrow> byte_less (bytes m b) (bytes m a)) \<and>
    (br_equal m a b \<longleftrightarrow> bytes m a = bytes m b)"
proof -
  have "br_compare m a b = (if byte_less (bytes m a) (bytes m b) then -1
      else if byte_less (bytes m b) (bytes m a) then 1 else 0)"
    using compare_bytes[of "bytes m a" "bytes m b"] assms by (simp only: br_compare_def length_bytes)
  then show ?thesis
    using byte_less_linear[of "bytes m a" "bytes m b"] byte_less_trans[of "bytes m a" "bytes m b" "bytes m a"]
      byte_less_irrefl[of "bytes m a"] byte_less_irrefl[of "bytes m b"]
    by (auto simp: br_equal_def)
qed

theorem buffer_compare_witness:
  "br_compare [1, 255, 1, 2, 1] (br_at 0 2) (br_at 2 3) = 1"
proof -
  have v: "br_valid [1 :: byte, 255, 1, 2, 1] (br_at 0 2)" "br_valid [1 :: byte, 255, 1, 2, 1] (br_at 2 3)"
    by (simp_all add: br_valid_def br_at_def)
  have "byte_less (bytes [1, 255, 1, 2, 1] (br_at 2 3)) (bytes [1, 255, 1, 2, 1] (br_at 0 2))"
    by (simp add: bytes_def br_at_def)
  then show ?thesis using buffer_compare[OF v] by blast
qed


lemma overwrite_length: "a + length xs \<le> length m \<Longrightarrow> length (overwrite m a xs) = length m"
  by (simp add: overwrite_def)

lemma overwrite_outside: "a + length xs \<le> length m \<Longrightarrow> i < a \<or> a + length xs \<le> i \<Longrightarrow> overwrite m a xs ! i = m ! i"
  by (auto simp: overwrite_def nth_append)

lemma overwrite_read:
  "a + length xs \<le> length m \<Longrightarrow> length xs \<le> n \<Longrightarrow>
   take n (drop a (overwrite m a xs)) = xs @ take (n - length xs) (drop (a + length xs) m)"
  by (simp add: overwrite_def)

text \<open>C25: \<open>copy_from\<close> copies as many bytes as fit and reports their number; the rest of the destination
  and every byte outside of it keep their values. Only a destination that begins inside the source is
  excluded: there \<open>std::copy\<close> is undefined.\<close>

theorem copy_from_correct:
  assumes "br_valid m dst" "br_valid m src" "\<not> copy_overlaps dst src (min (br_len src) (br_len dst))"
  shows "\<exists>m'. br_copy_from m dst src = Inr (min (br_len src) (br_len dst), m') \<and> length m' = length m \<and>
    bytes m' dst = take (br_len dst) (bytes m src) @ drop (br_len src) (bytes m dst) \<and>
    (\<forall>i. br_ptr dst = None \<or> i < the (br_ptr dst) \<or> the (br_ptr dst) + br_len dst \<le> i \<longrightarrow> m' ! i = m ! i)"
proof -
  let ?n = "min (br_len src) (br_len dst)"
  have take: "take ?n (bytes m src) = take (br_len dst) (bytes m src)"
    using length_bytes[OF assms(2)] by (simp add: min_def)
  show ?thesis
  proof (cases "br_ptr dst")
    case None
    then show ?thesis using assms
      by (intro exI[of _ m]) (simp add: br_copy_from_def br_write_def bytes_def br_valid_def copy_overlaps_def)
  next
    case (Some a)
    let ?xs = "take (br_len dst) (bytes m src)"
    have n: "length ?xs = ?n" using length_bytes[OF assms(2)] by simp
    have a: "a + br_len dst \<le> length m" using assms(1) Some by (simp add: br_valid_def)
    then have b: "a + length ?xs \<le> length m" "length ?xs \<le> br_len dst" using n by simp_all
    have "bytes (overwrite m a ?xs) dst = ?xs @ drop (br_len src) (bytes m dst)"
    proof -
      have "take (br_len dst - length ?xs) (drop (a + length ?xs) m) = drop (br_len src) (take (br_len dst) (drop a m))"
        using n by (cases "br_len src \<le> br_len dst") (simp_all add: drop_take add.commute)
      then show ?thesis using overwrite_read[OF b] Some by (simp add: bytes_def)
    qed
    moreover have "\<forall>i. i < a \<or> a + br_len dst \<le> i \<longrightarrow> overwrite m a ?xs ! i = m ! i"
      using overwrite_outside[OF b(1)] b(2) by auto
    ultimately show ?thesis using assms(3) Some overwrite_length[OF b(1)]
      by (intro exI[of _ "overwrite m a ?xs"]) (simp add: br_copy_from_def br_write_def take)
  qed
qed

theorem copy_from_correct_witness:
  "\<exists>m'. br_copy_from ''abcdefg'' (br_at 0 3) (br_at 5 2) = Inr (2, m') \<and> bytes m' (br_at 0 3) = ''fgc''"
  using copy_from_correct[of "''abcdefg''" "br_at 0 3" "br_at 5 2"]
  by (auto simp: br_valid_def br_at_def copy_overlaps_def bytes_def)

end
