(* ===== verification/IoCopy.thy ===== *)
theory IoCopy
  imports StreamFind Buffers
begin

text \<open>
  Readers, writers and the copy between them: \<^verbatim>\<open>include/txl/io.h\<close>, \<^verbatim>\<open>size_policy.h\<close>, \<^verbatim>\<open>copy.h\<close>,
  \<^verbatim>\<open>io_buffer.h\<close>, \<^verbatim>\<open>stream_writer.h\<close> and \<^verbatim>\<open>read_string.h\<close>. The virtual functions \<open>read_impl\<close> and
  \<open>write_impl\<close> are arguments: \<open>read_impl s n\<close> gives the bytes stored into a buffer of \<open>n\<close> bytes (as many as
  it reports) and the next state, \<open>write_impl t bs\<close> the number of bytes taken, or an error. A size
  policy is a value of \<open>policy\<close>, with the classes of \<^verbatim>\<open>size_policy.h\<close> as constructors.
\<close>

section \<open>Size policies\<close>

datatype 'a policy =
    Exactly nat
  | AtMost nat bool
  | Until nat "'a stream_find"
  | OneOf "'a policy list"

definition policy_process :: "nat \<Rightarrow> nat \<Rightarrow> nat" where
  "policy_process v actual = (if actual \<ge> v then 0 else v - actual)"

fun pol_complete :: "'a policy \<Rightarrow> bool" where
  "pol_complete (Exactly v) = (v = 0)"
| "pol_complete (AtMost v eof) = (v = 0 \<or> eof)"
| "pol_complete (Until _ f) = sf_is_matched f"
| "pol_complete (OneOf ps) = list_ex pol_complete ps"

fun pol_value :: "'a policy \<Rightarrow> nat" where
  "pol_value (Exactly v) = v"
| "pol_value (AtMost v _) = v"
| "pol_value (Until v _) = v"
| "pol_value (OneOf ps) = min_list (map pol_value (rev ps))"

text \<open>The policies of a \<open>one_of\<close> are processed from the last to the first.\<close>

fun last_to_first :: "'a res option list \<Rightarrow> 'a list res option" where
  "last_to_first [] = Some (Inr [])"
| "last_to_first (x # xs) = run_bind (last_to_first xs) (\<lambda>ys. run_bind x (\<lambda>y. Some (Inr (y # ys))))"

fun pol_process :: "'a policy \<Rightarrow> nat \<Rightarrow> 'a list \<Rightarrow> 'a policy res option" where
  "pol_process (Exactly v) requested actual = Some (Inr (Exactly (policy_process v (length actual))))"
| "pol_process (AtMost v _) requested actual =
     Some (Inr (AtMost (policy_process v (length actual)) (requested > length actual)))"
| "pol_process (Until v f) requested actual = run_bind (sf_process f actual) (\<lambda>f'. Some (Inr (Until v f')))"
| "pol_process (OneOf ps) requested actual =
     run_bind (last_to_first (map (\<lambda>p. pol_process p requested actual) ps)) (\<lambda>ps'. Some (Inr (OneOf ps')))"

section \<open>Readers and writers\<close>

type_synonym ('s, 'a, 'e) read_impl = "'s \<Rightarrow> nat \<Rightarrow> ('e + 'a list) \<times> 's"
type_synonym ('t, 'a, 'e) write_impl = "'t \<Rightarrow> 'a list \<Rightarrow> ('e + nat) \<times> 't"

definition reader_read :: "('s, 'a, 'e) read_impl \<Rightarrow> 's \<Rightarrow> nat \<Rightarrow> ('e + 'a list) \<times> 's" where
  "reader_read ri s n = (case ri s n of (Inl e, s') \<Rightarrow> (Inl e, s') | (Inr bs, s') \<Rightarrow> (Inr (take n bs), s'))"

definition writer_write :: "('t, 'a, 'e) write_impl \<Rightarrow> 't \<Rightarrow> 'a list \<Rightarrow> ('e + 'a list) \<times> 't" where
  "writer_write wi t bs = (case wi t bs of (Inl e, t') \<Rightarrow> (Inl e, t') | (Inr n, t') \<Rightarrow> (Inr (take n bs), t'))"

definition lambda_write :: "('a list \<Rightarrow> 't \<Rightarrow> 't) \<Rightarrow> ('t, 'a, 'e) write_impl" where
  "lambda_write on_data t bs = (Inr (length bs), on_data bs t)"

text \<open>\<open>io_buffer\<close>: a vector that is read from its front and written at its end.\<close>

definition io_read :: "('a list, 'a, 'e) read_impl" where
  "io_read buf n = (let num_copied = min (length buf) n in (Inr (take num_copied buf), drop num_copied buf))"

definition io_write :: "('a list, 'a, 'e) write_impl" where
  "io_write buf src = (let buf' = buf @ src in (Inr (length buf' - length buf), buf'))"

definition stream_write :: "('a list, 'a, 'e) write_impl" where
  "stream_write os bs = (let os' = os @ bs in (Inr (length os' - length os), os'))"

section \<open>Copying\<close>

partial_function (option) copy_loop ::
  "('s, 'a, 'e) read_impl \<Rightarrow> ('t, 'a, 'e) write_impl \<Rightarrow> nat \<Rightarrow> 's \<Rightarrow> 't \<Rightarrow> 'a policy \<Rightarrow> nat \<Rightarrow>
   (('e + nat) \<times> 's \<times> 't) res option" where
  "copy_loop ri wi cap s t pol total_read =
     (if pol_complete pol then Some (Inr (Inr total_read, s, t))
      else let requested = min cap (pol_value pol)
        in case reader_read ri s requested of
             (Inl e, s') \<Rightarrow> Some (Inr (Inl e, s', t))
           | (Inr bs, s') \<Rightarrow>
               if bs = [] then Some (Inr (Inr total_read, s', t))
               else case writer_write wi t bs of
                 (Inl e, t') \<Rightarrow> Some (Inr (Inl e, s', t'))
               | (Inr written, t') \<Rightarrow>
                   Option.bind (pol_process pol requested written) (\<lambda>r.
                     case r of Inl u \<Rightarrow> Some (Inl u)
                     | Inr pol' \<Rightarrow> copy_loop ri wi cap s' t' pol' (total_read + length written)))"

declare copy_loop.simps [code]

definition copy_with ::
  "('s, 'a, 'e) read_impl \<Rightarrow> ('t, 'a, 'e) write_impl \<Rightarrow> nat \<Rightarrow> 's \<Rightarrow> 't \<Rightarrow> 'a policy \<Rightarrow>
   (('e + nat) \<times> 's \<times> 't) res option" where
  "copy_with ri wi cap s t pol = copy_loop ri wi cap s t pol 0"

definition copy_policy ::
  "('s, 'a, 'e) read_impl \<Rightarrow> ('t, 'a, 'e) write_impl \<Rightarrow> 's \<Rightarrow> 't \<Rightarrow> 'a policy \<Rightarrow> (('e + nat) \<times> 's \<times> 't) res option" where
  "copy_policy ri wi s t pol = copy_with ri wi 4096 s t pol"

definition copy_buffer ::
  "('s, 'a, 'e) read_impl \<Rightarrow> ('t, 'a, 'e) write_impl \<Rightarrow> nat \<Rightarrow> 's \<Rightarrow> 't \<Rightarrow> (('e + nat) \<times> 's \<times> 't) res option" where
  "copy_buffer ri wi cap s t = copy_with ri wi cap s t (Exactly cap)"

definition read_string :: "('s, 'a, 'e) read_impl \<Rightarrow> 's \<Rightarrow> 'a policy \<Rightarrow> (('e + 'a list) \<times> 's) res option" where
  "read_string ri s pol =
     run_bind (copy_policy ri stream_write s [] pol) (\<lambda>(r, s', ss).
       Some (Inr (case r of Inl e \<Rightarrow> (Inl e, s') | Inr _ \<Rightarrow> (Inr ss, s'))))"

definition read_string_n :: "('s, 'a, 'e) read_impl \<Rightarrow> 's \<Rightarrow> nat \<Rightarrow> (('e + 'a list) \<times> 's) res option" where
  "read_string_n ri s n = read_string ri s (Exactly n)"

section \<open>The contracts of readers and writers\<close>

text \<open>A source hands out its bytes in order, and none only when it has none or none was asked for. A sink
  takes every byte.\<close>

locale byte_source =
  fixes rd :: "('s, 'a, 'e) read_impl" and avail :: "'s \<Rightarrow> 'a list"
  assumes read_some: "\<exists>bs s'. rd s n = (Inr bs, s') \<and> avail s = bs @ avail s' \<and> length bs \<le> n \<and>
    (bs = [] \<longrightarrow> n = 0 \<or> avail s = [])"

locale byte_sink =
  fixes wr :: "('t, 'a, 'e) write_impl" and content :: "'t \<Rightarrow> 'a list"
  assumes write_all: "\<exists>t'. wr t bs = (Inr (length bs), t') \<and> content t' = content t @ bs"

locale transfer = byte_source rd avail + byte_sink wr content
  for rd :: "('s, 'a, 'e) read_impl" and avail and wr :: "('t, 'a, 'e) write_impl" and content
begin

lemma copy_exactly:
  assumes "0 < cap"
  shows "\<exists>s' t'. copy_loop rd wr cap s t (Exactly v) total_read =
      Some (Inr (Inr (total_read + min v (length (avail s))), s', t')) \<and>
    avail s' = drop v (avail s) \<and> content t' = content t @ take v (avail s)"
proof (induction v arbitrary: s t total_read rule: less_induct)
  case (less v)
  show ?case
  proof (cases "v = 0")
    case True
    then show ?thesis by (simp add: copy_loop.simps[of _ _ _ s t])
  next
    case False
    let ?n = "min cap v"
    obtain bs s' where r: "rd s ?n = (Inr bs, s')" "avail s = bs @ avail s'" "length bs \<le> ?n"
      "bs = [] \<longrightarrow> ?n = 0 \<or> avail s = []" using read_some by blast
    obtain t' where w: "wr t bs = (Inr (length bs), t')" "content t' = content t @ bs" using write_all by blast
    note step = copy_loop.simps[of rd wr cap s t "Exactly v" total_read]
    show ?thesis
    proof (cases "bs = []")
      case True
      then have "avail s = []" "avail s' = []" using r False assms by auto
      with True r False show ?thesis by (intro exI[of _ s'] exI[of _ t]) (simp add: step reader_read_def)
    next
      case ne: False
      let ?v = "policy_process v (length bs)"
      have v: "?v = v - length bs" "?v < v" using ne False by (auto simp: policy_process_def)
      from less[OF v(2), of s' t' "total_read + length bs"] obtain s2 t2 where
        "copy_loop rd wr cap s' t' (Exactly ?v) (total_read + length bs) =
          Some (Inr (Inr (total_read + length bs + min ?v (length (avail s'))), s2, t2))"
        "avail s2 = drop ?v (avail s')" "content t2 = content t' @ take ?v (avail s')" by blast
      moreover have "copy_loop rd wr cap s t (Exactly v) total_read =
          copy_loop rd wr cap s' t' (Exactly ?v) (total_read + length bs)"
        using r w False ne by (simp add: step reader_read_def writer_write_def)
      ultimately show ?thesis using r(2,3) w(2) v(1)
        by (intro exI[of _ s2] exI[of _ t2]) auto
    qed
  qed
qed

end

interpretation io_src: byte_source "io_read :: ('a list, 'a, 'e) read_impl" "\<lambda>b. b"
  by unfold_locales (auto simp: io_read_def Let_def min_def)

interpretation io_snk: byte_sink "io_write :: ('a list, 'a, 'e) write_impl" "\<lambda>b. b"
  by unfold_locales (simp add: io_write_def)

interpretation str_snk: byte_sink "stream_write :: ('a list, 'a, 'e) write_impl" "\<lambda>b. b"
  by unfold_locales (simp add: stream_write_def)

interpretation io_io: transfer "io_read :: ('a list, 'a, 'e) read_impl" "\<lambda>b. b" io_write "\<lambda>b. b" ..

interpretation io_str: transfer "io_read :: ('a list, 'a, 'e) read_impl" "\<lambda>b. b" stream_write "\<lambda>b. b" ..

section \<open>Properties\<close>

text \<open>C6: Copying exactly \<open>v\<close> bytes between two io buffers through a temporary buffer of any positive size
  ends, reports the bytes copied and moves just the first \<open>v\<close> bytes of the source (all of it when it is shorter)
  to the end of the destination, in order.\<close>

theorem copy_exactly_moves:
  assumes "0 < cap"
  shows "copy_with io_read io_write cap s t (Exactly v) =
    Some (Inr (Inr (min v (length s)), drop v s, t @ take v s))"
  using io_io.copy_exactly[OF assms, of s t v 0] by (auto simp: copy_with_def)

theorem copy_exactly_moves_witness:
  "copy_with io_read io_write 2 ''abcdef'' ''xy'' (Exactly 5) = Some (Inr (Inr 5, ''f'', ''xyabcde''))"
  using copy_exactly_moves[of 2 "''abcdef''" "''xy''" 5] by (simp add: eval_nat_numeral)

text \<open>\<open>read_string\<close> of \<open>n\<close> bytes returns the first \<open>n\<close> bytes of the reader and leaves the rest.\<close>

theorem read_string_prefix:
  "read_string_n io_read s n = Some (Inr (Inr (take n s) :: 'e + 'a list, drop n s))"
proof -
  obtain t' where "copy_loop io_read stream_write 4096 s [] (Exactly n) 0 =
      Some (Inr (Inr (min n (length s)) :: 'e + nat, drop n s, t'))" "t' = [] @ take n s"
    using io_str.copy_exactly[of 4096 s "[]" n 0] by auto
  then show ?thesis
    by (simp add: read_string_n_def read_string_def copy_policy_def copy_with_def run_bind_def)
qed

text \<open>A writer that takes one byte of what it is given.\<close>

definition short_write :: "('a list, 'a, 'e) write_impl" where
  "short_write t bs = (Inr (min 1 (length bs)), t @ take 1 bs)"

text \<open>The bytes that a short write does not take are lost: \<open>copy\<close> reads anew into its buffer instead of
  writing the rest. Four bytes are copied to a writer that takes one byte per call: the call ends without an
  error after one byte, and the source is empty.\<close>

theorem copy_short_write_loses:
  "copy_with io_read short_write 4096 ''abcd'' [] (Exactly 4) = Some (Inr (Inr 1, [], ''a'')) \<and>
   io_read ''abcd'' 4 = (Inr ''abcd'', [])"
proof
  show "copy_with io_read short_write 4096 ''abcd'' [] (Exactly 4) = Some (Inr (Inr 1, [], ''a''))"
    by (simp add: copy_with_def copy_loop.simps reader_read_def writer_write_def io_read_def short_write_def
        policy_process_def)
qed (simp add: io_read_def)

end
