(* ===== verification/Ownership.thy ===== *)
theory Ownership
  imports TxlPrelude "HOL-Library.Multiset"
begin

text \<open>
  Objects that own a resource, for the classes whose destructor gives one back: a file descriptor, a heap object, a mapping. \<open>res_of x\<close>
  is what the object \<open>x\<close> owns. The invariant: no resource has two owners, and what is live is what the objects own and what
  the rest of the program has. The classes are built from a few moves on the list of the objects, and each of them keeps the invariant.
\<close>

locale owner =
  fixes res_of :: "'o \<Rightarrow> 'r option"
begin

definition held :: "'o list \<Rightarrow> 'r list" where
  "held objs = List.map_filter res_of objs"

definition owned :: "'r set \<Rightarrow> 'o list \<Rightarrow> 'r set \<Rightarrow> bool" where
  "owned others objs live \<longleftrightarrow> distinct (held objs) \<and> set (held objs) \<inter> others = {} \<and> live = others \<union> set (held objs)"

lemma held_simps [simp]:
  "held [] = []" "held (x # xs) = (case res_of x of None \<Rightarrow> held xs | Some r \<Rightarrow> r # held xs)"
  "held (xs @ ys) = held xs @ held ys"
  by (auto simp: held_def List.map_filter_def split: option.split)

abbreviation bag :: "'o \<Rightarrow> 'r multiset" where
  "bag x \<equiv> (case res_of x of None \<Rightarrow> {#} | Some r \<Rightarrow> {#r#})"

lemma mset_held_del: "i < length objs \<Longrightarrow> mset (held objs) = bag (objs ! i) + mset (held (del_at i objs))"
  by (subst id_take_nth_drop[of i objs]) (auto simp: del_at_def split: option.split)

lemma mset_held_update: "i < length objs \<Longrightarrow> mset (held (objs[i := x])) = bag x + mset (held (del_at i objs))"
  using mset_held_del[of i "objs[i := x]"] by (simp add: del_at_def)

text \<open>Only the bag of the resources matters.\<close>

lemma owned_bag: "mset (held objs) = mset (held objs') \<Longrightarrow> owned others objs live \<longleftrightarrow> owned others objs' live"
  unfolding owned_def by (metis distinct_count_atmost_1 set_mset_mset)

lemma owned_nil: "owned others [] others"
  by (simp add: owned_def)

lemma owned_add: "res_of x = None \<Longrightarrow> owned others (objs @ [x]) live \<longleftrightarrow> owned others objs live"
  by (rule owned_bag) simp

lemma owned_same:
  "i < length objs \<Longrightarrow> res_of x = res_of (objs ! i) \<Longrightarrow> owned others (objs[i := x]) live \<longleftrightarrow> owned others objs live"
  using mset_held_del[of i objs] mset_held_update[of i objs x] by (intro owned_bag) simp

lemma owned_exchange:
  assumes "i < length objs" "j < length objs" "i \<noteq> j" "res_of x = res_of (objs ! j)" "res_of y = res_of (objs ! i)"
  shows "owned others (objs[i := x, j := y]) live \<longleftrightarrow> owned others objs live"
proof (rule owned_bag)
  let ?objs = "objs[i := x]"
  show "mset (held (?objs[j := y])) = mset (held objs)"
    using assms(4,5) mset_held_del[OF assms(1)] mset_held_update[OF assms(1), of x] mset_held_del[of j ?objs]
      mset_held_update[of j ?objs y] assms(2,3) by (simp add: ac_simps)
qed

lemma owned_live:
  assumes "owned others objs live" "i < length objs" "res_of (objs ! i) = Some r"
  shows "r \<in> live"
proof -
  have "r \<in># mset (held objs)" using mset_held_del[OF assms(2)] assms(3) by simp
  then show ?thesis using assms(1) by (simp add: owned_def)
qed

lemma owned_remove: "i < length objs \<Longrightarrow> res_of (objs ! i) = None \<Longrightarrow> owned others (del_at i objs) live \<longleftrightarrow> owned others objs live"
  using mset_held_del[of i objs] by (intro owned_bag) simp

lemma owned_acquire:
  assumes "i < length objs" "res_of (objs ! i) = None" "res_of x = Some r" "r \<notin> live" "owned others objs live"
  shows "owned others (objs[i := x]) (insert r live)"
proof -
  have m: "mset (held (objs[i := x])) = add_mset r (mset (held objs))"
    using mset_held_del[OF assms(1)] mset_held_update[OF assms(1), of x] assms(2,3) by simp
  then have "set (held (objs[i := x])) = insert r (set (held objs))" by (metis set_mset_add_mset_insert set_mset_mset)
  moreover have "distinct (held (objs[i := x]))"
    using m assms(4,5) unfolding owned_def distinct_count_atmost_1
    by (metis UnI2 count_add_mset distinct_count_atmost_1 mset_eq_setD set_mset_mset count_mset_0_iff One_nat_def le_zero_eq not_less_eq_eq)
  ultimately show ?thesis using assms(4,5) by (auto simp: owned_def)
qed

lemma owned_release:
  assumes "i < length objs" "res_of (objs ! i) = Some r" "res_of x = None" "owned others objs live"
  shows "owned others (objs[i := x]) (live - {r})"
proof -
  have m: "mset (held objs) = add_mset r (mset (held (objs[i := x])))"
    using mset_held_del[OF assms(1)] mset_held_update[OF assms(1), of x] assms(2,3) by simp
  then have s: "set (held objs) = insert r (set (held (objs[i := x])))" by (metis set_mset_add_mset_insert set_mset_mset)
  have "distinct (r # held (objs[i := x]))"
    using m assms(4) unfolding owned_def by (metis mset.simps(2) mset_eq_imp_distinct_iff)
  then show ?thesis using s assms(4) by (auto simp: owned_def)
qed

end

end
