(* ===== verification/SystemCalls.thy ===== *)
theory SystemCalls
  imports Ownership
begin

text \<open>
  \<^verbatim>\<open>include/txl/system_error.h\<close>, \<^verbatim>\<open>handle_error.h\<close>, \<^verbatim>\<open>error.h\<close>, \<^verbatim>\<open>file_base.h\<close> and \<^verbatim>\<open>pipe.h\<close>: system calls with their errors, and the
  objects that own a file descriptor. The kernel is a state of any type; each system call is a function on it that is an argument of
  what uses it, and so is \<^verbatim>\<open>errno\<close>. A \<open>result\<close> is the number of an error (\<open>Inl\<close>) or a value.
\<close>

type_synonym 'a sysres = "int + 'a"

text \<open>A 64-bit answer is narrowed when it is passed as an \<^verbatim>\<open>int\<close>.\<close>

definition as_int :: "int \<Rightarrow> int" where
  "as_int r = signed_take_bit 31 r"

definition handle_system_error :: "('k \<Rightarrow> int) \<Rightarrow> int \<Rightarrow> 'a \<Rightarrow> 'k \<Rightarrow> 'a sysres" where
  "handle_system_error errno r v k = (if as_int r = - 1 then Inl (errno k) else Inr v)"

definition EAGAIN :: int where "EAGAIN = 11"
definition EACCES :: int where "EACCES = 13"
definition EBUSY :: int where "EBUSY = 16"
definition EINVAL :: int where "EINVAL = 22"

definition is_unavailable :: "'a sysres \<Rightarrow> bool" where "is_unavailable r \<longleftrightarrow> r = Inl EAGAIN"
definition is_busy :: "'a sysres \<Rightarrow> bool" where "is_busy r \<longleftrightarrow> r = Inl EBUSY"

lemma as_int_small: "- (2 ^ 31) \<le> r \<Longrightarrow> r < 2 ^ 31 \<Longrightarrow> as_int r = r"
  by (simp add: as_int_def signed_take_bit_int_eq_self)

lemma as_int_minus_one: "as_int r = - 1 \<longleftrightarrow> r mod 2 ^ 32 = 2 ^ 32 - 1"
proof -
  have "as_int r = - 1 \<longleftrightarrow> take_bit 32 r = take_bit 32 (- 1)"
    using signed_take_bit_eq_iff_take_bit_eq[of 31 r "- 1"] by (simp add: as_int_def)
  also have "\<dots> \<longleftrightarrow> r mod 2 ^ 32 = 2 ^ 32 - 1" by (simp add: take_bit_eq_mod)
  finally show ?thesis .
qed

text \<open>The steps of a function that stops at the first error.\<close>

definition sys_seq :: "'a sysres \<times> 'k \<Rightarrow> ('a \<Rightarrow> 'k \<Rightarrow> 'b sysres \<times> 'k) \<Rightarrow> 'b sysres \<times> 'k" where
  "sys_seq x g = (case x of (Inl e, k) \<Rightarrow> (Inl e, k) | (Inr v, k) \<Rightarrow> g v k)"

lemma sys_seq_Inr: "sys_seq x g = (Inr v, k') \<longleftrightarrow> (\<exists>u k1. x = (Inr u, k1) \<and> g u k1 = (Inr v, k'))"
  by (auto simp: sys_seq_def split: prod.split sum.split)

section \<open>Owning a descriptor\<close>

text \<open>An object is its descriptor, \<open>-1\<close> when it is closed.\<close>

type_synonym 'k sys_close = "int \<Rightarrow> 'k \<Rightarrow> int \<times> 'k"

definition fb_new :: int where "fb_new = - 1"

definition fb_is_open :: "int \<Rightarrow> bool" where "fb_is_open f \<longleftrightarrow> f \<noteq> - 1"

definition fb_close :: "('k \<Rightarrow> int) \<Rightarrow> 'k sys_close \<Rightarrow> int \<Rightarrow> 'k \<Rightarrow> unit sysres \<times> int \<times> 'k" where
  "fb_close errno cl f k = (case cl f k of (r, k') \<Rightarrow> (handle_system_error errno r () k', - 1, k'))"

text \<open>The move constructor gives the new object and what is left of the old one.\<close>

definition fb_move :: "int \<Rightarrow> int \<times> int" where "fb_move f = (f, - 1)"

definition fb_destroy :: "('k \<Rightarrow> int) \<Rightarrow> 'k sys_close \<Rightarrow> int \<Rightarrow> 'k \<Rightarrow> 'k" where
  "fb_destroy errno cl f k = (if fb_is_open f then snd (snd (fb_close errno cl f k)) else k)"

text \<open>\<open>this = std::move(f)\<close> of two objects: what both hold afterwards.\<close>

definition fb_assign :: "('k \<Rightarrow> int) \<Rightarrow> 'k sys_close \<Rightarrow> int \<Rightarrow> int \<Rightarrow> 'k \<Rightarrow> (int \<times> int) \<times> 'k" where
  "fb_assign errno cl this f k =
     (let closed = (if fb_is_open this then snd (fb_close errno cl this k) else (this, k))
      in ((f, fst closed), snd closed))"

text \<open>What the classes that open a descriptor have in common: an object that is open is not opened again.\<close>

definition fb_open :: "('k \<Rightarrow> int) \<Rightarrow> ('k \<Rightarrow> int \<times> 'k) \<Rightarrow> int \<Rightarrow> int \<Rightarrow> 'k \<Rightarrow> unit sysres \<times> int \<times> 'k" where
  "fb_open errno opn busy f k =
     (if fb_is_open f then (Inl busy, f, k)
      else case opn k of (r, k') \<Rightarrow> (handle_system_error errno r () k', r, k'))"

section \<open>Pipes\<close>

text \<open>\<^verbatim>\<open>pipe2\<close> answers with its result and the two descriptors; the connector assigns the two new objects to its own, which are closed
  then.\<close>

definition pc_open :: "('k \<Rightarrow> int) \<Rightarrow> 'k sys_close \<Rightarrow> (int \<Rightarrow> 'k \<Rightarrow> int \<times> (int \<times> int) \<times> 'k) \<Rightarrow> int \<times> int \<Rightarrow> 'k \<Rightarrow>
    unit sysres \<times> (int \<times> int) \<times> 'k" where
  "pc_open errno cl pipe2 c k =
     (if fb_is_open (fst c) \<or> fb_is_open (snd c) then (Inl EBUSY, c, k)
      else case pipe2 0 k of (r, (a, b), k1) \<Rightarrow>
        (case handle_system_error errno r () k1 of
           Inl e \<Rightarrow> (Inl e, c, k1)
         | Inr u \<Rightarrow>
             (case fb_assign errno cl (fst c) a k1 of ((i, t1), k2) \<Rightarrow>
              case fb_assign errno cl (snd c) b (fb_destroy errno cl t1 k2) of ((j, t2), k3) \<Rightarrow>
                (Inr u, (i, j), fb_destroy errno cl t2 k3))))"

definition fb_read :: "('k \<Rightarrow> int) \<Rightarrow> (int \<Rightarrow> nat \<Rightarrow> 'k \<Rightarrow> int \<times> 8 word list \<times> 'k) \<Rightarrow> int \<Rightarrow> nat \<Rightarrow> 'k \<Rightarrow>
    nat sysres \<times> 8 word list \<times> 'k" where
  "fb_read errno rd f n k =
     (case rd f n k of (r, bs, k') \<Rightarrow> (handle_system_error errno r (nat (r mod 2 ^ 64)) k', bs, k'))"

definition fb_write :: "('k \<Rightarrow> int) \<Rightarrow> (int \<Rightarrow> 8 word list \<Rightarrow> 'k \<Rightarrow> int \<times> 'k) \<Rightarrow> int \<Rightarrow> 8 word list \<Rightarrow> 'k \<Rightarrow> nat sysres \<times> 'k" where
  "fb_write errno wr f buf k =
     (case wr f buf k of (r, k') \<Rightarrow> (handle_system_error errno r (nat (r mod 2 ^ 64)) k', k'))"

section \<open>Every descriptor has one owner\<close>

text \<open>A program that makes, opens, moves, assigns, closes and destroys objects; objects are numbered by their place in the list.\<close>

datatype 'a fd_op =
    FNew
  | FOpen nat 'a
  | FClose nat
  | FMove nat
  | FAssign nat nat
  | FDestroy nat

fun fd_step :: "('k \<Rightarrow> int) \<Rightarrow> ('a \<Rightarrow> 'k \<Rightarrow> int \<times> 'k) \<Rightarrow> 'k sys_close \<Rightarrow> 'a fd_op \<Rightarrow> int list \<times> 'k \<Rightarrow> int list \<times> 'k" where
  "fd_step errno opn cl FNew (objs, k) = (objs @ [fb_new], k)"
| "fd_step errno opn cl (FOpen i a) (objs, k) =
     (if i < length objs then case fb_open errno (opn a) EACCES (objs ! i) k of (_, f, k') \<Rightarrow> (objs[i := f], k') else (objs, k))"
| "fd_step errno opn cl (FClose i) (objs, k) =
     (if i < length objs then case fb_close errno cl (objs ! i) k of (_, f, k') \<Rightarrow> (objs[i := f], k') else (objs, k))"
| "fd_step errno opn cl (FMove i) (objs, k) =
     (if i < length objs then case fb_move (objs ! i) of (f, g) \<Rightarrow> (objs[i := g] @ [f], k) else (objs, k))"
| "fd_step errno opn cl (FAssign i j) (objs, k) =
     (if i < length objs \<and> j < length objs \<and> i \<noteq> j
      then case fb_assign errno cl (objs ! i) (objs ! j) k of ((f, g), k') \<Rightarrow> (objs[i := f, j := g], k') else (objs, k))"
| "fd_step errno opn cl (FDestroy i) (objs, k) =
     (if i < length objs then (del_at i objs, fb_destroy errno cl (objs ! i) k) else (objs, k))"

fun fd_run :: "('k \<Rightarrow> int) \<Rightarrow> ('a \<Rightarrow> 'k \<Rightarrow> int \<times> 'k) \<Rightarrow> 'k sys_close \<Rightarrow> 'a fd_op list \<Rightarrow> int list \<times> 'k \<Rightarrow> int list \<times> 'k" where
  "fd_run errno opn cl [] s = s"
| "fd_run errno opn cl (x # xs) s = fd_run errno opn cl xs (fd_step errno opn cl x s)"

text \<open>What is documented of the calls: a new descriptor was not open, and \<^verbatim>\<open>close\<close> frees its descriptor, with an error or
  without.\<close>

definition open_law :: "('k \<Rightarrow> int set) \<Rightarrow> ('a \<Rightarrow> 'k \<Rightarrow> int \<times> 'k) \<Rightarrow> bool" where
  "open_law fds opn \<longleftrightarrow> (\<forall>a k. (fst (opn a k) = - 1 \<and> fds (snd (opn a k)) = fds k) \<or>
     (0 \<le> fst (opn a k) \<and> fst (opn a k) \<notin> fds k \<and> fds (snd (opn a k)) = insert (fst (opn a k)) (fds k)))"

definition close_law :: "('k \<Rightarrow> int set) \<Rightarrow> 'k sys_close \<Rightarrow> bool" where
  "close_law fds cl \<longleftrightarrow> (\<forall>f k. fds (snd (cl f k)) = fds k - {f})"

text \<open>What a file object owns; the moves on the list of the objects are those of the locale.\<close>

definition fd_res :: "int \<Rightarrow> int option" where
  "fd_res f = (if fb_is_open f then Some f else None)"

interpretation fd: owner fd_res .

lemma fd_res_simps [simp]: "fd_res (- 1) = None" "fd_res f = Some g \<longleftrightarrow> f = g \<and> fb_is_open f" "fd_res f = None \<longleftrightarrow> f = - 1"
  by (auto simp: fd_res_def fb_is_open_def)

lemma fd_held: "fd.held objs = filter fb_is_open objs"
proof (induction objs)
  case (Cons f objs)
  then show ?case by (cases "fb_is_open f") (simp_all add: fb_is_open_def split: option.split)
qed simp

text \<open>Destroying or closing an object gives its descriptor back, if it has one.\<close>

lemma fd_destroy:
  assumes "close_law fds cl" "fd.owned others objs (fds k)" "i < length objs"
  shows "fd.owned others (objs[i := - 1]) (fds (fb_destroy errno cl (objs ! i) k))"
proof (cases "fb_is_open (objs ! i)")
  case True
  then have "fds (fb_destroy errno cl (objs ! i) k) = fds k - {objs ! i}"
    using assms(1) by (simp add: fb_destroy_def fb_close_def close_law_def split_beta)
  then show ?thesis using fd.owned_release[OF assms(3) _ _ assms(2), of "objs ! i" "- 1"] True by simp
next
  case False
  then show ?thesis
    using assms(2,3) fd.owned_same[of i objs "- 1"] by (simp add: fb_destroy_def fb_is_open_def)
qed

lemma fd_close:
  assumes "close_law fds cl" "- 1 \<notin> others" "fd.owned others objs (fds k)" "i < length objs"
  shows "fd.owned others (objs[i := - 1]) (fds (snd (snd (fb_close errno cl (objs ! i) k))))"
proof (cases "fb_is_open (objs ! i)")
  case True
  then show ?thesis using fd_destroy[OF assms(1,3,4), of errno] by (simp add: fb_destroy_def)
next
  case False
  have "- 1 \<notin> fds k" using assms(2,3) by (auto simp: fd.owned_def fd_held fb_is_open_def)
  then have "fds (snd (snd (fb_close errno cl (objs ! i) k))) = fds k"
    using assms(1) False by (simp add: close_law_def fb_close_def fb_is_open_def split_beta)
  then show ?thesis using assms(3,4) False fd.owned_same[of i objs "- 1"] by (simp add: fb_is_open_def)
qed

lemma fd_open:
  assumes "open_law fds opn" "fd.owned others objs (fds k)" "i < length objs" "objs ! i = - 1" "opn a k = (r, k')"
  shows "fd.owned others (objs[i := r]) (fds k')"
proof -
  have "r = - 1 \<and> fds k' = fds k \<or> 0 \<le> r \<and> r \<notin> fds k \<and> fds k' = insert r (fds k)"
    using assms(1,5) unfolding open_law_def by (metis fst_conv snd_conv)
  then show ?thesis
  proof
    assume "r = - 1 \<and> fds k' = fds k"
    then show ?thesis using assms(2-4) by (simp add: fd.owned_same)
  next
    assume r: "0 \<le> r \<and> r \<notin> fds k \<and> fds k' = insert r (fds k)"
    then have "fd_res r = Some r" by (auto simp: fb_is_open_def)
    then show ?thesis using fd.owned_acquire[OF assms(3) _ _ _ assms(2), of r r] r assms(4) by simp
  qed
qed

text \<open>The assignment is a release of the destination and an exchange.\<close>

lemma fb_assign_eq: "fb_assign errno cl a b k = ((b, - 1), fb_destroy errno cl a k)"
  by (auto simp: fb_assign_def fb_destroy_def fb_close_def fb_is_open_def split_beta)

lemma owned_step:
  assumes "open_law fds opn" "close_law fds cl" "- 1 \<notin> others" "fd.owned others objs (fds k)"
    and "fd_step errno opn cl x (objs, k) = (objs', k')"
  shows "fd.owned others objs' (fds k')"
proof (cases x)
  case FNew
  then show ?thesis using assms(4,5) by (auto simp: fb_new_def fd.owned_add)
next
  case (FOpen i a)
  obtain r k1 where "opn a k = (r, k1)" by force
  then show ?thesis
    using assms(4,5) FOpen fd_open[OF assms(1,4), of i a r k1]
    by (auto simp: fb_open_def fb_is_open_def split: if_splits)
next
  case (FClose i)
  then show ?thesis using assms(4,5) fd_close[OF assms(2-4), of i errno] by (auto simp: fb_close_def split_beta split: if_splits)
next
  case (FMove i)
  show ?thesis
  proof (cases "i < length objs")
    case True
    have "fd.owned others ((objs @ [- 1])[i := - 1, length objs := objs ! i]) (fds k)"
      using True assms(4) by (subst fd.owned_exchange) (simp_all add: nth_append fd.owned_add)
    then show ?thesis using assms(5) FMove True by (auto simp: fb_move_def list_update_append)
  qed (use assms(4,5) FMove in auto)
next
  case (FAssign i j)
  show ?thesis
  proof (cases "i < length objs \<and> j < length objs \<and> i \<noteq> j")
    case True
    have "fd.owned others (objs[i := - 1, i := objs ! j, j := - 1]) (fds (fb_destroy errno cl (objs ! i) k))"
      using True fd_destroy[OF assms(2,4), of i errno] by (subst fd.owned_exchange) simp_all
    then show ?thesis using assms(5) FAssign True by (auto simp: fb_assign_eq)
  qed (use assms(4,5) FAssign in \<open>auto split: if_splits\<close>)
next
  case (FDestroy i)
  show ?thesis
  proof (cases "i < length objs")
    case True
    then have "fd.owned others (del_at i (objs[i := - 1])) (fds (fb_destroy errno cl (objs ! i) k))"
      using fd_destroy[OF assms(2,4), of i errno] by (subst fd.owned_remove) simp_all
    then show ?thesis using assms(5) FDestroy True by (simp add: del_at_def)
  qed (use assms(4,5) FDestroy in auto)
qed

lemma owned_run:
  assumes "open_law fds opn" "close_law fds cl" "- 1 \<notin> others"
  shows "fd.owned others (fst s) (fds (snd s)) \<Longrightarrow>
    fd.owned others (fst (fd_run errno opn cl xs s)) (fds (snd (fd_run errno opn cl xs s)))"
proof (induction xs arbitrary: s)
  case (Cons x xs)
  have "fd.owned others (fst (fd_step errno opn cl x s)) (fds (snd (fd_step errno opn cl x s)))"
    using owned_step[OF assms Cons.prems, of errno x] by (cases "fd_step errno opn cl x s") simp
  then show ?case using Cons.IH by simp
qed simp

text \<open>C28: Whatever a program does with its objects, no two of them hold the same descriptor, and the descriptors that are open are those
  of the rest of the program and those the objects hold: none is leaked, none is closed twice, and no other descriptor is closed.\<close>

theorem descriptors_have_one_owner:
  assumes "open_law fds opn" "close_law fds cl" "- 1 \<notin> fds k"
  shows "case fd_run errno opn cl xs ([], k) of (objs, k') \<Rightarrow>
    distinct (filter fb_is_open objs) \<and> fds k \<inter> set (filter fb_is_open objs) = {} \<and>
    fds k' = fds k \<union> set (filter fb_is_open objs)"
  using owned_run[OF assms, of "([], k)" errno xs]
  by (auto simp: fd.owned_nil fd.owned_def fd_held split: prod.split)

text \<open>A kernel that is the list of its open descriptors.\<close>

definition list_open :: "unit \<Rightarrow> int list \<Rightarrow> int \<times> int list" where
  "list_open a k = (let r = foldr max k 2 + 1 in (r, r # k))"

definition list_close :: "int list sys_close" where
  "list_close f k = (0, filter (\<lambda>g. g \<noteq> f) k)"

lemma le_foldr_max: "f \<in> set k \<Longrightarrow> f \<le> foldr max k (n :: int)" "n \<le> foldr max k n"
  by (induction k) (auto simp: le_max_iff_disj)

lemma list_laws: "open_law set list_open" "close_law set list_close"
proof -
  have "0 \<le> foldr max k 2 + (1 :: int)" "foldr max k 2 + (1 :: int) \<notin> set k" for k
    using le_foldr_max(2)[of 2 k] le_foldr_max(1)[of "foldr max k 2 + 1" k 2] by auto
  then show "open_law set list_open" by (simp add: open_law_def list_open_def Let_def)
  show "close_law set list_close" by (auto simp: close_law_def list_close_def)
qed

theorem descriptors_have_one_owner_witness:
  "case fd_run (\<lambda>_. 0) list_open list_close [FNew, FOpen 0 (), FMove 0, FOpen 0 (), FAssign 0 1, FDestroy 1] ([], [0, 1, 2]) of
     (objs, k') \<Rightarrow> distinct (filter fb_is_open objs) \<and> set [0, 1, 2] \<inter> set (filter fb_is_open objs) = {} \<and>
       set k' = set [0, 1, 2] \<union> set (filter fb_is_open objs)"
  by (rule descriptors_have_one_owner[OF list_laws]) simp

end
