(* ===== verification/Sockets.thy ===== *)
theory Sockets
  imports SystemCalls
begin

text \<open>
  \<^verbatim>\<open>include/txl/socket_address.h\<close>, \<^verbatim>\<open>socket_option.h\<close>, \<^verbatim>\<open>socket.h\<close> and \<^verbatim>\<open>multicast_socket.h\<close>: addresses in network byte order on a
  little-endian machine, and the calls on a socket, which is an owned descriptor. The system calls and \<^verbatim>\<open>inet_addr\<close> are arguments. An
  address, a flag and an option are what the kernel is given; constants have their numbers on Linux.
\<close>

section \<open>Addresses\<close>

record socket_address =
  s_addr :: "32 word"
  sin_port :: "16 word"

definition INADDR_NONE :: "32 word" where "INADDR_NONE = 0xFFFFFFFF"
definition INADDR_ANY :: "32 word" where "INADDR_ANY = 0"

definition htons :: "16 word \<Rightarrow> 16 word" where
  "htons p = or (push_bit 8 p) (drop_bit 8 p)"

definition sa_new :: socket_address where
  "sa_new = \<lparr>s_addr = INADDR_NONE, sin_port = 0\<rparr>"

definition sa_of_port :: "16 word \<Rightarrow> socket_address" where
  "sa_of_port port = \<lparr>s_addr = INADDR_ANY, sin_port = htons port\<rparr>"

definition sa_of_ip :: "(string \<Rightarrow> 32 word) \<Rightarrow> string \<Rightarrow> 16 word \<Rightarrow> socket_address" where
  "sa_of_ip inet_addr ip port = \<lparr>s_addr = inet_addr ip, sin_port = htons port\<rparr>"

definition sa_port :: "socket_address \<Rightarrow> 16 word" where
  "sa_port a = htons (sin_port a)"

definition sa_eq :: "socket_address \<Rightarrow> socket_address \<Rightarrow> bool" where
  "sa_eq a b \<longleftrightarrow> (s_addr a = s_addr b \<and> sin_port a = sin_port b) \<or> (s_addr a = INADDR_NONE \<and> s_addr b = INADDR_NONE)"

definition sa_neq :: "socket_address \<Rightarrow> socket_address \<Rightarrow> bool" where
  "sa_neq a b \<longleftrightarrow> \<not> sa_eq a b"

lemma htons_htons [simp]: "htons (htons p) = p"
proof (rule bit_word_eqI)
  fix n assume "n < LENGTH(16)"
  then show "bit (htons (htons p)) n \<longleftrightarrow> bit p n"
    by (auto simp: htons_def bit_simps)
qed

text \<open>The port of an address is the one it was made with; equality is an equivalence, in which all invalid addresses are equal
  whatever their port.\<close>

lemma sa_port_of: "sa_port (sa_of_port p) = p" "sa_port (sa_of_ip f ip p) = p"
  by (simp_all add: sa_port_def sa_of_port_def sa_of_ip_def)

lemma sa_eq_equivalence:
  "sa_eq a a" "sa_eq a b \<Longrightarrow> sa_eq b a" "sa_eq a b \<Longrightarrow> sa_eq b c \<Longrightarrow> sa_eq a c"
  by (auto simp: sa_eq_def)

lemma sa_eq_iff: "s_addr a \<noteq> INADDR_NONE \<Longrightarrow> sa_eq a b \<longleftrightarrow> a = b"
  by (auto simp: sa_eq_def)

section \<open>Options\<close>

record sock_opt =
  level :: int
  opt_name :: int

definition so_linger :: sock_opt where "so_linger = \<lparr>level = 1, opt_name = 13\<rparr>"
definition so_recv_timeout :: sock_opt where "so_recv_timeout = \<lparr>level = 1, opt_name = 20\<rparr>"
definition so_send_timeout :: sock_opt where "so_send_timeout = \<lparr>level = 1, opt_name = 21\<rparr>"
definition so_join_multicast :: sock_opt where "so_join_multicast = \<lparr>level = 0, opt_name = 35\<rparr>"
definition so_leave_multicast :: sock_opt where "so_leave_multicast = \<lparr>level = 0, opt_name = 36\<rparr>"
definition so_reuse_address :: sock_opt where "so_reuse_address = \<lparr>level = 1, opt_name = 2\<rparr>"
definition so_reuse_port :: sock_opt where "so_reuse_port = \<lparr>level = 1, opt_name = 15\<rparr>"

definition get_option :: "('k \<Rightarrow> int) \<Rightarrow> (int \<Rightarrow> int \<Rightarrow> int \<Rightarrow> 'k \<Rightarrow> int \<times> 't \<times> 'k) \<Rightarrow> int \<Rightarrow> sock_opt \<Rightarrow> 'k \<Rightarrow> 't sysres \<times> 'k" where
  "get_option errno getsockopt f opt k =
     (case getsockopt f (level opt) (opt_name opt) k of (r, v, k') \<Rightarrow> (handle_system_error errno r v k', k'))"

definition set_option :: "('k \<Rightarrow> int) \<Rightarrow> (int \<Rightarrow> int \<Rightarrow> int \<Rightarrow> 't \<Rightarrow> 'k \<Rightarrow> int \<times> 'k) \<Rightarrow> int \<Rightarrow> sock_opt \<Rightarrow> 't \<Rightarrow> 'k \<Rightarrow> unit sysres \<times> 'k" where
  "set_option errno setsockopt f opt v k =
     (case setsockopt f (level opt) (opt_name opt) v k of (r, k') \<Rightarrow> (handle_system_error errno r () k', k'))"

section \<open>Calls on a socket\<close>

text \<open>\<open>open(af, t, protocol)\<close>.\<close>

definition so_open :: "('k \<Rightarrow> int) \<Rightarrow> (int \<Rightarrow> int \<Rightarrow> int \<Rightarrow> 'k \<Rightarrow> int \<times> 'k) \<Rightarrow> int \<Rightarrow> int \<Rightarrow> int \<Rightarrow> int \<Rightarrow> 'k \<Rightarrow> unit sysres \<times> int \<times> 'k" where
  "so_open errno sys_socket af t protocol = fb_open errno (sys_socket af t protocol) EBUSY"

definition so_new :: "('k \<Rightarrow> int) \<Rightarrow> (int \<Rightarrow> int \<Rightarrow> int \<Rightarrow> 'k \<Rightarrow> int \<times> 'k) \<Rightarrow> int \<Rightarrow> int \<Rightarrow> int \<Rightarrow> 'k \<Rightarrow> int sysres \<times> 'k" where
  "so_new errno sys_socket af t protocol k =
     (case so_open errno sys_socket af t protocol fb_new k of (Inl e, f, k') \<Rightarrow> (Inl e, k') | (Inr u, f, k') \<Rightarrow> (Inr f, k'))"

definition tcp_open :: "('k \<Rightarrow> int) \<Rightarrow> (int \<Rightarrow> int \<Rightarrow> int \<Rightarrow> 'k \<Rightarrow> int \<times> 'k) \<Rightarrow> int \<Rightarrow> 'k \<Rightarrow> unit sysres \<times> int \<times> 'k" where
  "tcp_open errno sys_socket = so_open errno sys_socket 2 1 0"

definition tcp_new :: "('k \<Rightarrow> int) \<Rightarrow> (int \<Rightarrow> int \<Rightarrow> int \<Rightarrow> 'k \<Rightarrow> int \<times> 'k) \<Rightarrow> bool \<Rightarrow> 'k \<Rightarrow> int sysres \<times> 'k" where
  "tcp_new errno sys_socket open_socket k =
     (if open_socket
      then (case tcp_open errno sys_socket fb_new k of (Inl e, f, k') \<Rightarrow> (Inl e, k') | (Inr u, f, k') \<Rightarrow> (Inr f, k'))
      else (Inr fb_new, k))"

definition multicast_open :: "('k \<Rightarrow> int) \<Rightarrow> (int \<Rightarrow> int \<Rightarrow> int \<Rightarrow> 'k \<Rightarrow> int \<times> 'k) \<Rightarrow> int \<Rightarrow> 'k \<Rightarrow> unit sysres \<times> int \<times> 'k" where
  "multicast_open errno sys_socket = so_open errno sys_socket 2 2 0"

text \<open>The request of a group: its address and the interface.\<close>

definition join_multicast :: "('k \<Rightarrow> int) \<Rightarrow> (int \<Rightarrow> int \<Rightarrow> int \<Rightarrow> 32 word \<times> 32 word \<Rightarrow> 'k \<Rightarrow> int \<times> 'k) \<Rightarrow> int \<Rightarrow> socket_address \<Rightarrow> 'k \<Rightarrow>
    unit sysres \<times> 'k" where
  "join_multicast errno setsockopt f a = set_option errno setsockopt f so_join_multicast (s_addr a, INADDR_ANY)"

definition leave_multicast :: "('k \<Rightarrow> int) \<Rightarrow> (int \<Rightarrow> int \<Rightarrow> int \<Rightarrow> 32 word \<times> 32 word \<Rightarrow> 'k \<Rightarrow> int \<times> 'k) \<Rightarrow> int \<Rightarrow> socket_address \<Rightarrow> 'k \<Rightarrow>
    unit sysres \<times> 'k" where
  "leave_multicast errno setsockopt f a = set_option errno setsockopt f so_leave_multicast (s_addr a, INADDR_ANY)"

text \<open>A result turned into the bytes of the buffer it counts.\<close>

definition sliced :: "('k \<Rightarrow> int) \<Rightarrow> int \<Rightarrow> 8 word list \<Rightarrow> 'k \<Rightarrow> 8 word list sysres" where
  "sliced errno r buf k =
     (case handle_system_error errno r () k of Inl e \<Rightarrow> Inl e | Inr u \<Rightarrow> Inr (take (nat (r mod 2 ^ 64)) buf))"

text \<open>\<open>read(buf, f)\<close>: the result, the buffer afterwards and the kernel; \<open>recv_from\<close> also fills in the address of the sender.\<close>

definition so_read :: "('k \<Rightarrow> int) \<Rightarrow> (int \<Rightarrow> nat \<Rightarrow> int \<Rightarrow> 'k \<Rightarrow> int \<times> 8 word list \<times> 'k) \<Rightarrow> int \<Rightarrow> 8 word list \<Rightarrow> int \<Rightarrow> 'k \<Rightarrow>
    8 word list sysres \<times> 8 word list \<times> 'k" where
  "so_read errno recv f buf flags k =
     (case recv f (length buf) flags k of (r, bs, k') \<Rightarrow>
        let buf' = bs @ drop (length bs) buf in (sliced errno r buf' k', buf', k'))"

definition so_recv_from :: "('k \<Rightarrow> int) \<Rightarrow> (int \<Rightarrow> nat \<Rightarrow> int \<Rightarrow> 'k \<Rightarrow> int \<times> 8 word list \<times> socket_address \<times> 'k) \<Rightarrow> int \<Rightarrow> 8 word list \<Rightarrow>
    int \<Rightarrow> 'k \<Rightarrow> 8 word list sysres \<times> 8 word list \<times> socket_address \<times> 'k" where
  "so_recv_from errno recvfrom f buf flags k =
     (case recvfrom f (length buf) flags k of (r, bs, src, k') \<Rightarrow>
        let buf' = bs @ drop (length bs) buf in (sliced errno r buf' k', buf', src, k'))"

definition so_write :: "('k \<Rightarrow> int) \<Rightarrow> (int \<Rightarrow> 8 word list \<Rightarrow> int \<Rightarrow> 'k \<Rightarrow> int \<times> 'k) \<Rightarrow> int \<Rightarrow> 8 word list \<Rightarrow> int \<Rightarrow> 'k \<Rightarrow>
    8 word list sysres \<times> 'k" where
  "so_write errno send f buf flags k = (case send f buf flags k of (r, k') \<Rightarrow> (sliced errno r buf k', k'))"

definition so_send_to :: "('k \<Rightarrow> int) \<Rightarrow> (int \<Rightarrow> 8 word list \<Rightarrow> int \<Rightarrow> socket_address \<Rightarrow> 'k \<Rightarrow> int \<times> 'k) \<Rightarrow> int \<Rightarrow> 8 word list \<Rightarrow>
    socket_address \<Rightarrow> int \<Rightarrow> 'k \<Rightarrow> 8 word list sysres \<times> 'k" where
  "so_send_to errno sendto f buf dst flags k = (case sendto f buf flags dst k of (r, k') \<Rightarrow> (sliced errno r buf k', k'))"

text \<open>What the reader and the writer see of a socket: sizes.\<close>

definition so_read_impl :: "('k \<Rightarrow> int) \<Rightarrow> (int \<Rightarrow> nat \<Rightarrow> int \<Rightarrow> 'k \<Rightarrow> int \<times> 8 word list \<times> 'k) \<Rightarrow> int \<Rightarrow> 8 word list \<Rightarrow> 'k \<Rightarrow>
    nat sysres \<times> 8 word list \<times> 'k" where
  "so_read_impl errno recv f buf k =
     (case so_read errno recv f buf 0 k of (r, buf', k') \<Rightarrow> (case r of Inl e \<Rightarrow> Inl e | Inr bs \<Rightarrow> Inr (length bs), buf', k'))"

definition so_write_impl :: "('k \<Rightarrow> int) \<Rightarrow> (int \<Rightarrow> 8 word list \<Rightarrow> int \<Rightarrow> 'k \<Rightarrow> int \<times> 'k) \<Rightarrow> int \<Rightarrow> 8 word list \<Rightarrow> 'k \<Rightarrow> nat sysres \<times> 'k" where
  "so_write_impl errno send f buf k =
     (case so_write errno send f buf 0 k of (r, k') \<Rightarrow> (case r of Inl e \<Rightarrow> Inl e | Inr bs \<Rightarrow> Inr (length bs), k'))"

text \<open>\<open>connect\<close> and \<open>bind\<close>; \<open>shutdown\<close> in both directions; \<open>listen\<close>.\<close>

definition so_connect :: "('k \<Rightarrow> int) \<Rightarrow> (int \<Rightarrow> socket_address \<Rightarrow> 'k \<Rightarrow> int \<times> 'k) \<Rightarrow> int \<Rightarrow> socket_address \<Rightarrow> 'k \<Rightarrow> unit sysres \<times> 'k" where
  "so_connect errno sys_connect f a k = (case sys_connect f a k of (r, k') \<Rightarrow> (handle_system_error errno r () k', k'))"

definition so_bind :: "('k \<Rightarrow> int) \<Rightarrow> (int \<Rightarrow> socket_address \<Rightarrow> 'k \<Rightarrow> int \<times> 'k) \<Rightarrow> int \<Rightarrow> socket_address \<Rightarrow> 'k \<Rightarrow> unit sysres \<times> 'k" where
  "so_bind errno sys_bind f a k = (case sys_bind f a k of (r, k') \<Rightarrow> (handle_system_error errno r () k', k'))"

definition so_shutdown :: "('k \<Rightarrow> int) \<Rightarrow> (int \<Rightarrow> int \<Rightarrow> 'k \<Rightarrow> int \<times> 'k) \<Rightarrow> int \<Rightarrow> 'k \<Rightarrow> unit sysres \<times> 'k" where
  "so_shutdown errno sys_shutdown f k = (case sys_shutdown f 2 k of (r, k') \<Rightarrow> (handle_system_error errno r () k', k'))"

definition so_listen :: "('k \<Rightarrow> int) \<Rightarrow> (int \<Rightarrow> int \<Rightarrow> 'k \<Rightarrow> int \<times> 'k) \<Rightarrow> int \<Rightarrow> int \<Rightarrow> 'k \<Rightarrow> unit sysres \<times> 'k" where
  "so_listen errno sys_listen f backlog k = (case sys_listen f backlog k of (r, k') \<Rightarrow> (handle_system_error errno r () k', k'))"

text \<open>\<open>accept\<close>: the new socket, and the address of the peer.\<close>

definition so_accept :: "('k \<Rightarrow> int) \<Rightarrow> (int \<Rightarrow> int \<Rightarrow> 'k \<Rightarrow> int \<times> socket_address \<times> 'k) \<Rightarrow> int \<Rightarrow> int \<Rightarrow> 'k \<Rightarrow>
    int sysres \<times> socket_address \<times> 'k" where
  "so_accept errno accept4 f flags k =
     (case accept4 f flags k of (r, a, k') \<Rightarrow>
        (case handle_system_error errno r () k' of Inl e \<Rightarrow> Inl e | Inr u \<Rightarrow> Inr (as_int r), a, k'))"

definition so_get_address :: "('k \<Rightarrow> int) \<Rightarrow> (int \<Rightarrow> 'k \<Rightarrow> int \<times> socket_address \<times> 'k) \<Rightarrow> int \<Rightarrow> 'k \<Rightarrow> socket_address sysres \<times> 'k" where
  "so_get_address errno getname f k = (case getname f k of (r, a, k') \<Rightarrow> (handle_system_error errno r a k', k'))"

definition O_NONBLOCK :: int where "O_NONBLOCK = 2048"

definition set_nonblocking :: "('k \<Rightarrow> int) \<Rightarrow> (int \<Rightarrow> int \<Rightarrow> int \<Rightarrow> 'k \<Rightarrow> int \<times> 'k) \<Rightarrow> int \<Rightarrow> bool \<Rightarrow> 'k \<Rightarrow> unit sysres \<times> 'k" where
  "set_nonblocking errno fcntl f v k =
     (case fcntl f 3 0 k of (cur_flags, k1) \<Rightarrow>
        (case handle_system_error errno cur_flags () k1 of
           Inl e \<Rightarrow> (Inl e, k1)
         | Inr u \<Rightarrow>
             (case fcntl f 4 (if v then or cur_flags O_NONBLOCK else and cur_flags (not O_NONBLOCK)) k1 of
                (r, k2) \<Rightarrow> (handle_system_error errno r () k2, k2))))"

section \<open>What the calls give\<close>

lemma so_read_bytes:
  assumes "recv f (length buf) flags k = (int (length bs), bs, k')" "length bs \<le> length buf" "length bs < 2 ^ 31"
  shows "so_read errno recv f buf flags k = (Inr bs, bs @ drop (length bs) buf, k')"
  using assms as_int_small[of "int (length bs)"] by (simp add: so_read_def sliced_def handle_system_error_def)

lemma so_write_bytes:
  assumes "send f buf flags k = (int n, k')" "n \<le> length buf" "n < 2 ^ 31"
  shows "so_write errno send f buf flags k = (Inr (take n buf), k')"
  using assms as_int_small[of "int n"] by (simp add: so_write_def sliced_def handle_system_error_def)

text \<open>Setting and clearing the flag changes no other flag.\<close>

lemma nonblocking_flags:
  "bit (or c O_NONBLOCK) n \<longleftrightarrow> n = 11 \<or> bit c n" "bit (and c (not O_NONBLOCK)) n \<longleftrightarrow> n \<noteq> 11 \<and> bit c n"
proof -
  have "bit (push_bit 11 (1 :: int)) n \<longleftrightarrow> n = 11" by (subst bit_push_bit_iff_int) (auto simp: bit_1_iff)
  moreover have "O_NONBLOCK = push_bit 11 1" by (simp add: O_NONBLOCK_def push_bit_eq_mult)
  ultimately have "bit O_NONBLOCK n \<longleftrightarrow> n = 11" by metis
  then show "bit (or c O_NONBLOCK) n \<longleftrightarrow> n = 11 \<or> bit c n" "bit (and c (not O_NONBLOCK)) n \<longleftrightarrow> n \<noteq> 11 \<and> bit c n"
    by (auto simp: bit_simps)
qed

end
