(* ===== verification/HttpServer.thy ===== *)
theory HttpServer
  imports HttpRequest IoCopy Sockets
begin

text \<open>
  \<open>test_server\<close> of \<^verbatim>\<open>include/txl/http.h\<close> and the printers of a request it answers with. A round of the server composes the socket calls
  (\<open>Sockets\<close>), \<open>read_string\<close> with a policy (\<open>IoCopy\<close>), the search for the end of the request (\<open>StreamFind\<close>) and the parser
  (\<open>HttpParser\<close>). The system calls and \<^verbatim>\<open>inet_addr\<close> are the fields of \<open>net_calls\<close>. An exception of \<open>or_throw\<close> is the \<open>Inl\<close> of the
  result, with its error code; it is taken to be caught, so that the client is closed on the way.
\<close>

section \<open>Printing a request\<close>

definition show_param :: "query_param \<Rightarrow> string" where
  "show_param p = ''('' @ qp_name p @ ''='' @ qp_value p @ '')''"

definition show_field :: "header_field \<Rightarrow> string" where
  "show_field f = hf_name f @ '': '' @ hf_value f"

definition show_request :: "http_request \<Rightarrow> string" where
  "show_request r =
     ''{ request_type='' @ request_type r @ '', uri='' @ uri r @ '', query_params=['' @
     concat (map (\<lambda>p. '' '' @ show_param p @ '', '') (query_params r)) @
     ''], http_version='' @ http_version r @ '', headers=['' @
     concat (map (\<lambda>f. '' '' @ [CHR 0x22] @ show_field f @ [CHR 0x22] @ '', '') (headers r)) @ ''] }''"

definition response :: "http_request \<Rightarrow> string \<Rightarrow> string" where
  "response r req =
     ''HTTP/1.1 200 OK'' @ [CHR 0x0A] @ ''Content-Type: text/html'' @ [CHR 0x0A, CHR 0x0A] @ ''<h1>Hello</h1>'' @
     ''<pre>'' @ show_request r @ ''</pre>'' @ ''<pre>'' @ req @ ''</pre>'' @ [CHR 0x0A, CHR 0x0A]"

section \<open>The server\<close>

record 'k net_calls =
  nc_errno :: "'k \<Rightarrow> int"
  nc_inet_addr :: "string \<Rightarrow> 32 word"
  nc_socket :: "int \<Rightarrow> int \<Rightarrow> int \<Rightarrow> 'k \<Rightarrow> int \<times> 'k"
  nc_bind :: "int \<Rightarrow> socket_address \<Rightarrow> 'k \<Rightarrow> int \<times> 'k"
  nc_setsockopt :: "int \<Rightarrow> int \<Rightarrow> int \<Rightarrow> int \<times> int \<Rightarrow> 'k \<Rightarrow> int \<times> 'k"
  nc_listen :: "int \<Rightarrow> int \<Rightarrow> 'k \<Rightarrow> int \<times> 'k"
  nc_accept4 :: "int \<Rightarrow> int \<Rightarrow> 'k \<Rightarrow> int \<times> socket_address \<times> 'k"
  nc_recv :: "int \<Rightarrow> nat \<Rightarrow> int \<Rightarrow> 'k \<Rightarrow> int \<times> 8 word list \<times> 'k"
  nc_send :: "int \<Rightarrow> 8 word list \<Rightarrow> int \<Rightarrow> 'k \<Rightarrow> int \<times> 'k"
  nc_shutdown :: "int \<Rightarrow> int \<Rightarrow> 'k \<Rightarrow> int \<times> 'k"
  nc_close :: "int \<Rightarrow> 'k \<Rightarrow> int \<times> 'k"

definition server_open :: "'k net_calls \<Rightarrow> socket_address \<Rightarrow> int \<Rightarrow> 'k \<Rightarrow> unit sysres \<times> int \<times> 'k" where
  "server_open nc addr listener k =
     (case so_open (nc_errno nc) (nc_socket nc) 2 1 0 listener k of
        (Inl e, f, k1) \<Rightarrow> (Inl e, f, k1)
      | (Inr u, f, k1) \<Rightarrow> (case so_bind (nc_errno nc) (nc_bind nc) f addr k1 of (r, k2) \<Rightarrow> (r, f, k2)))"

text \<open>The characters of the stream are its bytes. The copy reads into a buffer of its own, of which only the bytes received are looked at.\<close>

definition char_of_byte :: "8 word \<Rightarrow> char" where "char_of_byte w = char_of (unat w)"
definition byte_of_char :: "char \<Rightarrow> 8 word" where "byte_of_char c = of_nat (of_char c)"

definition client_read :: "'k net_calls \<Rightarrow> int \<Rightarrow> ('k, char, int) read_impl" where
  "client_read nc f k n =
     (case so_read_impl (nc_errno nc) (nc_recv nc) f (replicate n 0) k of
        (Inl e, buf, k') \<Rightarrow> (Inl e, k')
      | (Inr m, buf, k') \<Rightarrow> (Inr (map char_of_byte (take m buf)), k'))"

text \<open>What a round does with the characters it has read: the parser, the page, the shutdown.\<close>

definition answer_client :: "'k net_calls \<Rightarrow> int \<Rightarrow> string \<Rightarrow> 'k \<Rightarrow> (unit sysres \<times> 'k) option" where
  "answer_client nc f req k =
     Option.bind (http_process req http_new) (\<lambda>(n, p).
       case so_write_impl (nc_errno nc) (nc_send nc) f (map byte_of_char (response (hp_stg p) req)) k of
         (Inl e, k1) \<Rightarrow> Some (Inl e, k1)
       | (Inr sent, k1) \<Rightarrow> Some (so_shutdown (nc_errno nc) (nc_shutdown nc) f k1))"

text \<open>
  The argument \<open>one_of{until{...}, at_most{1024}}\<close> of \<open>read_string\<close>. The buffer of a string literal
  is the whole array, the NUL at its end included.
\<close>

definition server_literal :: string where "server_literal = [CHR 0x0A, CHR 0x0A, CHR 0x00]"

definition serve_client :: "'k net_calls \<Rightarrow> int \<Rightarrow> 'k \<Rightarrow> (unit sysres \<times> 'k) res option" where
  "serve_client nc f k =
     run_bind (sf_new server_literal) (\<lambda>m.
       run_bind (read_string (client_read nc f) k (OneOf [Until 1024 m, AtMost 1024 False])) (\<lambda>(r, k1).
         case r of
           Inl e \<Rightarrow> Some (Inr (Inl e, k1))
         | Inr req \<Rightarrow> map_option Inr (answer_client nc f req k1)))"

definition server_round :: "'k net_calls \<Rightarrow> int \<Rightarrow> 'k \<Rightarrow> (unit sysres \<times> 'k) res option" where
  "server_round nc listener k =
     (case so_listen (nc_errno nc) (nc_listen nc) listener 0 k of
        (Inl e, k1) \<Rightarrow> Some (Inr (Inl e, k1))
      | (Inr u, k1) \<Rightarrow>
          (case so_accept (nc_errno nc) (nc_accept4 nc) listener 0 k1 of
             (Inl e, a, k2) \<Rightarrow> Some (Inr (Inl e, k2))
           | (Inr client, a, k2) \<Rightarrow>
               run_bind (serve_client nc client k2) (\<lambda>(r, k3).
                 Some (Inr (r, fb_destroy (nc_errno nc) (nc_close nc) client k3)))))"

text \<open>The loop ends with an exception only.\<close>

partial_function (option) server_loop :: "'k net_calls \<Rightarrow> int \<Rightarrow> 'k \<Rightarrow> (int \<times> 'k) res option" where
  "server_loop nc listener k =
     Option.bind (server_round nc listener k) (\<lambda>x. case x of
       Inl u \<Rightarrow> Some (Inl u)
     | Inr (r, k') \<Rightarrow> (case r of Inl e \<Rightarrow> Some (Inr (e, k')) | Inr _ \<Rightarrow> server_loop nc listener k'))"

declare server_loop.simps [code]

definition server_run :: "'k net_calls \<Rightarrow> int \<Rightarrow> 'k \<Rightarrow> (int \<times> int \<times> 'k) res option" where
  "server_run nc listener k =
     (case server_open nc (sa_of_ip (nc_inet_addr nc) ''0.0.0.0'' 8012) listener k of
        (Inl e, f, k1) \<Rightarrow> Some (Inr (e, f, k1))
      | (Inr u, f, k1) \<Rightarrow>
          (case set_option (nc_errno nc) (nc_setsockopt nc) f so_linger (1, 0) k1 of
             (Inl e, k2) \<Rightarrow> Some (Inr (e, f, k2))
           | (Inr u, k2) \<Rightarrow> run_bind (server_loop nc f k2) (\<lambda>(e, k3). Some (Inr (e, f, k3)))))"

section \<open>What the server does\<close>

lemma char_of_byte_of_char [simp]: "char_of_byte (byte_of_char c) = c"
  by (simp add: char_of_byte_def byte_of_char_def unat_of_nat)

text \<open>A server that opens its socket is bound to an address with the port 8012 in network byte order.\<close>

lemma server_port: "sa_port (sa_of_ip f ''0.0.0.0'' 8012) = 8012"
  by (rule sa_port_of)

text \<open>The search of the request's end cannot be constructed: its table has two entries and its match three characters.\<close>

lemma server_literal_ub: "serve_client nc f k = Some (Inl UB)"
proof -
  have "length server_literal = 3" by (simp add: server_literal_def)
  then show ?thesis by (simp add: serve_client_def sf_new_cases)
qed

text \<open>The loop is left in its first round: with the exception of \<open>listen\<close> or \<open>accept\<close>, or with the fault of the search, for
  every client that is accepted.\<close>

lemma server_round_accepted:
  assumes "so_listen (nc_errno nc) (nc_listen nc) listener 0 k = (Inr (), k1)"
    "so_accept (nc_errno nc) (nc_accept4 nc) listener 0 k1 = (Inr client, a, k2)"
  shows "server_round nc listener k = Some (Inl UB)"
  using assms by (simp add: server_round_def server_literal_ub)

lemma server_loop_first_round:
  "server_loop nc listener k = Some (Inl UB) \<or> (\<exists>e k'. server_loop nc listener k = Some (Inr (e, k')))"
  by (subst (1 2) server_loop.simps)
     (auto simp: server_round_def server_literal_ub split: prod.split sum.split)

text \<open>\<open>at_most\<close> takes a short read for the end of the stream: the policy is complete after the first read that returns less than
  it was asked for.\<close>

lemma one_read:
  assumes "ri k 1024 = (Inr seg, k1)" "seg \<noteq> []" "length seg < 1024"
  shows "read_string ri k (AtMost 1024 False) = Some (Inr (Inr seg, k1))"
proof -
  have "copy_loop ri stream_write 4096 k [] (AtMost 1024 False) 0 = Some (Inr (Inr (length seg), k1, seg))"
    using assms by (simp add: copy_loop.simps reader_read_def writer_write_def stream_write_def policy_process_def)
  then show ?thesis by (simp add: read_string_def copy_policy_def copy_with_def)
qed

text \<open>The characters of a rendered request, whatever follows it, are answered with the page that prints just that request.\<close>

lemma server_answers:
  assumes "wf_request r"
    "nc_send nc f (map byte_of_char (response r (render r @ body))) 0 k = (int sent, k1)"
    "sent \<le> length (response r (render r @ body))" "sent < 2 ^ 31"
  shows "answer_client nc f (render r @ body) k = Some (so_shutdown (nc_errno nc) (nc_shutdown nc) f k1)"
proof -
  obtain n p where p: "http_process (render r @ body) http_new = Some (n, p)" "hp_stg p = r"
    using process_request[OF assms(1), of body] by auto
  have "so_write_impl (nc_errno nc) (nc_send nc) f (map byte_of_char (response r (render r @ body))) k = (Inr sent, k1)"
    using so_write_bytes[of "nc_send nc" f "map byte_of_char (response r (render r @ body))" 0 k sent k1 "nc_errno nc"] assms(2-4)
    by (simp add: so_write_impl_def)
  with p show ?thesis by (simp add: answer_client_def)
qed

end
