(* ===== verification/FixedVector.thy ===== *)
theory FixedVector
  imports Storage
begin

text \<open>
  \<open>fixed_vector\<close> of \<^verbatim>\<open>include/txl/fixed_vector.h\<close>: a vector in an array of \<open>Count\<close> slots of unsafe
  storage and a counter. \<open>Count\<close> is the length of the list of slots. An insertion returns the index its
  \<open>result<iterator>\<close> points to, or \<open>None\<close> for the empty result of a full vector. Iterators are
  indexes; \<open>size_t\<close> sums are taken modulo \<open>2 ^ 64\<close>. \<^verbatim>\<open>data_[i]\<close> is undefined for \<open>i \<ge> Count\<close>, also where the code takes only the
  address of it: so \<^verbatim>\<open>end()\<close> of a full vector is.
\<close>

record 'v fvec =
  fv_data :: "'v slot list"
  fv_count :: nat

section \<open>Operations\<close>

definition fv_capacity :: "'v fvec \<Rightarrow> nat" where
  "fv_capacity v = length (fv_data v)"

definition fv_new :: "nat \<Rightarrow> 'v fvec" where
  "fv_new n = \<lparr>fv_data = replicate n Raw, fv_count = 0\<rparr>"

text \<open>The slots the code names by their index: each must be in the array.\<close>

definition fv_slot :: "'v fvec \<Rightarrow> nat \<Rightarrow> nat res" where
  "fv_slot v i = (if i < length (fv_data v) then Inr i else Inl UB)"

definition fv_slots :: "'v fvec \<Rightarrow> nat list \<Rightarrow> unit res" where
  "fv_slots v js = (if list_all (\<lambda>i. i < length (fv_data v)) js then Inr () else Inl UB)"

definition fv_at :: "'v fvec \<Rightarrow> nat \<Rightarrow> 'v res" where
  "fv_at v pos = (if pos \<ge> fv_count v then Inl OutOfRange else st_get (fv_data v) pos)"

definition fv_get :: "'v fvec \<Rightarrow> nat \<Rightarrow> 'v res" where
  "fv_get v pos = st_get (fv_data v) pos"

definition fv_front :: "'v fvec \<Rightarrow> 'v res" where
  "fv_front v = fv_get v 0"

text \<open>\<open>data_[size()-1]\<close>: for an empty vector the index wraps, far outside of the array.\<close>

definition fv_last_index :: "'v fvec \<Rightarrow> nat" where
  "fv_last_index v = (if fv_count v = 0 then 2 ^ 64 - 1 else fv_count v - 1)"

definition fv_back :: "'v fvec \<Rightarrow> 'v res" where
  "fv_back v = (if fv_count v = 0 then Inl UB else fv_get v (fv_last_index v))"

definition fv_empty :: "'v fvec \<Rightarrow> bool" where
  "fv_empty v \<longleftrightarrow> fv_count v = 0"

fun erase_slots :: "'v slot list \<Rightarrow> nat \<Rightarrow> nat \<Rightarrow> 'v slot list res" where
  "erase_slots d i 0 = Inr d"
| "erase_slots d i (Suc n) = and_then (st_erase d i) (\<lambda>d'. erase_slots d' (Suc i) n)"

definition fv_clear :: "'v fvec \<Rightarrow> 'v fvec res" where
  "fv_clear v = and_then (erase_slots (fv_data v) 0 (fv_count v)) (\<lambda>d. Inr \<lparr>fv_data = d, fv_count = 0\<rparr>)"

definition fv_emplace_back :: "'v fvec \<Rightarrow> 'v \<Rightarrow> (nat option \<times> 'v fvec) res" where
  "fv_emplace_back v x =
     (if fv_count v = fv_capacity v then Inr (None, v)
      else and_then (st_emplace (fv_data v) (fv_count v) x)
        (\<lambda>d. Inr (Some (fv_count v), \<lparr>fv_data = d, fv_count = Suc (fv_count v)\<rparr>)))"

fun push_all :: "'v fvec \<Rightarrow> 'v list \<Rightarrow> 'v fvec res" where
  "push_all v [] = Inr v"
| "push_all v (x # xs) = and_then (fv_emplace_back v x) (\<lambda>r. push_all (snd r) xs)"

definition fv_assign_n :: "'v fvec \<Rightarrow> nat \<Rightarrow> 'v \<Rightarrow> 'v fvec res" where
  "fv_assign_n v n x = and_then (fv_clear v) (\<lambda>v'. push_all v' (replicate (min n (fv_capacity v)) x))"

definition fv_assign :: "'v fvec \<Rightarrow> 'v list \<Rightarrow> 'v fvec res" where
  "fv_assign v xs = and_then (fv_clear v) (\<lambda>v'. push_all v' xs)"

text \<open>The constructor from a count sets the counter before it assigns.\<close>

definition fv_new_n :: "nat \<Rightarrow> nat \<Rightarrow> 'v \<Rightarrow> 'v fvec res" where
  "fv_new_n cap n x = (let v = (fv_new cap)\<lparr>fv_count := min n cap\<rparr> in fv_assign_n v (fv_count v) x)"

definition fv_new_list :: "nat \<Rightarrow> 'v list \<Rightarrow> 'v fvec res" where
  "fv_new_list cap xs = fv_assign (fv_new cap) xs"

definition fv_emplace :: "'v fvec \<Rightarrow> nat \<Rightarrow> 'v \<Rightarrow> (nat option \<times> 'v fvec) res" where
  "fv_emplace v i x =
     (if fv_count v = fv_capacity v then Inr (None, v)
      else and_then (fv_slots v [i, fv_count v, fv_count v + 1]) (\<lambda>_.
           and_then (st_move_backward (fv_data v) i (fv_count v - i) (fv_count v + 1)) (\<lambda>d.
           and_then (st_emplace d i x) (\<lambda>d. Inr (Some i, \<lparr>fv_data = d, fv_count = Suc (fv_count v)\<rparr>)))))"

fun emplace_slots :: "'v slot list \<Rightarrow> nat \<Rightarrow> 'v list \<Rightarrow> 'v slot list res" where
  "emplace_slots d i [] = Inr d"
| "emplace_slots d i (x # xs) = and_then (st_emplace d i x) (\<lambda>d'. emplace_slots d' (Suc i) xs)"

definition fv_make_room :: "'v fvec \<Rightarrow> nat \<Rightarrow> nat \<Rightarrow> 'v slot list res" where
  "fv_make_room v i n = and_then (fv_slots v [i, fv_count v, fv_count v + n])
     (\<lambda>_. st_move_backward (fv_data v) i (fv_count v - i) (fv_count v + n))"

definition fv_insert_n :: "'v fvec \<Rightarrow> nat \<Rightarrow> nat \<Rightarrow> 'v \<Rightarrow> (nat option \<times> 'v fvec) res" where
  "fv_insert_n v i n x =
     (if (fv_count v + n) mod 2 ^ 64 > fv_capacity v then Inr (None, v)
      else and_then (fv_make_room v i n) (\<lambda>d. and_then (emplace_slots d i (replicate n x)) (\<lambda>d.
           Inr (Some i, \<lparr>fv_data = d, fv_count = fv_count v + n\<rparr>))))"

text \<open>The insertion of a range or of a list: the counter is not changed.\<close>

definition fv_insert_list :: "'v fvec \<Rightarrow> nat \<Rightarrow> 'v list \<Rightarrow> (nat option \<times> 'v fvec) res" where
  "fv_insert_list v i xs =
     (if (fv_count v + length xs) mod 2 ^ 64 > fv_capacity v then Inr (None, v)
      else and_then (fv_make_room v i (length xs)) (\<lambda>d. and_then (emplace_slots d i xs) (\<lambda>d.
           Inr (Some i, v\<lparr>fv_data := d\<rparr>))))"

text \<open>The erasures: the moves go backward although the destination is before the source.\<close>

definition fv_erase :: "'v fvec \<Rightarrow> nat \<Rightarrow> (nat \<times> 'v fvec) res" where
  "fv_erase v i =
     and_then (st_erase (fv_data v) i) (\<lambda>d.
     and_then (fv_slots v [Suc i, fv_count v, fv_count v - 1]) (\<lambda>_.
     and_then (st_move_backward d (Suc i) (fv_count v - Suc i) (fv_count v - 1)) (\<lambda>d.
       let n = fv_count v - 1 in Inr (if i \<ge> n then n else i, \<lparr>fv_data = d, fv_count = n\<rparr>))))"

definition fv_erase_range :: "'v fvec \<Rightarrow> nat \<Rightarrow> nat \<Rightarrow> (nat \<times> 'v fvec) res" where
  "fv_erase_range v b e =
     and_then (erase_slots (fv_data v) b (e - b)) (\<lambda>d.
     and_then (fv_slots v [e, fv_count v, fv_count v - (e - b)]) (\<lambda>_.
     and_then (st_move_backward d e (fv_count v - e) (fv_count v - (e - b))) (\<lambda>d.
       let n = fv_count v - (e - b) in Inr (if b \<ge> n then n else b, \<lparr>fv_data = d, fv_count = n\<rparr>))))"

definition fv_pop_back :: "'v fvec \<Rightarrow> 'v fvec res" where
  "fv_pop_back v =
     (if fv_count v = 0 then Inl UB
      else and_then (st_erase (fv_data v) (fv_last_index v)) (\<lambda>d. Inr \<lparr>fv_data = d, fv_count = fv_count v - 1\<rparr>))"

text \<open>The values a range for loop over the vector reads, from \<^verbatim>\<open>begin()\<close> to \<^verbatim>\<open>end()\<close>, and the comparisons; the equality asks only the first
  vector for its end.\<close>

fun st_values :: "'v slot list \<Rightarrow> 'v list res" where
  "st_values [] = Inr []"
| "st_values (Live x # d) = and_then (st_values d) (\<lambda>xs. Inr (x # xs))"
| "st_values _ = Inl UB"

definition fv_values :: "'v fvec \<Rightarrow> 'v list res" where
  "fv_values v = and_then (fv_slots v [0, fv_count v]) (\<lambda>_. st_values (take (fv_count v) (fv_data v)))"

definition fv_copy :: "'v fvec \<Rightarrow> 'v fvec \<Rightarrow> 'v fvec res" where
  "fv_copy v other = and_then (fv_values other) (push_all v)"

definition fv_copy_assign :: "'v fvec \<Rightarrow> 'v fvec \<Rightarrow> 'v fvec res" where
  "fv_copy_assign v other = and_then (fv_clear v) (\<lambda>v'. fv_copy v' other)"

text \<open>Moving from another vector: values that fit move, the rest is destroyed, the other is empty.\<close>

fun move_slots :: "'v slot list \<Rightarrow> nat \<Rightarrow> 'v slot list \<Rightarrow> nat \<Rightarrow> nat \<Rightarrow> ('v slot list \<times> 'v slot list) res" where
  "move_slots d j d' i 0 = Inr (d, d')"
| "move_slots d j d' i (Suc n) =
     and_then (st_get d' i) (\<lambda>x. and_then (st_emplace d j x) (\<lambda>d.
       move_slots d (Suc j) (d'[i := Moved]) (Suc i) n))"

definition fv_move :: "'v fvec \<Rightarrow> 'v fvec \<Rightarrow> ('v fvec \<times> 'v fvec) res" where
  "fv_move v other =
     (let n = min (fv_capacity v) (fv_count other)
      in and_then (move_slots (fv_data v) (fv_count v) (fv_data other) 0 n) (\<lambda>(d, d').
         and_then (erase_slots d' (fv_capacity v) (fv_count other - fv_capacity v)) (\<lambda>d'.
           Inr (\<lparr>fv_data = d, fv_count = fv_count v + n\<rparr>, \<lparr>fv_data = d', fv_count = 0\<rparr>))))"

definition fv_move_assign :: "'v fvec \<Rightarrow> 'v fvec \<Rightarrow> ('v fvec \<times> 'v fvec) res" where
  "fv_move_assign v other = and_then (fv_clear v) (\<lambda>v'. fv_move v' other)"

text \<open>\<open>swap\<close> exchanges the arrays, slot by slot, with a temporary: three moves of each slot.\<close>

fun swap_slots :: "'v slot list \<Rightarrow> 'v slot list \<Rightarrow> ('v slot list \<times> 'v slot list) res" where
  "swap_slots (a # d) (b # d') =
     (if a = Raw \<or> b = Raw then Inl UB
      else and_then (swap_slots d d') (\<lambda>(e, e'). Inr (b # e, a # e')))"
| "swap_slots d d' = Inr (d, d')"

definition fv_swap :: "'v fvec \<Rightarrow> 'v fvec \<Rightarrow> ('v fvec \<times> 'v fvec) res" where
  "fv_swap v other = and_then (swap_slots (fv_data v) (fv_data other)) (\<lambda>(d, d').
     Inr (\<lparr>fv_data = d, fv_count = fv_count other\<rparr>, \<lparr>fv_data = d', fv_count = fv_count v\<rparr>))"

definition fv_equal :: "'v fvec \<Rightarrow> 'v fvec \<Rightarrow> bool res" where
  "fv_equal v w =
     (if fv_count v \<noteq> fv_count w then Inr False
      else and_then (fv_values v) (\<lambda>xs. and_then (fv_slots w [0]) (\<lambda>_.
           and_then (st_values (take (fv_count w) (fv_data w))) (\<lambda>ys. Inr (xs = ys)))))"

fun lex_compare :: "('v \<Rightarrow> 'v \<Rightarrow> bool) \<Rightarrow> 'v list \<Rightarrow> 'v list \<Rightarrow> bool" where
  "lex_compare lt xs [] = False"
| "lex_compare lt [] (y # ys) = True"
| "lex_compare lt (x # xs) (y # ys) = (lt x y \<or> (\<not> lt y x \<and> lex_compare lt xs ys))"

definition fv_less :: "('v \<Rightarrow> 'v \<Rightarrow> bool) \<Rightarrow> 'v fvec \<Rightarrow> 'v fvec \<Rightarrow> bool res" where
  "fv_less lt v w = and_then (fv_values v) (\<lambda>xs. and_then (fv_values w) (\<lambda>ys. Inr (lex_compare lt xs ys)))"

section \<open>What a vector represents\<close>

definition fv_rep :: "'v fvec \<Rightarrow> 'v list \<Rightarrow> bool" where
  "fv_rep v xs \<longleftrightarrow> fv_count v = length xs \<and> length xs \<le> length (fv_data v) \<and>
     (\<forall>i < length xs. fv_data v ! i = Live (xs ! i))"

lemma fv_slots_simps [simp]:
  "fv_slots v [] = Inr ()" "fv_slots v (i # js) = (if i < length (fv_data v) then fv_slots v js else Inl UB)"
  by (simp_all add: fv_slots_def)

lemma rep_new: "fv_rep (fv_new n) []"
  by (simp add: fv_rep_def fv_new_def)

lemma erase_slots_live:
  assumes "i + n \<le> length d" "\<forall>j. i \<le> j \<and> j < i + n \<longrightarrow> d ! j \<noteq> Raw"
  shows "\<exists>d'. erase_slots d i n = Inr d' \<and> length d' = length d \<and>
    (\<forall>j. j < i \<or> i + n \<le> j \<longrightarrow> d' ! j = d ! j)"
  using assms
proof (induction n arbitrary: d i)
  case (Suc n)
  have e: "st_erase d i = Inr (d[i := Raw])"
    using Suc.prems by (cases "d ! i") (auto simp: st_erase_def vec_get_def)
  from Suc.IH[of "Suc i" "d[i := Raw]"] Suc.prems obtain d' where
    "erase_slots (d[i := Raw]) (Suc i) n = Inr d'" "length d' = length d"
    "\<forall>j. j < Suc i \<or> Suc i + n \<le> j \<longrightarrow> d' ! j = d[i := Raw] ! j" by auto
  with e show ?case by (intro exI[of _ d']) auto
qed simp

lemma clear_rep:
  assumes "fv_rep v xs"
  shows "\<exists>v'. fv_clear v = Inr v' \<and> fv_rep v' [] \<and> length (fv_data v') = length (fv_data v)"
proof -
  have "\<exists>d'. erase_slots (fv_data v) 0 (fv_count v) = Inr d' \<and> length d' = length (fv_data v) \<and>
      (\<forall>j. j < 0 \<or> 0 + fv_count v \<le> j \<longrightarrow> d' ! j = fv_data v ! j)"
    by (rule erase_slots_live) (use assms in \<open>auto simp: fv_rep_def\<close>)
  then show ?thesis by (auto simp: fv_clear_def fv_rep_def)
qed

lemma emplace_back_rep:
  assumes "fv_rep v xs"
  shows "\<exists>r v'. fv_emplace_back v x = Inr (r, v') \<and> length (fv_data v') = length (fv_data v) \<and>
    fv_rep v' (if length xs < length (fv_data v) then xs @ [x] else xs)"
  using assms
  by (auto simp: fv_emplace_back_def fv_rep_def fv_capacity_def st_emplace_def vec_put_def nth_append nth_list_update)

lemma push_all_rep:
  assumes "fv_rep v xs"
  shows "\<exists>v'. push_all v ys = Inr v' \<and> length (fv_data v') = length (fv_data v) \<and>
    fv_rep v' (take (length (fv_data v)) (xs @ ys))"
  using assms
proof (induction ys arbitrary: v xs)
  case Nil
  then show ?case by (simp add: fv_rep_def)
next
  case (Cons y ys)
  obtain r v1 where 1: "fv_emplace_back v y = Inr (r, v1)" "length (fv_data v1) = length (fv_data v)"
    "fv_rep v1 (if length xs < length (fv_data v) then xs @ [y] else xs)"
    using emplace_back_rep[OF Cons.prems] by blast
  have "take (length (fv_data v)) ((if length xs < length (fv_data v) then xs @ [y] else xs) @ ys) =
      take (length (fv_data v)) (xs @ y # ys)"
    using Cons.prems by (auto simp: fv_rep_def take_Cons' Suc_diff_Suc)
  with Cons.IH[OF 1(3)] 1(1,2) show ?case by auto
qed

lemma assign_rep:
  assumes "fv_rep v xs"
  shows "\<exists>v'. fv_assign v ys = Inr v' \<and> length (fv_data v') = length (fv_data v) \<and>
    fv_rep v' (take (length (fv_data v)) ys)"
proof -
  obtain v1 where "fv_clear v = Inr v1" "fv_rep v1 []" "length (fv_data v1) = length (fv_data v)"
    using clear_rep[OF assms] by blast
  with push_all_rep[of v1 "[]" ys] show ?thesis by (simp add: fv_assign_def)
qed

lemma assign_n_rep:
  assumes "fv_rep v xs"
  shows "\<exists>v'. fv_assign_n v n y = Inr v' \<and> length (fv_data v') = length (fv_data v) \<and>
    fv_rep v' (replicate (min n (length (fv_data v))) y)"
proof -
  obtain v1 where "fv_clear v = Inr v1" "fv_rep v1 []" "length (fv_data v1) = length (fv_data v)"
    using clear_rep[OF assms] by blast
  with push_all_rep[of v1 "[]" "replicate (min n (length (fv_data v))) y"]
  show ?thesis by (simp add: fv_assign_n_def fv_capacity_def min.commute)
qed

lemma pop_back_rep:
  assumes "fv_rep v xs" "xs \<noteq> []"
  shows "\<exists>v'. fv_pop_back v = Inr v' \<and> length (fv_data v') = length (fv_data v) \<and> fv_rep v' (butlast xs)"
proof -
  have n: "fv_count v = length xs" "length xs - 1 < length (fv_data v)" "fv_data v ! (length xs - 1) = Live (xs ! (length xs - 1))"
    using assms by (cases xs; auto simp: fv_rep_def)+
  then have "st_erase (fv_data v) (fv_last_index v) = Inr ((fv_data v)[length xs - 1 := Raw])"
    using assms(2) by (simp add: st_erase_def fv_last_index_def vec_get_def)
  with n assms show ?thesis by (auto simp: fv_pop_back_def fv_rep_def nth_butlast)
qed

text \<open>Opening a gap of \<open>k\<close> slots at \<open>i\<close>.\<close>

lemma make_room_rep:
  assumes "fv_rep v xs" "i \<le> length xs" "length xs + k < length (fv_data v)" "0 < k"
  shows "\<exists>d. fv_make_room v i k = Inr d \<and> length d = length (fv_data v) \<and>
    (\<forall>j < i. d ! j = Live (xs ! j)) \<and> (\<forall>j < length xs - i. d ! (i + k + j) = Live (xs ! (i + j)))"
proof -
  have "\<exists>d. st_move_backward (fv_data v) i (length xs - i) (i + (length xs - i) + k) = Inr d \<and> length d = length (fv_data v) \<and>
      (\<forall>j < length xs - i. d ! (i + k + j) = Live (xs ! (i + j))) \<and>
      (\<forall>j. j < i \<or> i + (length xs - i) + k \<le> j \<longrightarrow> d ! j = fv_data v ! j)"
    by (rule st_move_backward_right) (use assms in \<open>auto simp: fv_rep_def\<close>)
  with assms show ?thesis by (auto simp: fv_make_room_def fv_rep_def)
qed

lemma emplace_slots_live:
  "i + length ys \<le> length d \<Longrightarrow> \<exists>d'. emplace_slots d i ys = Inr d' \<and> length d' = length d \<and>
    (\<forall>j < length ys. d' ! (i + j) = Live (ys ! j)) \<and> (\<forall>j. j < i \<or> i + length ys \<le> j \<longrightarrow> d' ! j = d ! j)"
proof (induction ys arbitrary: d i)
  case (Cons y ys)
  from Cons.IH[of "Suc i" "d[i := Live y]"] Cons.prems obtain d' where
    d': "emplace_slots (d[i := Live y]) (Suc i) ys = Inr d'" "length d' = length d"
      "\<forall>j < length ys. d' ! (Suc i + j) = Live (ys ! j)"
      "\<forall>j. j < Suc i \<or> Suc i + length ys \<le> j \<longrightarrow> d' ! j = d[i := Live y] ! j" by auto
  have "d' ! (i + j) = Live ((y # ys) ! j)" if "j < Suc (length ys)" for j
    using that d'(3,4) Cons.prems by (cases j) auto
  with d' Cons.prems show ?case
    by (intro exI[of _ d']) (auto simp: st_emplace_def vec_put_def)
qed simp

lemma insert_slots_rep:
  assumes "fv_rep v xs" "i \<le> length xs" "length xs + length ys < length (fv_data v)" "ys \<noteq> []"
  shows "\<exists>d d'. fv_make_room v i (length ys) = Inr d \<and> emplace_slots d i ys = Inr d' \<and>
    fv_rep \<lparr>fv_data = d', fv_count = length xs + length ys\<rparr> (take i xs @ ys @ drop i xs) \<and>
    length d' = length (fv_data v)"
proof -
  let ?k = "length ys" and ?zs = "take i xs @ ys @ drop i xs"
  obtain d where d: "fv_make_room v i ?k = Inr d" "length d = length (fv_data v)"
    "\<forall>j < i. d ! j = Live (xs ! j)" "\<forall>j < length xs - i. d ! (i + ?k + j) = Live (xs ! (i + j))"
    using make_room_rep[OF assms(1-3)] assms(4) by auto
  obtain d' where d': "emplace_slots d i ys = Inr d'" "length d' = length d"
    "\<forall>j < ?k. d' ! (i + j) = Live (ys ! j)" "\<forall>j. j < i \<or> i + ?k \<le> j \<longrightarrow> d' ! j = d ! j"
    using emplace_slots_live[of i ys d] assms(2,3) d(2) by auto
  have "d' ! j = Live (?zs ! j)" if j: "j < length xs + ?k" for j
  proof -
    consider "j < i" | "i \<le> j" "j < i + ?k" | "i + ?k \<le> j" by linarith
    then show ?thesis
    proof cases
      case 1
      then show ?thesis using d(3) d'(4) assms(2) by (simp add: nth_append)
    next
      case 2
      then have "j - i < ?k" by linarith
      with 2 show ?thesis using d'(3)[rule_format, of "j - i"] assms(2) by (simp add: nth_append)
    next
      case 3
      then have "\<not> j - i < ?k" by linarith
      with 3 show ?thesis using d(4)[rule_format, of "j - (i + ?k)"] d'(4) assms(2) j by (simp add: nth_append add_ac)
    qed
  qed
  with d d' assms show ?thesis by (auto simp: fv_rep_def add_ac)
qed


section \<open>A vector is a bounded list\<close>

datatype 'v fv_op =
    PushBack 'v | Emplace nat 'v | InsertN nat nat 'v | PopBack | Clear | AssignN nat 'v | Assign "'v list"

fun fv_step :: "'v fvec \<Rightarrow> 'v fv_op \<Rightarrow> 'v fvec res" where
  "fv_step v (PushBack x) = and_then (fv_emplace_back v x) (\<lambda>r. Inr (snd r))"
| "fv_step v (Emplace i x) = and_then (fv_emplace v i x) (\<lambda>r. Inr (snd r))"
| "fv_step v (InsertN i n x) = and_then (fv_insert_n v i n x) (\<lambda>r. Inr (snd r))"
| "fv_step v PopBack = fv_pop_back v"
| "fv_step v Clear = fv_clear v"
| "fv_step v (AssignN n x) = fv_assign_n v n x"
| "fv_step v (Assign xs) = fv_assign v xs"

fun fv_run :: "'v fvec \<Rightarrow> 'v fv_op list \<Rightarrow> 'v fvec res" where
  "fv_run v [] = Inr v"
| "fv_run v (x # xs) = and_then (fv_step v x) (\<lambda>v'. fv_run v' xs)"

text \<open>The specification: a list that never gets longer than \<open>cap\<close>; what does not fit is left out, an
  insertion as a whole, a value at the end one by one. A position must be in the list, and an insertion at a position must not
  fill the last place of the vector.\<close>

fun spec_step :: "nat \<Rightarrow> 'v list \<Rightarrow> 'v fv_op \<Rightarrow> 'v list" where
  "spec_step cap xs (PushBack x) = (if length xs < cap then xs @ [x] else xs)"
| "spec_step cap xs (Emplace i x) = (if length xs < cap then ins_at i x xs else xs)"
| "spec_step cap xs (InsertN i n x) = (if length xs + n \<le> cap then take i xs @ replicate n x @ drop i xs else xs)"
| "spec_step cap xs PopBack = butlast xs"
| "spec_step cap xs Clear = []"
| "spec_step cap xs (AssignN n x) = replicate (min n cap) x"
| "spec_step cap xs (Assign ys) = take cap ys"

fun op_ok :: "nat \<Rightarrow> 'v list \<Rightarrow> 'v fv_op \<Rightarrow> bool" where
  "op_ok cap xs (Emplace i x) = (i \<le> length xs \<and> length xs + 1 \<noteq> cap)"
| "op_ok cap xs (InsertN i n x) = (i \<le> length xs \<and> 0 < n \<and> length xs + n < 2 ^ 64 \<and> length xs + n \<noteq> cap)"
| "op_ok cap xs PopBack = (xs \<noteq> [])"
| "op_ok cap xs _ = True"

fun ops_ok :: "nat \<Rightarrow> 'v list \<Rightarrow> 'v fv_op list \<Rightarrow> bool" where
  "ops_ok cap xs [] = True"
| "ops_ok cap xs (x # ops) = (op_ok cap xs x \<and> ops_ok cap (spec_step cap xs x) ops)"

lemma emplace_rep:
  assumes "fv_rep v xs" "i \<le> length xs" "length xs + 1 < length (fv_data v)"
  shows "\<exists>v'. fv_emplace v i x = Inr (Some i, v') \<and> length (fv_data v') = length (fv_data v) \<and> fv_rep v' (ins_at i x xs)"
proof -
  obtain d d' where d: "fv_make_room v i 1 = Inr d" "emplace_slots d i [x] = Inr d'"
    "fv_rep \<lparr>fv_data = d', fv_count = length xs + 1\<rparr> (take i xs @ [x] @ drop i xs)" "length d' = length (fv_data v)"
    using insert_slots_rep[OF assms(1,2), of "[x]"] assms(3) by auto
  then have "st_emplace d i x = Inr d'" by (cases "st_emplace d i x") simp_all
  with d assms show ?thesis
    by (simp add: fv_emplace_def fv_make_room_def fv_capacity_def fv_rep_def ins_at_def)
qed

lemma insert_n_rep:
  assumes "fv_rep v xs" "i \<le> length xs" "0 < n" "length xs + n < length (fv_data v)" "length xs + n < 2 ^ 64"
  shows "\<exists>v'. fv_insert_n v i n x = Inr (Some i, v') \<and> length (fv_data v') = length (fv_data v) \<and>
    fv_rep v' (take i xs @ replicate n x @ drop i xs)"
proof -
  obtain d d' where "fv_make_room v i n = Inr d" "emplace_slots d i (replicate n x) = Inr d'"
    "fv_rep \<lparr>fv_data = d', fv_count = length xs + n\<rparr> (take i xs @ replicate n x @ drop i xs)"
    "length d' = length (fv_data v)"
    using insert_slots_rep[OF assms(1,2), of "replicate n x"] assms(3,4) by auto
  moreover have "fv_count v = length xs" using assms(1) by (simp add: fv_rep_def)
  ultimately show ?thesis using assms(4,5) by (simp add: fv_insert_n_def fv_capacity_def)
qed

lemma step_rep:
  assumes "fv_rep v xs" "op_ok (length (fv_data v)) xs x"
  shows "\<exists>v'. fv_step v x = Inr v' \<and> length (fv_data v') = length (fv_data v) \<and>
    fv_rep v' (spec_step (length (fv_data v)) xs x)"
proof (cases x)
  case (PushBack y)
  with emplace_back_rep[OF assms(1), of y] show ?thesis by auto
next
  case (Emplace i y)
  show ?thesis
  proof (cases "length xs < length (fv_data v)")
    case True
    with emplace_rep[OF assms(1), of i y] assms(2) Emplace show ?thesis by auto
  next
    case False
    with assms Emplace show ?thesis by (simp add: fv_emplace_def fv_capacity_def fv_rep_def)
  qed
next
  case (InsertN i n y)
  show ?thesis
  proof (cases "length xs + n \<le> length (fv_data v)")
    case True
    with insert_n_rep[OF assms(1), of i n y] assms(2) InsertN show ?thesis by auto
  next
    case False
    with assms InsertN show ?thesis by (simp add: fv_insert_n_def fv_capacity_def fv_rep_def)
  qed
qed (use assms pop_back_rep clear_rep assign_n_rep assign_rep in \<open>auto dest: clear_rep\<close>)

lemma run_rep:
  "fv_rep v xs \<Longrightarrow> ops_ok (length (fv_data v)) xs ops \<Longrightarrow>
   \<exists>v'. fv_run v ops = Inr v' \<and> length (fv_data v') = length (fv_data v) \<and> fv_rep v' (fold (\<lambda>x ys. spec_step (length (fv_data v)) ys x) ops xs)"
proof (induction ops arbitrary: v xs)
  case (Cons x ops)
  then obtain v1 where 1: "fv_step v x = Inr v1" "length (fv_data v1) = length (fv_data v)"
    "fv_rep v1 (spec_step (length (fv_data v)) xs x)" using step_rep[of v xs x] by auto
  with Cons.IH[OF 1(3)] Cons.prems(2) show ?case by auto
qed simp

lemma values_rep:
  assumes "fv_rep v xs" "length xs < length (fv_data v)"
  shows "fv_values v = Inr xs"
proof -
  have "take (length xs) (fv_data v) = map Live xs" using assms by (intro nth_equalityI) (auto simp: fv_rep_def)
  moreover have "st_values (map Live xs) = Inr xs" by (induction xs) auto
  ultimately show ?thesis using assms by (auto simp: fv_values_def fv_rep_def)
qed

text \<open>C16: A fixed vector is a list bounded by its capacity: any sequence of push_back, emplace, insert of copies, pop_back,
  clear and assign, with positions inside the list and no emplace or insert that fills the last place, runs
  without undefined behaviour, and leaves the vector that holds just the list of the specification: \<open>at\<close> gives its values and
  \<open>OutOfRange\<close> beyond them, and a loop over the vector, when it is not full, visits them in order.\<close>

theorem fixed_vector_refines_list:
  assumes "ops_ok cap [] ops" "xs = fold (\<lambda>x xs. spec_step cap xs x) ops []"
  shows "\<exists>v. fv_run (fv_new cap) ops = Inr v \<and> fv_count v = length xs \<and>
    (\<forall>i. fv_at v i = (if i < length xs then Inr (xs ! i) else Inl OutOfRange)) \<and>
    (length xs \<noteq> cap \<longrightarrow> fv_values v = Inr xs)"
proof -
  have "length (fv_data (fv_new cap :: 'a fvec)) = cap" by (simp add: fv_new_def)
  then obtain v where v: "fv_run (fv_new cap) ops = Inr v" "fv_rep v xs" "length (fv_data v) = cap"
    using run_rep[OF rep_new, of cap ops] assms by auto
  moreover have "fv_at v i = (if i < length xs then Inr (xs ! i) else Inl OutOfRange)" for i
    using v(2) by (auto simp: fv_rep_def fv_at_def st_get_def vec_get_def)
  moreover have "length xs \<noteq> cap \<longrightarrow> fv_values v = Inr xs" using values_rep[OF v(2)] v(2,3) by (auto simp: fv_rep_def)
  ultimately show ?thesis by (auto simp: fv_rep_def)
qed

theorem fixed_vector_refines_list_witness:
  "\<exists>v. fv_run (fv_new 6) [PushBack 1, PushBack (3 :: nat), Emplace 1 2, InsertN 0 4 9, PopBack, InsertN 1 2 7] = Inr v \<and>
    fv_values v = Inr [1, 7, 7, 2]"
proof -
  let ?ops = "[PushBack 1, PushBack (3 :: nat), Emplace 1 2, InsertN 0 4 9, PopBack, InsertN 1 2 7]"
  have r: "replicate 2 x = [x, x]" "replicate 4 x = [x, x, x, x]" for x :: nat by (simp_all add: numeral_2_eq_2 numeral_eq_Suc)
  have "ops_ok 6 [] ?ops" "[1, 7, 7, 2] = fold (\<lambda>x xs. spec_step 6 xs x) ?ops []"
    by (simp_all add: ins_at_def r)
  from fixed_vector_refines_list[OF this] show ?thesis by auto
qed

text \<open>Filling the last place with an insertion at a position, and any loop over a full vector, index the array at its size.\<close>

lemma fixed_vector_full_ub:
  assumes "fv_rep v xs"
  shows "length xs + 1 = length (fv_data v) \<Longrightarrow> fv_emplace v i x = Inl UB"
    "length xs + n = length (fv_data v) \<Longrightarrow> length xs + n < 2 ^ 64 \<Longrightarrow> fv_insert_n v i n x = Inl UB"
    "length xs = length (fv_data v) \<Longrightarrow> fv_values v = Inl UB"
    "length xs = length (fv_data v) \<Longrightarrow> i < length xs \<Longrightarrow> fv_erase v i = Inl UB"
  using assms by (auto simp: fv_rep_def fv_emplace_def fv_insert_n_def fv_make_room_def fv_values_def fv_capacity_def fv_erase_def st_erase_def vec_get_def)

section \<open>The operations that are not those of a list\<close>

text \<open>A move to the left with \<open>move_backward\<close>: the last value runs through to the front.\<close>

lemma move_left_by_one:
  assumes "i + n < length d" "0 < n" "d ! (i + n) = Live x" "\<forall>j. i < j \<and> j < i + n \<longrightarrow> d ! j \<noteq> Raw"
  shows "\<exists>d'. st_move_backward d (Suc i) n (i + n) = Inr d' \<and> length d' = length d \<and> d' ! i = Live x \<and>
    (\<forall>j. i < j \<and> j \<le> i + n \<longrightarrow> d' ! j = Moved) \<and> (\<forall>j. j < i \<or> i + n < j \<longrightarrow> d' ! j = d ! j)"
  using assms
proof (induction n arbitrary: d)
  case (Suc n)
  let ?d = "d[i + n := Live x, Suc (i + n) := Moved]"
  have m: "st_move d (Suc i + n) (i + n) = Inr ?d" using Suc.prems st_move_Live[of "Suc i + n" d "i + n" x] by simp
  show ?case
  proof (cases "n = 0")
    case True
    with m Suc.prems show ?thesis by (intro exI[of _ ?d]) (auto simp: le_Suc_eq)
  next
    case False
    from Suc.IH[of ?d] False Suc.prems obtain d' where
      d': "st_move_backward ?d (Suc i) n (i + n) = Inr d'" "length d' = length d" "d' ! i = Live x"
        "\<forall>j. i < j \<and> j \<le> i + n \<longrightarrow> d' ! j = Moved" "\<forall>j. j < i \<or> i + n < j \<longrightarrow> d' ! j = ?d ! j" by auto
    have "d' ! j = Moved" if "i < j" "j \<le> i + Suc n" for j
      using that d'(4,5) Suc.prems(1) by (cases "j = Suc (i + n)") auto
    moreover have "d' ! j = d ! j" if "j < i \<or> i + Suc n < j" for j
      using that d'(5) by auto
    ultimately show ?thesis using m d'(1-3) by (intro exI[of _ d']) simp
  qed
qed simp

text \<open>\<open>erase\<close> shifts in the wrong direction. Erasing a position that is not one of the last two leaves the last
  value at that position and moved-from shells after it, instead of the values that followed; only erasing one of the
  last two gives the list without the value.\<close>

theorem fixed_vector_erase:
  assumes "fv_rep v xs" "i < length xs" "length xs < length (fv_data v)"
  shows "\<exists>r v'. fv_erase v i = Inr (r, v') \<and> fv_count v' = length xs - 1 \<and>
    (if length xs \<le> i + 2 then fv_rep v' (del_at i xs)
     else fv_data v' ! i = Live (last xs) \<and> fv_data v' ! Suc i = Moved)"
proof -
  let ?d = "(fv_data v)[i := Raw]" and ?n = "length xs - Suc i"
  have c: "fv_count v = length xs" "length xs \<le> length (fv_data v)" "\<forall>i < length xs. fv_data v ! i = Live (xs ! i)"
    using assms(1) by (auto simp: fv_rep_def)
  have e: "st_erase (fv_data v) i = Inr ?d" using c assms(2) by (simp add: st_erase_def vec_get_def)
  have sl: "fv_slots v [Suc i, fv_count v, fv_count v - 1] = Inr ()" using c(1) assms(2,3) by simp
  show ?thesis
  proof (cases "?n = 0")
    case True
    then have "i = length xs - 1" using assms(2) by linarith
    with True e sl c assms(2) show ?thesis
      by (auto simp: fv_erase_def fv_rep_def del_at_def Let_def)
  next
    case False
    have "last xs = xs ! (i + ?n)" using assms(2) by (cases xs) (auto simp: last_conv_nth)
    then have l: "?d ! (i + ?n) = Live (last xs)" using c False assms(2) by auto
    have "\<forall>j. i < j \<and> j < i + ?n \<longrightarrow> ?d ! j \<noteq> Raw" using c by auto
    moreover have "i + ?n < length ?d" "0 < ?n" using c(2) assms(2) False by (simp, linarith)
    ultimately obtain d' where
      d': "st_move_backward ?d (Suc i) ?n (i + ?n) = Inr d'" "length d' = length (fv_data v)" "d' ! i = Live (last xs)"
        "\<forall>j. i < j \<and> j \<le> i + ?n \<longrightarrow> d' ! j = Moved" "\<forall>j. j < i \<or> i + ?n < j \<longrightarrow> d' ! j = ?d ! j"
      using move_left_by_one[of i ?n ?d, OF _ _ l] by auto
    have "i + ?n = length xs - 1" using assms(2) by linarith
    with e sl c d' have r: "fv_erase v i = Inr (if i \<ge> length xs - 1 then length xs - 1 else i,
        \<lparr>fv_data = d', fv_count = length xs - 1\<rparr>)" by (simp add: fv_erase_def Let_def)
    show ?thesis
    proof (cases "length xs \<le> i + 2")
      case True
      then have i: "length xs = Suc (Suc i)" using False assms(2) by linarith
      have "d' ! j = Live (del_at i xs ! j)" if "j < Suc i" for j
      proof (cases "j = i")
        case True
        have "xs \<noteq> []" using i by auto
        then show ?thesis using True d'(3) i by (simp add: del_at_def nth_append last_conv_nth)
      next
        case False
        then show ?thesis using that d'(5) c i by (auto simp: del_at_def nth_append)
      qed
      with r c d'(2) i show ?thesis by (auto simp: fv_rep_def del_at_def)
    next
      case nt: False
      with r d'(3,4) show ?thesis by auto
    qed
  qed
qed

theorem fixed_vector_erase_witness:
  "\<exists>r v'. fv_erase \<lparr>fv_data = [Live 1, Live 2, Live (3 :: nat), Raw], fv_count = 3\<rparr> 0 = Inr (r, v') \<and>
    fv_count v' = 2 \<and> fv_data v' ! 0 = Live 3"
proof -
  have "fv_rep \<lparr>fv_data = [Live 1, Live 2, Live (3 :: nat), Raw], fv_count = 3\<rparr> [1, 2, 3]"
    by (auto simp: fv_rep_def less_Suc_eq numeral_3_eq_3)
  from fixed_vector_erase[OF this, of 0] show ?thesis by auto
qed

lemma rep_take: "fv_rep \<lparr>fv_data = d, fv_count = m\<rparr> zs \<Longrightarrow> n \<le> length zs \<Longrightarrow> fv_rep \<lparr>fv_data = d, fv_count = n\<rparr> (take n zs)"
  by (auto simp: fv_rep_def)

text \<open>Inserting a range or a list opens the gap and fills it but does not count it: the vector still
  has its old size, so the last values of the sequence are no longer part of it.\<close>

theorem fixed_vector_insert_list:
  assumes "fv_rep v xs" "i \<le> length xs" "length xs + length ys < length (fv_data v)" "ys \<noteq> []"
    "length xs + length ys < 2 ^ 64"
  shows "\<exists>v'. fv_insert_list v i ys = Inr (Some i, v') \<and> fv_rep v' (take (length xs) (take i xs @ ys @ drop i xs))"
proof -
  obtain d d' where d: "fv_make_room v i (length ys) = Inr d" "emplace_slots d i ys = Inr d'"
    "fv_rep \<lparr>fv_data = d', fv_count = length xs + length ys\<rparr> (take i xs @ ys @ drop i xs)" "length d' = length (fv_data v)"
    using insert_slots_rep[OF assms(1-4)] by blast
  have "fv_rep \<lparr>fv_data = d', fv_count = length xs\<rparr> (take (length xs) (take i xs @ ys @ drop i xs))"
    by (rule rep_take[OF d(3)]) simp
  with d assms show ?thesis by (simp add: fv_insert_list_def fv_capacity_def fv_rep_def)
qed

theorem fixed_vector_insert_list_witness:
  "\<exists>v'. fv_insert_list \<lparr>fv_data = [Live 1, Live (4 :: nat), Raw, Raw, Raw], fv_count = 2\<rparr> 1 [2, 3] = Inr (Some 1, v') \<and>
    fv_rep v' [1, 2]"
proof -
  have "fv_rep \<lparr>fv_data = [Live 1, Live (4 :: nat), Raw, Raw, Raw], fv_count = 2\<rparr> [1, 4]"
    by (auto simp: fv_rep_def less_Suc_eq numeral_2_eq_2)
  from fixed_vector_insert_list[OF this, of 1 "[2, 3]"] show ?thesis by simp
qed

end
