(* ===== verification/BTree.thy ===== *)
theory BTree
  imports SortedSet
begin

text \<open>
  \<open>btree\<close> of \<^verbatim>\<open>include/txl/btree.h\<close>. A node is its vector of children, \<open>unique_ptr\<close>s that may be null
  (\<open>None\<close>), and its vector of key-value pairs. The methods that change a node return it. The
  exceptions of \<open>at\<close>, \<open>remove_at\<close> and \<open>remove_child_at\<close> are faults, as is a null pointer that
  is followed. A key that is moved keeps its value. \<open>size_t\<close> is subtracted modulo \<open>2 ^ 64\<close>.
\<close>

datatype ('k, 'v) node = Node (kids: "('k, 'v) node option list") (vals: "('k \<times> 'v) list")

record ('k, 'v) btree =
  bt_root :: "('k, 'v) node option"
  bt_degree :: nat

section \<open>Nodes\<close>

definition is_leaf :: "('k, 'v) node \<Rightarrow> bool" where
  "is_leaf n \<longleftrightarrow> kids n = [] \<or> hd (kids n) = None"

definition index_of :: "'k :: linorder \<Rightarrow> ('k, 'v) node \<Rightarrow> nat \<times> bool" where
  "index_of key n =
     (let i = lower_bound (\<lambda>v key. fst v < key) (vals n) key
      in (i, i \<noteq> length (vals n) \<and> fst (vals n ! i) = key))"

definition upper_index_of :: "'k :: linorder \<Rightarrow> ('k, 'v) node \<Rightarrow> nat \<times> bool" where
  "upper_index_of key n =
     (let i = upper_bound (\<lambda>key v. fst v \<ge> key) (vals n) key
      in (i, i \<noteq> length (vals n) \<and> fst (vals n ! i) = key))"

text \<open>\<open>*children.at(i)\<close>\<close>

definition child_at :: "nat \<Rightarrow> ('k, 'v) node \<Rightarrow> ('k, 'v) node res" where
  "child_at i n = and_then (vec_at (kids n) i) (\<lambda>c. case c of None \<Rightarrow> Inl UB | Some m \<Rightarrow> Inr m)"

lemma child_at_size: "child_at i n = Inr m \<Longrightarrow> size m < size n"
proof -
  assume "child_at i n = Inr m"
  then have i: "i < length (kids n)" "kids n ! i = Some m"
    by (auto simp: child_at_def vec_at_def and_then_def split: if_splits option.splits)
  then have "size_option size (Some m) < Suc (size_list (size_option size) (kids n))"
    by (metis nth_mem size_list_estimation' order_refl less_Suc_eq_le)
  then show ?thesis by (cases n) simp
qed

lemma kid_size: "vec_at (kids n) i = Inr (Some m) \<Longrightarrow> size m < size n"
  by (rule child_at_size[of i]) (simp add: child_at_def)

function node_find :: "'k :: linorder \<Rightarrow> ('k, 'v) node \<Rightarrow> 'v option res" where
  "node_find key n =
     (case index_of key n of (i, found) \<Rightarrow>
        if found then Inr (Some (snd (vals n ! i)))
        else if is_leaf n then Inr None
        else case child_at i n of Inl e \<Rightarrow> Inl e | Inr m \<Rightarrow> node_find key m)"
  by pat_completeness auto
termination by (relation "measure (\<lambda>(_, n). size n)") (auto simp: child_at_size)

declare node_find.simps [simp del]

definition remove_at :: "nat \<Rightarrow> ('k, 'v) node \<Rightarrow> ('k, 'v) node res" where
  "remove_at i n =
     (if i \<ge> length (vals n) then Inl (RuntimeError ''wrong index'') else Inr (Node (kids n) (del_at i (vals n))))"

definition remove_child_at :: "nat \<Rightarrow> ('k, 'v) node \<Rightarrow> ('k, 'v) node res" where
  "remove_child_at i n =
     (if i \<ge> length (kids n) then Inl (RuntimeError ''wrong index'') else Inr (Node (del_at i (kids n)) (vals n)))"

definition set_child :: "nat \<Rightarrow> ('k, 'v) node option \<Rightarrow> ('k, 'v) node \<Rightarrow> ('k, 'v) node res" where
  "set_child i c n =
     (if i = length (kids n) then Inr (Node (kids n @ [c]) (vals n))
      else and_then (vec_at (kids n) i) (\<lambda>_. Inr (Node ((kids n)[i := c]) (vals n))))"

definition replace_at :: "nat \<Rightarrow> 'k \<times> 'v \<Rightarrow> ('k, 'v) node \<Rightarrow> ('k, 'v) node res" where
  "replace_at i kv n = and_then (vec_at (vals n) i) (\<lambda>_. Inr (Node (kids n) ((vals n)[i := kv])))"

definition insert_into :: "'k :: linorder \<times> 'v \<Rightarrow> ('k, 'v) node \<Rightarrow> (nat \<times> ('k, 'v) node) res" where
  "insert_into kv n =
     (let i = fst (upper_index_of (fst kv) n)
      in and_then (vec_emplace i kv (vals n)) (\<lambda>vs. and_then (vec_emplace i None (kids n)) (\<lambda>cs.
         Inr (i, Node cs vs))))"

text \<open>\<open>split_into\<close>: the left and the right half, and the parent with the middle value.\<close>

definition split_into :: "('k :: linorder, 'v) node \<Rightarrow> ('k, 'v) node \<Rightarrow> ('k, 'v) node res" where
  "split_into n parent =
     (let mid = length (vals n) div 2
      in if length (vals n) \<le> mid \<or> length (kids n) < Suc mid then Inl UB
         else let left = Node (take (Suc mid) (kids n)) (take mid (vals n));
                  right = Node (drop (Suc mid) (kids n)) (drop (Suc mid) (vals n))
           in and_then (insert_into (vals n ! mid) parent) (\<lambda>(i, p).
              and_then (set_child i (Some left) p) (set_child (Suc i) (Some right))))"

text \<open>A node whose children have been moved out.\<close>

definition moved_out :: "('k, 'v) node \<Rightarrow> ('k, 'v) node" where
  "moved_out n = Node (map (\<lambda>_. None) (kids n)) (vals n)"

section \<open>Insertion\<close>

function insert_into_leaf :: "nat \<Rightarrow> 'k :: linorder \<times> 'v \<Rightarrow> ('k, 'v) node \<Rightarrow> (('k, 'v) node \<times> bool) res" where
  "insert_into_leaf deg kv n =
     (if \<not> is_leaf n then
        (let i = fst (index_of (fst kv) n) in
         case vec_at (kids n) i of
           Inl e \<Rightarrow> Inl e
         | Inr None \<Rightarrow> Inl (RuntimeError ''no child found'')
         | Inr (Some c) \<Rightarrow>
             (case insert_into_leaf deg kv c of
                Inl e \<Rightarrow> Inl e
              | Inr (c', ok) \<Rightarrow>
                  if \<not> ok then and_then (split_into c' (Node ((kids n)[i := Some (moved_out c')]) (vals n)))
                    (\<lambda>n'. Inr (n', length (vals n') < deg))
                  else Inr (Node ((kids n)[i := Some c']) (vals n), True)))
      else and_then (insert_into kv n) (\<lambda>(_, n'). Inr (n', length (vals n') < deg)))"
  by pat_completeness auto
termination
  by (relation "measure (\<lambda>(_, _, n). size n)") (auto dest: kid_size)

declare insert_into_leaf.simps [simp del]

definition bt_new :: "nat \<Rightarrow> ('k, 'v) btree" where
  "bt_new deg = \<lparr>bt_root = None, bt_degree = deg\<rparr>"

definition bt_find :: "'k :: linorder \<Rightarrow> ('k, 'v) btree \<Rightarrow> 'v option res" where
  "bt_find key t = (case bt_root t of None \<Rightarrow> Inr None | Some n \<Rightarrow> node_find key n)"

definition bt_insert :: "'k :: linorder \<times> 'v \<Rightarrow> ('k, 'v) btree \<Rightarrow> ('k, 'v) btree res" where
  "bt_insert kv t =
     (let root = (case bt_root t of None \<Rightarrow> Node [] [] | Some n \<Rightarrow> n)
      in and_then (insert_into_leaf (bt_degree t) kv root) (\<lambda>(root', ok).
         if \<not> ok then and_then (split_into root' (Node [] [])) (\<lambda>new_root. Inr (t\<lparr>bt_root := Some new_root\<rparr>))
         else Inr (t\<lparr>bt_root := Some root'\<rparr>)))"

section \<open>Removal\<close>

definition wrap_pred :: "nat \<Rightarrow> nat" where
  "wrap_pred n = (if n = 0 then 2 ^ 64 - 1 else n - 1)"

definition underflows :: "nat \<Rightarrow> ('k, 'v) node \<Rightarrow> bool" where
  "underflows deg n \<longleftrightarrow> length (vals n) < wrap_pred deg"

definition rotate_left ::
  "nat \<Rightarrow> ('k, 'v) node \<Rightarrow> ('k, 'v) node \<Rightarrow> ('k, 'v) node \<Rightarrow> ('k, 'v) node res" where
  "rotate_left i parent l r =
     and_then (vec_at (vals parent) i) (\<lambda>next_left.
     and_then (remove_at i parent) (\<lambda>p.
     and_then (vec_get (vals r) 0) (\<lambda>next_parent.
     and_then (vec_emplace i next_parent (vals p)) (\<lambda>vs.
     and_then (vec_get (kids r) 0) (\<lambda>next_child.
     and_then (remove_at 0 r) (\<lambda>r.
     and_then (remove_child_at 0 r) (\<lambda>r.
       Inr (Node ((kids p)[i := Some (Node (kids l @ [next_child]) (vals l @ [next_left])), Suc i := Some r]) vs))))))))"

definition rotate_right ::
  "nat \<Rightarrow> ('k, 'v) node \<Rightarrow> ('k, 'v) node \<Rightarrow> ('k, 'v) node \<Rightarrow> ('k, 'v) node res" where
  "rotate_right i parent l r =
     and_then (vec_at (vals parent) i) (\<lambda>next_right.
     and_then (remove_at i parent) (\<lambda>p.
     and_then (vec_get (vals l) (wrap_pred (length (vals l)))) (\<lambda>next_parent.
     and_then (vec_emplace i next_parent (vals p)) (\<lambda>vs.
     and_then (vec_get (kids l) (wrap_pred (length (kids l)))) (\<lambda>next_child.
     let old = length (vals l) in
     and_then (remove_at (wrap_pred old) l) (\<lambda>l.
     and_then (remove_child_at old l) (\<lambda>l.
       Inr (Node ((kids p)[i := Some l, Suc i := Some (Node (next_child # kids r) (next_right # vals r))]) vs))))))))"

definition merge_nodes ::
  "nat \<Rightarrow> ('k :: linorder, 'v) node \<Rightarrow> ('k, 'v) node \<Rightarrow> ('k, 'v) node \<Rightarrow> ('k, 'v) node res" where
  "merge_nodes i parent l r =
     and_then (vec_at (vals parent) i) (\<lambda>kv.
     and_then (insert_into kv l) (\<lambda>(j, l).
     and_then (remove_child_at j l) (\<lambda>l.
     and_then (remove_at i parent) (\<lambda>p.
       remove_child_at (Suc i) (Node ((kids p)[i := Some (Node (kids l @ kids r) (vals l @ vals r))]) (vals p))))))"

definition rebalance :: "nat \<Rightarrow> ('k :: linorder, 'v) node \<Rightarrow> nat \<Rightarrow> (('k, 'v) node \<times> bool) res" where
  "rebalance deg parent pvi =
     (let i = (if pvi = wrap_pred (length (kids parent)) then wrap_pred pvi else pvi)
      in and_then (child_at i parent) (\<lambda>l. and_then (child_at (Suc i) parent) (\<lambda>r.
         if underflows deg l \<and> length (vals r) > 1 then and_then (rotate_left i parent l r) (\<lambda>p. Inr (p, True))
         else if underflows deg r \<and> length (vals l) > 1 then and_then (rotate_right i parent l r) (\<lambda>p. Inr (p, True))
         else if underflows deg l \<or> underflows deg r then and_then (merge_nodes i parent l r) (\<lambda>p. Inr (p, True))
         else Inr (parent, False))))"

definition set_kid :: "nat \<Rightarrow> ('k, 'v) node \<Rightarrow> ('k, 'v) node \<Rightarrow> ('k, 'v) node" where
  "set_kid i c n = Node ((kids n)[i := Some c]) (vals n)"

function steal_max :: "nat \<Rightarrow> ('k :: linorder, 'v) node \<Rightarrow> (('k \<times> 'v) \<times> ('k, 'v) node) res" where
  "steal_max deg n =
     (if is_leaf n then
        and_then (vec_get (vals n) (wrap_pred (length (vals n)))) (\<lambda>kv.
        and_then (remove_at (wrap_pred (length (vals n))) n) (\<lambda>n'. Inr (kv, n')))
      else let i = wrap_pred (length (kids n)) in
        case child_at i n of
          Inl e \<Rightarrow> Inl e
        | Inr c \<Rightarrow>
            and_then (steal_max deg c) (\<lambda>(kv, c').
            and_then (rebalance deg (set_kid i c' n) (wrap_pred (length (vals n)))) (\<lambda>(n', _). Inr (kv, n'))))"
  by pat_completeness auto
termination by (relation "measure (\<lambda>(_, n). size n)") (auto simp: child_at_size)

text \<open>The result: the node, whether the key was found, whether to rebalance.\<close>

function remove_from :: "nat \<Rightarrow> 'k :: linorder \<Rightarrow> ('k, 'v) node \<Rightarrow> (('k, 'v) node \<times> bool \<times> bool) res" where
  "remove_from deg key n =
     (case index_of key n of (i, found) \<Rightarrow>
        if \<not> found then
          (if is_leaf n then Inr (n, False, False)
           else case child_at i n of
             Inl e \<Rightarrow> Inl e
           | Inr c \<Rightarrow>
               and_then (remove_from deg key c) (\<lambda>(c', f, rb).
                 let n1 = set_kid i c' n in
                 if \<not> rb then Inr (n1, f, rb)
                 else if length (vals n1) \<noteq> 0 then and_then (rebalance deg n1 i) (\<lambda>(n2, _). Inr (n2, f, rb))
                 else if length (vals c') = 0 then
                   and_then (vec_at (kids c') 0) (\<lambda>g. Inr (Node ((kids n1)[i := g]) (vals n1), f, rb))
                 else Inr (n1, f, rb)))
        else if is_leaf n then and_then (remove_at i n) (\<lambda>n'. Inr (n', True, True))
        else
          and_then (child_at i n) (\<lambda>c.
          and_then (steal_max deg c) (\<lambda>(kv, c').
          and_then (replace_at i kv (set_kid i c' n)) (\<lambda>n2.
          and_then (rebalance deg n2 i) (\<lambda>(n3, _). Inr (n3, True, True))))))"
  by pat_completeness auto
termination by (relation "measure (\<lambda>(_, _, n). size n)") (auto simp: child_at_size)

declare steal_max.simps [simp del] remove_from.simps [simp del]

definition bt_remove :: "'k :: linorder \<Rightarrow> ('k, 'v) btree \<Rightarrow> ('k, 'v) btree res" where
  "bt_remove key t =
     (case bt_root t of None \<Rightarrow> Inr t
      | Some n \<Rightarrow> and_then (remove_from (bt_degree t) key n) (\<lambda>(n', _).
          if length (kids n') = 1 then and_then (vec_at (kids n') 0) (\<lambda>c. Inr (t\<lparr>bt_root := c\<rparr>))
          else Inr (t\<lparr>bt_root := Some n'\<rparr>)))"

end
