(* ===== verification/BTreeInsert.thy ===== *)
theory BTreeInsert
  imports BTree
begin

text \<open>
  What the searches and the insertion of \<^verbatim>\<open>btree.h\<close> do: a tree is the sorted list of its pairs
  (\<open>inorder\<close>); \<open>find\<close> looks a key up in this list and an insertion of an absent key inserts into
  it, keeping the order, the equal depth of the leaves and the bound on the values of a node.
\<close>

section \<open>The pairs of a tree in order\<close>

fun weave :: "'a list list \<Rightarrow> 'a list \<Rightarrow> 'a list" where
  "weave (c # cs) (v # vs) = c @ v # weave cs vs"
| "weave cs [] = concat cs"
| "weave [] vs = vs"

function inorder :: "('k, 'v) node \<Rightarrow> ('k \<times> 'v) list" where
  "inorder (Node cs vs) = weave (map (\<lambda>c. case c of None \<Rightarrow> [] | Some n \<Rightarrow> inorder n) cs) vs"
  by pat_completeness auto
termination
proof (relation "measure size", goal_cases)
  case (2 cs vs z x2)
  then have "size_option size (Some x2) < Suc (size_list (size_option size) cs)"
    by (metis size_list_estimation' order_refl less_Suc_eq_le)
  then show ?case by simp
qed simp

abbreviation kid_pairs :: "('k, 'v) node option \<Rightarrow> ('k \<times> 'v) list" where
  "kid_pairs c \<equiv> (case c of None \<Rightarrow> [] | Some n \<Rightarrow> inorder n)"

text \<open>Around child number \<open>length vs1\<close>.\<close>

definition before :: "'a list list \<Rightarrow> 'a list \<Rightarrow> 'a list" where
  "before cs vs = concat (map2 (\<lambda>c v. c @ [v]) cs vs)"

definition after :: "'a list \<Rightarrow> 'a list list \<Rightarrow> 'a list" where
  "after vs cs = concat (map2 (\<lambda>v c. v # c) vs cs)"

lemma weave_cons: "length vs = length cs \<Longrightarrow> weave (c # cs) vs = c @ after vs cs"
  by (induction cs arbitrary: c vs) (case_tac vs; auto simp: after_def)+

lemma weave_at:
  "length cs1 = length vs1 \<Longrightarrow> length cs2 = length vs2 \<Longrightarrow>
   weave (cs1 @ c # cs2) (vs1 @ vs2) = before cs1 vs1 @ c @ after vs2 cs2"
proof (induction cs1 vs1 rule: list_induct2)
  case Nil
  then show ?case using weave_cons[of vs2 cs2 c] by (simp add: before_def)
next
  case (Cons c1 cs1 v1 vs1)
  then show ?case by (simp add: before_def)
qed

lemma weave_empty: "set cs \<subseteq> {[]} \<Longrightarrow> weave cs vs = vs"
  by (induction cs vs rule: weave.induct) auto

lemma set_after: "length vs = length cs \<Longrightarrow> set vs \<subseteq> set (after vs cs)"
  by (induction vs cs rule: list_induct2) (auto simp: after_def)

lemma set_before: "length cs = length vs \<Longrightarrow> set vs \<subseteq> set (before cs vs)"
  by (induction cs vs rule: list_induct2) (auto simp: before_def)

section \<open>Well-formed trees\<close>

text \<open>All leaves at depth \<open>h\<close>: a leaf has null children, at least as many as values; an inner node has one
  child more than values.\<close>

fun shaped :: "nat \<Rightarrow> ('k, 'v) node \<Rightarrow> bool" where
  "shaped 0 n \<longleftrightarrow> set (kids n) \<subseteq> {None} \<and> length (vals n) \<le> length (kids n)"
| "shaped (Suc h) n \<longleftrightarrow> length (kids n) = Suc (length (vals n)) \<and> (\<forall>c \<in> set (kids n). \<exists>m. c = Some m \<and> shaped h m)"

fun bounded :: "nat \<Rightarrow> nat \<Rightarrow> ('k, 'v) node \<Rightarrow> bool" where
  "bounded d 0 n \<longleftrightarrow> length (vals n) < d"
| "bounded d (Suc h) n \<longleftrightarrow> length (vals n) < d \<and> (\<forall>c \<in> set (kids n). \<exists>m. c = Some m \<and> bounded d h m)"

definition keys_ordered :: "('k :: linorder \<times> 'v) list \<Rightarrow> bool" where
  "keys_ordered kvs \<longleftrightarrow> sorted_wrt (<) (map fst kvs)"

lemma keys_ordered_append: "keys_ordered (xs @ ys) \<longleftrightarrow> keys_ordered xs \<and> keys_ordered ys \<and> (\<forall>x \<in> set xs. \<forall>y \<in> set ys. fst x < fst y)"
  by (auto simp: keys_ordered_def sorted_wrt_append)

lemma keys_ordered_Cons: "keys_ordered (x # xs) \<longleftrightarrow> (\<forall>y \<in> set xs. fst x < fst y) \<and> keys_ordered xs"
  by (auto simp: keys_ordered_def)

lemma leaf_shaped: "shaped h n \<Longrightarrow> is_leaf n \<longleftrightarrow> h = 0"
proof (cases h)
  case 0
  moreover assume "shaped h n"
  ultimately show ?thesis by (cases "kids n") (auto simp: is_leaf_def)
next
  case (Suc h')
  moreover assume "shaped h n"
  ultimately show ?thesis by (cases "kids n") (auto simp: is_leaf_def)
qed

lemma inorder_leaf:
  assumes "shaped 0 n"
  shows "inorder n = vals n"
proof (cases n)
  case (Node cs vs)
  then have n: "\<forall>c \<in> set cs. c = None" using assms by auto
  have "set (map kid_pairs cs) \<subseteq> {[]}"
  proof
    fix x assume "x \<in> set (map kid_pairs cs)"
    then obtain c where c: "c \<in> set cs" "x = kid_pairs c" by auto
    then have "c = None" using n by blast
    with c(2) show "x \<in> {[]}" by simp
  qed
  with Node show ?thesis by (simp add: weave_empty)
qed

text \<open>An inner node around its child number \<open>i\<close>.\<close>

lemma inorder_at:
  assumes "length (kids n) = Suc (length (vals n))" "i \<le> length (vals n)"
  shows "inorder n = before (map kid_pairs (take i (kids n))) (take i (vals n)) @ kid_pairs (kids n ! i) @
    after (drop i (vals n)) (map kid_pairs (drop (Suc i) (kids n)))"
proof -
  have "kids n = take i (kids n) @ kids n ! i # drop (Suc i) (kids n)"
    using assms by (simp add: id_take_nth_drop)
  then have "map kid_pairs (kids n) = map kid_pairs (take i (kids n)) @ kid_pairs (kids n ! i) # map kid_pairs (drop (Suc i) (kids n))"
    by (metis map_append list.simps(9))
  moreover have "vals n = take i (vals n) @ drop i (vals n)" by simp
  ultimately show ?thesis using assms
    by (cases n) (metis (no_types, lifting) inorder.simps weave_at length_map length_take length_drop min_absorb2
      diff_Suc_Suc le_SucI node.sel)
qed

lemma weave_vals: "set vs \<subseteq> set (weave cs vs)"
  by (induction cs vs rule: weave.induct) auto

lemma keys_ordered_weave: "keys_ordered (weave cs vs) \<Longrightarrow> keys_ordered vs"
proof (induction cs vs rule: weave.induct)
  case (1 c cs v vs)
  then show ?case using weave_vals[of vs cs] by (auto simp: keys_ordered_append keys_ordered_Cons)
qed (auto simp: keys_ordered_def)

lemma keys_ordered_vals: "keys_ordered (inorder n) \<Longrightarrow> keys_ordered (vals n)"
  using keys_ordered_weave by (cases n) force

lemma before_le:
  "length cs = length vs \<Longrightarrow> keys_ordered (before cs vs) \<Longrightarrow> a \<in> set (before cs vs) \<Longrightarrow>
   \<exists>v \<in> set vs. fst a \<le> fst (v :: 'k :: linorder \<times> 'v)"
  by (induction cs vs rule: list_induct2)
     (auto simp: before_def keys_ordered_append keys_ordered_Cons intro: less_imp_le)

lemma after_ge:
  "length vs = length cs \<Longrightarrow> keys_ordered (after vs cs) \<Longrightarrow> b \<in> set (after vs cs) \<Longrightarrow>
   \<exists>v \<in> set vs. fst (v :: 'k :: linorder \<times> 'v) \<le> fst b"
  by (induction vs cs rule: list_induct2)
     (auto simp: after_def keys_ordered_append keys_ordered_Cons intro: less_imp_le)

section \<open>Searching in a node\<close>

lemma index_split:
  assumes "keys_ordered (vals n)"
  obtains vs1 vs2 where "vals n = vs1 @ vs2" "\<forall>v \<in> set vs1. fst v < key" "\<forall>v \<in> set vs2. key \<le> fst v"
    "index_of key n = (length vs1, vs2 \<noteq> [] \<and> fst (hd vs2) = key)" "fst (upper_index_of key n) = length vs1"
proof -
  let ?p = "\<lambda>v. fst v < key"
  define vs1 vs2 where "vs1 = takeWhile ?p (vals n)" and "vs2 = dropWhile ?p (vals n)"
  then have vs: "vals n = vs1 @ vs2" and lt: "\<forall>v \<in> set vs1. fst v < key" and hd: "vs2 \<noteq> [] \<Longrightarrow> \<not> fst (hd vs2) < key"
    using hd_dropWhile[of ?p "vals n"] by (auto dest: set_takeWhileD)
  have "sorted (map fst (vals n))" using assms by (simp add: keys_ordered_def strict_sorted_iff)
  then have part: "partitioned ?p (vals n)"
    unfolding partitioned_def by (auto dest: sorted_nth_mono[of "map fst (vals n)"] intro: le_less_trans)
  then have i: "partition_point ?p (vals n) = length vs1" unfolding vs1_def by (rule partition_point_takeWhile)
  have "\<forall>v \<in> set vs2. key \<le> fst v"
  proof (cases vs2)
    case (Cons v ws)
    moreover have "keys_ordered vs2" using assms vs by (simp add: keys_ordered_append)
    ultimately show ?thesis using hd by (auto simp: keys_ordered_Cons)
  qed simp
  moreover have "index_of key n = (length vs1, vs2 \<noteq> [] \<and> fst (hd vs2) = key)"
    using i vs by (auto simp: index_of_def lower_bound_def Let_def nth_append hd_conv_nth)
  moreover have "fst (upper_index_of key n) = length vs1"
    using i by (simp add: upper_index_of_def upper_bound_def Let_def not_le)
  ultimately show thesis using that[OF vs lt] by blast
qed

text \<open>The child a search descends into, and what lies before and after it.\<close>

lemma inner_split:
  assumes "shaped (Suc h) n" "keys_ordered (inorder n)"
  obtains cs1 m cs2 vs1 vs2 where "n = Node (cs1 @ Some m # cs2) (vs1 @ vs2)" "length cs1 = length vs1" "length cs2 = length vs2"
    "shaped h m" "index_of key n = (length vs1, vs2 \<noteq> [] \<and> fst (hd vs2) = key)" "fst (upper_index_of key n) = length vs1"
    "inorder n = before (map kid_pairs cs1) vs1 @ inorder m @ after vs2 (map kid_pairs cs2)"
    "\<forall>v \<in> set vs1. fst v < key" "\<forall>v \<in> set vs2. key \<le> fst v"
    "\<forall>a \<in> set (before (map kid_pairs cs1) vs1). fst a < key" "\<forall>b \<in> set (after vs2 (map kid_pairs cs2)). key \<le> fst b"
    "\<forall>c \<in> set cs1 \<union> set cs2. \<exists>m. c = Some m \<and> shaped h m"
proof -
  obtain vs1 vs2 where vs: "vals n = vs1 @ vs2" "\<forall>v \<in> set vs1. fst v < key" "\<forall>v \<in> set vs2. key \<le> fst v"
    "index_of key n = (length vs1, vs2 \<noteq> [] \<and> fst (hd vs2) = key)" "fst (upper_index_of key n) = length vs1"
    by (rule index_split[OF keys_ordered_vals[OF assms(2)], of key])
  have len: "length (kids n) = Suc (length (vals n))" using assms(1) by simp
  let ?cs1 = "take (length vs1) (kids n)" and ?c = "kids n ! length vs1" and ?cs2 = "drop (Suc (length vs1)) (kids n)"
  have ks: "kids n = ?cs1 @ ?c # ?cs2" using len vs(1) by (simp add: id_take_nth_drop)
  have l: "length ?cs1 = length vs1" "length ?cs2 = length vs2" using len vs(1) by auto
  have all: "\<forall>c \<in> set (kids n). \<exists>m. c = Some m \<and> shaped h m" using assms(1) by simp
  moreover have "?c \<in> set (kids n)" using len vs(1) by (intro nth_mem) simp
  ultimately obtain m where m: "?c = Some m" "shaped h m" by blast
  have in_n: "inorder n = before (map kid_pairs ?cs1) vs1 @ inorder m @ after vs2 (map kid_pairs ?cs2)"
    using inorder_at[OF len, of "length vs1"] vs(1) m(1) by simp
  have "keys_ordered (before (map kid_pairs ?cs1) vs1)" "keys_ordered (after vs2 (map kid_pairs ?cs2))"
    using assms(2) unfolding in_n by (auto simp: keys_ordered_append)
  note ord = this
  have "\<forall>a \<in> set (before (map kid_pairs ?cs1) vs1). fst a < key"
  proof
    fix a assume "a \<in> set (before (map kid_pairs ?cs1) vs1)"
    then have "\<exists>v \<in> set vs1. fst a \<le> fst v" by (rule before_le[OF _ ord(1), rotated]) (use l(1) in simp)
    with vs(2) show "fst a < key" by (meson le_less_trans)
  qed
  moreover have "\<forall>b \<in> set (after vs2 (map kid_pairs ?cs2)). key \<le> fst b"
  proof
    fix b assume "b \<in> set (after vs2 (map kid_pairs ?cs2))"
    then have "\<exists>v \<in> set vs2. fst v \<le> fst b" by (rule after_ge[OF _ ord(2), rotated]) (use l(2) in simp)
    with vs(3) show "key \<le> fst b" by (meson order_trans)
  qed
  moreover have "n = Node (?cs1 @ Some m # ?cs2) (vs1 @ vs2)" using ks m(1) vs(1) by (cases n) simp
  moreover have "\<forall>c \<in> set ?cs1 \<union> set ?cs2. \<exists>m. c = Some m \<and> shaped h m"
    using all by (auto dest: in_set_takeD in_set_dropD)
  ultimately show thesis using that[OF _ l m(2) vs(4,5) in_n vs(2,3)] by blast
qed

lemma map_of_absent: "\<forall>a \<in> set xs. fst a \<noteq> k \<Longrightarrow> map_of xs k = None"
  by (auto simp: map_of_eq_None_iff)

lemma map_of_found: "vs \<noteq> [] \<Longrightarrow> map_of vs (fst (hd vs)) = Some (snd (hd vs))"
  by (cases vs) auto

lemma node_find_correct:
  "shaped h n \<Longrightarrow> keys_ordered (inorder n) \<Longrightarrow> node_find key n = Inr (map_of (inorder n) key)"
proof (induction h arbitrary: n)
  case 0
  obtain vs1 vs2 where vs: "vals n = vs1 @ vs2" "\<forall>v \<in> set vs1. fst v < key" "\<forall>v \<in> set vs2. key \<le> fst v"
    "index_of key n = (length vs1, vs2 \<noteq> [] \<and> fst (hd vs2) = key)" "fst (upper_index_of key n) = length vs1"
    by (rule index_split[OF keys_ordered_vals[OF 0(2)], of key])
  have 1: "map_of vs1 key = None" using vs(2) by (intro map_of_absent) auto
  show ?case
  proof (cases "vs2 \<noteq> [] \<and> fst (hd vs2) = key")
    case True
    then obtain v ws where "vs2 = v # ws" "fst v = key" by (cases vs2) auto
    then show ?thesis using vs(1,4) 1
      by (subst node_find.simps) (auto simp: inorder_leaf[OF 0(1)] map_add_def)
  next
    case False
    have "map_of vs2 key = None"
    proof (rule map_of_absent, cases vs2)
      case (Cons v ws)
      have "keys_ordered vs2" using keys_ordered_vals[OF 0(2)] vs(1) by (simp add: keys_ordered_append)
      then show "\<forall>a \<in> set vs2. fst a \<noteq> key" using Cons False vs(3) by (auto simp: keys_ordered_Cons)
    qed simp
    then show ?thesis using vs False 1 leaf_shaped[OF 0(1)]
      by (subst node_find.simps) (auto simp: inorder_leaf[OF 0(1)] map_add_def)
  qed
next
  case (Suc h)
  obtain cs1 m cs2 vs1 vs2 where i: "n = Node (cs1 @ Some m # cs2) (vs1 @ vs2)" "length cs1 = length vs1" "length cs2 = length vs2"
    "shaped h m" "index_of key n = (length vs1, vs2 \<noteq> [] \<and> fst (hd vs2) = key)" "fst (upper_index_of key n) = length vs1"
    "inorder n = before (map kid_pairs cs1) vs1 @ inorder m @ after vs2 (map kid_pairs cs2)"
    "\<forall>v \<in> set vs1. fst v < key" "\<forall>v \<in> set vs2. key \<le> fst v"
    "\<forall>a \<in> set (before (map kid_pairs cs1) vs1). fst a < key" "\<forall>b \<in> set (after vs2 (map kid_pairs cs2)). key \<le> fst b"
    "\<forall>c \<in> set cs1 \<union> set cs2. \<exists>m. c = Some m \<and> shaped h m"
    by (rule inner_split[OF Suc.prems, of key])
  let ?A = "before (map kid_pairs cs1) vs1" and ?B = "after vs2 (map kid_pairs cs2)"
  have A: "map_of ?A key = None" using i(10) by (intro map_of_absent) auto
  have ord: "keys_ordered (inorder m)" "keys_ordered ?B" "\<forall>x \<in> set (inorder m). \<forall>y \<in> set ?B. fst x < fst y"
    using Suc.prems(2) i(7) by (auto simp: keys_ordered_append)
  show ?case
  proof (cases "vs2 \<noteq> [] \<and> fst (hd vs2) = key")
    case True
    then obtain v ws where v: "vs2 = v # ws" "fst v = key" by (cases vs2) auto
    then obtain B' where B': "?B = v # B'" using i(3) by (cases cs2) (auto simp: after_def)
    have "map_of (inorder m) key = None" using ord(3) B' v by (intro map_of_absent) auto
    then have "map_of (inorder n) key = Some (snd v)" using A B' v i(7) by (auto simp: map_add_def)
    then show ?thesis using i(1,5) v by (subst node_find.simps) simp
  next
    case False
    have "map_of ?B key = None"
    proof (rule map_of_absent, cases vs2)
      case Nil
      then show "\<forall>b \<in> set ?B. fst b \<noteq> key" by (simp add: after_def)
    next
      case (Cons v ws)
      then obtain B' where B': "?B = v # B'" using i(3) by (cases cs2) (auto simp: after_def)
      then show "\<forall>b \<in> set ?B. fst b \<noteq> key" using Cons False i(9) ord(2) by (auto simp: keys_ordered_Cons)
    qed
    moreover have "child_at (length vs1) n = Inr m" using i(1,2) by (simp add: child_at_def vec_at_def nth_append)
    moreover have "\<not> is_leaf n" using leaf_shaped[OF Suc.prems(1)] by simp
    ultimately show ?thesis using Suc.IH[OF i(4) ord(1)] A i(5,7) False
      by (subst node_find.simps) (auto simp: map_add_def split: option.split)
  qed
qed


section \<open>Splitting\<close>

definition kids_bounded :: "nat \<Rightarrow> nat \<Rightarrow> ('k, 'v) node \<Rightarrow> bool" where
  "kids_bounded d h n \<longleftrightarrow> (\<forall>h'. h = Suc h' \<longrightarrow> (\<forall>c \<in> set (kids n). \<exists>m. c = Some m \<and> bounded d h' m))"

lemma bounded_iff: "bounded d h n \<longleftrightarrow> length (vals n) < d \<and> kids_bounded d h n"
  by (cases h) (auto simp: kids_bounded_def)

definition left_half :: "('k, 'v) node \<Rightarrow> ('k, 'v) node" where
  "left_half n = Node (take (Suc (length (vals n) div 2)) (kids n)) (take (length (vals n) div 2) (vals n))"

definition right_half :: "('k, 'v) node \<Rightarrow> ('k, 'v) node" where
  "right_half n = Node (drop (Suc (length (vals n) div 2)) (kids n)) (drop (Suc (length (vals n) div 2)) (vals n))"

lemma kids_sub: "\<forall>c \<in> set cs. P c \<Longrightarrow> (\<forall>c \<in> set (take k cs). P c) \<and> (\<forall>c \<in> set (drop k cs). P c)"
  by (meson in_set_dropD in_set_takeD)

lemma halves_shaped:
  assumes "shaped h n" "kids_bounded d h n" "vals n \<noteq> []" "length (vals n) \<le> d"
  shows "shaped h (left_half n) \<and> shaped h (right_half n) \<and> bounded d h (left_half n) \<and> bounded d h (right_half n) \<and>
    Suc (length (vals n) div 2) \<le> length (kids n) \<and> length (vals n) div 2 < length (vals n)"
proof (cases h)
  case 0
  have "0 < length (vals n)" using assms(3) by simp
  then have l: "Suc (length (vals n) div 2) \<le> length (vals n)" by linarith
  have "set (take k (kids n)) \<subseteq> {None} \<and> set (drop k (kids n)) \<subseteq> {None}" for k
    using assms(1) 0 set_take_subset[of k "kids n"] set_drop_subset[of k "kids n"] by auto
  then show ?thesis using 0 assms(1,4) l by (auto simp: left_half_def right_half_def)
next
  case (Suc h')
  have "0 < length (vals n)" using assms(3) by simp
  then have l: "Suc (length (vals n) div 2) \<le> length (vals n)" by linarith
  have len: "length (kids n) = Suc (length (vals n))" using assms(1) Suc by simp
  have sh: "\<forall>c \<in> set (kids n). \<exists>m. c = Some m \<and> shaped h' m" using assms(1) Suc by simp
  have bd: "\<forall>c \<in> set (kids n). \<exists>m. c = Some m \<and> bounded d h' m" using assms(2) Suc by (simp add: kids_bounded_def)
  let ?k = "Suc (length (vals n) div 2)"
  note sub = kids_sub[OF sh, of ?k] kids_sub[OF bd, of ?k]
  have "shaped h (left_half n)" unfolding Suc left_half_def shaped.simps node.sel
    by (rule conjI[OF _ conjunct1[OF sub(1)]]) (use len l in simp)
  moreover have "shaped h (right_half n)" unfolding Suc right_half_def shaped.simps node.sel
    by (rule conjI[OF _ conjunct2[OF sub(1)]]) (use len l in simp)
  moreover have "bounded d h (left_half n)" unfolding Suc left_half_def bounded.simps node.sel
    by (rule conjI[OF _ conjunct1[OF sub(2)]]) (use l assms(4) in simp)
  moreover have "bounded d h (right_half n)" unfolding Suc right_half_def bounded.simps node.sel
    by (rule conjI[OF _ conjunct2[OF sub(2)]]) (use l assms(4) in simp)
  ultimately show ?thesis using len l by simp
qed

lemma halves_inorder:
  assumes "shaped h n" "vals n \<noteq> []"
  shows "inorder n = inorder (left_half n) @ vals n ! (length (vals n) div 2) # inorder (right_half n)"
proof -
  let ?m = "length (vals n) div 2"
  have m: "?m < length (vals n)" using assms(2) by (cases "vals n") auto
  then have v: "vals n = take ?m (vals n) @ vals n ! ?m # drop (Suc ?m) (vals n)" by (rule id_take_nth_drop)
  show ?thesis
  proof (cases h)
    case 0
    have s: "shaped 0 (left_half n)" "shaped 0 (right_half n)"
      using halves_shaped[OF assms(1) _ assms(2), of "length (vals n)"] 0 by (auto simp: kids_bounded_def)
    have "inorder n = vals n" using assms(1) 0 by (simp add: inorder_leaf)
    moreover have "inorder (left_half n) = take ?m (vals n)" "inorder (right_half n) = drop (Suc ?m) (vals n)"
      using inorder_leaf[OF s(1)] inorder_leaf[OF s(2)] by (simp_all add: left_half_def right_half_def)
    ultimately show ?thesis using v by simp
  next
    case (Suc h')
    have len: "length (kids n) = Suc (length (vals n))" using assms(1) Suc by simp
    let ?ks = "map kid_pairs (kids n)"
    have L: "length (take ?m (kids n)) = ?m" using len m by simp
    have k: "?ks = map kid_pairs (take ?m (kids n)) @ kid_pairs (kids n ! ?m) # map kid_pairs (drop (Suc ?m) (kids n))"
      using len m by (metis id_take_nth_drop less_SucI list.simps(9) map_append)
    obtain c rest where c: "drop (Suc ?m) (kids n) = c # rest" "length rest = length (drop (Suc ?m) (vals n))"
      using len m by (cases "drop (Suc ?m) (kids n)") (auto dest: arg_cong[of _ _ length])
    have lft: "inorder (left_half n) = before (map kid_pairs (take ?m (kids n))) (take ?m (vals n)) @ kid_pairs (kids n ! ?m)"
      using weave_at[of "map kid_pairs (take ?m (kids n))" "take ?m (vals n)" "[]" "[]" "kid_pairs (kids n ! ?m)"] len m
      by (simp add: left_half_def take_Suc_conv_app_nth after_def)
    have rgt: "inorder (right_half n) = kid_pairs c @ after (drop (Suc ?m) (vals n)) (map kid_pairs rest)"
      using weave_cons[of "drop (Suc ?m) (vals n)" "map kid_pairs rest" "kid_pairs c"] c
      by (simp add: right_half_def)
    have "inorder n = weave ?ks (vals n)" by (cases n) simp
    also have "\<dots> = before (map kid_pairs (take ?m (kids n))) (take ?m (vals n)) @ kid_pairs (kids n ! ?m) @
        after (vals n ! ?m # drop (Suc ?m) (vals n)) (map kid_pairs (drop (Suc ?m) (kids n)))"
      unfolding k by (subst (2) v, rule weave_at) (use len m in auto)
    finally show ?thesis unfolding lft rgt c(1) by (simp add: after_def)
  qed
qed


lemma upper_index_at:
  assumes "keys_ordered (vs1 @ vs2)" "\<forall>v \<in> set vs1. fst v < key" "\<forall>v \<in> set vs2. key \<le> fst v"
  shows "fst (upper_index_of key (Node cs (vs1 @ vs2))) = length vs1"
proof -
  let ?p = "\<lambda>v. fst v < key"
  have "sorted (map fst (vs1 @ vs2))" using assms(1) by (simp only: keys_ordered_def strict_sorted_iff)
  then have "partitioned ?p (vs1 @ vs2)"
    unfolding partitioned_def
    by (metis (no_types, lifting) le_less_trans length_map nth_map sorted_nth_mono order.strict_trans1)
  then have "partition_point ?p (vs1 @ vs2) = length (takeWhile ?p (vs1 @ vs2))" by (rule partition_point_takeWhile)
  moreover have "takeWhile ?p (vs1 @ vs2) = vs1 @ takeWhile ?p vs2"
    using assms(2) by (simp add: takeWhile_append2)
  moreover have "takeWhile ?p vs2 = []" using assms(3) by (cases vs2) auto
  ultimately show ?thesis by (simp add: upper_index_of_def upper_bound_def Let_def not_le)
qed

lemma split_into_at:
  assumes "Suc (length (vals n) div 2) \<le> length (kids n)" "length (vals n) div 2 < length (vals n)"
    "length cs1 = length vs1" "fst (upper_index_of (fst (vals n ! (length (vals n) div 2))) (Node (cs1 @ X # cs2) (vs1 @ vs2))) = length vs1"
  shows "split_into n (Node (cs1 @ X # cs2) (vs1 @ vs2)) =
    Inr (Node (cs1 @ Some (left_half n) # Some (right_half n) # cs2) (vs1 @ vals n ! (length (vals n) div 2) # vs2))"
  using assms
  by (simp add: split_into_def insert_into_def Let_def vec_emplace_def ins_at_def set_child_def vec_at_def
      left_half_def right_half_def list_update_append nth_append)

lemma split_into_root:
  assumes "Suc (length (vals n) div 2) \<le> length (kids n)" "length (vals n) div 2 < length (vals n)"
  shows "split_into n (Node [] []) =
    Inr (Node [Some (left_half n), Some (right_half n)] [vals n ! (length (vals n) div 2)])"
  using assms upper_index_at[of "[]" "[]" _ "[]"]
  by (simp add: split_into_def insert_into_def Let_def vec_emplace_def ins_at_def set_child_def vec_at_def
      left_half_def right_half_def keys_ordered_def)

section \<open>Insertion\<close>

definition ins_kv :: "'k :: linorder \<times> 'v \<Rightarrow> ('k \<times> 'v) list \<Rightarrow> ('k \<times> 'v) list" where
  "ins_kv kv xs = takeWhile (\<lambda>x. fst x < fst kv) xs @ kv # dropWhile (\<lambda>x. fst x < fst kv) xs"

lemma ins_kv_mid:
  assumes "\<forall>a \<in> set A. fst a < fst kv" "\<forall>b \<in> set B. fst kv < fst b"
  shows "ins_kv kv (A @ M @ B) = A @ ins_kv kv M @ B"
proof -
  let ?p = "\<lambda>x. fst x < fst kv"
  have "takeWhile ?p B = []" "dropWhile ?p B = B" using assms(2) by (cases B; auto)+
  then have "takeWhile ?p (M @ B) = takeWhile ?p M" "dropWhile ?p (M @ B) = dropWhile ?p M @ B"
    by (induction M) auto
  then show ?thesis using assms(1) by (simp add: ins_kv_def takeWhile_append2 dropWhile_append2)
qed

lemma ins_kv_Nil: "ins_kv kv [] = [kv]"
  by (simp add: ins_kv_def)

lemma length_ins_kv: "length (ins_kv kv xs) = Suc (length xs)"
  unfolding ins_kv_def by (metis add_Suc_right length_Cons length_append takeWhile_dropWhile_id)

lemma set_ins_kv: "set (ins_kv kv xs) = insert kv (set xs)"
  unfolding ins_kv_def
  by (metis set_append list.simps(15) takeWhile_dropWhile_id Un_insert_right)

lemma keys_ordered_ins:
  assumes "keys_ordered xs" "fst kv \<notin> fst ` set xs"
  shows "keys_ordered (ins_kv kv xs)"
proof -
  let ?p = "\<lambda>x. fst x < fst kv"
  have o: "keys_ordered (takeWhile ?p xs)" "keys_ordered (dropWhile ?p xs)"
    "\<forall>x \<in> set (takeWhile ?p xs). \<forall>y \<in> set (dropWhile ?p xs). fst x < fst y"
    using assms(1) keys_ordered_append[of "takeWhile ?p xs" "dropWhile ?p xs"] by simp_all
  have "\<forall>y \<in> set (dropWhile ?p xs). fst kv < fst y"
  proof (cases "dropWhile ?p xs")
    case (Cons y ys)
    have "y \<in> set xs" using set_dropWhileD[of y ?p xs] Cons by simp
    moreover have "\<not> fst y < fst kv" using hd_dropWhile[of ?p xs] Cons by simp
    ultimately have "fst kv < fst y" using assms(2) by (metis image_eqI linorder_neqE)
    then show ?thesis using o(2) Cons by (auto simp: keys_ordered_Cons)
  next
    case Nil
    then show ?thesis by (metis empty_iff empty_set)
  qed
  then show ?thesis using o unfolding ins_kv_def
    by (auto simp: keys_ordered_append keys_ordered_Cons dest: set_takeWhileD)
qed

lemma insert_into_leaf_node:
  assumes "shaped 0 n" "keys_ordered (vals n)" "fst kv \<notin> fst ` set (vals n)"
  shows "\<exists>i n'. insert_into kv n = Inr (i, n') \<and> shaped 0 n' \<and> vals n' = ins_kv kv (vals n)"
proof -
  obtain vs1 vs2 where vs: "vals n = vs1 @ vs2" "\<forall>v \<in> set vs1. fst v < fst kv" "\<forall>v \<in> set vs2. fst kv \<le> fst v"
    "index_of (fst kv) n = (length vs1, vs2 \<noteq> [] \<and> fst (hd vs2) = fst kv)" "fst (upper_index_of (fst kv) n) = length vs1"
    by (rule index_split[OF assms(2), of "fst kv"])
  have "\<forall>v \<in> set vs2. fst kv < fst v" using vs(1,3) assms(3) by (metis image_eqI le_less set_append UnI2)
  from ins_kv_mid[OF vs(2) this, of "[]"] have "ins_kv kv (vals n) = vs1 @ kv # vs2" by (simp add: vs(1) ins_kv_Nil)
  moreover have "length vs1 \<le> length (kids n)" using assms(1) vs(1) by simp
  then have "insert_into kv n = Inr (length vs1, Node (ins_at (length vs1) None (kids n)) (vs1 @ kv # vs2))"
    using vs(1,5) by (simp add: insert_into_def vec_emplace_def ins_at_def Let_def)
  moreover have "set (ins_at (length vs1) None (kids n)) \<subseteq> {None}" using assms(1) by (simp add: set_ins_at)
  ultimately show ?thesis using assms(1) vs(1) by (simp add: length_ins_at)
qed


text \<open>An inner node whose child at the right place is replaced, or split.\<close>

lemma inorder_inner:
  "length cs1 = length vs1 \<Longrightarrow> length cs2 = length vs2 \<Longrightarrow>
   inorder (Node (cs1 @ c # cs2) (vs1 @ vs2)) =
   before (map kid_pairs cs1) vs1 @ kid_pairs c @ after vs2 (map kid_pairs cs2)"
  using weave_at[of "map kid_pairs cs1" vs1 "map kid_pairs cs2" vs2 "kid_pairs c"] by simp

lemma after_Cons: "after (v # vs) (c # cs) = v # c @ after vs cs"
  by (simp add: after_def)

lemma split_middle:
  assumes "shaped h c" "vals c \<noteq> []" "length cs1 = length vs1"
    "keys_ordered (A @ inorder c @ B)" "set vs1 \<subseteq> set A" "set vs2 \<subseteq> set B" "keys_ordered (vs1 @ vs2)"
  shows "fst (upper_index_of (fst (vals c ! (length (vals c) div 2))) (Node ks (vs1 @ vs2))) = length vs1"
proof (rule upper_index_at[OF assms(7)])
  let ?v = "vals c ! (length (vals c) div 2)"
  have v: "?v \<in> set (inorder c)" using halves_inorder[OF assms(1,2)] by (metis in_set_conv_decomp)
  have "\<forall>a \<in> set A. fst a < fst ?v" "\<forall>b \<in> set B. fst ?v < fst b"
    using assms(4) v by (auto simp: keys_ordered_append)
  then show "\<forall>v \<in> set vs1. fst v < fst ?v" "\<forall>v \<in> set vs2. fst ?v \<le> fst v"
    using assms(5,6) by (auto intro: less_imp_le)
qed

definition inserted :: "nat \<Rightarrow> nat \<Rightarrow> 'k :: linorder \<times> 'v \<Rightarrow> ('k, 'v) node \<Rightarrow> ('k, 'v) node \<Rightarrow> bool \<Rightarrow> bool" where
  "inserted d h kv n n' ok \<longleftrightarrow> shaped h n' \<and> inorder n' = ins_kv kv (inorder n) \<and> kids_bounded d h n' \<and>
     length (vals n') \<le> d \<and> (ok \<longleftrightarrow> length (vals n') < d)"

lemma insert_step:
  assumes "n = Node (cs1 @ Some m # cs2) (vs1 @ vs2)" "length cs1 = length vs1" "\<not> is_leaf n"
    "fst (index_of (fst kv) n) = length vs1" "insert_into_leaf d kv m = Inr (c', ok)"
  shows "insert_into_leaf d kv n =
    (if ok then Inr (Node (cs1 @ Some c' # cs2) (vs1 @ vs2), True)
     else and_then (split_into c' (Node (cs1 @ Some (moved_out c') # cs2) (vs1 @ vs2)))
       (\<lambda>n'. Inr (n', length (vals n') < d)))"
proof -
  have "vec_at (kids n) (length vs1) = Inr (Some m)" using assms(1,2) by (simp add: vec_at_def nth_append)
  moreover have "(kids n)[length vs1 := x] = cs1 @ x # cs2" for x
    using assms(1,2) by (simp add: list_update_append)
  ultimately show ?thesis using assms by (subst insert_into_leaf.simps) (simp add: Let_def)
qed

lemma insert_into_leaf_correct:
  assumes "0 < d" "shaped h n" "bounded d h n" "keys_ordered (inorder n)" "fst kv \<notin> fst ` set (inorder n)"
  shows "\<exists>n' ok. insert_into_leaf d kv n = Inr (n', ok) \<and> inserted d h kv n n' ok"
  using assms(2-5)
proof (induction h arbitrary: n)
  case 0
  have n: "inorder n = vals n" "is_leaf n" using inorder_leaf[OF 0(1)] leaf_shaped[OF 0(1)] by simp_all
  with insert_into_leaf_node[OF 0(1), of kv] 0(3,4) obtain i n' where
    n': "insert_into kv n = Inr (i, n')" "shaped 0 n'" "vals n' = ins_kv kv (vals n)" by auto
  have "length (vals n') = Suc (length (vals n))" unfolding n'(3) by (rule length_ins_kv)
  with n n' 0(2) inorder_leaf[OF n'(2)] show ?case
    by (subst insert_into_leaf.simps) (auto simp: inserted_def kids_bounded_def)
next
  case (Suc h)
  obtain cs1 m cs2 vs1 vs2 where i: "n = Node (cs1 @ Some m # cs2) (vs1 @ vs2)" "length cs1 = length vs1" "length cs2 = length vs2"
    "shaped h m" "index_of (fst kv) n = (length vs1, vs2 \<noteq> [] \<and> fst (hd vs2) = fst kv)" "fst (upper_index_of (fst kv) n) = length vs1"
    "inorder n = before (map kid_pairs cs1) vs1 @ inorder m @ after vs2 (map kid_pairs cs2)"
    "\<forall>v \<in> set vs1. fst v < fst kv" "\<forall>v \<in> set vs2. fst kv \<le> fst v"
    "\<forall>a \<in> set (before (map kid_pairs cs1) vs1). fst a < fst kv" "\<forall>b \<in> set (after vs2 (map kid_pairs cs2)). fst kv \<le> fst b"
    "\<forall>c \<in> set cs1 \<union> set cs2. \<exists>m. c = Some m \<and> shaped h m"
    by (rule inner_split[OF Suc.prems(1,3), of "fst kv"])
  define A B where AB: "A = before (map kid_pairs cs1) vs1" "B = after vs2 (map kid_pairs cs2)"
  note in_n = i(7)[folded AB]
  have B: "\<forall>b \<in> set B. fst kv < fst b"
    using i(11) Suc.prems(4) in_n AB by (metis UnI2 image_eqI order_le_less set_append)
  have bd: "bounded d h m" "\<forall>c \<in> set cs1 \<union> set cs2. \<exists>m. c = Some m \<and> bounded d h m" "length (vs1 @ vs2) < d"
    using Suc.prems(2) i(1) by auto
  have ord: "keys_ordered (inorder m)" using Suc.prems(3) in_n by (simp add: keys_ordered_append)
  have abs: "fst kv \<notin> fst ` set (inorder m)" using Suc.prems(4) in_n by auto
  from Suc.IH[OF i(4) bd(1) ord abs] obtain c' ok where
    c': "insert_into_leaf d kv m = Inr (c', ok)" "inserted d h kv m c' ok" by blast
  have nl: "\<not> is_leaf n" using leaf_shaped[OF Suc.prems(1)] by simp
  have ins: "A @ inorder c' @ B = ins_kv kv (inorder n)"
    using ins_kv_mid[OF i(10)[folded AB] B] c'(2) in_n by (simp add: inserted_def)
  have fi: "fst (index_of (fst kv) n) = length vs1" by (simp add: i(5))
  note step = insert_step[OF i(1,2) nl fi c'(1)]
  show ?case
  proof (cases ok)
    case True
    let ?n = "Node (cs1 @ Some c' # cs2) (vs1 @ vs2)"
    have "bounded d h c'" using c'(2) True by (simp add: inserted_def bounded_iff)
    then have "kids_bounded d (Suc h) ?n" using bd(2) by (auto simp: kids_bounded_def)
    moreover have "shaped (Suc h) ?n" using c'(2) i(2,3,12) by (auto simp: inserted_def)
    moreover have "inorder ?n = ins_kv kv (inorder n)"
      using inorder_inner[OF i(2,3), of "Some c'"] ins AB by simp
    ultimately show ?thesis using step True bd(3) by (auto simp: inserted_def)
  next
    case False
    let ?L = "left_half c'" and ?R = "right_half c'" and ?v = "vals c' ! (length (vals c') div 2)"
    let ?n = "Node (cs1 @ Some ?L # Some ?R # cs2) (vs1 @ ?v # vs2)"
    have c: "shaped h c'" "kids_bounded d h c'" "length (vals c') = d" "vals c' \<noteq> []"
      using c'(2) False assms(1) by (auto simp: inserted_def)
    note hv = halves_shaped[OF c(1,2,4)]
    have "keys_ordered (A @ inorder c' @ B)"
      unfolding ins by (rule keys_ordered_ins[OF Suc.prems(3,4)])
    moreover have "keys_ordered (vs1 @ vs2)" using keys_ordered_vals[OF Suc.prems(3)] i(1) by simp
    moreover have "set vs1 \<subseteq> set A" "set vs2 \<subseteq> set B"
      using set_before[of "map kid_pairs cs1" vs1] set_after[of vs2 "map kid_pairs cs2"] i(2,3) AB by simp_all
    ultimately have "split_into c' (Node (cs1 @ Some (moved_out c') # cs2) (vs1 @ vs2)) = Inr ?n"
      using split_into_at[OF _ _ i(2)] split_middle[OF c(1,4) i(2)] hv c(3) by simp
    moreover have "shaped (Suc h) ?n" using i(2,3,12) hv c(3) by auto
    moreover have "kids_bounded d (Suc h) ?n" using bd(2) hv c(3) by (auto simp: kids_bounded_def)
    moreover have "inorder ?n = ins_kv kv (inorder n)"
    proof -
      have "inorder ?n = A @ inorder ?L @ after (?v # vs2) (inorder ?R # map kid_pairs cs2)"
        using inorder_inner[OF i(2), of "Some ?R # cs2" "?v # vs2" "Some ?L"] i(3) AB by simp
      also have "\<dots> = A @ inorder c' @ B" using halves_inorder[OF c(1,4)] AB by (simp add: after_Cons)
      finally show ?thesis using ins by simp
    qed
    ultimately show ?thesis using step False bd(3) by (auto simp: inserted_def)
  qed
qed

section \<open>Trees\<close>

definition bt_wf :: "('k :: linorder, 'v) btree \<Rightarrow> bool" where
  "bt_wf t \<longleftrightarrow> (case bt_root t of None \<Rightarrow> True
     | Some n \<Rightarrow> keys_ordered (inorder n) \<and> (\<exists>h. shaped h n \<and> bounded (bt_degree t) h n))"

definition bt_pairs :: "('k, 'v) btree \<Rightarrow> ('k \<times> 'v) list" where
  "bt_pairs t = (case bt_root t of None \<Rightarrow> [] | Some n \<Rightarrow> inorder n)"

definition bt_inserts :: "('k :: linorder \<times> 'v) list \<Rightarrow> ('k, 'v) btree \<Rightarrow> ('k, 'v) btree res" where
  "bt_inserts kvs t = fold (\<lambda>kv r. and_then r (bt_insert kv)) kvs (Inr t)"

lemma bt_find_correct: "bt_wf t \<Longrightarrow> bt_find k t = Inr (map_of (bt_pairs t) k)"
  by (auto simp: bt_wf_def bt_find_def bt_pairs_def node_find_correct split: option.splits)

lemma bt_insert_correct:
  assumes "2 \<le> bt_degree t" "bt_wf t" "fst kv \<notin> fst ` set (bt_pairs t)"
  shows "\<exists>t'. bt_insert kv t = Inr t' \<and> bt_wf t' \<and> bt_degree t' = bt_degree t \<and> bt_pairs t' = ins_kv kv (bt_pairs t)"
proof -
  define root where "root = (case bt_root t of None \<Rightarrow> Node [] [] | Some n \<Rightarrow> n)"
  obtain h where r: "shaped h root" "bounded (bt_degree t) h root" "keys_ordered (inorder root)" "inorder root = bt_pairs t"
  proof (cases "bt_root t")
    case None
    then show thesis using assms(1) by (intro that[of 0]) (auto simp: root_def bt_pairs_def keys_ordered_def)
  next
    case (Some n)
    then show thesis using assms(2) by (auto simp: bt_wf_def root_def bt_pairs_def intro: that)
  qed
  have d: "0 < bt_degree t" using assms(1) by simp
  obtain n' ok where n': "insert_into_leaf (bt_degree t) kv root = Inr (n', ok)" "inserted (bt_degree t) h kv root n' ok"
    using insert_into_leaf_correct[OF d r(1-3), of kv] assms(3) r(4) by auto
  have o: "keys_ordered (ins_kv kv (bt_pairs t))" using keys_ordered_ins r(3,4) assms(3) by metis
  show ?thesis
  proof (cases ok)
    case True
    with n' o r(4) show ?thesis
      by (auto simp: bt_insert_def root_def[symmetric] bt_wf_def bt_pairs_def inserted_def bounded_iff)
  next
    case False
    then have c: "shaped h n'" "kids_bounded (bt_degree t) h n'" "vals n' \<noteq> []" "length (vals n') \<le> bt_degree t"
      using n'(2) d by (auto simp: inserted_def)
    let ?n = "Node [Some (left_half n'), Some (right_half n')] [vals n' ! (length (vals n') div 2)]"
    note hv = halves_shaped[OF c]
    have "inorder ?n = inorder n'" using halves_inorder[OF c(1,3)] by simp
    then have "inorder ?n = ins_kv kv (bt_pairs t)" using n'(2) r(4) by (simp add: inserted_def)
    moreover have "shaped (Suc h) ?n" "bounded (bt_degree t) (Suc h) ?n" using hv assms(1) by auto
    moreover have "bt_insert kv t = Inr (t\<lparr>bt_root := Some ?n\<rparr>)"
      using n'(1) False split_into_root[of n'] hv by (simp add: bt_insert_def root_def[symmetric])
    ultimately show ?thesis using o
      by (intro exI[of _ "t\<lparr>bt_root := Some ?n\<rparr>"]) (auto simp: bt_wf_def bt_pairs_def simp del: inorder.simps shaped.simps bounded.simps)
  qed
qed

text \<open>C9: Insertion keeps a B-tree of degree at least 2 a B-tree: no call fails, the keys stay in order, all leaves
  stay at one depth and no node reaches the degree; the pairs of the tree are the old ones with the new
  one at its place.\<close>

theorem btree_insert_invariant:
  assumes "2 \<le> bt_degree t" "bt_wf t" "fst kv \<notin> fst ` set (bt_pairs t)"
  shows "\<exists>t'. bt_insert kv t = Inr t' \<and> bt_wf t' \<and> bt_degree t' = bt_degree t \<and>
    bt_pairs t' = takeWhile (\<lambda>x. fst x < fst kv) (bt_pairs t) @ kv # dropWhile (\<lambda>x. fst x < fst kv) (bt_pairs t)"
  using bt_insert_correct[OF assms] by (simp add: ins_kv_def)

theorem btree_insert_invariant_witness:
  "\<exists>t'. bt_insert (2, 2) \<lparr>bt_root = Some (Node [None, None] [(1, 1 :: nat), (3 :: nat, 3)]), bt_degree = 3\<rparr> = Inr t' \<and>
    bt_wf t' \<and> bt_pairs t' = [(1, 1), (2, 2), (3, 3)]"
proof -
  let ?t = "\<lparr>bt_root = Some (Node [None, None] [(1, 1 :: nat), (3 :: nat, 3)]), bt_degree = 3\<rparr>"
  have "bt_wf ?t" by (auto simp: bt_wf_def keys_ordered_def intro!: exI[of _ 0])
  then show ?thesis using btree_insert_invariant[of ?t "(2, 2)"] by (auto simp: bt_pairs_def)
qed

text \<open>C11: After any sequence of insertions of different keys into an empty tree, \<open>find\<close> returns exactly the
  value that was inserted with the key, and nothing for every other key.\<close>

theorem btree_find_inserted:
  assumes "2 \<le> deg" "distinct (map fst kvs)"
  shows "\<exists>t. bt_inserts kvs (bt_new deg) = Inr t \<and> bt_find k t = Inr (map_of kvs k)"
proof -
  have "\<exists>t. bt_inserts kvs (bt_new deg) = Inr t \<and> bt_wf t \<and> bt_degree t = deg \<and> set (bt_pairs t) = set kvs"
    using assms(2)
  proof (induction kvs rule: rev_induct)
    case Nil
    then show ?case by (simp add: bt_inserts_def bt_wf_def bt_new_def bt_pairs_def)
  next
    case (snoc kv kvs)
    then obtain t where t: "bt_inserts kvs (bt_new deg) = Inr t" "bt_wf t" "bt_degree t = deg" "set (bt_pairs t) = set kvs"
      by auto
    obtain t' where "bt_insert kv t = Inr t'" "bt_wf t'" "bt_degree t' = deg" "bt_pairs t' = ins_kv kv (bt_pairs t)"
      using bt_insert_correct[of t kv] t assms(1) snoc.prems by auto
    with t show ?case by (simp add: bt_inserts_def set_ins_kv)
  qed
  then obtain t where t: "bt_inserts kvs (bt_new deg) = Inr t" "bt_wf t" "set (bt_pairs t) = set kvs" by blast
  have "distinct (map fst (bt_pairs t))"
    using t(2) by (auto simp: bt_wf_def bt_pairs_def keys_ordered_def strict_sorted_iff split: option.splits)
  then have "map_of (bt_pairs t) = map_of kvs" using map_of_inject_set[OF _ assms(2)] t(3) by simp
  with t bt_find_correct[OF t(2), of k] show ?thesis by simp
qed

theorem btree_find_inserted_witness:
  "\<exists>t. bt_inserts [(5, ''e''), (1, ''a''), (3 :: nat, ''c''), (4, ''d'')] (bt_new 3) = Inr t \<and> bt_find 3 t = Inr (Some ''c'')"
  using btree_find_inserted[of 3 "[(5, ''e''), (1, ''a''), (3 :: nat, ''c''), (4, ''d'')]" 3] by simp

text \<open>Removing a key that is not there from a tree of one pair empties the tree: the root is a leaf
  with one null child, and \<open>remove\<close> takes it for an inner node with one child left.\<close>

theorem btree_remove_missing:
  assumes "2 \<le> deg" "k \<noteq> fst kv"
  shows "\<exists>t. bt_insert kv (bt_new deg) = Inr t \<and> bt_pairs t = [kv] \<and> bt_remove k t = Inr (bt_new deg)"
proof -
  let ?n = "Node [None] [kv]"
  have "insert_into_leaf deg kv (Node [] []) = Inr (?n, True)"
    using assms(1) upper_index_at[of "[]" "[]" "fst kv" "[]"]
    by (subst insert_into_leaf.simps)
       (simp add: is_leaf_def insert_into_def vec_emplace_def ins_at_def keys_ordered_def Let_def)
  then have 1: "bt_insert kv (bt_new deg) = Inr ((bt_new deg)\<lparr>bt_root := Some ?n\<rparr>)"
    by (simp add: bt_insert_def bt_new_def)
  have "keys_ordered (vals ?n)" by (simp add: keys_ordered_def)
  then obtain vs1 vs2 where "vals ?n = vs1 @ vs2" "\<forall>v \<in> set vs1. fst v < k" "\<forall>v \<in> set vs2. k \<le> fst v"
    "index_of k ?n = (length vs1, vs2 \<noteq> [] \<and> fst (hd vs2) = k)" "fst (upper_index_of k ?n) = length vs1"
    by (rule index_split)
  then have "\<not> snd (index_of k ?n)" using assms(2) by (cases vs1) auto
  then have "remove_from deg k ?n = Inr (?n, False, False)"
    by (subst remove_from.simps) (auto simp: is_leaf_def split: prod.splits)
  then have "bt_remove k ((bt_new deg)\<lparr>bt_root := Some ?n\<rparr>) = Inr (bt_new deg)"
    by (simp add: bt_remove_def bt_new_def vec_at_def)
  with 1 show ?thesis by (simp add: bt_pairs_def bt_new_def)
qed

theorem btree_remove_missing_witness:
  "\<exists>t. bt_insert (1 :: nat, ''a'') (bt_new 3) = Inr t \<and> bt_pairs t = [(1, ''a'')] \<and> bt_remove 2 t = Inr (bt_new 3)"
  using btree_remove_missing[of 3 "2 :: nat" "(1, ''a'')"] by simp

end
