(* ===== verification/FixedString.thy ===== *)
theory FixedString
  imports TxlPrelude
begin

text \<open>
  The strings in a fixed array of characters of \<^verbatim>\<open>include/txl/fixed_string.h\<close>: \<open>fixed_string\<close>, whose array
  has one place more than its capacity for a terminator, and \<open>string_block\<close>, which may fill its
  array without one. The array is a list; \<open>size\<close> searches the first null character in it.
\<close>

section \<open>The array\<close>

type_synonym fixed_array = "char list"

definition NUL :: char where "NUL = CHR 0x00"

fun find_char :: "char \<Rightarrow> char list \<Rightarrow> nat" where
  "find_char c [] = 0"
| "find_char c (x # xs) = (if x = c then 0 else Suc (find_char c xs))"

definition fs_size :: "fixed_array \<Rightarrow> nat" where
  "fs_size d = find_char NUL d"

definition fs_block_size :: "fixed_array \<Rightarrow> nat" where
  "fs_block_size d = length d"

definition fs_view :: "fixed_array \<Rightarrow> string" where
  "fs_view d = take (min (length d) (fs_size d)) d"

definition fs_get :: "fixed_array \<Rightarrow> nat \<Rightarrow> char res" where
  "fs_get d i = vec_get d i"

definition fs_clear :: "fixed_array \<Rightarrow> fixed_array res" where
  "fs_clear d = vec_put d 0 NUL"

definition fs_equal :: "fixed_array \<Rightarrow> fixed_array \<Rightarrow> bool" where
  "fs_equal d e \<longleftrightarrow> fs_size e = fs_size d \<and> fs_view d = fs_view e"

definition fs_equal_view :: "fixed_array \<Rightarrow> string \<Rightarrow> bool" where
  "fs_equal_view d s \<longleftrightarrow> length s = fs_size d \<and> s = fs_view d"

text \<open>\<^verbatim>\<open>std::copy\<close> to the start of the array.\<close>

definition copy_chars :: "string \<Rightarrow> fixed_array \<Rightarrow> fixed_array res" where
  "copy_chars s d = (if length s \<le> length d then Inr (s @ drop (length s) d) else Inl UB)"

section \<open>\<open>fixed_string\<close>\<close>

definition fstr_capacity :: "fixed_array \<Rightarrow> nat" where
  "fstr_capacity d = length d - 1"

definition fstr_copy_from :: "string \<Rightarrow> fixed_array \<Rightarrow> fixed_array res" where
  "fstr_copy_from s d =
     (let n = min (length s) (fstr_capacity d)
      in and_then (copy_chars (take n s) d) (\<lambda>d'. vec_put d' n NUL))"

definition fstr_assign :: "fixed_array \<Rightarrow> fixed_array \<Rightarrow> fixed_array res" where
  "fstr_assign d other = fstr_copy_from (fs_view other) d"

text \<open>Assignment from a temporary: the source is emptied, when it is another string of the same type.
  The result is the pair of the two.\<close>

definition fstr_move_assign :: "fixed_array \<Rightarrow> fixed_array \<Rightarrow> (fixed_array \<times> fixed_array) res" where
  "fstr_move_assign d other =
     and_then (fstr_assign d other) (\<lambda>d'. and_then (fs_clear other) (\<lambda>e. Inr (d', e)))"

section \<open>\<open>string_block\<close>\<close>

definition sblk_capacity :: "fixed_array \<Rightarrow> nat" where
  "sblk_capacity d = length d"

definition sblk_copy_from :: "string \<Rightarrow> fixed_array \<Rightarrow> fixed_array res" where
  "sblk_copy_from s d =
     (let n = min (length s) (sblk_capacity d)
      in and_then (copy_chars (take n s) d) (\<lambda>d'.
         if n < sblk_capacity d then vec_put d' n NUL else Inr d'))"

definition sblk_move_assign :: "fixed_array \<Rightarrow> fixed_array \<Rightarrow> (fixed_array \<times> fixed_array) res" where
  "sblk_move_assign d other =
     and_then (sblk_copy_from (fs_view other) d) (\<lambda>d'. and_then (fs_clear other) (\<lambda>e. Inr (d', e)))"

section \<open>Reading back\<close>

abbreviation c_str :: "string \<Rightarrow> string" where
  "c_str s \<equiv> takeWhile (\<lambda>c. c \<noteq> NUL) s"

lemma find_char_takeWhile: "find_char c xs = length (takeWhile (\<lambda>x. x \<noteq> c) xs)"
  by (induction xs) auto

lemma fs_view_c_str: "fs_view d = c_str d"
  using length_takeWhile_le[of "\<lambda>c. c \<noteq> NUL" d]
  by (simp add: fs_view_def fs_size_def find_char_takeWhile min_absorb2 flip: takeWhile_eq_take)

lemma fs_equal_iff: "fs_equal d e \<longleftrightarrow> fs_view d = fs_view e"
  by (auto simp: fs_equal_def fs_view_c_str fs_size_def find_char_takeWhile)

lemma c_str_terminated: "c_str (s @ NUL # r) = c_str s"
  by (induction s) auto

lemma fstr_copy:
  assumes "d \<noteq> []"
  shows "\<exists>r. fstr_copy_from s d = Inr (take (length d - 1) s @ NUL # r) \<and> length (take (length d - 1) s @ NUL # r) = length d"
proof -
  define n where "n = min (length s) (length d - 1)"
  have n: "n < length d" "n \<le> length s" using assms unfolding n_def by (cases d; simp)+
  have t: "take (length d - 1) s = take n s" unfolding n_def by (simp add: min_def)
  from n(1) obtain c r where r: "drop n d = c # r" by (cases "drop n d") auto
  have "length (c # r) = length d - n" using r by (metis length_drop)
  then have l: "length (take n s @ NUL # r) = length d" using n by simp
  have "fstr_copy_from s d = and_then (copy_chars (take n s) d) (\<lambda>d'. vec_put d' n NUL)"
    by (simp add: fstr_copy_from_def fstr_capacity_def Let_def n_def)
  also have "\<dots> = Inr (take n s @ NUL # r)"
    using n r by (simp add: copy_chars_def vec_put_def list_update_append min_absorb2)
  finally show ?thesis using l t by auto
qed

lemma sblk_copy:
  "\<exists>r. sblk_copy_from s d = Inr (if length s < length d then s @ NUL # r else take (length d) s) \<and>
     length (if length s < length d then s @ NUL # r else take (length d) s) = length d"
proof (cases "length s < length d")
  case True
  then obtain c r where r: "drop (length s) d = c # r" by (cases "drop (length s) d") auto
  have "length (c # r) = length d - length s" using r by (metis length_drop)
  with True r show ?thesis
    by (intro exI[of _ r]) (auto simp: sblk_copy_from_def sblk_capacity_def copy_chars_def vec_put_def list_update_append)
next
  case False
  then show ?thesis by (simp add: sblk_copy_from_def sblk_capacity_def copy_chars_def)
qed

text \<open>C35: Copying a text into a \<open>fixed_string\<close> or a \<open>string_block\<close> stays inside the array and keeps its size;
  reading the string back gives the text cut to the capacity (one character less than the array for a
  \<open>fixed_string\<close>), up to its first null character. Moving from a string of the same type empties it.\<close>

theorem fixed_string_roundtrip:
  assumes "d \<noteq> []" "e \<noteq> []"
  shows "(\<exists>d'. fstr_copy_from s d = Inr d' \<and> length d' = length d \<and> fs_view d' = c_str (take (length d - 1) s)) \<and>
    (\<exists>d'. sblk_copy_from s d = Inr d' \<and> length d' = length d \<and> fs_view d' = c_str (take (length d) s)) \<and>
    (length e = length d \<and> length (fs_view e) < length d \<longrightarrow>
      (\<exists>d' e'. fstr_move_assign d e = Inr (d', e') \<and> fs_equal d' e \<and> fs_view e' = []))"
proof -
  obtain r where r: "fstr_copy_from s d = Inr (take (length d - 1) s @ NUL # r)"
    "length (take (length d - 1) s @ NUL # r) = length d" using fstr_copy[OF assms(1)] by blast
  obtain r' where r': "sblk_copy_from s d = Inr (if length s < length d then s @ NUL # r' else take (length d) s)"
    "length (if length s < length d then s @ NUL # r' else take (length d) s) = length d" using sblk_copy by blast
  have "\<exists>d' e'. fstr_move_assign d e = Inr (d', e') \<and> fs_equal d' e \<and> fs_view e' = []"
    if "length e = length d" "length (fs_view e) < length d"
  proof -
    obtain r2 where r2: "fstr_copy_from (fs_view e) d = Inr (take (length d - 1) (fs_view e) @ NUL # r2)"
      using fstr_copy[OF assms(1)] by blast
    have "take (length d - 1) (fs_view e) = fs_view e" using that(2) by simp
    moreover have "c_str (fs_view e) = fs_view e" by (simp add: fs_view_c_str)
    moreover have "fs_clear e = Inr (NUL # tl e)" using assms(2) by (cases e) (auto simp: fs_clear_def vec_put_def)
    ultimately show ?thesis using r2
      by (simp add: fstr_move_assign_def fstr_assign_def fs_equal_iff c_str_terminated) (simp add: fs_view_c_str c_str_terminated)
  qed
  with r r' show ?thesis by (auto simp: fs_view_c_str c_str_terminated)
qed

theorem fixed_string_roundtrip_witness:
  "\<exists>d'. fstr_copy_from ''hello'' ''xxxx'' = Inr d' \<and> length d' = 4 \<and> fs_view d' = ''hel''"
  using fixed_string_roundtrip[of "''xxxx''" "''xxxx''" "''hello''"] by (auto simp: NUL_def eval_nat_numeral)

end
