(* ===== verification/Simulation.thy ===== *)
theory Simulation
  imports Main
begin

text \<open>
  Executions of labelled step relations, and two interfaces for the components with concurrent
  threads: a simulation of a component by its specification, for executions up to a given number
  of steps (the counters of the code have a width), and an invariant of the reachable states.
\<close>

section \<open>Executions\<close>

inductive exec :: "('s \<Rightarrow> 'e \<Rightarrow> 's \<Rightarrow> bool) \<Rightarrow> 's \<Rightarrow> 'e list \<Rightarrow> 's \<Rightarrow> bool"
  for step :: "'s \<Rightarrow> 'e \<Rightarrow> 's \<Rightarrow> bool" where
  exec_nil: "exec step s [] s"
| exec_snoc: "exec step s es s' \<Longrightarrow> step s' e s'' \<Longrightarrow> exec step s (es @ [e]) s''"

lemma exec_single: "step s e s' \<Longrightarrow> exec step s [e] s'"
  using exec_snoc[OF exec_nil] by fastforce

lemma exec_append: "exec step s' es' s'' \<Longrightarrow> exec step s es s' \<Longrightarrow> exec step s (es @ es') s''"
proof (induction rule: exec.induct)
  case (exec_snoc s es' t e u)
  then show ?case using exec.exec_snoc[of step _ "es @ es'" t e u] by simp
qed simp

lemma exec_cons: "step s e s' \<Longrightarrow> exec step s' es s'' \<Longrightarrow> exec step s (e # es) s''"
  using exec_append[of step s' es s'' s "[e]"] exec_single[of step s e s'] by simp

definition reachable :: "('s \<Rightarrow> 'e \<Rightarrow> 's \<Rightarrow> bool) \<Rightarrow> 's \<Rightarrow> 's \<Rightarrow> bool" where
  "reachable step s0 s \<longleftrightarrow> (\<exists>es. exec step s0 es s)"

section \<open>Simulation of a component by a specification\<close>

locale bounded_simulation =
  fixes cinit :: 's and cstep :: "'s \<Rightarrow> 'e \<Rightarrow> 's \<Rightarrow> bool"
    and ainit :: 't and astep :: "'t \<Rightarrow> 'e \<Rightarrow> 't \<Rightarrow> bool"
    and visible :: "'e \<Rightarrow> bool" and related :: "nat \<Rightarrow> 's \<Rightarrow> 't \<Rightarrow> bool" and bound :: nat
  assumes related_init: "related 0 cinit ainit"
    and related_step: "related n s t \<Longrightarrow> n < bound \<Longrightarrow> cstep s e s' \<Longrightarrow>
      \<exists>t'. (if visible e then astep t e t' else t' = t) \<and> related (Suc n) s' t'"
begin

lemma simulates_from:
  assumes "exec cstep s0 es s" "s0 = cinit" "length es \<le> bound"
  shows "\<exists>t. exec astep ainit (filter visible es) t \<and> related (length es) s t"
  using assms
proof (induction rule: exec.induct)
  case (exec_nil s)
  then show ?case using related_init exec.exec_nil[of astep ainit] by (intro exI[of _ ainit]) simp
next
  case (exec_snoc s es s' e s'')
  then obtain t where t: "exec astep ainit (filter visible es) t" "related (length es) s' t" by auto
  with exec_snoc obtain t' where t': "if visible e then astep t e t' else t' = t" "related (Suc (length es)) s'' t'"
    using related_step[of "length es" s' t e s''] by auto
  have "exec astep ainit (filter visible (es @ [e])) t'"
    using t(1) t'(1) exec.exec_snoc[of astep ainit "filter visible es" t e t'] by (simp split: if_splits)
  with t'(2) show ?case by auto
qed

lemmas simulates = simulates_from[OF _ refl]

end

section \<open>Invariants\<close>

locale step_invariant =
  fixes step :: "'s \<Rightarrow> 'e \<Rightarrow> 's \<Rightarrow> bool" and start :: 's and inv :: "'s \<Rightarrow> bool"
  assumes inv_start: "inv start"
    and inv_step: "inv s \<Longrightarrow> step s e s' \<Longrightarrow> inv s'"
begin

lemma inv_exec: "exec step s es s' \<Longrightarrow> inv s \<Longrightarrow> inv s'"
  by (induction rule: exec.induct) (auto intro: inv_step)

lemma inv_reachable: "reachable step start s \<Longrightarrow> inv s"
  unfolding reachable_def using inv_exec inv_start by blast

end

end
