(* ===== verification/AtomicList.thy ===== *)
theory AtomicList
  imports Simulation "HOL-Library.Word"
begin

text \<open>
  The lock-free stack of \<^verbatim>\<open>include/txl/linked_list.h\<close>, \<open>atomic_linked_list\<close>: a singly linked list
  whose head is a pointer with a generation counter, exchanged by one 128-bit compare-and-swap.
  Any number of threads run its operations; a step is one access of one thread to the memory
  that the threads share, and the scheduler is a sequence of (thread, choice) pairs. The
  nodes live in a heap that gives a freed address to a later \<^verbatim>\<open>new\<close> again. Memory accesses are
  sequentially consistent here: the weaker orders of the code are not modelled.
\<close>

section \<open>State\<close>

type_synonym ptr = "nat option"

record 'v value_node =
  val :: 'v
  nxt :: ptr

record node_gen =
  gptr :: ptr
  gctr :: "64 word"

text \<open>Where a thread stands in an operation; the local variables it still needs are arguments.\<close>

datatype 'v pc =
    Idle
  | EmplaceLoad nat
  | EmplaceCas nat node_gen node_gen
  | EmplaceCount
  | PopLoad
  | PopNext node_gen
  | PopCas node_gen node_gen
  | PopTake nat
  | PopFree nat
  | PopCount
  | RelLoad
  | RelCas node_gen node_gen
  | RelZeroInserts ptr
  | RelZeroPops ptr
  | RelWalk ptr "64 word"
  | RelFree nat "64 word"
  | Crashed

record 'v alist =
  heap :: "nat \<Rightarrow> 'v value_node option"
  head :: node_gen
  num_inserts :: "64 word"
  num_pops :: "64 word"
  pcs :: "nat \<Rightarrow> 'v pc"

text \<open>What a step shows to the outside: calls, the moment an operation takes effect, and the values
  handed to the caller. \<open>Tau\<close> is an internal step. \<open>StaleRead\<close> and \<open>UseAfterFree\<close> are accesses to a node that has been freed: undefined
  behaviour, after which an execution of the model says nothing of the program. \<open>StaleRead\<close> is the one at which it can happen.\<close>

datatype 'v event =
    Tau
  | CallEmplace nat 'v
  | CommitEmplace nat
  | CommitPop nat
  | PopEmpty nat
  | CommitRelease nat
  | Take nat 'v
  | Released nat "64 word"
  | IsEmpty nat bool
  | StaleRead nat nat
  | UseAfterFree nat nat

text \<open>The scheduler's choices: the operation an idle thread starts (with the address \<^verbatim>\<open>new\<close> returns), a
  step on, or a compare-and-swap that fails spuriously, which the weak form may do.\<close>

datatype 'v choice =
    StartEmplace 'v nat
  | StartPop
  | StartRelease
  | AskEmpty
  | Go
  | Spurious

section \<open>Operations\<close>

definition create_alias :: "ptr \<Rightarrow> node_gen" where
  "create_alias p = \<lparr>gptr = p, gctr = 0\<rparr>"

definition next_alias :: "node_gen \<Rightarrow> ptr \<Rightarrow> node_gen" where
  "next_alias n p = \<lparr>gptr = p, gctr = gctr n + 1\<rparr>"

definition al_new :: "'v alist" where
  "al_new = \<lparr>heap = (\<lambda>_. None), head = create_alias None, num_inserts = 0, num_pops = 0, pcs = (\<lambda>_. Idle)\<rparr>"

definition goto :: "nat \<Rightarrow> 'v pc \<Rightarrow> 'v alist \<Rightarrow> 'v alist" where
  "goto i p s = s\<lparr>pcs := (pcs s)(i := p)\<rparr>"

definition compare_and_swap :: "node_gen \<Rightarrow> node_gen \<Rightarrow> 'v alist \<Rightarrow> 'v alist option" where
  "compare_and_swap expected desired s = (if head s = expected then Some (s\<lparr>head := desired\<rparr>) else None)"

definition al_empty :: "'v alist \<Rightarrow> bool" where
  "al_empty s \<longleftrightarrow> gptr (head s) = None"

definition free_node :: "nat \<Rightarrow> 'v alist \<Rightarrow> 'v alist" where
  "free_node a s = s\<lparr>heap := (heap s)(a := None)\<rparr>"

text \<open>\<open>emplace_front\<close>.\<close>

fun emplace_step :: "nat \<Rightarrow> 'v pc \<Rightarrow> 'v alist \<Rightarrow> ('v event \<times> 'v alist) option" where
  "emplace_step i (EmplaceLoad a) s =
     (let h = head s in
      case heap s a of
        None \<Rightarrow> None
      | Some n \<Rightarrow> Some (Tau, goto i (EmplaceCas a h (next_alias h (Some a)))
                              (s\<lparr>heap := (heap s)(a \<mapsto> n\<lparr>nxt := gptr h\<rparr>)\<rparr>)))"
| "emplace_step i (EmplaceCas a h d) s =
     (case compare_and_swap h d s of
        None \<Rightarrow> Some (Tau, goto i (EmplaceLoad a) s)
      | Some s' \<Rightarrow> Some (CommitEmplace i, goto i EmplaceCount s'))"
| "emplace_step i EmplaceCount s = Some (Tau, goto i Idle (s\<lparr>num_inserts := num_inserts s + 1\<rparr>))"
| "emplace_step i _ s = None"

text \<open>\<open>pop_and_release_front\<close>. The read of \<^verbatim>\<open>head.ptr->next\<close> of a node that has been freed in the
  meantime is undefined behaviour: the event \<open>StaleRead\<close>, and the thread is \<open>Crashed\<close>. (When the address has been given to a new node by
  then, that node is read; the exchange fails afterwards.)\<close>

fun pop_step :: "nat \<Rightarrow> 'v pc \<Rightarrow> 'v alist \<Rightarrow> ('v event \<times> 'v alist) option" where
  "pop_step i PopLoad s =
     (let h = head s in
      case gptr h of
        None \<Rightarrow> Some (PopEmpty i, goto i Idle s)
      | Some p \<Rightarrow> Some (Tau, goto i (PopNext h) s))"
| "pop_step i (PopNext h) s =
     (case gptr h of
        None \<Rightarrow> None
      | Some p \<Rightarrow> (case heap s p of
          None \<Rightarrow> Some (StaleRead i p, goto i Crashed s)
        | Some n \<Rightarrow> Some (Tau, goto i (PopCas h (next_alias h (nxt n))) s)))"
| "pop_step i (PopCas h d) s =
     (case compare_and_swap h d s of
        None \<Rightarrow> Some (Tau, goto i PopLoad s)
      | Some s' \<Rightarrow> (case gptr h of
          None \<Rightarrow> Some (PopEmpty i, goto i Idle s')
        | Some p \<Rightarrow> Some (CommitPop i, goto i (PopTake p) s')))"
| "pop_step i (PopTake p) s =
     (case heap s p of
        None \<Rightarrow> Some (UseAfterFree i p, goto i Crashed s)
      | Some n \<Rightarrow> Some (Take i (val n), goto i (PopFree p) s))"
| "pop_step i (PopFree p) s = Some (Tau, goto i PopCount (free_node p s))"
| "pop_step i PopCount s = Some (Tau, goto i Idle (s\<lparr>num_pops := num_pops s + 1\<rparr>))"
| "pop_step i _ s = None"

text \<open>\<open>release\<close>, and \<open>clear\<close>, which is \<open>release\<close> with a function that ignores the values.\<close>

fun release_step :: "nat \<Rightarrow> 'v pc \<Rightarrow> 'v alist \<Rightarrow> ('v event \<times> 'v alist) option" where
  "release_step i RelLoad s = (let h = head s in Some (Tau, goto i (RelCas h (next_alias h None)) s))"
| "release_step i (RelCas h d) s =
     (case compare_and_swap h d s of
        None \<Rightarrow> Some (Tau, goto i RelLoad s)
      | Some s' \<Rightarrow> Some (CommitRelease i, goto i (RelZeroInserts (gptr h)) s'))"
| "release_step i (RelZeroInserts p) s = Some (Tau, goto i (RelZeroPops p) (s\<lparr>num_inserts := 0\<rparr>))"
| "release_step i (RelZeroPops p) s = Some (Tau, goto i (RelWalk p 0) (s\<lparr>num_pops := 0\<rparr>))"
| "release_step i (RelWalk None k) s = Some (Released i k, goto i Idle s)"
| "release_step i (RelWalk (Some p) k) s =
     (case heap s p of
        None \<Rightarrow> Some (UseAfterFree i p, goto i Crashed s)
      | Some n \<Rightarrow> Some (Take i (val n), goto i (RelFree p k) s))"
| "release_step i (RelFree p k) s =
     (case heap s p of
        None \<Rightarrow> Some (UseAfterFree i p, goto i Crashed s)
      | Some n \<Rightarrow> Some (Tau, goto i (RelWalk (nxt n) (k + 1)) (free_node p s)))"
| "release_step i _ s = None"

text \<open>A step of thread \<open>i\<close>.\<close>

definition go_step :: "nat \<Rightarrow> 'v alist \<Rightarrow> ('v event \<times> 'v alist) option" where
  "go_step i s = (case emplace_step i (pcs s i) s of
       Some r \<Rightarrow> Some r
     | None \<Rightarrow> (case pop_step i (pcs s i) s of Some r \<Rightarrow> Some r | None \<Rightarrow> release_step i (pcs s i) s))"

fun spurious_pc :: "'v pc \<Rightarrow> 'v pc option" where
  "spurious_pc (EmplaceCas a h d) = Some (EmplaceLoad a)"
| "spurious_pc (PopCas h d) = Some PopLoad"
| "spurious_pc (RelCas h d) = Some RelLoad"
| "spurious_pc _ = None"

fun al_step :: "nat \<Rightarrow> 'v choice \<Rightarrow> 'v alist \<Rightarrow> ('v event \<times> 'v alist) option" where
  "al_step i (StartEmplace v a) s =
     (if pcs s i = Idle \<and> heap s a = None
      then Some (CallEmplace i v, goto i (EmplaceLoad a) (s\<lparr>heap := (heap s)(a \<mapsto> \<lparr>val = v, nxt = None\<rparr>)\<rparr>))
      else None)"
| "al_step i StartPop s = (if pcs s i = Idle then Some (Tau, goto i PopLoad s) else None)"
| "al_step i StartRelease s = (if pcs s i = Idle then Some (Tau, goto i RelLoad s) else None)"
| "al_step i AskEmpty s = (if pcs s i = Idle then Some (IsEmpty i (al_empty s), s) else None)"
| "al_step i Spurious s = (case spurious_pc (pcs s i) of None \<Rightarrow> None | Some p \<Rightarrow> Some (Tau, goto i p s))"
| "al_step i Go s = go_step i s"

definition al_trans :: "'v alist \<Rightarrow> 'v event \<Rightarrow> 'v alist \<Rightarrow> bool" where
  "al_trans s e s' \<longleftrightarrow> (\<exists>i c. al_step i c s = Some (e, s'))"

section \<open>Specification\<close>

text \<open>
  The stack the code promises: every operation takes effect in one step between its call and its
  return. \<open>arg\<close> is the value a thread is inserting, \<open>pend\<close> what a thread has taken off the stack
  and not yet handed out, \<open>taken\<close> how many values of a release it has handed out.
\<close>

record 'v stack_spec =
  stack :: "'v list"
  arg :: "nat \<Rightarrow> 'v option"
  pend :: "nat \<Rightarrow> 'v list"
  taken :: "nat \<Rightarrow> nat"

definition spec_new :: "'v stack_spec" where
  "spec_new = \<lparr>stack = [], arg = (\<lambda>_. None), pend = (\<lambda>_. []), taken = (\<lambda>_. 0)\<rparr>"

inductive spec_step :: "'v stack_spec \<Rightarrow> 'v event \<Rightarrow> 'v stack_spec \<Rightarrow> bool" where
  spec_call: "arg t i = None \<Longrightarrow> spec_step t (CallEmplace i v) (t\<lparr>arg := (arg t)(i \<mapsto> v)\<rparr>)"
| spec_emplace: "arg t i = Some v \<Longrightarrow>
    spec_step t (CommitEmplace i) (t\<lparr>stack := v # stack t, arg := (arg t)(i := None)\<rparr>)"
| spec_pop: "stack t = v # vs \<Longrightarrow> pend t i = [] \<Longrightarrow>
    spec_step t (CommitPop i) (t\<lparr>stack := vs, pend := (pend t)(i := [v])\<rparr>)"
| spec_pop_empty: "stack t = [] \<Longrightarrow> spec_step t (PopEmpty i) t"
| spec_release: "pend t i = [] \<Longrightarrow>
    spec_step t (CommitRelease i) (t\<lparr>stack := [], pend := (pend t)(i := stack t), taken := (taken t)(i := 0)\<rparr>)"
| spec_take: "pend t i = v # vs \<Longrightarrow>
    spec_step t (Take i v) (t\<lparr>pend := (pend t)(i := vs), taken := (taken t)(i := Suc (taken t i))\<rparr>)"
| spec_released: "pend t i = [] \<Longrightarrow> k = of_nat (taken t i) \<Longrightarrow> spec_step t (Released i k) t"
| spec_is_empty: "b = (stack t = []) \<Longrightarrow> spec_step t (IsEmpty i b) t"

text \<open>What the specification speaks of: everything but internal steps and stale reads. It has no \<open>UseAfterFree\<close>.\<close>

fun observed :: "'v event \<Rightarrow> bool" where
  "observed Tau = False"
| "observed (StaleRead i a) = False"
| "observed _ = True"

section \<open>Invariant\<close>

primrec chain :: "(nat \<Rightarrow> 'v value_node option) \<Rightarrow> ptr \<Rightarrow> nat list \<Rightarrow> bool" where
  "chain h q [] \<longleftrightarrow> q = None"
| "chain h q (a # as) \<longleftrightarrow> q = Some a \<and> (\<exists>n. h a = Some n \<and> chain h (nxt n) as)"

abbreviation val_at :: "(nat \<Rightarrow> 'v value_node option) \<Rightarrow> nat \<Rightarrow> 'v" where
  "val_at h a \<equiv> val (the (h a))"

text \<open>A head that a thread read when the counter stood at \<open>k \<le> m\<close>; it is the present head when \<open>k = m\<close>.\<close>

definition saved :: "nat \<Rightarrow> node_gen \<Rightarrow> node_gen \<Rightarrow> bool \<Rightarrow> bool" where
  "saved m cur h q \<longleftrightarrow> (\<exists>k \<le> m. gctr h = of_nat k \<and> (k = m \<longrightarrow> h = cur \<and> q))"

text \<open>What holds of a thread at each place of its operation; \<open>os\<close> are the nodes only it can reach.\<close>

fun thread_ok :: "nat \<Rightarrow> node_gen \<Rightarrow> (nat \<Rightarrow> 'v value_node option) \<Rightarrow> 'v pc \<Rightarrow> 'v option \<Rightarrow> 'v list \<Rightarrow> nat \<Rightarrow> nat list \<Rightarrow> bool" where
  "thread_ok m cur h (EmplaceLoad a) x p k os \<longleftrightarrow> os = [a] \<and> (\<exists>n. h a = Some n \<and> x = Some (val n)) \<and> p = []"
| "thread_ok m cur h (EmplaceCas a g d) x p k os \<longleftrightarrow> os = [a] \<and> p = [] \<and> d = next_alias g (Some a) \<and>
     saved m cur g True \<and> (\<exists>n. h a = Some n \<and> x = Some (val n) \<and> nxt n = gptr g)"
| "thread_ok m cur h (PopNext g) x p k os \<longleftrightarrow> os = [] \<and> x = None \<and> p = [] \<and> gptr g \<noteq> None \<and> saved m cur g True"
| "thread_ok m cur h (PopCas g d) x p k os \<longleftrightarrow> os = [] \<and> x = None \<and> p = [] \<and>
     (\<exists>a. gptr g = Some a \<and> saved m cur g (\<exists>n. h a = Some n \<and> d = next_alias g (nxt n)))"
| "thread_ok m cur h (PopTake a) x p k os \<longleftrightarrow> os = [a] \<and> x = None \<and> (\<exists>n. h a = Some n \<and> p = [val n])"
| "thread_ok m cur h (PopFree a) x p k os \<longleftrightarrow> os = [a] \<and> x = None \<and> p = [] \<and> h a \<noteq> None"
| "thread_ok m cur h (RelCas g d) x p k os \<longleftrightarrow> os = [] \<and> x = None \<and> p = [] \<and> d = next_alias g None \<and> saved m cur g True"
| "thread_ok m cur h (RelZeroInserts q) x p k os \<longleftrightarrow> x = None \<and> chain h q os \<and> p = map (val_at h) os \<and> k = 0"
| "thread_ok m cur h (RelZeroPops q) x p k os \<longleftrightarrow> x = None \<and> chain h q os \<and> p = map (val_at h) os \<and> k = 0"
| "thread_ok m cur h (RelWalk q c) x p k os \<longleftrightarrow> x = None \<and> chain h q os \<and> p = map (val_at h) os \<and> c = of_nat k"
| "thread_ok m cur h (RelFree a c) x p k os \<longleftrightarrow> x = None \<and> c + 1 = of_nat k \<and>
     (\<exists>os'. os = a # os' \<and> chain h (Some a) os \<and> p = map (val_at h) os')"
| "thread_ok m cur h _ x p k os \<longleftrightarrow> os = [] \<and> x = None \<and> p = []"

definition al_inv :: "nat \<Rightarrow> nat list \<Rightarrow> (nat \<Rightarrow> nat list) \<Rightarrow> 'v alist \<Rightarrow> 'v stack_spec \<Rightarrow> bool" where
  "al_inv m as own s t \<longleftrightarrow>
     gctr (head s) = of_nat m \<and> chain (heap s) (gptr (head s)) as \<and> distinct as \<and>
     stack t = map (val_at (heap s)) as \<and>
     (\<forall>i. thread_ok m (head s) (heap s) (pcs s i) (arg t i) (pend t i) (taken t i) (own i)) \<and>
     (\<forall>i. distinct (own i) \<and> set (own i) \<inter> set as = {}) \<and>
     (\<forall>i j. i \<noteq> j \<longrightarrow> set (own i) \<inter> set (own j) = {})"

definition al_related :: "nat \<Rightarrow> 'v alist \<Rightarrow> 'v stack_spec \<Rightarrow> bool" where
  "al_related n s t \<longleftrightarrow> (\<exists>m \<le> n. \<exists>as own. al_inv m as own s t)"

subsection \<open>Frames\<close>

lemma chain_cong: "(\<And>x. x \<in> set as \<Longrightarrow> h' x = h x) \<Longrightarrow> chain h' q as = chain h q as"
  by (induction as arbitrary: q) auto

lemma chain_mono: "chain h q as \<Longrightarrow> (\<And>x. x \<in> set as \<Longrightarrow> h' x = h x) \<Longrightarrow> chain h' q as"
  using chain_cong[of as h' h q] by simp

lemma chain_dom: "chain h q as \<Longrightarrow> x \<in> set as \<Longrightarrow> h x \<noteq> None"
  by (induction as arbitrary: q) auto

lemma chain_hd: "chain h (Some a) as \<Longrightarrow> \<exists>n as'. as = a # as' \<and> h a = Some n \<and> chain h (nxt n) as'"
  by (cases as) auto

lemma chain_None: "chain h None as \<longleftrightarrow> as = []"
  by (cases as) auto

lemma map_val_cong: "(\<And>x. x \<in> set as \<Longrightarrow> h' x = h x) \<Longrightarrow> map (val_at h') as = map (val_at h) as"
  by simp

lemma saved_mono: "saved m cur g q \<Longrightarrow> (g = cur \<Longrightarrow> q \<Longrightarrow> q') \<Longrightarrow> saved m cur g q'"
  unfolding saved_def by blast

lemma thread_ok_heap:
  assumes "thread_ok m cur h pc x p k os" "\<And>a. a \<in> set os \<Longrightarrow> h' a = h a" "\<And>a. gptr cur = Some a \<Longrightarrow> h' a = h a"
  shows "thread_ok m cur h' pc x p k os"
  using assms
proof (cases pc)
  case (RelFree a c)
  then show ?thesis using assms by (auto elim!: chain_mono)
next
  case (PopCas g d)
  then show ?thesis using assms by (auto elim!: saved_mono)
qed (auto simp: chain_cong[of os h' h] cong: map_cong)

lemma thread_ok_Suc: "thread_ok m cur h pc x p k os \<Longrightarrow> thread_ok (Suc m) cur' h pc x p k os"
proof -
  have s: "saved m cur g q \<Longrightarrow> saved (Suc m) cur' g q'" for g q q'
    unfolding saved_def using le_SucI by (metis Suc_n_not_le_n)
  assume "thread_ok m cur h pc x p k os"
  then show ?thesis by (cases pc) (auto intro: s)
qed

lemma saved_now: "q \<Longrightarrow> gctr cur = of_nat m \<Longrightarrow> saved m cur cur q"
  unfolding saved_def by blast

lemma saved_current:
  assumes "saved m cur cur q" "gctr cur = of_nat m" "m < 2 ^ 64"
  shows q
proof -
  obtain k where k: "k \<le> m" "gctr cur = of_nat k" "k = m \<longrightarrow> q" using assms(1) unfolding saved_def by blast
  have "unat (of_nat k :: 64 word) = k" "unat (of_nat m :: 64 word) = m"
    using k(1) assms(3) by (simp_all add: unat_of_nat)
  with k assms(2) show ?thesis by metis
qed

subsection \<open>Steps keep the invariant\<close>

text \<open>A step of thread \<open>i\<close> that leaves the head alone, and one that exchanges it.\<close>

lemma al_inv_local:
  assumes I: "al_inv m as own s t"
    and s': "head s' = head s" "pcs s' = (pcs s)(i := pc')"
    and h: "\<And>a. a \<notin> set (own i) \<Longrightarrow> heap s a \<noteq> None \<Longrightarrow> heap s' a = heap s a"
    and t: "stack t' = stack t" "\<And>j. j \<noteq> i \<Longrightarrow> arg t' j = arg t j \<and> pend t' j = pend t j \<and> taken t' j = taken t j"
    and ok: "thread_ok m (head s) (heap s') pc' (arg t' i) (pend t' i) (taken t' i) os'"
    and os': "distinct os'" "set os' \<subseteq> set (own i) \<union> {a. heap s a = None}"
  shows "al_inv m as (own(i := os')) s' t'"
proof -
  have c: "gctr (head s) = of_nat m" "chain (heap s) (gptr (head s)) as" "distinct as"
    "stack t = map (val_at (heap s)) as"
    and th: "\<And>j. thread_ok m (head s) (heap s) (pcs s j) (arg t j) (pend t j) (taken t j) (own j)"
    and d: "\<And>j. distinct (own j)" "\<And>j. set (own j) \<inter> set as = {}" "\<And>j k. j \<noteq> k \<Longrightarrow> set (own j) \<inter> set (own k) = {}"
    using I unfolding al_inv_def by blast+
  have as: "heap s' a = heap s a" if "a \<in> set as" for a
    using h[of a] d(2)[of i] that chain_dom[OF c(2) that] by blast
  have live: "heap s a \<noteq> None" if "a \<in> set (own j)" for j a
    using th[of j] that by (cases "pcs s j") (auto dest: chain_dom)
  have own: "heap s' a = heap s a" if "j \<noteq> i" "a \<in> set (own j)" for j a
    using h[of a] d(3)[OF that(1)] live[OF that(2)] that(2) by blast
  have new: "set os' \<inter> set (own l) = {}" if l: "l \<noteq> i" for l
  proof -
    have "x \<notin> set os'" if x: "x \<in> set (own l)" for x
    proof
      assume "x \<in> set os'"
      moreover have "heap s x \<noteq> None" "x \<notin> set (own i)" using x live[of x l] d(3)[OF l] by auto
      ultimately show False using os'(2) by auto
    qed
    then show ?thesis by blast
  qed
  have hd: "heap s' a = heap s a" if "gptr (head s) = Some a" for a
    using as chain_hd[of "heap s" a as] c(2) that by auto
  show ?thesis
    unfolding al_inv_def s'
  proof (intro conjI allI impI)
    show "chain (heap s') (gptr (head s)) as" using chain_mono[OF c(2)] as by blast
    show "stack t' = map (val_at (heap s')) as" using c(4) t(1) as by simp
    fix j
    show "thread_ok m (head s) (heap s') (((pcs s)(i := pc')) j) (arg t' j) (pend t' j) (taken t' j) ((own(i := os')) j)"
      using ok thread_ok_heap[OF th[of j] own hd] t(2)[of j] by (cases "j = i") auto
    show "distinct ((own(i := os')) j)" using d(1) os'(1) by simp
    show "set ((own(i := os')) j) \<inter> set as = {}"
    proof (cases "j = i")
      case True
      have "x \<notin> set as" if x: "x \<in> set os'" for x
      proof
        assume "x \<in> set as"
        then have "heap s x \<noteq> None" "x \<notin> set (own i)" using chain_dom[OF c(2)] d(2)[of i] by auto
        with x os'(2) show False by auto
      qed
      then have "set os' \<inter> set as = {}" by blast
      with True show ?thesis by simp
    next
      case False
      with d(2)[of j] show ?thesis by simp
    qed
    fix k assume "j \<noteq> k"
    then show "set ((own(i := os')) j) \<inter> set ((own(i := os')) k) = {}"
      using d(3)[of j k] new[of k] new[of j] by (cases "j = i"; cases "k = i") auto
  qed (use c in auto)
qed

lemma al_inv_commit:
  assumes I: "al_inv m as own s t"
    and s': "gctr (head s') = of_nat (Suc m)" "pcs s' = (pcs s)(i := pc')" "heap s' = heap s"
    and t: "\<And>j. j \<noteq> i \<Longrightarrow> arg t' j = arg t j \<and> pend t' j = pend t j \<and> taken t' j = taken t j"
    and as': "chain (heap s) (gptr (head s')) as'" "distinct as'" "stack t' = map (val_at (heap s)) as'"
    and ok: "thread_ok (Suc m) (head s') (heap s) pc' (arg t' i) (pend t' i) (taken t' i) os'"
    and os': "distinct os'" "set os' \<union> set as' \<subseteq> set (own i) \<union> set as" "set os' \<inter> set as' = {}"
  shows "al_inv (Suc m) as' (own(i := os')) s' t'"
proof -
  have th: "\<And>j. thread_ok m (head s) (heap s) (pcs s j) (arg t j) (pend t j) (taken t j) (own j)"
    and d: "\<And>j. distinct (own j)" "\<And>j. set (own j) \<inter> set as = {}" "\<And>j k. j \<noteq> k \<Longrightarrow> set (own j) \<inter> set (own k) = {}"
    using I unfolding al_inv_def by blast+
  show ?thesis
    unfolding al_inv_def s'
  proof (intro conjI allI impI)
    fix j
    show "thread_ok (Suc m) (head s') (heap s) (((pcs s)(i := pc')) j) (arg t' j) (pend t' j) (taken t' j) ((own(i := os')) j)"
      using ok thread_ok_Suc[OF th[of j], of "head s'"] t[of j] by (cases "j = i") auto
    show "distinct ((own(i := os')) j)" using d(1) os'(1) by simp
    show "set ((own(i := os')) j) \<inter> set as' = {}"
      using d(2)[of j] d(3)[of j i] os'(2,3) by (cases "j = i") auto
    fix k assume "j \<noteq> k"
    then show "set ((own(i := os')) j) \<inter> set ((own(i := os')) k) = {}"
      using d(2)[of k] d(2)[of j] d(3)[of j k] d(3)[of i k] d(3)[of i j] os'(2)
      by (auto simp: fun_upd_def split: if_splits)
  qed (use as' in auto)
qed

lemmas al_invD = al_inv_def[THEN iffD1, THEN conjunct1]
  al_inv_def[THEN iffD1, THEN conjunct2, THEN conjunct1]
  al_inv_def[THEN iffD1, THEN conjunct2, THEN conjunct2, THEN conjunct1]
  al_inv_def[THEN iffD1, THEN conjunct2, THEN conjunct2, THEN conjunct2, THEN conjunct1]

lemma al_inv_thread:
  "al_inv m as own s t \<Longrightarrow> thread_ok m (head s) (heap s) (pcs s i) (arg t i) (pend t i) (taken t i) (own i)"
  by (simp add: al_inv_def)

lemma al_inv_own:
  "al_inv m as own s t \<Longrightarrow> distinct (own i) \<and> set (own i) \<inter> set as = {}"
  by (simp add: al_inv_def)

text \<open>A step that only moves the thread on.\<close>

lemma al_inv_goto:
  assumes "al_inv m as own s t" "thread_ok m (head s) (heap s) pc' (arg t i) (pend t i) (taken t i) (own i)"
  shows "al_inv m as (own(i := own i)) (goto i pc' s) t"
  by (rule al_inv_local[OF assms(1)]) (use assms(2) al_inv_own[OF assms(1), of i] in \<open>auto simp: goto_def\<close>)

definition sim_step :: "nat \<Rightarrow> 'v stack_spec \<Rightarrow> 'v event \<Rightarrow> 'v alist \<Rightarrow> bool" where
  "sim_step m t e s' \<longleftrightarrow> (\<exists>t'. (if observed e then spec_step t e t' else t' = t) \<and>
     (\<exists>m' \<le> Suc m. \<exists>as own. al_inv m' as own s' t'))"

lemma sim_stepI:
  "al_inv m' as own s' t' \<Longrightarrow> m' \<le> Suc m \<Longrightarrow> (observed e \<Longrightarrow> spec_step t e t') \<Longrightarrow> (\<not> observed e \<Longrightarrow> t' = t) \<Longrightarrow> sim_step m t e s'"
  unfolding sim_step_def by (intro exI[of _ t']) auto

lemma sim_goto:
  assumes "al_inv m as own s t" "thread_ok m (head s) (heap s) pc' (arg t i) (pend t i) (taken t i) (own i)"
    "observed e \<Longrightarrow> spec_step t e t"
  shows "sim_step m t e (goto i pc' s)"
  by (rule sim_stepI[OF al_inv_goto[OF assms(1,2)]]) (use assms(3) in auto)

lemma al_inv_counters:
  "al_inv m as own (s\<lparr>num_inserts := x\<rparr>) t = al_inv m as own s t"
  "al_inv m as own (s\<lparr>num_pops := x\<rparr>) t = al_inv m as own s t"
  by (simp_all add: al_inv_def)

lemma goto_counters:
  "goto i p (s\<lparr>num_inserts := x\<rparr>) = (goto i p s)\<lparr>num_inserts := x\<rparr>"
  "goto i p (s\<lparr>num_pops := x\<rparr>) = (goto i p s)\<lparr>num_pops := x\<rparr>"
  by (simp_all add: goto_def)

lemma sim_step_counters:
  "sim_step m t e (s\<lparr>num_inserts := x\<rparr>) = sim_step m t e s"
  "sim_step m t e (s\<lparr>num_pops := x\<rparr>) = sim_step m t e s"
  by (simp_all add: sim_step_def al_inv_counters)

lemma compare_and_swap_Some:
  "compare_and_swap h d s = Some s' \<longleftrightarrow> head s = h \<and> s' = s\<lparr>head := d\<rparr>"
  by (auto simp: compare_and_swap_def)

lemma next_alias_simps [simp]: "gptr (next_alias h p) = p" "gctr (next_alias h p) = gctr h + 1"
  by (simp_all add: next_alias_def)

subsection \<open>Every step is a step of the specification\<close>

lemma sim_emplace:
  assumes I: "al_inv m as own s t" and b: "m < 2 ^ 64 - 1"
    and st: "emplace_step i (pcs s i) s = Some (e, s')"
  shows "sim_step m t e s'"
proof (cases "pcs s i")
  case (EmplaceLoad a)
  note th = al_inv_thread[OF I, of i, unfolded EmplaceLoad]
  from th obtain n where n: "own i = [a]" "heap s a = Some n" "arg t i = Some (val n)" "pend t i = []" by auto
  let ?n = "n\<lparr>nxt := gptr (head s)\<rparr>"
  have e: "e = Tau" "s' = goto i (EmplaceCas a (head s) (next_alias (head s) (Some a))) (s\<lparr>heap := (heap s)(a \<mapsto> ?n)\<rparr>)"
    using st n(2) EmplaceLoad by (auto simp: Let_def)
  have "al_inv m as (own(i := [a])) s' t"
    by (rule al_inv_local[OF I, where pc' = "EmplaceCas a (head s) (next_alias (head s) (Some a))"])
      (use n e al_invD(1)[OF I] in \<open>auto simp: goto_def saved_now\<close>)
  then show ?thesis by (rule sim_stepI) (use e in auto)
next
  case (EmplaceCas a h d)
  note th = al_inv_thread[OF I, of i, unfolded EmplaceCas]
  from th obtain n where n: "own i = [a]" "heap s a = Some n" "arg t i = Some (val n)" "pend t i = []"
    "nxt n = gptr h" "d = next_alias h (Some a)" by auto
  show ?thesis
  proof (cases "compare_and_swap h d s")
    case None
    then have "e = Tau" "s' = goto i (EmplaceLoad a) s" using st EmplaceCas by auto
    then show ?thesis using sim_goto[OF I, of "EmplaceLoad a" i Tau] n by auto
  next
    case (Some s1)
    then have h: "head s = h" "s1 = s\<lparr>head := d\<rparr>" by (auto simp: compare_and_swap_Some)
    have e: "e = CommitEmplace i" "s' = goto i EmplaceCount s1" using st EmplaceCas Some by auto
    let ?t = "t\<lparr>stack := val n # stack t, arg := (arg t)(i := None)\<rparr>"
    have "al_inv (Suc m) (a # as) (own(i := [])) s' ?t"
      by (rule al_inv_commit[OF I, where pc' = EmplaceCount])
        (use n h e al_invD[OF I] al_inv_own[OF I, of i] in \<open>auto simp: goto_def\<close>)
    then show ?thesis by (rule sim_stepI) (use e n spec_emplace in auto)
  qed
next
  case EmplaceCount
  note th = al_inv_thread[OF I, of i, unfolded EmplaceCount]
  have "e = Tau" "s' = goto i Idle (s\<lparr>num_inserts := num_inserts s + 1\<rparr>)" using st EmplaceCount by auto
  then show ?thesis using sim_goto[OF I, of Idle i Tau] th by (simp add: goto_counters sim_step_counters)
qed (use st in auto)

lemma sim_pop:
  assumes I: "al_inv m as own s t" and b: "m < 2 ^ 64 - 1"
    and st: "pop_step i (pcs s i) s = Some (e, s')"
  shows "sim_step m t e s'"
proof (cases "pcs s i")
  case PopLoad
  note th = al_inv_thread[OF I, of i, unfolded PopLoad]
  show ?thesis
  proof (cases "gptr (head s)")
    case None
    then have "stack t = []" using al_invD(2,4)[OF I] by (simp add: chain_None)
    moreover have "e = PopEmpty i" "s' = goto i Idle s" using st PopLoad None by auto
    ultimately show ?thesis using sim_goto[OF I, of Idle i e] th spec_pop_empty by auto
  next
    case (Some p)
    then have "e = Tau" "s' = goto i (PopNext (head s)) s" using st PopLoad by auto
    then show ?thesis using sim_goto[OF I, of "PopNext (head s)" i e] th Some al_invD(1)[OF I] by (auto simp: saved_now)
  qed
next
  case (PopNext h)
  note th = al_inv_thread[OF I, of i, unfolded PopNext]
  from th obtain p where p: "gptr h = Some p" by auto
  show ?thesis
  proof (cases "heap s p")
    case None
    then have "e = StaleRead i p" "s' = goto i Crashed s" using st PopNext p by auto
    then show ?thesis using sim_goto[OF I, of Crashed i e] th by auto
  next
    case (Some n)
    then have "e = Tau" "s' = goto i (PopCas h (next_alias h (nxt n))) s" using st PopNext p by auto
    then show ?thesis using sim_goto[OF I, of "PopCas h (next_alias h (nxt n))" i Tau] th p Some
      by (auto elim!: saved_mono)
  qed
next
  case (PopCas h d)
  note th = al_inv_thread[OF I, of i, unfolded PopCas]
  from th obtain p where p: "gptr h = Some p" "saved m (head s) h (\<exists>n. heap s p = Some n \<and> d = next_alias h (nxt n))"
    "own i = []" "arg t i = None" "pend t i = []" by auto
  show ?thesis
  proof (cases "compare_and_swap h d s")
    case None
    then have "e = Tau" "s' = goto i PopLoad s" using st PopCas by auto
    then show ?thesis using sim_goto[OF I, of PopLoad i Tau] th by auto
  next
    case (Some s1)
    then have h: "head s = h" "s1 = s\<lparr>head := d\<rparr>" by (auto simp: compare_and_swap_Some)
    have e: "e = CommitPop i" "s' = goto i (PopTake p) s1" using st PopCas Some p by auto
    obtain n where n: "heap s p = Some n" "d = next_alias h (nxt n)"
      using saved_current[of m h] p(2) al_invD(1)[OF I] b h by auto
    obtain as' where as': "as = p # as'" "chain (heap s) (nxt n) as'"
      using chain_hd[of "heap s" p as] al_invD(2)[OF I] h(1) p(1) n(1) by auto
    let ?t = "t\<lparr>stack := map (val_at (heap s)) as', pend := (pend t)(i := [val n])\<rparr>"
    have "al_inv (Suc m) as' (own(i := [p])) s' ?t"
      by (rule al_inv_commit[OF I, where pc' = "PopTake p"])
        (use n h e p as' al_invD(1,3)[OF I] in \<open>auto simp: goto_def\<close>)
    moreover have "spec_step t e ?t"
      using spec_pop[of t "val n" "map (val_at (heap s)) as'" i] p(5) al_invD(4)[OF I] as'(1) n(1) e(1) by simp
    ultimately show ?thesis by (intro sim_stepI[of "Suc m"]) (use e in auto)
  qed
next
  case (PopTake p)
  note th = al_inv_thread[OF I, of i, unfolded PopTake]
  then obtain n where n: "own i = [p]" "heap s p = Some n" "pend t i = [val n]" "arg t i = None" by auto
  have e: "e = Take i (val n)" "s' = goto i (PopFree p) s" using st PopTake n by auto
  let ?t = "t\<lparr>pend := (pend t)(i := []), taken := (taken t)(i := Suc (taken t i))\<rparr>"
  have "al_inv m as (own(i := [p])) s' ?t"
    by (rule al_inv_local[OF I, where pc' = "PopFree p"]) (use n e in \<open>auto simp: goto_def\<close>)
  then show ?thesis by (rule sim_stepI) (use e n spec_take in auto)
next
  case (PopFree p)
  note th = al_inv_thread[OF I, of i, unfolded PopFree]
  have e: "e = Tau" "s' = goto i PopCount (free_node p s)" using st PopFree by auto
  have "al_inv m as (own(i := [])) s' t"
    by (rule al_inv_local[OF I, where pc' = PopCount]) (use th e in \<open>auto simp: goto_def free_node_def\<close>)
  then show ?thesis by (rule sim_stepI) (use e in auto)
next
  case PopCount
  note th = al_inv_thread[OF I, of i, unfolded PopCount]
  have "e = Tau" "s' = goto i Idle (s\<lparr>num_pops := num_pops s + 1\<rparr>)" using st PopCount by auto
  then show ?thesis using sim_goto[OF I, of Idle i Tau] th by (simp add: goto_counters sim_step_counters)
qed (use st in auto)

lemma sim_release:
  assumes I: "al_inv m as own s t" and b: "m < 2 ^ 64 - 1"
    and st: "release_step i (pcs s i) s = Some (e, s')"
  shows "sim_step m t e s'"
proof (cases "pcs s i")
  case RelLoad
  note th = al_inv_thread[OF I, of i, unfolded RelLoad]
  have "e = Tau" "s' = goto i (RelCas (head s) (next_alias (head s) None)) s" using st RelLoad by (auto simp: Let_def)
  then show ?thesis using sim_goto[OF I, of "RelCas (head s) (next_alias (head s) None)" i Tau] th al_invD(1)[OF I]
    by (auto simp: saved_now)
next
  case (RelCas h d)
  note th = al_inv_thread[OF I, of i, unfolded RelCas]
  show ?thesis
  proof (cases "compare_and_swap h d s")
    case None
    then have "e = Tau" "s' = goto i RelLoad s" using st RelCas by auto
    then show ?thesis using sim_goto[OF I, of RelLoad i Tau] th by auto
  next
    case (Some s1)
    then have h: "head s = h" "s1 = s\<lparr>head := d\<rparr>" by (auto simp: compare_and_swap_Some)
    have e: "e = CommitRelease i" "s' = goto i (RelZeroInserts (gptr h)) s1" using st RelCas Some by auto
    let ?t = "t\<lparr>stack := [], pend := (pend t)(i := stack t), taken := (taken t)(i := 0)\<rparr>"
    have "al_inv (Suc m) [] (own(i := as)) s' ?t"
      by (rule al_inv_commit[OF I, where pc' = "RelZeroInserts (gptr h)"])
        (use th h e al_invD[OF I] in \<open>auto simp: goto_def\<close>)
    moreover have "spec_step t e ?t" using spec_release[of t i] th e(1) by simp
    ultimately show ?thesis by (intro sim_stepI[of "Suc m"]) (use e in auto)
  qed
next
  case (RelZeroInserts q)
  note th = al_inv_thread[OF I, of i, unfolded RelZeroInserts]
  have "e = Tau" "s' = goto i (RelZeroPops q) (s\<lparr>num_inserts := 0\<rparr>)" using st RelZeroInserts by auto
  then show ?thesis using sim_goto[OF I, of "RelZeroPops q" i Tau] th by (simp add: goto_counters sim_step_counters)
next
  case (RelZeroPops q)
  note th = al_inv_thread[OF I, of i, unfolded RelZeroPops]
  have "e = Tau" "s' = goto i (RelWalk q 0) (s\<lparr>num_pops := 0\<rparr>)" using st RelZeroPops by auto
  then show ?thesis using sim_goto[OF I, of "RelWalk q 0" i Tau] th by (simp add: goto_counters sim_step_counters)
next
  case (RelWalk q c)
  note th = al_inv_thread[OF I, of i, unfolded RelWalk]
  show ?thesis
  proof (cases q)
    case None
    then have e: "e = Released i c" "s' = goto i Idle s" using st RelWalk by auto
    moreover have "own i = []" "pend t i = []" "c = of_nat (taken t i)" using th None by (auto simp: chain_None)
    ultimately show ?thesis using sim_goto[OF I, of Idle i e] th spec_released[of t i c] by auto
  next
    case (Some p)
    from th Some obtain n os where n: "own i = p # os" "heap s p = Some n" "chain (heap s) (nxt n) os"
      "pend t i = map (val_at (heap s)) (p # os)" "c = of_nat (taken t i)" "arg t i = None"
      using chain_hd[of "heap s" p "own i"] by auto
    have e: "e = Take i (val n)" "s' = goto i (RelFree p c) s" using st RelWalk Some n by auto
    let ?t = "t\<lparr>pend := (pend t)(i := map (val_at (heap s)) os), taken := (taken t)(i := Suc (taken t i))\<rparr>"
    have "al_inv m as (own(i := p # os)) s' ?t"
      by (rule al_inv_local[OF I, where pc' = "RelFree p c"])
        (use n e al_inv_own[OF I, of i] in \<open>auto simp: goto_def\<close>)
    moreover have "spec_step t e ?t" using spec_take[of t i "val n" "map (val_at (heap s)) os"] n e(1) by simp
    ultimately show ?thesis by (intro sim_stepI[of m]) (use e in auto)
  qed
next
  case (RelFree p c)
  note th = al_inv_thread[OF I, of i, unfolded RelFree]
  from th obtain n os where n: "own i = p # os" "heap s p = Some n" "chain (heap s) (nxt n) os"
    "pend t i = map (val_at (heap s)) os" "c + 1 = of_nat (taken t i)" "arg t i = None" by auto
  have e: "e = Tau" "s' = goto i (RelWalk (nxt n) (c + 1)) (free_node p s)" using st RelFree n by auto
  have d: "p \<notin> set os" "distinct os" using al_inv_own[OF I, of i] n(1) by auto
  have ch: "chain ((heap s)(p := None)) (nxt n) os" by (rule chain_mono[OF n(3)]) (use d(1) in auto)
  have "al_inv m as (own(i := os)) s' t"
    by (rule al_inv_local[OF I, where pc' = "RelWalk (nxt n) (c + 1)"])
      (use n e d ch in \<open>auto simp: goto_def free_node_def\<close>)
  then show ?thesis by (rule sim_stepI) (use e in auto)
qed (use st in auto)

lemma sim_al_step:
  assumes I: "al_inv m as own s t" and b: "m < 2 ^ 64 - 1" and st: "al_step i c s = Some (e, s')"
  shows "sim_step m t e s'"
proof (cases c)
  case (StartEmplace v a)
  note th = al_inv_thread[OF I, of i]
  have p: "pcs s i = Idle" "heap s a = None" and e: "e = CallEmplace i v"
    "s' = goto i (EmplaceLoad a) (s\<lparr>heap := (heap s)(a \<mapsto> \<lparr>val = v, nxt = None\<rparr>)\<rparr>)"
    using st StartEmplace by (auto split: if_splits)
  let ?t = "t\<lparr>arg := (arg t)(i \<mapsto> v)\<rparr>"
  have "al_inv m as (own(i := [a])) s' ?t"
    by (rule al_inv_local[OF I, where pc' = "EmplaceLoad a"]) (use p e th in \<open>auto simp: goto_def\<close>)
  moreover have "spec_step t e ?t" using spec_call[of t i v] th p e(1) by simp
  ultimately show ?thesis by (intro sim_stepI[of m]) (use e in auto)
next
  case StartPop
  then have "pcs s i = Idle" "e = Tau" "s' = goto i PopLoad s" using st by (auto split: if_splits)
  then show ?thesis using sim_goto[OF I, of PopLoad i Tau] al_inv_thread[OF I, of i] by auto
next
  case StartRelease
  then have "pcs s i = Idle" "e = Tau" "s' = goto i RelLoad s" using st by (auto split: if_splits)
  then show ?thesis using sim_goto[OF I, of RelLoad i Tau] al_inv_thread[OF I, of i] by auto
next
  case AskEmpty
  have "al_empty s = (stack t = [])"
    using al_invD(2,4)[OF I] by (cases as) (auto simp: al_empty_def chain_None)
  moreover have "e = IsEmpty i (al_empty s)" "s' = s" using AskEmpty st by (auto split: if_splits)
  ultimately show ?thesis using spec_is_empty[of "al_empty s" t i] sim_stepI[OF I, of m e t] by auto
next
  case Go
  then show ?thesis
    using st sim_emplace[OF I b, of i e s'] sim_pop[OF I b, of i e s'] sim_release[OF I b, of i e s']
    by (auto simp: go_step_def split: option.splits)
next
  case Spurious
  then obtain p where p: "spurious_pc (pcs s i) = Some p" "e = Tau" "s' = goto i p s"
    using st by (auto split: option.splits)
  have "thread_ok m (head s) (heap s) p (arg t i) (pend t i) (taken t i) (own i)"
    using p(1) al_inv_thread[OF I, of i] by (cases "pcs s i") auto
  then show ?thesis using sim_goto[OF I, of p i Tau] p by auto
qed

lemma al_inv_init: "al_inv 0 [] (\<lambda>_. []) al_new spec_new"
  by (simp add: al_inv_def al_new_def spec_new_def create_alias_def)

interpretation al_sim: bounded_simulation al_new al_trans spec_new spec_step observed al_related "2 ^ 64 - 1"
proof
  show "al_related 0 al_new spec_new" unfolding al_related_def using al_inv_init by blast
next
  fix n s t e s'
  assume "al_related n s t" "n < 2 ^ 64 - 1" "al_trans s e s'"
  then obtain m as own i c where m: "m \<le> n" "al_inv m as own s t" "al_step i c s = Some (e, s')"
    unfolding al_related_def al_trans_def by blast
  have "sim_step m t e s'" using sim_al_step[OF m(2) _ m(3)] m(1) \<open>n < 2 ^ 64 - 1\<close> by simp
  then show "\<exists>t'. (if observed e then spec_step t e t' else t' = t) \<and> al_related (Suc n) s' t'"
    unfolding sim_step_def al_related_def using m(1) by (meson Suc_le_mono order_trans)
qed

text \<open>C4: For any number of threads and every interleaving of fewer than 2^64 steps, what the threads observe
  (calls, effects, values handed out, counts) is an execution of an atomic stack, and the nodes
  reachable from the head are the content of that stack: a popped or released value is handed out
  once, whatever address a later \<^verbatim>\<open>new\<close> reuses, because the generation of the head tells the heads apart. No freed node is accessed but for
  the read of the successor in a pop (\<open>StaleRead\<close>): that is undefined behaviour, and the claim is one of the program only up to there.\<close>

theorem atomic_list_linearizable:
  assumes "exec al_trans al_new es s" "length es < 2 ^ 64"
  shows "\<exists>t as. exec spec_step spec_new (filter observed es) t \<and>
    chain (heap s) (gptr (head s)) as \<and> distinct as \<and> stack t = map (val_at (heap s)) as"
proof -
  obtain t where t: "exec spec_step spec_new (filter observed es) t" "al_related (length es) s t"
    using al_sim.simulates[OF assms(1)] assms(2) by auto
  then obtain m as own where "al_inv m as own s t" unfolding al_related_def by blast
  with t(1) show ?thesis by (intro exI[of _ t] exI[of _ as]) (simp add: al_inv_def)
qed

section \<open>Runs of a given schedule\<close>

fun al_run :: "(nat \<times> 'v choice) list \<Rightarrow> 'v alist \<Rightarrow> ('v event list \<times> 'v alist) option" where
  "al_run [] s = Some ([], s)"
| "al_run ((i, c) # cs) s = (case al_step i c s of
     None \<Rightarrow> None
   | Some (e, s') \<Rightarrow> (case al_run cs s' of None \<Rightarrow> None | Some (es, s'') \<Rightarrow> Some (e # es, s'')))"

lemma al_transI: "al_step i c s = Some (e, s') \<Longrightarrow> al_trans s e s'"
  unfolding al_trans_def by blast

lemma al_run_exec: "al_run cs s = Some (es, s') \<Longrightarrow> exec al_trans s es s'"
proof (induction cs arbitrary: s es)
  case (Cons ic cs)
  then show ?case by (cases ic) (auto split: option.splits intro!: exec_cons intro: al_transI)
qed (auto intro: exec_nil)

lemmas al_run_simps = al_new_def create_alias_def next_alias_def goto_def free_node_def compare_and_swap_def
  go_step_def al_empty_def Let_def

theorem atomic_list_linearizable_witness:
  "\<exists>t. exec spec_step spec_new [CallEmplace 0 (5 :: nat), CommitEmplace 0, CommitPop 1, Take 1 5] t \<and> stack t = []"
proof -
  let ?cs = "[(0, StartEmplace (5 :: nat) 7), (0, Go), (1, StartPop), (0, Go), (1, Go), (1, Go), (1, Go), (1, Go)]"
  obtain es s where r: "al_run ?cs al_new = Some (es, s)" "filter observed es = [CallEmplace 0 5, CommitEmplace 0, CommitPop 1, Take 1 5]"
    "gptr (head s) = None" "length es = 8"
    by (simp add: al_run_simps)
  show ?thesis using atomic_list_linearizable[OF al_run_exec[OF r(1)]] r by (auto simp: chain_None)
qed

section \<open>Use after free\<close>

text \<open>A thread crashes only where \<open>pop_and_release_front\<close> reads the successor of a node that is freed.\<close>

lemma go_crash:
  assumes "go_step i s = Some (e, s')" "pcs s' i = Crashed"
  shows "(\<exists>h p. pcs s i = PopNext h \<and> gptr h = Some p \<and> heap s p = None) \<or>
    (\<exists>p k. heap s p = None \<and> (pcs s i = PopTake p \<or> pcs s i = RelWalk (Some p) k \<or> pcs s i = RelFree p k))"
proof (cases "pcs s i")
  case (RelWalk q k)
  then show ?thesis using assms by (cases q) (auto simp: go_step_def goto_def split: option.splits)
qed (use assms in \<open>auto simp: go_step_def goto_def Let_def split: option.splits\<close>)

lemma crash_only_at_next:
  assumes "exec al_trans al_new es s" "length es < 2 ^ 64" "go_step i s = Some (e, s')" "pcs s' i = Crashed"
  shows "\<exists>h p. pcs s i = PopNext h \<and> gptr h = Some p \<and> heap s p = None"
proof -
  obtain t where "al_related (length es) s t"
    using al_sim.simulates[OF assms(1)] assms(2) by auto
  then obtain m as own where "al_inv m as own s t" unfolding al_related_def by blast
  from al_inv_thread[OF this, of i] show ?thesis
    using go_crash[OF assms(3,4)] by (auto dest!: chain_hd)
qed

text \<open>Two threads that pop at the same time can make one of them read the memory of a node that the other has
  already freed: the node is deleted without waiting for the threads that have read the head.\<close>

theorem atomic_list_use_after_free:
  "\<exists>es s. exec al_trans (al_new :: nat alist) es s \<and> pcs s 1 = Crashed \<and> StaleRead 1 7 \<in> set es"
proof -
  let ?cs = "[(0, StartEmplace 5 7), (0, Go), (0, Go), (0, Go), (1, StartPop), (1, Go), (0, StartPop), (0, Go), (0, Go),
    (0, Go), (0, Go), (0, Go), (1 :: nat, Go :: nat choice)]"
  obtain es s where "al_run ?cs al_new = Some (es, s)" "pcs s 1 = Crashed" "StaleRead 1 7 \<in> set es"
    by (simp add: al_run_simps)
  then show ?thesis using al_run_exec by blast
qed

section \<open>Progress\<close>

text \<open>Thread \<open>i\<close> runs alone, for at most \<open>n\<close> steps, until it has left its operation; its compare-and-swaps
  do not fail spuriously.\<close>

fun al_alone :: "nat \<Rightarrow> nat \<Rightarrow> 'v alist \<Rightarrow> 'v alist" where
  "al_alone 0 i s = s"
| "al_alone (Suc n) i s =
     (if pcs s i = Idle then s
      else case al_step i Go s of None \<Rightarrow> s | Some (e, s') \<Rightarrow> al_alone n i s')"

definition finishes :: "nat \<Rightarrow> 'v alist \<Rightarrow> bool" where
  "finishes i s \<longleftrightarrow> (\<exists>n. pcs (al_alone n i s) i = Idle)"

lemma finishes_Idle: "pcs s i = Idle \<Longrightarrow> finishes i s"
  unfolding finishes_def by (intro exI[of _ 0]) simp

lemma finishes_step:
  assumes "case go_step i s of None \<Rightarrow> False | Some (e, s') \<Rightarrow> finishes i s'"
  shows "finishes i s"
proof (cases "pcs s i = Idle")
  case False
  obtain e s' where st: "go_step i s = Some (e, s')" "finishes i s'" using assms by (auto split: option.splits)
  obtain n where "pcs (al_alone n i s') i = Idle" using st(2) unfolding finishes_def by blast
  then have "pcs (al_alone (Suc n) i s) i = Idle" using False st(1) by simp
  then show ?thesis unfolding finishes_def by blast
qed (rule finishes_Idle)

lemma pcs_goto [simp]: "pcs (goto i p s) i = p" by (simp add: goto_def)
lemma heap_goto [simp]: "heap (goto i p s) = heap s" by (simp add: goto_def)
lemma head_goto [simp]: "head (goto i p s) = head s" by (simp add: goto_def)
lemma goto_goto [simp]: "goto i p (goto i q s) = goto i p s" by (simp add: goto_def)

lemma cas_fresh: "compare_and_swap (head s) d s = Some (s\<lparr>head := d\<rparr>)"
  by (simp add: compare_and_swap_def)

lemma finishes_pop_tail:
  "pcs s i = PopCount \<Longrightarrow> finishes i s"
  "pcs s i = PopFree p \<Longrightarrow> finishes i s"
  "pcs s i = PopTake p \<Longrightarrow> heap s p \<noteq> None \<Longrightarrow> finishes i s"
proof -
  show c: "finishes i s" if "pcs s i = PopCount" for s :: "'a alist"
    by (rule finishes_step) (use that in \<open>auto simp: go_step_def intro: finishes_Idle\<close>)
  show f: "finishes i s" if "pcs s i = PopFree p" for s :: "'a alist"
    by (rule finishes_step) (use that in \<open>auto simp: go_step_def intro: c\<close>)
  show "finishes i s" if "pcs s i = PopTake p" "heap s p \<noteq> None"
    using that f[of "goto i (PopFree p) s"] by - (rule finishes_step, auto simp: go_step_def)
qed

lemma finishes_emplace:
  "pcs s i = EmplaceCount \<Longrightarrow> finishes i s"
  "pcs s i = EmplaceLoad a \<Longrightarrow> heap s a \<noteq> None \<Longrightarrow> finishes i s"
  "pcs s i = EmplaceCas a h d \<Longrightarrow> heap s a \<noteq> None \<Longrightarrow> finishes i s"
proof -
  show c: "finishes i s" if "pcs s i = EmplaceCount" for s :: "'a alist"
    by (rule finishes_step) (use that in \<open>auto simp: go_step_def intro: finishes_Idle\<close>)
  have now: "finishes i s" if "pcs s i = EmplaceCas a (head s) d" for s :: "'a alist" and d
    by (rule finishes_step) (use that in \<open>auto simp: go_step_def cas_fresh intro: c\<close>)
  show l: "finishes i s" if "pcs s i = EmplaceLoad a" "heap s a \<noteq> None" for s :: "'a alist"
    using that by - (rule finishes_step, auto simp: go_step_def Let_def intro!: now)
  show "finishes i s" if "pcs s i = EmplaceCas a h d" "heap s a \<noteq> None"
  proof (cases "head s = h")
    case True
    then show ?thesis using now that by blast
  next
    case False
    show ?thesis by (rule finishes_step)
      (use that False in \<open>auto simp: go_step_def compare_and_swap_def intro: l\<close>)
  qed
qed

lemma finishes_walk:
  assumes "chain (heap s) q os" "distinct os" "pcs s i = RelWalk q k"
  shows "finishes i s"
  using assms
proof (induction os arbitrary: s q k)
  case Nil
  then have "pcs s i = RelWalk None k" by simp
  then show ?case by - (rule finishes_step, auto simp: go_step_def intro: finishes_Idle)
next
  case (Cons p os)
  then obtain n where n: "q = Some p" "heap s p = Some n" "chain (heap s) (nxt n) os" "p \<notin> set os" by auto
  let ?s2 = "goto i (RelWalk (nxt n) (k + 1)) (free_node p (goto i (RelFree p k) s))"
  have "chain (heap ?s2) (nxt n) os"
    by (rule chain_mono[OF n(3)]) (use n(4) in \<open>auto simp: free_node_def\<close>)
  then have "finishes i ?s2" using Cons.IH[of ?s2 "nxt n" "k + 1"] Cons.prems(2) by simp
  then have "finishes i (goto i (RelFree p k) s)"
    using n by - (rule finishes_step, simp add: go_step_def)
  then show ?case using n Cons.prems(3) by - (rule finishes_step, simp add: go_step_def)
qed

lemma finishes_release:
  assumes "distinct os"
  shows "chain (heap s) q os \<Longrightarrow> pcs s i = RelZeroPops q \<Longrightarrow> finishes i s"
    "chain (heap s) q os \<Longrightarrow> pcs s i = RelZeroInserts q \<Longrightarrow> finishes i s"
    "chain (heap s) (gptr (head s)) os \<Longrightarrow> pcs s i = RelLoad \<Longrightarrow> finishes i s"
    "chain (heap s) (gptr (head s)) os \<Longrightarrow> pcs s i = RelCas h d \<Longrightarrow> finishes i s"
proof -
  show p: "finishes i s" if "chain (heap s) q os" "pcs s i = RelZeroPops q" for s :: "'a alist" and q
    by (rule finishes_step) (use that in \<open>auto simp: go_step_def intro: finishes_walk[OF _ assms]\<close>)
  show z: "finishes i s" if "chain (heap s) q os" "pcs s i = RelZeroInserts q" for s :: "'a alist" and q
    by (rule finishes_step) (use that in \<open>auto simp: go_step_def intro: p\<close>)
  have now: "finishes i s" if "chain (heap s) (gptr (head s)) os" "pcs s i = RelCas (head s) d" for s :: "'a alist" and d
    by (rule finishes_step) (use that in \<open>auto simp: go_step_def cas_fresh intro: z\<close>)
  show l: "finishes i s" if "chain (heap s) (gptr (head s)) os" "pcs s i = RelLoad" for s :: "'a alist"
    by (rule finishes_step) (use that in \<open>auto simp: go_step_def Let_def intro: now\<close>)
  show "finishes i s" if "chain (heap s) (gptr (head s)) os" "pcs s i = RelCas h d"
  proof (cases "head s = h")
    case True
    then show ?thesis using now that by blast
  next
    case False
    show ?thesis by (rule finishes_step)
      (use that False in \<open>auto simp: go_step_def compare_and_swap_def intro: l\<close>)
  qed
qed

lemma finishes_pop:
  assumes "chain (heap s) (gptr (head s)) as"
  shows "pcs s i = PopLoad \<Longrightarrow> finishes i s"
    "pcs s i = PopCas h d \<Longrightarrow> finishes i s"
proof -
  have now: "finishes i s" if "chain (heap s) (gptr (head s)) as" "pcs s i = PopCas (head s) d" for s :: "'a alist" and d
  proof (cases "gptr (head s)")
    case None
    then show ?thesis using that by - (rule finishes_step, auto simp: go_step_def cas_fresh intro: finishes_Idle)
  next
    case (Some p)
    then have "heap s p \<noteq> None" using that(1) by (auto dest!: chain_hd)
    with Some show ?thesis
      using that by - (rule finishes_step, auto simp: go_step_def cas_fresh intro: finishes_pop_tail)
  qed
  have nx: "finishes i s" if c: "chain (heap s) (gptr (head s)) as" "pcs s i = PopNext (head s)" "gptr (head s) = Some p"
    for s :: "'a alist" and p
  proof -
    obtain n where "heap s p = Some n" using c(1,3) by (auto dest!: chain_hd)
    with c show ?thesis by - (rule finishes_step, simp add: go_step_def now)
  qed
  have l: "finishes i s" if "chain (heap s) (gptr (head s)) as" "pcs s i = PopLoad" for s :: "'a alist"
  proof (cases "gptr (head s)")
    case None
    then show ?thesis using that by - (rule finishes_step, auto simp: go_step_def Let_def intro: finishes_Idle)
  next
    case (Some p)
    then show ?thesis using that by - (rule finishes_step, auto simp: go_step_def Let_def intro: nx)
  qed
  show "finishes i s" if "pcs s i = PopLoad" using l assms that by blast
  show "finishes i s" if "pcs s i = PopCas h d"
  proof (cases "head s = h")
    case True
    then show ?thesis using now assms that by blast
  next
    case False
    show ?thesis by (rule finishes_step)
      (use that False assms in \<open>auto simp: go_step_def compare_and_swap_def intro: l\<close>)
  qed
qed

text \<open>C14: The list is obstruction free: from every reachable state a thread that is left to run alone
  finishes its operation, if it is not about to read a node that may have been freed.\<close>

theorem atomic_list_progress:
  assumes "exec al_trans al_new es s" "length es < 2 ^ 64"
    and "pcs s i \<noteq> Crashed" "\<And>h. pcs s i \<noteq> PopNext h"
  shows "\<exists>n. pcs (al_alone n i s) i = Idle"
proof -
  obtain t where "al_related (length es) s t"
    using al_sim.simulates[OF assms(1)] assms(2) by auto
  then obtain m as own where I: "al_inv m as own s t" unfolding al_related_def by blast
  note th = al_inv_thread[OF I, of i] and d = al_inv_own[OF I, of i] and as = al_invD(2,3)[OF I]
  have "finishes i s"
  proof (cases "pcs s i")
    case (RelFree p c)
    with th obtain n os where n: "own i = p # os" "heap s p = Some n" "chain (heap s) (nxt n) os" by auto
    have "chain (heap (goto i (RelWalk (nxt n) (c + 1)) (free_node p s))) (nxt n) os"
      by (rule chain_mono[OF n(3)]) (use d n(1) in \<open>auto simp: free_node_def\<close>)
    then have "finishes i (goto i (RelWalk (nxt n) (c + 1)) (free_node p s))"
      using d n(1) by (intro finishes_walk[of _ _ os]) auto
    then show ?thesis using n RelFree by - (rule finishes_step, simp add: go_step_def)
  qed (use th d as assms(3,4) in \<open>auto intro: finishes_Idle finishes_emplace finishes_pop_tail finishes_walk
    finishes_release finishes_pop\<close>)
  then show ?thesis unfolding finishes_def .
qed

theorem atomic_list_progress_witness:
  "\<exists>es s. exec al_trans (al_new :: nat alist) es s \<and> pcs s 1 = PopLoad \<and> (\<exists>n. pcs (al_alone n 1 s) 1 = Idle)"
proof -
  let ?cs = "[(0, StartEmplace 5 7), (0, Go), (0, Go), (1 :: nat, StartPop :: nat choice)]"
  obtain es s where r: "al_run ?cs al_new = Some (es, s)" "pcs s 1 = PopLoad" "length es = 4"
    by (simp add: al_run_simps)
  show ?thesis
    using atomic_list_progress[OF al_run_exec[OF r(1)], of 1] r al_run_exec[OF r(1)] by auto
qed

end
