(* ===== verification/Awaiter.thy ===== *)
theory Awaiter
  imports TxlPrelude
begin

text \<open>
  \<open>awaiter\<close> of \<^verbatim>\<open>include/txl/threading.h\<close>: a flag under a mutex with a condition variable. Each of its
  critical sections is one step. The thread pool and the tasks signal through it.
\<close>

definition aw_set :: "bool \<Rightarrow> bool" where "aw_set a = True"
definition aw_reset :: "bool \<Rightarrow> bool" where "aw_reset a = False"

text \<open>\<open>wait\<close> goes on when the flag is set, and is blocked otherwise.\<close>

definition aw_wait :: "bool \<Rightarrow> bool option" where "aw_wait a = (if a then Some a else None)"

lemma aw_simps [simp]: "aw_set a" "\<not> aw_reset a" "aw_wait True = Some True" "aw_wait False = None"
  by (simp_all add: aw_set_def aw_reset_def aw_wait_def)

end
