(* ===== verification/ThreadPool.thy ===== *)
theory ThreadPool
  imports Simulation Awaiter "HOL-Library.Word"
begin

text \<open>
  The thread pool of \<^verbatim>\<open>include/txl/threading.h\<close>: the \<open>awaiter\<close> (a flag under a mutex with a condition
  variable), the loop \<open>process_work\<close> of a worker, and the operations of the pool that client threads
  call. A critical section of an awaiter, an atomic access and an operation of a worker's pending list
  (an atomic stack, see AtomicList) are one step each; \<open>None\<close> means that the thread is blocked. Every
  interleaving of workers and clients is a sequence of steps.
\<close>

section \<open>State\<close>

text \<open>A posted unit of work: an identity and how many more parts \<open>next()\<close> will find.\<close>

type_synonym job = "nat \<times> nat"

datatype wpc =
    WTop
  | WPop
  | WExec job
  | WNext job
  | WComplete job
  | WDec job
  | WCheck
  | WSetIdle
  | WWait
  | WReset
  | WExit
  | WDone

datatype cpc =
    CIdle
  | PIndex job
  | PStore job
  | PPost job nat
  | PPush job nat
  | PSet nat
  | PInc
  | LLoad
  | LWait
  | LReset
  | SStart nat
  | SSpawn nat
  | SStop nat
  | SSet nat
  | SJoin nat
  | CFault

record pool =
  nworkers :: nat
  wpcs :: "nat \<Rightarrow> wpc"
  queue :: "nat \<Rightarrow> job list"
  work_set :: "nat \<Rightarrow> bool"
  stopped :: "nat \<Rightarrow> bool"
  joinable :: "nat \<Rightarrow> bool"
  idle_set :: bool
  pending :: "64 word"
  next_index :: "64 word"
  cpcs :: "nat \<Rightarrow> cpc"

definition pool_new :: "nat \<Rightarrow> pool" where
  "pool_new n = \<lparr>nworkers = n, wpcs = (\<lambda>_. WDone), queue = (\<lambda>_. []), work_set = (\<lambda>_. False),
     stopped = (\<lambda>_. False), joinable = (\<lambda>_. False), idle_set = False, pending = 0, next_index = 0, cpcs = (\<lambda>_. CIdle)\<rparr>"

section \<open>Workers\<close>

abbreviation wgoto :: "nat \<Rightarrow> wpc \<Rightarrow> pool \<Rightarrow> pool" where
  "wgoto k p s \<equiv> s\<lparr>wpcs := (wpcs s)(k := p)\<rparr>"

text \<open>The steps of \<open>process_work\<close>, and of \<open>thread_body\<close> around it.\<close>

fun job_next :: "job \<Rightarrow> job option" where
  "job_next (j, r) = (case r of 0 \<Rightarrow> None | Suc r' \<Rightarrow> Some (j, r'))"

definition worker_step :: "nat \<Rightarrow> pool \<Rightarrow> pool option" where
  "worker_step k s = (case wpcs s k of
     WTop \<Rightarrow> Some (if stopped s k then wgoto k WExit s else wgoto k WPop s)
   | WPop \<Rightarrow> Some (case queue s k of
         [] \<Rightarrow> wgoto k WCheck s
       | w # ws \<Rightarrow> wgoto k (WExec w) (s\<lparr>queue := (queue s)(k := ws)\<rparr>))
   | WExec w \<Rightarrow> Some (wgoto k (WNext w) s)
   | WNext w \<Rightarrow> Some (if stopped s k then wgoto k (WComplete w) s
       else case job_next w of None \<Rightarrow> wgoto k (WComplete w) s | Some w' \<Rightarrow> wgoto k (WExec w') s)
   | WComplete w \<Rightarrow> Some (wgoto k (WDec w) s)
   | WDec w \<Rightarrow> Some (wgoto k WTop (s\<lparr>pending := pending s - 1\<rparr>))
   | WCheck \<Rightarrow> Some (if stopped s k then wgoto k WTop s else wgoto k WSetIdle s)
   | WSetIdle \<Rightarrow> Some (wgoto k WWait (s\<lparr>idle_set := aw_set (idle_set s)\<rparr>))
   | WWait \<Rightarrow> (case aw_wait (work_set s k) of None \<Rightarrow> None | Some _ \<Rightarrow> Some (wgoto k WReset s))
   | WReset \<Rightarrow> Some (wgoto k WTop (s\<lparr>work_set := (work_set s)(k := aw_reset (work_set s k))\<rparr>))
   | WExit \<Rightarrow> Some (wgoto k WDone (s\<lparr>idle_set := aw_set (idle_set s)\<rparr>))
   | WDone \<Rightarrow> None)"

section \<open>Clients\<close>

datatype call =
    PostWork job
  | WaitForIdle
  | StartWorkers
  | StopWorkers

abbreviation cgoto :: "nat \<Rightarrow> cpc \<Rightarrow> pool \<Rightarrow> pool" where
  "cgoto c p s \<equiv> s\<lparr>cpcs := (cpcs s)(c := p)\<rparr>"

fun call_step :: "nat \<Rightarrow> call \<Rightarrow> pool \<Rightarrow> pool" where
  "call_step c (PostWork j) s = cgoto c (PIndex j) s"
| "call_step c WaitForIdle s = cgoto c LLoad s"
| "call_step c StartWorkers s = cgoto c (SStart 0) s"
| "call_step c StopWorkers s = cgoto c (SStop 0) s"

text \<open>What the pool does to one worker: \<open>post\<close>, \<open>start\<close>, \<open>stop\<close> and \<open>wait_for_shutdown\<close> of
  \<open>thread_pool_worker\<close>, access by access.\<close>

definition worker_refuses :: "nat \<Rightarrow> pool \<Rightarrow> bool" where
  "worker_refuses k s \<longleftrightarrow> stopped s k"

definition worker_push :: "nat \<Rightarrow> job \<Rightarrow> pool \<Rightarrow> pool" where
  "worker_push k j s = s\<lparr>queue := (queue s)(k := j # queue s k)\<rparr>"

definition worker_wake :: "nat \<Rightarrow> pool \<Rightarrow> pool" where
  "worker_wake k s = s\<lparr>work_set := (work_set s)(k := aw_set (work_set s k))\<rparr>"

definition worker_unstop :: "nat \<Rightarrow> pool \<Rightarrow> pool" where
  "worker_unstop k s = s\<lparr>stopped := (stopped s)(k := False)\<rparr>"

definition worker_spawn :: "nat \<Rightarrow> pool \<Rightarrow> pool option" where
  "worker_spawn k s = (if joinable s k then None
     else Some (wgoto k WTop (s\<lparr>joinable := (joinable s)(k := True)\<rparr>)))"

definition worker_stop :: "nat \<Rightarrow> pool \<Rightarrow> pool" where
  "worker_stop k s = s\<lparr>stopped := (stopped s)(k := True)\<rparr>"

definition wait_for_shutdown :: "nat \<Rightarrow> pool \<Rightarrow> pool option" where
  "wait_for_shutdown k s =
     (if joinable s k then if wpcs s k = WDone then Some (s\<lparr>joinable := (joinable s)(k := False)\<rparr>) else None
      else Some s)"

lemmas worker_defs = worker_refuses_def worker_push_def worker_wake_def worker_unstop_def worker_spawn_def
  worker_stop_def wait_for_shutdown_def

declare worker_defs [simp]

text \<open>\<open>post_work\<close> with \<open>thread_pool_worker::post\<close>.\<close>

definition post_step :: "nat \<Rightarrow> pool \<Rightarrow> pool option" where
  "post_step c s = (case cpcs s c of
     PIndex j \<Rightarrow> (let index = next_index s; s' = s\<lparr>next_index := index + 1\<rparr>
        in Some (cgoto c (if nworkers s \<le> unat index then PStore j else PPost j (unat index)) s'))
   | PStore j \<Rightarrow> Some (cgoto c (PPost j 0) (s\<lparr>next_index := 0\<rparr>))
   | PPost j k \<Rightarrow> Some (if nworkers s \<le> k then cgoto c CFault s
        else if worker_refuses k s then cgoto c CIdle s else cgoto c (PPush j k) s)
   | PPush j k \<Rightarrow> Some (cgoto c (PSet k) (worker_push k j s))
   | PSet k \<Rightarrow> Some (cgoto c PInc (worker_wake k s))
   | PInc \<Rightarrow> Some (cgoto c CIdle (s\<lparr>pending := pending s + 1\<rparr>))
   | _ \<Rightarrow> None)"

text \<open>\<open>thread_pool::wait_for_idle\<close>.\<close>

definition idle_step :: "nat \<Rightarrow> pool \<Rightarrow> pool option" where
  "idle_step c s = (case cpcs s c of
     LLoad \<Rightarrow> Some (cgoto c (if 0 < pending s then LWait else CIdle) s)
   | LWait \<Rightarrow> (case aw_wait (idle_set s) of None \<Rightarrow> None | Some _ \<Rightarrow> Some (cgoto c LReset s))
   | LReset \<Rightarrow> Some (cgoto c LLoad (s\<lparr>idle_set := aw_reset (idle_set s)\<rparr>))
   | _ \<Rightarrow> None)"

text \<open>\<open>start_workers\<close> and \<open>stop_workers\<close>. Assigning a thread to a worker whose thread has not been joined
  terminates the program (\<open>CFault\<close>, which also stands for a post to a pool without workers).\<close>

definition start_stop_step :: "nat \<Rightarrow> pool \<Rightarrow> pool option" where
  "start_stop_step c s = (case cpcs s c of
     SStart k \<Rightarrow> Some (if nworkers s \<le> k then cgoto c CIdle s else cgoto c (SSpawn k) (worker_unstop k s))
   | SSpawn k \<Rightarrow> Some (case worker_spawn k s of
         None \<Rightarrow> cgoto c CFault s
       | Some s' \<Rightarrow> cgoto c (SStart (Suc k)) s')
   | SStop k \<Rightarrow> Some (if nworkers s \<le> k then cgoto c (SJoin 0) s else cgoto c (SSet k) (worker_stop k s))
   | SSet k \<Rightarrow> Some (cgoto c (SStop (Suc k)) (worker_wake k s))
   | SJoin k \<Rightarrow> (if nworkers s \<le> k then Some (cgoto c CIdle s)
       else case wait_for_shutdown k s of None \<Rightarrow> None | Some s' \<Rightarrow> Some (cgoto c (SJoin (Suc k)) s'))
   | _ \<Rightarrow> None)"

datatype actor =
    Worker nat
  | Call nat call
  | Client nat

fun pool_step :: "actor \<Rightarrow> pool \<Rightarrow> pool option" where
  "pool_step (Worker k) s = (if k < nworkers s then worker_step k s else None)"
| "pool_step (Call c f) s = (if cpcs s c = CIdle then Some (call_step c f s) else None)"
| "pool_step (Client c) s = (case post_step c s of Some s' \<Rightarrow> Some s'
     | None \<Rightarrow> (case idle_step c s of Some s' \<Rightarrow> Some s' | None \<Rightarrow> start_stop_step c s))"

definition pool_trans :: "pool \<Rightarrow> actor \<Rightarrow> pool \<Rightarrow> bool" where
  "pool_trans s a s' \<longleftrightarrow> pool_step a s = Some s'"

fun pool_run :: "actor list \<Rightarrow> pool \<Rightarrow> pool option" where
  "pool_run [] s = Some s"
| "pool_run (a # as) s = (case pool_step a s of None \<Rightarrow> None | Some s' \<Rightarrow> pool_run as s')"

lemma pool_run_exec: "pool_run as s = Some s' \<Longrightarrow> exec pool_trans s as s'"
  by (induction as arbitrary: s) (auto split: option.splits simp: pool_trans_def intro: exec_nil exec_cons)

section \<open>No lost wake-up\<close>

text \<open>A client is about to set the flag of worker \<open>k\<close>, after a push or for a stop.\<close>

definition posting :: "(nat \<Rightarrow> cpc) \<Rightarrow> nat \<Rightarrow> bool" where
  "posting f k \<longleftrightarrow> (\<exists>c. f c = PSet k)"

definition stopping :: "(nat \<Rightarrow> cpc) \<Rightarrow> nat \<Rightarrow> bool" where
  "stopping f k \<longleftrightarrow> (\<exists>c. f c = SSet k)"

lemma posting_upd: "f c \<noteq> PSet k \<Longrightarrow> posting (f(c := p)) k \<longleftrightarrow> p = PSet k \<or> posting f k"
  unfolding posting_def by (metis fun_upd_apply)

lemma stopping_upd: "f c \<noteq> SSet k \<Longrightarrow> stopping (f(c := p)) k \<longleftrightarrow> p = SSet k \<or> stopping f k"
  unfolding stopping_def by (metis fun_upd_apply)

text \<open>A worker that is going to wait while it has work, or while it is to stop, has its flag set or is about
  to have it set.\<close>

definition awake :: "pool \<Rightarrow> nat \<Rightarrow> bool" where
  "awake s k \<longleftrightarrow>
     (queue s k \<noteq> [] \<and> wpcs s k \<in> {WCheck, WSetIdle, WWait} \<longrightarrow> work_set s k \<or> posting (cpcs s) k) \<and>
     (stopped s k \<and> wpcs s k \<in> {WSetIdle, WWait} \<longrightarrow> work_set s k \<or> stopping (cpcs s) k)"

definition pool_awake :: "pool \<Rightarrow> bool" where
  "pool_awake s \<longleftrightarrow> (\<forall>k. awake s k)"

lemma awake_worker:
  assumes "awake s l" "worker_step k s = Some s'"
  shows "awake s' l"
proof (cases "l = k")
  case True
  show ?thesis using assms unfolding True
   by (cases "wpcs s k") (auto simp: awake_def worker_step_def aw_wait_def split: if_splits list.splits option.splits)
next
  case False
  have "queue s' l = queue s l" "wpcs s' l = wpcs s l" "work_set s' l = work_set s l" "cpcs s' = cpcs s" "stopped s' = stopped s"
   using assms(2) False by (auto simp: worker_step_def aw_wait_def split: wpc.splits if_splits list.splits option.splits)
  with assms(1) show ?thesis by (simp add: awake_def)
qed

lemma awake_call: "awake s l \<Longrightarrow> cpcs s c = CIdle \<Longrightarrow> awake (call_step c f s) l"
  by (cases f) (simp_all add: awake_def posting_upd stopping_upd)

lemma awake_frame:
  assumes "awake s l" "wpcs s' = wpcs s" "stopped s' = stopped s" "queue s' = queue s" "work_set s' = work_set s"
    "cpcs s' = (cpcs s)(c := p)" "cpcs s c \<noteq> PSet l" "cpcs s c \<noteq> SSet l"
  shows "awake s' l"
  using assms by (auto simp: awake_def posting_upd stopping_upd)

lemma awake_post:
  assumes "awake s l" "post_step c s = Some s'"
  shows "awake s' l"
proof (cases "cpcs s c")
  case (PSet k)
  with assms show ?thesis
    by (cases "l = k") (auto simp: awake_def post_step_def aw_set_def posting_upd stopping_upd)
next
  case (PPush j k)
  then have s': "s' = cgoto c (PSet k) (s\<lparr>queue := (queue s)(k := j # queue s k)\<rparr>)"
    using assms(2) by (simp add: post_step_def)
  show ?thesis using assms(1) PPush unfolding s' by (auto simp: awake_def posting_upd stopping_upd)
next
  case (PPost j k)
  then obtain p where "s' = cgoto c p s" using assms(2) by (auto simp: post_step_def split: if_splits)
  then show ?thesis using assms(1) PPost by (intro awake_frame[of s l s' c p]) auto
next
  case (PIndex j)
  then show ?thesis using assms by (intro awake_frame[of s l s' c]) (auto simp: post_step_def Let_def)
next
  case (PStore j)
  then show ?thesis using assms by (intro awake_frame[of s l s' c]) (auto simp: post_step_def Let_def)
next
  case PInc
  then show ?thesis using assms by (intro awake_frame[of s l s' c]) (auto simp: post_step_def Let_def)
qed (use assms(2) in \<open>simp_all add: post_step_def\<close>)

lemma awake_idle: "awake s l \<Longrightarrow> idle_step c s = Some s' \<Longrightarrow> awake s' l"
  by (cases "cpcs s c")
    (auto simp: awake_def idle_step_def posting_upd stopping_upd split: if_splits option.splits)

lemma awake_start_stop:
  assumes "awake s l" "start_stop_step c s = Some s'"
  shows "awake s' l"
proof (cases "cpcs s c")
  case (SSet k)
  with assms show ?thesis
    by (cases "l = k") (auto simp: awake_def start_stop_step_def aw_set_def posting_upd stopping_upd)
next
  case (SStart k)
  then show ?thesis using assms by (auto simp: awake_def start_stop_step_def posting_upd stopping_upd split: if_splits)
next
  case (SSpawn k)
  then show ?thesis using assms by (auto simp: awake_def start_stop_step_def posting_upd stopping_upd split: if_splits)
next
  case (SStop k)
  then show ?thesis using assms by (auto simp: awake_def start_stop_step_def posting_upd stopping_upd split: if_splits)
next
  case (SJoin k)
  then obtain p where "cpcs s' = (cpcs s)(c := p)" "wpcs s' = wpcs s" "stopped s' = stopped s" "queue s' = queue s" "work_set s' = work_set s"
    using assms(2) by (auto simp: start_stop_step_def split: if_splits)
  then show ?thesis using assms(1) SJoin by (intro awake_frame[of s l s' c p]) auto
qed (use assms(2) in \<open>simp_all add: start_stop_step_def\<close>)

lemma awake_step: "awake s l \<Longrightarrow> pool_step a s = Some s' \<Longrightarrow> awake s' l"
  by (cases a) (auto intro: awake_worker awake_call awake_post awake_idle awake_start_stop
    split: if_splits option.splits)

interpretation pool_inv: step_invariant pool_trans "pool_new n" pool_awake for n
proof
  show "pool_awake (pool_new n)" by (simp add: pool_awake_def awake_def pool_new_def)
next
  show "pool_awake s'" if "pool_awake s" "pool_trans s a s'" for s a s'
    using that awake_step unfolding pool_awake_def pool_trans_def by blast
qed

text \<open>C19: No wake-up is lost: in every reachable state of a pool, with any number of clients, a worker that
  is blocked and that no client is about to wake has no pending work and has not been told to stop.\<close>

theorem thread_pool_no_lost_wakeup:
  assumes "reachable pool_trans (pool_new n) s"
    and "wpcs s k = WWait" "worker_step k s = None" "\<not> posting (cpcs s) k" "\<not> stopping (cpcs s) k"
  shows "queue s k = [] \<and> \<not> stopped s k"
proof -
  have "awake s k" using pool_inv.inv_reachable[OF assms(1)] by (simp add: pool_awake_def)
  moreover have "\<not> work_set s k" using assms(2,3) by (auto simp: worker_step_def aw_wait_def split: if_splits)
  ultimately show ?thesis using assms(2,4,5) by (auto simp: awake_def)
qed

lemmas pool_run_simps = pool_new_def worker_step_def post_step_def idle_step_def start_stop_step_def Let_def
  aw_set_def aw_reset_def aw_wait_def

lemma pool_run_reachable: "pool_run as s = Some s' \<Longrightarrow> reachable pool_trans s s'"
  using pool_run_exec unfolding reachable_def by blast

theorem thread_pool_no_lost_wakeup_witness:
  "\<exists>s. reachable pool_trans (pool_new 1) s \<and> wpcs s 0 = WWait \<and> queue s 0 = [] \<and> \<not> stopped s 0"
proof -
  let ?as = "[Call 0 StartWorkers, Client 0, Client 0, Client 0, Worker 0, Worker 0, Worker 0, Worker 0]"
  obtain s where r: "pool_run ?as (pool_new 1) = Some s" "wpcs s 0 = WWait" "work_set s 0 = False"
    "cpcs s = (\<lambda>_. CIdle)(0 := CIdle)"
    by (simp add: pool_run_simps)
  have "worker_step 0 s = None" using r(2,3) by (simp add: worker_step_def aw_wait_def)
  then show ?thesis
    using thread_pool_no_lost_wakeup[OF pool_run_reachable[OF r(1)] r(2)] pool_run_reachable[OF r(1)] r
    by (auto simp: posting_def stopping_def)
qed

section \<open>Waiting for idle\<close>

text \<open>The work a worker has: its pending list and the unit it is running.\<close>

fun in_flight :: "wpc \<Rightarrow> nat" where
  "in_flight (WExec w) = 1"
| "in_flight (WNext w) = 1"
| "in_flight (WComplete w) = 1"
| "in_flight (WDec w) = 1"
| "in_flight _ = 0"

definition load :: "pool \<Rightarrow> nat \<Rightarrow> nat" where
  "load s k = length (queue s k) + in_flight (wpcs s k)"

definition total_load :: "pool \<Rightarrow> nat" where
  "total_load s = (\<Sum>k < nworkers s. load s k)"

text \<open>A worker that will still set the idle flag: it has work, or it is on the way from its last unit to the wait.\<close>

definition active :: "pool \<Rightarrow> nat \<Rightarrow> bool" where
  "active s k \<longleftrightarrow> 0 < load s k \<or> wpcs s k \<in> {WTop, WPop, WCheck, WSetIdle, WExit}"

text \<open>Counted but not yet posted, or posted but not yet counted, by client \<open>0\<close>.\<close>

definition uncounted :: "cpc \<Rightarrow> 64 word" where
  "uncounted p = (case p of PSet k \<Rightarrow> 1 | PInc \<Rightarrow> 1 | _ \<Rightarrow> 0)"

text \<open>Client \<open>0\<close> is the only one, and it does not stop the pool.\<close>

definition lone_client :: "actor \<Rightarrow> bool" where
  "lone_client a \<longleftrightarrow> (case a of Worker k \<Rightarrow> True | Client c \<Rightarrow> c = 0 | Call c f \<Rightarrow> c = 0 \<and> f \<noteq> StopWorkers)"

definition lone_trans :: "pool \<Rightarrow> actor \<Rightarrow> pool \<Rightarrow> bool" where
  "lone_trans s a s' \<longleftrightarrow> lone_client a \<and> pool_step a s = Some s'"

text \<open>The invariant: the pool is not stopped, the counter is the work there is, and while the client waits
  for the idle flag some worker is active. \<open>posted\<close> says where the client can stand with a worker index.\<close>

fun client_ok :: "pool \<Rightarrow> cpc \<Rightarrow> bool" where
  "client_ok s (SStop k) \<longleftrightarrow> False"
| "client_ok s (SSet k) \<longleftrightarrow> False"
| "client_ok s (SJoin k) \<longleftrightarrow> False"
| "client_ok s (PPush j k) \<longleftrightarrow> k < nworkers s"
| "client_ok s (SSpawn k) \<longleftrightarrow> k < nworkers s"
| "client_ok s LWait \<longleftrightarrow> idle_set s \<or> (\<exists>k < nworkers s. active s k)"
| "client_ok s _ \<longleftrightarrow> True"

definition lone_inv :: "pool \<Rightarrow> bool" where
  "lone_inv s \<longleftrightarrow> pool_awake s \<and> (\<forall>k. \<not> stopped s k) \<and> (\<forall>c. c \<noteq> 0 \<longrightarrow> cpcs s c = CIdle) \<and>
     (\<forall>k. joinable s k \<longrightarrow> wpcs s k \<noteq> WDone \<and> wpcs s k \<noteq> WExit) \<and> (\<forall>k. \<not> joinable s k \<longrightarrow> wpcs s k = WDone) \<and>
     pending s + uncounted (cpcs s 0) = of_nat (total_load s) \<and> client_ok s (cpcs s 0)"

lemma sum_fun_upd_nat:
  "k < (n :: nat) \<Longrightarrow> (\<And>l. l \<noteq> k \<Longrightarrow> g l = f l) \<Longrightarrow> (\<Sum>l < n. g l) + f k = (\<Sum>l < n. f l) + (g k :: nat)"
proof -
  assume k: "k < n" and e: "\<And>l. l \<noteq> k \<Longrightarrow> g l = f l"
  have "(\<Sum>l \<in> {..<n} - {k}. g l) = (\<Sum>l \<in> {..<n} - {k}. f l)" using e by (intro sum.cong) auto
  then show ?thesis using k by (simp add: sum.remove[of "{..<n}" k])
qed

lemma total_load_upd:
  assumes "k < nworkers s" "nworkers s' = nworkers s" "\<And>l. l \<noteq> k \<Longrightarrow> load s' l = load s l"
  shows "total_load s' + load s k = total_load s + load s' k"
  using sum_fun_upd_nat[OF assms(1), of "load s'" "load s"] assms(2,3) by (simp add: total_load_def)

lemma total_load_pos: "total_load s \<noteq> 0 \<Longrightarrow> \<exists>k < nworkers s. active s k"
  unfolding total_load_def active_def by (metis gr0I lessThan_iff sum.neutral)

lemma worker_frame:
  assumes "worker_step k s = Some s'"
  shows "nworkers s' = nworkers s" "stopped s' = stopped s" "joinable s' = joinable s" "cpcs s' = cpcs s"
    "idle_set s \<Longrightarrow> idle_set s'" "l \<noteq> k \<Longrightarrow> load s' l = load s l" "l \<noteq> k \<Longrightarrow> wpcs s' l = wpcs s l" "wpcs s k \<noteq> WDone"
    "\<not> stopped s k \<Longrightarrow> wpcs s k \<noteq> WExit \<Longrightarrow> wpcs s' k \<noteq> WDone \<and> wpcs s' k \<noteq> WExit"
  using assms by (auto simp: worker_step_def aw_wait_def aw_set_def load_def
    split: wpc.splits if_splits list.splits option.splits)

lemma worker_load:
  assumes "worker_step k s = Some s'"
  shows "(pending s' = pending s \<and> load s' k = load s k) \<or> (pending s' = pending s - 1 \<and> load s k = Suc (load s' k))"
  using assms by (auto simp: worker_step_def aw_wait_def load_def
    split: wpc.splits if_splits list.splits option.splits)

lemma worker_active:
  assumes "worker_step k s = Some s'" "active s k"
  shows "active s' k \<or> idle_set s'"
proof (cases "wpcs s k \<in> {WPop, WSetIdle, WExit, WDec undefined}")
  case False
  then show ?thesis using assms by (auto simp: active_def load_def worker_step_def aw_wait_def aw_set_def
    split: wpc.splits if_splits option.splits)
next
  case True
  then show ?thesis using assms by (auto simp: active_def load_def worker_step_def aw_set_def split: list.splits)
qed

lemma lone_worker:
  assumes I: "lone_inv s" and k: "k < nworkers s" and st: "worker_step k s = Some s'"
  shows "lone_inv s'"
proof -
  note fr = worker_frame[OF st]
  have aw: "pool_awake s'" using I awake_step[of s _ "Worker k" s'] k st by (simp add: lone_inv_def pool_awake_def)
  have tot: "total_load s' + load s k = total_load s + load s' k" by (rule total_load_upd[OF k fr(1) fr(6)])
  have p: "pending s + uncounted (cpcs s 0) = of_nat (total_load s)" using I by (simp add: lone_inv_def)
  have cnt: "pending s' + uncounted (cpcs s' 0) = of_nat (total_load s')"
    using worker_load[OF st]
  proof
    assume "pending s' = pending s \<and> load s' k = load s k"
    then show ?thesis using p tot fr(4) by simp
  next
    assume a: "pending s' = pending s - 1 \<and> load s k = Suc (load s' k)"
    then have "total_load s = Suc (total_load s')" using tot by simp
    with p have "pending s = of_nat (Suc (total_load s')) - uncounted (cpcs s 0)"
      by (metis add_diff_cancel_right')
    then show ?thesis using a fr(4) by simp
  qed
  have "active s' l \<or> idle_set s'" if "active s l" for l
    using that worker_active[OF st] fr(6,7)[of l] by (cases "l = k") (auto simp: active_def)
  then have "client_ok s' (cpcs s' 0)"
    using I fr by (cases "cpcs s 0") (auto simp: lone_inv_def)
  moreover have "(joinable s' l \<longrightarrow> wpcs s' l \<noteq> WDone \<and> wpcs s' l \<noteq> WExit) \<and> (\<not> joinable s' l \<longrightarrow> wpcs s' l = WDone)" for l
    using I fr(3,8,9) fr(7)[of l] by (cases "l = k") (auto simp: lone_inv_def)
  ultimately show ?thesis using I aw cnt fr(2,4) unfolding lone_inv_def by simp
qed

lemma total_load_same:
  "nworkers s' = nworkers s \<Longrightarrow> (\<And>k. load s' k = load s k) \<Longrightarrow> total_load s' = total_load s"
  by (simp add: total_load_def)

lemma total_load_zero_word: "0 < (of_nat (total_load s) :: 64 word) \<Longrightarrow> \<exists>k < nworkers s. active s k"
proof -
  assume "0 < (of_nat (total_load s) :: 64 word)"
  then have "total_load s \<noteq> 0" by (intro notI) simp
  then show ?thesis by (rule total_load_pos)
qed

lemma lone_cgoto:
  assumes "lone_inv s" "pool_awake s'" "s' = s\<lparr>next_index := x, work_set := w, idle_set := b, cpcs := (cpcs s)(0 := p)\<rparr>"
    "uncounted p = uncounted (cpcs s 0)" "client_ok s' p"
  shows "lone_inv s'"
proof -
  have "total_load s' = total_load s" by (rule total_load_same) (auto simp: assms(3) load_def)
  then show ?thesis using assms by (auto simp: lone_inv_def)
qed

lemma lone_call:
  assumes "lone_inv s" "cpcs s 0 = CIdle" "f \<noteq> StopWorkers"
  shows "lone_inv (call_step 0 f s)"
proof -
  have "pool_awake (call_step 0 f s)" using assms(1,2) by (simp add: lone_inv_def pool_awake_def awake_call)
  moreover have "call_step 0 f s = s\<lparr>next_index := next_index s, work_set := work_set s, idle_set := idle_set s,
      cpcs := (cpcs s)(0 := cpcs (call_step 0 f s) 0)\<rparr>" by (cases f) auto
  moreover have "uncounted (cpcs (call_step 0 f s) 0) = uncounted (cpcs s 0)" using assms(2) by (cases f) (auto simp: uncounted_def)
  moreover have "client_ok (call_step 0 f s) (cpcs (call_step 0 f s) 0)" using assms(3) by (cases f) auto
  ultimately show ?thesis by (rule lone_cgoto[OF assms(1)])
qed

lemma lone_post:
  assumes I: "lone_inv s" and st: "post_step 0 s = Some s'"
  shows "lone_inv s'"
proof -
  have aw: "pool_awake s'" using I awake_post[OF _ st] by (simp add: lone_inv_def pool_awake_def)
  have p: "pending s + uncounted (cpcs s 0) = of_nat (total_load s)" and ok: "client_ok s (cpcs s 0)"
    and nst: "\<not> stopped s k" for k
    using I by (auto simp: lone_inv_def)
  show ?thesis
  proof (cases "cpcs s 0")
    case (PPush j k)
    have k: "k < nworkers s" using ok PPush by simp
    have s': "s' = cgoto 0 (PSet k) (s\<lparr>queue := (queue s)(k := j # queue s k)\<rparr>)" using st PPush by (simp add: post_step_def)
    have "total_load s' + load s k = total_load s + load s' k"
      by (rule total_load_upd[OF k]) (auto simp: s' load_def)
    moreover have "load s' k = Suc (load s k)" by (simp add: s' load_def)
    ultimately have "total_load s' = Suc (total_load s)" by simp
    then show ?thesis using I p PPush aw by (auto simp: lone_inv_def s' uncounted_def)
  next
    case PInc
    have s': "s' = cgoto 0 CIdle (s\<lparr>pending := pending s + 1\<rparr>)" using st PInc by (simp add: post_step_def)
    have "total_load s' = total_load s" by (rule total_load_same) (auto simp: s' load_def)
    then show ?thesis using I p PInc aw by (auto simp: lone_inv_def s' uncounted_def)
  next
    case (PIndex j)
    then show ?thesis using st
      by (intro lone_cgoto[OF I aw, where x = "next_index s + 1" and w = "work_set s" and b = "idle_set s" and
        p = "if nworkers s \<le> unat (next_index s) then PStore j else PPost j (unat (next_index s))"])
        (auto simp: post_step_def Let_def uncounted_def)
  next
    case (PStore j)
    then show ?thesis using st
      by (intro lone_cgoto[OF I aw, where w = "work_set s" and b = "idle_set s"]) (auto simp: post_step_def uncounted_def)
  next
    case (PPost j k)
    then have "s' = cgoto 0 (if nworkers s \<le> k then CFault else PPush j k) s" using st by (auto simp: post_step_def nst split: if_splits)
    then show ?thesis using PPost
      by (intro lone_cgoto[OF I aw, where x = "next_index s" and w = "work_set s" and b = "idle_set s"]) (auto simp: uncounted_def)
  next
    case (PSet k)
    then show ?thesis using st
      by (intro lone_cgoto[OF I aw, where x = "next_index s" and b = "idle_set s"]) (auto simp: post_step_def uncounted_def)
  qed (use st in \<open>simp_all add: post_step_def\<close>)
qed

lemma lone_idle:
  assumes I: "lone_inv s" and st: "idle_step 0 s = Some s'"
  shows "lone_inv s'"
proof -
  have aw: "pool_awake s'" using I awake_idle[OF _ st] by (simp add: lone_inv_def pool_awake_def)
  show ?thesis
  proof (cases "cpcs s 0")
    case LLoad
    then have s': "s' = cgoto 0 (if 0 < pending s then LWait else CIdle) s" using st by (simp add: idle_step_def)
    have "\<exists>k < nworkers s. active s k" if "0 < pending s"
      using I LLoad that total_load_zero_word[of s] by (auto simp: lone_inv_def uncounted_def)
    then have "client_ok s' (cpcs s' 0)" by (auto simp: s' active_def load_def)
    then show ?thesis using LLoad s'
      by (intro lone_cgoto[OF I aw, where x = "next_index s" and w = "work_set s" and b = "idle_set s"]) (auto simp: uncounted_def)
  next
    case LWait
    then show ?thesis using st
      by (intro lone_cgoto[OF I aw, where x = "next_index s" and w = "work_set s" and b = "idle_set s"])
        (auto simp: idle_step_def uncounted_def split: option.splits)
  next
    case LReset
    then show ?thesis using st
      by (intro lone_cgoto[OF I aw, where x = "next_index s" and w = "work_set s"]) (auto simp: idle_step_def uncounted_def)
  qed (use st in \<open>simp_all add: idle_step_def\<close>)
qed

lemma lone_start:
  assumes I: "lone_inv s" and st: "start_stop_step 0 s = Some s'"
  shows "lone_inv s'"
proof -
  have aw: "pool_awake s'" using I awake_start_stop[OF _ st] by (simp add: lone_inv_def pool_awake_def)
  show ?thesis
  proof (cases "cpcs s 0")
    case (SStart k)
    have "stopped s = (stopped s)(k := False)" using I by (intro ext) (auto simp: lone_inv_def)
    then show ?thesis using SStart st
      by (intro lone_cgoto[OF I aw, where x = "next_index s" and w = "work_set s" and b = "idle_set s" and
        p = "if nworkers s \<le> k then CIdle else SSpawn k"]) (auto simp: start_stop_step_def uncounted_def)
  next
    case (SSpawn k)
    show ?thesis
    proof (cases "joinable s k")
      case True
      then show ?thesis using SSpawn st
        by (intro lone_cgoto[OF I aw, where x = "next_index s" and w = "work_set s" and b = "idle_set s"])
          (auto simp: start_stop_step_def uncounted_def)
    next
      case False
      have s': "s' = cgoto 0 (SStart (Suc k)) (wgoto k WTop (s\<lparr>joinable := (joinable s)(k := True)\<rparr>))"
        using st SSpawn False by (simp add: start_stop_step_def)
      have "wpcs s k = WDone" using I False by (auto simp: lone_inv_def)
      then have "total_load s' = total_load s" by (intro total_load_same) (auto simp: s' load_def)
      then show ?thesis using I SSpawn aw by (auto simp: lone_inv_def s' uncounted_def)
    qed
  qed (use st I in \<open>simp_all add: start_stop_step_def lone_inv_def\<close>)
qed

lemma lone_inv_new: "lone_inv (pool_new n)"
  by (auto simp: lone_inv_def pool_awake_def awake_def pool_new_def uncounted_def total_load_def load_def)

interpretation pool_lone: step_invariant lone_trans "pool_new n" lone_inv for n
proof
  show "lone_inv (pool_new n)" by (rule lone_inv_new)
next
  show "lone_inv s'" if "lone_inv s" "lone_trans s a s'" for s a s'
    using that
    by (cases a) (auto simp: lone_trans_def lone_client_def intro: lone_worker lone_call lone_post lone_idle lone_start
      split: if_splits option.splits)
qed

lemma active_moves:
  assumes "active s k" "awake s k" "\<not> posting (cpcs s) k" "wpcs s k \<noteq> WDone"
  shows "worker_step k s \<noteq> None"
  using assms by (cases "wpcs s k") (auto simp: active_def load_def awake_def worker_step_def aw_wait_def)

text \<open>A lone client that has started the workers, posts work and waits for the pool to become idle is never
  stuck: while it is blocked in \<open>wait_for_idle\<close>, some worker is not.\<close>

theorem thread_pool_wait_progress:
  assumes "reachable lone_trans (pool_new n) s" "\<And>k. k < nworkers s \<Longrightarrow> joinable s k"
    and "cpcs s 0 = LWait" "pool_step (Client 0) s = None"
  shows "\<exists>k. pool_step (Worker k) s \<noteq> None"
proof -
  have I: "lone_inv s" by (rule pool_lone.inv_reachable[OF assms(1)])
  have "\<not> idle_set s" using assms(3,4) by (auto simp: idle_step_def aw_wait_def split: option.splits if_splits)
  then obtain k where k: "k < nworkers s" "active s k" using I assms(3) by (auto simp: lone_inv_def)
  have "cpcs s c \<noteq> PSet k" for c
    using I assms(3) by (cases "c = 0") (auto simp: lone_inv_def)
  then have "\<not> posting (cpcs s) k" by (simp add: posting_def)
  moreover have "wpcs s k \<noteq> WDone" using I assms(2)[OF k(1)] by (auto simp: lone_inv_def split: if_splits)
  ultimately have "worker_step k s \<noteq> None"
    using active_moves[OF k(2)] I by (simp add: lone_inv_def pool_awake_def)
  then show ?thesis using k(1) by (intro exI[of _ k]) simp
qed

fun lone_run :: "actor list \<Rightarrow> bool" where
  "lone_run [] = True"
| "lone_run (a # as) = (lone_client a \<and> lone_run as)"

lemma lone_run_reachable:
  assumes "pool_run as s = Some s'" "lone_run as" shows "reachable lone_trans s s'"
proof -
  have "exec lone_trans s as s'"
    using assms by (induction as arbitrary: s) (auto split: option.splits simp: lone_trans_def intro: exec_nil exec_cons)
  then show ?thesis unfolding reachable_def by blast
qed

theorem thread_pool_wait_progress_witness:
  "\<exists>s. reachable lone_trans (pool_new 1) s \<and> cpcs s 0 = LWait \<and> \<not> idle_set s \<and> (\<exists>k. pool_step (Worker k) s \<noteq> None)"
proof -
  let ?as = "[Call 0 StartWorkers, Client 0, Client 0, Client 0, Call 0 (PostWork (7, 0)), Client 0, Client 0, Client 0,
    Client 0, Client 0, Call 0 WaitForIdle, Client 0]"
  obtain s where r: "pool_run ?as (pool_new 1) = Some s" "lone_run ?as" "cpcs s 0 = LWait" "idle_set s = False"
    "nworkers s = 1" "joinable s 0"
    by (simp add: pool_run_simps lone_client_def)
  have "pool_step (Client 0) s = None" using r(3,4)
    by (simp add: post_step_def idle_step_def start_stop_step_def aw_wait_def)
  then show ?thesis
    using thread_pool_wait_progress[OF lone_run_reachable[OF r(1,2)]] lone_run_reachable[OF r(1,2)] r(3-6)
    by (intro exI[of _ s]) simp
qed

text \<open>With two clients \<open>wait_for_idle\<close> can block forever although all work is done: \<open>post_work\<close> counts the unit
  after it has handed it to the worker, which may finish it first and take the counter below zero.
  The waiter then sees work and sleeps; the counter comes back to zero and nothing sets the flag.\<close>

theorem thread_pool_wait_hangs:
  "\<exists>s. reachable pool_trans (pool_new 1) s \<and> cpcs s 1 = LWait \<and> cpcs s 0 = CIdle \<and> pending s = 0 \<and> queue s 0 = [] \<and>
     (\<forall>k. pool_step (Worker k) s = None) \<and> pool_step (Client 1) s = None"
proof -
  let ?as = "[Call 0 StartWorkers, Client 0, Client 0, Client 0, Call 0 (PostWork (7, 0)), Client 0, Client 0, Client 0,
    Client 0] @ replicate 16 (Worker 0) @ [Call 1 WaitForIdle, Client 1, Client 1, Client 1, Client 1, Client 0]"
  obtain s where r: "pool_run ?as (pool_new 1) = Some s" "cpcs s 1 = LWait" "cpcs s 0 = CIdle" "pending s = 0"
    "queue s 0 = []" "nworkers s = 1" "idle_set s = False" "wpcs s 0 = WWait" "work_set s 0 = False"
    by (simp add: pool_run_simps eval_nat_numeral word_gt_0)
  have "pool_step (Worker k) s = None" for k
    using r(6,8,9) by (cases k) (auto simp: worker_step_def aw_wait_def)
  moreover have "pool_step (Client 1) s = None" using r(2,7)
    by (simp add: post_step_def idle_step_def start_stop_step_def aw_wait_def)
  ultimately show ?thesis using pool_run_reachable[OF r(1)] r by (intro exI[of _ s]) simp
qed

end
