(* ===== verification/PoolWorkers.thy ===== *)
theory PoolWorkers
  imports ThreadPool TxlPrelude
begin

text \<open>
  The worker objects of \<^verbatim>\<open>include/txl/threading.h\<close>, which a pool keeps in a vector: their constructor, their moves, and the constructor
  of the pool, whose vector moves the workers each time it grows. \<open>ThreadPool\<close> starts from the pool that is constructed; here its
  initial state is shown to be the one the code makes, whenever the vector grows.
\<close>

section \<open>Worker objects\<close>

text \<open>The thread (is it joinable), the list behind the unique pointer, and the two flags. The awaiter and the counter of the pool
  are references, which a move copies.\<close>

record worker_obj =
  wo_thread :: bool
  wo_list :: "job list option"
  wo_stopped :: bool
  wo_set :: bool

definition wo_new :: worker_obj where
  "wo_new = \<lparr>wo_thread = False, wo_list = Some [], wo_stopped = False, wo_set = False\<rparr>"

text \<open>A new worker with the thread and the list of the other one. Its awaiter is a new one, and the flags are exchanged with a
  value-initialized one.\<close>

definition wo_move :: "worker_obj \<Rightarrow> worker_obj \<times> worker_obj" where
  "wo_move w =
     (let old_value = False in
      (\<lparr>wo_thread = wo_thread w, wo_list = wo_list w, wo_stopped = wo_stopped w, wo_set = False\<rparr>,
       w\<lparr>wo_thread := False, wo_list := None, wo_stopped := old_value\<rparr>))"

text \<open>Assigning to worker \<open>i\<close> from worker \<open>j\<close>; \<open>None\<close> is the end of the program when a thread is assigned over one that is joinable.\<close>

definition wo_assign :: "nat \<Rightarrow> nat \<Rightarrow> worker_obj list \<Rightarrow> worker_obj list option" where
  "wo_assign i j ws =
     (if i = j then Some ws
      else if wo_thread (ws ! i) then None
      else let this = ws ! i; w = ws ! j; old_value = wo_stopped this in
        Some (ws[i := this\<lparr>wo_thread := wo_thread w, wo_list := wo_list w, wo_stopped := wo_stopped w\<rparr>,
                 j := w\<lparr>wo_thread := False, wo_list := None, wo_stopped := old_value\<rparr>]))"

definition wo_start :: "worker_obj \<Rightarrow> worker_obj option" where
  "wo_start w = (if wo_thread w then None else Some (w\<lparr>wo_stopped := False, wo_thread := True\<rparr>))"

definition wo_post :: "job \<Rightarrow> worker_obj \<Rightarrow> (bool \<times> worker_obj) res" where
  "wo_post c w =
     (if wo_stopped w then Inr (False, w)
      else case wo_list w of None \<Rightarrow> Inl UB
        | Some js \<Rightarrow> Inr (True, w\<lparr>wo_list := Some (c # js), wo_set := aw_set (wo_set w)\<rparr>))"

definition wo_is_running :: "worker_obj \<Rightarrow> bool" where
  "wo_is_running w \<longleftrightarrow> \<not> wo_stopped w"

text \<open>What the loop of the thread does with its object first: the test of the flag and the pop. The thread captures the object
  itself, not what is moved out of it.\<close>

definition wo_take :: "worker_obj \<Rightarrow> (job option \<times> worker_obj) res" where
  "wo_take w =
     (if wo_stopped w then Inr (None, w)
      else case wo_list w of None \<Rightarrow> Inl UB
        | Some [] \<Rightarrow> Inr (None, w)
        | Some (c # js) \<Rightarrow> Inr (Some c, w\<lparr>wo_list := Some js\<rparr>))"

section \<open>The constructor of the pool\<close>

text \<open>\<open>grows m\<close>: the vector of \<open>m\<close> workers has no room for another one.\<close>

definition workers_emplace :: "(nat \<Rightarrow> bool) \<Rightarrow> worker_obj list \<Rightarrow> worker_obj list" where
  "workers_emplace grows ws = (if grows (length ws) then map (fst \<circ> wo_move) ws else ws) @ [wo_new]"

fun workers_n :: "(nat \<Rightarrow> bool) \<Rightarrow> nat \<Rightarrow> worker_obj list" where
  "workers_n grows 0 = []"
| "workers_n grows (Suc n) = workers_emplace grows (workers_n grows n)"

definition pool_of :: "worker_obj list \<Rightarrow> pool" where
  "pool_of ws = (pool_new (length ws))\<lparr>
     queue := (\<lambda>k. if k < length ws then (case wo_list (ws ! k) of None \<Rightarrow> [] | Some js \<Rightarrow> js) else []),
     stopped := (\<lambda>k. k < length ws \<and> wo_stopped (ws ! k)),
     joinable := (\<lambda>k. k < length ws \<and> wo_thread (ws ! k)),
     work_set := (\<lambda>k. k < length ws \<and> wo_set (ws ! k))\<rparr>"

text \<open>However often the vector grows, the pool has \<open>n\<close> workers that own an empty list, are not stopped and have no thread, which
  is the initial state of \<open>ThreadPool\<close>.\<close>

lemma move_new: "fst (wo_move wo_new) = wo_new"
  by (simp add: wo_move_def wo_new_def)

lemma workers_n_new: "workers_n grows n = replicate n wo_new"
  by (induction n) (simp_all add: workers_emplace_def comp_def move_new replicate_append_same)

lemma pool_constructed: "pool_of (workers_n grows n) = pool_new n"
  unfolding workers_n_new by (auto simp: pool_of_def pool_new_def wo_new_def fun_eq_iff)

section \<open>Moves of workers\<close>

text \<open>A move of a worker without a thread keeps its work and its flag: it still takes the job that was posted last.\<close>

lemma move_keeps_work:
  assumes "wo_post c w = Inr (True, w')"
  shows "\<exists>v. wo_take (fst (wo_move w')) = Inr (Some c, v)"
  using assms by (auto simp: wo_post_def wo_take_def wo_move_def split: if_splits option.splits)

text \<open>Its awaiter is not moved: the wake-up of work that was posted before the move is gone.\<close>

lemma move_loses_wakeup: "\<not> wo_set (fst (wo_move w))"
  by (simp add: wo_move_def)

text \<open>The thread of a started worker goes on with the object that was moved from, whose list is gone.\<close>

lemma move_of_running_ub:
  assumes "wo_start w = Some w'"
  shows "wo_take (snd (wo_move w')) = Inl UB" "wo_thread (fst (wo_move w'))"
  using assms by (auto simp: wo_start_def wo_take_def wo_move_def split: if_splits)

text \<open>Between workers without threads, assignment moves the list and exchanges the flags.\<close>

lemma assign_moves:
  assumes "i < length ws" "j < length ws" "i \<noteq> j" "\<not> wo_thread (ws ! i)"
  shows "\<exists>ws'. wo_assign i j ws = Some ws' \<and> wo_list (ws' ! i) = wo_list (ws ! j) \<and> wo_list (ws' ! j) = None \<and>
    wo_stopped (ws' ! i) = wo_stopped (ws ! j) \<and> wo_stopped (ws' ! j) = wo_stopped (ws ! i)"
  using assms by (simp add: wo_assign_def Let_def)

end
