(* ===== verification/MemoryPool.thy ===== *)
theory MemoryPool
  imports TxlPrelude
begin

text \<open>
  The page pool of \<^verbatim>\<open>include/txl/memory_pool.h\<close>. A chunk is a run of pages; the header in front of its
  first page holds the number of pages, the type and one 32-bit field that is the reference count of a
  rented chunk and the link to the next chunk of a free one. Pointers into the pool are page numbers.
  Every operation holds the mutex of the pool from its first to its last change, so operations are
  functions of the pool. What the holders of a chunk write into it is not part of the model.
\<close>

section \<open>State\<close>

definition MEM_CHUNK :: "16 word" where "MEM_CHUNK = 1"
definition FREE_CHUNK :: "16 word" where "FREE_CHUNK = 2"
definition NO_CHUNK :: "32 word" where "NO_CHUNK = 0xFFFFFFFF"

text \<open>\<open>link_or_refs\<close> is the union of \<open>next_chunk\<close> and \<open>num_references\<close>.\<close>

record chunk_header =
  link_or_refs :: "32 word"
  hpages :: "32 word"
  htype :: "16 word"

record mempool =
  pages :: "nat \<Rightarrow> chunk_header"
  pool_pages :: nat
  bytes_per_page :: nat
  next_alloc :: nat
  free_list :: "32 word"

text \<open>The constructor: zeroed memory.\<close>

definition mp_new :: "nat \<Rightarrow> nat \<Rightarrow> mempool" where
  "mp_new n b = \<lparr>pages = (\<lambda>_. \<lparr>link_or_refs = 0, hpages = 0, htype = 0\<rparr>), pool_pages = n, bytes_per_page = b,
     next_alloc = 0, free_list = NO_CHUNK\<rparr>"

section \<open>Operations\<close>

definition get_page :: "mempool \<Rightarrow> nat \<Rightarrow> chunk_header res" where
  "get_page p i = (if i < pool_pages p then Inr (pages p i) else Inl UB)"

definition set_page :: "nat \<Rightarrow> chunk_header \<Rightarrow> mempool \<Rightarrow> mempool" where
  "set_page i h p = p\<lparr>pages := (pages p)(i := h)\<rparr>"

text \<open>The walk over the free list, which returns the page of the first chunk that is large enough.
  \<open>None\<close>: it does not end.\<close>

partial_function (option) find_free_list_chunk :: "mempool \<Rightarrow> nat \<Rightarrow> 32 word \<Rightarrow> nat option res option" where
  "find_free_list_chunk p size_pages i =
     (if i = NO_CHUNK then Some (Inr None)
      else case get_page p (unat i) of
        Inl e \<Rightarrow> Some (Inl e)
      | Inr h \<Rightarrow> if size_pages \<le> unat (hpages h) then Some (Inr (Some (unat i)))
                else find_free_list_chunk p size_pages (link_or_refs h))"

text \<open>\<open>ceil((float) (num_bytes + sizeof(header)) / bytes_per_page)\<close>; the header has 12 bytes. The \<open>float\<close> is
  exact up to 2^24 bytes, which is the range the model is meant for.\<close>

definition HEADER_SIZE :: nat where "HEADER_SIZE = 12"

definition pages_needed :: "nat \<Rightarrow> nat \<Rightarrow> 32 word" where
  "pages_needed num_bytes bpp = of_nat ((num_bytes + HEADER_SIZE + bpp - 1) div bpp)"

definition get_free_chunk :: "nat \<Rightarrow> mempool \<Rightarrow> (nat option \<times> mempool) res option" where
  "get_free_chunk num_bytes p =
     (let n = pages_needed num_bytes (bytes_per_page p) in
      case find_free_list_chunk p (unat n) (free_list p) of
        None \<Rightarrow> None
      | Some (Inl e) \<Rightarrow> Some (Inl e)
      | Some (Inr (Some i)) \<Rightarrow>
          Some (Inr (Some i, set_page i ((pages p i)\<lparr>htype := MEM_CHUNK, link_or_refs := 1\<rparr>) p))
      | Some (Inr None) \<Rightarrow>
          if pool_pages p < next_alloc p + unat n then Some (Inr (None, p))
          else Some (Inr (Some (next_alloc p),
                 (set_page (next_alloc p) \<lparr>link_or_refs = 1, hpages = n, htype = MEM_CHUNK\<rparr> p)
                   \<lparr>next_alloc := next_alloc p + unat n\<rparr>)))"

definition dec_ref :: "nat \<Rightarrow> mempool \<Rightarrow> (bool \<times> mempool) res" where
  "dec_ref i p = and_then (get_page p i) (\<lambda>h.
     if htype h \<noteq> MEM_CHUNK then Inr (False, p)
     else let h' = h\<lparr>link_or_refs := link_or_refs h - 1\<rparr>
          in if link_or_refs h' = 0
             then Inr (True, (set_page i (h'\<lparr>htype := FREE_CHUNK, link_or_refs := free_list p\<rparr>) p)\<lparr>free_list := of_nat i\<rparr>)
             else Inr (True, set_page i h' p))"

definition inc_ref :: "nat \<Rightarrow> mempool \<Rightarrow> (bool \<times> mempool) res" where
  "inc_ref i p = and_then (get_page p i) (\<lambda>h.
     if htype h \<noteq> MEM_CHUNK then Inr (False, p)
     else Inr (True, set_page i (h\<lparr>link_or_refs := link_or_refs h + 1\<rparr>) p))"

section \<open>Handles and chunks\<close>

record handle =
  hdata :: "nat option"
  hsize :: nat

definition handle_empty :: "handle \<Rightarrow> bool" where
  "handle_empty h \<longleftrightarrow> hdata h = None \<and> hsize h = 0"

definition no_handle :: handle where
  "no_handle = \<lparr>hdata = None, hsize = 0\<rparr>"

definition mp_rent :: "nat \<Rightarrow> mempool \<Rightarrow> (handle \<times> mempool) res option" where
  "mp_rent num_bytes p = (case get_free_chunk num_bytes p of
       None \<Rightarrow> None
     | Some (Inl e) \<Rightarrow> Some (Inl e)
     | Some (Inr (Some i, p')) \<Rightarrow> Some (Inr (\<lparr>hdata = Some i, hsize = num_bytes\<rparr>, p'))
     | Some (Inr (None, p')) \<Rightarrow> Some (Inr (no_handle, p')))"

definition mp_release :: "handle \<Rightarrow> mempool \<Rightarrow> (handle \<times> mempool) res" where
  "mp_release h p =
     (if handle_empty h then Inr (h, p)
      else case hdata h of
        None \<Rightarrow> Inl UB
      | Some i \<Rightarrow> and_then (dec_ref i p) (\<lambda>(_, p'). Inr (no_handle, p')))"

text \<open>Move assignment of handles exchanges them.\<close>

definition handle_move :: "handle \<Rightarrow> handle \<Rightarrow> handle \<times> handle" where
  "handle_move d h = (h, d)"

text \<open>A counted chunk; \<open>cpool\<close> says whether it refers to the pool.\<close>

record chunk =
  cpool :: bool
  cdata :: "nat option"
  csize :: nat

definition no_chunk :: chunk where
  "no_chunk = \<lparr>cpool = False, cdata = None, csize = 0\<rparr>"

definition chunk_empty :: "chunk \<Rightarrow> bool" where
  "chunk_empty c \<longleftrightarrow> \<not> cpool c \<and> cdata c = None \<and> csize c = 0"

definition mp_allocate :: "nat \<Rightarrow> mempool \<Rightarrow> (chunk \<times> mempool) res option" where
  "mp_allocate num_bytes p = (case get_free_chunk num_bytes p of
       None \<Rightarrow> None
     | Some (Inl e) \<Rightarrow> Some (Inl e)
     | Some (Inr (Some i, p')) \<Rightarrow> Some (Inr (\<lparr>cpool = True, cdata = Some i, csize = num_bytes\<rparr>, p'))
     | Some (Inr (None, p')) \<Rightarrow> Some (Inr (no_chunk, p')))"

definition chunk_copy :: "chunk \<Rightarrow> mempool \<Rightarrow> (chunk \<times> mempool) res" where
  "chunk_copy c p = (if cpool c then case cdata c of
       None \<Rightarrow> Inl UB
     | Some i \<Rightarrow> and_then (inc_ref i p) (\<lambda>(_, p'). Inr (c, p'))
     else Inr (c, p))"

definition chunk_move :: "chunk \<Rightarrow> chunk \<times> chunk" where
  "chunk_move c = (c, no_chunk)"

definition chunk_close :: "chunk \<Rightarrow> mempool \<Rightarrow> (chunk \<times> mempool) res" where
  "chunk_close c p = (if cpool c then case cdata c of
       None \<Rightarrow> Inl UB
     | Some i \<Rightarrow> and_then (dec_ref i p) (\<lambda>(_, p'). Inr (no_chunk, p'))
     else Inr (c, p))"

section \<open>Fresh chunks\<close>

text \<open>Rent a list of sizes, one after the other.\<close>

fun rent_all :: "nat list \<Rightarrow> mempool \<Rightarrow> (handle list \<times> mempool) res option" where
  "rent_all [] p = Some (Inr ([], p))"
| "rent_all (b # bs) p = (case mp_rent b p of
      None \<Rightarrow> None
    | Some (Inl e) \<Rightarrow> Some (Inl e)
    | Some (Inr (h, p')) \<Rightarrow> (case rent_all bs p' of
        None \<Rightarrow> None
      | Some (Inl e) \<Rightarrow> Some (Inl e)
      | Some (Inr (hs, p'')) \<Rightarrow> Some (Inr (h # hs, p''))))"

text \<open>The bytes of the pool that a handle gives access to.\<close>

definition handle_bytes :: "nat \<Rightarrow> handle \<Rightarrow> nat set" where
  "handle_bytes bpp h = (case hdata h of None \<Rightarrow> {}
     | Some i \<Rightarrow> {i * bpp + HEADER_SIZE ..< i * bpp + HEADER_SIZE + hsize h})"

lemma find_free_list_none: "find_free_list_chunk p n NO_CHUNK = Some (Inr None)"
  by (subst find_free_list_chunk.simps) simp

lemma pages_needed_enough:
  assumes "0 < bpp" "b + HEADER_SIZE + bpp - 1 < 2 ^ 32"
  shows "b + HEADER_SIZE \<le> unat (pages_needed b bpp) * bpp"
proof -
  let ?m = "(b + HEADER_SIZE + bpp - 1) div bpp"
  have "?m < 2 ^ 32" using assms(2) div_le_dividend le_less_trans by blast
  then have "unat (pages_needed b bpp) = ?m" by (simp add: pages_needed_def unat_of_nat)
  moreover have "b + HEADER_SIZE \<le> ?m * bpp"
  proof -
    have "b + HEADER_SIZE + bpp - 1 = ?m * bpp + (b + HEADER_SIZE + bpp - 1) mod bpp" by simp
    moreover have "(b + HEADER_SIZE + bpp - 1) mod bpp < bpp" using assms(1) by simp
    ultimately show ?thesis using assms(1) by linarith
  qed
  ultimately show ?thesis by simp
qed

lemma rent_fresh:
  assumes "free_list p = NO_CHUNK" "0 < bytes_per_page p" "b + HEADER_SIZE + bytes_per_page p - 1 < 2 ^ 32"
  shows "\<exists>h p'. mp_rent b p = Some (Inr (h, p')) \<and> free_list p' = NO_CHUNK \<and> bytes_per_page p' = bytes_per_page p \<and>
    pool_pages p' = pool_pages p \<and> next_alloc p \<le> next_alloc p' \<and>
    handle_bytes (bytes_per_page p) h \<subseteq> {next_alloc p * bytes_per_page p ..< next_alloc p' * bytes_per_page p} \<and>
    (next_alloc p \<le> pool_pages p \<longrightarrow> next_alloc p' \<le> pool_pages p')"
proof -
  let ?n = "unat (pages_needed b (bytes_per_page p))"
  have e: "(next_alloc p + ?n) * bytes_per_page p = next_alloc p * bytes_per_page p + ?n * bytes_per_page p"
    by (simp add: algebra_simps)
  show ?thesis
    using pages_needed_enough[OF assms(2,3)] assms(1) e
    by (auto simp: mp_rent_def get_free_chunk_def find_free_list_none handle_bytes_def no_handle_def set_page_def Let_def)
qed
text \<open>Byte ranges of later handles lie above those of earlier ones.\<close>

lemma rent_all_fresh:
  assumes "free_list p = NO_CHUNK" "0 < bytes_per_page p" "\<forall>b \<in> set bs. b + HEADER_SIZE + bytes_per_page p \<le> 2 ^ 24"
    "next_alloc p \<le> pool_pages p"
  shows "\<exists>hs p'. rent_all bs p = Some (Inr (hs, p')) \<and> length hs = length bs \<and>
    (\<forall>h \<in> set hs. handle_bytes (bytes_per_page p) h \<subseteq> {next_alloc p * bytes_per_page p ..< pool_pages p * bytes_per_page p}) \<and>
    sorted_wrt (\<lambda>h k. handle_bytes (bytes_per_page p) h \<inter> handle_bytes (bytes_per_page p) k = {}) hs"
  using assms
proof (induction bs arbitrary: p)
  case (Cons b bs)
  have bnd: "b + HEADER_SIZE + bytes_per_page p - 1 < 2 ^ 32"
  proof -
    have "b + HEADER_SIZE + bytes_per_page p \<le> 16777216" using Cons.prems(3) by simp
    then show ?thesis by simp
  qed
  obtain h p' where h: "mp_rent b p = Some (Inr (h, p'))" "free_list p' = NO_CHUNK" "bytes_per_page p' = bytes_per_page p"
    "pool_pages p' = pool_pages p" "next_alloc p \<le> next_alloc p'"
    "handle_bytes (bytes_per_page p) h \<subseteq> {next_alloc p * bytes_per_page p ..< next_alloc p' * bytes_per_page p}"
    "next_alloc p' \<le> pool_pages p'"
    using rent_fresh[OF Cons.prems(1,2) bnd] Cons.prems(4) by metis
  obtain hs p'' where hs: "rent_all bs p' = Some (Inr (hs, p''))" "length hs = length bs"
    "\<forall>k \<in> set hs. handle_bytes (bytes_per_page p) k \<subseteq> {next_alloc p' * bytes_per_page p ..< pool_pages p * bytes_per_page p}"
    "sorted_wrt (\<lambda>h k. handle_bytes (bytes_per_page p) h \<inter> handle_bytes (bytes_per_page p) k = {}) hs"
    using Cons.IH[OF h(2), unfolded h(3,4)] Cons.prems(2,3) h(4,7) by auto
  have lo: "next_alloc p * bytes_per_page p \<le> next_alloc p' * bytes_per_page p"
    and hi: "next_alloc p' * bytes_per_page p \<le> pool_pages p * bytes_per_page p"
    using h(4,5,7) by (simp_all add: mult_le_mono1)
  let ?b = "bytes_per_page p"
  have "handle_bytes ?b h \<inter> handle_bytes ?b k = {}" if k: "k \<in> set hs" for k
  proof -
    have "handle_bytes ?b k \<subseteq> {next_alloc p' * ?b ..< pool_pages p * ?b}" using hs(3) k by blast
    moreover have "{next_alloc p * ?b ..< next_alloc p' * ?b} \<inter> {next_alloc p' * ?b ..< pool_pages p * ?b} = {}" by auto
    ultimately show ?thesis using h(6) by blast
  qed
  moreover have "handle_bytes ?b k \<subseteq> {next_alloc p * ?b ..< pool_pages p * ?b}" if k: "k \<in> set (h # hs)" for k
  proof -
    have "{next_alloc p * ?b ..< next_alloc p' * ?b} \<subseteq> {next_alloc p * ?b ..< pool_pages p * ?b}"
      "{next_alloc p' * ?b ..< pool_pages p * ?b} \<subseteq> {next_alloc p * ?b ..< pool_pages p * ?b}"
      using lo hi by auto
    moreover have "handle_bytes ?b k \<subseteq> {next_alloc p * ?b ..< next_alloc p' * ?b} \<or>
        handle_bytes ?b k \<subseteq> {next_alloc p' * ?b ..< pool_pages p * ?b}" using k h(6) hs(3) by auto
    ultimately show ?thesis by blast
  qed
  ultimately show ?case using h(1) hs(1,2,4) by (intro exI[of _ "h # hs"] exI[of _ p'']) auto
qed simp

text \<open>C29: Chunks rented one after the other from a new pool, of any sizes in the exact range of the size computation,
  occupy disjoint bytes inside the pool, whatever the page size; a request that does not fit gets an
  empty handle.\<close>

theorem memory_pool_rents_disjoint:
  assumes "0 < bpp" "\<forall>b \<in> set bs. b + HEADER_SIZE + bpp \<le> 2 ^ 24"
  shows "\<exists>hs p. rent_all bs (mp_new n bpp) = Some (Inr (hs, p)) \<and> length hs = length bs \<and>
    (\<forall>h \<in> set hs. handle_bytes bpp h \<subseteq> {0 ..< n * bpp}) \<and>
    sorted_wrt (\<lambda>h k. handle_bytes bpp h \<inter> handle_bytes bpp k = {}) hs"
  using rent_all_fresh[of "mp_new n bpp" bs] assms by (simp add: mp_new_def)

theorem memory_pool_rents_disjoint_witness:
  "\<exists>h k p. rent_all [100, 30] (mp_new 4 64) = Some (Inr ([h, k], p)) \<and> handle_bytes 64 h \<inter> handle_bytes 64 k = {}"
proof -
  obtain hs p where "rent_all [100, 30] (mp_new 4 64) = Some (Inr (hs, p))" "length hs = 2"
    "sorted_wrt (\<lambda>h k. handle_bytes 64 h \<inter> handle_bytes 64 k = {}) hs"
    using memory_pool_rents_disjoint[of 64 "[100, 30]" 4] by (auto simp: HEADER_SIZE_def)
  then show ?thesis by (cases hs; cases "tl hs") auto
qed

section \<open>Chunks used again\<close>

text \<open>A released chunk is rented twice: the walk returns a chunk of the free list without taking it off the
  list, so as long as the first chunk of the list is large enough every request gets this same chunk.\<close>

theorem memory_pool_double_rent:
  assumes "free_list p \<noteq> NO_CHUNK" "unat (free_list p) < pool_pages p"
    and "pages_needed b (bytes_per_page p) \<le> hpages (pages p (unat (free_list p)))"
    and "pages_needed c (bytes_per_page p) \<le> hpages (pages p (unat (free_list p)))"
  shows "\<exists>p1 p2. mp_rent b p = Some (Inr (\<lparr>hdata = Some (unat (free_list p)), hsize = b\<rparr>, p1)) \<and>
    mp_rent c p1 = Some (Inr (\<lparr>hdata = Some (unat (free_list p)), hsize = c\<rparr>, p2))"
proof -
  have f: "find_free_list_chunk q (unat n) i = Some (Inr (Some (unat i)))"
    if "i \<noteq> NO_CHUNK" "unat i < pool_pages q" "n \<le> hpages (pages q (unat i))" for q n i
    using that by (subst find_free_list_chunk.simps) (simp add: get_page_def word_le_nat_alt)
  define i where "i = unat (free_list p)"
  let ?p1 = "set_page i ((pages p i)\<lparr>htype := MEM_CHUNK, link_or_refs := 1\<rparr>) p"
  have 1: "mp_rent b p = Some (Inr (\<lparr>hdata = Some i, hsize = b\<rparr>, ?p1))"
    using f[OF assms(1,2,3)] by (simp add: mp_rent_def get_free_chunk_def Let_def i_def)
  have "find_free_list_chunk ?p1 (unat (pages_needed c (bytes_per_page p))) (free_list p) = Some (Inr (Some i))"
    using f[of "free_list p" ?p1] assms by (simp add: set_page_def i_def)
  then have "\<exists>p2. mp_rent c ?p1 = Some (Inr (\<lparr>hdata = Some i, hsize = c\<rparr>, p2))"
    by (simp add: mp_rent_def get_free_chunk_def Let_def set_page_def)
  with 1 show ?thesis by (simp add: i_def)
qed

text \<open>One chunk, released, then rented by two holders.\<close>

definition one_released :: mempool where
  "one_released = (case mp_rent 20 (mp_new 4 64) of
     Some (Inr (h, p)) \<Rightarrow> (case mp_release h p of Inr (_, p') \<Rightarrow> p' | Inl _ \<Rightarrow> p) | _ \<Rightarrow> mp_new 4 64)"

lemma one_released_eq: "one_released = \<lparr>pages = (\<lambda>_. \<lparr>link_or_refs = 0, hpages = 0, htype = 0\<rparr>)
    (0 := \<lparr>link_or_refs = NO_CHUNK, hpages = 1, htype = FREE_CHUNK\<rparr>),
   pool_pages = 4, bytes_per_page = 64, next_alloc = 1, free_list = 0\<rparr>"
  by (auto simp: one_released_def mp_rent_def get_free_chunk_def mp_new_def find_free_list_none Let_def pages_needed_def
    HEADER_SIZE_def mp_release_def handle_empty_def dec_ref_def get_page_def set_page_def MEM_CHUNK_def FREE_CHUNK_def)

theorem memory_pool_double_rent_witness:
  "\<exists>p1 p2. mp_rent 20 one_released = Some (Inr (\<lparr>hdata = Some 0, hsize = 20\<rparr>, p1)) \<and>
    mp_rent 30 p1 = Some (Inr (\<lparr>hdata = Some 0, hsize = 30\<rparr>, p2))"
  using memory_pool_double_rent[of one_released 20 30]
  by (simp add: one_released_eq NO_CHUNK_def pages_needed_def HEADER_SIZE_def)

text \<open>A chunk that is handed out again has the reference count \<open>1\<close> where the link of the free list was: if it is
  page \<open>1\<close>, its link leads to itself, and a request that it cannot hold never returns, with the mutex held.\<close>

definition self_loop :: "mempool \<Rightarrow> nat \<Rightarrow> 32 word \<Rightarrow> bool" where
  "self_loop p n i \<longleftrightarrow> i = 1 \<and> 1 < pool_pages p \<and> link_or_refs (pages p 1) = 1 \<and> unat (hpages (pages p 1)) < n"

lemma find_self_loop:
  assumes "find_free_list_chunk p n i = Some r"
  shows "\<not> self_loop p n i"
  using assms
  by (rule find_free_list_chunk.raw_induct[where P = "\<lambda>p n i _. \<not> self_loop p n i", rotated])
    (auto simp: get_page_def NO_CHUNK_def self_loop_def split: if_splits)

lemma memory_pool_get_diverges:
  assumes "free_list p = 1" "1 < pool_pages p" "link_or_refs (pages p 1) = 1"
    "hpages (pages p 1) < pages_needed b (bytes_per_page p)"
  shows "get_free_chunk b p = None"
proof (cases "find_free_list_chunk p (unat (pages_needed b (bytes_per_page p))) (free_list p)")
  case (Some r)
  from find_self_loop[OF this] assms show ?thesis by (simp add: self_loop_def word_less_nat_alt)
qed (simp add: get_free_chunk_def Let_def)

text \<open>Renting two chunks, releasing the second and renting again leaves a pool in which a larger request never
  returns: the walk over the free list goes round the chunk that is in use.\<close>

theorem memory_pool_get_never_returns:
  "\<exists>h1 p1 h2 p2 e p3 h3 p4. mp_rent 20 (mp_new 8 64) = Some (Inr (h1, p1)) \<and> mp_rent 20 p1 = Some (Inr (h2, p2)) \<and>
     mp_release h2 p2 = Inr (e, p3) \<and> mp_rent 20 p3 = Some (Inr (h3, p4)) \<and> get_free_chunk 100 p4 = None"
proof -
  let ?s = "\<lambda>l t. \<lparr>link_or_refs = l, hpages = 1, htype = t\<rparr>"
  let ?p = "\<lambda>f g a. \<lparr>pages = f, pool_pages = 8, bytes_per_page = 64, next_alloc = a, free_list = g\<rparr>"
  let ?z = "\<lambda>_ :: nat. \<lparr>link_or_refs = 0 :: 32 word, hpages = 0 :: 32 word, htype = 0 :: 16 word\<rparr>"
  have pn: "pages_needed 20 64 = 1" "pages_needed 100 64 = 2" by (simp_all add: pages_needed_def HEADER_SIZE_def)
  have 1: "mp_rent 20 (mp_new 8 64) = Some (Inr (\<lparr>hdata = Some 0, hsize = 20\<rparr>, ?p (?z(0 := ?s 1 MEM_CHUNK)) NO_CHUNK 1))"
    by (simp add: mp_rent_def get_free_chunk_def mp_new_def find_free_list_none Let_def pn set_page_def)
  have 2: "mp_rent 20 (?p (?z(0 := ?s 1 MEM_CHUNK)) NO_CHUNK 1) =
      Some (Inr (\<lparr>hdata = Some 1, hsize = 20\<rparr>, ?p (?z(0 := ?s 1 MEM_CHUNK, 1 := ?s 1 MEM_CHUNK)) NO_CHUNK 2))"
    by (simp add: mp_rent_def get_free_chunk_def find_free_list_none Let_def pn set_page_def)
  have 3: "mp_release \<lparr>hdata = Some 1, hsize = 20\<rparr> (?p (?z(0 := ?s 1 MEM_CHUNK, 1 := ?s 1 MEM_CHUNK)) NO_CHUNK 2) =
      Inr (no_handle, ?p (?z(0 := ?s 1 MEM_CHUNK, 1 := ?s NO_CHUNK FREE_CHUNK)) 1 2)"
    by (simp add: mp_release_def handle_empty_def dec_ref_def get_page_def set_page_def)
  have 4: "mp_rent 20 (?p (?z(0 := ?s 1 MEM_CHUNK, 1 := ?s NO_CHUNK FREE_CHUNK)) 1 2) =
      Some (Inr (\<lparr>hdata = Some 1, hsize = 20\<rparr>, ?p (?z(0 := ?s 1 MEM_CHUNK, 1 := ?s 1 MEM_CHUNK)) 1 2))"
    by (subst mp_rent_def, subst get_free_chunk_def, subst find_free_list_chunk.simps)
      (simp add: Let_def pn set_page_def get_page_def NO_CHUNK_def)
  have 5: "get_free_chunk 100 (?p (?z(0 := ?s 1 MEM_CHUNK, 1 := ?s 1 MEM_CHUNK)) 1 2) = None"
    by (rule memory_pool_get_diverges) (simp_all add: pn)
  from 1 2 3 4 5 show ?thesis by blast
qed

end
