(* ===== verification/SearchTree.thy ===== *)
theory SearchTree
  imports TxlPrelude
begin

text \<open>
  The unbalanced tree of \<^verbatim>\<open>include/txl/tree.h\<close>, \<open>binary_search_tree\<close>: a null pointer is \<open>Null\<close>, an
  owning pointer to a node the node itself. The loops that walk down from the root are recursions that
  give back the changed subtree. Keys are compared with \<^verbatim>\<open>std::less\<close>, the default. The tree is shown
  to refine a list of pairs ordered by key, in which equal keys stand in the order of their insertion.
\<close>

section \<open>Nodes\<close>

datatype ('k, 'v) bst =
    Null
  | Bnode (left: "('k, 'v) bst") (entry: "'k \<times> 'v") (right: "('k, 'v) bst")

definition bst_is_leaf :: "('k, 'v) bst \<Rightarrow> bool" where
  "bst_is_leaf n \<longleftrightarrow> left n = Null \<and> right n = Null"

text \<open>\<open>min_value\<close> takes the leftmost pair out of the right subtree; without a right subtree it dereferences a
  null pointer.\<close>

fun take_leftmost :: "('k, 'v) bst \<Rightarrow> (('k \<times> 'v) \<times> ('k, 'v) bst) res" where
  "take_leftmost Null = Inl UB"
| "take_leftmost (Bnode l d r) =
     (if l = Null then Inr (d, r) else and_then (take_leftmost l) (\<lambda>(m, l'). Inr (m, Bnode l' d r)))"

fun min_value :: "('k, 'v) bst \<Rightarrow> (('k \<times> 'v) \<times> ('k, 'v) bst) res" where
  "min_value Null = Inl UB"
| "min_value (Bnode l d r) = and_then (take_leftmost r) (\<lambda>(m, r'). Inr (m, Bnode l d r'))"

section \<open>Operations\<close>

fun bst_find :: "'k :: linorder \<Rightarrow> ('k, 'v) bst \<Rightarrow> ('k \<times> 'v) option" where
  "bst_find key Null = None"
| "bst_find key (Bnode l d r) =
     (let key_lt = key < fst d; key_gt = fst d < key
      in if \<not> key_lt \<and> \<not> key_gt then Some d else if key_lt then bst_find key l else bst_find key r)"

text \<open>What happens to the node that holds the key: it takes over the least pair of its right subtree, or its
  only subtree takes its place.\<close>

fun remove_node :: "('k, 'v) bst \<Rightarrow> ('k, 'v) bst res" where
  "remove_node Null = Inl UB"
| "remove_node (Bnode l d r) =
     (if l \<noteq> Null \<and> r \<noteq> Null then and_then (min_value (Bnode l d r)) (\<lambda>(m, n). Inr (Bnode (left n) m (right n)))
      else if r \<noteq> Null then Inr r
      else if l \<noteq> Null then Inr l
      else Inr Null)"

fun bst_remove :: "'k :: linorder \<Rightarrow> ('k, 'v) bst \<Rightarrow> ('k, 'v) bst res" where
  "bst_remove key Null = Inr Null"
| "bst_remove key (Bnode l d r) =
     (let key_lt = key < fst d; key_gt = fst d < key
      in if \<not> key_lt \<and> \<not> key_gt then remove_node (Bnode l d r)
         else if key_lt then and_then (bst_remove key l) (\<lambda>l'. Inr (Bnode l' d r))
         else and_then (bst_remove key r) (\<lambda>r'. Inr (Bnode l d r')))"

fun bst_emplace :: "'k :: linorder \<Rightarrow> 'v \<Rightarrow> ('k, 'v) bst \<Rightarrow> ('k, 'v) bst" where
  "bst_emplace key val Null = Bnode Null (key, val) Null"
| "bst_emplace key val (Bnode l d r) =
     (let key_lt = key < fst d
      in if key_lt \<and> l \<noteq> Null then Bnode (bst_emplace key val l) d r
         else if \<not> key_lt \<and> r \<noteq> Null then Bnode l d (bst_emplace key val r)
         else if key_lt then Bnode (Bnode Null (key, val) Null) d r
         else Bnode l d (Bnode Null (key, val) Null))"

section \<open>Abstraction\<close>

fun inorder :: "('k, 'v) bst \<Rightarrow> ('k \<times> 'v) list" where
  "inorder Null = []"
| "inorder (Bnode l d r) = inorder l @ d # inorder r"

text \<open>The order of the code: smaller keys on the left, the others on the right.\<close>

fun bst_ordered :: "('k :: linorder, 'v) bst \<Rightarrow> bool" where
  "bst_ordered Null = True"
| "bst_ordered (Bnode l d r) \<longleftrightarrow> bst_ordered l \<and> bst_ordered r \<and>
     (\<forall>x \<in> set (inorder l). fst x < fst d) \<and> (\<forall>x \<in> set (inorder r). fst d \<le> fst x)"

definition pairs_insert :: "'k :: linorder \<Rightarrow> 'v \<Rightarrow> ('k \<times> 'v) list \<Rightarrow> ('k \<times> 'v) list" where
  "pairs_insert k v ps = takeWhile (\<lambda>p. fst p \<le> k) ps @ (k, v) # dropWhile (\<lambda>p. fst p \<le> k) ps"

fun pairs_remove :: "'k \<Rightarrow> ('k \<times> 'v) list \<Rightarrow> ('k \<times> 'v) list" where
  "pairs_remove k [] = []"
| "pairs_remove k (p # ps) = (if fst p = k then ps else p # pairs_remove k ps)"

lemma bst_emplace_simp:
  "bst_emplace k v (Bnode l d r) =
     (if k < fst d then Bnode (bst_emplace k v l) d r else Bnode l d (bst_emplace k v r))"
  by (cases l; cases r) auto

lemma pairs_insert_left:
  "(\<forall>x \<in> set xs. fst x \<le> k) \<Longrightarrow> pairs_insert k v (xs @ ys) = xs @ pairs_insert k v ys"
  by (simp add: pairs_insert_def)

lemma pairs_insert_right:
  "k < fst d \<Longrightarrow> pairs_insert k v (xs @ d # ys) = pairs_insert k v xs @ d # ys"
  by (induction xs) (auto simp: pairs_insert_def)

lemma set_pairs_insert: "set (pairs_insert k v ps) = insert (k, v) (set ps)"
proof -
  have "set ps = set (takeWhile (\<lambda>p. fst p \<le> k) ps) \<union> set (dropWhile (\<lambda>p. fst p \<le> k) ps)"
    by (metis set_append takeWhile_dropWhile_id)
  then show ?thesis by (auto simp: pairs_insert_def)
qed

lemma inorder_emplace: "bst_ordered t \<Longrightarrow> inorder (bst_emplace k v t) = pairs_insert k v (inorder t)"
proof (induction t)
  case Null
  then show ?case by (simp add: pairs_insert_def)
next
  case (Bnode l d r)
  show ?case
  proof (cases "k < fst d")
    case True
    with Bnode show ?thesis by (simp add: bst_emplace_simp pairs_insert_right del: bst_emplace.simps(2))
  next
    case False
    then have "\<forall>x \<in> set (inorder l @ [d]). fst x \<le> k" using Bnode.prems by force
    from pairs_insert_left[OF this, of v "inorder r"] False Bnode show ?thesis
      by (simp add: bst_emplace_simp del: bst_emplace.simps(2))
  qed
qed

lemma ordered_emplace: "bst_ordered t \<Longrightarrow> bst_ordered (bst_emplace k v t)"
proof (induction t)
  case (Bnode l d r)
  then show ?case
    by (auto simp: bst_emplace_simp inorder_emplace set_pairs_insert not_less simp del: bst_emplace.simps(2))
qed simp

lemma take_leftmost_inorder:
  "t \<noteq> Null \<Longrightarrow> \<exists>m t'. take_leftmost t = Inr (m, t') \<and> inorder t = m # inorder t' \<and> (bst_ordered t \<longrightarrow> bst_ordered t')"
proof (induction t)
  case (Bnode l d r)
  show ?case
  proof (cases "l = Null")
    case False
    from Bnode.IH(1)[OF this] obtain m l' where
      "take_leftmost l = Inr (m, l')" "inorder l = m # inorder l'" "bst_ordered l \<longrightarrow> bst_ordered l'" by blast
    with False show ?thesis by auto
  qed simp
qed simp

lemma remove_node_inorder:
  assumes "bst_ordered (Bnode l d r)"
  shows "\<exists>t'. remove_node (Bnode l d r) = Inr t' \<and> inorder t' = inorder l @ inorder r \<and> bst_ordered t'"
proof (cases "l \<noteq> Null \<and> r \<noteq> Null")
  case True
  obtain m r' where m: "take_leftmost r = Inr (m, r')" "inorder r = m # inorder r'" "bst_ordered r'"
    using take_leftmost_inorder[of r] True assms by auto
  have s: "sorted (map fst (inorder t))" if "bst_ordered t" for t :: "('a, 'b) bst"
    using that by (induction t) (fastforce simp: sorted_append dest: less_imp_le)+
  have "\<forall>x \<in> set (inorder r'). fst m \<le> fst x" using s[of r] assms m(2) by auto
  moreover have "fst d \<le> fst m" using assms m(2) by auto
  ultimately show ?thesis using True assms m by auto
qed (use assms in auto)

lemma pairs_remove_append:
  "(\<forall>x \<in> set xs. fst x \<noteq> k) \<Longrightarrow> pairs_remove k (xs @ ys) = xs @ pairs_remove k ys"
  by (induction xs) auto

lemma pairs_remove_before:
  "(\<forall>x \<in> set ys. fst x \<noteq> k) \<Longrightarrow> pairs_remove k (xs @ ys) = pairs_remove k xs @ ys"
  by (induction xs) (auto simp: pairs_remove_append[of _ k "[]", simplified])

lemma set_pairs_remove: "set (pairs_remove k ps) \<subseteq> set ps"
  by (induction ps) auto

lemma remove_inorder:
  "bst_ordered t \<Longrightarrow> \<exists>t'. bst_remove k t = Inr t' \<and> inorder t' = pairs_remove k (inorder t) \<and> bst_ordered t'"
proof (induction t)
  case (Bnode l d r)
  consider "k < fst d" | "fst d < k" | "k = fst d" by fastforce
  then show ?case
  proof cases
    case 1
    then obtain l' where l': "bst_remove k l = Inr l'" "inorder l' = pairs_remove k (inorder l)" "bst_ordered l'"
      using Bnode by auto
    have "\<forall>x \<in> set (d # inorder r). fst x \<noteq> k" using 1 Bnode.prems by fastforce
    from pairs_remove_before[OF this, of "inorder l"] l' 1 Bnode.prems set_pairs_remove[of k "inorder l"] show ?thesis
      by auto
  next
    case 2
    then obtain r' where r': "bst_remove k r = Inr r'" "inorder r' = pairs_remove k (inorder r)" "bst_ordered r'"
      using Bnode by auto
    have "\<forall>x \<in> set (inorder l @ [d]). fst x \<noteq> k" using 2 Bnode.prems by fastforce
    from pairs_remove_append[OF this, of "inorder r"] r' 2 Bnode.prems set_pairs_remove[of k "inorder r"] show ?thesis
      by auto
  next
    case 3
    have "\<forall>x \<in> set (inorder l). fst x \<noteq> k" using 3 Bnode.prems by fastforce
    from pairs_remove_append[OF this, of "d # inorder r"] remove_node_inorder[OF Bnode.prems] 3 show ?thesis by auto
  qed
qed simp

lemma map_of_none_key: "(\<forall>x \<in> set xs. fst x \<noteq> k) \<Longrightarrow> map_of xs k = None"
  by (induction xs) auto

lemma find_inorder: "bst_ordered t \<Longrightarrow> bst_find k t = map_option (Pair k) (map_of (inorder t) k)"
proof (induction t)
  case (Bnode l d r)
  have l: "map_of (inorder l) k = None" if "fst d \<le> k"
    by (rule map_of_none_key) (use that Bnode.prems in fastforce)
  have r: "map_of (inorder r) k = None" if "k < fst d"
    by (rule map_of_none_key) (use that Bnode.prems in fastforce)
  show ?case
    using Bnode l r by (cases d) (auto simp: map_add_def Let_def split: option.splits)
qed simp

section \<open>Any use of the tree\<close>

datatype ('k, 'v) bst_op =
    BEmplace 'k 'v
  | BRemove 'k

fun bst_run :: "('k :: linorder, 'v) bst_op list \<Rightarrow> ('k, 'v) bst \<Rightarrow> ('k, 'v) bst res" where
  "bst_run [] t = Inr t"
| "bst_run (BEmplace k v # os) t = bst_run os (bst_emplace k v t)"
| "bst_run (BRemove k # os) t = and_then (bst_remove k t) (bst_run os)"

fun pairs_run :: "('k :: linorder, 'v) bst_op list \<Rightarrow> ('k \<times> 'v) list \<Rightarrow> ('k \<times> 'v) list" where
  "pairs_run [] ps = ps"
| "pairs_run (BEmplace k v # os) ps = pairs_run os (pairs_insert k v ps)"
| "pairs_run (BRemove k # os) ps = pairs_run os (pairs_remove k ps)"

lemma bst_run_refines:
  "bst_ordered t \<Longrightarrow> \<exists>t'. bst_run os t = Inr t' \<and> inorder t' = pairs_run os (inorder t) \<and> bst_ordered t'"
proof (induction os arbitrary: t)
  case (Cons oper os)
  show ?case
  proof (cases oper)
    case (BEmplace k v)
    then show ?thesis using Cons.IH[of "bst_emplace k v t"] Cons.prems by (simp add: inorder_emplace ordered_emplace)
  next
    case (BRemove k)
    obtain t1 where "bst_remove k t = Inr t1" "inorder t1 = pairs_remove k (inorder t)" "bst_ordered t1"
      using remove_inorder[OF Cons.prems] by blast
    with BRemove Cons.IH[of t1] show ?thesis by simp
  qed
qed simp

text \<open>C21: After any sequence of emplace and remove the tree is ordered and holds, in order of the keys, the pairs of
  the list that the same sequence makes: emplace adds a pair after those with the same key, remove takes
  the oldest pair with the key away and never follows a null pointer, and find gives the oldest pair
  with the key.\<close>

theorem search_tree_refines_list:
  "\<exists>t. bst_run os Null = Inr t \<and> bst_ordered t \<and> inorder t = pairs_run os [] \<and>
     (\<forall>k. bst_find k t = map_option (Pair k) (map_of (pairs_run os []) k))"
proof -
  obtain t where "bst_run os Null = Inr t" "inorder t = pairs_run os (inorder Null)" "bst_ordered t"
    using bst_run_refines[of Null os] by auto
  then show ?thesis by (intro exI[of _ t]) (simp add: find_inorder)
qed

end
