(* ===== verification/ResultType.thy ===== *)
theory ResultType
  imports TxlPrelude
begin

text \<open>
  \<^verbatim>\<open>include/txl/result.h\<close>: \<open>result<Value>\<close>, a union of a value and an error with flag bits that say which
  member lives, and \<open>result<void>\<close>. The union is a cell that holds the member that really lives;
  the flags are the 8-bit word of the code. Using, destroying or moving from a member that does not live
  is undefined behaviour (\<open>UB\<close>). The type of the errors is trivially copyable, as \<^verbatim>\<open>std::error_code\<close> is;
  \<open>trivial\<close> says whether the type of the values is, and \<open>scalar\<close> whether it has no destructor at all (a number or a
  pointer: \<^verbatim>\<open>value_.~Value()\<close> then does nothing, whatever the union holds).
\<close>

section \<open>State\<close>

text \<open>\<open>ShellVal\<close> is a value that has been moved from: it lives until its destructor runs.\<close>

datatype ('v, 'e) cell =
    RawCell
  | LiveVal 'v
  | ShellVal
  | LiveErr 'e

record ('v, 'e) rslt =
  rflags :: "8 word"
  rcell :: "('v, 'e) cell"

definition ASSIGNED :: "8 word" where "ASSIGNED = 1"
definition IS_ERROR :: "8 word" where "IS_ERROR = 2"

definition is_assigned :: "('v, 'e) rslt \<Rightarrow> bool" where
  "is_assigned r \<longleftrightarrow> and (rflags r) ASSIGNED \<noteq> 0"

definition is_error :: "('v, 'e) rslt \<Rightarrow> bool" where
  "is_error r \<longleftrightarrow> and (rflags r) IS_ERROR \<noteq> 0"

definition rs_empty :: "('v, 'e) rslt \<Rightarrow> bool" where
  "rs_empty r \<longleftrightarrow> \<not> is_assigned r"

definition rs_bool :: "('v, 'e) rslt \<Rightarrow> bool" where
  "rs_bool r \<longleftrightarrow> \<not> is_error r"

section \<open>Construction, destruction and moves\<close>

definition rs_new :: "('v, 'e) rslt" where
  "rs_new = \<lparr>rflags = 0, rcell = RawCell\<rparr>"

definition rs_value :: "'v \<Rightarrow> ('v, 'e) rslt" where
  "rs_value v = \<lparr>rflags = ASSIGNED, rcell = LiveVal v\<rparr>"

definition rs_error :: "'e \<Rightarrow> ('v, 'e) rslt" where
  "rs_error e = \<lparr>rflags = or ASSIGNED IS_ERROR, rcell = LiveErr e\<rparr>"

fun destroy_value :: "bool \<Rightarrow> ('v, 'e) cell \<Rightarrow> ('v, 'e) cell res" where
  "destroy_value scalar (LiveVal v) = Inr RawCell"
| "destroy_value scalar ShellVal = Inr RawCell"
| "destroy_value scalar c = (if scalar then Inr c else Inl UB)"

fun destroy_error :: "('v, 'e) cell \<Rightarrow> ('v, 'e) cell res" where
  "destroy_error (LiveErr e) = Inr RawCell"
| "destroy_error _ = Inl UB"

text \<open>Destruction according to the flags.\<close>

definition destroy_flagged :: "bool \<Rightarrow> 8 word \<Rightarrow> ('v, 'e) cell \<Rightarrow> ('v, 'e) cell res" where
  "destroy_flagged scalar f c =
     (if and f ASSIGNED = 0 then Inr c else if and f IS_ERROR \<noteq> 0 then destroy_error c else destroy_value scalar c)"

definition rs_destroy :: "bool \<Rightarrow> ('v, 'e) rslt \<Rightarrow> unit res" where
  "rs_destroy scalar r = and_then (destroy_flagged scalar (rflags r) (rcell r)) (\<lambda>_. Inr ())"

text \<open>The new value of the target and what is left in the source.\<close>

fun move_value :: "('v, 'e) cell \<Rightarrow> (('v, 'e) cell \<times> ('v, 'e) cell) res" where
  "move_value (LiveVal v) = Inr (LiveVal v, ShellVal)"
| "move_value ShellVal = Inr (ShellVal, ShellVal)"
| "move_value _ = Inl UB"

fun move_error :: "('v, 'e) cell \<Rightarrow> (('v, 'e) cell \<times> ('v, 'e) cell) res" where
  "move_error (LiveErr e) = Inr (LiveErr e, LiveErr e)"
| "move_error _ = Inl UB"

text \<open>\<open>move_from\<close>: the flags are exchanged, the old content is destroyed, the new one is moved in. The result
  is the pair of target and source.\<close>

definition move_from :: "bool \<Rightarrow> ('v, 'e) rslt \<Rightarrow> ('v, 'e) rslt \<Rightarrow> (('v, 'e) rslt \<times> ('v, 'e) rslt) res" where
  "move_from scalar r v =
     and_then (destroy_flagged scalar (rflags r) (rcell r)) (\<lambda>c.
     if and (rflags v) ASSIGNED \<noteq> 0
     then and_then (if and (rflags v) IS_ERROR \<noteq> 0 then move_error (rcell v) else move_value (rcell v)) (\<lambda>(c', w).
            Inr (\<lparr>rflags = rflags v, rcell = c'\<rparr>, \<lparr>rflags = rflags r, rcell = w\<rparr>))
     else Inr (\<lparr>rflags = rflags v, rcell = c\<rparr>, \<lparr>rflags = rflags r, rcell = rcell v\<rparr>))"

definition rs_move_new :: "bool \<Rightarrow> ('v, 'e) rslt \<Rightarrow> (('v, 'e) rslt \<times> ('v, 'e) rslt) res" where
  "rs_move_new scalar v = move_from scalar rs_new v"

text \<open>The copy constructor assigns to a member that does not live yet: that is fine for trivial types only.\<close>

definition rs_copy :: "bool \<Rightarrow> ('v, 'e) rslt \<Rightarrow> ('v, 'e) rslt res" where
  "rs_copy trivial v =
     (if and (rflags v) ASSIGNED \<noteq> 0
      then if and (rflags v) IS_ERROR \<noteq> 0
           then (case rcell v of LiveErr e \<Rightarrow> Inr \<lparr>rflags = rflags v, rcell = LiveErr e\<rparr> | _ \<Rightarrow> Inl UB)
           else if trivial
           then (case rcell v of LiveVal x \<Rightarrow> Inr \<lparr>rflags = rflags v, rcell = LiveVal x\<rparr> | ShellVal \<Rightarrow> Inr \<lparr>rflags = rflags v, rcell = ShellVal\<rparr> | _ \<Rightarrow> Inl UB)
           else Inl UB
      else Inr \<lparr>rflags = rflags v, rcell = RawCell\<rparr>)"

section \<open>Access\<close>

definition rs_get :: "('v, 'e) rslt \<Rightarrow> 'v res" where
  "rs_get r = (case rcell r of LiveVal v \<Rightarrow> Inr v | _ \<Rightarrow> Inl UB)"

definition rs_get_error :: "('v, 'e) rslt \<Rightarrow> 'e res" where
  "rs_get_error r = (case rcell r of LiveErr e \<Rightarrow> Inr e | _ \<Rightarrow> Inl UB)"

text \<open>\<open>is_error(code)\<close>, with the comparison of the error with the code.\<close>

definition is_error_code :: "('e \<Rightarrow> bool) \<Rightarrow> ('v, 'e) rslt \<Rightarrow> bool res" where
  "is_error_code same r = (if is_error r then and_then (rs_get_error r) (\<lambda>e. Inr (same e)) else Inr False)"

text \<open>\<open>release\<close>: the flag is cleared, and the caller moves the value out.\<close>

definition rs_release :: "('v, 'e) rslt \<Rightarrow> ('v \<times> ('v, 'e) rslt) res" where
  "rs_release r = and_then (rs_get r) (\<lambda>v. Inr (v, \<lparr>rflags = and (rflags r) (not ASSIGNED), rcell = ShellVal\<rparr>))"

text \<open>\<open>assign_using\<close> sets the flag and gives out the value member, whatever is in the cell.\<close>

definition rs_assign_using :: "('v, 'e) rslt \<Rightarrow> ('v, 'e) rslt" where
  "rs_assign_using r = r\<lparr>rflags := or (rflags r) ASSIGNED\<rparr>"

datatype ('v, 'e) outcome =
    Returned 'v
  | ThrewEmpty
  | ThrewError 'e

definition or_throw :: "('v, 'e) rslt \<Rightarrow> (('v, 'e) outcome \<times> ('v, 'e) rslt) res" where
  "or_throw r =
     (if \<not> is_assigned r then Inr (ThrewEmpty, r)
      else if \<not> is_error r then and_then (rs_release r) (\<lambda>(v, r'). Inr (Returned v, r'))
      else and_then (rs_get_error r) (\<lambda>e. Inr (ThrewError e, r)))"

definition or_value :: "'v \<Rightarrow> ('v, 'e) rslt \<Rightarrow> ('v \<times> ('v, 'e) rslt) res" where
  "or_value d r = (if is_assigned r \<and> \<not> is_error r then rs_release r else Inr (d, r))"

definition as_optional :: "('v, 'e) rslt \<Rightarrow> ('v option \<times> ('v, 'e) rslt) res" where
  "as_optional r =
     (if is_assigned r \<and> \<not> is_error r then and_then (rs_release r) (\<lambda>(v, r'). Inr (Some v, r')) else Inr (None, r))"

text \<open>\<open>ignore\<close> with a value: a copy of the result unless it is the error to ignore.\<close>

definition rs_ignore :: "bool \<Rightarrow> ('e \<Rightarrow> 'e \<Rightarrow> bool) \<Rightarrow> 'e \<Rightarrow> 'v \<Rightarrow> ('v, 'e) rslt \<Rightarrow> ('v, 'e) rslt res" where
  "rs_ignore trivial same err d r =
     (if is_error r
      then and_then (rs_get_error r) (\<lambda>e. if same e err then Inr (rs_value d) else rs_copy trivial r)
      else rs_copy trivial r)"

text \<open>\<open>then\<close>: the continuation gives a temporary that is moved in and then destroyed.\<close>

definition rs_then :: "bool \<Rightarrow> (unit \<Rightarrow> ('v, 'e) rslt res) \<Rightarrow> ('v, 'e) rslt \<Rightarrow> ('v, 'e) rslt res" where
  "rs_then scalar cont r =
     (if is_assigned r \<and> \<not> is_error r
      then and_then (cont ()) (\<lambda>t. and_then (move_from scalar r t) (\<lambda>(r', t'). and_then (rs_destroy scalar t') (\<lambda>_. Inr r')))
      else Inr r)"

text \<open>\<open>with\<close>: without a value the error is read.\<close>

definition rs_with :: "('v \<Rightarrow> 'w res) \<Rightarrow> ('v, 'e) rslt \<Rightarrow> (('w, 'e) rslt \<times> ('v, 'e) rslt) res" where
  "rs_with cont r =
     (if is_assigned r \<and> \<not> is_error r
      then and_then (rs_release r) (\<lambda>(v, r'). and_then (cont v) (\<lambda>w. Inr (rs_value w, r')))
      else and_then (rs_get_error r) (\<lambda>e. Inr (rs_error e, r)))"

text \<open>\<open>operator<<\<close>, with the printers of values and errors.\<close>

definition rs_show :: "('v \<Rightarrow> string) \<Rightarrow> ('e \<Rightarrow> string) \<Rightarrow> ('v, 'e) rslt \<Rightarrow> string res" where
  "rs_show sv se r =
     (if \<not> is_assigned r then Inr ''{empty}''
      else if is_error r then and_then (rs_get_error r) (\<lambda>e. Inr (''{error='' @ se e @ ''}''))
      else and_then (rs_get r) (\<lambda>v. Inr (''{result='' @ sv v @ ''}'')))"

section \<open>\<open>result<void>\<close>\<close>

text \<open>Only an error; \<open>bad\<close> says whether it converts to true (a non-zero code).\<close>

definition vr_is_assigned :: "('e \<Rightarrow> bool) \<Rightarrow> 'e \<Rightarrow> bool" where
  "vr_is_assigned bad e \<longleftrightarrow> bad e"

definition vr_is_error :: "('e \<Rightarrow> bool) \<Rightarrow> 'e \<Rightarrow> bool" where
  "vr_is_error bad e \<longleftrightarrow> bad e"

definition vr_ignore :: "('e \<Rightarrow> bool) \<Rightarrow> ('e \<Rightarrow> 'e \<Rightarrow> bool) \<Rightarrow> 'e \<Rightarrow> 'e \<Rightarrow> 'e \<Rightarrow> 'e" where
  "vr_ignore bad same none err e = (if vr_is_error bad e \<and> same e err then none else e)"

definition vr_or_throw :: "('e \<Rightarrow> bool) \<Rightarrow> 'e \<Rightarrow> 'e option" where
  "vr_or_throw bad e = (if vr_is_error bad e then Some e else None)"

definition vr_then :: "('e \<Rightarrow> bool) \<Rightarrow> (unit \<Rightarrow> 'e) \<Rightarrow> 'e \<Rightarrow> 'e" where
  "vr_then bad cont e = (if \<not> vr_is_error bad e then cont () else e)"

section \<open>Types\<close>

text \<open>The member that the flags name lives.\<close>

definition result_ok :: "('v, 'e) rslt \<Rightarrow> bool" where
  "result_ok r \<longleftrightarrow> (is_assigned r \<longrightarrow>
     (if is_error r then \<exists>e. rcell r = LiveErr e else rcell r = ShellVal \<or> (\<exists>v. rcell r = LiveVal v)))"

lemmas flag_defs = is_assigned_def is_error_def ASSIGNED_def IS_ERROR_def

lemma rs_destroy_ok: "rs_destroy scalar r = (if result_ok r \<or> (scalar \<and> \<not> is_error r) then Inr () else Inl UB)"
  by (cases "rcell r") (auto simp: rs_destroy_def destroy_flagged_def result_ok_def is_assigned_def is_error_def)

lemma flags_value [simp]: "is_assigned (rs_value v)" "\<not> is_error (rs_value v)"
  by (simp_all add: rs_value_def flag_defs)

lemma flags_error [simp]: "is_assigned (rs_error e)" "is_error (rs_error e)"
  by (simp_all add: rs_error_def flag_defs)

lemma ok_constructors [simp]: "result_ok rs_new" "result_ok (rs_value v)" "result_ok (rs_error e)"
  by (simp_all add: result_ok_def) (simp_all add: rs_new_def rs_value_def rs_error_def flag_defs)

lemma flags_release [simp]:
  "is_assigned \<lparr>rflags = and f (not ASSIGNED), rcell = c\<rparr> = False"
  by (simp add: flag_defs and.assoc)

lemma release_ok: "rs_release r = Inr (v, r') \<Longrightarrow> result_ok r' \<and> \<not> is_assigned r'"
  by (auto simp: rs_release_def and_then_eq_Inr result_ok_def)

lemma move_from_cell:
  assumes "result_ok a" "result_ok b" "is_assigned b"
  shows "\<exists>w. move_from scalar a b = Inr (b, \<lparr>rflags = rflags a, rcell = w\<rparr>) \<and>
    (if is_error b then w = rcell b else w = ShellVal)"
proof -
  obtain c where "destroy_flagged scalar (rflags a) (rcell a) = Inr c"
    using rs_destroy_ok[of scalar a] assms(1) by (auto simp: rs_destroy_def and_then_eq_Inr)
  with assms(2,3) show ?thesis
    by (cases b) (auto simp: move_from_def result_ok_def is_assigned_def is_error_def)
qed

lemma move_from_destroy:
  assumes "result_ok a" "result_ok b" "is_assigned b"
  shows "\<exists>b'. move_from scalar a b = Inr (b, b') \<and>
    (rs_destroy scalar b' = Inr () \<longleftrightarrow> \<not> is_assigned a \<or> (is_error a \<longleftrightarrow> is_error b) \<or> (scalar \<and> \<not> is_error a))"
proof -
  obtain w where w: "move_from scalar a b = Inr (b, \<lparr>rflags = rflags a, rcell = w\<rparr>)"
    "if is_error b then w = rcell b else w = ShellVal"
    using move_from_cell[OF assms] by blast
  have "result_ok \<lparr>rflags = rflags a, rcell = w\<rparr> \<longleftrightarrow> \<not> is_assigned a \<or> (is_error a \<longleftrightarrow> is_error b)"
    using w(2) assms by (auto simp: result_ok_def is_assigned_def is_error_def split: if_splits)
  moreover have "is_error \<lparr>rflags = rflags a, rcell = w\<rparr> = is_error a" by (simp add: is_error_def)
  ultimately show ?thesis using w(1) by (auto simp: rs_destroy_ok)
qed

text \<open>C23: Moving an assigned result into another gives the target the flags and the content of the source; the
  source keeps a member that fits its flags exactly when the target was empty or both held the same
  kind of content. Otherwise the flags of the source name a member that does not live, and its
  destruction is undefined behaviour, unless that member is a value of a scalar type.\<close>

theorem result_move_type:
  assumes "result_ok a" "result_ok b" "is_assigned b"
  shows "\<exists>b'. move_from scalar a b = Inr (b, b') \<and>
    (rs_destroy scalar b' = Inr () \<longleftrightarrow> \<not> is_assigned a \<or> (is_error a \<longleftrightarrow> is_error b) \<or> (scalar \<and> \<not> is_error a))"
  by (rule move_from_destroy[OF assms])

theorem result_move_type_witness:
  "\<exists>b'. move_from False (rs_value (1 :: nat)) (rs_error (5 :: nat)) = Inr (rs_error 5, b') \<and> rs_destroy False b' \<noteq> Inr ()"
  using result_move_type[of "rs_value (1 :: nat)" "rs_error (5 :: nat)" False] by auto

text \<open>C32: \<open>then\<close> on a result with a value replaces the value by that of the continuation; when the continuation
  gives an error, the temporary result that carried it is destroyed as if it held a value, which is
  undefined behaviour unless the type of the values is scalar.\<close>

theorem result_then:
  assumes "is_assigned r" "\<not> is_error r" "result_ok r"
  shows "rs_then scalar (\<lambda>_. Inr (rs_value w)) r = Inr (rs_value w) \<and>
    rs_then scalar (\<lambda>_. Inr (rs_error e)) r = (if scalar then Inr (rs_error e) else Inl UB)"
proof
  obtain b where "move_from scalar r (rs_value w) = Inr (rs_value w, b)" "rs_destroy scalar b = Inr ()"
    using move_from_destroy[of r "rs_value w" scalar] assms by auto
  then show "rs_then scalar (\<lambda>_. Inr (rs_value w)) r = Inr (rs_value w)" using assms by (simp add: rs_then_def)
next
  obtain b where "move_from scalar r (rs_error e) = Inr (rs_error e, b)" "rs_destroy scalar b = Inr () \<longleftrightarrow> scalar"
    using move_from_destroy[of r "rs_error e" scalar] assms by auto
  then show "rs_then scalar (\<lambda>_. Inr (rs_error e)) r = (if scalar then Inr (rs_error e) else Inl UB)"
    using assms rs_destroy_ok[of scalar b] by (auto simp: rs_then_def split: if_splits)
qed

theorem result_then_witness:
  "rs_then False (\<lambda>_. Inr (rs_value 2)) (rs_value (1 :: nat)) = Inr (rs_value 2 :: (nat, nat) rslt) \<and>
   rs_then False (\<lambda>_. Inr (rs_error (5 :: nat))) (rs_value (1 :: nat)) = Inl UB"
  using result_then[of "rs_value (1 :: nat)" False 2 "5 :: nat"] by simp

text \<open>\<open>or_throw\<close> gives the value, throws the error or throws that the result is empty; the value can be taken
  once, then the result is empty. An empty result still converts to true, and \<open>with\<close> reads an error
  in it that does not live.\<close>

theorem result_or_throw:
  "\<exists>r. or_throw (rs_value v) = Inr (Returned v, r) \<and> or_throw r = Inr (ThrewEmpty, r) \<and> rs_bool r \<and>
     rs_with cont r = Inl UB \<and> or_throw (rs_error e :: ('v, 'e) rslt) = Inr (ThrewError e, rs_error e) \<and>
     or_value d r = Inr (d, r) \<and> as_optional (rs_value v :: ('v, 'e) rslt) = Inr (Some v, r)"
proof -
  let ?r = "\<lparr>rflags = and ASSIGNED (not ASSIGNED), rcell = ShellVal\<rparr> :: ('v, 'e) rslt"
  have rel: "rs_release (rs_value v) = Inr (v, ?r)" by (simp add: rs_release_def rs_get_def rs_value_def)
  have err: "\<not> is_error ?r" by (simp add: flag_defs)
  show ?thesis
    using rel err by (intro exI[of _ ?r]) (simp add: or_throw_def rs_bool_def rs_with_def rs_get_error_def or_value_def
      as_optional_def rs_error_def[of e], simp add: rs_error_def flag_defs)
qed

section \<open>Wrappers, and the members of \<open>result<void>\<close>\<close>

text \<open>\<open>as_result\<close> and \<open>as_error\<close> wrap a reference that a result is made from; the value is moved.\<close>

datatype ('v, 'e) wrapper = ValueWrapper 'v | ErrorWrapper 'e

definition as_result :: "'v \<Rightarrow> ('v, 'e) wrapper" where "as_result v = ValueWrapper v"
definition as_error :: "'e \<Rightarrow> ('v, 'e) wrapper" where "as_error e = ErrorWrapper e"

fun rs_of_wrapper :: "('v, 'e) wrapper \<Rightarrow> ('v, 'e) rslt" where
  "rs_of_wrapper (ValueWrapper v) = rs_value v"
| "rs_of_wrapper (ErrorWrapper e) = rs_error e"

text \<open>The move assignment, of a result to itself (\<open>self\<close>) or to another one.\<close>

definition rs_move_assign :: "bool \<Rightarrow> bool \<Rightarrow> ('v, 'e) rslt \<Rightarrow> ('v, 'e) rslt \<Rightarrow> (('v, 'e) rslt \<times> ('v, 'e) rslt) res" where
  "rs_move_assign scalar self r v = (if self then Inr (r, r) else move_from scalar r v)"

text \<open>\<open>result<void>\<close>: a move of an error code is a copy of it.\<close>

definition vr_new :: "'e \<Rightarrow> 'e" where "vr_new none = none"
definition vr_of_error :: "'e \<Rightarrow> 'e" where "vr_of_error err = err"
definition vr_move :: "'e \<Rightarrow> 'e \<times> 'e" where "vr_move v = (v, v)"
definition vr_move_assign :: "bool \<Rightarrow> 'e \<Rightarrow> 'e \<Rightarrow> 'e \<times> 'e" where
  "vr_move_assign self r v = (if self then (r, r) else (v, v))"
definition vr_bool :: "('e \<Rightarrow> bool) \<Rightarrow> 'e \<Rightarrow> bool" where "vr_bool bad e \<longleftrightarrow> \<not> vr_is_error bad e"
definition vr_empty :: "('e \<Rightarrow> bool) \<Rightarrow> 'e \<Rightarrow> bool" where "vr_empty bad e \<longleftrightarrow> \<not> vr_is_assigned bad e"

text \<open>A sequence of continuations, each called with \<open>then\<close> on the same result, and what has been called.\<close>

fun vr_thens :: "('e \<Rightarrow> bool) \<Rightarrow> (unit \<Rightarrow> 'e) list \<Rightarrow> 'e \<Rightarrow> 'e" where
  "vr_thens bad [] e = e"
| "vr_thens bad (c # cs) e = vr_thens bad cs (vr_then bad c e)"

lemma vr_thens_error: "bad e \<Longrightarrow> vr_thens bad cs e = e"
  by (induction cs) (simp_all add: vr_then_def vr_is_error_def)

text \<open>The outcome is the first error, or the outcome of the last continuation.\<close>

lemma vr_thens_first_error:
  assumes "\<not> bad e" "\<forall>c \<in> set cs. \<not> bad (c ())"
  shows "vr_thens bad (cs @ [c] @ ds) e = (if bad (c ()) then c () else vr_thens bad ds (c ()))"
  using assms
proof (induction cs arbitrary: e)
  case Nil
  then show ?case by (simp add: vr_then_def vr_is_error_def vr_thens_error)
next
  case (Cons b cs)
  then show ?case using Cons.IH[of "b ()"] by (simp add: vr_then_def vr_is_error_def)
qed

text \<open>The same on a result with a value: continuations that give values are all called, and the first one that gives an error is
  where the behaviour is undefined (for values that are not scalar).\<close>

fun rs_thens :: "bool \<Rightarrow> (unit \<Rightarrow> ('v, 'e) rslt res) list \<Rightarrow> ('v, 'e) rslt \<Rightarrow> ('v, 'e) rslt res" where
  "rs_thens scalar [] r = Inr r"
| "rs_thens scalar (c # cs) r = and_then (rs_then scalar c r) (rs_thens scalar cs)"

lemma rs_then_value: "rs_then scalar (\<lambda>_. Inr (rs_value w)) (rs_value v) = Inr (rs_value w)"
  by (simp add: rs_then_def move_from_def rs_value_def rs_destroy_def destroy_flagged_def flag_defs)

lemma rs_then_error: "rs_then False (\<lambda>_. Inr (rs_error e)) (rs_value v) = Inl UB"
  by (simp add: rs_then_def move_from_def rs_value_def rs_error_def rs_destroy_def destroy_flagged_def flag_defs)

lemma rs_thens_values: "rs_thens scalar (map (\<lambda>w _. Inr (rs_value w)) ws @ cs) (rs_value v) = rs_thens scalar cs (rs_value (last (v # ws)))"
  by (induction ws arbitrary: v) (simp_all add: rs_then_value)

lemma rs_thens_error: "rs_thens False (map (\<lambda>w _. Inr (rs_value w)) ws @ (\<lambda>_. Inr (rs_error e)) # cs) (rs_value v) = Inl UB"
  by (simp add: rs_thens_values rs_then_error)

lemma wrapper_flags: "rs_bool (rs_of_wrapper (as_result v))" "\<not> rs_bool (rs_of_wrapper (as_error e))"
  by (simp_all add: as_result_def as_error_def rs_bool_def)

end
