(* ===== verification/TarFile.thy ===== *)
theory TarFile
  imports IoCopy
begin

text \<open>
  Reading tar archives: \<^verbatim>\<open>include/txl/tar_file.h\<close>, with the conversion of octal fields of
  \<^verbatim>\<open>include/txl/convert.h\<close> and \<open>align\<close> of \<^verbatim>\<open>include/txl/numeric.h\<close>. A position reader is a function
  from a position and a number of bytes to an error or the bytes read; it is a parameter of the model.
  Positions are unbounded integers (\<^verbatim>\<open>off_t\<close> does not overflow); the converted sizes are 64-bit words.
\<close>

section \<open>Conversions\<close>

text \<open>\<open>convert_to\<close> on an \<open>octet_string_view\<close>; \<open>None\<close> is \<^verbatim>\<open>invalid_input\<close>. The digits 8 and 9 are accepted.\<close>

fun octal_loop :: "64 word \<Rightarrow> string \<Rightarrow> 64 word option" where
  "octal_loop dec [] = Some dec"
| "octal_loop dec (ch # src) =
     (let dec' = push_bit 3 dec; c = (of_char ch :: nat)
      in if c < 48 \<or> 57 < c then None else octal_loop (dec' + of_nat (c - 48)) src)"

definition convert_octal :: "string \<Rightarrow> 64 word option" where
  "convert_octal src = octal_loop 0 src"

text \<open>\<open>align\<close> with the truncating division of C++.\<close>

definition align_to :: "int \<Rightarrow> int \<Rightarrow> int" where
  "align_to val alignment =
     (let q = sgn val * sgn alignment * (\<bar>val\<bar> div \<bar>alignment\<bar>); r = val - q * alignment
      in (q + (if r \<noteq> 0 then 1 else 0)) * alignment)"

section \<open>Headers\<close>

definition BLOCK_SIZE :: nat where "BLOCK_SIZE = 512"

text \<open>The 500 bytes of a header, and the offsets of the fields that are read.\<close>

definition HEADER_BYTES :: nat where "HEADER_BYTES = 500"

datatype tar_error =
    PartialRead
  | ReadError
  | ReadStringError
  | OctalDecodeError

record tar_hdr =
  hbytes :: "char list"
  hpos :: int
  hsize :: "64 word"

text \<open>A field read as a C string: up to its first null character, also past its end.\<close>

definition cstr_at :: "nat \<Rightarrow> char list \<Rightarrow> string res" where
  "cstr_at off bs =
     (let f = drop off bs; s = takeWhile (\<lambda>c. c \<noteq> CHR 0x00) f
      in if length s < length f then Inr s else Inl UB)"

type_synonym 'e pos_reader = "int \<Rightarrow> nat \<Rightarrow> 'e + char list"

definition pos_read :: "'e pos_reader \<Rightarrow> int \<Rightarrow> nat \<Rightarrow> 'e + char list" where
  "pos_read rd pos n = (case rd pos n of Inl e \<Rightarrow> Inl e | Inr bs \<Rightarrow> Inr (take n bs))"

text \<open>\<open>read_header\<close>: the header, no header at the end of the file, or an error; and the next position.\<close>

definition read_header :: "'e pos_reader \<Rightarrow> int \<Rightarrow> ((tar_error + tar_hdr option) \<times> int) res" where
  "read_header rd next_pos =
     (case pos_read rd next_pos HEADER_BYTES of
        Inl e \<Rightarrow> Inr (Inl ReadError, next_pos)
      | Inr bs \<Rightarrow>
          if bs = [] then Inr (Inr None, next_pos)
          else if length bs < HEADER_BYTES then Inr (Inl PartialRead, next_pos)
          else and_then (cstr_at 124 bs) (\<lambda>s. case convert_octal s of
              None \<Rightarrow> Inr (Inl OctalDecodeError, next_pos)
            | Some n \<Rightarrow>
                Inr (Inr (Some \<lparr>hbytes = bs, hpos = next_pos + int BLOCK_SIZE, hsize = n\<rparr>),
                     next_pos + align_to (sint (of_nat BLOCK_SIZE + n)) (int BLOCK_SIZE))))"

section \<open>Data of an entry\<close>

text \<open>\<open>tar_data_reader::read_impl\<close>. When the read fails, the code takes the size of the value of a result that
  holds an error: the error \<open>()\<close> of this reader stands for this undefined behaviour.\<close>

definition tdr_read :: "'e pos_reader \<Rightarrow> int \<Rightarrow> (int, char, unit) read_impl" where
  "tdr_read rd end_pos next_pos n =
     (case pos_read rd next_pos (min n (unat (of_int (end_pos - next_pos) :: 64 word))) of
        Inl e \<Rightarrow> (Inl (), next_pos)
      | Inr bs \<Rightarrow> (Inr bs, next_pos + int (length bs)))"

definition num_remaining :: "int \<Rightarrow> int \<Rightarrow> 64 word" where
  "num_remaining next_pos end_pos = of_int (end_pos - next_pos)"

section \<open>Entries\<close>

datatype entry_type = UnknownEntry | FileEntry | DirectoryEntry | LinkEntry

definition get_type :: "char \<Rightarrow> entry_type" where
  "get_type c = (if c = CHR 0x00 \<or> c = CHR ''0'' then FileEntry
     else if c = CHR ''1'' then LinkEntry
     else if c = CHR ''5'' then DirectoryEntry
     else UnknownEntry)"

record tar_entry =
  ename :: string
  esize :: "64 word"
  etype :: entry_type
  emtime :: "64 word"
  epos :: int

definition open_data_reader :: "tar_entry \<Rightarrow> int \<times> int" where
  "open_data_reader e = (epos e, epos e + sint (esize e))"

definition typeflag :: "tar_hdr \<Rightarrow> char" where
  "typeflag h = hbytes h ! 156"

definition convert_to_entry :: "tar_hdr \<Rightarrow> string \<Rightarrow> (tar_error + tar_entry option) res" where
  "convert_to_entry h nm = and_then (cstr_at 136 (hbytes h)) (\<lambda>s. Inr (case convert_octal s of
       None \<Rightarrow> Inl OctalDecodeError
     | Some t \<Rightarrow> Inr (Some \<lparr>ename = nm, esize = hsize h, etype = get_type (typeflag h), emtime = t, epos = hpos h\<rparr>)))"

text \<open>\<open>read_entry\<close> first skips headers of zeros, then follows a long name (types \<open>K\<close> and \<open>L\<close>) to the next
  header. The state of the reader is the next position. \<open>None\<close>: the loop does not end.\<close>

definition zero_header :: "tar_hdr \<Rightarrow> bool" where
  "zero_header h \<longleftrightarrow> list_all (\<lambda>c. c = CHR 0x00) (hbytes h)"

partial_function (option) skip_zeros ::
  "'e pos_reader \<Rightarrow> (tar_error + tar_hdr option) \<times> int \<Rightarrow> ((tar_error + tar_hdr option) \<times> int) res option" where
  "skip_zeros rd hn = (case fst hn of
       Inr (Some h) \<Rightarrow> if zero_header h
         then (case read_header rd (snd hn) of Inl u \<Rightarrow> Some (Inl u) | Inr hn' \<Rightarrow> skip_zeros rd hn')
         else Some (Inr hn)
     | _ \<Rightarrow> Some (Inr hn))"

definition read_long_name :: "'e pos_reader \<Rightarrow> tar_hdr \<Rightarrow> (unit + string) res option" where
  "read_long_name rd h =
     run_bind (read_string_n (tdr_read rd (hpos h + sint (hsize h) - 1)) (hpos h) (unat (hsize h)))
       (\<lambda>(r, _). Some (Inr r))"

definition read_entry :: "'e pos_reader \<Rightarrow> int \<Rightarrow> ((tar_error + tar_entry option) \<times> int) res option" where
  "read_entry rd next_pos =
     (case read_header rd next_pos of
        Inl u \<Rightarrow> Some (Inl u)
      | Inr hn \<Rightarrow> run_bind (skip_zeros rd hn) (\<lambda>(h, n). case h of
          Inl err \<Rightarrow> Some (Inr (Inl err, n))
        | Inr None \<Rightarrow> Some (Inr (Inr None, n))
        | Inr (Some hdr) \<Rightarrow>
            if typeflag hdr = CHR ''K'' \<or> typeflag hdr = CHR ''L''
            then run_bind (read_long_name rd hdr) (\<lambda>long_name. case long_name of
                Inl _ \<Rightarrow> Some (Inl UB)
              | Inr nm \<Rightarrow> (case read_header rd n of
                  Inl u \<Rightarrow> Some (Inl u)
                | Inr (Inl err, n') \<Rightarrow> Some (Inr (Inl err, n'))
                | Inr (Inr None, n') \<Rightarrow> Some (Inr (Inr None, n'))
                | Inr (Inr (Some hdr'), n') \<Rightarrow> Some (and_then (convert_to_entry hdr' nm) (\<lambda>e. Inr (e, n')))))
            else Some (and_then (cstr_at 0 (hbytes hdr)) (\<lambda>nm. and_then (convert_to_entry hdr nm) (\<lambda>e. Inr (e, n))))))"

section \<open>Archives\<close>

text \<open>Octal fields as an archiver writes them: \<open>k\<close> digits.\<close>

fun oct :: "nat \<Rightarrow> nat \<Rightarrow> string" where
  "oct 0 n = []"
| "oct (Suc k) n = oct k (n div 8) @ [char_of (48 + n mod 8 :: nat)]"

lemma octal_loop_append:
  "octal_loop d (xs @ ys) = (case octal_loop d xs of None \<Rightarrow> None | Some d' \<Rightarrow> octal_loop d' ys)"
  by (induction xs arbitrary: d) (auto simp: Let_def)

lemma octal_digit: "octal_loop d [char_of (48 + n mod 8 :: nat)] = Some (push_bit 3 d + of_nat (n mod 8))"
proof -
  have "n mod 8 < 8" by simp
  then have "48 + n mod 8 < 256" by linarith
  then show ?thesis by (simp add: Let_def)
qed

lemma octal_oct: "octal_loop 0 (oct k n) = Some (of_nat (n mod 8 ^ k))"
proof (induction k arbitrary: n)
  case (Suc k)
  have "push_bit 3 (of_nat (n div 8 mod 8 ^ k) :: 64 word) + of_nat (n mod 8) = of_nat (8 * (n div 8 mod 8 ^ k) + n mod 8)"
    by (simp add: push_bit_eq_mult)
  also have "8 * (n div 8 mod 8 ^ k) + n mod 8 = n mod 8 ^ Suc k"
    by (simp add: mod_mult2_eq)
  finally show ?case by (simp only: oct.simps octal_loop_append Suc.IH option.case octal_digit)
qed simp

lemma length_oct [simp]: "length (oct k n) = k"
  by (induction k arbitrary: n) auto

lemma oct_nonzero: "c \<in> set (oct k n) \<Longrightarrow> c \<noteq> CHR 0x00"
proof (induction k arbitrary: n)
  case (Suc k)
  have "n mod 8 < 8" by simp
  then have "48 + n mod 8 < 256" by linarith
  then have "of_char (char_of (48 + n mod 8 :: nat) :: char) \<noteq> (0 :: nat)" by simp
  moreover have "of_char (CHR 0x00) = (0 :: nat)" by simp
  ultimately have "char_of (48 + n mod 8 :: nat) \<noteq> CHR 0x00" by metis
  with Suc show ?case by auto
qed simp

text \<open>A file to archive, and its blocks: the header padded to a block, and the data padded to blocks.\<close>

record tar_file =
  fname :: string
  ftype :: char
  fmtime :: nat
  fdata :: "char list"

definition zeros :: "nat \<Rightarrow> char list" where
  "zeros n = replicate n (CHR 0x00)"

definition encode_header :: "string \<Rightarrow> char \<Rightarrow> nat \<Rightarrow> nat \<Rightarrow> char list" where
  "encode_header nm ty mt sz =
     (nm @ zeros (100 - length nm)) @ zeros 24 @ (oct 11 sz @ zeros 1) @ (oct 11 mt @ zeros 1) @ zeros 8 @ [ty] @ zeros 343"

definition padding :: "nat \<Rightarrow> nat" where
  "padding n = (512 - n mod 512) mod 512"

definition encode_file :: "tar_file \<Rightarrow> char list" where
  "encode_file f = encode_header (fname f) (ftype f) (fmtime f) (length (fdata f)) @ zeros 12 @ fdata f @ zeros (padding (length (fdata f)))"

definition encode_archive :: "tar_file list \<Rightarrow> char list" where
  "encode_archive fs = concat (map encode_file fs) @ zeros 1024"

definition tar_file_ok :: "tar_file \<Rightarrow> bool" where
  "tar_file_ok f \<longleftrightarrow> length (fname f) < 100 \<and> (\<forall>c \<in> set (fname f). c \<noteq> CHR 0x00) \<and> ftype f \<noteq> CHR ''K'' \<and> ftype f \<noteq> CHR ''L'' \<and>
     fmtime f < 8 ^ 11 \<and> length (fdata f) < 8 ^ 11"

text \<open>The archive in a file, read at positions.\<close>

definition file_reader :: "char list \<Rightarrow> 'e pos_reader" where
  "file_reader bs pos n = Inr (take n (drop (nat pos) bs))"

lemma pos_read_file [simp]: "pos_read (file_reader bs) pos n = Inr (take n (drop (nat pos) bs))"
  by (simp add: pos_read_def file_reader_def)

lemma length_zeros [simp]: "length (zeros n) = n" by (simp add: zeros_def)

lemma length_encode_header: "length nm \<le> 100 \<Longrightarrow> length (encode_header nm ty mt sz) = 500"
  by (simp add: encode_header_def)

lemma takeWhile_zeros: "takeWhile (\<lambda>c. c \<noteq> CHR 0x00) (xs @ zeros (Suc n) @ ys) = takeWhile (\<lambda>c. c \<noteq> CHR 0x00) xs"
  by (induction xs) (auto simp: zeros_def)

lemma cstr_at_field:
  assumes "bs = pre @ xs @ zeros (Suc n) @ post" "\<forall>c \<in> set xs. c \<noteq> CHR 0x00" "off = length pre"
  shows "cstr_at off bs = Inr xs"
proof -
  have "length (takeWhile (\<lambda>c. c \<noteq> CHR 0x00) xs) \<le> length xs" by (rule length_takeWhile_le)
  with assms show ?thesis by (simp add: cstr_at_def Let_def takeWhile_zeros)
qed

lemma header_fields:
  assumes "length nm < 100" "\<forall>c \<in> set nm. c \<noteq> CHR 0x00"
  shows "cstr_at 0 (encode_header nm ty mt sz) = Inr nm"
    "cstr_at 124 (encode_header nm ty mt sz) = Inr (oct 11 sz)"
    "cstr_at 136 (encode_header nm ty mt sz) = Inr (oct 11 mt)"
    "encode_header nm ty mt sz ! 156 = ty"
proof -
  let ?h = "encode_header nm ty mt sz"
  obtain k where k: "100 - length nm = Suc k" using assms(1) by (cases "100 - length nm") auto
  show "cstr_at 0 ?h = Inr nm"
    by (rule cstr_at_field[of _ "[]" nm k]) (use k assms(2) in \<open>auto simp: encode_header_def\<close>)
  show "cstr_at 124 ?h = Inr (oct 11 sz)"
    by (rule cstr_at_field[of _ "nm @ zeros (100 - length nm) @ zeros 24" "oct 11 sz" 0])
      (use assms oct_nonzero in \<open>auto simp: encode_header_def\<close>)
  show "cstr_at 136 ?h = Inr (oct 11 mt)"
    by (rule cstr_at_field[of _ "nm @ zeros (100 - length nm) @ zeros 24 @ oct 11 sz @ zeros 1" "oct 11 mt" 0])
      (use assms oct_nonzero in \<open>auto simp: encode_header_def\<close>)
  have e: "?h = (nm @ zeros (100 - length nm) @ zeros 24 @ oct 11 sz @ zeros 1 @ oct 11 mt @ zeros 1 @ zeros 8) @ ty # zeros 343"
    by (simp add: encode_header_def)
  show "?h ! 156 = ty" unfolding e using assms(1) by (subst nth_append) simp
qed

lemma header_nonzero: "\<not> list_all (\<lambda>c. c = CHR 0x00) (encode_header nm ty mt sz)"
proof -
  have "hd (oct 11 sz) \<in> set (oct 11 sz)" by (rule hd_in_set) (metis length_oct list.size(3) zero_neq_numeral)
  then show ?thesis using oct_nonzero[of "hd (oct 11 sz)" 11 sz] by (auto simp: encode_header_def list_all_iff)
qed

text \<open>The aligned size of an entry is the size of its blocks.\<close>

lemma sint_small: "n < 2 ^ 63 \<Longrightarrow> sint (of_nat n :: 64 word) = int n"
proof -
  assume a: "n < 2 ^ 63"
  have "sint (of_int (int n) :: 64 word) = signed_take_bit 63 (int n)" by (transfer) simp
  also have "\<dots> = int n" using a by (intro signed_take_bit_int_eq_self) auto
  finally show ?thesis by simp
qed

lemma align_blocks: "align_to (int (512 + n)) 512 = int (512 + n + padding n)"
proof -
  obtain a b where n: "n = 512 * a + b" "b < 512" using mult_div_mod_eq[of 512 n] by (metis mod_less_divisor zero_less_numeral)
  show ?thesis
  proof (cases "b = 0")
    case True
    then show ?thesis using n by (simp add: align_to_def padding_def Let_def)
  next
    case False
    have d: "int (512 + n) div 512 = int (Suc a)" "n mod 512 = b" using n by (simp_all add: div_add_self1 flip: zdiv_int)
    have "padding n = 512 - b" using d(2) False n(2) by (simp add: padding_def)
    then show ?thesis using n d(1) False by (simp add: align_to_def Let_def)
  qed
qed

lemma aligned_size:
  assumes "n < 8 ^ 11"
  shows "align_to (sint (of_nat BLOCK_SIZE + of_nat n :: 64 word)) (int BLOCK_SIZE) = int (512 + n + padding n)"
proof -
  have "512 + n < 2 ^ 63" using assms by simp
  from sint_small[OF this] have "sint (of_nat BLOCK_SIZE + of_nat n :: 64 word) = int (512 + n)"
    by (simp add: BLOCK_SIZE_def)
  then show ?thesis using align_blocks[of n] by (simp add: BLOCK_SIZE_def)
qed

lemma length_encode_file:
  "tar_file_ok f \<Longrightarrow> length (encode_file f) = 512 + length (fdata f) + padding (length (fdata f))"
  by (simp add: encode_file_def length_encode_header tar_file_ok_def)

lemma read_header_file:
  assumes "tar_file_ok f" "drop (nat pos) bs = encode_file f @ rest"
  shows "read_header (file_reader bs) pos = Inr (Inr (Some \<lparr>hbytes = encode_header (fname f) (ftype f) (fmtime f) (length (fdata f)),
      hpos = pos + 512, hsize = of_nat (length (fdata f))\<rparr>), pos + int (length (encode_file f)))"
proof -
  let ?h = "encode_header (fname f) (ftype f) (fmtime f) (length (fdata f))"
  have ok: "length (fname f) < 100" "\<forall>c \<in> set (fname f). c \<noteq> CHR 0x00" "length (fdata f) < 8 ^ 11"
    using assms(1) by (auto simp: tar_file_ok_def)
  have len: "length ?h = 500" using ok(1) by (simp add: length_encode_header)
  have t: "take 500 (drop (nat pos) bs) = ?h" using assms(2) len by (simp add: encode_file_def)
  have "?h \<noteq> []" using len by auto
  moreover have "convert_octal (oct 11 (length (fdata f))) = Some (of_nat (length (fdata f)))"
    using ok(3) by (simp add: convert_octal_def octal_oct)
  ultimately show ?thesis
    using t len header_fields(2)[OF ok(1,2)] aligned_size[OF ok(3)] length_encode_file[OF assms(1)]
    by (simp add: read_header_def HEADER_BYTES_def BLOCK_SIZE_def)
qed

definition entry_of :: "tar_file \<Rightarrow> int \<Rightarrow> tar_entry" where
  "entry_of f pos = \<lparr>ename = fname f, esize = of_nat (length (fdata f)), etype = get_type (ftype f),
     emtime = of_nat (fmtime f), epos = pos + 512\<rparr>"

lemma read_entry_file:
  assumes "tar_file_ok f" "drop (nat pos) bs = encode_file f @ rest"
  shows "read_entry (file_reader bs :: 'e pos_reader) pos = Some (Inr (Inr (Some (entry_of f pos)), pos + int (length (encode_file f))))"
proof -
  let ?h = "encode_header (fname f) (ftype f) (fmtime f) (length (fdata f))"
  have ok: "length (fname f) < 100" "\<forall>c \<in> set (fname f). c \<noteq> CHR 0x00" "fmtime f < 8 ^ 11"
    "ftype f \<noteq> CHR ''K''" "ftype f \<noteq> CHR ''L''" using assms(1) by (auto simp: tar_file_ok_def)
  have "convert_octal (oct 11 (fmtime f)) = Some (of_nat (fmtime f))"
    using ok(3) by (simp add: convert_octal_def octal_oct)
  moreover have "skip_zeros (file_reader bs :: 'e pos_reader) (Inr (Some \<lparr>hbytes = ?h, hpos = p, hsize = n\<rparr>), q) =
      Some (Inr (Inr (Some \<lparr>hbytes = ?h, hpos = p, hsize = n\<rparr>), q))" for p n q
    by (subst skip_zeros.simps) (simp add: zero_header_def header_nonzero)
  ultimately show ?thesis
    using header_fields[OF ok(1,2)] ok(4,5)
    by (simp add: read_entry_def read_header_file[OF assms] run_bind_def typeflag_def convert_to_entry_def entry_of_def)
qed

text \<open>Two blocks of zeros and the end of the file: no entry.\<close>

lemma read_header_zeros:
  assumes "drop (nat pos) bs = zeros (500 + n)"
  shows "read_header (file_reader bs) pos = Inr (Inr (Some \<lparr>hbytes = zeros 500, hpos = pos + 512, hsize = 0\<rparr>), pos + 512)"
proof -
  have t: "take 500 (drop (nat pos) bs) = zeros 500" using assms by (simp add: zeros_def)
  have "zeros 500 \<noteq> []" by (simp add: zeros_def)
  moreover have "cstr_at 124 (zeros 500) = Inr ''''"
  proof (rule cstr_at_field[of _ "zeros 124" "[]" 0 "zeros 375"])
    show "zeros 500 = zeros 124 @ [] @ zeros (Suc 0) @ zeros 375" by (simp only: zeros_def append.left_neutral flip: replicate_add) simp
  qed simp_all
  ultimately show ?thesis using t aligned_size[of 0]
    by (simp add: read_header_def HEADER_BYTES_def convert_octal_def BLOCK_SIZE_def padding_def)
qed

lemma zeros_drop: "drop k (zeros n) = zeros (n - k)" by (simp add: zeros_def)

lemma read_entry_end:
  assumes "drop (nat pos) bs = zeros 1024" "0 \<le> pos"
  shows "read_entry (file_reader bs :: 'e pos_reader) pos = Some (Inr (Inr None, pos + 1024))"
proof -
  let ?r = "file_reader bs :: 'e pos_reader"
  have z: "zero_header \<lparr>hbytes = zeros 500, hpos = p, hsize = n\<rparr>" for p n
    by (simp add: zero_header_def zeros_def list_all_iff)
  have n: "nat (pos + 512) = 512 + nat pos" "nat (pos + 1024) = 1024 + nat pos" using assms(2) by simp_all
  have d: "drop (nat (pos + 512)) bs = zeros 512" "drop (nat (pos + 1024)) bs = zeros 0"
    unfolding n drop_drop[symmetric] assms(1) zeros_drop by simp_all
  have 1: "read_header ?r pos = Inr (Inr (Some \<lparr>hbytes = zeros 500, hpos = pos + 512, hsize = 0\<rparr>), pos + 512)"
    using read_header_zeros[of pos bs 524] assms(1) by simp
  have 2: "read_header ?r (pos + 512) = Inr (Inr (Some \<lparr>hbytes = zeros 500, hpos = pos + 1024, hsize = 0\<rparr>), pos + 1024)"
    using read_header_zeros[of "pos + 512" bs 12] d(1) by (simp add: algebra_simps)
  have 3: "read_header ?r (pos + 1024) = Inr (Inr None, pos + 1024)"
    using d(2) by (simp add: read_header_def zeros_def)
  have "skip_zeros ?r (Inr (Some \<lparr>hbytes = zeros 500, hpos = pos + 512, hsize = 0\<rparr>), pos + 512) =
      skip_zeros ?r (Inr (Some \<lparr>hbytes = zeros 500, hpos = pos + 1024, hsize = 0\<rparr>), pos + 1024)"
    by (subst skip_zeros.simps) (simp add: z 2)
  also have "\<dots> = skip_zeros ?r (Inr None, pos + 1024)"
    by (subst skip_zeros.simps) (simp add: z 3)
  also have "\<dots> = Some (Inr (Inr None, pos + 1024))" by (subst skip_zeros.simps) simp
  finally show ?thesis by (simp add: read_entry_def 1 run_bind_def)
qed

text \<open>Reading the entries one after the other.\<close>

fun read_entries :: "'e pos_reader \<Rightarrow> nat \<Rightarrow> int \<Rightarrow> (tar_entry list \<times> int) res option" where
  "read_entries rd 0 pos = Some (Inr ([], pos))"
| "read_entries rd (Suc k) pos = run_bind (read_entry rd pos) (\<lambda>(r, pos'). case r of
      Inr (Some e) \<Rightarrow> run_bind (read_entries rd k pos') (\<lambda>(es, p). Some (Inr (e # es, p)))
    | _ \<Rightarrow> Some (Inr ([], pos')))"

text \<open>The entry describes the file, and the reader of its data gives the bytes of the file.\<close>

definition describes :: "'e pos_reader \<Rightarrow> tar_file \<Rightarrow> tar_entry \<Rightarrow> bool" where
  "describes rd f e \<longleftrightarrow> ename e = fname f \<and> unat (esize e) = length (fdata f) \<and> etype e = get_type (ftype f) \<and>
     unat (emtime e) = fmtime f \<and>
     (\<forall>n. tdr_read rd (snd (open_data_reader e)) (fst (open_data_reader e)) n =
       (Inr (take n (fdata f)), epos e + int (min n (length (fdata f)))))"

lemma entry_describes:
  assumes "tar_file_ok f" "drop (nat pos) bs = encode_file f @ rest" "0 \<le> pos"
  shows "describes (file_reader bs) f (entry_of f pos)"
proof -
  have ok: "length (fname f) < 100" "fmtime f < 8 ^ 11" "length (fdata f) < 8 ^ 11" using assms(1) by (auto simp: tar_file_ok_def)
  have u: "unat (of_nat (length (fdata f)) :: 64 word) = length (fdata f)" "unat (of_nat (fmtime f) :: 64 word) = fmtime f"
    using ok(2,3) by (simp_all add: unat_of_nat)
  have s: "sint (of_nat (length (fdata f)) :: 64 word) = int (length (fdata f))" using ok(3) by (intro sint_small) simp
  have "drop (nat (pos + 512)) bs = drop 512 (drop (nat pos) bs)" using assms(3) by (simp add: nat_add_distrib add.commute)
  also have "\<dots> = fdata f @ zeros (padding (length (fdata f))) @ rest"
    unfolding assms(2) using ok(1) by (simp add: encode_file_def length_encode_header zeros_drop) (simp add: zeros_def)
  finally have d: "drop (nat (pos + 512)) bs = fdata f @ zeros (padding (length (fdata f))) @ rest" .
  have t: "take (min n (length (fdata f))) (fdata f) = take n (fdata f)" for n by (simp add: min_def)
  show ?thesis
    by (simp add: describes_def entry_of_def open_data_reader_def tdr_read_def pos_read_def file_reader_def u s d t min.commute)
qed

lemma read_entries_archive:
  assumes "\<forall>f \<in> set fs. tar_file_ok f" "drop (nat pos) bs = concat (map encode_file fs) @ rest" "0 \<le> pos"
  shows "\<exists>es. read_entries (file_reader bs :: 'e pos_reader) (length fs) pos =
      Some (Inr (es, pos + int (length (concat (map encode_file fs))))) \<and> list_all2 (describes (file_reader bs :: 'e pos_reader)) fs es"
  using assms
proof (induction fs arbitrary: pos)
  case (Cons f fs)
  have f: "tar_file_ok f" "drop (nat pos) bs = encode_file f @ concat (map encode_file fs) @ rest" using Cons.prems by auto
  let ?p = "pos + int (length (encode_file f))"
  have "drop (nat ?p) bs = concat (map encode_file fs) @ rest"
  proof -
    have "drop (nat ?p) bs = drop (length (encode_file f)) (drop (nat pos) bs)"
      using Cons.prems(3) by (simp add: nat_add_distrib add.commute)
    then show ?thesis unfolding f(2) by simp
  qed
  from Cons.IH[OF _ this] Cons.prems obtain es where es:
    "read_entries (file_reader bs :: 'e pos_reader) (length fs) ?p = Some (Inr (es, ?p + int (length (concat (map encode_file fs)))))"
    "list_all2 (describes (file_reader bs :: 'e pos_reader)) fs es" by auto
  have "describes (file_reader bs :: 'e pos_reader) f (entry_of f pos)"
    by (rule entry_describes[OF f Cons.prems(3)])
  with es show ?case
    by (intro exI[of _ "entry_of f pos # es"])
      (simp add: read_entry_file[OF f] run_bind_def add.assoc)
qed simp

text \<open>C12: An archive of any files (names of less than 100 characters, sizes and times of at most 11 octal digits)
  is read back exactly: the entries come in order with names, sizes, types and times, the reader of
  each entry gives the bytes of the file, and after the last one the two blocks of zeros are skipped
  and the end is reported.\<close>

theorem tar_archive_roundtrip:
  assumes "\<forall>f \<in> set fs. tar_file_ok f"
  shows "\<exists>es p. read_entries (file_reader (encode_archive fs) :: 'e pos_reader) (length fs) 0 = Some (Inr (es, p)) \<and>
    list_all2 (describes (file_reader (encode_archive fs) :: 'e pos_reader)) fs es \<and>
    read_entry (file_reader (encode_archive fs) :: 'e pos_reader) p = Some (Inr (Inr None, p + 1024))"
proof -
  let ?bs = "encode_archive fs" and ?c = "concat (map encode_file fs)"
  obtain es where es: "read_entries (file_reader ?bs :: 'e pos_reader) (length fs) 0 = Some (Inr (es, int (length ?c)))"
    "list_all2 (describes (file_reader ?bs :: 'e pos_reader)) fs es"
    using read_entries_archive[OF assms, of 0 ?bs "zeros 1024"] by (auto simp: encode_archive_def)
  have "drop (nat (int (length ?c))) ?bs = zeros 1024" by (simp add: encode_archive_def)
  from read_entry_end[OF this] es show ?thesis by (intro exI[of _ es] exI[of _ "int (length ?c)"]) simp
qed

theorem tar_archive_roundtrip_witness:
  "\<exists>es p. read_entries (file_reader (encode_archive [\<lparr>fname = ''a.txt'', ftype = CHR ''0'', fmtime = 9, fdata = ''hi''\<rparr>]) :: nat pos_reader) 1 0 =
     Some (Inr (es, p)) \<and> map ename es = [''a.txt'']"
proof -
  let ?f = "\<lparr>fname = ''a.txt'', ftype = CHR ''0'', fmtime = 9, fdata = ''hi''\<rparr>"
  have "\<forall>f \<in> set [?f]. tar_file_ok f" by (simp add: tar_file_ok_def)
  from tar_archive_roundtrip[OF this, where ?'e = nat] obtain es p where
    "read_entries (file_reader (encode_archive [?f]) :: nat pos_reader) 1 0 = Some (Inr (es, p))"
    "list_all2 (describes (file_reader (encode_archive [?f]) :: nat pos_reader)) [?f] es" by auto
  then show ?thesis by (intro exI[of _ es] exI[of _ p]) (auto simp: describes_def list_all2_Cons1)
qed

text \<open>A read error while the data of an entry is read is undefined behaviour, not an error of the reader.\<close>

lemma tar_data_error: "tdr_read (\<lambda>_ _. Inl e) end_pos next_pos n = (Inl (), next_pos)"
  by (simp add: tdr_read_def pos_read_def)

end
