(* ===== verification/StorageUnion.thy ===== *)
theory StorageUnion
  imports TxlPrelude "HOL-Library.Word"
begin

text \<open>
  \<^verbatim>\<open>include/txl/storage_union.h\<close>: a union of values of several types with the number of the occupied
  alternative, \<open>255\<close> for none. The list \<open>ts\<close> of the types is the template argument; \<open>storage_union_base\<close> is
  a recursion over it. \<open>sbody\<close> is the object that really lives in the memory, whatever \<open>occupied\<close> says;
  using or destroying an object of another type, or none, is undefined behaviour. \<open>leaked\<close> is a ghost list of
  the objects that were overwritten without being destroyed. \<open>moved\<close> is what the move constructor of a type
  leaves in its source.
\<close>

section \<open>State\<close>

record ('t, 'u) su =
  occupied :: "8 word"
  sbody :: "('t \<times> 'u) option"
  leaked :: "('t \<times> 'u) list"

definition NOTHING :: "8 word" where "NOTHING = 255"

definition su_new :: "('t, 'u) su" where
  "su_new = \<lparr>occupied = NOTHING, sbody = None, leaked = []\<rparr>"

definition obj_val :: "'t \<Rightarrow> ('t \<times> 'u) option \<Rightarrow> 'u res" where
  "obj_val t b = (case b of Some (t', v) \<Rightarrow> if t' = t then Inr v else Inl UB | None \<Rightarrow> Inl UB)"

definition obj_erase :: "'t \<Rightarrow> ('t \<times> 'u) option \<Rightarrow> ('t \<times> 'u) option res" where
  "obj_erase t b = and_then (obj_val t b) (\<lambda>_. Inr None)"

section \<open>The recursion over the alternatives\<close>

fun base_visit :: "'t list \<Rightarrow> nat \<Rightarrow> 8 word \<Rightarrow> ('t \<times> 'u) option \<Rightarrow> ('t \<times> 'u) option res" where
  "base_visit [] S occ b = Inr None"
| "base_visit (t # ts) S occ b =
     (if of_nat S = occ then and_then (obj_val t b) (\<lambda>v. Inr (Some (t, v))) else base_visit ts (S + 1) occ b)"

fun base_contains :: "'t list \<Rightarrow> nat \<Rightarrow> 't \<Rightarrow> 8 word \<Rightarrow> bool" where
  "base_contains [] S c occ = False"
| "base_contains (t # ts) S c occ = (if t = c then of_nat S = occ else base_contains ts (S + 1) c occ)"

fun base_invoke_deleter :: "'t list \<Rightarrow> nat \<Rightarrow> 8 word \<Rightarrow> ('t \<times> 'u) option \<Rightarrow> ('t \<times> 'u) option res" where
  "base_invoke_deleter [] S occ b = Inr b"
| "base_invoke_deleter (t # ts) S occ b =
     (if occ = of_nat S then obj_erase t b else base_invoke_deleter ts (S + 1) occ b)"

text \<open>\<open>release\<close> and the conversion find the first alternative of the type, whatever is occupied; \<open>None\<close>: the
  type is no alternative.\<close>

fun base_release :: "'t list \<Rightarrow> 't \<Rightarrow> ('t \<times> 'u) option \<Rightarrow> 'u res" where
  "base_release [] c b = Inl UB"
| "base_release (t # ts) c b = (if t = c then obj_val t b else base_release ts c b)"

fun base_get :: "'t list \<Rightarrow> 't \<Rightarrow> ('t \<times> 'u) option \<Rightarrow> 'u res" where
  "base_get [] c b = Inl UB"
| "base_get (t # ts) c b = (if t = c then obj_val t b else base_get ts c b)"

text \<open>\<open>assign\<close>: the number of the alternative of the type; a value that would be converted is not modelled.\<close>

fun base_assign :: "'t list \<Rightarrow> nat \<Rightarrow> 't \<Rightarrow> 8 word option" where
  "base_assign [] S c = None"
| "base_assign (t # ts) S c = (if t = c then Some (of_nat S) else base_assign ts (S + 1) c)"

section \<open>Operations\<close>

definition su_invoke_deleter :: "'t list \<Rightarrow> ('t, 'u) su \<Rightarrow> ('t, 'u) su res" where
  "su_invoke_deleter ts u =
     (if occupied u \<noteq> NOTHING
      then and_then (base_invoke_deleter ts 0 (occupied u) (sbody u)) (\<lambda>b. Inr (u\<lparr>sbody := b\<rparr>))
      else Inr u)"

definition su_visit :: "'t list \<Rightarrow> ('t, 'u) su \<Rightarrow> ('t \<times> 'u) option res" where
  "su_visit ts u = base_visit ts 0 (occupied u) (sbody u)"

definition su_ref :: "'t \<Rightarrow> ('t, 'u) su \<Rightarrow> 'u res" where
  "su_ref c u = obj_val c (sbody u)"

definition su_empty :: "('t, 'u) su \<Rightarrow> bool" where
  "su_empty u \<longleftrightarrow> occupied u = NOTHING"

definition su_reset :: "('t, 'u) su \<Rightarrow> ('t, 'u) su" where
  "su_reset u = u\<lparr>occupied := NOTHING\<rparr>"

definition su_has :: "'t list \<Rightarrow> 't \<Rightarrow> ('t, 'u) su \<Rightarrow> bool" where
  "su_has ts c u = base_contains ts 0 c (occupied u)"

definition su_get :: "'t list \<Rightarrow> 't \<Rightarrow> ('t, 'u) su \<Rightarrow> 'u res" where
  "su_get ts c u = base_get ts c (sbody u)"

definition su_release :: "('u \<Rightarrow> 'u) \<Rightarrow> 't list \<Rightarrow> 't \<Rightarrow> ('t, 'u) su \<Rightarrow> ('u \<times> ('t, 'u) su) res" where
  "su_release moved ts c u =
     and_then (base_release ts c (sbody u)) (\<lambda>v. Inr (v, su_reset (u\<lparr>sbody := Some (c, moved v)\<rparr>)))"

text \<open>The placement new of \<open>unsafe_storage::emplace\<close> forgets what lived in the memory.\<close>

definition su_emplace :: "'t \<Rightarrow> 'u \<Rightarrow> ('t, 'u) su \<Rightarrow> ('t, 'u) su" where
  "su_emplace c v u = u\<lparr>sbody := Some (c, v), leaked := leaked u @ (case sbody u of None \<Rightarrow> [] | Some x \<Rightarrow> [x])\<rparr>"

definition su_set :: "'t list \<Rightarrow> 't \<Rightarrow> 'u \<Rightarrow> ('t, 'u) su \<Rightarrow> ('t, 'u) su res" where
  "su_set ts c v u = and_then (su_invoke_deleter ts u) (\<lambda>u'.
     case base_assign ts 0 c of
       None \<Rightarrow> Inl UB
     | Some i \<Rightarrow> Inr (su_emplace c v (u'\<lparr>occupied := i\<rparr>)))"

text \<open>\<open>std::swap\<close> of two unions, with the union \<open>swappable\<close> that is destroyed at its end.\<close>

definition su_move_to :: "('u \<Rightarrow> 'u) \<Rightarrow> 't list \<Rightarrow> ('t, 'u) su \<Rightarrow> ('t, 'u) su \<Rightarrow> (('t, 'u) su \<times> ('t, 'u) su) res" where
  "su_move_to moved ts x y = and_then (su_visit ts x) (\<lambda>o1. case o1 of
       None \<Rightarrow> Inr (x, y)
     | Some (t, v) \<Rightarrow> and_then (su_set ts t v y) (\<lambda>y'. Inr (x\<lparr>sbody := Some (t, moved v)\<rparr>, y')))"

definition su_swap :: "('u \<Rightarrow> 'u) \<Rightarrow> 't list \<Rightarrow> ('t, 'u) su \<Rightarrow> ('t, 'u) su \<Rightarrow> (('t, 'u) su \<times> ('t, 'u) su) res" where
  "su_swap moved ts x y =
     and_then (su_move_to moved ts x su_new) (\<lambda>(x1, s1).
     and_then (su_move_to moved ts y x1) (\<lambda>(y1, x2).
     and_then (su_move_to moved ts s1 y1) (\<lambda>(s2, y2).
     and_then (su_invoke_deleter ts s2) (\<lambda>_. Inr (x2, y2)))))"

section \<open>Well-formed unions\<close>

text \<open>At most 255 different types; the occupied alternative is the type of the object that lives.\<close>

definition types_ok :: "'t list \<Rightarrow> bool" where
  "types_ok ts \<longleftrightarrow> distinct ts \<and> length ts \<le> 255"

definition su_ok :: "'t list \<Rightarrow> ('t, 'u) su \<Rightarrow> bool" where
  "su_ok ts u \<longleftrightarrow> occupied u = NOTHING \<or>
     (\<exists>i v. i < length ts \<and> occupied u = of_nat i \<and> sbody u = Some (ts ! i, v))"

text \<open>What the union holds.\<close>

definition su_view :: "('t, 'u) su \<Rightarrow> ('t \<times> 'u) option" where
  "su_view u = (if occupied u = NOTHING then None else sbody u)"

definition su_clean :: "('t, 'u) su \<Rightarrow> bool" where
  "su_clean u \<longleftrightarrow> (occupied u = NOTHING \<longrightarrow> sbody u = None)"

lemma of_nat_8_eq: "i < 256 \<Longrightarrow> j < 256 \<Longrightarrow> ((of_nat i :: 8 word) = of_nat j) = (i = j)"
  by (simp add: word_of_nat_eq_iff take_bit_nat_eq_self)

lemma of_nat_8_nothing: "i < 255 \<Longrightarrow> (of_nat i :: 8 word) \<noteq> NOTHING"
  using of_nat_8_eq[of i 255] by (simp add: NOTHING_def)

text \<open>The recursions at the number \<open>S + i\<close> of an alternative.\<close>

lemma base_visit_nth:
  "i < length ts \<Longrightarrow> S + length ts \<le> 255 \<Longrightarrow>
     base_visit ts S (of_nat (S + i)) (Some (ts ! i, v)) = Inr (Some (ts ! i, v))"
proof (induction ts arbitrary: S i)
  case (Cons t ts)
  show ?case
  proof (cases i)
    case (Suc j)
    have "(of_nat S :: 8 word) \<noteq> of_nat (S + i)" using Cons.prems Suc by (subst of_nat_8_eq) auto
    then show ?thesis using Cons.IH[of j "S + 1"] Cons.prems Suc by simp
  qed (simp add: obj_val_def)
qed simp

lemma base_deleter_nth:
  "i < length ts \<Longrightarrow> S + length ts \<le> 255 \<Longrightarrow>
     base_invoke_deleter ts S (of_nat (S + i)) (Some (ts ! i, v)) = Inr None"
proof (induction ts arbitrary: S i)
  case (Cons t ts)
  show ?case
  proof (cases i)
    case (Suc j)
    have "(of_nat (S + i) :: 8 word) \<noteq> of_nat S" using Cons.prems Suc by (subst of_nat_8_eq) auto
    then show ?thesis using Cons.IH[of j "S + 1"] Cons.prems Suc by simp
  qed (simp add: obj_val_def obj_erase_def)
qed simp

lemma base_contains_nth:
  "i < length ts \<Longrightarrow> S + length ts \<le> 255 \<Longrightarrow> distinct ts \<Longrightarrow>
     base_contains ts S c (of_nat (S + i)) \<longleftrightarrow> c = ts ! i"
proof (induction ts arbitrary: S i)
  case (Cons t ts)
  show ?case
  proof (cases i)
    case 0
    have "\<not> base_contains ts' (S + 1 + k) c (of_nat S)" if "S + 1 + k + length ts' \<le> 255" for ts' k
      using that
    proof (induction ts' arbitrary: k)
      case (Cons t' ts')
      have "(of_nat (S + 1 + k) :: 8 word) \<noteq> of_nat S" using Cons.prems by (subst of_nat_8_eq) auto
      then show ?case using Cons.IH[of "k + 1"] Cons.prems by (simp add: add_ac)
    qed simp
    from this[of 0 ts] show ?thesis using 0 Cons.prems by auto
  next
    case (Suc j)
    have "(of_nat S :: 8 word) \<noteq> of_nat (S + i)" using Cons.prems Suc by (subst of_nat_8_eq) auto
    moreover have "t \<noteq> ts ! j" using Cons.prems Suc by (metis distinct.simps(2) length_Cons not_less_eq nth_mem)
    ultimately show ?thesis using Cons.IH[of j "S + 1"] Cons.prems Suc by (cases "t = c") simp_all
  qed
qed simp

lemma base_contains_nothing: "S + length ts \<le> 255 \<Longrightarrow> \<not> base_contains ts S c NOTHING"
proof (induction ts arbitrary: S)
  case (Cons t ts)
  then show ?case using of_nat_8_nothing[of S] Cons.IH[of "S + 1"] by simp
qed simp

lemma base_visit_nothing: "S + length ts \<le> 255 \<Longrightarrow> base_visit ts S NOTHING b = Inr None"
proof (induction ts arbitrary: S)
  case (Cons t ts)
  then show ?case using of_nat_8_nothing[of S] Cons.IH[of "S + 1"] by simp
qed simp

lemma base_assign_nth: "c \<in> set ts \<Longrightarrow> \<exists>i < length ts. base_assign ts S c = Some (of_nat (S + i)) \<and> ts ! i = c"
proof (induction ts arbitrary: S)
  case (Cons t ts)
  show ?case
  proof (cases "t = c")
    case False
    with Cons obtain i where "i < length ts" "base_assign ts (S + 1) c = Some (of_nat (S + 1 + i))" "ts ! i = c"
      by fastforce
    then show ?thesis using False by (intro exI[of _ "Suc i"]) simp
  qed auto
qed simp

lemma base_get_obj: "c \<in> set ts \<Longrightarrow> base_get ts c b = obj_val c b"
  by (induction ts) auto

lemma base_release_obj: "c \<in> set ts \<Longrightarrow> base_release ts c b = obj_val c b"
  by (induction ts) auto

section \<open>Operations on well-formed unions\<close>

lemma su_ok_new [simp]: "su_ok ts su_new" "su_view su_new = None" "su_clean su_new"
  by (simp_all add: su_ok_def su_new_def su_view_def su_clean_def)

lemma su_okE:
  assumes "types_ok ts" "su_ok ts u"
  obtains (nothing) "occupied u = NOTHING" "su_view u = None"
    | (held) i v where "i < length ts" "occupied u = of_nat i" "sbody u = Some (ts ! i, v)" "su_view u = Some (ts ! i, v)"
        "occupied u \<noteq> NOTHING"
proof (cases "occupied u = NOTHING")
  case False
  with assms(2) obtain i v where "i < length ts" "occupied u = of_nat i" "sbody u = Some (ts ! i, v)"
    by (auto simp: su_ok_def)
  with held False show ?thesis by (simp add: su_view_def)
qed (simp add: nothing su_view_def)

lemma su_has_view:
  assumes "types_ok ts" "su_ok ts u"
  shows "su_has ts c u \<longleftrightarrow> (\<exists>v. su_view u = Some (c, v))"
  using assms
proof (cases rule: su_okE)
  case nothing
  then show ?thesis using base_contains_nothing[of 0 ts c] assms(1) by (simp add: su_has_def types_ok_def)
next
  case (held i v)
  then show ?thesis using base_contains_nth[of i ts 0 c] assms(1) by (auto simp: su_has_def types_ok_def)
qed

lemma su_empty_view:
  assumes "types_ok ts" "su_ok ts u"
  shows "su_empty u \<longleftrightarrow> su_view u = None"
  using assms by (cases rule: su_okE) (auto simp: su_empty_def)

lemma su_get_view:
  assumes "c \<in> set ts" "su_view u = Some (c, v)"
  shows "su_get ts c u = Inr v" "su_ref c u = Inr v" "base_release ts c (sbody u) = Inr v"
  using assms by (auto simp: su_get_def su_ref_def base_get_obj base_release_obj su_view_def obj_val_def split: if_splits)

lemma su_visit_view:
  assumes "types_ok ts" "su_ok ts u"
  shows "su_visit ts u = Inr (su_view u)"
  using assms
proof (cases rule: su_okE)
  case nothing
  then show ?thesis using base_visit_nothing[of 0 ts "sbody u"] assms(1) by (simp add: su_visit_def types_ok_def)
next
  case (held i v)
  then show ?thesis using base_visit_nth[of i ts 0 v] assms(1) by (simp add: su_visit_def types_ok_def)
qed

lemma su_deleter_view:
  assumes "types_ok ts" "su_ok ts u"
  shows "su_invoke_deleter ts u = Inr (if occupied u = NOTHING then u else u\<lparr>sbody := None\<rparr>)"
  using assms
proof (cases rule: su_okE)
  case (held i v)
  then show ?thesis using base_deleter_nth[of i ts 0 v] assms(1) by (simp add: su_invoke_deleter_def types_ok_def)
qed (simp add: su_invoke_deleter_def)

text \<open>Setting a value destroys the old one. A value that was only forgotten (\<open>reset\<close>, \<open>release\<close>) is leaked.\<close>

lemma su_set_ok:
  assumes "types_ok ts" "su_ok ts u" "c \<in> set ts"
  obtains u' where "su_set ts c v u = Inr u'" "su_ok ts u'" "su_view u' = Some (c, v)" "su_clean u'"
    "leaked u' = leaked u @ (if occupied u = NOTHING then (case sbody u of None \<Rightarrow> [] | Some x \<Rightarrow> [x]) else [])"
proof -
  from base_assign_nth[OF assms(3), of 0] obtain i where i: "i < length ts" "base_assign ts 0 c = Some (of_nat i)" "ts ! i = c"
    by auto
  moreover have "(of_nat i :: 8 word) \<noteq> NOTHING" using i(1) assms(1) by (intro of_nat_8_nothing) (simp add: types_ok_def)
  ultimately show thesis
    by (intro that[of "su_emplace c v ((if occupied u = NOTHING then u else u\<lparr>sbody := None\<rparr>)\<lparr>occupied := of_nat i\<rparr>)"])
      (auto simp: su_set_def su_deleter_view[OF assms(1,2)] su_emplace_def su_ok_def su_view_def su_clean_def)
qed

lemma su_reset_ok: "su_ok ts (su_reset u)" "su_view (su_reset u) = None" "leaked (su_reset u) = leaked u"
  by (simp_all add: su_reset_def su_ok_def su_view_def)

section \<open>Sequences of operations\<close>

datatype ('t, 'u) su_op = SuSet 't 'u | SuReset | SuRelease 't

fun su_step :: "('u \<Rightarrow> 'u) \<Rightarrow> 't list \<Rightarrow> ('t, 'u) su_op \<Rightarrow> ('t, 'u) su \<Rightarrow> ('t, 'u) su res" where
  "su_step moved ts (SuSet c v) u = su_set ts c v u"
| "su_step moved ts SuReset u = Inr (su_reset u)"
| "su_step moved ts (SuRelease c) u = and_then (su_release moved ts c u) (\<lambda>(_, u'). Inr u')"

fun su_steps :: "('u \<Rightarrow> 'u) \<Rightarrow> 't list \<Rightarrow> ('t, 'u) su_op list \<Rightarrow> ('t, 'u) su \<Rightarrow> ('t, 'u) su res" where
  "su_steps moved ts [] u = Inr u"
| "su_steps moved ts (x # xs) u = and_then (su_step moved ts x u) (su_steps moved ts xs)"

text \<open>The union as an optional value, and the operations that are defined: a release of the type that is held.\<close>

fun opt_step :: "('t, 'u) su_op \<Rightarrow> ('t \<times> 'u) option \<Rightarrow> ('t \<times> 'u) option" where
  "opt_step (SuSet c v) s = Some (c, v)"
| "opt_step _ s = None"

fun legal_ops :: "'t list \<Rightarrow> ('t, 'u) su_op list \<Rightarrow> ('t \<times> 'u) option \<Rightarrow> bool" where
  "legal_ops ts [] s = True"
| "legal_ops ts (x # xs) s \<longleftrightarrow> (case x of SuSet c v \<Rightarrow> c \<in> set ts | SuReset \<Rightarrow> True
     | SuRelease c \<Rightarrow> c \<in> set ts \<and> (\<exists>v. s = Some (c, v))) \<and> legal_ops ts xs (opt_step x s)"

definition only_sets :: "('t, 'u) su_op list \<Rightarrow> bool" where
  "only_sets xs \<longleftrightarrow> list_all (\<lambda>x. case x of SuSet c v \<Rightarrow> True | _ \<Rightarrow> False) xs"

text \<open>C34: Every sequence of defined operations on a well-formed union succeeds and does what it does to an optional
  value: \<open>has\<close> afterwards tells the type of the last value set; and as long as values are only set, none is
  leaked.\<close>

theorem storage_union_refines_option:
  assumes "types_ok ts" "su_ok ts u" "legal_ops ts xs (su_view u)"
  shows "\<exists>u'. su_steps moved ts xs u = Inr u' \<and> su_ok ts u' \<and> su_view u' = fold opt_step xs (su_view u) \<and>
    (\<forall>c. su_has ts c u' = (map_option fst (fold opt_step xs (su_view u)) = Some c)) \<and>
    (only_sets xs \<and> su_clean u \<longrightarrow> leaked u' = leaked u)"
  using assms(2,3)
proof (induction xs arbitrary: u)
  case Nil
  then show ?case by (auto simp: su_has_view[OF assms(1)])
next
  case (Cons x xs)
  obtain u1 where u1: "su_step moved ts x u = Inr u1" "su_ok ts u1" "su_view u1 = opt_step x (su_view u)"
    "only_sets [x] \<and> su_clean u \<longrightarrow> leaked u1 = leaked u \<and> su_clean u1"
  proof (cases x)
    case (SuSet c v)
    with Cons.prems have "c \<in> set ts" by simp
    then obtain u' where "su_set ts c v u = Inr u'" "su_ok ts u'" "su_view u' = Some (c, v)" "su_clean u'"
      "leaked u' = leaked u @ (if occupied u = NOTHING then (case sbody u of None \<Rightarrow> [] | Some x \<Rightarrow> [x]) else [])"
      by (rule su_set_ok[OF assms(1) Cons.prems(1)])
    then show thesis using SuSet by (intro that[of u']) (auto simp: su_clean_def)
  next
    case SuReset
    then show thesis by (intro that[of "su_reset u"]) (simp_all add: su_reset_ok only_sets_def)
  next
    case (SuRelease c)
    with Cons.prems obtain v where "c \<in> set ts" "su_view u = Some (c, v)" by auto
    then show thesis using SuRelease
      by (intro that[of "su_reset (u\<lparr>sbody := Some (c, moved v)\<rparr>)"]) (simp_all add: su_release_def su_get_view su_reset_ok only_sets_def)
  qed
  from Cons.IH[OF u1(2)] Cons.prems(2) u1(3) obtain u' where
    "su_steps moved ts xs u1 = Inr u'" "su_ok ts u'" "su_view u' = fold opt_step xs (su_view u1)"
    "\<forall>c. su_has ts c u' = (map_option fst (fold opt_step xs (su_view u1)) = Some c)"
    "only_sets xs \<and> su_clean u1 \<longrightarrow> leaked u' = leaked u1" by auto
  with u1 show ?case by (auto simp: only_sets_def)
qed

theorem storage_union_refines_option_witness:
  "\<exists>u'. su_steps id [False, True] [SuSet False (1 :: nat), SuSet True 2] su_new = Inr u' \<and>
     su_has [False, True] True u' \<and> leaked u' = []"
proof -
  let ?xs = "[SuSet False (1 :: nat), SuSet True 2]"
  have t: "types_ok [False, True]" by (simp add: types_ok_def)
  have l: "legal_ops [False, True] ?xs (su_view su_new)" by simp
  from storage_union_refines_option[OF t su_ok_new(1) l, where moved = id] obtain u' where u': "su_steps id [False, True] ?xs su_new = Inr u'"
    "\<forall>c. su_has [False, True] c u' = (map_option fst (fold opt_step ?xs (su_view su_new)) = Some c)"
    "only_sets ?xs \<and> su_clean (su_new :: (bool, nat) su) \<longrightarrow> leaked u' = leaked su_new" by blast
  have "leaked su_new = []" by (simp add: su_new_def)
  with u' show ?thesis by (intro exI[of _ u']) (simp add: only_sets_def)
qed

text \<open>A value that is forgotten by \<open>reset\<close> is never destroyed.\<close>

lemma su_reset_leaks:
  assumes "types_ok ts" "c \<in> set ts" "su_view u = Some (x, w)"
  shows "\<exists>u'. su_steps moved ts [SuReset, SuSet c v] u = Inr u' \<and> (x, w) \<in> set (leaked u')"
proof -
  have b: "sbody (su_reset u) = Some (x, w)" "occupied (su_reset u) = NOTHING"
    using assms(3) by (auto simp: su_reset_def su_view_def split: if_splits)
  obtain u' where "su_set ts c v (su_reset u) = Inr u'"
    "leaked u' = leaked (su_reset u) @ (if occupied (su_reset u) = NOTHING then (case sbody (su_reset u) of None \<Rightarrow> [] | Some x \<Rightarrow> [x]) else [])"
    by (rule su_set_ok[OF assms(1) su_reset_ok(1) assms(2)])
  with b show ?thesis by simp
qed

text \<open>Two full unions are exchanged; but the full one of a pair keeps the shell of its value.\<close>

lemma su_move_to_ok:
  assumes "types_ok ts" "su_ok ts x" "su_ok ts y" "su_view x = Some (t, v)"
  obtains y' where "su_move_to moved ts x y = Inr (x\<lparr>sbody := Some (t, moved v)\<rparr>, y')" "su_ok ts y'" "su_view y' = Some (t, v)"
    "su_ok ts (x\<lparr>sbody := Some (t, moved v)\<rparr>)" "su_view (x\<lparr>sbody := Some (t, moved v)\<rparr>) = Some (t, moved v)"
  using assms(1,2)
proof (cases rule: su_okE)
  case (held i w)
  then have t: "ts ! i = t" "w = v" using assms(4) by auto
  then have "t \<in> set ts" using held(1) by auto
  from su_set_ok[OF assms(1,3) this, of v] obtain y' where
    "su_set ts t v y = Inr y'" "su_ok ts y'" "su_view y' = Some (t, v)" by metis
  then show thesis using held t assms(4)
    by (intro that[of y']) (auto simp: su_move_to_def su_visit_view[OF assms(1,2)] su_ok_def su_view_def)
qed (use assms(4) in simp)

lemma su_move_to_empty:
  assumes "types_ok ts" "su_ok ts x" "su_view x = None"
  shows "su_move_to moved ts x y = Inr (x, y)"
  by (simp add: su_move_to_def su_visit_view[OF assms(1,2)] assms(3))

lemma su_swap_full:
  assumes "types_ok ts" "su_ok ts x" "su_ok ts y" "su_view x = Some (t, v)" "su_view y = Some (s, w)"
  shows "\<exists>x' y'. su_swap moved ts x y = Inr (x', y') \<and> su_view x' = Some (s, w) \<and> su_view y' = Some (t, v)"
proof -
  obtain s1 where 1: "su_move_to moved ts x su_new = Inr (x\<lparr>sbody := Some (t, moved v)\<rparr>, s1)" "su_ok ts s1" "su_view s1 = Some (t, v)"
    "su_ok ts (x\<lparr>sbody := Some (t, moved v)\<rparr>)"
    by (rule su_move_to_ok[OF assms(1,2) su_ok_new(1) assms(4)])
  obtain x' where 2: "su_move_to moved ts y (x\<lparr>sbody := Some (t, moved v)\<rparr>) = Inr (y\<lparr>sbody := Some (s, moved w)\<rparr>, x')"
    "su_view x' = Some (s, w)" "su_ok ts (y\<lparr>sbody := Some (s, moved w)\<rparr>)"
    by (rule su_move_to_ok[OF assms(1,3) 1(4) assms(5)])
  obtain y' where 3: "su_move_to moved ts s1 (y\<lparr>sbody := Some (s, moved w)\<rparr>) = Inr (s1\<lparr>sbody := Some (t, moved v)\<rparr>, y')"
    "su_view y' = Some (t, v)" "su_ok ts (s1\<lparr>sbody := Some (t, moved v)\<rparr>)"
    by (rule su_move_to_ok[OF assms(1) 1(2) 2(3) 1(3)])
  show ?thesis using 1 2 3 by (simp add: su_swap_def su_deleter_view[OF assms(1)])
qed

lemma su_swap_empty:
  assumes "types_ok ts" "su_ok ts x" "su_ok ts y" "su_view x = None" "su_view y = Some (s, w)"
  shows "\<exists>x' y'. su_swap moved ts x y = Inr (x', y') \<and> su_view x' = Some (s, w) \<and> su_view y' = Some (s, moved w)"
proof -
  obtain x' where 2: "su_move_to moved ts y x = Inr (y\<lparr>sbody := Some (s, moved w)\<rparr>, x')" "su_view x' = Some (s, w)"
    "su_view (y\<lparr>sbody := Some (s, moved w)\<rparr>) = Some (s, moved w)"
    by (rule su_move_to_ok[OF assms(1,3,2) assms(5)])
  then show ?thesis
    by (simp add: su_swap_def su_move_to_empty[OF assms(1)] assms su_deleter_view[OF assms(1)])
qed

end
