(* ===== verification/Tasks.thy ===== *)
theory Tasks
  imports StorageUnion Awaiter
begin

text \<open>
  \<^verbatim>\<open>include/txl/tasks.h\<close>: promises, chains of functions, tasks, the closure a task is run through, and the two
  runners. A promise keeps its result in a \<open>storage_union\<close> and signals an \<open>awaiter\<close>. Promises are used
  through pointers, so they live in a store; a task is the address of its promise and its chain. A
  function of a task works on the context (the address of the promise of the run) and the state, and returns a value
  or throws an exception; \<open>None\<close> means it does not return. The template argument \<open>ReturnType\<close> is the
  record of operations of its promise: \<open>value_ops\<close> for a type of values and \<open>void_ops\<close> for
  \<^verbatim>\<open>void\<close>, whose only value is \<open>()\<close>.
\<close>

section \<open>Promises\<close>

datatype ptype = PValue | PException | PFlag
datatype ('v, 'e) pval = PV 'v | PE 'e | PB bool

record ('v, 'e) promise =
  pres :: "(ptype, ('v, 'e) pval) su"
  paw :: bool

definition prom_new :: "('v, 'e) promise" where
  "prom_new = \<lparr>pres = su_new, paw = False\<rparr>"

definition value_types :: "ptype list" where "value_types = [PValue, PException]"
definition void_types :: "ptype list" where "void_types = [PException, PFlag]"

definition notify_awaiters :: "('v, 'e) promise \<Rightarrow> ('v, 'e) promise" where
  "notify_awaiters p = p\<lparr>paw := aw_set (paw p)\<rparr>"

definition notify_all :: "('v, 'e) promise \<Rightarrow> ('v, 'e) promise" where
  "notify_all p = (if \<not> su_empty (pres p) then notify_awaiters p else p)"

text \<open>\<open>res_ = std::move(val)\<close>, and the notification.\<close>

definition prom_put :: "ptype list \<Rightarrow> ptype \<Rightarrow> ('v, 'e) pval \<Rightarrow> bool \<Rightarrow> ('v, 'e) promise \<Rightarrow> ('v, 'e) promise res" where
  "prom_put ts c x notify p = and_then (su_set ts c x (pres p)) (\<lambda>u.
     Inr (let p' = p\<lparr>pres := u\<rparr> in if notify then notify_awaiters p' else p'))"

definition exc_of :: "('v, 'e) pval \<Rightarrow> 'e res" where
  "exc_of x = (case x of PE e \<Rightarrow> Inr e | _ \<Rightarrow> Inl UB)"

definition val_of :: "('v, 'e) pval \<Rightarrow> 'v res" where
  "val_of x = (case x of PV v \<Rightarrow> Inr v | _ \<Rightarrow> Inl UB)"

record ('v, 'e) promise_ops =
  op_reset :: "('v, 'e) promise \<Rightarrow> ('v, 'e) promise res"
  op_set_value :: "'v \<Rightarrow> bool \<Rightarrow> ('v, 'e) promise \<Rightarrow> ('v, 'e) promise res"
  op_set_exception :: "'e \<Rightarrow> bool \<Rightarrow> ('v, 'e) promise \<Rightarrow> ('v, 'e) promise res"
  op_has_value :: "('v, 'e) promise \<Rightarrow> bool"
  op_has_exception :: "('v, 'e) promise \<Rightarrow> bool"
  op_get_exception :: "('v, 'e) promise \<Rightarrow> 'e res"
  op_get_value :: "('v, 'e) promise \<Rightarrow> 'v res"

text \<open>\<open>promise<ReturnType>\<close>: \<open>get_value\<close> reads the memory as a value, whatever it holds.\<close>

definition value_reset :: "('v, 'e) promise \<Rightarrow> ('v, 'e) promise res" where
  "value_reset p = Inr (p\<lparr>pres := su_reset (pres p), paw := aw_reset (paw p)\<rparr>)"

definition value_set_value :: "'v \<Rightarrow> bool \<Rightarrow> ('v, 'e) promise \<Rightarrow> ('v, 'e) promise res" where
  "value_set_value v notify p = prom_put value_types PValue (PV v) notify p"

definition value_set_exception :: "'e \<Rightarrow> bool \<Rightarrow> ('v, 'e) promise \<Rightarrow> ('v, 'e) promise res" where
  "value_set_exception e notify p = prom_put value_types PException (PE e) notify p"

definition value_has_value :: "('v, 'e) promise \<Rightarrow> bool" where
  "value_has_value p = su_has value_types PValue (pres p)"

definition value_has_exception :: "('v, 'e) promise \<Rightarrow> bool" where
  "value_has_exception p = su_has value_types PException (pres p)"

definition value_get_exception :: "('v, 'e) promise \<Rightarrow> 'e res" where
  "value_get_exception p = and_then (su_get value_types PException (pres p)) exc_of"

definition value_get_value :: "('v, 'e) promise \<Rightarrow> 'v res" where
  "value_get_value p = and_then (su_ref PValue (pres p)) val_of"

definition value_ops :: "('v, 'e) promise_ops" where
  "value_ops = \<lparr>op_reset = value_reset, op_set_value = value_set_value, op_set_exception = value_set_exception,
     op_has_value = value_has_value, op_has_exception = value_has_exception,
     op_get_exception = value_get_exception, op_get_value = value_get_value\<rparr>"

text \<open>\<open>promise<void>\<close>: a flag stands for the value, and \<open>reset\<close> sets it.\<close>

definition void_reset :: "(unit, 'e) promise \<Rightarrow> (unit, 'e) promise res" where
  "void_reset p = and_then (su_set void_types PFlag (PB False) (pres p)) (\<lambda>u. Inr (p\<lparr>pres := u, paw := aw_reset (paw p)\<rparr>))"

definition void_set_value :: "unit \<Rightarrow> bool \<Rightarrow> (unit, 'e) promise \<Rightarrow> (unit, 'e) promise res" where
  "void_set_value v notify p = prom_put void_types PFlag (PB True) notify p"

definition void_set_exception :: "'e \<Rightarrow> bool \<Rightarrow> (unit, 'e) promise \<Rightarrow> (unit, 'e) promise res" where
  "void_set_exception e notify p = prom_put void_types PException (PE e) notify p"

definition void_has_value :: "(unit, 'e) promise \<Rightarrow> bool" where
  "void_has_value p = su_has void_types PFlag (pres p)"

definition void_has_exception :: "(unit, 'e) promise \<Rightarrow> bool" where
  "void_has_exception p = su_has void_types PException (pres p)"

definition void_get_exception :: "(unit, 'e) promise \<Rightarrow> 'e res" where
  "void_get_exception p = and_then (su_get void_types PException (pres p)) exc_of"

definition void_ops :: "(unit, 'e) promise_ops" where
  "void_ops = \<lparr>op_reset = void_reset, op_set_value = void_set_value, op_set_exception = void_set_exception,
     op_has_value = void_has_value, op_has_exception = void_has_exception,
     op_get_exception = void_get_exception, op_get_value = (\<lambda>p. Inr ())\<rparr>"

section \<open>Functions and chains\<close>

record ('v, 'e, 'w) tstate =
  proms :: "nat \<Rightarrow> ('v, 'e) promise"
  world :: 'w

type_synonym ('v, 'e, 'w) outcome = "(('e + 'v) \<times> ('v, 'e, 'w) tstate) res option"

definition on_prom :: "nat \<Rightarrow> (('v, 'e) promise \<Rightarrow> ('v, 'e) promise res) \<Rightarrow> ('v, 'e, 'w) tstate \<Rightarrow> ('v, 'e, 'w) tstate res option" where
  "on_prom a f s = Some (and_then (f (proms s a)) (\<lambda>p. Inr (s\<lparr>proms := (proms s)(a := p)\<rparr>)))"

text \<open>\<open>task_context\<close>: \<open>is_success\<close> is true for every context that a function can see.\<close>

record task_context =
  cprom :: nat
  csuccess :: bool

definition ctx_new :: "nat \<Rightarrow> task_context" where
  "ctx_new a = \<lparr>cprom = a, csuccess = True\<rparr>"

definition ctx_result :: "('v, 'e) promise_ops \<Rightarrow> task_context \<Rightarrow> ('v, 'e, 'w) tstate \<Rightarrow> 'v res" where
  "ctx_result ops c s = op_get_value ops (proms s (cprom c))"

definition ctx_set_result :: "('v, 'e) promise_ops \<Rightarrow> 'v \<Rightarrow> task_context \<Rightarrow> ('v, 'e, 'w) tstate \<Rightarrow> ('v, 'e, 'w) tstate res option" where
  "ctx_set_result ops v c s = on_prom (cprom c) (op_set_value ops v False) s"

definition ctx_set_exception :: "('v, 'e) promise_ops \<Rightarrow> 'e \<Rightarrow> task_context \<Rightarrow> ('v, 'e, 'w) tstate \<Rightarrow> ('v, 'e, 'w) tstate res option" where
  "ctx_set_exception ops e c s = on_prom (cprom c) (op_set_exception ops e False) s"

text \<open>\<open>task_lambda_function::execute\<close>: the result of the function becomes the value of the promise, an exception is
  passed on.\<close>

definition lambda_execute :: "('v, 'e) promise_ops \<Rightarrow> (task_context \<Rightarrow> ('v, 'e, 'w) tstate \<Rightarrow> ('v, 'e, 'w) outcome) \<Rightarrow>
    task_context \<Rightarrow> ('v, 'e, 'w) tstate \<Rightarrow> (('e + unit) \<times> ('v, 'e, 'w) tstate) res option" where
  "lambda_execute ops f c s = run_bind (f c s) (\<lambda>(r, s'). case r of
       Inl e \<Rightarrow> Some (Inr (Inl e, s'))
     | Inr v \<Rightarrow> run_bind (ctx_set_result ops v c s') (\<lambda>s''. Some (Inr (Inr (), s''))))"

datatype 'f task_chain = TaskChain (work: "'f option") (next_chain: "'f task_chain option")

definition chain_none :: "'f task_chain" where "chain_none = TaskChain None None"
definition chain_of :: "'f \<Rightarrow> 'f task_chain" where "chain_of f = TaskChain (Some f) None"
definition chain_empty :: "'f task_chain \<Rightarrow> bool" where "chain_empty c \<longleftrightarrow> work c = None"

text \<open>\<open>chain\<close> puts a chain behind the last element, which \<open>tail\<close> finds.\<close>

fun chain_append :: "'f task_chain \<Rightarrow> 'f task_chain \<Rightarrow> 'f task_chain" where
  "chain_append (TaskChain w None) tc = TaskChain w (Some tc)"
| "chain_append (TaskChain w (Some n)) tc = TaskChain w (Some (chain_append n tc))"

type_synonym ('v, 'e, 'w) chain = "(task_context \<Rightarrow> ('v, 'e, 'w) tstate \<Rightarrow> ('v, 'e, 'w) outcome) task_chain"

definition execute_top :: "('v, 'e) promise_ops \<Rightarrow> ('v, 'e, 'w) chain \<Rightarrow> task_context \<Rightarrow> ('v, 'e, 'w) tstate \<Rightarrow>
    (('e + unit) \<times> ('v, 'e, 'w) tstate) res option" where
  "execute_top ops c ctx s = (case work c of None \<Rightarrow> Some (Inr (Inr (), s)) | Some f \<Rightarrow> lambda_execute ops f ctx s)"

section \<open>Closures and runners\<close>

text \<open>\<open>task_closure\<close>: an exception of a function ends up in the promise. \<open>next\<close> goes on to the next element.\<close>

definition closure_execute :: "('v, 'e) promise_ops \<Rightarrow> nat \<Rightarrow> ('v, 'e, 'w) chain \<Rightarrow> ('v, 'e, 'w) tstate \<Rightarrow> ('v, 'e, 'w) tstate res option" where
  "closure_execute ops a c s = (let ctx = ctx_new a in
     run_bind (execute_top ops c ctx s) (\<lambda>(r, s'). case r of
       Inl e \<Rightarrow> ctx_set_exception ops e ctx s'
     | Inr _ \<Rightarrow> Some (Inr s')))"

definition closure_next :: "'f task_chain option \<Rightarrow> bool \<times> 'f task_chain option" where
  "closure_next c = (case c of None \<Rightarrow> (False, None)
     | Some c' \<Rightarrow> (case next_chain c' of None \<Rightarrow> (False, None) | Some n \<Rightarrow> (True, Some n)))"

definition closure_complete :: "'e \<Rightarrow> ('v, 'e) promise_ops \<Rightarrow> nat \<Rightarrow> ('v, 'e, 'w) tstate \<Rightarrow> ('v, 'e, 'w) tstate res option" where
  "closure_complete empty_task ops a s =
     run_bind
       (if \<not> op_has_value ops (proms s a) \<and> \<not> op_has_exception ops (proms s a)
        then on_prom a (op_set_exception ops empty_task True) s else Some (Inr s))
       (\<lambda>s'. on_prom a (\<lambda>p. Inr (notify_all p)) s')"

lemma closure_next_chain: "closure_next (Some (TaskChain w n)) = (n \<noteq> None, n)"
  by (simp add: closure_next_def split: option.split)

text \<open>The loop of a worker of the thread pool (\<open>do execute while not stopped and next\<close>, then \<open>complete\<close>);
  \<open>stopped i\<close> is what it reads from the stop flag after the \<open>i\<close>-th function.\<close>

fun run_on_worker :: "'e \<Rightarrow> ('v, 'e) promise_ops \<Rightarrow> (nat \<Rightarrow> bool) \<Rightarrow> nat \<Rightarrow> nat \<Rightarrow> ('v, 'e, 'w) chain \<Rightarrow> ('v, 'e, 'w) tstate \<Rightarrow>
    ('v, 'e, 'w) tstate res option" where
  "run_on_worker ex ops stopped i a (TaskChain w n) s =
     run_bind (closure_execute ops a (TaskChain w n) s) (\<lambda>s'.
       if stopped i then closure_complete ex ops a s'
       else case n of None \<Rightarrow> closure_complete ex ops a s'
         | Some c \<Rightarrow> run_on_worker ex ops stopped (Suc i) a c s')"

text \<open>\<open>inline_task_runner::run\<close>.\<close>

fun inline_run :: "'e \<Rightarrow> ('v, 'e) promise_ops \<Rightarrow> nat \<Rightarrow> ('v, 'e, 'w) chain \<Rightarrow> ('v, 'e, 'w) tstate \<Rightarrow> ('v, 'e, 'w) tstate res option" where
  "inline_run ex ops a (TaskChain w n) s =
     run_bind (closure_execute ops a (TaskChain w n) s) (\<lambda>s'.
       case n of None \<Rightarrow> closure_complete ex ops a s' | Some c \<Rightarrow> inline_run ex ops a c s')"

section \<open>Tasks\<close>

record ('v, 'e, 'w) task =
  tprom :: nat
  tchain :: "('v, 'e, 'w) chain"

definition task_run :: "'e \<Rightarrow> ('v, 'e) promise_ops \<Rightarrow> ('v, 'e, 'w) task \<Rightarrow> ('v, 'e, 'w) tstate \<Rightarrow> ('v, 'e, 'w) tstate res option" where
  "task_run ex ops t s = run_bind (on_prom (tprom t) (op_reset ops) s) (inline_run ex ops (tprom t) (tchain t))"

definition future_wait :: "nat \<Rightarrow> ('v, 'e, 'w) tstate \<Rightarrow> unit res option" where
  "future_wait a s = map_option (\<lambda>_. Inr ()) (aw_wait (paw (proms s a)))"

text \<open>\<open>operator()\<close>: run, wait, then throw the exception or return the value.\<close>

definition task_call :: "'e \<Rightarrow> ('v, 'e) promise_ops \<Rightarrow> ('v, 'e, 'w) task \<Rightarrow> ('v, 'e, 'w) tstate \<Rightarrow> ('v, 'e, 'w) outcome" where
  "task_call ex ops t s = run_bind (task_run ex ops t s) (\<lambda>s'.
     run_bind (future_wait (tprom t) s') (\<lambda>_.
     let p = proms s' (tprom t) in
     Some (if op_has_exception ops p then and_then (op_get_exception ops p) (\<lambda>e. Inr (Inl e, s'))
           else and_then (op_get_value ops p) (\<lambda>v. Inr (Inr v, s')))))"

text \<open>A move takes the chain along, not the promise: the new task has a promise of its own, at \<open>a\<close>. The assignment
  keeps the promise of the target.\<close>

definition task_move_new :: "nat \<Rightarrow> ('v, 'e, 'w) task \<Rightarrow> ('v, 'e, 'w) task \<times> ('v, 'e, 'w) task" where
  "task_move_new a t = (\<lparr>tprom = a, tchain = tchain t\<rparr>, t\<lparr>tchain := chain_none\<rparr>)"

definition task_move_assign :: "('v, 'e, 'w) task \<Rightarrow> ('v, 'e, 'w) task \<Rightarrow> ('v, 'e, 'w) task \<times> ('v, 'e, 'w) task" where
  "task_move_assign u t = (u\<lparr>tchain := tchain t\<rparr>, t\<lparr>tchain := chain_none\<rparr>)"

text \<open>\<open>then\<close> with a function, on the chain.\<close>

definition chain_then :: "'f task_chain \<Rightarrow> 'f \<Rightarrow> 'f task_chain" where
  "chain_then c f = (if chain_empty c then chain_of f else chain_append c (chain_of f))"

definition then_fun :: "('v, 'e, 'w) task \<Rightarrow> (task_context \<Rightarrow> ('v, 'e, 'w) tstate \<Rightarrow> ('v, 'e, 'w) outcome) \<Rightarrow> ('v, 'e, 'w) task" where
  "then_fun t f = t\<lparr>tchain := chain_then (tchain t) f\<rparr>"

text \<open>\<open>then\<close> with a task: \<open>task::then(task &&)\<close> calls \<open>task_core::then\<close> with a \<open>task\<close>, for which
  overload resolution prefers the template: the task is wrapped as a function that calls it (by the
  global runner).\<close>

definition then_task :: "'e \<Rightarrow> ('v, 'e) promise_ops \<Rightarrow> ('v, 'e, 'w) task \<Rightarrow> ('v, 'e, 'w) task \<Rightarrow> ('v, 'e, 'w) task" where
  "then_task ex ops t t2 = then_fun t (\<lambda>_. task_call ex ops t2)"

text \<open>\<open>then\<close> with a \<open>task_core\<close> itself joins the chains.\<close>

definition then_core :: "('v, 'e, 'w) task \<Rightarrow> ('v, 'e, 'w) task \<Rightarrow> ('v, 'e, 'w) task \<times> ('v, 'e, 'w) task" where
  "then_core t t2 = (t\<lparr>tchain := (if chain_empty (tchain t) then tchain t2 else chain_append (tchain t) (tchain t2))\<rparr>,
     t2\<lparr>tchain := chain_none\<rparr>)"

section \<open>The interface of promises\<close>

text \<open>What a task sees of a promise: its content, and the laws of the operations.\<close>

locale promise_class =
  fixes ops :: "('v, 'e) promise_ops"
    and ok :: "('v, 'e) promise \<Rightarrow> bool"
    and content :: "('v, 'e) promise \<Rightarrow> ('e + 'v) option"
    and initial :: "('e + 'v) option"
  assumes reset: "ok p \<Longrightarrow> \<exists>p'. op_reset ops p = Inr p' \<and> ok p' \<and> content p' = initial"
    and set_value: "ok p \<Longrightarrow> \<exists>p'. op_set_value ops v n p = Inr p' \<and> ok p' \<and> content p' = Some (Inr v)"
    and set_exception: "ok p \<Longrightarrow> \<exists>p'. op_set_exception ops e n p = Inr p' \<and> ok p' \<and> content p' = Some (Inl e)"
    and has_value: "ok p \<Longrightarrow> op_has_value ops p \<longleftrightarrow> (\<exists>v. content p = Some (Inr v))"
    and has_exception: "ok p \<Longrightarrow> op_has_exception ops p \<longleftrightarrow> (\<exists>e. content p = Some (Inl e))"
    and get_exception: "ok p \<Longrightarrow> content p = Some (Inl e) \<Longrightarrow> op_get_exception ops p = Inr e"
    and get_value: "ok p \<Longrightarrow> content p = Some (Inr v) \<Longrightarrow> op_get_value ops p = Inr v"
    and notify: "ok p \<Longrightarrow> content p \<noteq> None \<Longrightarrow> ok (notify_all p) \<and> content (notify_all p) = content p \<and> paw (notify_all p)"

text \<open>A function acts as \<open>g\<close> when, on states whose promises are well formed, it does what \<open>g\<close> says of the content
  of its promise and of the world; it may change the promises of \<open>D\<close> (of the tasks it runs).\<close>

definition all_ok :: "(('v, 'e) promise \<Rightarrow> bool) \<Rightarrow> ('v, 'e, 'w) tstate \<Rightarrow> bool" where
  "all_ok ok s \<longleftrightarrow> (\<forall>a. ok (proms s a))"

definition changes :: "nat set \<Rightarrow> ('v, 'e, 'w) tstate \<Rightarrow> ('v, 'e, 'w) tstate \<Rightarrow> bool" where
  "changes D s s' \<longleftrightarrow> (\<forall>b. b \<notin> D \<longrightarrow> proms s' b = proms s b)"

type_synonym ('v, 'e, 'w) action = "('e + 'v) option \<Rightarrow> 'w \<Rightarrow> (('e + 'v) \<times> 'w) res"

definition acts :: "(('v, 'e) promise \<Rightarrow> bool) \<Rightarrow> (('v, 'e) promise \<Rightarrow> ('e + 'v) option) \<Rightarrow> nat set \<Rightarrow> nat \<Rightarrow>
    (task_context \<Rightarrow> ('v, 'e, 'w) tstate \<Rightarrow> ('v, 'e, 'w) outcome) \<Rightarrow> ('v, 'e, 'w) action \<Rightarrow> bool" where
  "acts ok content D a f g \<longleftrightarrow> (\<forall>s r w'. all_ok ok s \<longrightarrow> g (content (proms s a)) (world s) = Inr (r, w') \<longrightarrow>
     (\<exists>s'. f (ctx_new a) s = Some (Inr (r, s')) \<and> all_ok ok s' \<and> world s' = w' \<and> changes D s s'))"

fun works :: "'f task_chain \<Rightarrow> 'f option list" where
  "works (TaskChain w None) = [w]"
| "works (TaskChain w (Some n)) = w # works n"

text \<open>A run of the actions one after the other: each sees the outcome of the one before, the last one counts.\<close>

fun spec_run :: "('v, 'e, 'w) action option list \<Rightarrow> ('e + 'v) option \<Rightarrow> 'w \<Rightarrow> (('e + 'v) option \<times> 'w) res" where
  "spec_run [] c w = Inr (c, w)"
| "spec_run (None # gs) c w = spec_run gs c w"
| "spec_run (Some g # gs) c w = and_then (g c w) (\<lambda>(r, w'). spec_run gs (Some r) w')"

definition outcome_of :: "'e \<Rightarrow> ('e + 'v) option \<Rightarrow> 'e + 'v" where
  "outcome_of ex c = (case c of None \<Rightarrow> Inl ex | Some r \<Rightarrow> r)"

lemma changes_refl [simp]: "changes D s s" by (simp add: changes_def)

lemma changes_trans: "changes D s s1 \<Longrightarrow> changes D s1 s2 \<Longrightarrow> changes D s s2" by (simp add: changes_def)

lemma changes_mono: "changes D s s' \<Longrightarrow> D \<subseteq> E \<Longrightarrow> changes E s s'" by (auto simp: changes_def)

lemma works_neq [simp]: "works c \<noteq> []" by (cases c rule: works.cases) auto

context promise_class
begin

text \<open>An operation of the promise \<open>a\<close> that is defined leaves a good state that differs there only.\<close>

lemma on_prom_ok:
  assumes "all_ok ok s" "\<exists>p. f (proms s a) = Inr p \<and> ok p \<and> content p = c"
  shows "\<exists>s'. on_prom a f s = Some (Inr s') \<and> all_ok ok s' \<and> world s' = world s \<and> changes {a} s s' \<and> content (proms s' a) = c"
proof -
  from assms(2) obtain p where "f (proms s a) = Inr p" "ok p" "content p = c" by blast
  then show ?thesis using assms(1)
    by (intro exI[of _ "s\<lparr>proms := (proms s)(a := p)\<rparr>"]) (auto simp: on_prom_def all_ok_def changes_def)
qed

lemma closure_execute_ok:
  assumes "all_ok ok s" "rel_option (acts ok content D a) (work c) g"
    "spec_run [g] (content (proms s a)) (world s) = Inr (r, w')"
  shows "\<exists>s'. closure_execute ops a c s = Some (Inr s') \<and> all_ok ok s' \<and> world s' = w' \<and> changes (insert a D) s s' \<and> content (proms s' a) = r"
proof (cases g)
  case None
  then show ?thesis using assms by (intro exI[of _ s]) (simp add: closure_execute_def execute_top_def Let_def)
next
  case (Some g0)
  with assms(2) obtain f where f: "work c = Some f" "acts ok content D a f g0" by (cases "work c") auto
  from assms(3) Some obtain r0 where r0: "g0 (content (proms s a)) (world s) = Inr (r0, w')" "r = Some r0"
    by (auto simp: and_then_eq_Inr)
  from f(2) assms(1) r0(1) obtain s1 where s1: "f (ctx_new a) s = Some (Inr (r0, s1))" "all_ok ok s1" "world s1 = w'" "changes D s s1"
    unfolding acts_def by blast
  have ok1: "ok (proms s1 a)" using s1(2) by (simp add: all_ok_def)
  have "\<exists>s'. closure_execute ops a c s = Some (Inr s') \<and> all_ok ok s' \<and> world s' = world s1 \<and> changes {a} s1 s' \<and> content (proms s' a) = Some r0"
  proof (cases r0)
    case (Inl e)
    from on_prom_ok[where f = "op_set_exception ops e False", OF s1(2) set_exception[OF ok1]] show ?thesis
      using Inl s1(1) by (simp add: closure_execute_def execute_top_def lambda_execute_def f(1) ctx_set_exception_def Let_def)
        (simp add: ctx_new_def)
  next
    case (Inr v)
    from on_prom_ok[where f = "op_set_value ops v False", OF s1(2) set_value[OF ok1]] obtain s' where
      "on_prom a (op_set_value ops v False) s1 = Some (Inr s')" "all_ok ok s'" "world s' = world s1" "changes {a} s1 s'"
      "content (proms s' a) = Some (Inr v)" by blast
    then show ?thesis using Inr s1(1)
      by (simp add: closure_execute_def execute_top_def lambda_execute_def f(1) ctx_set_result_def Let_def)
        (simp add: ctx_new_def)
  qed
  then obtain s' where s': "closure_execute ops a c s = Some (Inr s')" "all_ok ok s'" "world s' = w'" "changes {a} s1 s'" "content (proms s' a) = r"
    using s1(3) r0(2) by auto
  moreover have "changes (insert a D) s s'"
    by (rule changes_trans[OF changes_mono[OF s1(4)] changes_mono[OF s'(4)]]) auto
  ultimately show ?thesis by blast
qed

lemma closure_complete_ok:
  assumes "all_ok ok s"
  shows "\<exists>s'. closure_complete ex ops a s = Some (Inr s') \<and> all_ok ok s' \<and> world s' = world s \<and> changes {a} s s' \<and>
    content (proms s' a) = Some (outcome_of ex (content (proms s a))) \<and> paw (proms s' a)"
proof -
  let ?m = "if \<not> op_has_value ops (proms s a) \<and> \<not> op_has_exception ops (proms s a)
        then on_prom a (op_set_exception ops ex True) s else Some (Inr s)"
  have oka: "ok (proms s a)" using assms by (simp add: all_ok_def)
  have "\<exists>s'. ?m = Some (Inr s') \<and> all_ok ok s' \<and> world s' = world s \<and> changes {a} s s' \<and>
      content (proms s' a) = Some (outcome_of ex (content (proms s a)))"
  proof (cases "content (proms s a)")
    case None
    then have "?m = on_prom a (op_set_exception ops ex True) s" using has_value[OF oka] has_exception[OF oka] by simp
    with on_prom_ok[where f = "op_set_exception ops ex True", OF assms set_exception[OF oka]] None
    show ?thesis by (simp add: outcome_of_def)
  next
    case (Some r)
    then have "op_has_value ops (proms s a) \<or> op_has_exception ops (proms s a)"
      using has_value[OF oka] has_exception[OF oka] by (cases r) auto
    then have "?m = Some (Inr s)" by auto
    with assms Some show ?thesis by (simp add: outcome_of_def)
  qed
  then obtain s1 where s1: "?m = Some (Inr s1)" "all_ok ok s1" "world s1 = world s" "changes {a} s s1"
    "content (proms s1 a) = Some (outcome_of ex (content (proms s a)))" by blast
  have "ok (proms s1 a)" using s1(2) by (simp add: all_ok_def)
  with notify[of "proms s1 a"] s1(5) have n: "ok (notify_all (proms s1 a))"
    "content (notify_all (proms s1 a)) = Some (outcome_of ex (content (proms s a)))" "paw (notify_all (proms s1 a))" by auto
  show ?thesis unfolding closure_complete_def s1(1) using s1 n assms
    by (intro exI[of _ "s1\<lparr>proms := (proms s1)(a := notify_all (proms s1 a))\<rparr>"])
      (auto simp: on_prom_def all_ok_def changes_def)
qed

lemma inline_run_ok:
  assumes "all_ok ok s" "list_all2 (rel_option (acts ok content D a)) (works c) gs"
    "spec_run gs (content (proms s a)) (world s) = Inr (r, w')"
  shows "\<exists>s'. inline_run ex ops a c s = Some (Inr s') \<and> all_ok ok s' \<and> world s' = w' \<and> changes (insert a D) s s' \<and>
    content (proms s' a) = Some (outcome_of ex r) \<and> paw (proms s' a)"
  using assms
proof (induction c arbitrary: s gs rule: works.induct)
  case (1 w)
  then obtain g where g: "gs = [g]" "rel_option (acts ok content D a) w g" by (auto simp: list_all2_Cons1)
  with closure_execute_ok[of s D a "TaskChain w None" g r w'] 1 obtain s1 where
    s1: "closure_execute ops a (TaskChain w None) s = Some (Inr s1)" "all_ok ok s1" "world s1 = w'" "changes (insert a D) s s1" "content (proms s1 a) = r"
    by auto
  from closure_complete_ok[OF s1(2), of ex a] obtain s2 where
    s2: "closure_complete ex ops a s1 = Some (Inr s2)" "all_ok ok s2" "world s2 = w'" "changes {a} s1 s2"
      "content (proms s2 a) = Some (outcome_of ex r)" "paw (proms s2 a)" using s1 by auto
  moreover have "changes (insert a D) s s2" by (rule changes_trans[OF s1(4) changes_mono[OF s2(4)]]) simp
  ultimately show ?case using s1(1) by simp
next
  case (2 w n)
  then obtain g gs' where g: "gs = g # gs'" "rel_option (acts ok content D a) w g" "list_all2 (rel_option (acts ok content D a)) (works n) gs'"
    by (auto simp: list_all2_Cons1)
  have "\<exists>r1 w1. spec_run [g] (content (proms s a)) (world s) = Inr (r1, w1) \<and> spec_run gs' r1 w1 = Inr (r, w')"
    using "2.prems"(3) g(1) by (cases g) (auto simp: and_then_eq_Inr)
  then obtain r1 w1 where r1: "spec_run [g] (content (proms s a)) (world s) = Inr (r1, w1)" "spec_run gs' r1 w1 = Inr (r, w')" by blast
  with closure_execute_ok[of s D a "TaskChain w (Some n)" g r1 w1] g(2) "2.prems"(1) obtain s1 where
    s1: "closure_execute ops a (TaskChain w (Some n)) s = Some (Inr s1)" "all_ok ok s1" "world s1 = w1" "changes (insert a D) s s1" "content (proms s1 a) = r1"
    by auto
  from "2.IH"[OF s1(2) g(3)] r1(2) s1 obtain s2 where
    s2: "inline_run ex ops a n s1 = Some (Inr s2)" "all_ok ok s2" "world s2 = w'" "changes (insert a D) s1 s2"
      "content (proms s2 a) = Some (outcome_of ex r)" "paw (proms s2 a)" by auto
  with s1 changes_trans[OF s1(4) s2(4)] show ?case by simp
qed

lemma task_call_ok:
  assumes "all_ok ok s" "list_all2 (rel_option (acts ok content D (tprom t))) (works (tchain t)) gs"
    "spec_run gs initial (world s) = Inr (r, w')"
  shows "\<exists>s'. task_call ex ops t s = Some (Inr (outcome_of ex r, s')) \<and> all_ok ok s' \<and> world s' = w' \<and> changes (insert (tprom t) D) s s'"
proof -
  let ?a = "tprom t"
  have "ok (proms s ?a)" using assms(1) by (simp add: all_ok_def)
  from on_prom_ok[where f = "op_reset ops", OF assms(1) reset[OF this]] obtain s1 where
    s1: "on_prom ?a (op_reset ops) s = Some (Inr s1)" "all_ok ok s1" "world s1 = world s" "changes {?a} s s1" "content (proms s1 ?a) = initial"
    by blast
  from inline_run_ok[OF s1(2) assms(2), of r w' ex] assms(3) s1 obtain s2 where
    s2: "inline_run ex ops ?a (tchain t) s1 = Some (Inr s2)" "all_ok ok s2" "world s2 = w'" "changes (insert ?a D) s1 s2"
      "content (proms s2 ?a) = Some (outcome_of ex r)" "paw (proms s2 ?a)" by auto
  have ok2: "ok (proms s2 ?a)" using s2(2) by (simp add: all_ok_def)
  have c: "changes (insert ?a D) s s2" by (rule changes_trans[OF changes_mono[OF s1(4)] s2(4)]) simp
  have run: "task_run ex ops t s = Some (Inr s2)" "future_wait ?a s2 = Some (Inr ())"
    using s1(1) s2(1,6) by (simp_all add: task_run_def future_wait_def)
  show ?thesis
  proof (cases "outcome_of ex r")
    case (Inl e)
    then show ?thesis using run s2 c has_exception[OF ok2] get_exception[OF ok2, of e] by (simp add: task_call_def Let_def)
  next
    case (Inr v)
    then show ?thesis using run s2 c has_exception[OF ok2] get_value[OF ok2, of v] by (simp add: task_call_def Let_def)
  qed
qed

text \<open>A task that is run as a function of another chain acts by its own actions, from its own start.\<close>

lemma nested_acts:
  fixes t :: "('v, 'e, 'w) task"
  assumes "list_all2 (rel_option (acts ok content D (tprom t))) (works (tchain t)) gs"
  shows "acts ok content (insert (tprom t) D) a (\<lambda>_. task_call ex ops t)
    (\<lambda>_ w. and_then (spec_run gs initial w) (\<lambda>(r, w'). Inr (outcome_of ex r, w')))"
  unfolding acts_def
proof (intro allI impI)
  fix s :: "('v, 'e, 'w) tstate" and r w'
  assume "all_ok ok s" "and_then (spec_run gs initial (world s)) (\<lambda>(r, w'). Inr (outcome_of ex r, w')) = Inr (r, w')"
  then show "\<exists>s'. task_call ex ops t s = Some (Inr (r, s')) \<and> all_ok ok s' \<and> world s' = w' \<and> changes (insert (tprom t) D) s s'"
    using task_call_ok[OF _ assms, of s _ _ ex] by (auto simp: and_then_eq_Inr)
qed

end

section \<open>The two classes of promises\<close>

fun value_shape :: "ptype \<times> ('v, 'e) pval \<Rightarrow> bool" where
  "value_shape (PValue, PV v) = True"
| "value_shape (PException, PE e) = True"
| "value_shape _ = False"

fun void_shape :: "ptype \<times> (unit, 'e) pval \<Rightarrow> bool" where
  "void_shape (PException, PE e) = True"
| "void_shape (PFlag, PB b) = True"
| "void_shape _ = False"

fun shape_content :: "ptype \<times> ('v, 'e) pval \<Rightarrow> 'e + 'v" where
  "shape_content (_, PE e) = Inl e"
| "shape_content (_, PV v) = Inr v"
| "shape_content (_, PB b) = Inr undefined"

definition value_ok :: "('v, 'e) promise \<Rightarrow> bool" where
  "value_ok p \<longleftrightarrow> su_ok value_types (pres p) \<and> pred_option value_shape (su_view (pres p))"

definition void_ok :: "(unit, 'e) promise \<Rightarrow> bool" where
  "void_ok p \<longleftrightarrow> su_ok void_types (pres p) \<and> pred_option void_shape (su_view (pres p))"

definition content :: "('v, 'e) promise \<Rightarrow> ('e + 'v) option" where
  "content p = map_option shape_content (su_view (pres p))"

lemma promise_types_ok: "types_ok value_types" "types_ok void_types"
  by (simp_all add: types_ok_def value_types_def void_types_def)

lemma promise_types_set [simp]: "PValue \<in> set value_types" "PException \<in> set value_types"
    "PException \<in> set void_types" "PFlag \<in> set void_types"
  by (simp_all add: value_types_def void_types_def)

lemma notify_pres [simp]: "pres (notify_awaiters p) = pres p" "pres (notify_all p) = pres p"
  by (simp_all add: notify_awaiters_def notify_all_def)

lemma prom_put_ok:
  assumes "types_ok ts" "su_ok ts (pres p)" "c \<in> set ts"
  shows "\<exists>p'. prom_put ts c x n p = Inr p' \<and> su_ok ts (pres p') \<and> su_view (pres p') = Some (c, x)"
proof -
  obtain u where "su_set ts c x (pres p) = Inr u" "su_ok ts u" "su_view u = Some (c, x)"
    by (rule su_set_ok[OF assms])
  then show ?thesis by (auto simp: prom_put_def Let_def)
qed

lemma paw_notify_all: "types_ok ts \<Longrightarrow> su_ok ts (pres p) \<Longrightarrow> su_view (pres p) \<noteq> None \<Longrightarrow> paw (notify_all p)"
  using su_empty_view[of ts "pres p"] by (simp add: notify_all_def notify_awaiters_def)

lemmas promise_view = su_has_view[OF promise_types_ok(1)] su_has_view[OF promise_types_ok(2)] su_get_view

lemma value_shape_cases:
  "value_shape x \<Longrightarrow> (\<And>v. x = (PValue, PV v) \<Longrightarrow> P) \<Longrightarrow> (\<And>e. x = (PException, PE e) \<Longrightarrow> P) \<Longrightarrow> P"
  by (cases x rule: value_shape.cases) auto

lemma void_shape_cases:
  "void_shape x \<Longrightarrow> (\<And>e. x = (PException, PE e) \<Longrightarrow> P) \<Longrightarrow> (\<And>b. x = (PFlag, PB b) \<Longrightarrow> P) \<Longrightarrow> P"
  by (cases x rule: void_shape.cases) auto

lemma value_okE:
  assumes "value_ok p"
  obtains "su_view (pres p) = None" "content p = None"
    | v where "su_view (pres p) = Some (PValue, PV v)" "content p = Some (Inr v)"
    | e where "su_view (pres p) = Some (PException, PE e)" "content p = Some (Inl e)"
  using assms by (cases "su_view (pres p)") (auto simp: value_ok_def content_def elim!: value_shape_cases)

lemma void_okE:
  assumes "void_ok p"
  obtains "su_view (pres p) = None" "content p = None"
    | b where "su_view (pres p) = Some (PFlag, PB b)" "content p = Some (Inr ())"
    | e where "su_view (pres p) = Some (PException, PE e)" "content p = Some (Inl e)"
  using assms by (cases "su_view (pres p)") (auto simp: void_ok_def content_def elim!: void_shape_cases)

lemma value_put_ok:
  "value_ok p \<Longrightarrow> value_shape (c, x) \<Longrightarrow>
     \<exists>p'. prom_put value_types c x n p = Inr p' \<and> value_ok p' \<and> content p' = Some (shape_content (c, x))"
  using prom_put_ok[OF promise_types_ok(1), of p c x n]
  by (fastforce simp: value_ok_def content_def elim!: value_shape_cases)

lemma void_put_ok:
  "void_ok p \<Longrightarrow> void_shape (c, x) \<Longrightarrow>
     \<exists>p'. prom_put void_types c x n p = Inr p' \<and> void_ok p' \<and> content p' = Some (shape_content (c, x))"
  using prom_put_ok[OF promise_types_ok(2), of p c x n]
  by (fastforce simp: void_ok_def content_def elim!: void_shape_cases)

lemma void_reset_ok: "void_ok p \<Longrightarrow> \<exists>p'. void_reset p = Inr p' \<and> void_ok p' \<and> content p' = Some (Inr ())"
  using su_set_ok[OF promise_types_ok(2), of "pres p" PFlag "PB False"]
  by (fastforce simp: void_ok_def content_def void_reset_def)

interpretation vprom: promise_class value_ops value_ok content None
proof (unfold_locales, goal_cases)
  case (1 p)
  then show ?case by (simp add: value_ops_def value_reset_def value_ok_def content_def su_reset_ok)
next
  case (2 p v n)
  then show ?case using value_put_ok[of p PValue "PV v" n] by (simp add: value_ops_def value_set_value_def)
next
  case (3 p e n)
  then show ?case using value_put_ok[of p PException "PE e" n] by (simp add: value_ops_def value_set_exception_def)
next
  case (4 p)
  then have "su_ok value_types (pres p)" by (simp add: value_ok_def)
  with 4 show ?case
    by (cases rule: value_okE) (auto simp: value_ops_def value_has_value_def promise_view)
next
  case (5 p)
  then have "su_ok value_types (pres p)" by (simp add: value_ok_def)
  with 5 show ?case
    by (cases rule: value_okE) (auto simp: value_ops_def value_has_exception_def promise_view)
next
  case (6 p e)
  from 6(1) show ?case using 6(2)
    by (cases rule: value_okE) (auto simp: value_ops_def value_get_exception_def promise_view(3) exc_of_def)
next
  case (7 p v)
  from 7(1) show ?case using 7(2)
    by (cases rule: value_okE) (auto simp: value_ops_def value_get_value_def promise_view(4)[of PValue value_types] val_of_def)
next
  case (8 p)
  then show ?case using paw_notify_all[OF promise_types_ok(1), of p] by (auto simp: value_ok_def content_def)
qed

interpretation uprom: promise_class void_ops void_ok content "Some (Inr ())"
proof (unfold_locales, goal_cases)
  case (1 p)
  then show ?case using void_reset_ok by (simp add: void_ops_def)
next
  case (2 p v n)
  then show ?case using void_put_ok[of p PFlag "PB True" n] by (auto simp: void_ops_def void_set_value_def)
next
  case (3 p e n)
  then show ?case using void_put_ok[of p PException "PE e" n] by (simp add: void_ops_def void_set_exception_def)
next
  case (4 p)
  then have "su_ok void_types (pres p)" by (simp add: void_ok_def)
  with 4 show ?case
    by (cases rule: void_okE) (auto simp: void_ops_def void_has_value_def promise_view)
next
  case (5 p)
  then have "su_ok void_types (pres p)" by (simp add: void_ok_def)
  with 5 show ?case
    by (cases rule: void_okE) (auto simp: void_ops_def void_has_exception_def promise_view)
next
  case (6 p e)
  from 6(1) show ?case using 6(2)
    by (cases rule: void_okE) (auto simp: void_ops_def void_get_exception_def promise_view(3) exc_of_def)
next
  case (7 p v)
  then show ?case by (simp add: void_ops_def)
next
  case (8 p)
  then show ?case using paw_notify_all[OF promise_types_ok(2), of p] by (auto simp: void_ok_def content_def)
qed

section \<open>Running tasks\<close>

text \<open>A task whose functions act as \<open>gs\<close> does what \<open>gs\<close> do one after the other, from the content that \<open>op_reset\<close> leaves.\<close>

lemma void_call_outcome:
  assumes "all_ok void_ok s" "list_all2 (rel_option (acts void_ok content D (tprom t))) (works (tchain t)) gs"
    "spec_run gs (Some (Inr ())) (world s) = Inr (r, w')"
  shows "\<exists>s'. task_call ex void_ops t s = Some (Inr (outcome_of ex r, s')) \<and> all_ok void_ok s' \<and> world s' = w'"
  using uprom.task_call_ok[OF assms] by blast

lemma empty_call:
  "all_ok value_ok s \<Longrightarrow> \<exists>s'. task_call ex value_ops \<lparr>tprom = a, tchain = chain_none\<rparr> s = Some (Inr (Inl ex, s')) \<and> world s' = world s"
  "all_ok void_ok s2 \<Longrightarrow> \<exists>s'. task_call ex void_ops \<lparr>tprom = a, tchain = chain_none\<rparr> s2 = Some (Inr (Inr (), s')) \<and> world s' = world s2"
  using vprom.task_call_ok[of s "{}" "\<lparr>tprom = a, tchain = chain_none\<rparr>" "[None]" None "world s" ex]
    void_call_outcome[of s2 "{}" "\<lparr>tprom = a, tchain = chain_none\<rparr>" "[None]" "Some (Inr ())" "world s2" ex]
  by (auto simp: chain_none_def outcome_of_def)

text \<open>C22: Calling a task, of a type of values or of \<^verbatim>\<open>void\<close>, runs its functions in order, each seeing the outcome of the one before it,
  and returns or throws the outcome of the last one; an exception of an earlier function is overwritten. An empty
  task of a type of values throws; one of \<^verbatim>\<open>void\<close> returns, since \<open>reset\<close> has set the flag that stands for its value.\<close>

theorem task_call_outcome:
  "(all_ok value_ok s \<and> list_all2 (rel_option (acts value_ok content D (tprom t))) (works (tchain t)) gs \<and>
      spec_run gs None (world s) = Inr (r, w') \<longrightarrow>
      (\<exists>s'. task_call ex value_ops t s = Some (Inr (outcome_of ex r, s')) \<and> all_ok value_ok s' \<and> world s' = w')) \<and>
   (all_ok void_ok s2 \<and> list_all2 (rel_option (acts void_ok content D (tprom t2))) (works (tchain t2)) gs2 \<and>
      spec_run gs2 (Some (Inr ())) (world s2) = Inr (r2, w2) \<longrightarrow>
      (\<exists>s'. task_call ex void_ops t2 s2 = Some (Inr (outcome_of ex r2, s')) \<and> all_ok void_ok s' \<and> world s' = w2)) \<and>
   (all_ok value_ok s \<longrightarrow> (\<exists>s'. task_call ex value_ops \<lparr>tprom = a, tchain = chain_none\<rparr> s = Some (Inr (Inl ex, s')) \<and> world s' = world s)) \<and>
   (all_ok void_ok s2 \<longrightarrow> (\<exists>s'. task_call ex void_ops \<lparr>tprom = a, tchain = chain_none\<rparr> s2 = Some (Inr (Inr (), s')) \<and> world s' = world s2))"
  using vprom.task_call_ok[of s D t gs r w' ex] void_call_outcome[of s2 D t2 gs2 r2 w2 ex] empty_call(1)[of s ex a] empty_call(2)[of s2 ex a]
  by blast

text \<open>Two functions: the first returns 20 or throws, the second adds one to the result of the first or returns 7.\<close>

definition ret :: "'v \<Rightarrow> task_context \<Rightarrow> ('v, 'e, 'w) tstate \<Rightarrow> ('v, 'e, 'w) outcome" where
  "ret v c s = Some (Inr (Inr v, s))"

definition throw :: "'e \<Rightarrow> task_context \<Rightarrow> ('v, 'e, 'w) tstate \<Rightarrow> ('v, 'e, 'w) outcome" where
  "throw e c s = Some (Inr (Inl e, s))"

definition succ_result :: "task_context \<Rightarrow> (nat, 'e, 'w) tstate \<Rightarrow> (nat, 'e, 'w) outcome" where
  "succ_result c s = Some (and_then (ctx_result value_ops c s) (\<lambda>v. Inr (Inr (v + 1), s)))"

lemma ret_acts: "acts ok cont D a (ret v) (\<lambda>_ w. Inr (Inr v, w))"
  by (simp add: acts_def ret_def)

lemma throw_acts: "acts ok cont D a (throw e) (\<lambda>_ w. Inr (Inl e, w))"
  by (simp add: acts_def throw_def)

lemma succ_acts: "acts value_ok content D a succ_result (\<lambda>c w. case c of Some (Inr v) \<Rightarrow> Inr (Inr (v + 1), w) | _ \<Rightarrow> Inl UB)"
  by (auto simp: acts_def succ_result_def ctx_result_def ctx_new_def all_ok_def vprom.get_value split: option.splits sum.splits)

lemma all_ok_new: "all_ok value_ok \<lparr>proms = \<lambda>_. prom_new, world = w\<rparr>" "all_ok void_ok \<lparr>proms = \<lambda>_. prom_new, world = w\<rparr>"
  by (simp_all add: all_ok_def value_ok_def void_ok_def prom_new_def)

lemma works_append: "works (chain_append c d) = works c @ works d"
  by (induction c d rule: chain_append.induct) auto

lemma works_then: "works (chain_then c f) = (if chain_empty c then [Some f] else works c @ [Some f])"
  by (simp add: chain_then_def works_append chain_of_def)

theorem task_call_outcome_witness:
  "\<exists>s'. task_call ''empty'' value_ops \<lparr>tprom = 0, tchain = chain_then (chain_of (ret 20)) succ_result\<rparr>
     \<lparr>proms = \<lambda>_. prom_new, world = 5 :: nat\<rparr> = Some (Inr (Inr 21, s'))"
proof -
  let ?t = "\<lparr>tprom = 0, tchain = chain_then (chain_of (ret 20)) succ_result\<rparr>"
  let ?gs = "[Some (\<lambda>_ w. Inr (Inr 20, w)), Some (\<lambda>c w. case c of Some (Inr v) \<Rightarrow> Inr (Inr (v + 1 :: nat), w) | _ \<Rightarrow> Inl UB)]"
  have "list_all2 (rel_option (acts value_ok content {} (tprom ?t))) (works (tchain ?t)) ?gs"
    by (simp add: works_then chain_empty_def chain_of_def ret_acts succ_acts)
  with task_call_outcome[THEN conjunct1, of "\<lparr>proms = \<lambda>_. prom_new, world = 5 :: nat\<rparr>" "{}" ?t ?gs "Some (Inr 21)" 5 "''empty''"]
  show ?thesis by (simp add: outcome_of_def all_ok_new) blast
qed

text \<open>A function that throws in the middle does not stop the chain, and its exception is lost.\<close>

lemma task_exception_lost:
  assumes "all_ok value_ok s"
  shows "\<exists>s'. task_call ex value_ops \<lparr>tprom = 0, tchain = chain_then (chain_of (throw e)) (ret v)\<rparr> s = Some (Inr (Inr v, s'))"
proof -
  let ?t = "\<lparr>tprom = 0, tchain = chain_then (chain_of (throw e)) (ret v)\<rparr>"
  let ?gs = "[Some (\<lambda>_ w. Inr (Inl e, w)), Some (\<lambda>_ w. Inr (Inr v, w))]"
  have "list_all2 (rel_option (acts value_ok content {} (tprom ?t))) (works (tchain ?t)) ?gs"
    by (simp add: works_then chain_empty_def chain_of_def ret_acts throw_acts)
  from vprom.task_call_ok[OF assms this, of "Some (Inr v)" "world s" ex]
  show ?thesis by (simp add: outcome_of_def) blast
qed

text \<open>\<open>then\<close> with a task runs that task, from its own start and through its own promise, after the functions of
  the first one; the outcome is the outcome of the second task.\<close>

theorem task_then_task:
  assumes "all_ok value_ok s" "\<not> chain_empty (tchain t)"
    "list_all2 (rel_option (acts value_ok content D (tprom t))) (works (tchain t)) gs"
    "list_all2 (rel_option (acts value_ok content D (tprom t2))) (works (tchain t2)) gs2"
    "spec_run gs None (world s) = Inr (r, w1)" "spec_run gs2 None w1 = Inr (r2, w2)"
  shows "\<exists>s'. task_call ex value_ops (then_task ex value_ops t t2) s = Some (Inr (outcome_of ex r2, s')) \<and> world s' = w2"
proof -
  let ?D = "insert (tprom t2) D"
  let ?g = "\<lambda>_ w. and_then (spec_run gs2 None w) (\<lambda>(r, w'). Inr (outcome_of ex r, w'))"
  have mono: "acts value_ok content ?D a f g" if "acts value_ok content D a f g" for a f g
    using that changes_mono[of D _ _ ?D] unfolding acts_def by blast
  have "list_all2 (rel_option (acts value_ok content ?D (tprom t))) (works (tchain t)) gs"
    by (rule list_all2_mono[OF assms(3)]) (auto intro: option.rel_mono_strong mono)
  then have l: "list_all2 (rel_option (acts value_ok content ?D (tprom t))) (works (tchain (then_task ex value_ops t t2))) (gs @ [Some ?g])"
    using assms(2) vprom.nested_acts[OF assms(4)]
    by (simp add: then_task_def then_fun_def works_then list_all2_appendI)
  have spec: "spec_run (gs @ hs) c w = and_then (spec_run gs c w) (\<lambda>(r, w'). spec_run hs r w')" for hs c w
    by (induction gs c w rule: spec_run.induct) (auto simp: and_then_def split: sum.splits)
  have "spec_run (gs @ [Some ?g]) None (world s) = Inr (Some (outcome_of ex r2), w2)"
    by (simp add: spec assms(5,6))
  moreover have "tprom (then_task ex value_ops t t2) = tprom t" by (simp add: then_task_def then_fun_def)
  ultimately show ?thesis
    using vprom.task_call_ok[OF assms(1), of ?D "then_task ex value_ops t t2" "gs @ [Some ?g]" "Some (outcome_of ex r2)" w2 ex] l
    by (auto simp: outcome_of_def)
qed

theorem task_then_task_witness:
  "\<exists>s'. task_call ''empty'' value_ops
      (then_task ''empty'' value_ops \<lparr>tprom = 0, tchain = chain_of (ret (1 :: nat))\<rparr> \<lparr>tprom = 1, tchain = chain_of (throw ''no'')\<rparr>)
      \<lparr>proms = \<lambda>_. prom_new, world = ()\<rparr> = Some (Inr (Inl ''no'', s'))"
proof -
  let ?t = "\<lparr>tprom = 0, tchain = chain_of (ret (1 :: nat))\<rparr>" and ?t2 = "\<lparr>tprom = 1, tchain = chain_of (throw ''no'')\<rparr>"
  have 1: "\<not> chain_empty (tchain ?t)" by (simp add: chain_empty_def chain_of_def)
  have 2: "list_all2 (rel_option (acts value_ok content {} (tprom ?t))) (works (tchain ?t)) [Some (\<lambda>_ w. Inr (Inr 1, w))]"
    "list_all2 (rel_option (acts value_ok content {} (tprom ?t2))) (works (tchain ?t2)) [Some (\<lambda>_ w. Inr (Inl ''no'', w))]"
    by (simp_all add: chain_of_def ret_acts throw_acts)
  from task_then_task[OF all_ok_new(1) 1 2, of "()" "Some (Inr 1)" "()" "Some (Inl ''no'')" "()" "''empty''"]
  show ?thesis by (simp add: outcome_of_def)
qed

text \<open>A worker of the thread pool runs a task as the inline runner does, cut off after the function at which it sees
  the stop flag; with no stop it is the same.\<close>

fun chain_cut :: "(nat \<Rightarrow> bool) \<Rightarrow> nat \<Rightarrow> 'f task_chain \<Rightarrow> 'f task_chain" where
  "chain_cut stopped i (TaskChain w None) = TaskChain w None"
| "chain_cut stopped i (TaskChain w (Some n)) =
     TaskChain w (if stopped i then None else Some (chain_cut stopped (Suc i) n))"

text \<open>A worker of the thread pool that runs a task does just what the inline runner does on the task cut off after the function at which
  the worker sees the stop flag: the same calls, results, exceptions and changes of the promise, also when a function does not return.\<close>

theorem worker_run_inline: "run_on_worker ex ops stopped i a c s = inline_run ex ops a (chain_cut stopped i c) s"
proof (induction c arbitrary: i s rule: works.induct)
  case (1 w)
  then show ?case by (cases "stopped i") simp_all
next
  case (2 w n)
  have "closure_execute ops a (TaskChain w m) s = closure_execute ops a (TaskChain w None) s" for m
    by (simp add: closure_execute_def execute_top_def)
  from this[of "Some n"] this[of "Some (chain_cut stopped (Suc i) n)"] 2 show ?case
    by (cases "closure_execute ops a (TaskChain w None) s") (auto simp: run_bind_def split: sum.splits)
qed

text \<open>Running a task again forgets the value of the run before without destroying it.\<close>

lemma value_reset_leaks:
  assumes "su_view (pres p) = Some (c, x)"
  shows "\<exists>q r. value_reset p = Inr q \<and> value_set_value v n q = Inr r \<and> (c, x) \<in> set (leaked (pres r))"
proof -
  from su_reset_leaks[OF promise_types_ok(1) promise_types_set(1) assms, where v = "PV v"] obtain u where
    "su_set value_types PValue (PV v) (su_reset (pres p)) = Inr u" "(c, x) \<in> set (leaked u)" by (auto simp: and_then_eq_Inr)
  then show ?thesis by (simp add: value_reset_def value_set_value_def prom_put_def Let_def notify_awaiters_def)
qed

end
