(* ===== verification/WorkList.thy ===== *)
theory WorkList
  imports TxlPrelude
begin

text \<open>
  \<^verbatim>\<open>include/txl/work_list.h\<close>: units of work, chains and workers of units, and the distributor that runs a
  list of units on its workers. The classes that derive from \<open>work_unit\<close> are the constructors of a
  datatype, the virtual \<open>execute\<close> is a function over it; no unit is a null pointer. The function of a lambda unit
  works on a world of its own and may throw an exception.
\<close>

section \<open>Units\<close>

type_synonym ('e, 'w) work_fun = "'w \<Rightarrow> 'e option \<times> 'w"

datatype 'f work_unit =
    LambdaUnit 'f "64 word"
  | WorkChain "'f work_unit list" bool
  | InlineWorker "'f work_unit option"

record ('f, 'e) work_status =
  sunit :: "'f work_unit option"
  sexception :: "'e option"
  executed :: bool
  success :: bool
  complete :: bool

text \<open>\<open>work_list::pop_front\<close>: the first unit, if there is one, and the rest.\<close>

fun wl_pop_front :: "'f work_unit list \<Rightarrow> 'f work_unit option \<times> 'f work_unit list" where
  "wl_pop_front [] = (None, [])"
| "wl_pop_front (u # us) = (Some u, us)"

definition wl_push_front :: "'f work_unit \<Rightarrow> 'f work_unit list \<Rightarrow> 'f work_unit list" where
  "wl_push_front u us = u # us"

definition wl_push_back :: "'f work_unit \<Rightarrow> 'f work_unit list \<Rightarrow> 'f work_unit list" where
  "wl_push_back u us = us @ [u]"

text \<open>\<open>lambda_work_unit::execute\<close>: an exception is reported; the unit is complete when no retry is left.\<close>

definition lambda_unit_execute :: "('e, 'w) work_fun \<Rightarrow> 64 word \<Rightarrow> 'w \<Rightarrow>
    (('e, 'w) work_fun, 'e) work_status \<times> ('e, 'w) work_fun work_unit \<times> 'w" where
  "lambda_unit_execute f retries w = (case f w of
       (None, w') \<Rightarrow> (\<lparr>sunit = None, sexception = None, executed = True, success = True, complete = True\<rparr>, LambdaUnit f retries, w')
     | (Some e, w') \<Rightarrow>
         (let retry = retries > 0
          in (\<lparr>sunit = None, sexception = Some e, executed = True, success = False, complete = \<not> retry\<rparr>,
              LambdaUnit f (if retry then retries - 1 else retries), w')))"

text \<open>\<open>execute\<close> of a chain runs its first unit; of an inline worker, the unit it holds.\<close>

fun unit_execute :: "('e, 'w) work_fun work_unit \<Rightarrow> 'w \<Rightarrow>
    (('e, 'w) work_fun, 'e) work_status \<times> ('e, 'w) work_fun work_unit \<times> 'w" where
  "unit_execute (LambdaUnit f retries) w = lambda_unit_execute f retries w"
| "unit_execute (WorkChain [] rot) w =
     (\<lparr>sunit = None, sexception = None, executed = False, success = True, complete = True\<rparr>, WorkChain [] rot, w)"
| "unit_execute (WorkChain (u # us) rot) w =
     (let (st, u', w') = unit_execute u w;
          us' = (if \<not> complete st then (if rot then wl_push_back u' us else wl_push_front u' us) else us);
          completed = (if \<not> complete st then None else Some u')
      in (\<lparr>sunit = completed, sexception = sexception st, executed = executed st, success = success st, complete = (us' = [])\<rparr>,
          WorkChain us' rot, w'))"
| "unit_execute (InlineWorker None) w =
     (\<lparr>sunit = None, sexception = None, executed = False, success = True, complete = True\<rparr>, InlineWorker None, w)"
| "unit_execute (InlineWorker (Some u)) w =
     (let (st, u', w') = unit_execute u w
      in if complete st
         then (\<lparr>sunit = None, sexception = sexception st, executed = executed st, success = success st, complete = complete st\<rparr>,
               InlineWorker None, w')
         else (st, InlineWorker (Some u'), w'))"

text \<open>\<open>add\<close> of the two workers: whether the unit was taken. A lambda is no worker.\<close>

fun worker_add :: "'f work_unit \<Rightarrow> 'f work_unit \<Rightarrow> bool \<times> 'f work_unit" where
  "worker_add (WorkChain us rot) u = (True, WorkChain (wl_push_back u us) rot)"
| "worker_add (InlineWorker (Some c)) u = (False, InlineWorker (Some c))"
| "worker_add (InlineWorker None) u = (True, InlineWorker (Some u))"
| "worker_add (LambdaUnit f r) u = (False, LambdaUnit f r)"

section \<open>The distributor\<close>

record 'f distributor =
  workers :: "('f work_unit \<times> bool) list"
  num_busy :: "64 word"

definition set_busy :: "bool \<Rightarrow> bool \<times> bool" where "set_busy busy = (\<not> busy, True)"
definition set_not_busy :: "bool \<Rightarrow> bool \<times> bool" where "set_not_busy busy = (busy, False)"

definition create_worker :: "'f work_unit \<Rightarrow> 'f distributor \<Rightarrow> 'f distributor" where
  "create_worker wk d = d\<lparr>workers := workers d @ [(wk, False)]\<rparr>"

text \<open>One round of \<open>run\<close>: the unit at hand is dereferenced also when there is none, while workers are busy.\<close>

definition dist_step :: "('e, 'w) work_fun distributor \<Rightarrow> nat \<Rightarrow> ('e, 'w) work_fun work_unit option \<Rightarrow> ('e, 'w) work_fun work_unit list \<Rightarrow> 'w \<Rightarrow>
    (('e, 'w) work_fun distributor \<times> nat \<times> ('e, 'w) work_fun work_unit option \<times> ('e, 'w) work_fun work_unit list \<times> 'w) res" where
  "dist_step d index unit us w = and_then (vec_get (workers d) index) (\<lambda>(wk, busy).
     case unit of
       None \<Rightarrow> Inl UB
     | Some u \<Rightarrow>
         let (added, wk1) = worker_add wk u;
             (unit', us') = (if added then wl_pop_front us else (unit, us));
             (st, wk2, w') = unit_execute wk1 w;
             (was, busy', n) = (if complete st
               then (let (was, b) = set_not_busy busy in (was, b, if was then num_busy d - 1 else num_busy d))
               else (let (was, b) = set_busy busy in (was, b, if was then num_busy d + 1 else num_busy d)));
             index' = (if index + 1 = length (workers d) then 0 else index + 1)
         in Inr (\<lparr>workers = (workers d)[index := (wk2, busy')], num_busy = n\<rparr>, index', unit', us', w'))"

partial_function (option) dist_loop :: "('e, 'w) work_fun distributor \<Rightarrow> nat \<Rightarrow> ('e, 'w) work_fun work_unit option \<Rightarrow>
    ('e, 'w) work_fun work_unit list \<Rightarrow> 'w \<Rightarrow> (('e, 'w) work_fun distributor \<times> ('e, 'w) work_fun work_unit list \<times> 'w) res option" where
  "dist_loop d index unit us w =
     (if unit \<noteq> None \<or> num_busy d \<noteq> 0
      then (case dist_step d index unit us w of
          Inl e \<Rightarrow> Some (Inl e)
        | Inr (d', index', unit', us', w') \<Rightarrow> dist_loop d' index' unit' us' w')
      else Some (Inr (d, us, w)))"

definition dist_run :: "('e, 'w) work_fun distributor \<Rightarrow> ('e, 'w) work_fun work_unit list \<Rightarrow> 'w \<Rightarrow>
    (('e, 'w) work_fun distributor \<times> ('e, 'w) work_fun work_unit list \<times> 'w) res option" where
  "dist_run d us w = (if workers d = [] then Some (Inr (d, us, w))
     else (let (unit, us') = wl_pop_front us in dist_loop d 0 unit us' w))"

section \<open>Chains end\<close>

text \<open>Executing a unit again and again until it is complete, \<open>k\<close> times at most.\<close>

fun run_unit :: "nat \<Rightarrow> ('e, 'w) work_fun work_unit \<Rightarrow> 'w \<Rightarrow> (('e, 'w) work_fun work_unit \<times> 'w) option" where
  "run_unit 0 u w = None"
| "run_unit (Suc k) u w = (let (st, u', w') = unit_execute u w in if complete st then Some (u', w') else run_unit k u' w')"

fun attempts :: "'f work_unit \<Rightarrow> nat" where
  "attempts (LambdaUnit f r) = unat r + 1"
| "attempts _ = 0"

fun is_lambda :: "'f work_unit \<Rightarrow> bool" where
  "is_lambda (LambdaUnit f r) = True"
| "is_lambda _ = False"

definition attempts_of :: "'f work_unit list \<Rightarrow> nat" where
  "attempts_of us = sum_list (map attempts us)"

lemma attempts_of_simps [simp]: "attempts_of [] = 0" "attempts_of (u # us) = attempts u + attempts_of us"
    "attempts_of (us @ vs) = attempts_of us + attempts_of vs"
  by (simp_all add: attempts_of_def)

lemma unat_pred: "0 < (r :: 64 word) \<Longrightarrow> unat (r - 1) + 1 = unat r"
  by (metis add.commute add_diff_cancel_left' less_irrefl plus_1_eq_Suc unat_gt_0 unat_minus_one Suc_pred word_gt_0)

text \<open>A step of a lambda unit ends it, or uses up a retry.\<close>

lemma lambda_execute_cases:
  obtains st w' where "unit_execute (LambdaUnit f r) w = (st, LambdaUnit f r, w')" "complete st"
    | st w' where "unit_execute (LambdaUnit f r) w = (st, LambdaUnit f (r - 1), w')" "\<not> complete st"
        "attempts (LambdaUnit f (r - 1)) + 1 = attempts (LambdaUnit f r)"
proof (cases "f w")
  case (Pair x w')
  show thesis
  proof (cases "x \<noteq> None \<and> 0 < r")
    case True
    then obtain e where "x = Some e" by auto
    then show thesis using True Pair unat_pred[of r]
      by (intro that(2)[of "\<lparr>sunit = None, sexception = Some e, executed = True, success = False, complete = False\<rparr>" w'])
        (auto simp: lambda_unit_execute_def Let_def)
  next
    case False
    then show thesis using Pair
      by (intro that(1)[of "\<lparr>sunit = None, sexception = x, executed = True, success = (x = None), complete = True\<rparr>" w'])
        (auto simp: lambda_unit_execute_def Let_def not_less split: option.splits)
  qed
qed

lemma chain_step:
  assumes "list_all is_lambda (u # us)"
  obtains st us' w' where "unit_execute (WorkChain (u # us) rot) w = (st, WorkChain us' rot, w')" "complete st \<longleftrightarrow> us' = []"
    "list_all is_lambda us'" "attempts_of us' < attempts_of (u # us)"
proof -
  obtain f r where u: "u = LambdaUnit f r" using assms by (cases u) auto
  show thesis
  proof (cases rule: lambda_execute_cases[of f r w])
    case (1 st w')
    then show thesis using assms u by (intro that[of _ us w']) (auto simp: Let_def)
  next
    case (2 st w')
    then show thesis using assms u
      by (intro that[of "\<lparr>sunit = None, sexception = sexception st, executed = executed st, success = success st, complete = False\<rparr>"
          "if rot then us @ [LambdaUnit f (r - 1)] else LambdaUnit f (r - 1) # us" w'])
        (auto simp: Let_def wl_push_back_def wl_push_front_def)
  qed
qed

lemma attempts_pos: "list_all is_lambda us \<Longrightarrow> us \<noteq> [] \<Longrightarrow> 0 < attempts_of us"
  by (cases us; cases "List.hd us") auto

lemma run_chain:
  "list_all is_lambda us \<Longrightarrow> us \<noteq> [] \<Longrightarrow> attempts_of us \<le> k \<Longrightarrow> \<exists>w'. run_unit k (WorkChain us rot) w = Some (WorkChain [] rot, w')"
proof (induction k arbitrary: us w)
  case 0
  then show ?case using attempts_pos by fastforce
next
  case (Suc k)
  then obtain u vs where us: "us = u # vs" by (cases us) auto
  with Suc.prems have "list_all is_lambda (u # vs)" by simp
  then obtain st us' w' where *: "unit_execute (WorkChain us rot) w = (st, WorkChain us' rot, w')" "complete st \<longleftrightarrow> us' = []"
    "list_all is_lambda us'" "attempts_of us' < attempts_of us" unfolding us by (rule chain_step)
  show ?case
  proof (cases "us' = []")
    case False
    have "attempts_of us' \<le> k" using *(4) Suc.prems(3) by simp
    from Suc.IH[OF *(3) False this, of w'] show ?thesis using * False by simp
  qed (use * in simp)
qed

text \<open>C37: A chain of functions is complete after as many executions as its functions have attempts, retries included,
  whatever they throw and whether it rotates or not; then it is empty.\<close>

theorem work_chain_completes:
  assumes "list_all is_lambda us"
  shows "\<exists>w'. run_unit (max 1 (attempts_of us)) (WorkChain us rot) w = Some (WorkChain [] rot, w')"
proof (cases "us = []")
  case False
  with assms show ?thesis by (rule run_chain) simp
qed simp

theorem work_chain_completes_witness:
  "\<exists>w'. run_unit 3 (WorkChain [LambdaUnit (\<lambda>w. (Some (), w + 1)) 1, LambdaUnit (\<lambda>w. (None, w * 10)) 0] True) (0 :: nat) = Some (WorkChain [] True, w')"
proof -
  let ?us = "[LambdaUnit (\<lambda>w. (Some (), w + 1)) 1, LambdaUnit (\<lambda>w. (None, w * 10)) 0]"
  have "list_all is_lambda ?us" by simp
  moreover have "max 1 (attempts_of ?us) = 3" by simp
  ultimately show ?thesis using work_chain_completes[of ?us True "0 :: nat"] by metis
qed

section \<open>Runs of the distributor\<close>

text \<open>A unit is done in one execution, whatever the world is: its effect on the world.\<close>

definition one_shot :: "('e, 'w) work_fun work_unit \<Rightarrow> bool" where
  "one_shot u \<longleftrightarrow> (\<forall>w. complete (fst (unit_execute u w)))"

definition unit_effect :: "('e, 'w) work_fun work_unit \<Rightarrow> 'w \<Rightarrow> 'w" where
  "unit_effect u w = snd (snd (unit_execute u w))"

definition idle_workers :: "nat \<Rightarrow> 'f distributor" where
  "idle_workers n = \<lparr>workers = replicate n (InlineWorker None, False), num_busy = 0\<rparr>"

lemma one_shot_lambda: "one_shot (LambdaUnit f 0)"
  by (auto simp: one_shot_def lambda_unit_execute_def Let_def split: prod.split option.split)

lemma dist_step_one_shot:
  assumes "one_shot u" "i < n"
  shows "dist_step (idle_workers n) i (Some u) us w =
    Inr (idle_workers n, if i + 1 = n then 0 else i + 1, fst (wl_pop_front us), snd (wl_pop_front us), unit_effect u w)"
proof -
  obtain st u' w' where u: "unit_execute u w = (st, u', w')" by (metis prod.exhaust)
  have "complete st" using assms(1) u unfolding one_shot_def by (metis fst_conv)
  moreover have "(replicate n (InlineWorker None, False))[i := (InlineWorker None, False)] = replicate n (InlineWorker None, False)"
    using list_update_id[of "replicate n (InlineWorker None, False)" i] assms(2) by simp
  ultimately show ?thesis using u assms(2)
    by (simp add: dist_step_def idle_workers_def vec_get_def unit_effect_def Let_def set_not_busy_def split_beta)
qed

lemma dist_loop_none:
  "num_busy d = 0 \<Longrightarrow> dist_loop d i None us w = Some (Inr (d, us, w))"
  "num_busy d \<noteq> 0 \<Longrightarrow> dist_loop d i None us w = Some (Inl UB)"
  by (subst dist_loop.simps, simp add: dist_step_def vec_get_def and_then_def split: sum.split)+

lemma idle_workers_simps [simp]: "num_busy (idle_workers n) = 0" "workers (idle_workers n) = replicate n (InlineWorker None, False)"
  by (simp_all add: idle_workers_def)

lemma dist_loop_one_shot:
  assumes "list_all one_shot (u # us)" "i < n"
  shows "dist_loop (idle_workers n) i (Some u) us w = Some (Inr (idle_workers n, [], fold unit_effect (u # us) w))"
  using assms
proof (induction us arbitrary: u i w)
  case Nil
  then show ?case by (subst dist_loop.simps) (simp add: dist_step_one_shot dist_loop_none)
next
  case (Cons v us)
  then have "(if i + 1 = n then 0 else i + 1) < n" "list_all one_shot (v # us)" by auto
  from Cons.IH[OF this(2,1)] Cons.prems show ?case
    by (subst dist_loop.simps) (simp add: dist_step_one_shot)
qed

text \<open>With inline workers a list of units that each complete in one execution is run to its end: every unit is
  executed once, in the order of the list, and the workers are idle again. Exceptions of units are not reported.\<close>

theorem distributor_runs_in_order:
  assumes "list_all one_shot us" "0 < n"
  shows "dist_run (idle_workers n) us w = Some (Inr (idle_workers n, [], fold unit_effect us w))"
proof (cases us)
  case Nil
  then show ?thesis using assms(2) by (simp add: dist_run_def dist_loop_none)
next
  case (Cons u vs)
  then show ?thesis using dist_loop_one_shot[of u vs 0 n w] assms by (simp add: dist_run_def)
qed

theorem distributor_runs_in_order_witness:
  "dist_run (idle_workers 2) [LambdaUnit (\<lambda>w. (None, w + 1)) 0, LambdaUnit (\<lambda>w. (Some (), w * 10)) 0, LambdaUnit (\<lambda>w. (None, w + 3)) 0] (1 :: nat) =
     Some (Inr (idle_workers 2, [], 23))"
proof -
  have "list_all one_shot [LambdaUnit (\<lambda>w. (None, w + 1)) 0, LambdaUnit (\<lambda>w. (Some (), w * 10)) 0, LambdaUnit (\<lambda>w. (None, w + 3 :: nat)) 0]"
    by (simp only: list.pred_inject one_shot_lambda)
  from distributor_runs_in_order[OF this, of 2 1] show ?thesis by (simp add: unit_effect_def lambda_unit_execute_def Let_def)
qed

text \<open>A unit that needs a second execution, as the last of the list: the distributor then dereferences an empty
  optional.\<close>

lemma distributor_retry_ub:
  assumes "0 < n" "\<not> complete (fst (unit_execute u w))"
  shows "dist_run (idle_workers n) [u] w = Some (Inl UB)"
proof -
  obtain st u' w' where u: "unit_execute u w = (st, u', w')" by (metis prod.exhaust)
  have s: "dist_step (idle_workers n) 0 (Some u) [] w = Inr (\<lparr>workers = (replicate n (InlineWorker None, False))[0 := (InlineWorker (Some u'), True)], num_busy = 1\<rparr>,
      if n = 1 then 0 else 1, None, [], w')"
    using u assms by (simp add: dist_step_def idle_workers_def vec_get_def Let_def set_busy_def split_beta)
  have "dist_loop (idle_workers n) 0 (Some u) [] w = Some (Inl UB)"
    by (subst dist_loop.simps) (simp add: s dist_loop_none)
  then show ?thesis using assms(1) by (simp add: dist_run_def)
qed

end
