(* ===== verification/Atomics.thy ===== *)
theory Atomics
  imports Simulation
begin

text \<open>
  \<^verbatim>\<open>include/txl/atomic.h\<close>: the swap loops on an atomic value, \<open>acquire_lock\<close>, and \<open>lazy_atomic\<close>, a value that the
  first user creates. A load, a compare-and-exchange and an allocation are one step each; any number of
  threads take steps in any order. A weak compare-and-exchange may fail without reason (\<open>Fail\<close>), and a load may return an old value
  (\<open>location\<close>). Only the atomic itself is modelled this way: the objects that a lazy value points to are taken as visible to all when
  they are made, which the last load of \<open>ptr\<close>, a relaxed one, does not give.
\<close>

section \<open>One atomic object\<close>

text \<open>An atomic object as the memory model of C++ has it: the values it has had, in their modification order, and for each thread the
  place of the last value it has read or written. Whatever memory order a load asks for, it may return any value from that place on
  (coherence); a read-modify-write works on the last value. \<open>k\<close> is the place the load would like to read.\<close>

record 'a location =
  history :: "'a list"
  seen :: "nat \<Rightarrow> nat"

definition loc_new :: "'a \<Rightarrow> 'a location" where
  "loc_new x = \<lparr>history = [x], seen = (\<lambda>_. 0)\<rparr>"

definition latest :: "'a location \<Rightarrow> 'a" where
  "latest l = last (history l)"

definition load_place :: "nat \<Rightarrow> nat \<Rightarrow> 'a location \<Rightarrow> nat" where
  "load_place t k l = max (seen l t) (min k (length (history l) - 1))"

definition load_value :: "nat \<Rightarrow> nat \<Rightarrow> 'a location \<Rightarrow> 'a" where
  "load_value t k l = history l ! load_place t k l"

definition after_load :: "nat \<Rightarrow> nat \<Rightarrow> 'a location \<Rightarrow> 'a location" where
  "after_load t k l = l\<lparr>seen := (seen l)(t := load_place t k l)\<rparr>"

definition modify :: "nat \<Rightarrow> 'a \<Rightarrow> 'a location \<Rightarrow> 'a location" where
  "modify t v l = \<lparr>history = history l @ [v], seen = (seen l)(t := length (history l))\<rparr>"

definition loc_ok :: "'a location \<Rightarrow> bool" where
  "loc_ok l \<longleftrightarrow> history l \<noteq> [] \<and> (\<forall>t. seen l t < length (history l))"

lemma loc_simps [simp]:
  "latest (loc_new x) = x" "latest (after_load t k l) = latest l" "latest (modify t v l) = v"
  "history (after_load t k l) = history l" "history (modify t v l) = history l @ [v]" "history (loc_new x) = [x]"
  "loc_ok (loc_new x)"
  by (simp_all add: loc_new_def latest_def after_load_def modify_def loc_ok_def)

lemma loc_ok_after:
  assumes "loc_ok l"
  shows "loc_ok (after_load t k l)" "loc_ok (modify t v l)" "seen l t \<le> load_place t k l" "load_place t k l < length (history l)"
  using assms by (auto simp: loc_ok_def after_load_def modify_def load_place_def max_def min_def less_Suc_eq)

lemma seen_after [simp]: "seen (after_load t k l) = (seen l)(t := load_place t k l)" "seen (modify t v l) = (seen l)(t := length (history l))"
  by (simp_all add: after_load_def modify_def)

text \<open>A thread that has seen the last value can only read that one.\<close>

lemma load_last:
  assumes "loc_ok l" "Suc (seen l t) = length (history l)"
  shows "load_value t k l = latest l" "load_place t k l = seen l t"
proof -
  show p: "load_place t k l = seen l t" using loc_ok_after(3,4)[OF assms(1), of t k] assms(2) by linarith
  have "history l \<noteq> []" using assms(1) by (simp add: loc_ok_def)
  moreover have "seen l t = length (history l) - 1" using assms(2) by simp
  ultimately show "load_value t k l = latest l" by (simp add: load_value_def latest_def p last_conv_nth)
qed

section \<open>Lazy values\<close>

text \<open>The node: \<open>0x0\<close>, \<open>0x1\<close> or a pointer.\<close>

datatype node = NEmpty | NPending | NPtr nat

definition is_empty :: "node \<Rightarrow> bool" where "is_empty n \<longleftrightarrow> n = NEmpty"
definition is_pending :: "node \<Rightarrow> bool" where "is_pending n \<longleftrightarrow> n = NPending"
definition node_has_value :: "node \<Rightarrow> bool" where "node_has_value n \<longleftrightarrow> \<not> is_empty n \<and> \<not> is_pending n"

text \<open>\<open>node::get\<close> as a pointer, \<open>None\<close> for the null pointer; a pending node is never asked.\<close>

fun node_get :: "node \<Rightarrow> nat option" where
  "node_get (NPtr a) = Some a"
| "node_get _ = None"

text \<open>What a thread that reserves the place is going to put there.\<close>

datatype 'v source = Factory | Given 'v

datatype 'v lpc =
    LIdle
  | LReserve "'v source"
  | LReserveCas "'v source"
  | LCreate "'v source"
  | LStore node "'v source"
  | LStoreCas node node "'v source"
  | LSpin
  | LGot "nat option"
  | LRaised
  | LClear "'v option"
  | LClearCas nat "'v option"
  | LDestroy nat "'v option"

record 'v lazy =
  cell :: "node location"
  heap :: "nat \<Rightarrow> 'v option"
  calls :: nat
  pcs :: "nat \<Rightarrow> 'v lpc"

definition lazy_new :: "'v lazy" where
  "lazy_new = \<lparr>cell = loc_new NEmpty, heap = (\<lambda>_. None), calls = 0, pcs = (\<lambda>_. LIdle)\<rparr>"

abbreviation lvalue :: "'v lazy \<Rightarrow> node" where
  "lvalue s \<equiv> latest (cell s)"

abbreviation lload :: "nat \<Rightarrow> nat \<Rightarrow> 'v lazy \<Rightarrow> 'v lazy" where
  "lload t k s \<equiv> s\<lparr>cell := after_load t k (cell s)\<rparr>"

abbreviation lwrite :: "nat \<Rightarrow> node \<Rightarrow> 'v lazy \<Rightarrow> 'v lazy" where
  "lwrite t n s \<equiv> s\<lparr>cell := modify t n (cell s)\<rparr>"

abbreviation lgoto :: "nat \<Rightarrow> 'v lpc \<Rightarrow> 'v lazy \<Rightarrow> 'v lazy" where
  "lgoto t p s \<equiv> s\<lparr>pcs := (pcs s)(t := p)\<rparr>"

text \<open>The choices of a step: the place a load would like to read, a compare-and-exchange that fails, and what the factory (or \<^verbatim>\<open>new\<close>)
  does: an object at an address, the null pointer, or an exception.\<close>

datatype 'v choice = Go nat | Fail nat | Make nat 'v | MakeNull | Throw

fun place :: "'v choice \<Rightarrow> nat" where
  "place (Go k) = k"
| "place (Fail k) = k"
| "place _ = 0"

fun succeeds :: "'v choice \<Rightarrow> bool" where
  "succeeds (Fail k) = False"
| "succeeds _ = True"

text \<open>After the place is taken or the value is stored: \<open>ptr\<close> goes on to spin, the assignment is done.\<close>

definition after_store :: "'v source \<Rightarrow> 'v lpc" where
  "after_store g = (case g of Factory \<Rightarrow> LSpin | Given v \<Rightarrow> LIdle)"

definition after_clear :: "'v option \<Rightarrow> 'v lpc" where
  "after_clear k = (case k of None \<Rightarrow> LIdle | Some v \<Rightarrow> LReserve (Given v))"

text \<open>\<open>ptr\<close> and the second part of the assignment: the address of a new object is one where no object lives. Only the last
  load of \<open>ptr\<close> is relaxed; old values may be read by all of them.\<close>

fun store_step :: "nat \<Rightarrow> 'v choice \<Rightarrow> 'v lpc \<Rightarrow> 'v lazy \<Rightarrow> 'v lazy option" where
  "store_step t c (LReserve g) s =
     Some (lgoto t (if \<not> is_empty (load_value t (place c) (cell s)) then after_store g else LReserveCas g) (lload t (place c) s))"
| "store_step t c (LReserveCas g) s =
     Some (if succeeds c \<and> lvalue s = NEmpty then lgoto t (LCreate g) (lwrite t NPending s)
           else lgoto t (LReserve g) (lload t (place c) s))"
| "store_step t c (LCreate g) s = (case c of
       Make a v \<Rightarrow> if heap s a = None \<and> (\<forall>w. g = Given w \<longrightarrow> v = w)
         then Some (lgoto t (LStore (NPtr a) g) (s\<lparr>heap := (heap s)(a := Some v), calls := calls s + (if g = Factory then 1 else 0)\<rparr>))
         else None
     | MakeNull \<Rightarrow> if g = Factory then Some (lgoto t (LStore NEmpty g) (s\<lparr>calls := calls s + 1\<rparr>)) else None
     | Throw \<Rightarrow> Some (lgoto t LRaised s)
     | _ \<Rightarrow> None)"
| "store_step t c (LStore n g) s =
     Some (lgoto t (LStoreCas n (load_value t (place c) (cell s)) g) (lload t (place c) s))"
| "store_step t c (LStoreCas n e g) s =
     Some (if succeeds c \<and> lvalue s = e then lgoto t (after_store g) (lwrite t n s)
           else lgoto t (LStore n g) (lload t (place c) s))"
| "store_step t c LSpin s =
     (let n = load_value t (place c) (cell s)
      in Some (lgoto t (if is_pending n then LSpin else LGot (node_get n)) (lload t (place c) s)))"
| "store_step t c _ s = None"

text \<open>\<open>clear\<close>; a destroyed object must live.\<close>

fun clear_step :: "nat \<Rightarrow> 'v choice \<Rightarrow> 'v lpc \<Rightarrow> 'v lazy \<Rightarrow> 'v lazy option" where
  "clear_step t c (LClear k) s =
     Some (lgoto t (case load_value t (place c) (cell s) of NPtr a \<Rightarrow> LClearCas a k | _ \<Rightarrow> after_clear k) (lload t (place c) s))"
| "clear_step t c (LClearCas a k) s =
     Some (if succeeds c \<and> lvalue s = NPtr a then lgoto t (LDestroy a k) (lwrite t NEmpty s)
           else lgoto t (LClear k) (lload t (place c) s))"
| "clear_step t c (LDestroy a k) s =
     (if heap s a = None then None else Some (lgoto t (after_clear k) (s\<lparr>heap := (heap s)(a := None)\<rparr>)))"
| "clear_step t c _ s = None"

text \<open>The calls: \<open>ptr\<close> (and \<open>get\<close>), the assignment, \<open>clear\<close> (and the destructor).\<close>

datatype 'v lcall = CallPtr | CallAssign 'v | CallClear

fun call_pc :: "'v lcall \<Rightarrow> 'v lpc" where
  "call_pc CallPtr = LReserve Factory"
| "call_pc (CallAssign v) = LClear (Some v)"
| "call_pc CallClear = LClear None"

fun between_calls :: "'v lpc \<Rightarrow> bool" where
  "between_calls LIdle = True"
| "between_calls (LGot r) = True"
| "between_calls LRaised = True"
| "between_calls _ = False"

datatype 'v levent = LCall nat "'v lcall" | LGo nat "'v choice"

fun lazy_step :: "'v levent \<Rightarrow> 'v lazy \<Rightarrow> 'v lazy option" where
  "lazy_step (LCall t f) s = (if between_calls (pcs s t) then Some (lgoto t (call_pc f) s) else None)"
| "lazy_step (LGo t c) s = (case store_step t c (pcs s t) s of Some s' \<Rightarrow> Some s' | None \<Rightarrow> clear_step t c (pcs s t) s)"

definition lazy_trans :: "'v lazy \<Rightarrow> 'v levent \<Rightarrow> 'v lazy \<Rightarrow> bool" where
  "lazy_trans s e s' \<longleftrightarrow> lazy_step e s = Some s'"

section \<open>Objects are destroyed once\<close>

text \<open>The thread that has reserved the place.\<close>

fun owner :: "'v lpc \<Rightarrow> bool" where
  "owner (LCreate g) = True"
| "owner (LStore n g) = True"
| "owner (LStoreCas n e g) = True"
| "owner _ = False"

text \<open>The object a thread has made and not stored yet, or has taken out to destroy it.\<close>

fun holds :: "'v lpc \<Rightarrow> nat option" where
  "holds (LStore n g) = node_get n"
| "holds (LStoreCas n e g) = node_get n"
| "holds (LDestroy a k) = Some a"
| "holds _ = None"

text \<open>The thread that has reserved the place has seen the last value, its own.\<close>

definition lazy_inv :: "'v lazy \<Rightarrow> bool" where
  "lazy_inv s \<longleftrightarrow> loc_ok (cell s) \<and>
     (\<forall>t. owner (pcs s t) \<longrightarrow> lvalue s = NPending \<and> Suc (seen (cell s) t) = length (history (cell s))) \<and>
     (\<forall>t u. owner (pcs s t) \<and> owner (pcs s u) \<longrightarrow> t = u) \<and>
     (\<forall>t n e g. pcs s t = LStoreCas n e g \<longrightarrow> e = NPending) \<and>
     (\<forall>t n. (\<exists>g. pcs s t = LStore n g) \<or> (\<exists>e g. pcs s t = LStoreCas n e g) \<longrightarrow> n \<noteq> NPending) \<and>
     (\<forall>a. lvalue s = NPtr a \<longrightarrow> heap s a \<noteq> None) \<and>
     (\<forall>t a. holds (pcs s t) = Some a \<longrightarrow> heap s a \<noteq> None \<and> lvalue s \<noteq> NPtr a) \<and>
     (\<forall>t u a. holds (pcs s t) = Some a \<and> holds (pcs s u) = Some a \<longrightarrow> t = u)"

lemma after_simps [simp]: "\<not> owner (after_store g)" "holds (after_store g) = None" "\<not> owner (after_clear k)" "holds (after_clear k) = None"
  "after_store g \<noteq> LStoreCas n e h" "after_clear k \<noteq> LStoreCas n e h" "after_store g \<noteq> LStore n h" "after_clear k \<noteq> LStore n h"
  by (auto simp: after_store_def after_clear_def split: source.splits option.splits)

lemma node_get_Some [simp]: "node_get n = Some a \<longleftrightarrow> n = NPtr a"
  by (cases n) auto

lemma lazy_invI:
  assumes "loc_ok (cell s)" "\<And>u. owner (pcs s u) \<Longrightarrow> lvalue s = NPending \<and> Suc (seen (cell s) u) = length (history (cell s))"
    "\<And>u w. owner (pcs s u) \<Longrightarrow> owner (pcs s w) \<Longrightarrow> u = w"
    "\<And>u n e g. pcs s u = LStoreCas n e g \<Longrightarrow> e = NPending \<and> n \<noteq> NPending"
    "\<And>u n g. pcs s u = LStore n g \<Longrightarrow> n \<noteq> NPending"
    "\<And>a. lvalue s = NPtr a \<Longrightarrow> heap s a \<noteq> None"
    "\<And>u a. holds (pcs s u) = Some a \<Longrightarrow> heap s a \<noteq> None \<and> lvalue s \<noteq> NPtr a"
    "\<And>u w a. holds (pcs s u) = Some a \<Longrightarrow> holds (pcs s w) = Some a \<Longrightarrow> u = w"
  shows "lazy_inv s"
  unfolding lazy_inv_def by (intro conjI allI impI; (elim conjE disjE exE)?) (use assms in blast)+

lemma lazy_invD:
  assumes "lazy_inv s"
  shows "owner (pcs s u) \<Longrightarrow> lvalue s = NPending"
    "owner (pcs s u) \<Longrightarrow> owner (pcs s w) \<Longrightarrow> u = w"
    "pcs s u = LStoreCas n e g \<Longrightarrow> e = NPending"
    "lvalue s = NPtr a \<Longrightarrow> heap s a \<noteq> None"
    "holds (pcs s u) = Some a \<Longrightarrow> heap s a \<noteq> None"
    "holds (pcs s u) = Some a \<Longrightarrow> lvalue s \<noteq> NPtr a"
    "holds (pcs s u) = Some a \<Longrightarrow> holds (pcs s w) = Some a \<Longrightarrow> u = w"
    "owner (pcs s u) \<Longrightarrow> Suc (seen (cell s) u) = length (history (cell s))"
    "pcs s u = LStore n g \<Longrightarrow> n \<noteq> NPending" "pcs s u = LStoreCas n e g \<Longrightarrow> n \<noteq> NPending"
    "loc_ok (cell s)"
  using assms unfolding lazy_inv_def by blast+

text \<open>A load changes only what its thread has seen.\<close>

lemma lazy_inv_load:
  assumes "lazy_inv s"
  shows "lazy_inv (lload t k s)"
proof -
  have "Suc (load_place t k (cell s)) = length (history (cell s))" if "owner (pcs s t)"
    using load_last(2)[OF lazy_invD(11)[OF assms] lazy_invD(8)[OF assms that]] lazy_invD(8)[OF assms that] by simp
  then show ?thesis using lazy_invD[OF assms] loc_ok_after(1)[OF lazy_invD(11)[OF assms]]
    by (intro lazy_invI) auto
qed

text \<open>A thread that only moves on, to a place that owns and holds nothing.\<close>

lemma lazy_inv_goto:
  assumes "lazy_inv s" "\<not> owner p" "holds p = None"
  shows "lazy_inv (lgoto t p s)"
proof -
  have "p \<noteq> LStore n g" "p \<noteq> LStoreCas n e g" for n e g using assms(2) by auto
  then show ?thesis using assms(2,3) lazy_invD[OF assms(1)] by (intro lazy_invI) (auto split: if_splits)
qed

text \<open>A thread that has reserved the place and goes on with the object it has made.\<close>

lemma lazy_inv_owner:
  assumes "lazy_inv s" "owner (pcs s t)" "p = LStore n g \<or> p = LStoreCas n NPending g" "holds (pcs s t) = node_get n" "n \<noteq> NPending"
  shows "lazy_inv (s\<lparr>cell := after_load t k (cell s), pcs := (pcs s)(t := p)\<rparr>)"
proof -
  have p: "owner p" "holds p = holds (pcs s t)" using assms(3,4) by auto
  let ?s = "lload t k s"
  note I = lazy_inv_load[OF assms(1), of t k]
  have "lazy_inv (lgoto t p ?s)"
  proof (rule lazy_invI)
    show "lvalue (lgoto t p ?s) = NPending \<and> Suc (seen (cell (lgoto t p ?s)) u) = length (history (cell (lgoto t p ?s)))"
      if "owner (pcs (lgoto t p ?s) u)" for u
      using lazy_invD(1,8)[OF I, of u] that assms(2) by (auto split: if_splits)
    show "u = w" if "owner (pcs (lgoto t p ?s) u)" "owner (pcs (lgoto t p ?s) w)" for u w
      using lazy_invD(2)[OF I, of u w] that assms(2) by (auto split: if_splits)
    show "e = NPending \<and> m \<noteq> NPending" if "pcs (lgoto t p ?s) u = LStoreCas m e h" for u m e h
      using lazy_invD(3,10)[OF I, of u m e h] that assms(3,5) by (auto split: if_splits)
    show "m \<noteq> NPending" if "pcs (lgoto t p ?s) u = LStore m h" for u m h
      using lazy_invD(9)[OF I, of u m h] that assms(3,5) by (auto split: if_splits)
    show "heap (lgoto t p ?s) a \<noteq> None \<and> lvalue (lgoto t p ?s) \<noteq> NPtr a" if "holds (pcs (lgoto t p ?s) u) = Some a" for u a
      using lazy_invD(5,6)[OF I, of u a] that p(2) by (auto split: if_splits)
    show "u = w" if "holds (pcs (lgoto t p ?s) u) = Some a" "holds (pcs (lgoto t p ?s) w) = Some a" for u w a
      using lazy_invD(7)[OF I, of u a w] that p(2) by (auto split: if_splits)
  qed (use lazy_invD(4,11)[OF I] in auto)
  then show ?thesis by simp
qed

lemma lazy_inv_moves:
  assumes "lazy_inv s" "\<not> owner p" "holds p = None"
  shows "lazy_inv (s\<lparr>cell := after_load t k (cell s), pcs := (pcs s)(t := p)\<rparr>)"
  using lazy_inv_goto[OF lazy_inv_load[OF assms(1)] assms(2,3), of t k t] by simp

lemma lazy_inv_store:
  assumes I: "lazy_inv s" and st: "store_step t c (pcs s t) s = Some s'"
  shows "lazy_inv s'"
proof (cases "pcs s t")
  case (LReserve g)
  with st show ?thesis by (auto intro!: lazy_inv_moves[OF I] split: if_splits)
next
  case (LReserveCas g)
  show ?thesis
  proof (cases "succeeds c \<and> lvalue s = NEmpty")
    case True
    then have s': "s' = lgoto t (LCreate g) (lwrite t NPending s)" using st LReserveCas by auto
    show ?thesis unfolding s' using lazy_invD[OF I] True loc_ok_after(2)[OF lazy_invD(11)[OF I]]
      by (intro lazy_invI) (auto split: if_splits)
  next
    case False
    with st LReserveCas show ?thesis by (auto intro!: lazy_inv_moves[OF I])
  qed
next
  case (LCreate g)
  then have o: "owner (pcs s t)" by simp
  show ?thesis
  proof (cases c)
    case (Make a v)
    with st LCreate have a: "heap s a = None"
      and s': "s' = lgoto t (LStore (NPtr a) g) (s\<lparr>heap := (heap s)(a := Some v), calls := calls s + (if g = Factory then 1 else 0)\<rparr>)"
      by (auto split: if_splits)
    have n: "holds (pcs s u) \<noteq> Some a" for u using lazy_invD(5)[OF I, of u a] a by auto
    have v: "lvalue s = NPending" by (rule lazy_invD(1)[OF I o])
    show ?thesis unfolding s'
    proof (rule lazy_invI, goal_cases)
      case (2 u)
      then show ?case using lazy_invD(1,8)[OF I, of u] lazy_invD(8)[OF I o] v by (auto split: if_splits)
    next
      case (3 u w)
      then show ?case using lazy_invD(2)[OF I, of u w] o by (auto split: if_splits)
    next
      case (4 u m e h)
      then show ?case using lazy_invD(3,10)[OF I, of u m e h] by (auto split: if_splits)
    next
      case (5 u m h)
      then show ?case using lazy_invD(9)[OF I, of u m h] by (auto split: if_splits)
    next
      case (7 u b)
      then show ?case using lazy_invD(5,6)[OF I, of u b] n[of u] v by (auto split: if_splits)
    next
      case (8 u w b)
      then show ?case using lazy_invD(7)[OF I, of u b w] n by (auto split: if_splits)
    qed (use lazy_invD(11)[OF I] v in auto)
  next
    case MakeNull
    with st LCreate have s': "s' = lgoto t (LStore NEmpty g) (s\<lparr>calls := calls s + 1\<rparr>)" by (auto split: if_splits)
    show ?thesis unfolding s' using lazy_invD[OF I] o by (intro lazy_invI) (auto split: if_splits)
  qed (use st LCreate in \<open>auto intro!: lazy_inv_goto[OF I]\<close>)
next
  case (LStore n g)
  then have o: "owner (pcs s t)" by simp
  have s': "s' = lgoto t (LStoreCas n (lvalue s) g) (lload t (place c) s)"
    using st LStore load_last(1)[OF lazy_invD(11)[OF I] lazy_invD(8)[OF I o]] by simp
  have v: "lvalue s = NPending" by (rule lazy_invD(1)[OF I o])
  show ?thesis unfolding s' using lazy_inv_owner[OF I o, of _ n g "place c"] LStore lazy_invD(9)[OF I LStore] v by simp
next
  case (LStoreCas n e g)
  then have o: "owner (pcs s t)" by simp
  show ?thesis
  proof (cases "succeeds c \<and> lvalue s = e")
    case True
    then have s': "s' = lgoto t (after_store g) (lwrite t n s)" using st LStoreCas by auto
    have n: "holds (pcs s u) \<noteq> Some a" if "u \<noteq> t" "n = NPtr a" for u a
      using lazy_invD(7)[OF I, of t a u] LStoreCas that by auto
    have h: "heap s a \<noteq> None" if "n = NPtr a" for a
      using lazy_invD(5)[OF I, of t a] LStoreCas that by simp
    have no: "\<not> owner (pcs s u)" if "u \<noteq> t" for u using lazy_invD(2)[OF I o, of u] that by blast
    show ?thesis unfolding s'
    proof (rule lazy_invI, goal_cases)
      case (2 u)
      then show ?case using no by (auto split: if_splits)
    next
      case (3 u w)
      then show ?case using no by (auto split: if_splits)
    next
      case (4 u m e h)
      then show ?case using lazy_invD(3,10)[OF I, of u m e h] by (auto split: if_splits)
    next
      case (5 u m h)
      then show ?case using lazy_invD(9)[OF I, of u m h] by (auto split: if_splits)
    next
      case (7 u b)
      then show ?case using lazy_invD(5)[OF I, of u b] n[of u b] by (auto split: if_splits)
    next
      case (8 u w b)
      then show ?case using lazy_invD(7)[OF I, of u b w] by (auto split: if_splits)
    qed (use loc_ok_after(2)[OF lazy_invD(11)[OF I]] h in auto)
  next
    case False
    then have s': "s' = lgoto t (LStore n g) (lload t (place c) s)" using st LStoreCas by auto
    show ?thesis unfolding s' using lazy_inv_owner[OF I o, of _ n g "place c"] LStoreCas lazy_invD(10)[OF I LStoreCas] by simp
  qed
next
  case LSpin
  with st show ?thesis by (auto simp: Let_def intro!: lazy_inv_moves[OF I] split: if_splits)
qed (use st in auto)

lemma lazy_inv_clear:
  assumes I: "lazy_inv s" and st: "clear_step t c (pcs s t) s = Some s'"
  shows "lazy_inv s'"
proof (cases "pcs s t")
  case (LClear k)
  with st show ?thesis by (auto intro!: lazy_inv_moves[OF I] split: node.splits if_splits)
next
  case (LClearCas a k)
  show ?thesis
  proof (cases "succeeds c \<and> lvalue s = NPtr a")
    case True
    then have s': "s' = lgoto t (LDestroy a k) (lwrite t NEmpty s)" using st LClearCas by auto
    have "holds (pcs s u) \<noteq> Some a" for u using lazy_invD(6)[OF I, of u a] True by auto
    then show ?thesis unfolding s' using lazy_invD[OF I] True loc_ok_after(2)[OF lazy_invD(11)[OF I]]
      by (intro lazy_invI) (auto split: if_splits)
  next
    case False
    with st LClearCas show ?thesis by (auto intro!: lazy_inv_moves[OF I])
  qed
next
  case (LDestroy a k)
  then have h: "holds (pcs s t) = Some a" by simp
  have s': "s' = lgoto t (after_clear k) (s\<lparr>heap := (heap s)(a := None)\<rparr>)" using st LDestroy by (auto split: if_splits)
  show ?thesis unfolding s' using lazy_invD[OF I] h by (intro lazy_invI) (auto split: if_splits)
qed (use st in auto)

interpretation lazy_objects: step_invariant lazy_trans lazy_new lazy_inv
proof
  show "lazy_inv lazy_new" by (simp add: lazy_inv_def lazy_new_def)
next
  fix s s' :: "'a lazy" and e
  assume I: "lazy_inv s" and "lazy_trans s e s'"
  then have st: "lazy_step e s = Some s'" by (simp add: lazy_trans_def)
  show "lazy_inv s'"
  proof (cases e)
    case (LCall t f)
    with st have "s' = lgoto t (call_pc f) s" by (auto split: if_splits)
    then show ?thesis by (cases f) (auto intro!: lazy_inv_goto[OF I])
  next
    case (LGo t c)
    with st show ?thesis using lazy_inv_store[OF I] lazy_inv_clear[OF I] by (auto split: option.splits)
  qed
qed

fun lazy_run :: "'v levent list \<Rightarrow> 'v lazy \<Rightarrow> 'v lazy option" where
  "lazy_run [] s = Some s"
| "lazy_run (e # es) s = (case lazy_step e s of None \<Rightarrow> None | Some s' \<Rightarrow> lazy_run es s')"

lemma lazy_run_exec: "lazy_run es s = Some s' \<Longrightarrow> exec lazy_trans s es s'"
  by (induction es arbitrary: s) (auto split: option.splits simp: lazy_trans_def intro: exec_nil exec_cons)

lemma lazy_run_reachable: "lazy_run es lazy_new = Some s \<Longrightarrow> reachable lazy_trans lazy_new s"
  unfolding reachable_def using lazy_run_exec by blast

text \<open>With any number of threads that read, assign and clear a lazy value, the stored pointer is always to an object that
  lives, and an object that a thread is about to destroy lives: none is destroyed twice or while it is stored.\<close>

theorem lazy_atomic_no_double_destroy:
  assumes "reachable lazy_trans lazy_new s" "lvalue s = NPtr a \<or> pcs s t = LDestroy a k"
  shows "heap s a \<noteq> None \<and> \<not> (lvalue s = NPtr a \<and> pcs s t = LDestroy a k)"
  using assms(2) lazy_invD(4)[OF lazy_objects.inv_reachable[OF assms(1)], of a]
    lazy_invD(5,6)[OF lazy_objects.inv_reachable[OF assms(1)], of t a] by auto

text \<open>One thread gets the value, another one clears it.\<close>

definition get_then_clear :: "nat levent list" where
  "get_then_clear = [LCall 0 CallPtr, LGo 0 (Go 9), LGo 0 (Go 9), LGo 0 (Make 7 42), LGo 0 (Go 9), LGo 0 (Go 9), LGo 0 (Go 9),
     LCall 1 CallClear, LGo 1 (Go 9), LGo 1 (Go 9)]"

lemmas lazy_eval = get_then_clear_def lazy_new_def is_empty_def is_pending_def after_store_def after_clear_def
  loc_new_def latest_def load_place_def load_value_def after_load_def modify_def Let_def

theorem lazy_atomic_no_double_destroy_witness:
  "\<exists>s. reachable lazy_trans lazy_new s \<and> pcs s 1 = LDestroy 7 None \<and> heap s 7 = Some (42 :: nat) \<and> lvalue s \<noteq> NPtr 7"
proof -
  obtain s where s: "lazy_run get_then_clear lazy_new = Some s" "pcs s 1 = LDestroy 7 None" "heap s 7 = Some (42 :: nat)"
    by (simp add: lazy_eval)
  then show ?thesis using lazy_atomic_no_double_destroy[OF lazy_run_reachable[OF s(1)], of 7 1 None] lazy_run_reachable[OF s(1)]
    by auto
qed

text \<open>A reference that \<open>get\<close> has returned is not protected: after a \<open>clear\<close> it dangles. And a thread that is about to load the
  pointer then gets the null pointer.\<close>

lemma lazy_atomic_dangling:
  "\<exists>s. reachable lazy_trans lazy_new s \<and> pcs s 0 = LGot (Some 7) \<and> heap s 7 = (None :: nat option)"
proof -
  obtain s where "lazy_run (get_then_clear @ [LGo 1 (Go 9)]) lazy_new = Some s" "pcs s 0 = LGot (Some 7)" "heap s 7 = (None :: nat option)"
    by (simp add: lazy_eval)
  then show ?thesis using lazy_run_reachable by blast
qed

lemma lazy_atomic_null:
  "\<exists>s :: nat lazy. reachable lazy_trans lazy_new s \<and> pcs s 2 = LGot None"
proof -
  obtain s :: "nat lazy" where "lazy_run (take 7 get_then_clear @ [LCall 2 CallPtr, LGo 2 (Go 9)] @ drop 7 get_then_clear @ [LGo 2 (Go 9)]) lazy_new = Some s"
    "pcs s 2 = LGot None"
    by (simp add: lazy_eval)
  then show ?thesis using lazy_run_reachable by blast
qed

section \<open>The value is created once\<close>

text \<open>Threads that only read, with a factory that always makes an object.\<close>

fun reads_only :: "'v levent \<Rightarrow> bool" where
  "reads_only (LCall t f) = (f = CallPtr)"
| "reads_only (LGo t c) = (c \<noteq> Throw \<and> c \<noteq> MakeNull)"

definition read_trans :: "'v lazy \<Rightarrow> 'v levent \<Rightarrow> 'v lazy \<Rightarrow> bool" where
  "read_trans s e s' \<longleftrightarrow> lazy_trans s e s' \<and> reads_only e"

text \<open>A thread that spins has seen that the place is taken: it cannot read the empty node any more.\<close>

fun reading :: "node location \<Rightarrow> nat \<Rightarrow> nat \<Rightarrow> 'v lpc \<Rightarrow> bool" where
  "reading l c t LIdle = True"
| "reading l c t (LReserve g) = (g = Factory)"
| "reading l c t (LReserveCas g) = (g = Factory)"
| "reading l c t (LCreate g) = (g = Factory \<and> c = 0)"
| "reading l c t (LStore n g) = (g = Factory \<and> c = 1 \<and> (\<exists>a. n = NPtr a))"
| "reading l c t (LStoreCas n e g) = (g = Factory \<and> c = 1 \<and> (\<exists>a. n = NPtr a))"
| "reading l c t LSpin = (0 < seen l t)"
| "reading l c t (LGot r) = (\<exists>a. r = Some a \<and> latest l = NPtr a)"
| "reading l c t _ = False"

text \<open>The only values the atomic has in turn.\<close>

definition one_creation :: "node list \<Rightarrow> nat \<Rightarrow> bool" where
  "one_creation h c \<longleftrightarrow> h = [NEmpty] \<and> c = 0 \<or> h = [NEmpty, NPending] \<or> (\<exists>a. h = [NEmpty, NPending, NPtr a] \<and> c = 1)"

definition read_inv :: "'v lazy \<Rightarrow> bool" where
  "read_inv s \<longleftrightarrow> lazy_inv s \<and> (\<forall>t. reading (cell s) (calls s) t (pcs s t)) \<and> one_creation (history (cell s)) (calls s)"

lemma reading_load: "reading l c u p \<Longrightarrow> loc_ok l \<Longrightarrow> reading (after_load t k l) c u p"
  using loc_ok_after(3)[of l t k] by (cases p) auto

lemma reading_modify: "reading l c u p \<Longrightarrow> loc_ok l \<Longrightarrow> \<not> node_has_value (latest l) \<Longrightarrow> reading (modify t n l) c u p"
  by (cases p) (auto simp: loc_ok_def node_has_value_def is_empty_def is_pending_def)

lemma reading_calls: "reading l c t p \<Longrightarrow> \<not> owner p \<Longrightarrow> reading l c' t p"
  by (cases p) auto

lemma reading_clear: "reading l c t p \<Longrightarrow> clear_step t ch p s = None"
  by (cases p) auto

text \<open>What the loads of \<open>ptr\<close> can return.\<close>

lemma one_creation_load:
  assumes "one_creation (history l) c" "loc_ok l"
  shows "load_value t k l \<noteq> NEmpty \<Longrightarrow> 0 < load_place t k l"
    "0 < seen l t \<Longrightarrow> load_value t k l \<noteq> NPending \<Longrightarrow> \<exists>a. load_value t k l = NPtr a \<and> latest l = NPtr a"
proof -
  have b: "load_place t k l < length (history l)" "seen l t \<le> load_place t k l" using loc_ok_after(3,4)[OF assms(2)] by auto
  show "0 < load_place t k l" if "load_value t k l \<noteq> NEmpty"
    using that assms(1) b by (cases "load_place t k l") (auto simp: one_creation_def load_value_def)
  assume s: "0 < seen l t" and n: "load_value t k l \<noteq> NPending"
  obtain m where m: "load_place t k l = Suc m" using s b(2) by (cases "load_place t k l") auto
  then show "\<exists>a. load_value t k l = NPtr a \<and> latest l = NPtr a"
    using n assms(1) b(1) by (cases m) (auto simp: one_creation_def load_value_def latest_def)
qed

lemma one_creation_latest:
  assumes "one_creation h c"
  shows "last h = NPtr a \<Longrightarrow> h = [NEmpty, NPending, NPtr a] \<and> c = 1"
    "last h = NEmpty \<Longrightarrow> h = [NEmpty] \<and> c = 0" "last h = NPending \<Longrightarrow> h = [NEmpty, NPending]"
  using assms by (auto simp: one_creation_def)

lemma read_inv_step:
  assumes "read_inv s" "read_trans s e s'"
  shows "read_inv s'"
proof -
  have I: "lazy_inv s" and R: "\<And>t. reading (cell s) (calls s) t (pcs s t)" and O: "one_creation (history (cell s)) (calls s)"
    using assms(1) by (auto simp: read_inv_def)
  note ok = lazy_invD(11)[OF I]
  note RL = reading_load[OF R ok] and OL = one_creation_load[OF O ok]
  have "lazy_inv s'" using lazy_objects.inv_step[OF I] assms(2) by (auto simp: read_trans_def)
  moreover have "(\<forall>t. reading (cell s') (calls s') t (pcs s' t)) \<and> one_creation (history (cell s')) (calls s')"
  proof (cases e)
    case (LCall t f)
    with assms(2) have "s' = lgoto t (LReserve Factory) s" by (auto simp: read_trans_def lazy_trans_def split: if_splits)
    with R O show ?thesis by auto
  next
    case (LGo t c)
    have Rt: "reading (cell s) (calls s) t (pcs s t)" by (rule R)
    then have st: "store_step t c (pcs s t) s = Some s'" and c: "c \<noteq> Throw" "c \<noteq> MakeNull" using assms(2) LGo reading_clear[OF Rt]
      by (auto simp: read_trans_def lazy_trans_def split: option.splits)
    show ?thesis
    proof (cases "pcs s t")
      case (LReserve g)
      with st RL O Rt OL(1)[of t "place c"] show ?thesis by (auto simp: is_empty_def after_store_def)
    next
      case (LReserveCas g)
      show ?thesis
      proof (cases "succeeds c \<and> lvalue s = NEmpty")
        case True
        then have h: "history (cell s) = [NEmpty]" "calls s = 0" using one_creation_latest(2)[OF O] by (auto simp: latest_def)
        have s': "s' = lgoto t (LCreate g) (lwrite t NPending s)" using st LReserveCas True by auto
        have "reading (modify t NPending (cell s)) (calls s) u (pcs s u)" for u
          using reading_modify[of "cell s" "calls s" u "pcs s u" t NPending, OF R ok] True by (simp add: node_has_value_def is_empty_def)
        then show ?thesis using h Rt LReserveCas unfolding s' by (auto simp: one_creation_def)
      next
        case False
        with LReserveCas st RL O Rt show ?thesis by auto
      qed
    next
      case (LCreate g)
      have o: "owner (pcs s t)" using LCreate by simp
      then have n: "lvalue s = NPending" by (rule lazy_invD(1)[OF I])
      from st c LCreate obtain a v where s': "s' = lgoto t (LStore (NPtr a) g) (s\<lparr>heap := (heap s)(a := Some v), calls := calls s + (if g = Factory then 1 else 0)\<rparr>)"
        by (auto split: choice.splits if_splits)
      have "reading (cell s) c' u (pcs s u)" if "u \<noteq> t" for u c'
        using reading_calls[OF R, of u c'] lazy_invD(2)[OF I o, of u] that by blast
      moreover have "history (cell s) = [NEmpty, NPending]" using one_creation_latest(3)[OF O] n by (simp add: latest_def)
      ultimately show ?thesis using s' Rt LCreate by (auto simp: one_creation_def)
    next
      case (LStore a g)
      with st RL O Rt show ?thesis by auto
    next
      case (LStoreCas n e' g)
      then have v: "lvalue s = NPending" using lazy_invD(1)[OF I, of t] by simp
      then have h: "history (cell s) = [NEmpty, NPending]" using one_creation_latest(3)[OF O] by (simp add: latest_def)
      show ?thesis
      proof (cases "succeeds c \<and> lvalue s = e'")
        case True
        then have s': "s' = lgoto t (after_store g) (lwrite t n s)" using st LStoreCas by auto
        have "reading (modify t n (cell s)) (calls s) u (pcs s u)" for u
          using reading_modify[of "cell s" "calls s" u "pcs s u" t n, OF R ok] v by (simp add: node_has_value_def is_empty_def is_pending_def)
        then show ?thesis using h Rt LStoreCas unfolding s' by (auto simp: after_store_def one_creation_def)
      next
        case False
        with LStoreCas st RL O Rt show ?thesis by auto
      qed
    next
      case LSpin
      have "0 < seen (cell s) t" using Rt LSpin by simp
      moreover from this have "0 < load_place t (place c) (cell s)" using loc_ok_after(3)[OF ok, of t "place c"] by linarith
      ultimately show ?thesis using LSpin st RL O OL(2)[of t "place c"] by (auto simp: is_pending_def Let_def)
    qed (use st in auto)
  qed
  ultimately show ?thesis by (simp add: read_inv_def)
qed

interpretation lazy_readers: step_invariant read_trans lazy_new read_inv
proof
  show "read_inv lazy_new" using lazy_objects.inv_start by (simp add: read_inv_def lazy_new_def one_creation_def)
qed (rule read_inv_step)

text \<open>C24: When threads only read a lazy value, with a factory that makes an object each time, the factory is called at most once,
  and all of them get the same pointer, to the object it has made; every load may return an old value.\<close>

theorem lazy_atomic_created_once:
  assumes "reachable read_trans lazy_new s" "pcs s t = LGot r" "pcs s u = LGot r'"
  shows "\<exists>a. r = Some a \<and> r' = Some a \<and> lvalue s = NPtr a \<and> heap s a \<noteq> None \<and> calls s = 1"
proof -
  have I: "read_inv s" by (rule lazy_readers.inv_reachable[OF assms(1)])
  then have "reading (cell s) (calls s) t (pcs s t)" "reading (cell s) (calls s) u (pcs s u)"
    by (simp_all add: read_inv_def)
  then obtain a where a: "r = Some a" "r' = Some a" "lvalue s = NPtr a" using assms(2,3) by auto
  moreover from a(3) have "heap s a \<noteq> None" using I lazy_invD(4) by (auto simp: read_inv_def)
  moreover have "calls s = 1" using I one_creation_latest(1) a(3) by (auto simp: read_inv_def latest_def)
  ultimately show ?thesis by blast
qed

lemma read_run_reachable: "lazy_run es lazy_new = Some s \<Longrightarrow> list_all reads_only es \<Longrightarrow> reachable read_trans lazy_new s"
proof -
  have "lazy_run es s0 = Some s \<Longrightarrow> list_all reads_only es \<Longrightarrow> exec read_trans s0 es s" for s0
    by (induction es arbitrary: s0) (auto split: option.splits simp: read_trans_def lazy_trans_def intro: exec_nil exec_cons)
  then show "lazy_run es lazy_new = Some s \<Longrightarrow> list_all reads_only es \<Longrightarrow> reachable read_trans lazy_new s"
    unfolding reachable_def by blast
qed

theorem lazy_atomic_created_once_witness:
  "\<exists>s. reachable read_trans lazy_new s \<and> pcs s 0 = LGot (Some 7) \<and> pcs s 1 = LGot (Some 7) \<and> heap s 7 = Some (42 :: nat) \<and> calls s = 1"
proof -
  let ?es = "take 7 get_then_clear @ [LCall 1 CallPtr, LGo 1 (Go 0), LGo 1 (Go 0), LGo 1 (Go 1), LGo 1 (Go 1), LGo 1 (Go 2)]"
  obtain s where s: "lazy_run ?es lazy_new = Some s" "pcs s 0 = LGot (Some 7)" "pcs s 1 = LGot (Some 7)" "heap s 7 = Some 42"
    by (simp add: lazy_eval)
  have r: "reachable read_trans lazy_new s" by (rule read_run_reachable[OF s(1)]) (simp add: get_then_clear_def)
  from lazy_atomic_created_once[OF r s(2,3)] r s show ?thesis by auto
qed

section \<open>A factory that throws\<close>

definition abandoned :: "'v lazy \<Rightarrow> bool" where
  "abandoned s \<longleftrightarrow> loc_ok (cell s) \<and> lvalue s = NPending \<and> (\<forall>t. \<not> owner (pcs s t))"

text \<open>The thread has seen the last value.\<close>

definition up_to_date :: "nat \<Rightarrow> 'v lazy \<Rightarrow> bool" where
  "up_to_date t s \<longleftrightarrow> Suc (seen (cell s) t) = length (history (cell s))"

lemma abandoned_store:
  assumes "abandoned s" "store_step t c (pcs s t) s = Some s'"
  shows "\<exists>p. s' = lgoto t p (lload t (place c) s) \<and> \<not> owner p \<and> (up_to_date t s \<longrightarrow> (\<forall>r. p \<noteq> LGot r))"
proof -
  have ok: "loc_ok (cell s)" and no: "\<not> owner (pcs s t)" and v: "lvalue s = NPending" using assms(1) by (simp_all add: abandoned_def)
  have p: "load_value t k (cell s) = NPending" if "up_to_date t s" for k
    using load_last(1)[OF ok] that v by (simp add: up_to_date_def)
  show ?thesis using assms(2) no v p
    by (cases "pcs s t") (auto simp: after_store_def is_pending_def Let_def split: if_splits source.splits)
qed

lemma abandoned_clear:
  assumes "abandoned s" "clear_step t c (pcs s t) s = Some s'"
  shows "\<exists>p. s' = s\<lparr>cell := cell s', heap := heap s', pcs := (pcs s)(t := p)\<rparr> \<and> (cell s' = cell s \<or> cell s' = after_load t (place c) (cell s)) \<and>
    \<not> owner p \<and> (\<forall>r. p \<noteq> LGot r)"
proof -
  have v: "lvalue s = NPending" using assms(1) by (simp add: abandoned_def)
  show ?thesis
  proof (cases "pcs s t")
    case (LDestroy a k)
    then show ?thesis using assms(2) by (auto simp: after_clear_def split: if_splits option.splits)
  qed (use assms(2) v in \<open>auto simp: after_clear_def split: if_splits option.splits node.splits\<close>)
qed

lemma abandoned_step:
  assumes "abandoned s" "lazy_trans s e s'"
  shows "abandoned s' \<and> (up_to_date u s \<longrightarrow> up_to_date u s' \<and> (pcs s' u = LGot r \<longrightarrow> pcs s u = LGot r))"
proof (cases e)
  case (LCall t f)
  with assms show ?thesis by (cases f) (auto simp: abandoned_def lazy_trans_def up_to_date_def split: if_splits)
next
  case (LGo t c)
  have ok: "loc_ok (cell s)" using assms(1) by (simp add: abandoned_def)
  have up: "load_place t (place c) (cell s) = seen (cell s) t" if "up_to_date t s"
    using load_last(2)[OF ok] that by (simp add: up_to_date_def)
  show ?thesis
  proof (cases "store_step t c (pcs s t) s")
    case None
    with assms(2) LGo have "clear_step t c (pcs s t) s = Some s'" by (simp add: lazy_trans_def)
    from abandoned_clear[OF assms(1) this] obtain p where
      "s' = s\<lparr>cell := cell s', heap := heap s', pcs := (pcs s)(t := p)\<rparr>" "cell s' = cell s \<or> cell s' = after_load t (place c) (cell s)"
      "\<not> owner p" "\<forall>r. p \<noteq> LGot r" by blast
    then show ?thesis using assms(1) up loc_ok_after(1)[OF ok, of t "place c"]
      by (cases s, cases s') (auto simp: abandoned_def up_to_date_def split: if_splits)
  next
    case (Some x)
    with assms(2) LGo have "store_step t c (pcs s t) s = Some s'" by (simp add: lazy_trans_def)
    from abandoned_store[OF assms(1) this] show ?thesis using assms(1) up loc_ok_after(1)[OF ok, of t "place c"]
      by (auto simp: abandoned_def up_to_date_def split: if_splits)
  qed
qed

lemma abandoned_exec:
  "exec lazy_trans s es s' \<Longrightarrow> abandoned s \<Longrightarrow> up_to_date u s \<longrightarrow> up_to_date u s' \<and> (pcs s' u = LGot r \<longrightarrow> pcs s u = LGot r)"
  "exec lazy_trans s es s' \<Longrightarrow> abandoned s \<Longrightarrow> abandoned s'"
  by (induction rule: exec.induct) (use abandoned_step in blast)+

text \<open>When the factory throws an exception, the place stays reserved for ever: from then on no thread that has seen this gets a
  value any more, whatever the threads do. (One that has not may still read a pointer from before the last \<open>clear\<close>.)\<close>

theorem lazy_atomic_throw_blocks:
  assumes "reachable lazy_trans lazy_new s" "pcs s t = LCreate Factory" "lazy_trans s (LGo t Throw) s1" "exec lazy_trans s1 es s2"
  shows "lvalue s2 = NPending \<and> (up_to_date u s1 \<and> pcs s2 u = LGot r \<longrightarrow> pcs s1 u = LGot r)"
proof -
  have I: "lazy_inv s" by (rule lazy_objects.inv_reachable[OF assms(1)])
  have o: "owner (pcs s t)" using assms(2) by simp
  have "s1 = lgoto t LRaised s" using assms(2,3) by (simp add: lazy_trans_def)
  then have "abandoned s1" using lazy_invD(11)[OF I] lazy_invD(1)[OF I o] lazy_invD(2)[OF I o] by (auto simp: abandoned_def)
  with abandoned_exec[OF assms(4) this] show ?thesis by (auto simp: abandoned_def)
qed

theorem lazy_atomic_throw_blocks_witness:
  "\<exists>s2 :: nat lazy. exec lazy_trans lazy_new [LCall 0 CallPtr, LGo 0 (Go 0), LGo 0 (Go 0), LGo 0 Throw, LCall 0 CallPtr, LGo 0 (Go 0), LGo 0 (Go 0)] s2 \<and>
     lvalue s2 = NPending \<and> pcs s2 0 = LSpin"
proof -
  let ?es = "[LCall 0 CallPtr, LGo 0 (Go 0), LGo 0 (Go 0)] :: nat levent list"
    and ?fs = "[LCall 0 CallPtr, LGo 0 (Go 0), LGo 0 (Go 0)] :: nat levent list"
  obtain s s1 s2 :: "nat lazy" where s: "lazy_run ?es lazy_new = Some s" "pcs s 0 = LCreate Factory"
    "lazy_step (LGo 0 Throw) s = Some s1" "lazy_run ?fs s1 = Some s2" "lazy_run (?es @ LGo 0 Throw # ?fs) lazy_new = Some s2" "pcs s2 0 = LSpin"
    by (simp add: lazy_eval)
  have t: "lazy_trans s (LGo 0 Throw) s1" using s(3) by (simp add: lazy_trans_def)
  from lazy_atomic_throw_blocks[OF lazy_run_reachable[OF s(1)] s(2) t lazy_run_exec[OF s(4)], of 0 None]
  show ?thesis using lazy_run_exec[OF s(5)] s(6) by auto
qed

section \<open>The swap loops\<close>

text \<open>\<open>atomic_swap\<close> with a factory \<open>f\<close> (a constant one for the first overload) and \<open>atomic_swap_if\<close> with a condition as well.
  The threads run one swap each; \<open>slog\<close> is a ghost list of the exchanges that succeeded. An event gives the thread, whether a weak
  exchange fails spuriously, and the place a load would like to read.\<close>

datatype 'a spc =
    SwLoad
  | SwCas 'a 'a
  | IfLoad
  | IfLoad2
  | IfCas 'a 'a
  | SwDone 'a

record 'a swaps =
  satom :: "'a location"
  spcs :: "nat \<Rightarrow> 'a spc"
  slog :: "(nat \<times> 'a \<times> 'a) list"

type_synonym sevent = "nat \<times> bool \<times> nat"

abbreviation sgoto :: "nat \<Rightarrow> 'a spc \<Rightarrow> 'a swaps \<Rightarrow> 'a swaps" where
  "sgoto t p s \<equiv> s\<lparr>spcs := (spcs s)(t := p)\<rparr>"

abbreviation sload :: "nat \<Rightarrow> nat \<Rightarrow> 'a swaps \<Rightarrow> 'a swaps" where
  "sload t k s \<equiv> s\<lparr>satom := after_load t k (satom s)\<rparr>"

definition exchange :: "nat \<Rightarrow> 'a \<Rightarrow> 'a \<Rightarrow> 'a swaps \<Rightarrow> 'a swaps" where
  "exchange t x y s = s\<lparr>satom := modify t y (satom s), spcs := (spcs s)(t := SwDone x), slog := slog s @ [(t, x, y)]\<rparr>"

fun swap_step :: "(nat \<Rightarrow> 'a \<Rightarrow> 'a) \<Rightarrow> (nat \<Rightarrow> 'a \<Rightarrow> bool) \<Rightarrow> sevent \<Rightarrow> 'a spc \<Rightarrow> 'a swaps \<Rightarrow> 'a swaps option" where
  "swap_step f cond (t, spurious, k) SwLoad s =
     (let x = load_value t k (satom s) in Some (sgoto t (SwCas x (f t x)) (sload t k s)))"
| "swap_step f cond (t, spurious, k) (SwCas x y) s =
     Some (if \<not> spurious \<and> latest (satom s) = x then exchange t x y s else sgoto t SwLoad (sload t k s))"
| "swap_step f cond (t, spurious, k) IfLoad s =
     (let x = load_value t k (satom s) in Some (sgoto t (if \<not> cond t x then SwDone x else IfLoad2) (sload t k s)))"
| "swap_step f cond (t, spurious, k) IfLoad2 s =
     (let x = load_value t k (satom s) in Some (sgoto t (IfCas x (f t x)) (sload t k s)))"
| "swap_step f cond (t, spurious, k) (IfCas x y) s =
     Some (if \<not> spurious \<and> latest (satom s) = x then exchange t x y s else sgoto t IfLoad (sload t k s))"
| "swap_step f cond (t, spurious, k) (SwDone x) s = None"

definition swap_trans :: "(nat \<Rightarrow> 'a \<Rightarrow> 'a) \<Rightarrow> (nat \<Rightarrow> 'a \<Rightarrow> bool) \<Rightarrow> 'a swaps \<Rightarrow> sevent \<Rightarrow> 'a swaps \<Rightarrow> bool" where
  "swap_trans f cond s e s' \<longleftrightarrow> swap_step f cond e (spcs s (fst e)) s = Some s'"

definition swaps_new :: "'a \<Rightarrow> (nat \<Rightarrow> bool) \<Rightarrow> 'a swaps" where
  "swaps_new x conditional = \<lparr>satom = loc_new x, spcs = (\<lambda>t. if conditional t then IfLoad else SwLoad), slog = []\<rparr>"

text \<open>The exchanges of the log one after the other.\<close>

fun replay :: "(nat \<Rightarrow> 'a \<Rightarrow> 'a) \<Rightarrow> 'a \<Rightarrow> (nat \<times> 'a \<times> 'a) list \<Rightarrow> 'a option" where
  "replay f x [] = Some x"
| "replay f x ((t, a, b) # es) = (if a = x \<and> b = f t a then replay f b es else None)"

lemma replay_append: "replay f x (es @ fs) = (case replay f x es of None \<Rightarrow> None | Some y \<Rightarrow> replay f y fs)"
  by (induction f x es rule: replay.induct) auto

text \<open>What holds of a thread: a pending exchange has the value the factory gives; a thread is done when it has exchanged, or, in
  \<open>atomic_swap_if\<close>, has read a value of the atomic for which the condition is false.\<close>

definition swapped :: "(nat \<Rightarrow> 'a \<Rightarrow> bool) \<Rightarrow> (nat \<Rightarrow> bool) \<Rightarrow> 'a swaps \<Rightarrow> nat \<Rightarrow> 'a \<Rightarrow> bool" where
  "swapped cond cd s t a \<longleftrightarrow> (\<exists>b. (t, a, b) \<in> set (slog s)) \<or> (cd t \<and> \<not> cond t a \<and> a \<in> set (history (satom s)))"

fun spc_ok :: "(nat \<Rightarrow> 'a \<Rightarrow> 'a) \<Rightarrow> (nat \<Rightarrow> 'a \<Rightarrow> bool) \<Rightarrow> (nat \<Rightarrow> bool) \<Rightarrow> 'a swaps \<Rightarrow> nat \<Rightarrow> 'a spc \<Rightarrow> bool" where
  "spc_ok f cond cd s t SwLoad = True"
| "spc_ok f cond cd s t (SwCas a b) = (b = f t a)"
| "spc_ok f cond cd s t IfLoad = cd t"
| "spc_ok f cond cd s t IfLoad2 = cd t"
| "spc_ok f cond cd s t (IfCas a b) = (cd t \<and> b = f t a)"
| "spc_ok f cond cd s t (SwDone a) = swapped cond cd s t a"

definition swap_inv :: "(nat \<Rightarrow> 'a \<Rightarrow> 'a) \<Rightarrow> (nat \<Rightarrow> 'a \<Rightarrow> bool) \<Rightarrow> (nat \<Rightarrow> bool) \<Rightarrow> 'a \<Rightarrow> 'a swaps \<Rightarrow> bool" where
  "swap_inv f cond cd x s \<longleftrightarrow> loc_ok (satom s) \<and> history (satom s) = x # map (snd \<circ> snd) (slog s) \<and>
     replay f x (slog s) = Some (latest (satom s)) \<and> distinct (map fst (slog s)) \<and>
     (\<forall>e \<in> set (slog s). spcs s (fst e) = SwDone (fst (snd e))) \<and> (\<forall>t. spc_ok f cond cd s t (spcs s t))"

lemma spc_ok_load: "spc_ok f cond cd (s\<lparr>satom := after_load t k (satom s), spcs := p\<rparr>) u q = spc_ok f cond cd s u q"
  by (cases q) (auto simp: swapped_def)

lemma spc_ok_exchange: "spc_ok f cond cd s u q \<Longrightarrow> spc_ok f cond cd (exchange t x y s) u q"
  by (cases q) (auto simp: swapped_def exchange_def)

lemma swap_inv_goto:
  assumes "swap_inv f cond cd x s" "\<And>a. spcs s t \<noteq> SwDone a" "spc_ok f cond cd s t p"
  shows "swap_inv f cond cd x (s\<lparr>satom := after_load t k (satom s), spcs := (spcs s)(t := p)\<rparr>)"
proof -
  have "fst e \<noteq> t" if "e \<in> set (slog s)" for e using assms(1,2) that by (auto simp: swap_inv_def)
  with assms(1,3) show ?thesis by (simp add: swap_inv_def spc_ok_load loc_ok_after)
qed

lemma swap_inv_exchange:
  assumes "swap_inv f cond cd x s" "\<And>a. spcs s t \<noteq> SwDone a" "y = f t (latest (satom s))"
  shows "swap_inv f cond cd x (exchange t (latest (satom s)) y s)"
proof -
  let ?s = "exchange t (latest (satom s)) y s"
  have n: "fst e \<noteq> t" if "e \<in> set (slog s)" for e using assms(1,2) that by (auto simp: swap_inv_def)
  then have "t \<notin> fst ` set (slog s)" by auto
  moreover have "spc_ok f cond cd ?s u (spcs ?s u)" for u
    using spc_ok_exchange[of f cond cd s u "spcs s u" t] assms(1) by (auto simp: swap_inv_def exchange_def swapped_def)
  ultimately show ?thesis using assms(1,3) n unfolding swap_inv_def
    by (auto simp: exchange_def replay_append loc_ok_after)
qed

lemma load_history: "loc_ok l \<Longrightarrow> load_value t k l \<in> set (history l)"
  using loc_ok_after(4)[of l t k] by (simp add: load_value_def)

interpretation swaps: step_invariant "swap_trans f cond" "swaps_new x cd" "swap_inv f cond cd x" for f cond x cd
proof
  show "swap_inv f cond cd x (swaps_new x cd)" by (simp add: swap_inv_def swaps_new_def)
next
  fix s s' and e :: sevent
  obtain t sp k where e: "e = (t, sp, k)" by (cases e) auto
  assume I: "swap_inv f cond cd x s" and "swap_trans f cond s e s'"
  then have st: "swap_step f cond (t, sp, k) (spcs s t) s = Some s'" by (simp add: swap_trans_def e)
  have ok: "spc_ok f cond cd s t (spcs s t)" and l: "loc_ok (satom s)" using I by (simp_all add: swap_inv_def)
  show "swap_inv f cond cd x s'"
    using st ok load_history[OF l, of t k]
    by (cases "spcs s t") (auto simp: Let_def swapped_def intro!: swap_inv_goto[OF I] swap_inv_exchange[OF I] split: if_splits)
qed

text \<open>C33: Any number of threads that swap an atomic value, with loads that may return old values and weak exchanges that may fail,
  exchange it one after the other: the values of the atomic are the results of the exchanges in the order of the log, each thread has
  exchanged at most once, and one that has returned has exchanged exactly the value it returns by what its factory
  gives for it, or (in \<open>atomic_swap_if\<close>) has read it from the atomic and its condition was false.\<close>

theorem atomic_swap_linear:
  assumes "reachable (swap_trans f cond) (swaps_new x cd) s"
  shows "history (satom s) = x # map (snd \<circ> snd) (slog s) \<and> replay f x (slog s) = Some (latest (satom s)) \<and> distinct (map fst (slog s)) \<and>
    (\<forall>t a. spcs s t = SwDone a \<longrightarrow> (\<exists>b. (t, a, b) \<in> set (slog s)) \<or> (cd t \<and> \<not> cond t a \<and> a \<in> set (history (satom s))))"
proof -
  have I: "swap_inv f cond cd x s" by (rule swaps.inv_reachable[OF assms])
  moreover have "(\<exists>b. (t, a, b) \<in> set (slog s)) \<or> (cd t \<and> \<not> cond t a \<and> a \<in> set (history (satom s)))" if "spcs s t = SwDone a" for t a
  proof -
    have "spc_ok f cond cd s t (SwDone a)" using I that unfolding swap_inv_def by metis
    then show ?thesis by (simp add: swapped_def)
  qed
  ultimately show ?thesis unfolding swap_inv_def by blast
qed

fun swap_run :: "(nat \<Rightarrow> 'a \<Rightarrow> 'a) \<Rightarrow> (nat \<Rightarrow> 'a \<Rightarrow> bool) \<Rightarrow> sevent list \<Rightarrow> 'a swaps \<Rightarrow> 'a swaps option" where
  "swap_run f cond [] s = Some s"
| "swap_run f cond (e # es) s = (case swap_step f cond e (spcs s (fst e)) s of None \<Rightarrow> None | Some s' \<Rightarrow> swap_run f cond es s')"

lemma swap_run_reachable: "swap_run f cond es s = Some s' \<Longrightarrow> reachable (swap_trans f cond) s s'"
proof -
  have "swap_run f cond es s = Some s' \<Longrightarrow> exec (swap_trans f cond) s es s'"
    by (induction es arbitrary: s) (auto split: option.splits simp: swap_trans_def intro: exec_nil exec_cons)
  then show "swap_run f cond es s = Some s' \<Longrightarrow> reachable (swap_trans f cond) s s'" unfolding reachable_def by blast
qed

lemmas swap_eval = swaps_new_def exchange_def loc_new_def latest_def load_place_def load_value_def after_load_def modify_def Let_def

text \<open>Thread 0 reads an old value, fails, fails again spuriously and then exchanges.\<close>

theorem atomic_swap_linear_witness:
  "\<exists>s. reachable (swap_trans (\<lambda>t v. v + 1) (\<lambda>t v. True)) (swaps_new (0 :: nat) (\<lambda>t. False)) s \<and>
     spcs s 0 = SwDone 1 \<and> spcs s 1 = SwDone 0 \<and> history (satom s) = [0, 1, 2] \<and> (\<exists>b. (0, 1, b) \<in> set (slog s))"
proof -
  let ?f = "\<lambda>t v. v + 1 :: nat" and ?es = "[(1, False, 0), (1, False, 0), (0, False, 0), (0, False, 0), (0, False, 1), (0, True, 0), (0, False, 9), (0, False, 0)]"
  obtain s where s: "swap_run ?f (\<lambda>t v. True) ?es (swaps_new 0 (\<lambda>t. False)) = Some s" "spcs s 0 = SwDone 1" "spcs s 1 = SwDone 0" "history (satom s) = [0, 1, 2]"
    by (simp add: swap_eval)
  have "\<exists>b. (0, 1, b) \<in> set (slog s)" using atomic_swap_linear[OF swap_run_reachable[OF s(1)]] s(2) by blast
  with swap_run_reachable[OF s(1)] s(2-4) show ?thesis by blast
qed

text \<open>\<open>atomic_swap_if\<close> loads the value again after it has checked the condition: it can exchange a value for which the condition
  does not hold.\<close>

lemma atomic_swap_if_unchecked:
  "\<exists>s. reachable (swap_trans (\<lambda>t v. if t = 0 then 200 else 30) (\<lambda>t v. 50 < v)) (swaps_new (100 :: nat) (\<lambda>t. t = 0)) s \<and>
     (0, 30, 200) \<in> set (slog s)"
proof -
  let ?f = "\<lambda>t v. if t = 0 then 200 else 30 :: nat" and ?es = "[(0, False, 0), (1, False, 0), (1, False, 0), (0, False, 9), (0, False, 0)] :: sevent list"
  obtain s where s: "swap_run ?f (\<lambda>t v. 50 < v) ?es (swaps_new 100 (\<lambda>t. t = 0)) = Some s" "(0, 30, 200) \<in> set (slog s)"
    by (simp add: swap_eval)
  then show ?thesis using swap_run_reachable by blast
qed

section \<open>The acquire lock\<close>

text \<open>\<open>acquire_lock\<close>: the value loaded and a copy to change, and one attempt at its destruction to store it.\<close>

definition lock_acquire :: "nat \<Rightarrow> nat \<Rightarrow> 'a location \<Rightarrow> ('a \<times> 'a) \<times> 'a location" where
  "lock_acquire t k l = ((load_value t k l, load_value t k l), after_load t k l)"

definition lock_release :: "nat \<Rightarrow> bool \<Rightarrow> nat \<Rightarrow> 'a \<times> 'a \<Rightarrow> 'a location \<Rightarrow> 'a location" where
  "lock_release t spurious k old_new l =
     (if fst old_new \<noteq> snd old_new
      then if \<not> spurious \<and> latest l = fst old_new then modify t (snd old_new) l else after_load t k l
      else l)"

text \<open>An exchange that fails, because the atomic was changed meanwhile or for no reason, loses the changed value.\<close>

lemma lock_release_lost:
  "latest (lock_release t True k (x, y) l) = latest l" "latest l \<noteq> x \<Longrightarrow> latest (lock_release t spurious k (x, y) l) = latest l"
  "fst (lock_acquire t k l) = (x, x) \<Longrightarrow> latest l \<noteq> x \<Longrightarrow> latest (lock_release t spurious j (x, y) (snd (lock_acquire t k l))) = latest l"
  by (simp_all add: lock_release_def lock_acquire_def)

end
