(* ===== verification/RingFile.thy ===== *)
theory RingFile
  imports TxlPrelude
begin

text \<open>
  \<^verbatim>\<open>include/txl/ring_buffer_file.h\<close>: a ring of entries in a memory-mapped file. The file holds its head and tail
  and the bytes of the ring; a writer or reader has cursors of its own. An entry is its size in four bytes
  (little endian) and its data, and never crosses the end of the ring: a size of zero, or less than
  four bytes, at the end means that the next entry is at the start. The cursors only grow; they are taken as unbounded
  (the 64 bits of the code overflow after 16 exabytes), the sum that the code compares is taken modulo
  \<open>2 ^ 64\<close>. \<open>None\<close> is a loop that does not end.
\<close>

section \<open>Bytes\<close>

definition enc32 :: "nat \<Rightarrow> 8 word list" where
  "enc32 n = [of_nat n, of_nat (n div 256), of_nat (n div 65536), of_nat (n div 16777216)]"

definition dec32 :: "8 word list \<Rightarrow> nat" where
  "dec32 bs = unat (bs ! 0) + 256 * unat (bs ! 1) + 65536 * unat (bs ! 2) + 16777216 * unat (bs ! 3)"

definition put_bytes :: "nat \<Rightarrow> 'a list \<Rightarrow> 'a list \<Rightarrow> 'a list" where
  "put_bytes p bs m = take p m @ bs @ drop (p + length bs) m"

section \<open>State\<close>

record ring_file =
  rmem :: "8 word list"
  fhead :: nat
  ftail :: nat

record cursors =
  chead :: nat
  ctail :: nat

definition ENTRY_SIZE :: nat where "ENTRY_SIZE = 4"

definition total_entry_size :: "nat \<Rightarrow> nat" where
  "total_entry_size n = ENTRY_SIZE + n"

text \<open>\<open>cursor_entry\<close>: the position of the entry at a cursor, \<open>None\<close> for the null pointer when four bytes do not fit.\<close>

definition cursor_entry :: "8 word list \<Rightarrow> nat \<Rightarrow> nat option" where
  "cursor_entry m c = (let p = c mod length m in if p + ENTRY_SIZE \<le> length m then Some p else None)"

definition esize :: "8 word list \<Rightarrow> nat \<Rightarrow> nat" where
  "esize m p = dec32 (take 4 (drop p m))"

definition to_end :: "8 word list \<Rightarrow> nat \<Rightarrow> nat" where
  "to_end m c = length m - c mod length m"

definition end_mark :: "8 word list \<Rightarrow> nat \<Rightarrow> bool" where
  "end_mark m c = (case cursor_entry m c of None \<Rightarrow> True | Some p \<Rightarrow> esize m p = 0)"

section \<open>Reading\<close>

text \<open>\<open>read\<close>: the data of the entry at the head, or nothing at the tail of the file.\<close>

definition entry_data :: "8 word list \<Rightarrow> nat \<Rightarrow> 8 word list res" where
  "entry_data m p = (if p + ENTRY_SIZE + esize m p \<le> length m then Inr (take (esize m p) (drop (p + ENTRY_SIZE) m)) else Inl UB)"

definition rf_read :: "ring_file \<Rightarrow> cursors \<Rightarrow> (8 word list option \<times> cursors) res" where
  "rf_read f c0 =
     (let m = rmem f; c = (if fhead f > chead c0 then \<lparr>chead = fhead f, ctail = ftail f\<rparr> else c0)
      in if length m = 0 then Inl UB
         else if chead c \<ge> ftail f then Inr (None, c)
         else let c1 = (if end_mark m (chead c) then c\<lparr>chead := chead c + to_end m (chead c)\<rparr> else c)
           in if end_mark m (chead c) \<and> chead c1 \<ge> ftail f then Inr (None, c1)
              else (case cursor_entry m (chead c1) of
                  None \<Rightarrow> Inl UB
                | Some p \<Rightarrow> and_then (entry_data m p) (\<lambda>d. Inr (Some d, c1\<lparr>chead := chead c1 + total_entry_size (esize m p)\<rparr>))))"

section \<open>Writing\<close>

text \<open>The body of the loop that moves the head forward: an end mark is skipped and its bytes are zeroed, then the entry
  is marked empty.\<close>

definition drop_entry :: "8 word list \<Rightarrow> nat \<Rightarrow> (8 word list \<times> nat) res" where
  "drop_entry m h =
     (let (m1, h1) = (if end_mark m h then (put_bytes (h mod length m) (replicate (to_end m h) 0) m, h + to_end m h) else (m, h))
      in (case cursor_entry m1 h1 of
          None \<Rightarrow> Inl UB
        | Some p \<Rightarrow> Inr (put_bytes p (enc32 0) m1, h1 + total_entry_size (esize m1 p))))"

definition no_room :: "nat \<Rightarrow> nat \<Rightarrow> nat \<Rightarrow> int \<Rightarrow> nat \<Rightarrow> nat \<Rightarrow> bool" where
  "no_room len h t extra needed pad \<longleftrightarrow> int len \<le> (int t - int h + extra + int needed + int pad) mod 2 ^ 64"

partial_function (option) make_room :: "nat \<Rightarrow> int \<Rightarrow> nat \<Rightarrow> nat \<Rightarrow> 8 word list \<Rightarrow> nat \<Rightarrow> (8 word list \<times> nat) res option" where
  "make_room t extra needed pad m h =
     (if no_room (length m) h t extra needed pad
      then (case drop_entry m h of Inl e \<Rightarrow> Some (Inl e) | Inr (m', h') \<Rightarrow> make_room t extra needed pad m' h')
      else Some (Inr (m, h)))"

definition put_entry :: "8 word list \<Rightarrow> nat \<Rightarrow> 8 word list \<Rightarrow> 8 word list res" where
  "put_entry m c d = (case cursor_entry m c of
       None \<Rightarrow> Inl UB
     | Some p \<Rightarrow> if p + ENTRY_SIZE + length d \<le> length m then Inr (put_bytes p (enc32 (length d) @ d) m) else Inl UB)"

text \<open>\<open>write\<close>: \<open>extra_bytes_needed\<close> is an \<^verbatim>\<open>int\<close>.\<close>

definition rf_write :: "nat \<Rightarrow> 8 word list \<Rightarrow> ring_file \<Rightarrow> cursors \<Rightarrow> (8 word list \<times> ring_file \<times> cursors) res option" where
  "rf_write pad d f c =
     (let bytes_needed = total_entry_size (length d); m = rmem f
      in if length m = 0 then Some (Inl UB)
         else let tte = to_end m (ctail c);
                  extra = (if tte < bytes_needed then sint (of_nat tte :: 32 word) else 0)
           in run_bind (make_room (ctail c) extra bytes_needed pad m (chead c)) (\<lambda>(m1, h).
              let (m2, t) = (if bytes_needed \<le> tte then (m1, ctail c)
                    else if ENTRY_SIZE \<le> tte then (put_bytes (ctail c mod length m1) (enc32 0) m1, ctail c + tte)
                    else (m1, ctail c + tte))
              in run_bind (Some (put_entry m2 t d)) (\<lambda>m3.
                 let c' = \<lparr>chead = h, ctail = t + bytes_needed\<rparr>
                 in Some (Inr (d, \<lparr>rmem = m3, fhead = chead c', ftail = ctail c'\<rparr>, c')))))"

text \<open>A new file of \<open>max_size\<close> bytes is truncated to zeros; the cursors with their padding take the first 144. The padding
  keeps a part of the ring free between the head and the tail.\<close>

definition CURSOR_BYTES :: nat where "CURSOR_BYTES = 144"

definition ring_padding :: "nat \<Rightarrow> nat \<Rightarrow> nat" where
  "ring_padding max_size ring_size = max_size - min max_size ring_size"

definition rf_new :: "nat \<Rightarrow> ring_file \<times> cursors" where
  "rf_new max_size = (\<lparr>rmem = replicate (max_size - CURSOR_BYTES) 0, fhead = 0, ftail = 0\<rparr>, \<lparr>chead = 0, ctail = 0\<rparr>)"

section \<open>Memory\<close>

lemma length_put_bytes [simp]: "p + length bs \<le> length m \<Longrightarrow> length (put_bytes p bs m) = length m"
  by (simp add: put_bytes_def)

lemma nth_put_bytes:
  "p + length bs \<le> length m \<Longrightarrow> i < length m \<Longrightarrow>
     put_bytes p bs m ! i = (if p \<le> i \<and> i < p + length bs then bs ! (i - p) else m ! i)"
  by (auto simp: put_bytes_def nth_append min_def)

lemma take_drop_put_bytes: "p + length bs \<le> length m \<Longrightarrow> take (length bs) (drop p (put_bytes p bs m)) = bs"
  by (simp add: put_bytes_def)

lemma length_enc32 [simp]: "length (enc32 n) = 4" by (simp add: enc32_def)

lemma dec_enc32:
  assumes "n < 2 ^ 32"
  shows "dec32 (enc32 n) = n"
proof -
  define a b c where "a = n div 256" and "b = a div 256" and "c = b div 256"
  have d: "n div 65536 = b" "n div 16777216 = c" by (simp_all add: a_def b_def c_def div_mult2_eq[symmetric])
  have c: "c < 256" using assms by (simp add: d(2)[symmetric] less_mult_imp_div_less)
  moreover have "n = n mod 256 + 256 * a" "a = a mod 256 + 256 * b" "b = b mod 256 + 256 * c"
    by (simp_all add: a_def b_def c_def)
  ultimately have "n mod 256 + 256 * (n div 256 mod 256) + 65536 * (n div 65536 mod 256) + 16777216 * (n div 16777216 mod 256) = n"
    unfolding d a_def[symmetric] by simp
  moreover have "n div 16777216 mod 256 = n div 16777216" using c d(2) by simp
  ultimately show ?thesis by (simp add: dec32_def enc32_def unat_of_nat)
qed

lemma mod_add_small: "h mod n + i < n \<Longrightarrow> (h + i) mod n = h mod n + (i :: nat)"
  by (subst mod_add_left_eq[symmetric]) (rule mod_less)

text \<open>Two absolute positions less than a round apart are different places of the ring.\<close>

lemma mod_window:
  assumes "x < y" "y < x + (n :: nat)"
  shows "x mod n \<noteq> y mod n"
proof
  assume "x mod n = y mod n"
  then have "n dvd y - x" using assms by (metis mod_eq_dvd_iff_nat less_imp_le)
  moreover have "0 < y - x" "y - x < n" using assms by simp_all
  ultimately show False by (meson nat_dvd_not_less)
qed

section \<open>The layout of the ring\<close>

definition entry_at :: "8 word list \<Rightarrow> nat \<Rightarrow> 8 word list \<Rightarrow> bool" where
  "entry_at m c d \<longleftrightarrow> c mod length m + (4 + length d) \<le> length m \<and> 0 < length d \<and> length d < 2 ^ 32 \<and>
     take (4 + length d) (drop (c mod length m) m) = enc32 (length d) @ d"

text \<open>The entries from a cursor to the tail.\<close>

inductive layout :: "8 word list \<Rightarrow> nat \<Rightarrow> 8 word list list \<Rightarrow> nat \<Rightarrow> bool" for m where
  layout_nil: "layout m h [] h"
| layout_entry: "entry_at m h d \<Longrightarrow> layout m (h + (4 + length d)) es t \<Longrightarrow> layout m h (d # es) t"
| layout_skip: "end_mark m h \<Longrightarrow> entry_at m (h + to_end m h) d \<Longrightarrow> layout m (h + to_end m h + (4 + length d)) es t \<Longrightarrow> layout m h (d # es) t"

inductive_cases layout_nilE: "layout m h [] t"
inductive_cases layout_consE: "layout m h (d # es) t"

lemma layout_cons_cases:
  assumes "layout m h (d # es) t"
  obtains (entry) "entry_at m h d" "layout m (h + (4 + length d)) es t"
    | (skip) "end_mark m h" "entry_at m (h + to_end m h) d" "layout m (h + to_end m h + (4 + length d)) es t"
  using assms by (rule layout_consE)

lemma entry_at_read:
  assumes "entry_at m c d"
  shows "cursor_entry m c = Some (c mod length m)" "esize m (c mod length m) = length d" "\<not> end_mark m c"
    "entry_data m (c mod length m) = Inr d"
proof -
  let ?p = "c mod length m"
  have t: "take (4 + length d) (drop ?p m) = enc32 (length d) @ d" using assms by (simp add: entry_at_def)
  have "take 4 (drop ?p m) = take 4 (take (4 + length d) (drop ?p m))" by (simp add: min_def)
  also have "\<dots> = enc32 (length d)" unfolding t by simp
  finally show e: "esize m ?p = length d" using assms by (simp add: esize_def dec_enc32 entry_at_def)
  show c: "cursor_entry m c = Some ?p" using assms by (simp add: cursor_entry_def ENTRY_SIZE_def Let_def entry_at_def)
  show "\<not> end_mark m c" using e c assms by (simp add: end_mark_def entry_at_def)
  have "take (length d) (drop (?p + 4) m) = drop 4 (take (4 + length d) (drop ?p m))"
    by (simp add: drop_take add.commute)
  also have "\<dots> = d" unfolding t by simp
  finally show "entry_data m ?p = Inr d" using assms e by (simp add: entry_data_def ENTRY_SIZE_def entry_at_def)
qed

lemma to_end_mod: "0 < length m \<Longrightarrow> (h + to_end m h) mod length m = 0"
  unfolding to_end_def
  by (metis add.commute le_add_diff_inverse2 mod_add_left_eq mod_less_divisor mod_self less_imp_le_nat)

lemma to_end_pos: "0 < length m \<Longrightarrow> 0 < to_end m h"
  by (simp add: to_end_def)

lemma layout_le: "layout m h es t \<Longrightarrow> h \<le> t"
  by (induction rule: layout.induct) auto

lemma layout_less: "layout m h (d # es) t \<Longrightarrow> h < t"
  by (erule layout_consE) (auto dest!: layout_le)

text \<open>Memories that agree on the bytes of the absolute positions from \<open>h\<close> to \<open>t\<close>.\<close>

definition agree :: "8 word list \<Rightarrow> 8 word list \<Rightarrow> nat \<Rightarrow> nat \<Rightarrow> bool" where
  "agree m m' h t \<longleftrightarrow> length m' = length m \<and> (\<forall>x. h \<le> x \<and> x < t \<longrightarrow> m' ! (x mod length m) = m ! (x mod length m))"

lemma agree_refl [simp]: "agree m m h t" by (simp add: agree_def)

lemma agree_trans: "agree m m1 h t \<Longrightarrow> agree m1 m2 h t \<Longrightarrow> agree m m2 h t" by (simp add: agree_def)

lemma agree_mono: "agree m m' h t \<Longrightarrow> h \<le> h' \<Longrightarrow> t' \<le> t \<Longrightarrow> agree m m' h' t'" by (simp add: agree_def)

lemma agree_sym: "agree m m' h t \<Longrightarrow> agree m' m h t" by (simp add: agree_def)

lemma agree_bytes:
  assumes "agree m m' h t" "h mod length m + n \<le> length m" "h + n \<le> t"
  shows "take n (drop (h mod length m) m') = take n (drop (h mod length m) m)"
proof (rule nth_equalityI)
  show "length (take n (drop (h mod length m) m')) = length (take n (drop (h mod length m) m))"
    using assms(1) by (simp add: agree_def)
next
  fix i assume "i < length (take n (drop (h mod length m) m'))"
  then have i: "i < n" by simp
  then have "(h + i) mod length m = h mod length m + i"
    using assms(2) by (intro mod_add_small) simp
  moreover have "m' ! ((h + i) mod length m) = m ! ((h + i) mod length m)" using assms(1,3) i by (simp add: agree_def)
  ultimately show "take n (drop (h mod length m) m') ! i = take n (drop (h mod length m) m) ! i"
    using assms(1,2) i by (simp add: agree_def)
qed

lemma entry_at_agree: "entry_at m h d \<Longrightarrow> agree m m' h t \<Longrightarrow> h + (4 + length d) \<le> t \<Longrightarrow> entry_at m' h d"
  using agree_bytes[of m m' h t "4 + length d"] by (simp add: entry_at_def agree_def)

lemma end_mark_agree:
  assumes "end_mark m h" "agree m m' h t" "h + to_end m h \<le> t"
  shows "end_mark m' h"
proof (cases "h mod length m + 4 \<le> length m")
  case True
  then have "take 4 (drop (h mod length m) m') = take 4 (drop (h mod length m) m)"
    using assms(2,3) by (intro agree_bytes) (auto simp: to_end_def)
  with assms True show ?thesis by (simp add: end_mark_def cursor_entry_def ENTRY_SIZE_def Let_def esize_def agree_def)
next
  case False
  with assms show ?thesis by (simp add: end_mark_def cursor_entry_def ENTRY_SIZE_def Let_def agree_def)
qed

lemma layout_agree: "layout m h es t \<Longrightarrow> agree m m' h t \<Longrightarrow> layout m' h es t"
proof (induction rule: layout.induct)
  case (layout_entry h d es t)
  have "entry_at m' h d" by (rule entry_at_agree[OF layout_entry(1,4) layout_le[OF layout_entry(2)]])
  moreover have "layout m' (h + (4 + length d)) es t" by (rule layout_entry.IH, rule agree_mono[OF layout_entry.prems]) simp_all
  ultimately show ?case by (rule layout.layout_entry)
next
  case (layout_skip h d es t)
  note le = layout_le[OF layout_skip(3)]
  have l: "to_end m' h = to_end m h" using layout_skip.prems by (simp add: to_end_def agree_def)
  have "end_mark m' h" by (rule end_mark_agree[OF layout_skip(1) layout_skip.prems]) (use le in simp)
  moreover have "entry_at m' (h + to_end m h) d"
    by (rule entry_at_agree[OF layout_skip(2) agree_mono[OF layout_skip.prems]]) (use le in simp_all)
  moreover have "layout m' (h + to_end m h + (4 + length d)) es t"
    by (rule layout_skip.IH, rule agree_mono[OF layout_skip.prems]) simp_all
  ultimately show ?case unfolding l[symmetric] by (rule layout.layout_skip)
qed (rule layout.layout_nil)

text \<open>Writing at the absolute position \<open>b\<close> keeps what is less than a round away.\<close>

lemma agree_put:
  assumes "b mod length m + length bs \<le> length m"
    "\<And>x i. h \<le> x \<Longrightarrow> x < t \<Longrightarrow> i < length bs \<Longrightarrow> (b + i < x \<and> x < b + i + length m) \<or> (x < b + i \<and> b + i < x + length m)"
  shows "agree m (put_bytes (b mod length m) bs m) h t"
  unfolding agree_def
proof (intro conjI allI impI)
  show "length (put_bytes (b mod length m) bs m) = length m" using assms(1) by simp
next
  fix x assume x: "h \<le> x \<and> x < t"
  let ?p = "b mod length m"
  have "\<not> (?p \<le> x mod length m \<and> x mod length m < ?p + length bs)"
  proof
    assume a: "?p \<le> x mod length m \<and> x mod length m < ?p + length bs"
    define i where "i = x mod length m - ?p"
    have i: "i < length bs" "?p + i = x mod length m" using a by (auto simp: i_def)
    then have "(b + i) mod length m = x mod length m"
      using assms(1) mod_add_small[of b "length m" i] by simp
    with assms(2)[of x i] x i(1) mod_window[of "b + i" x "length m"] mod_window[of x "b + i" "length m"] show False by auto
  qed
  moreover have "x mod length m < length m" if "0 < length m" using that by simp
  ultimately show "put_bytes ?p bs m ! (x mod length m) = m ! (x mod length m)"
    using assms(1) by (cases "length m = 0") (simp_all add: nth_put_bytes, auto simp: put_bytes_def)
qed

lemma agree_put_after:
  "b mod length m + length bs \<le> length m \<Longrightarrow> t \<le> b \<Longrightarrow> b + length bs \<le> h + length m \<Longrightarrow>
     agree m (put_bytes (b mod length m) bs m) h t"
  by (rule agree_put) auto

lemma agree_put_before:
  "b mod length m + length bs \<le> length m \<Longrightarrow> b + length bs \<le> h \<Longrightarrow> t \<le> b + length m \<Longrightarrow>
     agree m (put_bytes (b mod length m) bs m) h t"
  by (rule agree_put) auto

lemma layout_append: "layout m h es t \<Longrightarrow> layout m t fs t' \<Longrightarrow> layout m h (es @ fs) t'"
  by (induction rule: layout.induct) (auto intro: layout.intros)

text \<open>The same entries end at the same place.\<close>

lemma layout_end: "layout m h es t \<Longrightarrow> layout m h es t' \<Longrightarrow> t = t'"
proof (induction arbitrary: t' rule: layout.induct)
  case (layout_nil h)
  then show ?case by (auto elim: layout_nilE)
next
  case (layout_entry h d es t)
  from layout_entry.prems layout_entry.IH entry_at_read(3)[OF layout_entry.hyps(1)] show ?case
    by (cases rule: layout_cons_cases) auto
next
  case (layout_skip h d es t)
  from layout_skip.prems show ?case
  proof (cases rule: layout_cons_cases)
    case entry
    with entry_at_read(3)[OF entry(1)] layout_skip.hyps(1) show ?thesis by simp
  next
    case skip
    then show ?thesis using layout_skip.IH by simp
  qed
qed

lemma layout_split: "layout m h (es @ fs) t \<Longrightarrow> \<exists>x. layout m h es x \<and> layout m x fs t"
proof (induction es arbitrary: h)
  case (Cons d es)
  then have "layout m h (d # (es @ fs)) t" by simp
  then show ?case by (cases rule: layout_cons_cases) (use Cons.IH in \<open>blast intro: layout.intros\<close>)+
qed (use layout.layout_nil in auto)

section \<open>Operations on a ring with a layout\<close>

lemmas sizes = ENTRY_SIZE_def total_entry_size_def

lemma rf_read_entry:
  assumes "layout (rmem f) (chead c) (d # es) (ftail f)" "fhead f \<le> chead c" "0 < length (rmem f)"
  shows "\<exists>h. rf_read f c = Inr (Some d, c\<lparr>chead := h\<rparr>) \<and> chead c \<le> h \<and> layout (rmem f) h es (ftail f)"
  using assms(1)
proof (cases rule: layout_cons_cases)
  case entry
  note e = entry_at_read[OF entry(1)]
  have "chead c < ftail f" using layout_less[OF assms(1)] .
  with assms(2,3) entry e show ?thesis
    by (intro exI[of _ "chead c + (4 + length d)"]) (simp add: rf_read_def Let_def sizes)
next
  case skip
  note e = entry_at_read[OF skip(2)]
  have "chead c + to_end (rmem f) (chead c) < ftail f" using layout_le[OF skip(3)] by simp
  with assms(2,3) skip e show ?thesis
    by (intro exI[of _ "chead c + to_end (rmem f) (chead c) + (4 + length d)"]) (simp add: rf_read_def Let_def sizes)
qed

lemma rf_read_empty:
  assumes "chead c = ftail f" "fhead f \<le> chead c" "0 < length (rmem f)"
  shows "rf_read f c = Inr (None, c)"
  using assms by (simp add: rf_read_def Let_def)

text \<open>A stale reader goes on at the head of the file.\<close>

lemma rf_read_stale:
  assumes "chead c < fhead f"
  shows "rf_read f c = rf_read f \<lparr>chead = fhead f, ctail = ftail f\<rparr>"
  using assms by (simp add: rf_read_def Let_def)

lemma drop_entry_ok:
  assumes "layout m h (d # es) t" "t \<le> h + length m" "0 < length m"
  shows "\<exists>m' h'. drop_entry m h = Inr (m', h') \<and> h < h' \<and> h' \<le> t \<and> agree m m' h' t \<and> layout m h' es t \<and> layout m h [d] h'"
  using assms(1)
proof (cases rule: layout_cons_cases)
  case entry
  note e = entry_at_read[OF entry(1)] and le = layout_le[OF entry(2)]
  have "agree m (put_bytes (h mod length m) (enc32 0) m) (h + (4 + length d)) t"
    using entry(1) assms(2) by (intro agree_put_before) (auto simp: entry_at_def)
  moreover have "layout m h [d] (h + (4 + length d))" by (rule layout.layout_entry[OF entry(1) layout.layout_nil])
  ultimately show ?thesis using e le entry
    by (intro exI[of _ "put_bytes (h mod length m) (enc32 0) m"] exI[of _ "h + (4 + length d)"]) (simp add: drop_entry_def sizes)
next
  case skip
  let ?n = "to_end m h" and ?m = "put_bytes (h mod length m) (replicate (to_end m h) 0) m"
  have n: "h mod length m + ?n = length m" using assms(3) by (simp add: to_end_def)
  note le = layout_le[OF skip(3)]
  have a: "agree m ?m (h + ?n) t" by (rule agree_put_before) (use n assms(2) in simp_all)
  have e1: "entry_at ?m (h + ?n) d" by (rule entry_at_agree[OF skip(2) a le])
  have l: "length ?m = length m" using a by (simp add: agree_def)
  note e = entry_at_read[OF e1, unfolded l]
  have "agree ?m (put_bytes ((h + ?n) mod length m) (enc32 0) ?m) (h + ?n + (4 + length d)) t"
    using agree_put_before[of "h + ?n" ?m "enc32 0"] e1 assms(2) unfolding l by (auto simp: entry_at_def l)
  moreover have "agree m ?m (h + ?n + (4 + length d)) t" by (rule agree_mono[OF a]) simp_all
  ultimately have "agree m (put_bytes ((h + ?n) mod length m) (enc32 0) ?m) (h + ?n + (4 + length d)) t" by (rule agree_trans[rotated])
  moreover have "layout m h [d] (h + ?n + (4 + length d))" by (rule layout.layout_skip[OF skip(1,2) layout.layout_nil])
  ultimately show ?thesis using e skip le assms(3)
    by (intro exI[of _ "put_bytes ((h + ?n) mod length m) (enc32 0) ?m"] exI[of _ "h + ?n + (4 + length d)"])
      (simp add: drop_entry_def sizes Let_def)
qed

lemma no_room_iff:
  assumes "h \<le> t" "t - h + ex + needed + pad < 2 ^ 64"
  shows "no_room n h t (int ex) needed pad \<longleftrightarrow> n \<le> t - h + ex + needed + pad"
proof -
  define x where "x = t - h + ex + needed + pad"
  have "int t - int h + int ex + int needed + int pad = int x" using assms(1) by (simp add: x_def)
  moreover have "int x mod 2 ^ 64 = int x" using assms(2) by (intro mod_pos_pos_trivial) (simp_all add: x_def[symmetric])
  ultimately show ?thesis unfolding no_room_def x_def[symmetric] by simp
qed

text \<open>The loop drops the oldest entries, and only as long as there is no room.\<close>

lemma make_room_ok:
  assumes "layout m h es t" "t \<le> h + length m" "ex + needed + pad < length m" "length m < 2 ^ 62"
  shows "\<exists>m' h' k. make_room t (int ex) needed pad m h = Some (Inr (m', h')) \<and> h \<le> h' \<and> h' \<le> t \<and> agree m m' h' t \<and>
    layout m h' (drop k es) t \<and> layout m h (take k es) h' \<and>
    t - h' + ex + needed + pad < length m \<and> (t - h + ex + needed + pad < length m \<longrightarrow> k = 0)"
  using assms
proof (induction es arbitrary: m h)
  case Nil
  then have "t = h" by (auto elim: layout_nilE)
  moreover have "\<not> no_room (length m) h h (int ex) needed pad" using Nil.prems(3,4) by (subst no_room_iff) auto
  ultimately show ?case using Nil.prems layout.layout_nil[of m h]
    by (intro exI[of _ m] exI[of _ h] exI[of _ 0]) (subst make_room.simps, simp)
next
  case (Cons d es)
  note le = layout_le[OF Cons.prems(1)]
  have bound: "t - h + ex + needed + pad < 2 ^ 64" using Cons.prems(2-4) by simp
  show ?case
  proof (cases "t - h + ex + needed + pad < length m")
    case True
    then have "\<not> no_room (length m) h t (int ex) needed pad" using no_room_iff[OF le bound] by simp
    then show ?thesis using Cons.prems True le layout.layout_nil[of m h]
      by (intro exI[of _ m] exI[of _ h] exI[of _ 0]) (subst make_room.simps, simp)
  next
    case False
    then have nr: "no_room (length m) h t (int ex) needed pad" using no_room_iff[OF le bound] by simp
    have "0 < length m" using Cons.prems(3) by linarith
    from drop_entry_ok[OF Cons.prems(1,2) this] obtain m1 h1 where
      1: "drop_entry m h = Inr (m1, h1)" "h < h1" "h1 \<le> t" "agree m m1 h1 t" "layout m h1 es t" "layout m h [d] h1" by auto
    have l: "length m1 = length m" using 1(4) by (simp add: agree_def)
    have L: "layout m1 h1 es t" by (rule layout_agree[OF 1(5,4)])
    have "t \<le> h1 + length m1" "ex + needed + pad < length m1" "length m1 < 2 ^ 62" using Cons.prems(2-4) 1(2) l by simp_all
    from Cons.IH[OF L this] obtain m' h' k where
      2: "make_room t (int ex) needed pad m1 h1 = Some (Inr (m', h'))" "h1 \<le> h'" "h' \<le> t" "agree m1 m' h' t"
        "layout m1 h' (drop k es) t" "layout m1 h1 (take k es) h'" "t - h' + ex + needed + pad < length m" unfolding l by blast
    have "agree m1 m h' t" by (rule agree_sym, rule agree_mono[OF 1(4) 2(2)]) simp
    then have "layout m h' (drop k es) t" by (rule layout_agree[OF 2(5)])
    moreover have "layout m h1 (take k es) h'"
      by (rule layout_agree[OF 2(6) agree_sym[OF agree_mono[OF 1(4) order_refl 2(3)]]])
    then have "layout m h (take (Suc k) (d # es)) h'" using layout_append[OF 1(6)] by simp
    moreover have "agree m m' h' t" by (rule agree_trans[OF agree_mono[OF 1(4) 2(2)] 2(4)]) simp
    ultimately show ?thesis using 1 2 nr False
      by (intro exI[of _ m'] exI[of _ h'] exI[of _ "Suc k"]) (subst make_room.simps, simp)
  qed
qed

lemma put_entry_ok:
  assumes "c mod length m + (4 + length d) \<le> length m" "0 < length d" "length d < 2 ^ 32"
  shows "put_entry m c d = Inr (put_bytes (c mod length m) (enc32 (length d) @ d) m)"
    "entry_at (put_bytes (c mod length m) (enc32 (length d) @ d) m) c d"
  using assms take_drop_put_bytes[of "c mod length m" "enc32 (length d) @ d" m]
  by (simp_all add: put_entry_def cursor_entry_def sizes Let_def entry_at_def)

section \<open>Writes\<close>

lemma sint_of_nat32: "x < 2 ^ 31 \<Longrightarrow> sint (of_nat x :: 32 word) = int x"
  by transfer (simp add: signed_take_bit_int_eq_self)

text \<open>The new entry goes to the tail, or with an end mark to the start of the ring; \<open>e\<close> is the number of bytes that are
  left out there.\<close>

definition skipped :: "nat \<Rightarrow> nat \<Rightarrow> nat" where
  "skipped tte needed = (if tte < needed then tte else 0)"

lemma write_at_tail:
  assumes "0 < length m" "0 < length d" "length d < 2 ^ 32" "4 + length d \<le> length m"
    "t + skipped (to_end m t) (4 + length d) + (4 + length d) < h + length m" "h \<le> t"
  defines "e \<equiv> skipped (to_end m t) (4 + length d)"
  shows "\<exists>m'. put_entry (if 4 + length d \<le> to_end m t then m else if 4 \<le> to_end m t then put_bytes (t mod length m) (enc32 0) m else m) (t + e) d = Inr m' \<and>
    agree m m' h t \<and> layout m' t [d] (t + e + (4 + length d))"
proof (cases "4 + length d \<le> to_end m t")
  case True
  then have e: "e = 0" by (simp add: e_def skipped_def)
  have fit: "t mod length m + (4 + length d) \<le> length m" using True assms(1) by (simp add: to_end_def)
  note p = put_entry_ok[OF fit assms(2,3)]
  have "agree m (put_bytes (t mod length m) (enc32 (length d) @ d) m) h t"
    by (rule agree_put_after) (use fit assms(5) e in \<open>simp_all add: e_def[symmetric]\<close>)
  moreover have "layout (put_bytes (t mod length m) (enc32 (length d) @ d) m) t [d] (t + (4 + length d))"
    by (rule layout.layout_entry[OF p(2) layout.layout_nil])
  ultimately show ?thesis using p(1) True e by (intro exI[of _ "put_bytes (t mod length m) (enc32 (length d) @ d) m"]) simp
next
  case False
  let ?n = "to_end m t"
  from False have e: "e = ?n" by (simp add: e_def skipped_def)
  define m2 where "m2 = (if 4 \<le> ?n then put_bytes (t mod length m) (enc32 0) m else m)"
  have n: "t mod length m + ?n = length m" using assms(1) by (simp add: to_end_def)
  have window: "t + ?n + (4 + length d) < h + length m" using assms(5) e by (simp add: e_def)
  have a: "agree m m2 h t" unfolding m2_def
    using agree_put_after[of t m "enc32 0" t h] n window by auto
  have l: "length m2 = length m" using a by (simp add: agree_def)
  have mark: "end_mark m2 t"
  proof (cases "4 \<le> ?n")
    case True
    then have "take 4 (drop (t mod length m) m2) = enc32 0"
      using take_drop_put_bytes[of "t mod length m" "enc32 0" m] n by (simp add: m2_def)
    then show ?thesis using True n l by (simp add: end_mark_def cursor_entry_def ENTRY_SIZE_def Let_def esize_def dec_enc32)
  next
    case False
    then show ?thesis using n l by (simp add: end_mark_def cursor_entry_def ENTRY_SIZE_def Let_def)
  qed
  have z: "(t + ?n) mod length m = 0" by (rule to_end_mod[OF assms(1)])
  have fit: "(t + ?n) mod length m2 + (4 + length d) \<le> length m2" using assms(4) z l by simp
  define m3 where "m3 = put_bytes ((t + ?n) mod length m2) (enc32 (length d) @ d) m2"
  note p = put_entry_ok[OF fit assms(2,3), folded m3_def]
  have a3: "agree m2 m3 h (t + ?n)" unfolding m3_def
    by (rule agree_put_after) (use fit window l in simp_all)
  have "end_mark m3 t" by (rule end_mark_agree[OF mark agree_mono[OF a3 assms(6) order_refl]]) (simp add: to_end_def l)
  moreover have "to_end m3 t = ?n" using a3 l by (simp add: to_end_def agree_def)
  ultimately have "layout m3 t [d] (t + ?n + (4 + length d))"
    using layout.layout_skip[of m3 t d "[]"] p(2) layout.layout_nil by simp
  moreover have "agree m m3 h t" by (rule agree_trans[OF a agree_mono[OF a3]]) simp_all
  ultimately show ?thesis using p(1) False e by (intro exI[of _ m3]) (simp add: m2_def)
qed

text \<open>What a writer relies on: the entries lie from its head to its tail, at most once round the ring.\<close>

definition writer_ok :: "ring_file \<Rightarrow> cursors \<Rightarrow> 8 word list list \<Rightarrow> bool" where
  "writer_ok f c es \<longleftrightarrow> layout (rmem f) (chead c) es (ctail c) \<and> ctail c \<le> chead c + length (rmem f) \<and>
     fhead f = chead c \<and> ftail f = ctail c \<and> 0 < length (rmem f)"

definition room_for :: "nat \<Rightarrow> ring_file \<Rightarrow> cursors \<Rightarrow> 8 word list \<Rightarrow> bool" where
  "room_for pad f c d \<longleftrightarrow>
     ctail c - chead c + skipped (to_end (rmem f) (ctail c)) (4 + length d) + (4 + length d) + pad < length (rmem f)"

lemma rf_write_ok:
  assumes "writer_ok f c es" "0 < length d" "2 * (4 + length d) + pad \<le> length (rmem f)" "length (rmem f) < 2 ^ 31"
  shows "\<exists>f' c' k. rf_write pad d f c = Some (Inr (d, f', c')) \<and> writer_ok f' c' (drop k es @ [d]) \<and>
    length (rmem f') = length (rmem f) \<and> chead c \<le> chead c' \<and> (room_for pad f c d \<longrightarrow> k = 0) \<and>
    ctail c' = ctail c + skipped (to_end (rmem f) (ctail c)) (4 + length d) + (4 + length d) \<and>
    (\<exists>m'. make_room (ctail c) (int (skipped (to_end (rmem f) (ctail c)) (4 + length d))) (4 + length d) pad (rmem f) (chead c) = Some (Inr (m', chead c'))) \<and> layout (rmem f) (chead c) (take k es) (chead c') \<and>
    agree (rmem f) (rmem f') (chead c') (ctail c) \<and> layout (rmem f') (ctail c) [d] (ctail c')"
proof -
  let ?m = "rmem f" and ?t = "ctail c" and ?h = "chead c"
  let ?n = "to_end ?m ?t" and ?needed = "4 + length d"
  let ?e = "skipped ?n ?needed"
  have L: "layout ?m ?h es ?t" and t: "?t \<le> ?h + length ?m" and ft: "ftail f = ?t" and pos: "0 < length ?m"
    using assms(1) by (simp_all add: writer_ok_def)
  have n: "?n \<le> length ?m" by (simp add: to_end_def)
  have x: "(if ?n < total_entry_size (length d) then sint (of_nat ?n :: 32 word) else 0) = int ?e"
    using sint_of_nat32[of ?n] n assms(4) by (simp add: skipped_def sizes)
  have "?e + ?needed + pad < length ?m" using assms(2,3) by (simp add: skipped_def)
  moreover have "length ?m < 2 ^ 62" using assms(4) by simp
  ultimately have "\<exists>m' h' k. make_room ?t (int ?e) ?needed pad ?m ?h = Some (Inr (m', h')) \<and> ?h \<le> h' \<and> h' \<le> ?t \<and> agree ?m m' h' ?t \<and>
    layout ?m h' (drop k es) ?t \<and> layout ?m ?h (take k es) h' \<and> ?t - h' + ?e + ?needed + pad < length ?m \<and> (?t - ?h + ?e + ?needed + pad < length ?m \<longrightarrow> k = 0)"
    by (rule make_room_ok[OF L t])
  then obtain m1 h1 k where
    r: "make_room ?t (int ?e) ?needed pad ?m ?h = Some (Inr (m1, h1))" "?h \<le> h1" "h1 \<le> ?t" "agree ?m m1 h1 ?t"
      "layout ?m h1 (drop k es) ?t" "layout ?m ?h (take k es) h1" "?t - h1 + ?e + ?needed + pad < length ?m"
      "?t - ?h + ?e + ?needed + pad < length ?m \<longrightarrow> k = 0" by blast
  have l1: "length m1 = length ?m" using r(4) by (simp add: agree_def)
  have n1: "to_end m1 ?t = ?n" by (simp add: to_end_def l1)
  have w: "0 < length m1" "length d < 2 ^ 32" "?needed \<le> length m1"
    "?t + skipped (to_end m1 ?t) ?needed + ?needed < h1 + length m1"
    using pos assms(3,4) r(3,7) by (simp_all add: l1 n1)
  from write_at_tail[OF w(1) assms(2) w(2-4) r(3), unfolded n1] obtain m' where
    m': "put_entry (if ?needed \<le> ?n then m1 else if 4 \<le> ?n then put_bytes (?t mod length m1) (enc32 0) m1 else m1) (?t + ?e) d = Inr m'"
      "agree m1 m' h1 ?t" "layout m' ?t [d] (?t + ?e + ?needed)" by auto
  let ?f' = "\<lparr>rmem = m', fhead = h1, ftail = ?t + ?e + ?needed\<rparr>" and ?c' = "\<lparr>chead = h1, ctail = ?t + ?e + ?needed\<rparr>"
  have run: "rf_write pad d f c = Some (Inr (d, ?f', ?c'))"
    using pos m'(1) r(1) x unfolding rf_write_def Let_def
    by (auto simp: sizes skipped_def split: if_splits)
  have agree: "agree ?m m' h1 ?t" by (rule agree_trans[OF r(4) m'(2)])
  have "layout m' h1 (drop k es @ [d]) (?t + ?e + ?needed)"
    by (rule layout_append[OF layout_agree[OF r(5) agree] m'(3)])
  then have "writer_ok ?f' ?c' (drop k es @ [d])" using w(4) agree pos by (simp add: writer_ok_def agree_def n1 l1)
  then show ?thesis using run r(1,2,6,8) agree m'(3)
    by (intro exI[of _ ?f'] exI[of _ ?c'] exI[of _ k]) (auto simp: room_for_def agree_def)
qed

section \<open>Readers and writers\<close>

fun rf_writes :: "nat \<Rightarrow> 8 word list list \<Rightarrow> ring_file \<Rightarrow> cursors \<Rightarrow> (ring_file \<times> cursors) res option" where
  "rf_writes pad [] f c = Some (Inr (f, c))"
| "rf_writes pad (d # ds) f c = run_bind (rf_write pad d f c) (\<lambda>(_, f', c'). rf_writes pad ds f' c')"

text \<open>A reader reads until there is nothing more, or \<open>n\<close> times.\<close>

fun rf_drain :: "nat \<Rightarrow> ring_file \<Rightarrow> cursors \<Rightarrow> 8 word list list res" where
  "rf_drain 0 f r = Inr []"
| "rf_drain (Suc n) f r = and_then (rf_read f r) (\<lambda>(x, r'). case x of
     None \<Rightarrow> Inr [] | Some d \<Rightarrow> and_then (rf_drain n f r') (\<lambda>ds. Inr (d # ds)))"

text \<open>What a reader is going to read: the entries from its head on, or all of them when it has been overtaken.\<close>

definition reader_view :: "ring_file \<Rightarrow> cursors \<Rightarrow> 8 word list list \<Rightarrow> cursors \<Rightarrow> 8 word list list \<Rightarrow> bool" where
  "reader_view f c es r xs \<longleftrightarrow>
     (fhead f \<le> chead r \<and> (\<exists>pre. es = pre @ xs \<and> layout (rmem f) (chead c) pre (chead r)) \<and> layout (rmem f) (chead r) xs (ftail f)) \<or>
     (chead r < fhead f \<and> xs = es)"

lemma drain_layout:
  assumes "layout (rmem f) (chead r) xs (ftail f)" "fhead f \<le> chead r" "0 < length (rmem f)" "length xs < n"
  shows "rf_drain n f r = Inr xs"
  using assms
proof (induction xs arbitrary: r n)
  case Nil
  then have "chead r = ftail f" by (auto elim: layout_nilE)
  with rf_read_empty[OF this Nil.prems(2,3)] Nil.prems(4) show ?case by (cases n) simp_all
next
  case (Cons d xs)
  from rf_read_entry[OF Cons.prems(1-3)] obtain h where
    h: "rf_read f r = Inr (Some d, r\<lparr>chead := h\<rparr>)" "chead r \<le> h" "layout (rmem f) h xs (ftail f)" by auto
  from Cons.prems(4) obtain n' where n: "n = Suc n'" by (cases n) auto
  have "rf_drain n' f (r\<lparr>chead := h\<rparr>) = Inr xs" using Cons.prems h n by (intro Cons.IH) simp_all
  with h(1) n show ?case by simp
qed

lemma drain_view:
  assumes "writer_ok f c es" "reader_view f c es r xs" "length xs < n"
  shows "rf_drain n f r = Inr xs"
proof (cases "chead r < fhead f")
  case True
  with assms(2) have x: "xs = es" by (auto simp: reader_view_def)
  have "rf_drain n f \<lparr>chead = fhead f, ctail = ftail f\<rparr> = Inr xs"
    using assms(1,3) x by (intro drain_layout) (simp_all add: writer_ok_def)
  moreover have "rf_drain n f r = rf_drain n f \<lparr>chead = fhead f, ctail = ftail f\<rparr>"
    using rf_read_stale[OF True] by (cases n) simp_all
  ultimately show ?thesis by simp
next
  case False
  with assms show ?thesis by (intro drain_layout) (auto simp: reader_view_def writer_ok_def)
qed

text \<open>A write adds an entry to what every reader is going to read, and may take entries off its front.\<close>

lemma reader_view_write:
  assumes W: "writer_ok f c es" and V: "reader_view f c es r xs"
    and W': "writer_ok f' c' (drop k es @ [d])" and le: "chead c \<le> chead c'"
    and path: "layout (rmem f) (chead c) (take k es) (chead c')"
    and ag: "agree (rmem f) (rmem f') (chead c') (ctail c)" and new: "layout (rmem f') (ctail c) [d] (ctail c')"
  shows "\<exists>j. reader_view f' c' (drop k es @ [d]) r (drop j xs @ [d]) \<and> (k = 0 \<longrightarrow> j = 0) \<and> (fhead f' \<le> chead r \<longrightarrow> j = 0)"
proof (cases "chead r < fhead f")
  case True
  with V have "xs = es" by (auto simp: reader_view_def)
  moreover have "chead r < fhead f'" using True le W W' by (simp add: writer_ok_def)
  ultimately show ?thesis by (intro exI[of _ k]) (simp add: reader_view_def)
next
  case False
  with V obtain pre where pre: "es = pre @ xs" "layout (rmem f) (chead c) pre (chead r)" "layout (rmem f) (chead r) xs (ftail f)"
    by (auto simp: reader_view_def)
  have ft: "ftail f = ctail c" "fhead f' = chead c'" "ftail f' = ctail c'" using W W' by (simp_all add: writer_ok_def)
  show ?thesis
  proof (cases "k \<le> length pre")
    case True
    have "layout (rmem f) (chead c) (take k pre @ drop k pre) (chead r)" using pre(2) by simp
    from layout_split[OF this] obtain x where x: "layout (rmem f) (chead c) (take k pre) x" "layout (rmem f) x (drop k pre) (chead r)"
      by blast
    have "x = chead c'" by (rule layout_end[OF x(1)]) (use path pre(1) True in simp)
    with x(2) have p: "layout (rmem f) (chead c') (drop k pre) (chead r)" by simp
    have "chead r \<le> ctail c" using layout_le[OF pre(3)] ft by simp
    then have "layout (rmem f') (chead c') (drop k pre) (chead r)"
      using layout_agree[OF p agree_mono[OF ag]] by simp
    moreover have "layout (rmem f') (chead r) (xs @ [d]) (ctail c')"
      using layout_append[OF layout_agree[OF pre(3)[unfolded ft] agree_mono[OF ag layout_le[OF p] order_refl]] new] .
    ultimately show ?thesis using layout_le[OF p] pre(1) True ft
      by (intro exI[of _ 0]) (auto simp: reader_view_def)
  next
    case False
    then have "take k es = pre @ take (k - length pre) xs" "drop k es = drop (k - length pre) xs" using pre(1) by simp_all
    show ?thesis
    proof (cases "take (k - length pre) xs")
      case Nil
      with False have "xs = []" by simp
      then have "chead c' = chead r" using layout_end[OF pre(2)] path pre(1) False by simp
      moreover have "chead r = ctail c" using pre(3) \<open>xs = []\<close> ft by (auto elim: layout_nilE)
      ultimately show ?thesis using new ft pre(1) False \<open>xs = []\<close> layout.layout_nil[of "rmem f'" "chead r"]
        by (intro exI[of _ 0]) (auto simp: reader_view_def)
    next
      case (Cons y ys)
      have "layout (rmem f) (chead c) (pre @ y # ys) (chead c')" using path Cons \<open>take k es = _\<close> by simp
      from layout_split[OF this] obtain x where x: "layout (rmem f) (chead c) pre x" "layout (rmem f) x (y # ys) (chead c')" by blast
      then have "chead r < chead c'" using layout_less[OF x(2)] layout_end[OF x(1) pre(2)] by simp
      then show ?thesis using ft False \<open>drop k es = _\<close> by (intro exI[of _ "k - length pre"]) (auto simp: reader_view_def)
    qed
  qed
qed

section \<open>What the ring keeps\<close>

text \<open>The ring as a list: its head, the entries, each with the position after it, and its tail. To write an entry of \<open>d\<close> bytes
  with a padding, the oldest entries are dropped, only as long as the bytes between head and tail, those left out
  at the end of the ring, those of the entry and the padding do not fit in the ring; then it is added.\<close>

type_synonym kept = "nat \<times> (nat \<times> 8 word list) list \<times> nat"

fun drop_old :: "nat \<Rightarrow> nat \<Rightarrow> kept \<Rightarrow> kept" where
  "drop_old len needed (h, [], t) = (h, [], t)"
| "drop_old len needed (h, (p, d) # ps, t) = (if len \<le> t - h + needed then drop_old len needed (p, ps, t) else (h, (p, d) # ps, t))"

definition keep_entry :: "nat \<Rightarrow> nat \<Rightarrow> 8 word list \<Rightarrow> kept \<Rightarrow> kept" where
  "keep_entry len pad d s =
     (let t = snd (snd s); e = skipped (len - t mod len) (4 + length d);
          (h, ps, _) = drop_old len (e + (4 + length d) + pad) s; t' = t + e + (4 + length d)
      in (h, ps @ [(t', d)], t'))"

definition kept_entries :: "kept \<Rightarrow> 8 word list list" where
  "kept_entries s = map snd (fst (snd s))"

text \<open>The entries are where the list says.\<close>

fun placed :: "8 word list \<Rightarrow> nat \<Rightarrow> (nat \<times> 8 word list) list \<Rightarrow> nat \<Rightarrow> bool" where
  "placed m h [] t \<longleftrightarrow> h = t"
| "placed m h ((p, d) # ps) t \<longleftrightarrow> layout m h [d] p \<and> placed m p ps t"

definition ring_holds :: "ring_file \<Rightarrow> cursors \<Rightarrow> kept \<Rightarrow> bool" where
  "ring_holds f c s \<longleftrightarrow> writer_ok f c (kept_entries s) \<and> placed (rmem f) (chead c) (fst (snd s)) (ctail c) \<and>
     fst s = chead c \<and> snd (snd s) = ctail c"

lemma placed_layout: "placed m h ps t \<Longrightarrow> layout m h (map snd ps) t"
proof (induction m h ps t rule: placed.induct)
  case (2 m h p d ps t)
  then show ?case using layout_append[of m h "[d]" p "map snd ps" t] by simp
qed (simp add: layout.layout_nil)

lemma layout_placed: "layout m h es t \<Longrightarrow> \<exists>ps. placed m h ps t \<and> map snd ps = es"
proof (induction es arbitrary: h)
  case Nil
  then show ?case by (auto elim: layout_nilE intro: exI[of _ "[]"])
next
  case (Cons d es)
  from layout_split[of m h "[d]" es t] Cons.prems obtain x where x: "layout m h [d] x" "layout m x es t" by auto
  from Cons.IH[OF x(2)] obtain ps where "placed m x ps t" "map snd ps = es" by blast
  with x(1) show ?case by (intro exI[of _ "(x, d) # ps"]) simp
qed

lemma placed_agree:
  assumes "placed m h ps t" "agree m m' h t"
  shows "placed m' h ps t"
  using assms
proof (induction m h ps t rule: placed.induct)
  case (2 m h p d ps t)
  have l: "layout m h [d] p" and q: "placed m p ps t" using 2(2) by simp_all
  note le = layout_le[OF l] layout_le[OF placed_layout[OF q]]
  show ?case using 2(1)[OF q agree_mono[OF 2(3) le(1) order_refl]] layout_agree[OF l agree_mono[OF 2(3) order_refl le(2)]] by simp
qed simp

lemma placed_append: "placed m h ps t \<Longrightarrow> layout m t [d] t' \<Longrightarrow> placed m h (ps @ [(t', d)]) t'"
  by (induction m h ps t rule: placed.induct) auto

lemma drop_old_layout:
  assumes "placed m h ps t"
  shows "\<exists>h' j. drop_old n k (h, ps, t) = (h', drop j ps, t) \<and> layout m h (map snd (take j ps)) h' \<and> placed m h' (drop j ps) t"
  using assms
proof (induction ps arbitrary: h)
  case Nil
  then show ?case using layout.layout_nil by (intro exI[of _ h] exI[of _ 0]) simp
next
  case (Cons a ps)
  obtain p d where a: "a = (p, d)" by (cases a)
  show ?case
  proof (cases "n \<le> t - h + k")
    case True
    have l: "layout m h [d] p" and q: "placed m p ps t" using Cons.prems a by simp_all
    from Cons.IH[OF q] obtain h' j where
      "drop_old n k (p, ps, t) = (h', drop j ps, t)" "layout m p (map snd (take j ps)) h'" "placed m h' (drop j ps) t" by blast
    then show ?thesis using layout_append[OF l] True a by (intro exI[of _ h'] exI[of _ "Suc j"]) simp
  next
    case False
    then show ?thesis using Cons.prems a layout.layout_nil[of m h] by (intro exI[of _ h] exI[of _ 0]) simp
  qed
qed

text \<open>The loop that makes room drops these entries.\<close>

lemma make_room_drop_old:
  assumes "placed m h ps t" "t \<le> h + length m" "ex + needed + pad < length m" "length m < 2 ^ 62"
    "make_room t (int ex) needed pad m h = Some (Inr (m', h'))"
  shows "h' = fst (drop_old (length m) (ex + needed + pad) (h, ps, t))"
  using assms
proof (induction ps arbitrary: m h)
  case Nil
  then have "t = h" by simp
  moreover from this have "\<not> no_room (length m) h h (int ex) needed pad" using Nil.prems(3,4) by (subst no_room_iff) auto
  ultimately show ?case using Nil.prems(5) by (subst (asm) make_room.simps) simp
next
  case (Cons a ps)
  obtain p d where a: "a = (p, d)" by (cases a)
  have lp: "layout m h [d] p" and q: "placed m p ps t" using Cons.prems(1) a by simp_all
  note L = placed_layout[OF Cons.prems(1)]
  note le = layout_le[OF L]
  have iff: "no_room (length m) h t (int ex) needed pad \<longleftrightarrow> length m \<le> t - h + (ex + needed + pad)"
    using no_room_iff[OF le, of ex needed pad] Cons.prems(2-4) by (simp add: add.assoc)
  show ?case
  proof (cases "no_room (length m) h t (int ex) needed pad")
    case False
    with Cons.prems(5) iff a show ?thesis by (subst (asm) make_room.simps) simp
  next
    case True
    have "layout m h (d # map snd ps) t" "0 < length m" using L a Cons.prems(3) by auto
    from drop_entry_ok[OF this(1) Cons.prems(2) this(2)] obtain m1 h1 where
      1: "drop_entry m h = Inr (m1, h1)" "h < h1" "agree m m1 h1 t" "layout m h [d] h1" by auto
    have e: "h1 = p" by (rule layout_end[OF 1(4) lp])
    have l: "length m1 = length m" using 1(3) by (simp add: agree_def)
    have "make_room t (int ex) needed pad m1 p = Some (Inr (m', h'))"
      using Cons.prems(5) True 1(1) e by (subst (asm) make_room.simps) simp
    from Cons.IH[OF placed_agree[OF q 1(3)[unfolded e]] _ _ _ this] Cons.prems(2-4) l 1(2) e
    have "h' = fst (drop_old (length m) (ex + needed + pad) (p, ps, t))" by simp
    then show ?thesis using True iff a by simp
  qed
qed

lemma layout_prefix_eq:
  assumes "layout m h (take j es) x" "layout m h (take k es) x"
  shows "drop j es = drop k es"
proof -
  have less: "j < k \<longrightarrow> length es \<le> j" if "layout m h (take j es) x" "layout m h (take k es) x" for j k
  proof (rule impI, rule ccontr)
    assume a: "j < k" "\<not> length es \<le> j"
    have "take k es = take j es @ take (k - j) (drop j es)" using a(1) take_add[of j "k - j" es] by simp
    moreover obtain d ds where "take (k - j) (drop j es) = d # ds" using a by (cases "take (k - j) (drop j es)") auto
    ultimately have "layout m h (take j es @ d # ds) x" using that(2) by simp
    from layout_split[OF this] obtain y where "layout m h (take j es) y" "layout m y (d # ds) x" by blast
    then show False using layout_end[OF that(1)] layout_less by blast
  qed
  from less[OF assms] less[OF assms(2,1)] show ?thesis by (cases j k rule: linorder_cases) auto
qed

lemma rf_write_keeps:
  assumes "ring_holds f c s" "0 < length d" "2 * (4 + length d) + pad \<le> length (rmem f)" "length (rmem f) < 2 ^ 31"
  shows "\<exists>f' c' k. rf_write pad d f c = Some (Inr (d, f', c')) \<and> ring_holds f' c' (keep_entry (length (rmem f)) pad d s) \<and>
    kept_entries (keep_entry (length (rmem f)) pad d s) = drop k (kept_entries s) @ [d] \<and>
    length (rmem f') = length (rmem f) \<and> chead c \<le> chead c' \<and> layout (rmem f) (chead c) (take k (kept_entries s)) (chead c') \<and>
    agree (rmem f) (rmem f') (chead c') (ctail c) \<and> layout (rmem f') (ctail c) [d] (ctail c')"
proof -
  obtain ps where s: "s = (chead c, ps, ctail c)" using assms(1) by (cases s) (auto simp: ring_holds_def)
  let ?n = "length (rmem f)" and ?e = "skipped (to_end (rmem f) (ctail c)) (4 + length d)"
  have W: "writer_ok f c (map snd ps)" and Q: "placed (rmem f) (chead c) ps (ctail c)" using assms(1) s by (simp_all add: ring_holds_def kept_entries_def)
  from rf_write_ok[OF W assms(2-4)] obtain f' c' k m' where
    w: "rf_write pad d f c = Some (Inr (d, f', c'))" "writer_ok f' c' (drop k (map snd ps) @ [d])" "length (rmem f') = ?n"
      "chead c \<le> chead c'" "layout (rmem f) (chead c) (take k (map snd ps)) (chead c')"
      "agree (rmem f) (rmem f') (chead c') (ctail c)" "layout (rmem f') (ctail c) [d] (ctail c')"
      "ctail c' = ctail c + ?e + (4 + length d)"
      "make_room (ctail c) (int ?e) (4 + length d) pad (rmem f) (chead c) = Some (Inr (m', chead c'))" by blast
  have e: "?e + (4 + length d) + pad < ?n" using assms(2,3) by (simp add: skipped_def)
  have b: "ctail c \<le> chead c + ?n" "?n < 2 ^ 62" using W assms(4) by (simp_all add: writer_ok_def)
  from drop_old_layout[OF Q, of ?n "?e + (4 + length d) + pad"] obtain h' j where
    j: "drop_old ?n (?e + (4 + length d) + pad) (chead c, ps, ctail c) = (h', drop j ps, ctail c)"
      "layout (rmem f) (chead c) (map snd (take j ps)) h'" "placed (rmem f) h' (drop j ps) (ctail c)" by blast
  have h: "h' = chead c'" using make_room_drop_old[OF Q b(1) e b(2) w(9)] j(1) by simp
  have K: "drop j (map snd ps) = drop k (map snd ps)"
    by (rule layout_prefix_eq[of "rmem f" "chead c" _ _ "chead c'"]) (use j(2) h w(5) in \<open>simp_all add: take_map\<close>)
  have keep: "keep_entry ?n pad d s = (chead c', drop j ps @ [(ctail c', d)], ctail c')"
    using j(1) h w(8) by (simp add: keep_entry_def s to_end_def Let_def)
  have ke: "kept_entries (keep_entry ?n pad d s) = drop k (map snd ps) @ [d]"
    using K by (simp add: keep kept_entries_def drop_map)
  have "placed (rmem f') (chead c') (drop j ps @ [(ctail c', d)]) (ctail c')"
    using placed_append[OF placed_agree[OF j(3)[unfolded h] w(6)] w(7)] .
  then have "ring_holds f' c' (keep_entry ?n pad d s)" using w(2) ke by (simp add: ring_holds_def) (simp add: keep)
  then show ?thesis using w ke s by (intro exI[of _ f'] exI[of _ c'] exI[of _ k]) (simp add: kept_entries_def)
qed

lemma rf_writes_view:
  assumes "ring_holds f c s" "reader_view f c (kept_entries s) r xs" "length (rmem f) < 2 ^ 31"
    "\<forall>d \<in> set ds. d \<noteq> [] \<and> 2 * (4 + length d) + pad \<le> length (rmem f)"
  shows "\<exists>f' c' j. rf_writes pad ds f c = Some (Inr (f', c')) \<and> ring_holds f' c' (fold (keep_entry (length (rmem f)) pad) ds s) \<and>
    reader_view f' c' (kept_entries (fold (keep_entry (length (rmem f)) pad) ds s)) r (drop j (xs @ ds)) \<and> fhead f \<le> fhead f' \<and>
    (fhead f' \<le> chead r \<longrightarrow> j = 0)"
  using assms
proof (induction ds arbitrary: f c s xs)
  case Nil
  then show ?case by (intro exI[of _ f] exI[of _ c] exI[of _ 0]) simp
next
  case (Cons d ds)
  let ?s = "keep_entry (length (rmem f)) pad d s"
  have "0 < length d" "2 * (4 + length d) + pad \<le> length (rmem f)" using Cons.prems(4) by auto
  from rf_write_keeps[OF Cons.prems(1) this Cons.prems(3)] obtain f1 c1 k where
    w: "rf_write pad d f c = Some (Inr (d, f1, c1))" "ring_holds f1 c1 ?s" "kept_entries ?s = drop k (kept_entries s) @ [d]"
      "length (rmem f1) = length (rmem f)" "chead c \<le> chead c1" "layout (rmem f) (chead c) (take k (kept_entries s)) (chead c1)"
      "agree (rmem f) (rmem f1) (chead c1) (ctail c)" "layout (rmem f1) (ctail c) [d] (ctail c1)" by blast
  have W: "writer_ok f c (kept_entries s)" "writer_ok f1 c1 (drop k (kept_entries s) @ [d])"
    using Cons.prems(1) w(2,3) by (simp_all add: ring_holds_def)
  have le: "fhead f \<le> fhead f1" using W w(5) by (simp add: writer_ok_def)
  from reader_view_write[OF W(1) Cons.prems(2) W(2) w(5-8)] obtain i where
    v: "reader_view f1 c1 (kept_entries ?s) r (drop i xs @ [d])" "fhead f1 \<le> chead r \<longrightarrow> i = 0" unfolding w(3) by blast
  from Cons.IH[OF w(2) v(1)] Cons.prems(3,4) w(4) obtain f' c' j where
    q: "rf_writes pad ds f1 c1 = Some (Inr (f', c'))" "ring_holds f' c' (fold (keep_entry (length (rmem f)) pad) ds ?s)"
      "reader_view f' c' (kept_entries (fold (keep_entry (length (rmem f)) pad) ds ?s)) r (drop j ((drop i xs @ [d]) @ ds))"
      "fhead f1 \<le> fhead f'" "fhead f' \<le> chead r \<longrightarrow> j = 0" by auto
  have e: "drop j ((drop i xs @ [d]) @ ds) = drop (min i (length xs) + j) (xs @ d # ds)"
    by (cases "i \<le> length xs") (simp_all add: min_def add.commute)
  have "rf_writes pad (d # ds) f c = Some (Inr (f', c'))" using q(1) w(1) by simp
  moreover have "fhead f' \<le> chead r \<longrightarrow> min i (length xs) + j = 0" using q(4,5) v(2) by auto
  ultimately show ?case using q(2,3,4) le unfolding e
    by (intro exI[of _ f'] exI[of _ c'] exI[of _ "min i (length xs) + j"]) simp
qed

text \<open>Any layout of entries is kept in this sense.\<close>

lemma ring_holds_exists: "writer_ok f c es \<Longrightarrow> \<exists>s. ring_holds f c s \<and> kept_entries s = es"
proof -
  assume W: "writer_ok f c es"
  from W layout_placed[of "rmem f" "chead c" es "ctail c"] obtain ps where
    "placed (rmem f) (chead c) ps (ctail c)" "map snd ps = es" by (auto simp: writer_ok_def)
  with W show ?thesis by (intro exI[of _ "(chead c, ps, ctail c)"]) (simp add: ring_holds_def kept_entries_def)
qed

text \<open>C15: Whatever entries are written that are not empty and take, twice and with the padding, at most the size of the ring: the
  ring keeps the entries as \<open>keep_entry\<close> says, which drops the oldest ones, and only as long as there is no room
  for the next. A reader that the head has not overtaken gets all that it had still to read and all that has been written since, in order,
  each once; one that has been overtaken gets all the entries that the ring keeps. In both cases these are the last
  ones of those it had to read and those written since.\<close>

theorem ring_file_readers:
  assumes "ring_holds f c s" "reader_view f c (kept_entries s) r xs" "length (rmem f) < 2 ^ 31"
    "\<forall>d \<in> set ds. d \<noteq> [] \<and> 2 * (4 + length d) + pad \<le> length (rmem f)" "length (xs @ ds) < n"
    "s' = fold (keep_entry (length (rmem f)) pad) ds s"
  shows "\<exists>f' c' j. rf_writes pad ds f c = Some (Inr (f', c')) \<and> ring_holds f' c' s' \<and>
    rf_drain n f' r = Inr (if chead r < fst s' then kept_entries s' else xs @ ds) \<and>
    (if chead r < fst s' then kept_entries s' else xs @ ds) = drop j (xs @ ds)"
proof -
  obtain f' c' j where r: "rf_writes pad ds f c = Some (Inr (f', c'))" "ring_holds f' c' s'" "reader_view f' c' (kept_entries s') r (drop j (xs @ ds))"
    "fhead f' \<le> chead r \<longrightarrow> j = 0"
    using rf_writes_view[OF assms(1-4)] assms(6) by blast
  have W: "writer_ok f' c' (kept_entries s')" "fst s' = fhead f'" using r(2) by (simp_all add: ring_holds_def writer_ok_def)
  have e: "(if chead r < fst s' then kept_entries s' else xs @ ds) = drop j (xs @ ds)"
    using r(3,4) W(2) by (auto simp: reader_view_def)
  have "rf_drain n f' r = Inr (drop j (xs @ ds))" by (rule drain_view[OF W(1) r(3)]) (use assms(5) in simp)
  then show ?thesis unfolding e using r(1,2) by blast
qed

section \<open>New files\<close>

lemma rf_new_ok:
  assumes "rf_new n = (f, c)" "CURSOR_BYTES < n"
  shows "writer_ok f c []" "reader_view f c [] \<lparr>chead = 0, ctail = t\<rparr> []" "length (rmem f) = n - CURSOR_BYTES" "ctail c = 0"
  using assms layout.layout_nil[of "rmem f" 0] by (auto simp: rf_new_def writer_ok_def reader_view_def)

text \<open>Three entries in a ring of 56 bytes with a padding of 20: the first one is dropped, and a reader at the start has been
  overtaken.\<close>

theorem ring_file_readers_witness:
  "\<exists>f' c'. rf_writes 24 [[1, 2, 3, 4], [5, 6, 7, 8], [9, 10, 11, 12], [13, 14, 15, 16]] (fst (rf_new 200)) (snd (rf_new 200)) = Some (Inr (f', c')) \<and>
     rf_drain 5 f' \<lparr>chead = 0, ctail = 0\<rparr> = Inr [[5, 6, 7, 8], [9, 10, 11, 12], [13, 14, 15, 16]]"
proof -
  obtain f c where f: "rf_new 200 = (f, c)" by (rule prod.exhaust)
  note ok = rf_new_ok[OF f]
  have l: "length (rmem f) = 56" using ok(3) by (simp add: CURSOR_BYTES_def)
  have z: "chead c = 0" "ctail c = 0" using f by (auto simp: rf_new_def)
  have "ring_holds f c (0, [], 0)" using ok(1) z by (simp add: ring_holds_def kept_entries_def CURSOR_BYTES_def)
  moreover have "fold (keep_entry 56 24) [[1, 2, 3, 4], [5, 6, 7, 8], [9, 10, 11, 12], [13, 14, 15, 16]] (0, [], 0) =
      (8, [(16, [5, 6, 7, 8]), (24, [9, 10, 11, 12]), (32, [13, 14, 15, 16 :: 8 word])], 32)"
    by (simp add: keep_entry_def skipped_def)
  ultimately show ?thesis using ring_file_readers[of f c "(0, [], 0)" "\<lparr>chead = 0, ctail = 0\<rparr>" "[]" "[[1, 2, 3, 4], [5, 6, 7, 8], [9, 10, 11, 12], [13, 14, 15, 16]]" 24 5
      "(8, [(16, [5, 6, 7, 8]), (24, [9, 10, 11, 12]), (32, [13, 14, 15, 16 :: 8 word])], 32)"]
    ok(2) f l by (auto simp: kept_entries_def CURSOR_BYTES_def simp del: rf_writes.simps)
qed

text \<open>The bytes that entries take at most, with what is left out at the end of the ring.\<close>

definition cost :: "8 word list list \<Rightarrow> nat" where
  "cost es = (\<Sum>d \<leftarrow> es. 2 * (4 + length d))"

lemma rf_writes_all:
  assumes "writer_ok f c es" "reader_view f c es r xs" "length (rmem f) < 2 ^ 31" "\<forall>d \<in> set ds. d \<noteq> []"
    "ctail c \<le> chead c + cost es" "cost (es @ ds) + pad \<le> length (rmem f)"
  shows "\<exists>f' c' es'. rf_writes pad ds f c = Some (Inr (f', c')) \<and> writer_ok f' c' es' \<and> reader_view f' c' es' r (xs @ ds)"
  using assms
proof (induction ds arbitrary: f c es xs)
  case Nil
  then show ?case by (intro exI[of _ f] exI[of _ c] exI[of _ es]) simp
next
  case (Cons d ds)
  have d: "0 < length d" "2 * (4 + length d) + pad \<le> length (rmem f)" using Cons.prems(4,6) by (auto simp: cost_def)
  have "skipped (to_end (rmem f) (ctail c)) (4 + length d) < 4 + length d" by (simp add: skipped_def)
  then have room: "room_for pad f c d" using Cons.prems(5,6) by (simp add: room_for_def cost_def)
  from rf_write_ok[OF Cons.prems(1) d Cons.prems(3)] obtain f1 c1 k where
    w: "rf_write pad d f c = Some (Inr (d, f1, c1))" "writer_ok f1 c1 (drop k es @ [d])" "length (rmem f1) = length (rmem f)"
      "chead c \<le> chead c1" "layout (rmem f) (chead c) (take k es) (chead c1)"
      "agree (rmem f) (rmem f1) (chead c1) (ctail c)" "layout (rmem f1) (ctail c) [d] (ctail c1)"
      "room_for pad f c d \<longrightarrow> k = 0" "ctail c1 = ctail c + skipped (to_end (rmem f) (ctail c)) (4 + length d) + (4 + length d)" by blast
  have k: "k = 0" using w(8) room by simp
  with reader_view_write[OF Cons.prems(1,2) w(2,4-7)] have v: "reader_view f1 c1 (es @ [d]) r (xs @ [d])" by auto
  have "ctail c1 \<le> chead c1 + cost (es @ [d])" using Cons.prems(5) w(4,9) by (simp add: cost_def skipped_def split: if_splits)
  moreover have "cost ((es @ [d]) @ ds) + pad \<le> length (rmem f1)" using Cons.prems(6) w(3) by simp
  moreover have "writer_ok f1 c1 (es @ [d])" using w(2) k by simp
  ultimately obtain f' c' es' where "rf_writes pad ds f1 c1 = Some (Inr (f', c'))" "writer_ok f' c' es'" "reader_view f' c' es' r ((xs @ [d]) @ ds)"
    using Cons.IH[of f1 c1 "es @ [d]" "xs @ [d]"] v Cons.prems(3,4) w(3) by auto
  then show ?case using w(1) by auto
qed

text \<open>C17: Entries that are not empty, written to a new file that is large enough for them, are all read back, by any reader that starts at the
  beginning, in order and unchanged; then there is nothing more to read.\<close>

theorem ring_file_fifo:
  assumes "rf_new max_size = (f, c)" "\<forall>d \<in> set ds. d \<noteq> []" "CURSOR_BYTES < max_size" "max_size < 2 ^ 31"
    "cost ds + ring_padding max_size ring_size + CURSOR_BYTES \<le> max_size" "length ds < n"
  shows "\<exists>f' c'. rf_writes (ring_padding max_size ring_size) ds f c = Some (Inr (f', c')) \<and> rf_drain n f' \<lparr>chead = 0, ctail = t\<rparr> = Inr ds"
proof -
  note ok = rf_new_ok[OF assms(1,3)]
  have "length (rmem f) < 2 ^ 31" "cost ([] @ ds) + ring_padding max_size ring_size \<le> length (rmem f)" "ctail c \<le> chead c + cost []"
    using ok(3,4) assms(4,5) by simp_all
  from rf_writes_all[OF ok(1,2) this(1) assms(2) this(3,2)] obtain f' c' es' where
    "rf_writes (ring_padding max_size ring_size) ds f c = Some (Inr (f', c'))" "writer_ok f' c' es'"
    "reader_view f' c' es' \<lparr>chead = 0, ctail = t\<rparr> ([] @ ds)" by blast
  then show ?thesis using drain_view[of f' c' es' _ ds n] assms(6) by auto
qed

theorem ring_file_fifo_witness:
  "\<exists>f' c'. rf_writes (ring_padding 400 200) [[1, 2, 3], [4], [5, 6]] (fst (rf_new 400)) (snd (rf_new 400)) = Some (Inr (f', c')) \<and>
     rf_drain 4 f' \<lparr>chead = 0, ctail = 0\<rparr> = Inr [[1, 2, 3], [4], [5, 6]]"
proof -
  obtain f c where f: "rf_new 400 = (f, c)" by (rule prod.exhaust)
  from ring_file_fifo[OF f, of "[[1, 2, 3], [4], [5, 6]]" 200 4 0] f
  show ?thesis by (simp add: CURSOR_BYTES_def ring_padding_def cost_def)
qed

text \<open>An empty entry is taken for an end mark: the reader skips to the end of the ring.\<close>

lemma ring_file_empty_entry:
  "\<exists>f' c'. rf_writes 10 [[], [7]] (fst (rf_new 200)) (snd (rf_new 200)) = Some (Inr (f', c')) \<and>
     rf_drain 3 f' \<lparr>chead = 0, ctail = 0\<rparr> = Inr []"
  by (simp add: rf_new_def CURSOR_BYTES_def rf_write_def make_room.simps Let_def to_end_def no_room_def sizes put_entry_def cursor_entry_def
      put_bytes_def enc32_def rf_read_def end_mark_def esize_def dec32_def numeral_3_eq_3)

end
