(* ===== verification/Iterators.thy ===== *)
theory Iterators
  imports Storage
begin

text \<open>
  \<open>circular_iterator\<close> and \<open>iter_copy_n\<close> of \<^verbatim>\<open>include/txl/iterators.h\<close>. An iterator into an array is its index;
  \<open>difference_type\<close> is an integer that does not overflow. Moving an iterator before the first or past the
  end of the array is undefined behaviour, \<open>None\<close> a loop that does not end.
\<close>

record citer =
  cbegin :: int
  cend :: int
  cnext :: int

definition ci_new :: "int \<Rightarrow> int \<Rightarrow> citer" where
  "ci_new b e = \<lparr>cbegin = b, cend = e, cnext = b\<rparr>"

definition ci_prev :: "citer \<Rightarrow> citer" where
  "ci_prev it = (let n = (if cnext it = cbegin it then cend it else cnext it) in it\<lparr>cnext := n - 1\<rparr>)"

definition ci_next :: "citer \<Rightarrow> citer" where
  "ci_next it = (let n = cnext it + 1 in it\<lparr>cnext := (if n = cend it then cbegin it else n)\<rparr>)"

definition ci_deref :: "'a list \<Rightarrow> citer \<Rightarrow> 'a res" where
  "ci_deref xs it = (if 0 \<le> cnext it \<and> cnext it < int (length xs) then Inr (xs ! nat (cnext it)) else Inl UB)"

text \<open>\<open>operator+=\<close> and \<open>operator-=\<close>.\<close>

partial_function (option) ci_add :: "citer \<Rightarrow> int \<Rightarrow> citer res option" where
  "ci_add it i =
     (if i \<noteq> 0
      then (let dist = min i (cend it - cnext it); n = cnext it + dist
            in if n < cbegin it then Some (Inl UB)
               else ci_add (it\<lparr>cnext := (if n = cend it then cbegin it else n)\<rparr>) (i - dist))
      else Some (Inr it))"

partial_function (option) ci_sub :: "citer \<Rightarrow> int \<Rightarrow> citer res option" where
  "ci_sub it i =
     (if i \<noteq> 0
      then (let n = (if cnext it = cbegin it then cend it else cnext it); dist = min i (n - cbegin it)
            in if n - dist > cend it then Some (Inl UB)
               else ci_sub (it\<lparr>cnext := n - dist\<rparr>) (i - dist))
      else Some (Inr it))"

definition ci_plus :: "citer \<Rightarrow> int \<Rightarrow> citer res option" where
  "ci_plus it i = ci_add \<lparr>cbegin = cbegin it, cend = cend it, cnext = cnext it\<rparr> i"

definition ci_minus :: "citer \<Rightarrow> int \<Rightarrow> citer res option" where
  "ci_minus it i = ci_sub \<lparr>cbegin = cbegin it, cend = cend it, cnext = cnext it\<rparr> i"

definition ci_distance :: "citer \<Rightarrow> citer \<Rightarrow> int" where
  "ci_distance self it =
     (let my_pos = cnext self - cbegin self; their_pos = cnext it - cbegin it
      in if my_pos \<le> their_pos then their_pos - my_pos
         else (let total_dist = cend self - cbegin self in their_pos + total_dist - my_pos))"

text \<open>\<open>iter_copy_n\<close> from a circular iterator; the output is the list of what is written.\<close>

fun ci_copy_n :: "'a list \<Rightarrow> citer \<Rightarrow> nat \<Rightarrow> 'a list res" where
  "ci_copy_n xs it 0 = Inr []"
| "ci_copy_n xs it (Suc n) = and_then (ci_deref xs it) (\<lambda>x. and_then (ci_copy_n xs (ci_next it) n) (\<lambda>ys. Inr (x # ys)))"

section \<open>Arithmetic on the circle\<close>

definition ci_ok :: "citer \<Rightarrow> bool" where
  "ci_ok it \<longleftrightarrow> cbegin it \<le> cnext it \<and> cnext it < cend it"

definition ci_size :: "citer \<Rightarrow> int" where "ci_size it = cend it - cbegin it"
definition ci_pos :: "citer \<Rightarrow> int" where "ci_pos it = cnext it - cbegin it"

text \<open>The iterator \<open>k\<close> places further on the circle.\<close>

definition ci_at :: "citer \<Rightarrow> int \<Rightarrow> citer" where
  "ci_at it k = it\<lparr>cnext := cbegin it + (ci_pos it + k) mod ci_size it\<rparr>"

lemmas ci_defs = ci_ok_def ci_size_def ci_pos_def ci_at_def

lemma ci_size_pos: "ci_ok it \<Longrightarrow> 0 < ci_size it"
  by (simp add: ci_ok_def ci_size_def)

lemma ci_at_ok: "ci_ok it \<Longrightarrow> ci_ok (ci_at it k)"
proof -
  assume ok: "ci_ok it"
  define x where "x = (ci_pos it + k) mod ci_size it"
  have "0 \<le> x" "x < ci_size it" using ci_size_pos[OF ok] by (simp_all add: x_def)
  then have "0 \<le> x" "cbegin it + x < cend it" by (simp_all add: ci_size_def)
  then show ?thesis by (simp add: ci_ok_def ci_at_def x_def[symmetric])
qed

lemma ci_at_zero: "ci_ok it \<Longrightarrow> ci_at it 0 = it"
  by (simp add: ci_defs)

lemma ci_at_simps [simp]: "cbegin (ci_at it k) = cbegin it" "cend (ci_at it k) = cend it"
  by (simp_all add: ci_at_def)

lemma ci_at_at: "ci_at (ci_at it k) j = ci_at it (k + j)"
  by (simp add: ci_at_def ci_pos_def ci_size_def mod_simps add.assoc)

lemma mod_unique: "0 \<le> x \<Longrightarrow> x < n \<Longrightarrow> y = x + n * c \<Longrightarrow> y mod n = (x :: int)"
  by simp

text \<open>A place inside the array that differs from the step by whole rounds is where the step leads.\<close>

lemma ci_at_eqI:
  assumes "ci_ok it" "cbegin it \<le> n" "n < cend it" "cnext it + k = n + ci_size it * c"
  shows "it\<lparr>cnext := n\<rparr> = ci_at it k"
proof -
  have "(ci_pos it + k) mod ci_size it = n - cbegin it"
    by (rule mod_unique[where c = c]) (use assms in \<open>simp_all add: ci_pos_def ci_size_def\<close>)
  then show ?thesis by (simp add: ci_at_def)
qed

lemma ci_next_at: "ci_ok it \<Longrightarrow> ci_next it = ci_at it 1"
  using ci_at_eqI[of it "cnext it + 1" 1 0] ci_at_eqI[of it "cbegin it" 1 1]
  by (simp add: ci_next_def Let_def ci_ok_def ci_size_def)

lemma ci_prev_at: "ci_ok it \<Longrightarrow> ci_prev it = ci_at it (-1)"
  using ci_at_eqI[of it "cnext it - 1" "-1" 0] ci_at_eqI[of it "cend it - 1" "-1" "-1"]
  by (simp add: ci_prev_def Let_def ci_ok_def ci_size_def)

lemma ci_add_at:
  assumes "ci_ok it" "0 \<le> i"
  shows "ci_add it i = Some (Inr (ci_at it i))"
  using assms
proof (induction "nat i" arbitrary: it i rule: less_induct)
  case less
  show ?case
  proof (cases "i = 0")
    case True
    then show ?thesis using less.prems by (subst ci_add.simps) (simp add: ci_at_zero)
  next
    case False
    define dist where "dist = min i (cend it - cnext it)"
    have d: "0 < dist" "dist \<le> i" "cnext it + dist \<le> cend it" using less.prems False by (auto simp: dist_def ci_ok_def)
    let ?it = "it\<lparr>cnext := (if cnext it + dist = cend it then cbegin it else cnext it + dist)\<rparr>"
    have e: "?it = ci_at it dist"
      using ci_at_eqI[OF less.prems(1), of "cnext it + dist" dist 0] ci_at_eqI[OF less.prems(1), of "cbegin it" dist 1] d less.prems(1)
      by (simp add: ci_ok_def ci_size_def)
    have "ci_add it i = ci_add ?it (i - dist)"
      using False d less.prems(1) by (subst ci_add.simps) (simp add: Let_def dist_def[symmetric] ci_ok_def)
    also have "\<dots> = Some (Inr (ci_at (ci_at it dist) (i - dist)))" unfolding e
      using d less.prems by (intro less.hyps) (auto simp: ci_at_ok)
    finally show ?thesis by (simp add: ci_at_at)
  qed
qed

lemma ci_sub_at:
  assumes "ci_ok it" "0 \<le> i"
  shows "ci_sub it i = Some (Inr (ci_at it (- i)))"
  using assms
proof (induction "nat i" arbitrary: it i rule: less_induct)
  case less
  show ?case
  proof (cases "i = 0")
    case True
    then show ?thesis using less.prems by (subst ci_sub.simps) (simp add: ci_at_zero)
  next
    case False
    define n where "n = (if cnext it = cbegin it then cend it else cnext it)"
    define dist where "dist = min i (n - cbegin it)"
    have d: "0 < dist" "dist \<le> i" "cbegin it \<le> n - dist" "n - dist < cend it" using less.prems False by (auto simp: dist_def n_def ci_ok_def)
    let ?it = "it\<lparr>cnext := n - dist\<rparr>"
    have e: "?it = ci_at it (- dist)"
    proof (cases "cnext it = cbegin it")
      case True
      then show ?thesis using ci_at_eqI[OF less.prems(1) d(3,4), of "- dist" "-1"] by (simp add: n_def ci_size_def)
    next
      case False
      then show ?thesis using ci_at_eqI[OF less.prems(1) d(3,4), of "- dist" 0] by (simp add: n_def)
    qed
    have "ci_sub it i = ci_sub ?it (i - dist)"
      using False d less.prems(1) by (subst ci_sub.simps) (simp add: Let_def n_def[symmetric] dist_def[symmetric] ci_ok_def)
    also have "\<dots> = Some (Inr (ci_at (ci_at it (- dist)) (- (i - dist))))" unfolding e
      using d less.prems by (intro less.hyps) (auto simp: ci_at_ok)
    finally show ?thesis by (simp add: ci_at_at)
  qed
qed

text \<open>On a range that is not empty the circular iterator is arithmetic modulo its length: \<open>++\<close> and \<open>--\<close> move by one place,
  \<open>+\<close> and \<open>-\<close> by any number of places and rounds, and going back undoes going forward.\<close>

theorem circular_iterator_modular:
  assumes "ci_ok it" "0 \<le> i"
  shows "ci_next it = ci_at it 1 \<and> ci_prev it = ci_at it (-1) \<and> ci_plus it i = Some (Inr (ci_at it i)) \<and>
    ci_minus it i = Some (Inr (ci_at it (- i))) \<and> ci_minus (ci_at it i) i = Some (Inr it)"
proof -
  have "ci_plus j i = ci_add j i" "ci_minus j i = ci_sub j i" for j i by (cases j; simp add: ci_plus_def ci_minus_def)+
  then show ?thesis using assms ci_add_at[OF assms] ci_sub_at[OF assms] ci_sub_at[OF ci_at_ok[OF assms(1)] assms(2), of i]
    by (simp add: ci_next_at ci_prev_at ci_at_at ci_at_zero)
qed

theorem circular_iterator_modular_witness:
  "ci_plus \<lparr>cbegin = 0, cend = 5, cnext = 3\<rparr> 9 = Some (Inr \<lparr>cbegin = 0, cend = 5, cnext = 2\<rparr>)"
  using circular_iterator_modular[of "\<lparr>cbegin = 0, cend = 5, cnext = 3\<rparr>" 9] by (simp add: ci_defs)

text \<open>Copying goes round the array as often as needed.\<close>

lemma ci_copy_n_round:
  assumes "ci_ok it" "cbegin it = 0" "cend it = int (length xs)"
  shows "ci_copy_n xs it n = Inr (map (\<lambda>k. xs ! ((nat (cnext it) + k) mod length xs)) [0..<n])"
  using assms
proof (induction n arbitrary: it)
  case (Suc n)
  define p where "p = nat (cnext it)"
  have p: "cnext it = int p" "p < length xs" using Suc.prems by (auto simp: ci_ok_def p_def)
  have "cnext (ci_next it) = int (Suc p mod length xs)"
  proof (cases "Suc p = length xs")
    case True
    then show ?thesis using p Suc.prems(2,3) by (simp add: ci_next_def Let_def)
  next
    case False
    then show ?thesis using p Suc.prems(2,3) by (simp add: ci_next_def Let_def)
  qed
  then have "ci_copy_n xs (ci_next it) n = Inr (map (\<lambda>k. xs ! ((Suc p mod length xs + k) mod length xs)) [0..<n])"
    using Suc.IH[of "ci_next it"] Suc.prems ci_at_ok[OF Suc.prems(1), of 1] by (simp add: ci_next_at)
  moreover have "(Suc p mod length xs + k) mod length xs = (p + Suc k) mod length xs" for k
    by (simp add: mod_simps)
  ultimately show ?case using p by (simp add: ci_deref_def upt_conv_Cons[of 0 "Suc n"] map_Suc_upt[symmetric] del: upt_Suc)
qed simp

text \<open>The difference of two iterators is turned round: \<open>a - b\<close> is how far \<open>a\<close> has to go to reach \<open>b\<close>.\<close>

lemma ci_distance_reversed:
  assumes "ci_ok a" "ci_ok b" "cbegin b = cbegin a" "cend b = cend a"
  shows "ci_at a (ci_distance a b) = b"
proof -
  have "\<exists>c. cnext a + ci_distance a b = cnext b + ci_size a * c"
  proof (cases "cnext a \<le> cnext b")
    case True
    then show ?thesis using assms(3) by (intro exI[of _ 0]) (simp add: ci_distance_def Let_def)
  next
    case False
    then show ?thesis using assms(3) by (intro exI[of _ 1]) (simp add: ci_distance_def Let_def ci_size_def)
  qed
  then obtain c where "cnext a + ci_distance a b = cnext b + ci_size a * c" by blast
  from ci_at_eqI[OF assms(1) _ _ this] assms have "a\<lparr>cnext := cnext b\<rparr> = ci_at a (ci_distance a b)" by (simp add: ci_ok_def)
  moreover have "a\<lparr>cnext := cnext b\<rparr> = b" using assms(3,4) by (intro citer.equality) simp_all
  ultimately show ?thesis by simp
qed

text \<open>On an empty range the addition of anything positive does not end.\<close>

definition stuck :: "citer \<Rightarrow> int \<Rightarrow> bool" where
  "stuck it i \<longleftrightarrow> 0 < i \<and> cbegin it = cend it \<and> cnext it = cend it"

lemma ci_add_empty: "0 < i \<Longrightarrow> ci_add \<lparr>cbegin = b, cend = b, cnext = b\<rparr> i = None"
proof -
  assume i: "0 < i"
  have "ci_add it j = Some r \<Longrightarrow> \<not> stuck it j" for it j r
  proof (rule ci_add.raw_induct[where P = "\<lambda>it j _. \<not> stuck it j", rotated])
    fix f it j r
    assume IH: "\<And>it j r. f it j = Some r \<Longrightarrow> \<not> stuck it j"
      and e: "(if j \<noteq> 0 then let dist = min j (cend it - cnext it); n = cnext it + dist
            in if n < cbegin it then Some (Inl UB) else f (it\<lparr>cnext := if n = cend it then cbegin it else n\<rparr>) (j - dist)
          else Some (Inr it)) = Some r"
    show "\<not> stuck it j"
    proof
      assume s: "stuck it j"
      then have "f (it\<lparr>cnext := cbegin it\<rparr>) j = Some r" using e by (simp add: stuck_def Let_def)
      from IH[OF this] s show False by (simp add: stuck_def)
    qed
  qed
  moreover have "stuck \<lparr>cbegin = b, cend = b, cnext = b\<rparr> i" using i by (simp add: stuck_def)
  ultimately show ?thesis by (cases "ci_add \<lparr>cbegin = b, cend = b, cnext = b\<rparr> i") blast+
qed


section \<open>The other iterators\<close>

text \<open>\<open>basic_iterator\<close>, a position; \<open>custom_insert_iterator\<close>, whose assignment calls a function.\<close>

definition bi_deref :: "'a list \<Rightarrow> int \<Rightarrow> 'a res" where
  "bi_deref xs i = (if 0 \<le> i \<and> i < int (length xs) then Inr (xs ! nat i) else Inl UB)"

text \<open>A position is in the array or at its end.\<close>

definition bi_move :: "'a list \<Rightarrow> int \<Rightarrow> int \<Rightarrow> int res" where
  "bi_move xs i d = (if 0 \<le> i + d \<and> i + d \<le> int (length xs) then Inr (i + d) else Inl UB)"

definition bi_plus :: "'a list \<Rightarrow> int \<Rightarrow> int \<Rightarrow> int res" where "bi_plus xs i d = bi_move xs i d"
definition bi_minus :: "'a list \<Rightarrow> int \<Rightarrow> int \<Rightarrow> int res" where "bi_minus xs i d = bi_move xs i (- d)"
definition bi_incr :: "'a list \<Rightarrow> int \<Rightarrow> int res" where "bi_incr xs i = bi_move xs i 1"
definition bi_decr :: "'a list \<Rightarrow> int \<Rightarrow> int res" where "bi_decr xs i = bi_move xs i (- 1)"
definition bi_distance :: "int \<Rightarrow> int \<Rightarrow> int" where "bi_distance i j = i - j"

lemma bi_plus_distance: "bi_plus xs i d = Inr j \<Longrightarrow> bi_distance j i = d \<and> (0 \<le> i \<and> i \<le> int (length xs) \<longrightarrow> bi_minus xs j d = Inr i)"
  by (auto simp: bi_plus_def bi_minus_def bi_move_def bi_distance_def split: if_splits)

definition ins_assign :: "('v \<Rightarrow> 's \<Rightarrow> 's) \<Rightarrow> 'v \<Rightarrow> 's \<Rightarrow> 's" where "ins_assign assign v s = assign v s"

text \<open>\<open>iter_copy_n\<close> from a circular iterator to an insert iterator.\<close>

fun ci_copy_to :: "'a list \<Rightarrow> ('a \<Rightarrow> 's \<Rightarrow> 's) \<Rightarrow> citer \<Rightarrow> nat \<Rightarrow> 's \<Rightarrow> 's res" where
  "ci_copy_to xs assign it 0 s = Inr s"
| "ci_copy_to xs assign it (Suc n) s =
     and_then (ci_deref xs it) (\<lambda>x. ci_copy_to xs assign (ci_next it) n (ins_assign assign x s))"

lemma ci_copy_to_fold:
  "ci_copy_n xs it n = Inr ys \<Longrightarrow> ci_copy_to xs assign it n s = Inr (fold assign ys s)"
  by (induction n arbitrary: it ys s) (auto simp: and_then_eq_Inr ins_assign_def)

text \<open>\<open>move_backward\<close> constructs in the places it moves to: a value that lives there is lost, its destructor never runs. \<open>lost\<close> keeps
  those values.\<close>

fun move_backward :: "'v slot list \<Rightarrow> nat \<Rightarrow> nat \<Rightarrow> nat \<Rightarrow> 'v list \<Rightarrow> ('v slot list \<times> 'v list) res" where
  "move_backward d src_begin 0 dst_end lost = Inr (d, lost)"
| "move_backward d src_begin (Suc n) dst_end lost =
     (let src = src_begin + n; dst = dst_end - 1
      in if dst_end = 0 \<or> length d \<le> src \<or> length d \<le> dst \<or> src = dst then Inl UB
         else let lost' = lost @ (case d ! dst of Live w \<Rightarrow> [w] | _ \<Rightarrow> [])
              in case d ! src of
                   Raw \<Rightarrow> Inl UB
                 | Live v \<Rightarrow> move_backward (d[dst := Live v, src := Moved]) src_begin n dst lost'
                 | Moved \<Rightarrow> move_backward (d[dst := Moved]) src_begin n dst lost')"

text \<open>To the right it leaves the slots as \<^verbatim>\<open>std::move_backward\<close> does.\<close>

lemma move_backward_slots:
  "src_begin + n < dst_end \<Longrightarrow> map_sum id fst (move_backward d src_begin n dst_end lost) = st_move_backward d src_begin n dst_end"
proof (induction n arbitrary: d dst_end lost)
  case (Suc n)
  have lt: "src_begin + n < dst_end - 1" using Suc.prems by simp
  show ?case
    using Suc.prems lt Suc.IH[OF lt]
    by (cases "length d \<le> src_begin + n \<or> length d \<le> dst_end - 1"; cases "d ! (src_begin + n)") (auto simp: Let_def st_move_def)
qed simp

text \<open>Into places that hold no value nothing is lost, also when the ranges overlap.\<close>

lemma move_backward_keeps:
  assumes "src_begin + n < dst_end" "dst_end \<le> length d" "\<forall>j. src_begin + n \<le> j \<and> j < dst_end \<longrightarrow> slot_val (d ! j) = None"
    "\<forall>j < n. d ! (src_begin + j) \<noteq> Raw"
  shows "\<exists>d'. move_backward d src_begin n dst_end lost = Inr (d', lost)"
  using assms
proof (induction n arbitrary: d dst_end)
  case (Suc n)
  let ?src = "src_begin + n" and ?dst = "dst_end - 1"
  have b: "?src < length d" "?dst < length d" "?src \<noteq> ?dst" "dst_end \<noteq> 0" "?src < ?dst" using Suc.prems by auto
  have dst: "(case d ! ?dst of Live w \<Rightarrow> [w] | _ \<Rightarrow> []) = []"
    using Suc.prems(1,3) by (cases "d ! ?dst") (auto dest!: spec[of _ ?dst])
  have src: "d ! ?src \<noteq> Raw" using Suc.prems(4) by simp
  have ih: "\<exists>d'. move_backward (d[?dst := x, ?src := Moved]) src_begin n ?dst lost = Inr (d', lost)" for x
    using Suc.prems b by (intro Suc.IH) (auto simp: nth_list_update)
  show ?case
  proof (cases "d ! ?src")
    case (Live v)
    then show ?thesis using b dst ih[of "Live v"] by (simp add: Let_def)
  next
    case Moved
    then have "d[?dst := Moved, ?src := Moved] = d[?dst := Moved]" using b by (auto simp: list_eq_iff_nth_eq nth_list_update)
    then show ?thesis using Moved b dst ih[of Moved] by (simp add: Let_def)
  qed (use src in simp)
qed simp

lemma move_backward_loses: "move_backward [Live a, Live (b :: 'v)] 0 1 2 [] = Inr ([Moved, Live a], [b])"
  by (simp add: Let_def)

end
