(* ===== verification/DeltaVector.thy ===== *)
theory DeltaVector
  imports TxlPrelude
begin

text \<open>
  \<^verbatim>\<open>include/txl/delta_vector.h\<close>: a series of values kept as a base and the differences between neighbours. A value of the
  type \<open>Base\<close> is an integer that does not overflow; \<open>Delta\<close> is a signed type of \<open>w + 1\<close> bits, and a
  difference that does not fit is truncated to it. \<open>begin\<close> and \<open>end\<close> take the address of an element by its index: the one of
  \<open>end\<close> is not in the vector, which is undefined for the index operator of \<^verbatim>\<open>std::vector\<close>.
\<close>

record dvec =
  dbase :: int
  dlast :: int
  deltas :: "int list"

definition to_delta :: "nat \<Rightarrow> int \<Rightarrow> int" where
  "to_delta w d = signed_take_bit w d"

definition dv_push_back_delta :: "int \<Rightarrow> dvec \<Rightarrow> dvec" where
  "dv_push_back_delta d v = v\<lparr>dlast := dlast v + d, deltas := deltas v @ [d]\<rparr>"

definition dv_push_back :: "nat \<Rightarrow> int \<Rightarrow> dvec \<Rightarrow> dvec" where
  "dv_push_back w x v = dv_push_back_delta (to_delta w (x - dlast v)) v"

definition dv_new :: "int \<Rightarrow> dvec" where
  "dv_new b = dv_push_back_delta (b - b) \<lparr>dbase = b, dlast = b, deltas = []\<rparr>"

definition dv_clear :: "dvec \<Rightarrow> dvec" where
  "dv_clear v = dv_push_back_delta (dbase v - dbase v) (v\<lparr>deltas := [], dlast := dbase v\<rparr>)"

definition dv_size :: "dvec \<Rightarrow> nat" where "dv_size v = length (deltas v)"

text \<open>The iterator: the value before the place it points to, and the index of the difference.\<close>

record dv_iter =
  ilast :: int
  ipos :: nat

definition dv_begin :: "dvec \<Rightarrow> dv_iter res" where
  "dv_begin v = and_then (vec_get (deltas v) 0) (\<lambda>_. Inr \<lparr>ilast = dbase v, ipos = 0\<rparr>)"

definition dv_end :: "dvec \<Rightarrow> dv_iter res" where
  "dv_end v = and_then (vec_get (deltas v) (dv_size v)) (\<lambda>_. Inr \<lparr>ilast = dbase v, ipos = dv_size v\<rparr>)"

definition dv_deref :: "dvec \<Rightarrow> dv_iter \<Rightarrow> int res" where
  "dv_deref v it = and_then (vec_get (deltas v) (ipos it)) (\<lambda>d. Inr (ilast it + d))"

definition dv_next :: "dvec \<Rightarrow> dv_iter \<Rightarrow> dv_iter res" where
  "dv_next v it = and_then (vec_get (deltas v) (ipos it)) (\<lambda>d. Inr \<lparr>ilast = ilast it + d, ipos = ipos it + 1\<rparr>)"

definition dv_prev :: "dvec \<Rightarrow> dv_iter \<Rightarrow> dv_iter res" where
  "dv_prev v it = and_then (vec_get (deltas v) (ipos it)) (\<lambda>d.
     if ipos it = 0 then Inl UB else Inr \<lparr>ilast = ilast it - d, ipos = ipos it - 1\<rparr>)"

definition dv_eq :: "dv_iter \<Rightarrow> dv_iter \<Rightarrow> bool" where "dv_eq i j \<longleftrightarrow> ipos i = ipos j"

text \<open>Reading as many values as the vector has from its beginning, and the range for loop with its call of \<open>end\<close>; the bound on
  the rounds is the size.\<close>

fun dv_take :: "nat \<Rightarrow> dvec \<Rightarrow> dv_iter \<Rightarrow> int list res" where
  "dv_take 0 v it = Inr []"
| "dv_take (Suc n) v it =
     and_then (dv_deref v it) (\<lambda>x. and_then (dv_next v it) (\<lambda>it'. and_then (dv_take n v it') (\<lambda>xs. Inr (x # xs))))"

definition dv_values :: "dvec \<Rightarrow> int list res" where
  "dv_values v = and_then (dv_begin v) (dv_take (dv_size v) v)"

fun dv_walk :: "nat \<Rightarrow> dvec \<Rightarrow> dv_iter \<Rightarrow> dv_iter \<Rightarrow> int list res" where
  "dv_walk n v it e = (if dv_eq it e then Inr [] else case n of 0 \<Rightarrow> Inl UB | Suc m \<Rightarrow>
     and_then (dv_deref v it) (\<lambda>x. and_then (dv_next v it) (\<lambda>it'. and_then (dv_walk m v it' e) (\<lambda>xs. Inr (x # xs)))))"

definition dv_loop :: "dvec \<Rightarrow> int list res" where
  "dv_loop v = and_then (dv_begin v) (\<lambda>b. and_then (dv_end v) (dv_walk (dv_size v) v b))"

section \<open>Values come back\<close>

fun partial_sums :: "int \<Rightarrow> int list \<Rightarrow> int list" where
  "partial_sums s [] = []"
| "partial_sums s (d # ds) = (s + d) # partial_sums (s + d) ds"

lemma take_sums:
  "deltas v = pre @ ds \<Longrightarrow> dv_take (length ds) v \<lparr>ilast = s, ipos = length pre\<rparr> = Inr (partial_sums s ds)"
proof (induction ds arbitrary: pre s)
  case (Cons d ds)
  with Cons.IH[of "pre @ [d]" "s + d"] show ?case
    by (simp add: dv_deref_def dv_next_def vec_get_def nth_append)
qed simp

lemma partial_sums_append: "partial_sums s (ds @ es) = partial_sums s ds @ partial_sums (s + sum_list ds) es"
  by (induction ds arbitrary: s) (simp_all add: add.assoc)

text \<open>Neighbours that are not too far apart.\<close>

fun fits :: "nat \<Rightarrow> int \<Rightarrow> int list \<Rightarrow> bool" where
  "fits w s [] = True"
| "fits w s (x # xs) = (- (2 ^ w) \<le> x - s \<and> x - s < 2 ^ w \<and> fits w x xs)"

lemma push_all_sums:
  assumes "dlast v = dbase v + sum_list (deltas v)" "fits w (dlast v) xs"
  shows "partial_sums (dbase v) (deltas (fold (dv_push_back w) xs v)) = partial_sums (dbase v) (deltas v) @ xs \<and>
    dbase (fold (dv_push_back w) xs v) = dbase v"
  using assms
proof (induction xs arbitrary: v)
  case (Cons x xs)
  have d: "to_delta w (x - dlast v) = x - dlast v"
    unfolding to_delta_def using Cons.prems(2) by (intro signed_take_bit_int_eq_self) auto
  let ?v = "dv_push_back w x v"
  have v: "dbase ?v = dbase v" "dlast ?v = x" "deltas ?v = deltas v @ [x - dlast v]"
    using d by (simp_all add: dv_push_back_def dv_push_back_delta_def)
  have "dlast ?v = dbase ?v + sum_list (deltas ?v)" "fits w (dlast ?v) xs" using Cons.prems v by simp_all
  from Cons.IH[OF this] v Cons.prems(1) show ?case by (simp add: partial_sums_append)
qed simp

text \<open>C39: Values whose neighbours are no further apart than the type of the differences allows are read back exactly, after the
  base itself, by an iterator that starts at \<open>begin\<close> and takes \<open>size\<close> values.\<close>

theorem delta_vector_roundtrip:
  assumes "fits w b xs"
  shows "dv_values (fold (dv_push_back w) xs (dv_new b)) = Inr (b # xs) \<and> dv_size (fold (dv_push_back w) xs (dv_new b)) = length xs + 1"
proof -
  let ?v = "fold (dv_push_back w) xs (dv_new b)"
  have n: "dbase (dv_new b) = b" "dlast (dv_new b) = b" "deltas (dv_new b) = [0]"
    by (simp_all add: dv_new_def dv_push_back_delta_def)
  have "length (deltas (fold (dv_push_back w) xs v)) = length (deltas v) + length xs" for v
    by (induction xs arbitrary: v) (simp_all add: dv_push_back_def dv_push_back_delta_def)
  then have l: "length (deltas ?v) = length xs + 1" using n by simp
  from take_sums[of ?v "[]" "deltas ?v" b] push_all_sums[of "dv_new b" w xs] n assms l show ?thesis
    by (simp add: dv_begin_def dv_values_def dv_size_def vec_get_def)
qed

theorem delta_vector_roundtrip_witness:
  "dv_values (fold (dv_push_back 7) [10100, 10075, 10000] (dv_new 10000)) = Inr [10000, 10100, 10075, 10000]"
  using delta_vector_roundtrip[of 7 10000 "[10100, 10075, 10000]"] by simp

text \<open>\<open>end\<close> is undefined, and with it every loop to the end.\<close>

lemma delta_vector_end_ub: "dv_end v = Inl UB" "dv_loop v = Inl UB"
proof -
  show e: "dv_end v = Inl UB" by (simp add: dv_end_def dv_size_def vec_get_def)
  show "dv_loop v = Inl UB" by (simp add: dv_loop_def e dv_begin_def vec_get_def)
qed

text \<open>\<open>--\<close> subtracts the difference of the place it leaves instead of the one it goes to.\<close>

lemma delta_vector_prev_wrong:
  defines "v \<equiv> fold (dv_push_back 7) [5, 8] (dv_new 0)"
  shows "\<exists>it0 it it'. dv_begin v = Inr it0 \<and> dv_next v it0 = Inr it \<and> dv_deref v it = Inr 5 \<and>
     dv_prev v it = Inr it' \<and> dv_deref v it' = Inr (-5)"
  by (simp add: v_def dv_new_def dv_push_back_def dv_push_back_delta_def to_delta_def signed_take_bit_int_eq_self dv_begin_def dv_next_def dv_prev_def dv_deref_def vec_get_def)

lemma dv_clear_new: "dbase (dv_clear v) = dbase v \<and> dv_clear v = dv_new (dbase v)"
  by (simp add: dv_clear_def dv_new_def dv_push_back_delta_def)

end
