(* ===== verification/OptionParser.thy ===== *)
theory OptionParser
  imports TxlPrelude "HOL-Library.Word"
begin

text \<open>
  \<^verbatim>\<open>include/txl/option_parser.h\<close>: flags of one character with a variable each, and the loop over the arguments. The
  variables are a store from addresses to values; \<open>atoi\<close>, a function of the C library, is a parameter. The
  unknown arguments are the list of the calls of \<open>on_unknown_arg\<close> (a parser without one just skips them). Flags are
  characters below 128, for which the order of \<^verbatim>\<open>char\<close> is that of their codes.
\<close>

datatype opt_type = StrValue | BoolValue | Int32Value

record opt =
  val_type :: opt_type
  target :: nat

datatype val = VStr string | VBool bool | VInt "32 word"

text \<open>The map of the options is kept sorted by the character, as \<^verbatim>\<open>std::map\<close> does.\<close>

record optparser =
  opts :: "(char \<times> opt) list"
  store :: "nat \<Rightarrow> val"
  unknown :: "string list"

definition is_flag :: "opt \<Rightarrow> bool" where "is_flag o1 \<longleftrightarrow> val_type o1 = BoolValue"

fun map_emplace :: "char \<Rightarrow> 'a \<Rightarrow> (char \<times> 'a) list \<Rightarrow> (char \<times> 'a) list \<times> bool" where
  "map_emplace k v [] = ([(k, v)], True)"
| "map_emplace k v ((k', v') # m) =
     (if k = k' then ((k', v') # m, False)
      else if (of_char k :: nat) < of_char k' then ((k, v) # (k', v') # m, True)
      else (let (m', b) = map_emplace k v m in ((k', v') # m', b)))"

text \<open>The three overloads of \<open>add_flag\<close>; a string keeps its value.\<close>

definition add_flag :: "char \<Rightarrow> opt_type \<Rightarrow> nat \<Rightarrow> optparser \<Rightarrow> bool \<times> optparser" where
  "add_flag flag ty a p =
     (let st = (case ty of BoolValue \<Rightarrow> (store p)(a := VBool False) | Int32Value \<Rightarrow> (store p)(a := VInt 0) | StrValue \<Rightarrow> store p);
          (m, emplaced) = map_emplace flag \<lparr>val_type = ty, target = a\<rparr> (opts p)
      in (emplaced, p\<lparr>opts := m, store := st\<rparr>))"

text \<open>\<open>process_option\<close> takes an argument for a string or a number.\<close>

definition process_option :: "(string \<Rightarrow> 32 word) \<Rightarrow> opt \<Rightarrow> string list \<Rightarrow> optparser \<Rightarrow> (string list \<times> optparser) res" where
  "process_option atoi o1 args p = (case val_type o1 of
       StrValue \<Rightarrow> (case args of [] \<Rightarrow> Inl UB | a # as \<Rightarrow> Inr (as, p\<lparr>store := (store p)(target o1 := VStr a)\<rparr>))
     | BoolValue \<Rightarrow> Inr (args, p\<lparr>store := (store p)(target o1 := VBool True)\<rparr>)
     | Int32Value \<Rightarrow> (case args of [] \<Rightarrow> Inl UB | a # as \<Rightarrow> Inr (as, p\<lparr>store := (store p)(target o1 := VInt (atoi a))\<rparr>)))"

definition on_unknown_arg :: "string \<Rightarrow> optparser \<Rightarrow> optparser" where
  "on_unknown_arg a p = p\<lparr>unknown := unknown p @ [a]\<rparr>"

definition is_option :: "string \<Rightarrow> bool" where
  "is_option a \<longleftrightarrow> length a = 2 \<and> a ! 0 = CHR ''-''"

definition argument_required :: fault where
  "argument_required = RuntimeError ''Argument required''"

lemma process_option_length: "process_option atoi o1 args p = Inr (as, p') \<Longrightarrow> length as \<le> length args"
  by (auto simp: process_option_def split: opt_type.splits list.splits)

function (sequential) parse :: "(string \<Rightarrow> 32 word) \<Rightarrow> string list \<Rightarrow> optparser \<Rightarrow> optparser res" where
  "parse atoi [] p = Inr p"
| "parse atoi (arg # args) p =
     (if \<not> is_option arg then parse atoi args (on_unknown_arg arg p)
      else (case map_of (opts p) (arg ! 1) of
          None \<Rightarrow> parse atoi args (on_unknown_arg arg p)
        | Some o1 \<Rightarrow>
            if args = [] \<and> \<not> is_flag o1 then Inl argument_required
            else (case process_option atoi o1 args p of Inl e \<Rightarrow> Inl e | Inr (args', p') \<Rightarrow> parse atoi args' p')))"
  by pat_completeness auto
termination
  by (relation "measure (\<lambda>(_, args, _). length args)") (auto dest: process_option_length)

text \<open>\<open>argv[0]\<close> is skipped.\<close>

definition parse_argv :: "(string \<Rightarrow> 32 word) \<Rightarrow> string list \<Rightarrow> optparser \<Rightarrow> optparser res" where
  "parse_argv atoi argv p = parse atoi (tl argv) p"

definition usage_item :: "char \<times> opt \<Rightarrow> string" where
  "usage_item x = '' [ -'' @ [fst x] @ (case val_type (snd x) of StrValue \<Rightarrow> '' <str>'' | Int32Value \<Rightarrow> '' <int>'' | BoolValue \<Rightarrow> '''') @ '' ]''"

definition get_usage_string :: "string \<Rightarrow> optparser \<Rightarrow> string" where
  "get_usage_string exe p = ''Usage: '' @ exe @ concat (map usage_item (opts p))"

text \<open>\<open>parse_or_exit\<close>: the exit code and what is printed, or the parsed options; \<open>h\<close> is the address of the local \<open>print_help\<close>.\<close>

datatype exit = ParsedAll optparser | Exited int string

definition parse_or_exit :: "(string \<Rightarrow> 32 word) \<Rightarrow> nat \<Rightarrow> string list \<Rightarrow> optparser \<Rightarrow> exit res" where
  "parse_or_exit atoi h argv p =
     (let p1 = snd (add_flag (CHR ''h'') BoolValue h (p\<lparr>store := (store p)(h := VBool False)\<rparr>))
      in (case parse_argv atoi argv p1 of
          Inl (RuntimeError m) \<Rightarrow> Inr (Exited 1 (''error: '' @ m))
        | Inl e \<Rightarrow> Inl e
        | Inr p2 \<Rightarrow> if store p2 h = VBool True then Inr (Exited 0 (get_usage_string (hd argv) p2)) else Inr (ParsedAll p2)))"

section \<open>What a command line means\<close>

text \<open>A command line as a list of items.\<close>

datatype item = Flag char | WithArg char string | Other string

fun render :: "item \<Rightarrow> string list" where
  "render (Flag c) = [[CHR ''-'', c]]"
| "render (WithArg c a) = [[CHR ''-'', c], a]"
| "render (Other a) = [a]"

definition item_ok :: "(char \<times> opt) list \<Rightarrow> item \<Rightarrow> bool" where
  "item_ok m i = (case i of
       Flag c \<Rightarrow> (case map_of m c of Some o1 \<Rightarrow> is_flag o1 | None \<Rightarrow> False)
     | WithArg c a \<Rightarrow> (case map_of m c of Some o1 \<Rightarrow> \<not> is_flag o1 | None \<Rightarrow> False)
     | Other a \<Rightarrow> is_option a \<longrightarrow> map_of m (a ! 1) = None)"

fun apply_item :: "(string \<Rightarrow> 32 word) \<Rightarrow> item \<Rightarrow> optparser \<Rightarrow> optparser" where
  "apply_item atoi (Flag c) p = (case map_of (opts p) c of None \<Rightarrow> p
     | Some o1 \<Rightarrow> p\<lparr>store := (store p)(target o1 := VBool True)\<rparr>)"
| "apply_item atoi (WithArg c a) p = (case map_of (opts p) c of None \<Rightarrow> p
     | Some o1 \<Rightarrow> p\<lparr>store := (store p)(target o1 := (if val_type o1 = StrValue then VStr a else VInt (atoi a)))\<rparr>)"
| "apply_item atoi (Other a) p = on_unknown_arg a p"

lemma apply_item_opts [simp]: "opts (apply_item atoi i p) = opts p"
  by (cases i) (auto simp: on_unknown_arg_def split: option.splits)

lemma parse_item:
  assumes "item_ok (opts p) i"
  shows "parse atoi (render i @ args) p = parse atoi args (apply_item atoi i p)"
proof (cases i)
  case (Flag c)
  with assms obtain o1 where "map_of (opts p) c = Some o1" "val_type o1 = BoolValue" by (auto simp: item_ok_def is_flag_def split: option.splits)
  with Flag show ?thesis by (simp add: is_option_def process_option_def is_flag_def)
next
  case (WithArg c a)
  with assms obtain o1 where "map_of (opts p) c = Some o1" "val_type o1 \<noteq> BoolValue" by (auto simp: item_ok_def is_flag_def split: option.splits)
  with WithArg show ?thesis by (cases "val_type o1") (auto simp: is_option_def process_option_def)
next
  case (Other a)
  with assms show ?thesis by (auto simp: item_ok_def)
qed

text \<open>A command line of items is parsed item by item: a flag sets its variable, an option takes the argument behind it whatever
  it looks like, and everything else is passed on as unknown, in order; the parser never fails on such a line.\<close>

theorem option_parser_items:
  assumes "\<forall>i \<in> set is. item_ok (opts p) i"
  shows "parse atoi (concat (map render is)) p = Inr (fold (apply_item atoi) is p)"
  using assms
proof (induction "is" arbitrary: p)
  case (Cons i "is")
  then show ?case using parse_item[of p i atoi "concat (map render is)"] by simp
qed simp

theorem option_parser_items_witness:
  "\<exists>p. parse (\<lambda>_. 7) [''-x'', ''-y'', ''-y'', ''file'', ''-n'', ''7''] p = Inr (p\<lparr>store := (store p)(0 := VStr ''-y'', 1 := VBool True, 2 := VInt 7), unknown := [''file'']\<rparr>)"
proof -
  let ?p = "\<lparr>opts = [(CHR ''n'', \<lparr>val_type = Int32Value, target = 2\<rparr>), (CHR ''x'', \<lparr>val_type = StrValue, target = 0\<rparr>), (CHR ''y'', \<lparr>val_type = BoolValue, target = 1\<rparr>)],
    store = \<lambda>_. VBool False, unknown = []\<rparr>"
  let ?is = "[WithArg (CHR ''x'') ''-y'', Flag (CHR ''y''), Other ''file'', WithArg (CHR ''n'') ''7'']"
  have "\<forall>i \<in> set ?is. item_ok (opts ?p) i" by (simp add: item_ok_def is_flag_def is_option_def)
  from option_parser_items[OF this, of "\<lambda>_. 7"] show ?thesis
    by (intro exI[of _ ?p]) (simp add: on_unknown_arg_def)
qed

text \<open>The only error of a parser that knows its options is a missing argument at the end of the line.\<close>

lemma option_parser_missing:
  assumes "\<forall>i \<in> set is. item_ok (opts p) i" "map_of (opts p) c = Some o1" "\<not> is_flag o1"
  shows "parse atoi (concat (map render is) @ [[CHR ''-'', c]]) p = Inl argument_required"
  using assms
proof (induction "is" arbitrary: p)
  case Nil
  then show ?case by (simp add: is_option_def)
next
  case (Cons i "is")
  then show ?case using parse_item[of p i atoi "concat (map render is) @ [[CHR ''-'', c]]"] by simp
qed

lemma option_parser_errors: "parse atoi args p = Inl e \<Longrightarrow> e = argument_required"
proof (induction atoi args p rule: parse.induct)
  case (2 atoi arg args p)
  show ?case
  proof (cases "is_option arg")
    case False
    with 2 show ?thesis by simp
  next
    case True
    show ?thesis
    proof (cases "map_of (opts p) (arg ! 1)")
      case None
      with 2 True show ?thesis by simp
    next
      case (Some o1)
      with 2 True show ?thesis
        by (cases args; cases "val_type o1") (auto simp: process_option_def is_flag_def split: if_splits sum.splits prod.splits)
    qed
  qed
qed simp

text \<open>Options are found again after they have been added, the first one stays, and the order is kept.\<close>

definition keys :: "(char \<times> 'a) list \<Rightarrow> nat list" where
  "keys m = map (\<lambda>x. of_char (fst x)) m"

lemma keys_simps [simp]: "keys [] = []" "keys (x # m) = of_char (fst x) # keys m"
  by (simp_all add: keys_def)

lemma map_of_keys: "of_char k \<notin> set (keys m) \<Longrightarrow> map_of m k = None"
  by (induction m) auto

lemma keys_emplace: "set (keys (fst (map_emplace k v m))) = insert (of_char k) (set (keys m))"
  by (induction k v m rule: map_emplace.induct) (simp_all add: Let_def split_beta insert_commute)

lemma sorted_emplace: "sorted_wrt (<) (keys m) \<Longrightarrow> sorted_wrt (<) (keys (fst (map_emplace k v m)))"
proof (induction k v m rule: map_emplace.induct)
  case (2 k v k' v' m)
  show ?case
  proof (cases "k = k' \<or> (of_char k :: nat) < of_char k'")
    case True
    with 2 show ?thesis by auto
  next
    case False
    then have "(of_char k' :: nat) < of_char k" by (metis linorder_neqE_nat of_char_eq_iff)
    with False 2 keys_emplace[of k v m] show ?thesis
      by (simp add: Let_def split_beta)
  qed
qed simp

lemma map_of_emplace:
  "sorted_wrt (<) (keys m) \<Longrightarrow> map_of (fst (map_emplace k v m)) c =
     (case map_of m c of Some w \<Rightarrow> Some w | None \<Rightarrow> if c = k then Some v else None)"
proof (induction k v m rule: map_emplace.induct)
  case (2 k v k' v' m)
  show ?case
  proof (cases "(of_char k :: nat) < of_char k'")
    case True
    with 2 have "of_char k \<notin> set (keys m)" by auto
    then have "map_of m k = None" by (rule map_of_keys)
    with True show ?thesis by (auto split: option.splits)
  next
    case False
    with 2 show ?thesis by (auto simp: Let_def split: option.splits prod.splits)
  qed
qed simp

lemma add_flag_keeps:
  assumes "sorted_wrt (<) (keys (opts p))"
  shows "sorted_wrt (<) (keys (opts (snd (add_flag c ty a p))))"
    "map_of (opts (snd (add_flag c ty a p))) d = (case map_of (opts p) d of Some w \<Rightarrow> Some w
       | None \<Rightarrow> if d = c then Some \<lparr>val_type = ty, target = a\<rparr> else None)"
  using sorted_emplace[OF assms, of c "\<lparr>val_type = ty, target = a\<rparr>"] map_of_emplace[OF assms, of c "\<lparr>val_type = ty, target = a\<rparr>" d]
  by (simp_all add: add_flag_def Let_def split_beta)

end
