(* ===== verification/Observer.thy ===== *)
theory Observer
  imports TxlPrelude
begin

text \<open>
  The dispatcher of \<^verbatim>\<open>include/txl/observer.h\<close>: lists of callbacks by message type, and the types of each observer.
  Observers are addresses, message types are values of a type \<open>'t\<close>; what \<open>on_message\<close> of an observer does with a
  message, on a world of its own, is the parameter \<open>h\<close>, and it does not call the dispatcher. Every operation of the
  global dispatcher holds its mutex, so it is one step.
\<close>

section \<open>The dispatcher\<close>

record ('o, 't) dispatcher =
  sub_map :: "'t \<rightharpoonup> 'o list"
  observer_to_types :: "'o \<rightharpoonup> 't list"

definition disp_new :: "('o, 't) dispatcher" where
  "disp_new = \<lparr>sub_map = Map.empty, observer_to_types = Map.empty\<rparr>"

text \<open>\<open>m[k]\<close> of a map of lists creates an empty one.\<close>

definition at_key :: "('k \<rightharpoonup> 'v list) \<Rightarrow> 'k \<Rightarrow> 'v list" where
  "at_key m k = (case m k of None \<Rightarrow> [] | Some xs \<Rightarrow> xs)"

definition subscribe_one :: "'t \<Rightarrow> 'o \<Rightarrow> ('o, 't) dispatcher \<Rightarrow> ('o, 't) dispatcher" where
  "subscribe_one t ob d =
     (let types = at_key (observer_to_types d) ob; inserted = (t \<notin> set types);
          d1 = d\<lparr>observer_to_types := (observer_to_types d)(ob \<mapsto> (if inserted then types @ [t] else types))\<rparr>
      in if \<not> inserted then d1 else d1\<lparr>sub_map := (sub_map d1)(t \<mapsto> at_key (sub_map d1) t @ [ob])\<rparr>)"

definition subscribe :: "'t list \<Rightarrow> 'o \<Rightarrow> ('o, 't) dispatcher \<Rightarrow> ('o, 't) dispatcher" where
  "subscribe ts ob d = fold (\<lambda>t. subscribe_one t ob) ts d"

text \<open>The first callback of the observer is removed, and a list that gets empty.\<close>

definition remove_callback :: "'o \<Rightarrow> 't \<Rightarrow> ('o, 't) dispatcher \<Rightarrow> ('o, 't) dispatcher" where
  "remove_callback ob t d =
     (let subs = remove1 ob (at_key (sub_map d) t)
      in d\<lparr>sub_map := (if subs = [] then (sub_map d)(t := None) else (sub_map d)(t \<mapsto> subs))\<rparr>)"

definition unsubscribe_all :: "'o \<Rightarrow> ('o, 't) dispatcher \<Rightarrow> ('o, 't) dispatcher" where
  "unsubscribe_all ob d = (case observer_to_types d ob of
       None \<Rightarrow> d
     | Some types \<Rightarrow>
         (let d1 = fold (remove_callback ob) types d
          in d1\<lparr>observer_to_types := (observer_to_types d1)(ob := None)\<rparr>))"

text \<open>The loop of \<open>dispatch\<close>: a callback that returns false is erased.\<close>

fun run_callbacks :: "('o \<Rightarrow> 'm \<Rightarrow> 'w \<Rightarrow> bool \<times> 'w) \<Rightarrow> 'm \<Rightarrow> 'o list \<Rightarrow> 'w \<Rightarrow> 'o list \<times> 'w" where
  "run_callbacks h msg [] w = ([], w)"
| "run_callbacks h msg (ob # obs) w =
     (let (keep, w1) = h ob msg w; (obs', w2) = run_callbacks h msg obs w1
      in (if keep then ob # obs' else obs', w2))"

definition dispatch :: "('o \<Rightarrow> 'm \<Rightarrow> 'w \<Rightarrow> bool \<times> 'w) \<Rightarrow> 't \<Rightarrow> 'm \<Rightarrow> ('o, 't) dispatcher \<Rightarrow> 'w \<Rightarrow> ('o, 't) dispatcher \<times> 'w" where
  "dispatch h t msg d w = (case sub_map d t of
       None \<Rightarrow> (d, w)
     | Some subs \<Rightarrow> (let (subs', w') = run_callbacks h msg subs w in (d\<lparr>sub_map := (sub_map d)(t \<mapsto> subs')\<rparr>, w')))"

text \<open>\<open>lazy_dispatch\<close> makes the message only when there is a callback for it.\<close>

definition lazy_dispatch :: "('o \<Rightarrow> 'm \<Rightarrow> 'w \<Rightarrow> bool \<times> 'w) \<Rightarrow> 't \<Rightarrow> ('w \<Rightarrow> 'm \<times> 'w) \<Rightarrow> ('o, 't) dispatcher \<Rightarrow> 'w \<Rightarrow> ('o, 't) dispatcher \<times> 'w" where
  "lazy_dispatch h t msg_func d w = (case sub_map d t of
       None \<Rightarrow> (d, w)
     | Some subs \<Rightarrow> if subs = [] then (d, w)
         else (let (msg, w1) = msg_func w; (subs', w') = run_callbacks h msg subs w1 in (d\<lparr>sub_map := (sub_map d)(t \<mapsto> subs')\<rparr>, w')))"

section \<open>The specification: a list of subscriptions\<close>

type_synonym ('o, 't) subscriptions = "('o \<times> 't) list"

definition spec_subscribe :: "'t list \<Rightarrow> 'o \<Rightarrow> ('o, 't) subscriptions \<Rightarrow> ('o, 't) subscriptions" where
  "spec_subscribe ts ob S = fold (\<lambda>t S. if (ob, t) \<in> set S then S else S @ [(ob, t)]) ts S"

definition spec_unsubscribe_all :: "'o \<Rightarrow> ('o, 't) subscriptions \<Rightarrow> ('o, 't) subscriptions" where
  "spec_unsubscribe_all ob S = filter (\<lambda>p. fst p \<noteq> ob) S"

definition observers_of :: "'t \<Rightarrow> ('o, 't) subscriptions \<Rightarrow> 'o list" where
  "observers_of t S = map fst (filter (\<lambda>p. snd p = t) S)"

definition represents :: "('o, 't) dispatcher \<Rightarrow> ('o, 't) subscriptions \<Rightarrow> bool" where
  "represents d S \<longleftrightarrow> distinct S \<and> (\<forall>t. at_key (sub_map d) t = observers_of t S) \<and>
     (\<forall>ob. set (at_key (observer_to_types d) ob) = {t. (ob, t) \<in> set S}) \<and> (\<forall>ob. distinct (at_key (observer_to_types d) ob))"

lemma at_key_upd [simp]: "at_key (m(k \<mapsto> v)) j = (if j = k then v else at_key m j)" "at_key (m(k := None)) j = (if j = k then [] else at_key m j)"
  by (simp_all add: at_key_def)

lemma observers_of_append [simp]: "observers_of t (S @ [(ob, u)]) = observers_of t S @ (if u = t then [ob] else [])"
  by (simp add: observers_of_def)

lemma represents_new: "represents disp_new []"
  by (simp add: represents_def disp_new_def at_key_def observers_of_def)

lemma represents_subscribe_one:
  assumes "represents d S"
  shows "represents (subscribe_one t ob d) (if (ob, t) \<in> set S then S else S @ [(ob, t)])"
proof -
  have t: "t \<in> set (at_key (observer_to_types d) ob) \<longleftrightarrow> (ob, t) \<in> set S" using assms by (auto simp: represents_def)
  show ?thesis
  proof (cases "(ob, t) \<in> set S")
    case True
    with assms t show ?thesis by (simp add: subscribe_one_def Let_def represents_def)
  next
    case False
    with assms t show ?thesis by (auto simp: subscribe_one_def Let_def represents_def)
  qed
qed

lemma represents_subscribe: "represents d S \<Longrightarrow> represents (subscribe ts ob d) (spec_subscribe ts ob S)"
  unfolding subscribe_def spec_subscribe_def
  by (induction ts arbitrary: d S) (simp_all only: fold_simps id_apply comp_apply represents_subscribe_one)

lemma fold_remove_callback:
  "distinct types \<Longrightarrow> at_key (sub_map (fold (remove_callback ob) types d)) t =
     (if t \<in> set types then remove1 ob (at_key (sub_map d) t) else at_key (sub_map d) t) \<and>
   observer_to_types (fold (remove_callback ob) types d) = observer_to_types d"
  by (induction types arbitrary: d) (auto simp: remove_callback_def Let_def)

lemma observers_of_unsubscribe:
  "distinct S \<Longrightarrow> observers_of t (spec_unsubscribe_all ob S) = remove1 ob (observers_of t S)"
proof (induction S)
  case (Cons p S)
  have "p \<notin> set S" using Cons.prems by simp
  then have "ob \<notin> set (observers_of t S)" if "fst p = ob" "snd p = t" using that by (cases p) (auto simp: observers_of_def)
  then have "remove1 ob (observers_of t S) = observers_of t S" if "fst p = ob" "snd p = t" using that by (simp add: remove1_idem)
  with Cons show ?case by (auto simp: observers_of_def spec_unsubscribe_all_def)
qed (simp add: observers_of_def spec_unsubscribe_all_def)

lemma represents_unsubscribe_all:
  assumes "represents d S"
  shows "represents (unsubscribe_all ob d) (spec_unsubscribe_all ob S)"
proof (cases "observer_to_types d ob")
  case None
  then have "at_key (observer_to_types d) ob = []" by (simp add: at_key_def)
  moreover have "set (at_key (observer_to_types d) ob) = {t. (ob, t) \<in> set S}" using assms by (simp add: represents_def)
  ultimately have "(ob, t) \<notin> set S" for t by auto
  then have "spec_unsubscribe_all ob S = S" unfolding spec_unsubscribe_all_def by (intro filter_True) auto
  with None assms show ?thesis by (simp add: unsubscribe_all_def)
next
  case (Some types)
  then have k: "at_key (observer_to_types d) ob = types" by (simp add: at_key_def)
  have d: "distinct types" and s: "set types = {t. (ob, t) \<in> set S}" and S: "distinct S"
    using assms k unfolding represents_def by metis+
  have "at_key (sub_map (fold (remove_callback ob) types d)) t = observers_of t (spec_unsubscribe_all ob S)" for t
  proof -
    have "ob \<notin> set (observers_of t S)" if "t \<notin> set types" using that s by (auto simp: observers_of_def)
    then show ?thesis using fold_remove_callback[OF d, of ob d t] assms observers_of_unsubscribe[OF S, of t ob]
      by (auto simp: represents_def remove1_idem)
  qed
  then show ?thesis using Some assms S fold_remove_callback[OF d, of ob d]
    by (auto simp: unsubscribe_all_def Let_def represents_def spec_unsubscribe_all_def at_key_def)
qed

text \<open>Callbacks that are all kept are called once each, in order.\<close>

lemma run_callbacks_all:
  assumes "\<forall>ob w. fst (h ob msg w)"
  shows "run_callbacks h msg obs w = (obs, fold (\<lambda>ob w. snd (h ob msg w)) obs w)"
  by (induction obs arbitrary: w) (use assms in \<open>auto simp: split_beta\<close>)

section \<open>Sequences of operations\<close>

datatype ('o, 't, 'm) disp_op = Subscribe "'t list" 'o | UnsubscribeAll 'o | Dispatch 't 'm

fun disp_ops :: "('o \<Rightarrow> 'm \<Rightarrow> 'w \<Rightarrow> bool \<times> 'w) \<Rightarrow> ('o, 't, 'm) disp_op list \<Rightarrow> ('o, 't) dispatcher \<Rightarrow> 'w \<Rightarrow> ('o, 't) dispatcher \<times> 'w" where
  "disp_ops h [] d w = (d, w)"
| "disp_ops h (Subscribe ts ob # xs) d w = disp_ops h xs (subscribe ts ob d) w"
| "disp_ops h (UnsubscribeAll ob # xs) d w = disp_ops h xs (unsubscribe_all ob d) w"
| "disp_ops h (Dispatch t msg # xs) d w = (let (d', w') = dispatch h t msg d w in disp_ops h xs d' w')"

fun spec_ops :: "('o \<Rightarrow> 'm \<Rightarrow> 'w \<Rightarrow> bool \<times> 'w) \<Rightarrow> ('o, 't, 'm) disp_op list \<Rightarrow> ('o, 't) subscriptions \<Rightarrow> 'w \<Rightarrow> ('o, 't) subscriptions \<times> 'w" where
  "spec_ops h [] S w = (S, w)"
| "spec_ops h (Subscribe ts ob # xs) S w = spec_ops h xs (spec_subscribe ts ob S) w"
| "spec_ops h (UnsubscribeAll ob # xs) S w = spec_ops h xs (spec_unsubscribe_all ob S) w"
| "spec_ops h (Dispatch t msg # xs) S w = spec_ops h xs S (fold (\<lambda>ob w. snd (h ob msg w)) (observers_of t S) w)"

lemma dispatch_represents:
  assumes "represents d S" "\<forall>ob w. fst (h ob msg w)"
  shows "represents (fst (dispatch h t msg d w)) S \<and> snd (dispatch h t msg d w) = fold (\<lambda>ob w. snd (h ob msg w)) (observers_of t S) w"
proof -
  have a: "at_key (sub_map d) t = observers_of t S" using assms(1) by (simp add: represents_def)
  show ?thesis
  proof (cases "sub_map d t")
    case None
    with a have "observers_of t S = []" by (simp add: at_key_def)
    with None assms(1) show ?thesis by (simp add: dispatch_def)
  next
    case (Some subs)
    with a have "subs = observers_of t S" by (simp add: at_key_def)
    with Some assms a show ?thesis by (auto simp: dispatch_def run_callbacks_all represents_def)
  qed
qed

lemma disp_ops_spec:
  assumes "represents d S" "\<forall>ob msg w. fst (h ob msg w)"
  shows "represents (fst (disp_ops h xs d w)) (fst (spec_ops h xs S w)) \<and> snd (disp_ops h xs d w) = snd (spec_ops h xs S w)"
  using assms(1)
proof (induction xs arbitrary: d S w)
  case (Cons x xs)
  show ?case
  proof (cases x)
    case (Dispatch t msg)
    have "\<forall>ob w. fst (h ob msg w)" using assms(2) by blast
    note * = dispatch_represents[where h = h and msg = msg, OF Cons.prems this, of t w]
    from Cons.IH[of "fst (dispatch h t msg d w)" S "snd (dispatch h t msg d w)"] * Dispatch show ?thesis
      by (simp add: split_beta Let_def)
  qed (use Cons in \<open>simp_all add: represents_subscribe represents_unsubscribe_all\<close>)
qed simp

text \<open>C40: As long as all handlers keep their subscription, the dispatcher behaves as a list of subscriptions: a message is handed once
  to every observer that is subscribed to its type, in the order of the subscriptions; subscribing twice changes
  nothing, and an observer that has unsubscribed gets nothing any more.\<close>

theorem observer_refines_subscriptions:
  assumes "\<forall>ob msg w. fst (h ob msg w)"
  shows "snd (disp_ops h xs disp_new w) = snd (spec_ops h xs [] w)"
  using disp_ops_spec[OF represents_new assms] by blast

theorem observer_refines_subscriptions_witness:
  "snd (disp_ops (\<lambda>ob msg w. (True, w @ [(ob, msg)]))
      [Subscribe [''use'', ''line''] 1, Subscribe [''line'', ''line''] (2 :: nat), Dispatch ''line'' 5, UnsubscribeAll 1, Dispatch ''line'' 6, Dispatch ''use'' 7] disp_new []) =
    [(1, 5 :: nat), (2, 5), (2, 6)]"
  by (subst observer_refines_subscriptions) (simp_all add: spec_subscribe_def spec_unsubscribe_all_def observers_of_def)

text \<open>An observer whose handler has returned false is dropped from the list of callbacks, but its type is still noted: it cannot
  subscribe again.\<close>

lemma observer_cannot_return:
  "snd (disp_ops (\<lambda>ob msg w. (False, w @ [msg])) [Subscribe [''a''] (1 :: nat), Dispatch ''a'' 5, Subscribe [''a''] 1, Dispatch ''a'' 6] disp_new []) = [5 :: nat]"
  by (simp add: subscribe_def subscribe_one_def disp_new_def Let_def at_key_def dispatch_def)

text \<open>\<open>lazy_dispatch\<close> does the same, and makes no message that nobody gets.\<close>

lemma lazy_dispatch_eq:
  "lazy_dispatch h t msg_func d w = (if at_key (sub_map d) t = [] then (d, w) else (let (msg, w1) = msg_func w in dispatch h t msg d w1))"
  by (simp add: lazy_dispatch_def dispatch_def at_key_def split: option.splits prod.splits)

end
