(* ===== verification/Reentrant.thy ===== *)
theory Reentrant
  imports Observer
begin

text \<open>
  Handlers that call the dispatcher of \<^verbatim>\<open>include/txl/observer.h\<close> while it dispatches to them. The loop of \<open>dispatch\<close> holds an
  iterator into the vector of callbacks and one into the map of the vectors; the calls of a handler may invalidate them.
  \<open>cap\<close> is the capacity of the vector, and \<open>rehashes\<close> says of a dispatcher whether a new key makes its map of callbacks
  rehash: both are chosen by the standard library. A handler does not dispatch.
\<close>

section \<open>Calls of a handler\<close>

datatype ('o, 't) dcall = DSubscribe "'t list" 'o | DUnsubscribeAll 'o

text \<open>\<open>subscribe_one\<close> may add a key to the map, and a callback to the vector that is being walked.\<close>

definition sub_valid :: "(('o, 't) dispatcher \<Rightarrow> bool) \<Rightarrow> 't \<Rightarrow> nat \<Rightarrow> 't \<Rightarrow> 'o \<Rightarrow> ('o, 't) dispatcher \<Rightarrow> bool" where
  "sub_valid rehashes t cap u ob d \<longleftrightarrow> u \<in> set (at_key (observer_to_types d) ob) \<or>
     ((sub_map d u \<noteq> None \<or> \<not> rehashes d) \<and> (u = t \<longrightarrow> length (at_key (sub_map d) t) < cap))"

fun sub_each :: "(('o, 't) dispatcher \<Rightarrow> bool) \<Rightarrow> 't \<Rightarrow> nat \<Rightarrow> 'o \<Rightarrow> 't list \<Rightarrow> ('o, 't) dispatcher \<Rightarrow> ('o, 't) dispatcher res" where
  "sub_each rehashes t cap ob [] d = Inr d"
| "sub_each rehashes t cap ob (u # us) d =
     (if sub_valid rehashes t cap u ob d then sub_each rehashes t cap ob us (subscribe_one u ob d) else Inl UB)"

text \<open>\<open>unsubscribe_all\<close> may look up a key that is gone, which adds it, and erases a callback: iterators at it and behind it are
  invalid then, and so is the callback itself, that may be running.\<close>

fun unsub_each :: "(('o, 't) dispatcher \<Rightarrow> bool) \<Rightarrow> 't \<Rightarrow> nat \<Rightarrow> 'o \<Rightarrow> 't list \<Rightarrow> ('o, 't) dispatcher \<Rightarrow> ('o, 't) dispatcher res" where
  "unsub_each rehashes t i ob [] d = Inr d"
| "unsub_each rehashes t i ob (u # us) d =
     (if sub_map d u = None \<and> rehashes d \<or> u = t \<and> ob \<in> set (take (Suc i) (at_key (sub_map d) t)) then Inl UB
      else unsub_each rehashes t i ob us (remove_callback ob u d))"

fun dcall_run :: "(('o, 't) dispatcher \<Rightarrow> bool) \<Rightarrow> 't \<Rightarrow> nat \<Rightarrow> nat \<Rightarrow> ('o, 't) dcall \<Rightarrow> ('o, 't) dispatcher \<Rightarrow> ('o, 't) dispatcher res" where
  "dcall_run rehashes t cap i (DSubscribe ts ob) d = sub_each rehashes t cap ob ts d"
| "dcall_run rehashes t cap i (DUnsubscribeAll ob) d = (case observer_to_types d ob of
       None \<Rightarrow> Inr d
     | Some types \<Rightarrow> and_then (unsub_each rehashes t i ob types d) (\<lambda>d1.
         Inr (d1\<lparr>observer_to_types := (observer_to_types d1)(ob := None)\<rparr>)))"

fun dcalls_run :: "(('o, 't) dispatcher \<Rightarrow> bool) \<Rightarrow> 't \<Rightarrow> nat \<Rightarrow> nat \<Rightarrow> ('o, 't) dcall list \<Rightarrow> ('o, 't) dispatcher \<Rightarrow> ('o, 't) dispatcher res" where
  "dcalls_run rehashes t cap i [] d = Inr d"
| "dcalls_run rehashes t cap i (c # cs) d = and_then (dcall_run rehashes t cap i c d) (dcalls_run rehashes t cap i cs)"

section \<open>The loop of dispatch\<close>

text \<open>What a handler does with a message: its answer, the calls it makes and the world afterwards. The end of the vector is
  looked up in every round, so that a callback which is added is called in the same dispatch.\<close>

type_synonym ('o, 't, 'm, 'w) caller = "'o \<Rightarrow> 'm \<Rightarrow> 'w \<Rightarrow> bool \<times> ('o, 't) dcall list \<times> 'w"

partial_function (option) dispatch_from ::
  "(('o, 't) dispatcher \<Rightarrow> bool) \<Rightarrow> nat \<Rightarrow> ('o, 't, 'm, 'w) caller \<Rightarrow> 't \<Rightarrow> 'm \<Rightarrow> nat \<Rightarrow> ('o, 't) dispatcher \<Rightarrow> 'w \<Rightarrow>
   (('o, 't) dispatcher \<times> 'w) res option" where
  "dispatch_from rehashes cap h t msg i d w =
     (if i < length (at_key (sub_map d) t)
      then (case h (at_key (sub_map d) t ! i) msg w of (keep, calls, w1) \<Rightarrow>
        (case dcalls_run rehashes t cap i calls d of
           Inl u \<Rightarrow> Some (Inl u)
         | Inr d1 \<Rightarrow>
             if keep then dispatch_from rehashes cap h t msg (Suc i) d1 w1
             else dispatch_from rehashes cap h t msg i (d1\<lparr>sub_map := (sub_map d1)(t \<mapsto> del_at i (at_key (sub_map d1) t))\<rparr>) w1))
      else Some (Inr (d, w)))"

declare dispatch_from.simps [code]

definition dispatch_calling ::
  "(('o, 't) dispatcher \<Rightarrow> bool) \<Rightarrow> nat \<Rightarrow> ('o, 't, 'm, 'w) caller \<Rightarrow> 't \<Rightarrow> 'm \<Rightarrow> ('o, 't) dispatcher \<Rightarrow> 'w \<Rightarrow>
   (('o, 't) dispatcher \<times> 'w) res option" where
  "dispatch_calling rehashes cap h t msg d w = (case sub_map d t of
       None \<Rightarrow> Some (Inr (d, w))
     | Some subs \<Rightarrow> dispatch_from rehashes cap h t msg 0 d w)"

section \<open>Calls that stay away from the message\<close>

text \<open>Subscriptions to other messages, and the end of those of observers that do not get this one, leave the iterators valid while the map
  does not rehash.\<close>

fun away :: "'t \<Rightarrow> 'o list \<Rightarrow> ('o, 't) dcall \<Rightarrow> bool" where
  "away t obs (DSubscribe ts ob) \<longleftrightarrow> t \<notin> set ts"
| "away t obs (DUnsubscribeAll ob) \<longleftrightarrow> ob \<notin> set obs"

abbreviation no_rehash :: "('o, 't) dispatcher \<Rightarrow> bool" where "no_rehash \<equiv> \<lambda>_. False"

lemma sub_each_away:
  "t \<notin> set us \<Longrightarrow> \<exists>d'. sub_each no_rehash t cap ob us d = Inr d' \<and> at_key (sub_map d') t = at_key (sub_map d) t"
proof (induction us arbitrary: d)
  case (Cons u us)
  have "at_key (sub_map (subscribe_one u ob d)) t = at_key (sub_map d) t"
    using Cons.prems by (simp add: subscribe_one_def Let_def)
  moreover have "sub_valid no_rehash t cap u ob d" using Cons.prems by (auto simp: sub_valid_def)
  ultimately show ?case using Cons.IH[of "subscribe_one u ob d"] Cons.prems by auto
qed simp

lemma unsub_each_away:
  "ob \<notin> set (at_key (sub_map d) t) \<Longrightarrow>
   \<exists>d'. unsub_each no_rehash t i ob us d = Inr d' \<and> at_key (sub_map d') t = at_key (sub_map d) t"
proof (induction us arbitrary: d)
  case (Cons u us)
  have "at_key (sub_map (remove_callback ob u d)) t = at_key (sub_map d) t"
    using Cons.prems by (auto simp: remove_callback_def Let_def remove1_idem)
  moreover have "\<not> (u = t \<and> ob \<in> set (take (Suc i) (at_key (sub_map d) t)))" using Cons.prems by (auto dest: in_set_takeD)
  ultimately show ?case using Cons.IH[of "remove_callback ob u d"] Cons.prems by auto
qed simp

lemma dcalls_away:
  assumes "\<forall>c \<in> set cs. away t obs c" "set (at_key (sub_map d) t) \<subseteq> set obs"
  shows "\<exists>d'. dcalls_run no_rehash t cap i cs d = Inr d' \<and> at_key (sub_map d') t = at_key (sub_map d) t"
  using assms
proof (induction cs arbitrary: d)
  case (Cons c cs)
  have "\<exists>d1. dcall_run no_rehash t cap i c d = Inr d1 \<and> at_key (sub_map d1) t = at_key (sub_map d) t"
  proof (cases c)
    case (DSubscribe ts ob)
    then show ?thesis using Cons.prems sub_each_away[of t ts cap ob d] by simp
  next
    case (DUnsubscribeAll ob)
    then have ob: "ob \<notin> set (at_key (sub_map d) t)" using Cons.prems by auto
    show ?thesis
    proof (cases "observer_to_types d ob")
      case (Some types)
      obtain d' where "unsub_each no_rehash t i ob types d = Inr d'" "at_key (sub_map d') t = at_key (sub_map d) t"
        using unsub_each_away[OF ob, of i types] by blast
      then show ?thesis using Some DUnsubscribeAll by simp
    qed (simp add: DUnsubscribeAll)
  qed
  then obtain d1 where d1: "dcall_run no_rehash t cap i c d = Inr d1" "at_key (sub_map d1) t = at_key (sub_map d) t" by blast
  then show ?case using Cons.IH[of d1] Cons.prems by simp
qed simp

text \<open>What is left of a handler without its calls.\<close>

definition answer :: "('o, 't, 'm, 'w) caller \<Rightarrow> 'o \<Rightarrow> 'm \<Rightarrow> 'w \<Rightarrow> bool \<times> 'w" where
  "answer h ob msg w = (fst (h ob msg w), snd (snd (h ob msg w)))"

lemma dispatch_from_away:
  assumes "\<forall>ob w. \<forall>c \<in> set (fst (snd (h ob msg w))). away t obs c" "set (pre @ rest) \<subseteq> set obs" "at_key (sub_map d) t = pre @ rest"
  shows "\<exists>d'. dispatch_from no_rehash cap h t msg (length pre) d w = Some (Inr (d', snd (run_callbacks (answer h) msg rest w))) \<and>
    at_key (sub_map d') t = pre @ fst (run_callbacks (answer h) msg rest w)"
  using assms(2,3)
proof (induction rest arbitrary: pre d w)
  case Nil
  then show ?case by (intro exI[of _ d]) (simp add: dispatch_from.simps)
next
  case (Cons ob rest)
  obtain keep calls w1 where h: "h ob msg w = (keep, calls, w1)" by (cases "h ob msg w") auto
  then have "\<forall>c \<in> set calls. away t obs c" using assms(1) by (metis fst_conv snd_conv)
  from dcalls_away[OF this, of d cap "length pre"] Cons.prems obtain d1 where
    d1: "dcalls_run no_rehash t cap (length pre) calls d = Inr d1" "at_key (sub_map d1) t = pre @ ob # rest" by auto
  have a: "answer h ob msg w = (keep, w1)" using h by (simp add: answer_def)
  show ?case
  proof (cases keep)
    case True
    from Cons.IH[of "pre @ [ob]" d1 w1] Cons.prems(1) d1(2) obtain d' where
      "dispatch_from no_rehash cap h t msg (Suc (length pre)) d1 w1 = Some (Inr (d', snd (run_callbacks (answer h) msg rest w1)))"
      "at_key (sub_map d') t = pre @ ob # fst (run_callbacks (answer h) msg rest w1)" by auto
    then show ?thesis using True Cons.prems(2) h d1 a
      by (subst dispatch_from.simps) (simp add: split_beta)
  next
    case False
    let ?d = "d1\<lparr>sub_map := (sub_map d1)(t \<mapsto> del_at (length pre) (at_key (sub_map d1) t))\<rparr>"
    have "at_key (sub_map ?d) t = pre @ rest" using d1(2) by (simp add: del_at_def)
    from Cons.IH[OF _ this, of w1] Cons.prems(1) obtain d' where
      "dispatch_from no_rehash cap h t msg (length pre) ?d w1 = Some (Inr (d', snd (run_callbacks (answer h) msg rest w1)))"
      "at_key (sub_map d') t = pre @ fst (run_callbacks (answer h) msg rest w1)" by auto
    then show ?thesis using False Cons.prems(2) h d1 a
      by (subst dispatch_from.simps) (simp add: split_beta)
  qed
qed

text \<open>C31: When the handlers of a message call the dispatcher only about other messages and about observers that do not get this
  one, and its map does not rehash, the dispatch ends without undefined behaviour, and it calls and keeps exactly the callbacks that it would
  without their calls.\<close>

theorem dispatch_calling_agrees:
  assumes "\<forall>ob w. \<forall>c \<in> set (fst (snd (h ob msg w))). away t (at_key (sub_map d) t) c"
  shows "\<exists>d'. dispatch_calling no_rehash cap h t msg d w = Some (Inr (d', snd (dispatch (answer h) t msg d w))) \<and>
    at_key (sub_map d') t = at_key (sub_map (fst (dispatch (answer h) t msg d w))) t"
proof (cases "sub_map d t")
  case (Some subs)
  then have k: "at_key (sub_map d) t = subs" by (simp add: at_key_def)
  from dispatch_from_away[of h msg t "at_key (sub_map d) t" "[]" subs d cap w, OF assms] k Some show ?thesis
    by (simp add: dispatch_calling_def dispatch_def split_beta)
qed (auto simp: dispatch_calling_def dispatch_def)

theorem dispatch_calling_agrees_witness:
  "\<exists>d'. dispatch_calling no_rehash 1 (\<lambda>ob msg w. (False, [DSubscribe [CHR ''b''] ob], w + msg)) CHR ''a'' 5
      (subscribe [CHR ''a''] (1 :: nat) disp_new) (0 :: nat) = Some (Inr (d', 5)) \<and> at_key (sub_map d') CHR ''a'' = []"
  using dispatch_calling_agrees[of "\<lambda>ob msg w. (False, [DSubscribe [CHR ''b''] ob], w + msg)" 5 "CHR ''a''"
      "subscribe [CHR ''a''] (1 :: nat) disp_new" 1 "0 :: nat"]
  by (simp add: dispatch_def subscribe_def subscribe_one_def disp_new_def at_key_def answer_def)

section \<open>Calls that touch the message\<close>

text \<open>A handler that ends its own subscriptions erases the callback that is running. A subscription to the message is
  called in the same dispatch while the vector has room, and invalidates the loop when it has none.\<close>

lemma unsubscribe_self_ub:
  assumes "h ob msg w = (keep, DUnsubscribeAll ob # calls, w1)" "sub_map d t = Some (ob # obs)" "observer_to_types d ob = Some [t]"
  shows "dispatch_calling rehashes cap h t msg d w = Some (Inl UB)"
  using assms by (simp add: dispatch_calling_def dispatch_from.simps[of rehashes cap h t msg 0] at_key_def)

lemma subscribe_full_ub:
  assumes "h ob msg w = (keep, DSubscribe [t] new # calls, w1)" "sub_map d t = Some (ob # obs)"
    "observer_to_types d new = None" "cap \<le> length (ob # obs)"
  shows "dispatch_calling rehashes cap h t msg d w = Some (Inl UB)"
  using assms by (simp add: dispatch_calling_def dispatch_from.simps[of rehashes cap h t msg 0] at_key_def sub_valid_def)

lemma subscribe_room_called:
  "map_option (map_sum id (\<lambda>(d, w). (at_key (sub_map d) CHR ''a'', w)))
     (dispatch_calling rehashes 2 (\<lambda>ob msg w. (True, if ob = 1 then [DSubscribe [CHR ''a''] 2] else [], w @ [ob])) CHR ''a'' ()
       (subscribe [CHR ''a''] (1 :: nat) disp_new) []) = Some (Inr ([1, 2], [1, 2]))"
  by (simp add: dispatch_calling_def dispatch_from.simps subscribe_def subscribe_one_def disp_new_def at_key_def sub_valid_def)

end
