(* ===== verification/FlatMap.thy ===== *)
theory FlatMap
  imports TxlPrelude
begin

text \<open>
  \<^verbatim>\<open>include/txl/flat_map.h\<close>: a hash map with open addressing and linear probing. A bucket is raw memory (\<open>None\<close>) or
  holds a key and a value that can be copied as bytes; two flags per bucket say whether it was visited and filled. The hash
  function is a parameter, and so is the product of a size with a \<^verbatim>\<open>double\<close>. Lengths are below \<open>2^64\<close>.
\<close>

type_synonym ('k, 'v) bucket = "('k \<times> 'v) option"
type_synonym bucket_flags = "bool \<times> bool"

definition VISITED :: "bucket_flags \<Rightarrow> bool" where "VISITED = fst"
definition EMPLACED :: "bucket_flags \<Rightarrow> bool" where "EMPLACED = snd"

record ('k, 'v) flat_map =
  fm_buckets :: "('k, 'v) bucket list"
  fm_emplaced :: "bucket_flags list"
  fm_size :: nat
  fm_max_size :: nat

definition bucket_key :: "('k, 'v) bucket \<Rightarrow> 'k res" where
  "bucket_key b = (case b of Some (k, v) \<Rightarrow> Inr k | None \<Rightarrow> Inl UB)"

definition bucket_value :: "('k, 'v) bucket \<Rightarrow> 'v res" where
  "bucket_value b = (case b of Some (k, v) \<Rightarrow> Inr v | None \<Rightarrow> Inl UB)"

text \<open>The walk of a key from the bucket of its hash: at most \<open>n\<close> visited buckets are compared.\<close>

datatype walk_end = Found nat | Free nat | Exhausted

definition next_bucket :: "nat \<Rightarrow> nat \<Rightarrow> nat" where
  "next_bucket len p = (if p + 1 = len then 0 else p + 1)"

fun walk :: "('k \<Rightarrow> bool) \<Rightarrow> ('k, 'v) bucket list \<Rightarrow> bucket_flags list \<Rightarrow> nat \<Rightarrow> nat \<Rightarrow> walk_end res" where
  "walk is_key bs fl n p = and_then (vec_get fl p) (\<lambda>f.
     if VISITED f \<and> n \<noteq> 0
     then and_then (vec_get bs p) (\<lambda>b. and_then (bucket_key b) (\<lambda>k.
            if is_key k then Inr (Found p) else walk is_key bs fl (n - 1) (next_bucket (length bs) p)))
     else Inr (if n \<noteq> 0 then Free p else Exhausted))"

declare walk.simps [simp del]

definition hash_bucket :: "('k \<Rightarrow> nat) \<Rightarrow> 'k \<Rightarrow> ('k, 'v) bucket list \<Rightarrow> nat res" where
  "hash_bucket h k bs = (if bs = [] then Inl UB else Inr (h k mod length bs))"

text \<open>\<open>return -1\<close> from a function that returns a \<open>bool\<close>.\<close>

definition bool_of_int :: "int \<Rightarrow> bool" where "bool_of_int i \<longleftrightarrow> i \<noteq> 0"

definition emplace_bucket :: "('k \<Rightarrow> nat) \<Rightarrow> ('k, 'v) bucket list \<Rightarrow> bucket_flags list \<Rightarrow> 'k \<Rightarrow> 'v \<Rightarrow> nat \<Rightarrow>
    (('k, 'v) bucket list \<times> bucket_flags list \<times> bool) res" where
  "emplace_bucket h bs fl k v max_tries =
     and_then (hash_bucket h k bs) (\<lambda>p0. and_then (walk (\<lambda>k'. k' = k) bs fl max_tries p0) (\<lambda>w. case w of
       Found p \<Rightarrow> and_then (vec_get bs p) (\<lambda>b. and_then (bucket_key b) (\<lambda>k'. Inr (bs[p := Some (k', v)], fl, False)))
     | Free p \<Rightarrow> and_then (vec_put bs p (Some (k, v))) (\<lambda>bs'. Inr (bs', fl[p := (True, True)], True))
     | Exhausted \<Rightarrow> Inr (bs, fl, bool_of_int (- 1))))"

fun resize_loop :: "('k \<Rightarrow> nat) \<Rightarrow> (('k, 'v) bucket \<times> bucket_flags) list \<Rightarrow> ('k, 'v) bucket list \<times> bucket_flags list \<Rightarrow>
    (('k, 'v) bucket list \<times> bucket_flags list) res" where
  "resize_loop h [] new = Inr new"
| "resize_loop h ((b, f) # rest) new =
     (if EMPLACED f
      then and_then (bucket_key b) (\<lambda>k. and_then (bucket_value b) (\<lambda>v.
             and_then (emplace_bucket h (fst new) (snd new) k v (2 ^ 31 - 1)) (\<lambda>(bs, fl, _). resize_loop h rest (bs, fl))))
      else resize_loop h rest new)"

definition fm_resize :: "('k \<Rightarrow> nat) \<Rightarrow> (nat \<Rightarrow> nat) \<Rightarrow> nat \<Rightarrow> ('k, 'v) flat_map \<Rightarrow> ('k, 'v) flat_map res" where
  "fm_resize h times_threshold new_size m =
     and_then (resize_loop h (zip (fm_buckets m) (fm_emplaced m)) (replicate new_size None, replicate new_size (False, False)))
       (\<lambda>(bs, fl). Inr (m\<lparr>fm_buckets := bs, fm_emplaced := fl, fm_max_size := times_threshold (length bs)\<rparr>))"

definition fm_new :: "(nat \<Rightarrow> nat) \<Rightarrow> nat \<Rightarrow> ('k, 'v) flat_map" where
  "fm_new times_threshold s =
     \<lparr>fm_buckets = replicate s None, fm_emplaced = replicate s (False, False), fm_size = 0, fm_max_size = times_threshold s\<rparr>"

text \<open>The public \<open>emplace\<close>; \<open>None\<close> is a loop that never ends.\<close>

partial_function (option) fm_emplace :: "('k \<Rightarrow> nat) \<Rightarrow> (nat \<Rightarrow> nat) \<Rightarrow> (nat \<Rightarrow> nat) \<Rightarrow> 'k \<Rightarrow> 'v \<Rightarrow> ('k, 'v) flat_map \<Rightarrow>
    ('k, 'v) flat_map res option" where
  "fm_emplace h times_threshold over_threshold k v m =
     (case emplace_bucket h (fm_buckets m) (fm_emplaced m) k v 16 of
        Inl e \<Rightarrow> Some (Inl e)
      | Inr (bs, fl, r) \<Rightarrow>
          (let s = (if r then 1 else 0 :: int); m' = m\<lparr>fm_buckets := bs, fm_emplaced := fl\<rparr>
           in if s = - 1
              then (case fm_resize h times_threshold (over_threshold (length bs)) m' of
                      Inl e \<Rightarrow> Some (Inl e)
                    | Inr m'' \<Rightarrow> fm_emplace h times_threshold over_threshold k v m'')
              else Some (Inr (m'\<lparr>fm_size := fm_size m + nat s\<rparr>))))"

text \<open>Searches by a key of another type: \<open>conv\<close> makes it from a key of the map, \<open>hq\<close> is its hash. The result is an index
  into the buckets, \<open>None\<close> for the null pointer.\<close>

definition hash_find :: "('q \<Rightarrow> nat) \<Rightarrow> ('k \<Rightarrow> 'q) \<Rightarrow> 'q \<Rightarrow> ('k, 'v) flat_map \<Rightarrow> nat option res" where
  "hash_find hq conv q m =
     (if fm_buckets m = [] then Inl UB
      else and_then (walk (\<lambda>k. conv k = q) (fm_buckets m) (fm_emplaced m) (fm_size m) (hq q mod length (fm_buckets m)))
             (\<lambda>w. case w of Found p \<Rightarrow> Inr (Some p) | _ \<Rightarrow> Inr None))"

fun linear_from :: "('k \<Rightarrow> 'q) \<Rightarrow> 'q \<Rightarrow> ('k, 'v) bucket list \<Rightarrow> bucket_flags list \<Rightarrow> nat \<Rightarrow> nat option res" where
  "linear_from conv q [] fl i = Inr None"
| "linear_from conv q (b # bs) fl i = and_then (vec_get fl i) (\<lambda>f.
     if VISITED f
     then and_then (bucket_key b) (\<lambda>k. if conv k = q then Inr (Some i) else linear_from conv q bs fl (i + 1))
     else linear_from conv q bs fl (i + 1))"

definition linear_find :: "('k \<Rightarrow> 'q) \<Rightarrow> 'q \<Rightarrow> ('k, 'v) flat_map \<Rightarrow> nat option res" where
  "linear_find conv q m = linear_from conv q (fm_buckets m) (fm_emplaced m) 0"

definition fm_find :: "('q \<Rightarrow> nat) \<Rightarrow> ('k \<Rightarrow> 'q) \<Rightarrow> 'q \<Rightarrow> ('k, 'v) flat_map \<Rightarrow> nat option res" where
  "fm_find hq conv q m = (if 20 \<le> fm_size m then hash_find hq conv q m else linear_find conv q m)"

text \<open>\<open>erase\<close> ends without a \<open>return\<close> when the key is there.\<close>

definition fm_erase :: "('k \<Rightarrow> nat) \<Rightarrow> 'k \<Rightarrow> ('k, 'v) flat_map \<Rightarrow> bool res" where
  "fm_erase h k m = and_then (fm_find h id k m) (\<lambda>b. if b = None then Inr False else Inl UB)"

section \<open>The walk\<close>

text \<open>Both flags of a bucket say the same: whether it holds a key and a value.\<close>

definition flags_of :: "('k, 'v) bucket list \<Rightarrow> bucket_flags list" where
  "flags_of bs = map (\<lambda>b. (b \<noteq> None, b \<noteq> None)) bs"

lemma next_bucket_less [simp]: "p < len \<Longrightarrow> next_bucket len p < len"
  by (simp add: next_bucket_def)

lemma length_flags_of [simp]: "length (flags_of bs) = length bs"
  by (simp add: flags_of_def)

lemma walk_flags:
  assumes "p < length bs"
  shows "walk P bs (flags_of bs) n p =
     (case bs ! p of
        None \<Rightarrow> Inr (if n \<noteq> 0 then Free p else Exhausted)
      | Some (k, v) \<Rightarrow> if n = 0 then Inr Exhausted
          else if P k then Inr (Found p) else walk P bs (flags_of bs) (n - 1) (next_bucket (length bs) p))"
  using assms
  by (subst walk.simps) (auto simp: vec_get_def flags_of_def VISITED_def bucket_key_def split: option.split)

lemma walk_total: "p < length bs \<Longrightarrow> \<exists>w. walk P bs (flags_of bs) n p = Inr w"
proof (induction n arbitrary: p)
  case 0
  then show ?case by (simp add: walk_flags split: option.split)
next
  case (Suc n)
  then show ?case using Suc.IH[OF next_bucket_less[OF Suc.prems]]
    by (simp add: walk_flags[OF Suc.prems] split: option.split)
qed

lemma walk_Found:
  "p < length bs \<Longrightarrow> walk P bs (flags_of bs) n p = Inr (Found i) \<Longrightarrow>
   i < length bs \<and> (\<exists>k v. bs ! i = Some (k, v) \<and> P k)"
proof (induction n arbitrary: p)
  case 0
  then show ?case by (simp add: walk_flags split: option.splits)
next
  case (Suc n)
  then show ?case using Suc.IH[OF next_bucket_less[OF Suc.prems(1)]]
    by (auto simp: walk_flags[OF Suc.prems(1)] split: option.splits if_splits)
qed

lemma walk_Free:
  "p < length bs \<Longrightarrow> walk P bs (flags_of bs) n p = Inr (Free i) \<Longrightarrow> P k \<Longrightarrow>
   i < length bs \<and> bs ! i = None \<and>
   walk P (bs[i := Some (k, v)]) (flags_of (bs[i := Some (k, v)])) n p = Inr (Found i)"
proof (induction n arbitrary: p)
  case 0
  then show ?case by (simp add: walk_flags split: option.splits)
next
  case (Suc n)
  show ?case
  proof (cases "bs ! p")
    case None
    then show ?thesis using Suc.prems by (simp add: walk_flags)
  next
    case (Some kv)
    then have "\<not> P (fst kv)" "walk P bs (flags_of bs) n (next_bucket (length bs) p) = Inr (Free i)"
      using Suc.prems(2) by (auto simp: walk_flags[OF Suc.prems(1)] split_beta split: if_splits)
    moreover have l: "p < length (bs[i := Some (k, v)])" using Suc.prems(1) by simp
    ultimately show ?thesis
      using Suc.IH[OF next_bucket_less[OF Suc.prems(1)] _ Suc.prems(3)] Some
      by (auto simp: walk_flags[OF l] nth_list_update split_beta)
  qed
qed

text \<open>A key stays where it was found when no key before it goes away, and when the walk may be longer.\<close>

lemma walk_Found_stable:
  assumes "length bs' = length bs" "\<And>i k v. i < length bs \<Longrightarrow> bs ! i = Some (k, v) \<Longrightarrow> \<exists>v'. bs' ! i = Some (k, v')"
  shows "p < length bs \<Longrightarrow> walk P bs (flags_of bs) n p = Inr (Found i) \<Longrightarrow> n \<le> n' \<Longrightarrow>
    walk P bs' (flags_of bs') n' p = Inr (Found i)"
proof (induction n arbitrary: p n')
  case 0
  then show ?case by (simp add: walk_flags split: option.splits)
next
  case (Suc n)
  obtain k v where b: "bs ! p = Some (k, v)"
    using Suc.prems by (cases "bs ! p") (auto simp: walk_flags)
  obtain v' where b': "bs' ! p = Some (k, v')" using assms(2)[OF Suc.prems(1) b] by blast
  from Suc.prems(3) obtain l where l: "n' = Suc l" "n \<le> l" by (cases n') auto
  show ?case
    using Suc.prems Suc.IH[OF next_bucket_less[OF Suc.prems(1)] _ l(2)] b b' l(1)
    by (auto simp: walk_flags[OF Suc.prems(1)] walk_flags[of p bs'] assms(1) split: if_splits)
qed

section \<open>The invariant\<close>

text \<open>Every key sits where its walk of at most 16 buckets finds it.\<close>

definition fm_wf :: "('k \<Rightarrow> nat) \<Rightarrow> ('k, 'v) flat_map \<Rightarrow> bool" where
  "fm_wf h m \<longleftrightarrow> fm_buckets m \<noteq> [] \<and> fm_emplaced m = flags_of (fm_buckets m) \<and>
     (\<forall>i < length (fm_buckets m). case fm_buckets m ! i of None \<Rightarrow> True
        | Some (k, v) \<Rightarrow> walk (\<lambda>k'. k' = k) (fm_buckets m) (fm_emplaced m) 16 (h k mod length (fm_buckets m)) = Inr (Found i))"

lemma fm_wfI:
  assumes "bs \<noteq> []" "fl = flags_of bs"
    "\<And>i k v. i < length bs \<Longrightarrow> bs ! i = Some (k, v) \<Longrightarrow>
       walk (\<lambda>k'. k' = k) bs (flags_of bs) 16 (h k mod length bs) = Inr (Found i)"
  shows "fm_wf h (m\<lparr>fm_buckets := bs, fm_emplaced := fl, fm_size := s\<rparr>)"
  using assms by (auto simp: fm_wf_def split: option.split)

lemma fm_wf_walk:
  "fm_wf h m \<Longrightarrow> i < length (fm_buckets m) \<Longrightarrow> fm_buckets m ! i = Some (k, v) \<Longrightarrow>
   walk (\<lambda>k'. k' = k) (fm_buckets m) (flags_of (fm_buckets m)) 16 (h k mod length (fm_buckets m)) = Inr (Found i)"
  by (auto simp: fm_wf_def split: option.splits)

lemma fm_wf_flags: "fm_wf h m \<Longrightarrow> fm_buckets m \<noteq> [] \<and> fm_emplaced m = flags_of (fm_buckets m)"
  by (simp add: fm_wf_def)

lemma linear_from_spec:
  "length fl = i + length bs \<Longrightarrow> drop i fl = flags_of bs \<Longrightarrow>
   (\<exists>j < length bs. linear_from conv q bs fl i = Inr (Some (i + j)) \<and> (\<exists>k v. bs ! j = Some (k, v) \<and> conv k = q)) \<or>
   linear_from conv q bs fl i = Inr None \<and> (\<forall>k v. Some (k, v) \<in> set bs \<longrightarrow> conv k \<noteq> q)"
proof (induction bs arbitrary: i)
  case (Cons b bs)
  have f: "vec_get fl i = Inr (b \<noteq> None, b \<noteq> None)"
    using Cons.prems by (simp add: vec_get_def flags_of_def Cons_nth_drop_Suc[symmetric])
  have d: "drop (Suc i) fl = flags_of bs" "length fl = Suc i + length bs"
    using Cons.prems by (auto simp: flags_of_def drop_Suc tl_drop[symmetric])
  show ?case
  proof (cases "\<exists>v. b = Some v \<and> conv (fst v) = q")
    case True
    then show ?thesis using f by (intro disjI1 exI[of _ 0]) (auto simp: VISITED_def bucket_key_def)
  next
    case False
    then have "linear_from conv q (b # bs) fl i = linear_from conv q bs fl (Suc i)"
      using f by (cases b) (auto simp: VISITED_def bucket_key_def)
    then have e: "linear_from conv q (b # bs) fl i = linear_from conv q bs fl (Suc i)" .
    from Cons.IH[OF d(2,1)] consider
      (found) j where "j < length bs" "linear_from conv q bs fl (Suc i) = Inr (Some (Suc i + j))"
        "\<exists>k v. bs ! j = Some (k, v) \<and> conv k = q"
      | (none) "linear_from conv q bs fl (Suc i) = Inr None" "\<forall>k v. Some (k, v) \<in> set bs \<longrightarrow> conv k \<noteq> q"
      by blast
    then show ?thesis
    proof cases
      case found
      then show ?thesis using e by (intro disjI1 exI[of _ "Suc j"]) simp
    next
      case none
      then show ?thesis using e False by auto
    qed
  qed
qed simp

section \<open>Searching\<close>

abbreviation walk_for :: "('k \<Rightarrow> nat) \<Rightarrow> 'k \<Rightarrow> ('k, 'v) flat_map \<Rightarrow> walk_end res" where
  "walk_for h k m \<equiv> walk (\<lambda>k'. k' = k) (fm_buckets m) (flags_of (fm_buckets m)) 16 (h k mod length (fm_buckets m))"

lemma hash_less: "fm_wf h m \<Longrightarrow> h k mod length (fm_buckets m) < length (fm_buckets m)"
  by (simp add: fm_wf_def)

lemma fm_wf_unique:
  "fm_wf h m \<Longrightarrow> i < length (fm_buckets m) \<Longrightarrow> fm_buckets m ! i = Some (k, v) \<Longrightarrow>
   j < length (fm_buckets m) \<Longrightarrow> fm_buckets m ! j = Some (k, v') \<Longrightarrow> i = j"
  using fm_wf_walk[of h m i k v] fm_wf_walk[of h m j k v'] by simp

lemma linear_find_walk:
  assumes "fm_wf h m" "inj conv"
  shows "linear_find conv (conv k) m = Inr (case walk_for h k m of Inr (Found i) \<Rightarrow> Some i | _ \<Rightarrow> None)"
proof -
  have "length (fm_emplaced m) = 0 + length (fm_buckets m)" "drop 0 (fm_emplaced m) = flags_of (fm_buckets m)"
    using fm_wf_flags[OF assms(1)] by simp_all
  from linear_from_spec[OF this, of conv "conv k"] show ?thesis
  proof (elim disjE)
    assume "\<exists>j < length (fm_buckets m). linear_from conv (conv k) (fm_buckets m) (fm_emplaced m) 0 = Inr (Some (0 + j)) \<and>
        (\<exists>k' v. fm_buckets m ! j = Some (k', v) \<and> conv k' = conv k)"
    then obtain j v where j: "j < length (fm_buckets m)" "fm_buckets m ! j = Some (k, v)"
      "linear_from conv (conv k) (fm_buckets m) (fm_emplaced m) 0 = Inr (Some j)"
      using injD[OF assms(2)] by auto
    then show ?thesis using fm_wf_walk[OF assms(1) j(1,2)] by (simp add: linear_find_def)
  next
    assume n: "linear_from conv (conv k) (fm_buckets m) (fm_emplaced m) 0 = Inr None \<and>
        (\<forall>k' v. Some (k', v) \<in> set (fm_buckets m) \<longrightarrow> conv k' \<noteq> conv k)"
    then have "walk_for h k m \<noteq> Inr (Found i)" for i
      using walk_Found[OF hash_less[OF assms(1)], of "\<lambda>k'. k' = k" 16 k i] nth_mem[of i "fm_buckets m"] by fastforce
    then show ?thesis using n by (simp add: linear_find_def split: sum.split walk_end.split)
  qed
qed

lemma hash_find_walk:
  assumes "fm_wf h m" "inj conv" "\<And>k. hq (conv k) = h k" "16 \<le> fm_size m"
  shows "hash_find hq conv (conv k) m = Inr (case walk_for h k m of Inr (Found i) \<Rightarrow> Some i | _ \<Rightarrow> None)"
proof -
  let ?w = "\<lambda>n. walk (\<lambda>k'. k' = k) (fm_buckets m) (flags_of (fm_buckets m)) n (h k mod length (fm_buckets m))"
  note less = hash_less[OF assms(1)]
  have e: "hash_find hq conv (conv k) m = and_then (?w (fm_size m)) (\<lambda>w. case w of Found p \<Rightarrow> Inr (Some p) | _ \<Rightarrow> Inr None)"
    using fm_wf_flags[OF assms(1)] inj_eq[OF assms(2)] by (simp add: hash_find_def assms(3))
  obtain w where w: "?w (fm_size m) = Inr w" using walk_total[OF less] by blast
  show ?thesis
  proof (cases "\<exists>i. w = Found i")
    case True
    then obtain i where i: "w = Found i" ..
    then obtain k' v where b: "i < length (fm_buckets m)" "fm_buckets m ! i = Some (k', v)" "k' = k"
      using walk_Found[OF less, of "\<lambda>k'. k' = k" "fm_size m" k i] w by auto
    then have "walk_for h k m = Inr (Found i)" using fm_wf_walk[OF assms(1) b(1)] by simp
    then show ?thesis using e w i by simp
  next
    case False
    have "walk_for h k m \<noteq> Inr (Found i)" for i
      using walk_Found_stable[of "fm_buckets m" "fm_buckets m" "h k mod length (fm_buckets m)" "\<lambda>k'. k' = k" 16 i "fm_size m"]
        less assms(4) w False by auto
    then show ?thesis using e w False by (simp split: sum.split walk_end.split)
  qed
qed

lemma fm_find_walk:
  assumes "fm_wf h m" "inj conv" "\<And>k. hq (conv k) = h k"
  shows "fm_find hq conv (conv k) m = Inr (case walk_for h k m of Inr (Found i) \<Rightarrow> Some i | _ \<Rightarrow> None)"
  using linear_find_walk[OF assms(1,2)] hash_find_walk[OF assms(1-3)] by (simp add: fm_find_def)

text \<open>What the caller of \<open>find\<close> reads through the pointer.\<close>

definition fm_lookup :: "('q \<Rightarrow> nat) \<Rightarrow> ('k \<Rightarrow> 'q) \<Rightarrow> 'q \<Rightarrow> ('k, 'v) flat_map \<Rightarrow> 'v option res" where
  "fm_lookup hq conv q m = and_then (fm_find hq conv q m) (\<lambda>p. case p of
     None \<Rightarrow> Inr None
   | Some i \<Rightarrow> and_then (vec_get (fm_buckets m) i) (\<lambda>b. and_then (bucket_value b) (\<lambda>v. Inr (Some v))))"

definition fm_entry :: "('k, 'v) flat_map \<Rightarrow> 'k \<Rightarrow> 'v \<Rightarrow> bool" where
  "fm_entry m k v \<longleftrightarrow> (\<exists>i < length (fm_buckets m). fm_buckets m ! i = Some (k, v))"

lemma fm_lookup_iff:
  assumes "fm_wf h m" "inj conv" "\<And>k. hq (conv k) = h k"
  shows "fm_lookup hq conv (conv k) m = Inr (Some v) \<longleftrightarrow> fm_entry m k v" (is ?some)
    and "fm_lookup hq conv (conv k) m = Inr None \<longleftrightarrow> (\<forall>v. \<not> fm_entry m k v)" (is ?none)
proof -
  obtain w where w: "walk_for h k m = Inr w" using walk_total[OF hash_less[OF assms(1)]] by blast
  have l: "fm_lookup hq conv (conv k) m = (case w of
      Found i \<Rightarrow> and_then (vec_get (fm_buckets m) i) (\<lambda>b. and_then (bucket_value b) (\<lambda>v. Inr (Some v))) | _ \<Rightarrow> Inr None)"
    using w fm_find_walk[OF assms] by (simp add: fm_lookup_def split: walk_end.split)
  have m: "fm_entry m k v \<longleftrightarrow> (\<exists>i. w = Found i \<and> i < length (fm_buckets m) \<and> fm_buckets m ! i = Some (k, v))" for v
    using fm_wf_walk[OF assms(1)] w by (fastforce simp: fm_entry_def)
  have "?some \<and> ?none"
  proof (cases "\<exists>i. w = Found i")
    case True
    then obtain i where i: "w = Found i" ..
    then obtain v' where "i < length (fm_buckets m)" "fm_buckets m ! i = Some (k, v')"
      using walk_Found[OF hash_less[OF assms(1)], of "\<lambda>k'. k' = k" 16 k i] w by auto
    then show ?thesis using i by (auto simp: l m vec_get_def bucket_value_def)
  next
    case False
    then show ?thesis by (simp add: l m split: walk_end.split)
  qed
  then show ?some ?none by simp_all
qed

section \<open>Emplacing\<close>

lemma fm_wf_new: "0 < s \<Longrightarrow> fm_wf h (fm_new t s)"
  by (simp add: fm_wf_def fm_new_def flags_of_def)

text \<open>As the \<open>-1\<close> is converted to \<open>true\<close>, the loop of \<open>emplace\<close> is never taken and the map never grows.\<close>

lemma fm_emplace_once:
  "fm_emplace h t o' k v m =
     Some (and_then (emplace_bucket h (fm_buckets m) (fm_emplaced m) k v 16) (\<lambda>(bs, fl, r).
       Inr (m\<lparr>fm_buckets := bs, fm_emplaced := fl, fm_size := fm_size m + (if r then 1 else 0)\<rparr>)))"
  by (subst fm_emplace.simps) (simp add: and_then_def split: sum.split)

lemma flags_of_update:
  "i < length bs \<Longrightarrow> bs ! i \<noteq> None \<Longrightarrow> flags_of (bs[i := Some x]) = flags_of bs"
  "flags_of (bs[i := Some x]) = (flags_of bs)[i := (True, True)]"
  by (auto simp: flags_of_def map_update intro!: nth_equalityI simp: nth_list_update)

lemma wf_overwrite:
  assumes "fm_wf h m" "p < length (fm_buckets m)" "fm_buckets m ! p = Some (k, v0)"
  shows "fm_wf h (m\<lparr>fm_buckets := (fm_buckets m)[p := Some (k, v)], fm_emplaced := fm_emplaced m, fm_size := s\<rparr>)"
proof (rule fm_wfI)
  let ?bs = "(fm_buckets m)[p := Some (k, v)]"
  show "?bs \<noteq> []" using assms(1) by (simp add: fm_wf_def)
  show "fm_emplaced m = flags_of ?bs"
    using assms fm_wf_flags[OF assms(1)] by (simp add: flags_of_update(1))
  fix i k' v' assume i: "i < length ?bs" "?bs ! i = Some (k', v')"
  then obtain v1 where "fm_buckets m ! i = Some (k', v1)"
    using assms(2,3) by (cases "i = p") auto
  from fm_wf_walk[OF assms(1) _ this] i(1)
  have w: "walk_for h k' m = Inr (Found i)" by simp
  have "walk (\<lambda>k''. k'' = k') ?bs (flags_of ?bs) 16 (h k' mod length (fm_buckets m)) = Inr (Found i)"
    by (rule walk_Found_stable[OF _ _ hash_less[OF assms(1)] w order_refl]) (use assms(2,3) in \<open>auto simp: nth_list_update\<close>)
  then show "walk (\<lambda>k''. k'' = k') ?bs (flags_of ?bs) 16 (h k' mod length ?bs) = Inr (Found i)" by simp
qed

lemma wf_fill:
  assumes "fm_wf h m" "walk_for h k m = Inr (Free p)"
  shows "fm_wf h (m\<lparr>fm_buckets := (fm_buckets m)[p := Some (k, v)], fm_emplaced := (fm_emplaced m)[p := (True, True)], fm_size := s\<rparr>)"
proof (rule fm_wfI)
  let ?bs = "(fm_buckets m)[p := Some (k, v)]"
  note free = walk_Free[OF hash_less[OF assms(1)] assms(2) refl, of v]
  show "?bs \<noteq> []" using assms(1) by (simp add: fm_wf_def)
  show "(fm_emplaced m)[p := (True, True)] = flags_of ?bs"
    using fm_wf_flags[OF assms(1)] by (simp add: flags_of_update(2))
  fix i k' v' assume i: "i < length ?bs" "?bs ! i = Some (k', v')"
  show "walk (\<lambda>k''. k'' = k') ?bs (flags_of ?bs) 16 (h k' mod length ?bs) = Inr (Found i)"
  proof (cases "i = p")
    case True
    then show ?thesis using free i by simp
  next
    case False
    then have w: "walk_for h k' m = Inr (Found i)" using fm_wf_walk[OF assms(1)] i by simp
    have "walk (\<lambda>k''. k'' = k') ?bs (flags_of ?bs) 16 (h k' mod length (fm_buckets m)) = Inr (Found i)"
      by (rule walk_Found_stable[OF _ _ hash_less[OF assms(1)] w order_refl]) (use free in \<open>auto simp: nth_list_update\<close>)
    then show ?thesis by simp
  qed
qed

lemma fm_entry_update:
  assumes "fm_wf h m" "p < length (fm_buckets m)" "\<And>k' v'. fm_buckets m ! p = Some (k', v') \<Longrightarrow> k' = k"
    "\<And>v'. fm_entry m k v' \<Longrightarrow> fm_buckets m ! p \<noteq> None"
  shows "fm_entry (m\<lparr>fm_buckets := (fm_buckets m)[p := Some (k, v)], fm_emplaced := fl, fm_size := s\<rparr>) q w \<longleftrightarrow>
    (if q = k then w = v else fm_entry m q w)"
proof (cases "q = k")
  case True
  have "i = p" if "i < length (fm_buckets m)" "fm_buckets m ! i = Some (k, v')" for i v'
  proof -
    have "fm_entry m k v'" using that by (auto simp: fm_entry_def)
    then obtain v'' where "fm_buckets m ! p = Some (k, v'')" using assms(3,4) by fastforce
    then show ?thesis using fm_wf_unique[OF assms(1) that assms(2)] by blast
  qed
  then show ?thesis using True assms(2) by (auto simp: fm_entry_def nth_list_update)
next
  case False
  then have "i < length (fm_buckets m) \<Longrightarrow> (fm_buckets m)[p := Some (k, v)] ! i = Some (q, w) \<longleftrightarrow> fm_buckets m ! i = Some (q, w)" for i
    using assms(2,3) by (cases "i = p") auto
  then show ?thesis using False by (auto simp: fm_entry_def)
qed

text \<open>One call: the key is overwritten, put into a free bucket, or dropped after sixteen other keys.\<close>

lemma fm_emplace_cases:
  assumes "fm_wf h m"
  obtains (dropped) "walk_for h k m = Inr Exhausted" "fm_emplace h t o' k v m = Some (Inr (m\<lparr>fm_size := fm_size m + 1\<rparr>))"
  | (stored) m' where "walk_for h k m \<noteq> Inr Exhausted" "fm_emplace h t o' k v m = Some (Inr m')" "fm_wf h m'"
      "length (fm_buckets m') = length (fm_buckets m)"
      "\<And>q w. fm_entry m' q w \<longleftrightarrow> (if q = k then w = v else fm_entry m q w)"
proof -
  note less = hash_less[OF assms]
  obtain w where w: "walk_for h k m = Inr w" using walk_total[OF less] by blast
  have e: "emplace_bucket h (fm_buckets m) (fm_emplaced m) k v 16 = (case w of
       Found p \<Rightarrow> and_then (vec_get (fm_buckets m) p) (\<lambda>b. and_then (bucket_key b) (\<lambda>k'. Inr ((fm_buckets m)[p := Some (k', v)], fm_emplaced m, False)))
     | Free p \<Rightarrow> and_then (vec_put (fm_buckets m) p (Some (k, v))) (\<lambda>bs'. Inr (bs', (fm_emplaced m)[p := (True, True)], True))
     | Exhausted \<Rightarrow> Inr (fm_buckets m, fm_emplaced m, bool_of_int (- 1)))"
    using w fm_wf_flags[OF assms] by (simp add: emplace_bucket_def hash_bucket_def split: walk_end.split)
  show ?thesis
  proof (cases w)
    case (Found p)
    then obtain v0 where p: "p < length (fm_buckets m)" "fm_buckets m ! p = Some (k, v0)"
      using walk_Found[OF less, of "\<lambda>k'. k' = k" 16 k p] w by auto
    let ?m = "m\<lparr>fm_buckets := (fm_buckets m)[p := Some (k, v)], fm_emplaced := fm_emplaced m, fm_size := fm_size m\<rparr>"
    show ?thesis
    proof (rule stored)
      show "fm_emplace h t o' k v m = Some (Inr ?m)"
        using e Found p by (simp add: fm_emplace_once vec_get_def bucket_key_def)
      show "fm_wf h ?m" by (rule wf_overwrite[OF assms p])
      show "fm_entry ?m q w \<longleftrightarrow> (if q = k then w = v else fm_entry m q w)" for q w
        by (rule fm_entry_update[OF assms p(1)]) (use p(2) in auto)
    qed (use w Found in simp_all)
  next
    case (Free p)
    note f = walk_Free[OF less, of "\<lambda>k'. k' = k" 16 k p k]
    have n: "\<not> fm_entry m k v'" for v' using fm_wf_walk[OF assms] w Free by (fastforce simp: fm_entry_def)
    let ?m = "m\<lparr>fm_buckets := (fm_buckets m)[p := Some (k, v)], fm_emplaced := (fm_emplaced m)[p := (True, True)],
        fm_size := fm_size m + 1\<rparr>"
    show ?thesis
    proof (rule stored)
      show "fm_emplace h t o' k v m = Some (Inr ?m)"
        using e w Free f by (simp add: fm_emplace_once vec_put_def)
      show "fm_wf h ?m" by (rule wf_fill[OF assms w[unfolded Free]])
      show "fm_entry ?m q w \<longleftrightarrow> (if q = k then w = v else fm_entry m q w)" for q w
        by (rule fm_entry_update[OF assms]) (use f w Free n in auto)
    qed (use w Free in simp_all)
  next
    case Exhausted
    then show ?thesis using e w by (intro dropped) (simp_all add: fm_emplace_once bool_of_int_def)
  qed
qed

section \<open>A small map loses nothing\<close>

fun fm_emplace_all :: "('k \<Rightarrow> nat) \<Rightarrow> (nat \<Rightarrow> nat) \<Rightarrow> (nat \<Rightarrow> nat) \<Rightarrow> ('k \<times> 'v) list \<Rightarrow> ('k, 'v) flat_map \<Rightarrow>
    ('k, 'v) flat_map res option" where
  "fm_emplace_all h t o' [] m = Some (Inr m)"
| "fm_emplace_all h t o' ((k, v) # kvs) m = run_bind (fm_emplace h t o' k v m) (fm_emplace_all h t o' kvs)"

lemma walk_Exhausted:
  "p < length bs \<Longrightarrow> walk P bs (flags_of bs) n p = Inr Exhausted \<Longrightarrow> j < n \<Longrightarrow>
   \<exists>k v. bs ! ((p + j) mod length bs) = Some (k, v) \<and> \<not> P k"
proof (induction n arbitrary: p j)
  case (Suc n)
  obtain k v where b: "bs ! p = Some (k, v)" "\<not> P k"
    "walk P bs (flags_of bs) n (next_bucket (length bs) p) = Inr Exhausted"
    using Suc.prems(2) by (auto simp: walk_flags[OF Suc.prems(1)] split: option.splits if_splits)
  show ?case
  proof (cases j)
    case 0
    then show ?thesis using b Suc.prems(1) by simp
  next
    case (Suc i)
    moreover have "(p + Suc i) mod length bs = (next_bucket (length bs) p + i) mod length bs"
    proof (cases "p + 1 = length bs")
      case True
      then have "p + Suc i = length bs + i" by simp
      then show ?thesis using True by (simp only: mod_add_self1) (simp add: next_bucket_def)
    qed (simp add: next_bucket_def)
    ultimately show ?thesis
      using Suc.IH[OF next_bucket_less[OF Suc.prems(1)] b(3), of i] Suc.prems(3) by simp
  qed
qed simp

lemma inj_on_mod_window: "inj_on (\<lambda>j. (p + j) mod len) {..<(len :: nat)}"
proof (rule inj_onI)
  have aux: "a = b" if "a \<le> b" "b < len" "(p + a) mod len = (p + b) mod len" for a b :: nat
  proof -
    have "len dvd b - a" using that(1,3) mod_eq_dvd_iff_nat[of "p + a" "p + b" len] by simp
    moreover have "b - a < len" using that(2) by simp
    ultimately have "b - a = 0" by (metis nat_dvd_not_less not_gr_zero)
    then show ?thesis using that(1) by simp
  qed
  fix a b assume "a \<in> {..<len}" "b \<in> {..<len}" "(p + a) mod len = (p + b) mod len"
  then show "a = b" using aux[of a b] aux[of b a] by (cases a b rule: le_cases) auto
qed

lemma exhausted_many_keys:
  assumes "fm_wf h m" "walk_for h k m = Inr Exhausted" "finite S" "\<And>q w. fm_entry m q w \<Longrightarrow> q \<in> S" "k \<in> S"
  shows "min 16 (length (fm_buckets m)) < card S"
proof -
  let ?n = "min 16 (length (fm_buckets m))" and ?len = "length (fm_buckets m)"
  define at where "at = (\<lambda>j. (h k mod ?len + j) mod ?len)"
  define key where "key = (\<lambda>i. fst (the (fm_buckets m ! i)))"
  have pos: "0 < ?len" using assms(1) by (simp add: fm_wf_def)
  have b: "at j < ?len \<and> (\<exists>v. fm_buckets m ! at j = Some (key (at j), v)) \<and> key (at j) \<noteq> k" if "j < 16" for j
    using walk_Exhausted[OF hash_less[OF assms(1)] assms(2) that] pos by (auto simp: at_def key_def)
  have "inj_on at {..<?len}" unfolding at_def by (rule inj_on_mod_window)
  then have inj: "inj_on (\<lambda>j. key (at j)) {..<?n}"
  proof (intro inj_onI)
    fix i j assume ij: "i \<in> {..<?n}" "j \<in> {..<?n}" "key (at i) = key (at j)"
    then obtain v v' where "fm_buckets m ! at i = Some (key (at i), v)" "fm_buckets m ! at j = Some (key (at i), v')"
      using b[of i] b[of j] by auto
    then have "at i = at j" using b[of i] b[of j] ij(1,2) fm_wf_unique[OF assms(1)] by simp
    then show "i = j" using inj_onD[OF \<open>inj_on at {..<?len}\<close>] ij(1,2) by simp
  qed
  have sub: "(\<lambda>j. key (at j)) ` {..<?n} \<subseteq> S - {k}"
  proof (rule image_subsetI)
    fix j assume "j \<in> {..<?n}"
    then obtain v where "at j < ?len" "fm_buckets m ! at j = Some (key (at j), v)" "key (at j) \<noteq> k"
      using b[of j] by auto
    then show "key (at j) \<in> S - {k}" using assms(4)[of "key (at j)" v] by (auto simp: fm_entry_def)
  qed
  have "?n \<le> card (S - {k})" using card_inj_on_le[OF inj sub] assms(3) by simp
  also have "\<dots> < card S" using assms(3,5) by (rule card_Diff1_less)
  finally show ?thesis .
qed

lemma fm_emplace_all_spec:
  assumes "finite S" "card S \<le> min 16 s"
  shows "fm_wf h m \<Longrightarrow> length (fm_buckets m) = s \<Longrightarrow> (\<And>q w. fm_entry m q w \<Longrightarrow> q \<in> S) \<Longrightarrow> fst ` set kvs \<subseteq> S \<Longrightarrow>
    \<exists>m'. fm_emplace_all h t o' kvs m = Some (Inr m') \<and> fm_wf h m' \<and>
      (\<forall>q w. fm_entry m' q w \<longleftrightarrow> (case map_of (rev kvs) q of Some v \<Rightarrow> w = v | None \<Rightarrow> fm_entry m q w))"
proof (induction kvs arbitrary: m)
  case (Cons kv kvs)
  obtain k v where kv: "kv = (k, v)" by force
  from Cons.prems(1) show ?case
  proof (cases rule: fm_emplace_cases[where k = k and v = v and t = t and o' = o'])
    case dropped
    then have "min 16 s < card S"
      using exhausted_many_keys[OF Cons.prems(1) dropped(1) assms(1)] Cons.prems(2-4) kv by auto
    then show ?thesis using assms(2) by simp
  next
    case (stored m1)
    have "\<exists>m'. fm_emplace_all h t o' kvs m1 = Some (Inr m') \<and> fm_wf h m' \<and>
        (\<forall>q w. fm_entry m' q w \<longleftrightarrow> (case map_of (rev kvs) q of Some v \<Rightarrow> w = v | None \<Rightarrow> fm_entry m1 q w))"
      by (rule Cons.IH) (use stored(3-5) Cons.prems(2-4) kv in \<open>auto split: if_splits\<close>)
    then obtain m' where m': "fm_emplace_all h t o' kvs m1 = Some (Inr m')" "fm_wf h m'"
      "\<And>q w. fm_entry m' q w \<longleftrightarrow> (case map_of (rev kvs) q of Some v \<Rightarrow> w = v | None \<Rightarrow> fm_entry m1 q w)"
      by blast
    show ?thesis
      using stored(2,5) m' kv by (intro exI[of _ m']) (auto simp: map_add_def split: option.split)
  qed
qed simp

text \<open>C30: A map of \<open>s\<close> buckets that is given at most \<open>min 16 s\<close> different keys, however they collide, behaves as a map:
  every emplace returns, and a search finds the value emplaced last for the key and nothing for the other keys.
\<close>

theorem flat_map_refines_map:
  assumes "0 < s" "card (set (map fst kvs)) \<le> min 16 s" "inj conv" "\<And>k. hq (conv k) = h k"
  shows "\<exists>m. fm_emplace_all h thr over kvs (fm_new thr s) = Some (Inr m) \<and>
    (\<forall>q. fm_lookup hq conv (conv q) m = Inr (map_of (rev kvs) q))"
proof -
  have e: "\<not> fm_entry (fm_new thr s) q w" for q :: 'a and w :: 'b by (auto simp: fm_entry_def fm_new_def)
  have "length (fm_buckets (fm_new thr s :: ('a, 'b) flat_map)) = s" by (simp add: fm_new_def)
  from fm_emplace_all_spec[OF finite_set assms(2) fm_wf_new[OF assms(1)] this, of kvs h thr over] e
  obtain m where m: "fm_emplace_all h thr over kvs (fm_new thr s) = Some (Inr m)" "fm_wf h m"
    "\<And>q w. fm_entry m q w \<longleftrightarrow> map_of (rev kvs) q = Some w"
    by (auto split: option.splits) (metis option.case_eq_if option.collapse option.sel)
  have "fm_lookup hq conv (conv q) m = Inr (map_of (rev kvs) q)" for q
    using fm_lookup_iff[OF m(2) assms(3,4)] m(3) by (cases "map_of (rev kvs) q") auto
  then show ?thesis using m(1) by blast
qed

theorem flat_map_refines_map_witness:
  "\<exists>m. fm_emplace_all (\<lambda>_ :: nat. 3) id id [(1, ''a''), (2, ''b''), (1, ''c'')] (fm_new id 17) = Some (Inr m) \<and>
    (\<forall>q. fm_lookup (\<lambda>_. 3) id (id q) m = Inr (map_of (rev [(1, ''a''), (2, ''b''), (1, ''c'')]) q))"
  by (rule flat_map_refines_map) (simp_all add: card_insert_if)

text \<open>The seventeenth key of a run is dropped, yet \<open>size_\<close> counts it; emplaced once more, it is counted once more.\<close>

lemma flat_map_drops:
  assumes "fm_wf h m" "walk_for h k m = Inr Exhausted"
  shows "fm_emplace h t o' k v m = Some (Inr (m\<lparr>fm_size := fm_size m + 1\<rparr>))"
  using assms(1)
proof (cases rule: fm_emplace_cases[where k = k and v = v and t = t and o' = o'])
  case stored
  then show ?thesis using assms(2) by simp
qed

text \<open>\<open>erase\<close> takes nothing out, and it has no value when the key is there.\<close>

lemma fm_erase_present: "fm_find h id k m = Inr (Some i) \<Longrightarrow> fm_erase h k m = Inl UB"
  by (simp add: fm_erase_def)

lemma fm_new_empty_emplace: "fm_emplace h t o' k v (fm_new t 0) = Some (Inl UB)"
  by (simp add: fm_emplace_once emplace_bucket_def hash_bucket_def fm_new_def)

end
