(* ===== verification/TypeInfo.thy ===== *)
theory TypeInfo
  imports TxlPrelude "HOL-Library.List_Lexorder"
begin

text \<open>
  \<^verbatim>\<open>include/txl/type_info.h\<close> and \<^verbatim>\<open>polymorphic.h\<close>. The name of a type is cut out of the text the compiler puts into
  \<^verbatim>\<open>__PRETTY_FUNCTION__\<close>, which is the argument of \<open>get_type_info\<close>: its address and its bytes, without the null byte
  that ends it. \<open>polymorphic_map\<close> keeps one object per type; the objects are numbered as they are made.
\<close>

type_synonym cstr = "8 word list"

definition char_at :: "cstr \<Rightarrow> nat \<Rightarrow> 8 word" where
  "char_at s i = (if i < length s then s ! i else 0)"

record type_info =
  name_addr :: nat
  name_data :: cstr
  name_len :: nat
  ti_hash :: "64 word"

definition ti_new :: type_info where
  "ti_new = \<lparr>name_addr = 0, name_data = [], name_len = 0, ti_hash = 0\<rparr>"

definition ti_empty :: "type_info \<Rightarrow> bool" where
  "ti_empty t \<longleftrightarrow> name_len t = 0 \<and> ti_hash t = 0"

definition ti_name :: "type_info \<Rightarrow> cstr" where
  "ti_name t = take (name_len t) (name_data t)"

text \<open>\<^verbatim>\<open>strncmp\<close> of at most \<open>n\<close> bytes, for equality.\<close>

fun strncmp_eq :: "cstr \<Rightarrow> cstr \<Rightarrow> nat \<Rightarrow> bool" where
  "strncmp_eq s t 0 = True"
| "strncmp_eq s t (Suc n) =
     (char_at s 0 = char_at t 0 \<and> (char_at s 0 = 0 \<or> strncmp_eq (tl s) (tl t) n))"

definition ti_eq :: "type_info \<Rightarrow> type_info \<Rightarrow> bool" where
  "ti_eq a b \<longleftrightarrow> ti_hash a = ti_hash b \<and> name_len a = name_len b \<and>
     (name_addr a = name_addr b \<or> strncmp_eq (name_data a) (name_data b) (name_len a))"

definition ti_neq :: "type_info \<Rightarrow> type_info \<Rightarrow> bool" where
  "ti_neq a b \<longleftrightarrow> \<not> ti_eq a b"

text \<open>Bytes compare as unsigned numbers, a shorter name comes before a longer one.\<close>

definition ti_less :: "type_info \<Rightarrow> type_info \<Rightarrow> bool" where
  "ti_less a b \<longleftrightarrow> map unat (ti_name a) < map unat (ti_name b)"

text \<open>The loops of \<open>get_type_info\<close>: to the sign \<open>=\<close> (61), over the blanks (32), up to the bracket (93). \<^verbatim>\<open>*p\<close> is a signed
  character.\<close>

fun to_equals :: "cstr \<Rightarrow> cstr" where
  "to_equals [] = []"
| "to_equals (c # cs) = (if c \<noteq> 0 \<and> c \<noteq> 61 then to_equals cs else c # cs)"

fun skip_blanks :: "cstr \<Rightarrow> cstr" where
  "skip_blanks [] = []"
| "skip_blanks (c # cs) = (if c = 32 then skip_blanks cs else c # cs)"

definition hash_char :: "64 word \<Rightarrow> 8 word \<Rightarrow> 64 word" where
  "hash_char h c = (drop_bit 5 h + h) + scast c"

fun capture :: "cstr \<Rightarrow> 64 word \<Rightarrow> nat \<Rightarrow> 64 word \<times> nat" where
  "capture [] h l = (h, l)"
| "capture (c # cs) h l = (if c \<noteq> 0 \<and> c \<noteq> 93 then capture cs (hash_char h c) (l + 1) else (h, l))"

definition get_type_info :: "nat \<Rightarrow> cstr \<Rightarrow> type_info" where
  "get_type_info addr fn =
     (let p = to_equals fn;
          p1 = (case p of [] \<Rightarrow> [] | c # cs \<Rightarrow> if c = 61 then skip_blanks cs else p)
      in case capture p1 5381 0 of (h, l) \<Rightarrow>
           \<lparr>name_addr = addr + (length fn - length p1), name_data = p1, name_len = l, ti_hash = h\<rparr>)"

definition get_type_hash :: "nat \<Rightarrow> cstr \<Rightarrow> 64 word" where
  "get_type_hash addr fn = ti_hash (get_type_info addr fn)"

section \<open>What the name and the hash are\<close>

text \<open>A text in front of the equals sign, and a name: no byte that would stop the loops before its end.\<close>

definition plain_prefix :: "cstr \<Rightarrow> bool" where
  "plain_prefix s \<longleftrightarrow> 0 \<notin> set s \<and> 61 \<notin> set s"

definition plain_name :: "cstr \<Rightarrow> bool" where
  "plain_name s \<longleftrightarrow> s \<noteq> [] \<and> hd s \<noteq> 32 \<and> 0 \<notin> set s \<and> 93 \<notin> set s"

definition pretty :: "cstr \<Rightarrow> cstr \<Rightarrow> cstr \<Rightarrow> cstr" where
  "pretty pre name rest = pre @ [61, 32] @ name @ 93 # rest"

lemma to_equals_prefix: "plain_prefix s \<Longrightarrow> to_equals (s @ 61 # cs) = 61 # cs"
  by (induction s) (auto simp: plain_prefix_def)

lemma skip_blanks_name: "s \<noteq> [] \<Longrightarrow> hd s \<noteq> 32 \<Longrightarrow> skip_blanks (s @ cs) = s @ cs"
  by (cases s) auto

lemma capture_name:
  "0 \<notin> set s \<Longrightarrow> 93 \<notin> set s \<Longrightarrow> capture (s @ 93 # cs) h l = (foldl hash_char h s, l + length s)"
  by (induction s arbitrary: h l) auto

lemma get_type_info_pretty:
  assumes "plain_prefix pre" "plain_name n"
  shows "get_type_info a (pretty pre n rest) =
    \<lparr>name_addr = a + length pre + 2, name_data = n @ 93 # rest, name_len = length n, ti_hash = foldl hash_char 5381 n\<rparr>"
  using assms to_equals_prefix[OF assms(1)] skip_blanks_name[of n] capture_name[of n]
  by (simp add: get_type_info_def pretty_def plain_name_def)

lemma strncmp_eq_take:
  "length s = length t \<Longrightarrow> 0 \<notin> set s \<Longrightarrow> strncmp_eq (s @ cs) (t @ ds) (length s) \<longleftrightarrow> s = t"
proof (induction s arbitrary: t)
  case (Cons c s)
  then obtain d t' where "t = d # t'" by (cases t) auto
  with Cons show ?case by (auto simp: char_at_def)
qed simp

text \<open>Two types are the same exactly when their names are, for names without a closing bracket.\<close>

theorem type_info_identity:
  assumes "plain_prefix pre" "plain_prefix pre'" "plain_name n" "plain_name n'"
    and "a + length pre = a' + length pre' \<Longrightarrow> n = n'"
  shows "ti_eq (get_type_info a (pretty pre n rest)) (get_type_info a' (pretty pre' n' rest')) \<longleftrightarrow> n = n'"
proof -
  have "length n = length n' \<Longrightarrow> strncmp_eq (n @ 93 # rest) (n' @ 93 # rest') (length n) \<longleftrightarrow> n = n'"
    using assms(3) by (intro strncmp_eq_take) (simp_all add: plain_name_def)
  then show ?thesis
    using assms(5) by (auto simp: ti_eq_def get_type_info_pretty[OF assms(1,3)] get_type_info_pretty[OF assms(2,4)])
qed

text \<open>A name ends at its first bracket: \<^verbatim>\<open>int [3]\<close> and \<^verbatim>\<open>int [3][4]\<close> have the same type information.\<close>

lemma type_info_arrays:
  assumes "plain_prefix pre" "plain_name n"
  shows "ti_eq (get_type_info a (pretty pre n rest)) (get_type_info a' (pretty pre n rest'))"
proof -
  have "strncmp_eq (n @ 93 # rest) (n @ 93 # rest') (length n)"
    using assms(2) strncmp_eq_take[of n n] by (simp add: plain_name_def)
  then show ?thesis by (simp add: ti_eq_def get_type_info_pretty[OF assms])
qed

lemma ti_less_order:
  "\<not> ti_less a a" "ti_less a b \<Longrightarrow> ti_less b c \<Longrightarrow> ti_less a c"
  "\<not> ti_less a b \<Longrightarrow> \<not> ti_less b a \<Longrightarrow> ti_name a = ti_name b"
  unfolding ti_less_def by (simp, rule less_trans, assumption+) (metis inj_map_eq_map injI linorder_neq_iff word_unat_eq_iff)

section \<open>\<open>polymorphic_map\<close>\<close>

text \<open>A container: the type its deleter is for, and its pointer with the type it was made for. \<open>deleted\<close> records what the
  deleters did.\<close>

record 't container =
  deleter :: 't
  data_ptr :: "(nat \<times> 't) option"

record 't pmap =
  type_map :: "(type_info \<times> 't container) list"
  next_obj :: nat
  deleted :: "(nat \<times> 't) list"

definition pm_new :: "'t pmap" where
  "pm_new = \<lparr>type_map = [], next_obj = 0, deleted = []\<rparr>"

fun map_find :: "type_info \<Rightarrow> (type_info \<times> 'c) list \<Rightarrow> 'c option" where
  "map_find k [] = None"
| "map_find k ((k', c) # m) = (if ti_eq k' k then Some c else map_find k m)"

fun map_assign :: "type_info \<Rightarrow> 'c \<Rightarrow> (type_info \<times> 'c) list \<Rightarrow> (type_info \<times> 'c) list" where
  "map_assign k c [] = []"
| "map_assign k c ((k', c') # m) = (if ti_eq k' k then (k', c) # m else (k', c') # map_assign k c m)"

definition get_deleter :: "'t \<Rightarrow> 't container" where
  "get_deleter t = \<lparr>deleter = t, data_ptr = None\<rparr>"

definition container_destroy :: "'t container \<Rightarrow> (nat \<times> 't) list" where
  "container_destroy c = (case data_ptr c of None \<Rightarrow> [] | Some (p, _) \<Rightarrow> [(p, deleter c)])"

text \<open>\<open>find_or_create\<close>: \<open>thrown\<close> is what the constructor throws; the container without an object is left in the map.\<close>

definition find_or_create :: "('t \<Rightarrow> type_info) \<Rightarrow> 't \<Rightarrow> fault option \<Rightarrow> 't pmap \<Rightarrow> 't pmap \<times> (nat \<times> 't) option res" where
  "find_or_create key t thrown m =
     (case map_find (key t) (type_map m) of
        Some c \<Rightarrow> (m, Inr (data_ptr c))
      | None \<Rightarrow>
          (let m1 = m\<lparr>type_map := (key t, get_deleter t) # type_map m\<rparr>
           in case thrown of
                Some e \<Rightarrow> (m1, Inl e)
              | None \<Rightarrow>
                  (let p = (next_obj m1, t)
                   in (m1\<lparr>type_map := map_assign (key t) ((get_deleter t)\<lparr>data_ptr := Some p\<rparr>) (type_map m1), next_obj := next_obj m1 + 1\<rparr>,
                       Inr (Some p)))))"

text \<open>\<open>get\<close> uses the pointer as one to the type that was asked for.\<close>

definition pm_get :: "('t \<Rightarrow> type_info) \<Rightarrow> 't \<Rightarrow> fault option \<Rightarrow> 't pmap \<Rightarrow> 't pmap \<times> nat res" where
  "pm_get key t thrown m =
     (case find_or_create key t thrown m of
        (m', r) \<Rightarrow> (m', and_then r (\<lambda>p. case p of None \<Rightarrow> Inl UB | Some (i, t') \<Rightarrow> if t' = t then Inr i else Inl UB)))"

definition pm_clear :: "'t pmap \<Rightarrow> 't pmap" where
  "pm_clear m = m\<lparr>type_map := [], deleted := deleted m @ concat (map (container_destroy \<circ> snd) (type_map m))\<rparr>"

definition pm_contains :: "('t \<Rightarrow> type_info) \<Rightarrow> 't \<Rightarrow> 't pmap \<Rightarrow> bool" where
  "pm_contains key t m \<longleftrightarrow> map_find (key t) (type_map m) \<noteq> None"

definition pm_size :: "'t pmap \<Rightarrow> nat" where
  "pm_size m = length (type_map m)"

text \<open>The containers of \<open>polymorphic_container_map\<close> are asked for by the type \<open>con t\<close> of the container of \<open>t\<close>.\<close>

definition pcm_get :: "('t \<Rightarrow> type_info) \<Rightarrow> ('t \<Rightarrow> 't) \<Rightarrow> 't \<Rightarrow> fault option \<Rightarrow> 't pmap \<Rightarrow> 't pmap \<times> nat res" where
  "pcm_get key con t = pm_get key (con t)"

definition pcm_contains :: "('t \<Rightarrow> type_info) \<Rightarrow> ('t \<Rightarrow> 't) \<Rightarrow> 't \<Rightarrow> 't pmap \<Rightarrow> bool" where
  "pcm_contains key con t = pm_contains key (con t)"

text \<open>The map as the list of its types with the numbers of their objects.\<close>

definition holds :: "('t \<Rightarrow> type_info) \<Rightarrow> ('t \<times> nat) list \<Rightarrow> 't pmap \<Rightarrow> bool" where
  "holds key l m \<longleftrightarrow> type_map m = map (\<lambda>(t, i). (key t, \<lparr>deleter = t, data_ptr = Some (i, t)\<rparr>)) l \<and> distinct (map fst l)"

lemma map_find_holds:
  assumes "\<And>s t. ti_eq (key s) (key t) \<longleftrightarrow> s = t"
  shows "map_find (key t) (map (\<lambda>(t, i). (key t, \<lparr>deleter = t, data_ptr = Some (i, t)\<rparr>)) l) =
    map_option (\<lambda>i. \<lparr>deleter = t, data_ptr = Some (i, t)\<rparr>) (map_of l t)"
  using assms by (induction l) auto

lemma pm_get_holds:
  assumes "\<And>s t. ti_eq (key s) (key t) \<longleftrightarrow> s = t" "holds key l m"
  shows "\<exists>m'. pm_get key t None m = (m', Inr (case map_of l t of Some i \<Rightarrow> i | None \<Rightarrow> next_obj m)) \<and>
    holds key (if map_of l t = None then (t, next_obj m) # l else l) m' \<and>
    next_obj m' = next_obj m + (if map_of l t = None then 1 else 0) \<and> deleted m' = deleted m"
proof (cases "map_of l t")
  case None
  then show ?thesis
    using assms map_find_holds[OF assms(1), of t l]
    by (simp add: pm_get_def find_or_create_def holds_def Let_def get_deleter_def map_of_eq_None_iff[symmetric])
next
  case (Some i)
  then show ?thesis
    using assms map_find_holds[OF assms(1), of t l] by (simp add: pm_get_def find_or_create_def holds_def)
qed

text \<open>A run of calls of \<open>get\<close>, and what every run keeps: the objects made so far are the objects of the map.\<close>

fun pm_gets :: "('t \<Rightarrow> type_info) \<Rightarrow> 't list \<Rightarrow> 't pmap \<Rightarrow> 't pmap \<times> nat list res" where
  "pm_gets key [] m = (m, Inr [])"
| "pm_gets key (t # ts) m = (case pm_get key t None m of
     (m1, Inl e) \<Rightarrow> (m1, Inl e)
   | (m1, Inr i) \<Rightarrow> (case pm_gets key ts m1 of (m2, r) \<Rightarrow> (m2, and_then r (\<lambda>is. Inr (i # is)))))"

lemma pm_gets_holds:
  assumes "\<And>s t. ti_eq (key s) (key t) \<longleftrightarrow> s = t"
  shows "holds key l m \<Longrightarrow> map snd l = rev [0..<next_obj m] \<Longrightarrow> deleted m = [] \<Longrightarrow>
    \<exists>m' l'. pm_gets key ts m = (m', Inr (map (the \<circ> map_of l') ts)) \<and> holds key l' m' \<and>
      map snd l' = rev [0..<next_obj m'] \<and> deleted m' = [] \<and> (\<forall>t i. map_of l t = Some i \<longrightarrow> map_of l' t = Some i) \<and>
      set ts \<subseteq> fst ` set l'"
proof (induction ts arbitrary: l m)
  case (Cons t ts)
  define i where "i = (case map_of l t of Some i \<Rightarrow> i | None \<Rightarrow> next_obj m)"
  define l1 where "l1 = (if map_of l t = None then (t, next_obj m) # l else l)"
  obtain m1 where m1: "pm_get key t None m = (m1, Inr i)" "holds key l1 m1"
    "next_obj m1 = next_obj m + (if map_of l t = None then 1 else 0)" "deleted m1 = deleted m"
    using pm_get_holds[OF assms Cons.prems(1), of t] unfolding i_def l1_def by blast
  have "map snd l1 = rev [0..<next_obj m1]" "deleted m1 = []"
    using Cons.prems(2,3) m1(3,4) by (auto simp: l1_def)
  from Cons.IH[OF m1(2) this] obtain m' l' where m': "pm_gets key ts m1 = (m', Inr (map (the \<circ> map_of l') ts))"
    "holds key l' m'" "map snd l' = rev [0..<next_obj m']" "deleted m' = []"
    "\<And>t i. map_of l1 t = Some i \<Longrightarrow> map_of l' t = Some i" "set ts \<subseteq> fst ` set l'"
    by blast
  have i: "map_of l' t = Some i" using m'(5)[of t i] by (auto simp: l1_def i_def split: option.splits if_splits)
  have "\<forall>t' i'. map_of l t' = Some i' \<longrightarrow> map_of l' t' = Some i'" 
  proof (intro allI impI)
    fix t' i' assume "map_of l t' = Some i'"
    then have "map_of l1 t' = Some i'" by (auto simp: l1_def)
    then show "map_of l' t' = Some i'" by (rule m'(5))
  qed
  moreover have "t \<in> fst ` set l'" using i by (metis domI dom_map_of_conv_image_fst)
  ultimately show ?case using m1(1) m' i by (intro exI[of _ m'] exI[of _ l']) simp
qed (auto intro!: exI)

text \<open>
  Two requests give the same object exactly when they are for the same type, and clearing the map afterwards deletes
  every object once, as an object of its type.
\<close>

theorem polymorphic_map_objects:
  assumes "\<And>s t. ti_eq (key s) (key t) \<longleftrightarrow> s = t"
  shows "\<exists>m is. pm_gets key ts pm_new = (m, Inr is) \<and> length is = length ts \<and>
    (\<forall>i < length ts. \<forall>j < length ts. is ! i = is ! j \<longleftrightarrow> ts ! i = ts ! j) \<and>
    map fst (deleted (pm_clear m)) = rev [0..<next_obj m] \<and> (\<forall>i < length ts. (is ! i, ts ! i) \<in> set (deleted (pm_clear m)))"
proof -
  have "holds key [] (pm_new :: 'a pmap)" "map snd [] = rev [0..<next_obj (pm_new :: 'a pmap)]" "deleted (pm_new :: 'a pmap) = []"
    by (simp_all add: holds_def pm_new_def)
  from pm_gets_holds[OF assms this, of ts] obtain m l where
    m: "pm_gets key ts pm_new = (m, Inr (map (the \<circ> map_of l) ts))" "holds key l m" "map snd l = rev [0..<next_obj m]"
      "deleted m = []" "set ts \<subseteq> fst ` set l" by blast
  have d: "deleted (pm_clear m) = map (\<lambda>(t, i). (i, t)) l"
    using m(2,4) by (simp add: pm_clear_def holds_def comp_def container_destroy_def split_beta)
  have "distinct (map fst l)" using m(2) by (simp add: holds_def)
  have "distinct (map snd l)" unfolding m(3) by simp
  have in_l: "(t, the (map_of l t)) \<in> set l" if "t \<in> set ts" for t
  proof -
    from that m(5) obtain i where "(t, i) \<in> set l" by auto
    then show ?thesis using \<open>distinct (map fst l)\<close> by simp
  qed
  have "the (map_of l s) = the (map_of l t) \<longleftrightarrow> s = t" if "s \<in> set ts" "t \<in> set ts" for s t
    using in_l[OF that(1)] in_l[OF that(2)] \<open>distinct (map snd l)\<close>
    by (metis (no_types, lifting) distinct_map inj_onD prod.sel)
  moreover have "map fst (deleted (pm_clear m)) = rev [0..<next_obj m]"
    using m(3) by (simp add: d comp_def split_beta)
  moreover have "(the (map_of l t), t) \<in> set (deleted (pm_clear m))" if "t \<in> set ts" for t
    using in_l[OF that] by (force simp: d)
  ultimately show ?thesis using m(1) by (intro exI[of _ m]) simp
qed

text \<open>When a constructor throws, the next request for the type dereferences a null pointer.\<close>

lemma pm_get_after_throw:
  assumes "ti_eq (key t) (key t)" "pm_get key t (Some e) m = (m', Inl e)" "\<not> pm_contains key t m"
  shows "pm_get key t None m' = (m', Inl UB)"
  using assms by (auto simp: pm_get_def find_or_create_def pm_contains_def get_deleter_def Let_def split: option.splits)

end
