(* ===== verification/Injector.thy ===== *)
theory Injector
  imports TxlPrelude
begin

text \<open>
  \<^verbatim>\<open>include/txl/injector.h\<close>: objects found by their type, or made by a factory when they are first asked for. A factory is
  what it asks the injector for and what it does with the pointers: a tree of requests that ends in a pointer, \<open>None\<close> for the
  null pointer. A factory does not add types. \<open>factories\<close> holds the data of every added object in the order of the calls;
  a type leads to the data it was first added with.
\<close>

datatype 't prog = Ret "nat option" | Ask 't "nat option \<Rightarrow> 't prog"

record 't injector_data =
  factory :: "'t prog"
  data_ptr :: "nat option"

record 't injector =
  factories :: "'t injector_data list"
  types :: "'t \<rightharpoonup> nat"

definition inj_new :: "'t injector" where
  "inj_new = \<lparr>factories = [], types = Map.empty\<rparr>"

definition data_create :: "'t prog \<Rightarrow> 't injector_data" where
  "data_create f = \<lparr>factory = f, data_ptr = None\<rparr>"

definition types_emplace :: "'t \<Rightarrow> nat \<Rightarrow> ('t \<rightharpoonup> nat) \<Rightarrow> ('t \<rightharpoonup> nat)" where
  "types_emplace t i m = (if m t = None then m(t \<mapsto> i) else m)"

fun add_types :: "'t list \<Rightarrow> nat \<Rightarrow> ('t \<rightharpoonup> nat) \<Rightarrow> ('t \<rightharpoonup> nat)" where
  "add_types [] i m = m"
| "add_types (t # ts) i m = add_types ts i (types_emplace t i m)"

definition inj_factory :: "'t list \<Rightarrow> 't prog \<Rightarrow> 't injector \<Rightarrow> 't injector" where
  "inj_factory ts f i = i\<lparr>factories := factories i @ [data_create f], types := add_types ts (length (factories i)) (types i)\<rparr>"

text \<open>\<open>add(d)\<close> for the types \<open>ts\<close>; \<open>p\<close> is the address of \<open>d\<close>.\<close>

definition inj_add :: "'t list \<Rightarrow> nat \<Rightarrow> 't injector \<Rightarrow> 't injector" where
  "inj_add ts p = inj_factory ts (Ret (Some p))"

definition set_data :: "nat \<Rightarrow> nat option \<Rightarrow> 't injector \<Rightarrow> 't injector" where
  "set_data j p i = i\<lparr>factories := (factories i)[j := (factories i ! j)\<lparr>data_ptr := p\<rparr>]\<rparr>"

text \<open>What a factory does, with the requests it makes; \<open>None\<close>: it never returns.\<close>

partial_function (option) inj_run :: "'t prog \<Rightarrow> 't injector \<Rightarrow> (nat option \<times> 't injector) option" where
  "inj_run f i = (case f of
     Ret p \<Rightarrow> Some (p, i)
   | Ask t k \<Rightarrow> (case types i t of
       None \<Rightarrow> inj_run (k None) i
     | Some j \<Rightarrow> (case data_ptr (factories i ! j) of
         Some p \<Rightarrow> inj_run (k (Some p)) i
       | None \<Rightarrow> Option.bind (inj_run (factory (factories i ! j)) i)
                   (\<lambda>r. inj_run (k (fst r)) (set_data j (fst r) (snd r))))))"

declare inj_run.simps [simp del]

definition inj_get :: "'t \<Rightarrow> 't injector \<Rightarrow> (nat option \<times> 't injector) option" where
  "inj_get t i = inj_run (Ask t Ret) i"

lemma inj_run_simps [simp]:
  "inj_run (Ret p) i = Some (p, i)"
  "inj_run (Ask t k) i = (case types i t of
       None \<Rightarrow> inj_run (k None) i
     | Some j \<Rightarrow> (case data_ptr (factories i ! j) of
         Some p \<Rightarrow> inj_run (k (Some p)) i
       | None \<Rightarrow> Option.bind (inj_run (factory (factories i ! j)) i)
                   (\<lambda>r. inj_run (k (fst r)) (set_data j (fst r) (snd r)))))"
  by (subst inj_run.simps, simp)+

section \<open>Factories without a cycle return\<close>

text \<open>Every request of the program is for a type of a lower rank.\<close>

primrec below :: "('t \<Rightarrow> nat) \<Rightarrow> nat \<Rightarrow> 't prog \<Rightarrow> bool" where
  "below rank n (Ret p) = True"
| "below rank n (Ask t k) \<longleftrightarrow> rank t < n \<and> (\<forall>p. below rank n (k p))"

definition inj_wf :: "('t \<Rightarrow> nat) \<Rightarrow> 't injector \<Rightarrow> bool" where
  "inj_wf rank i \<longleftrightarrow> (\<forall>t j. types i t = Some j \<longrightarrow> j < length (factories i) \<and> below rank (rank t) (factory (factories i ! j)))"

text \<open>What a run keeps: types and factories, and the pointers that are there.\<close>

definition extends :: "'t injector \<Rightarrow> 't injector \<Rightarrow> bool" where
  "extends i i' \<longleftrightarrow> types i' = types i \<and> map factory (factories i') = map factory (factories i) \<and>
     (\<forall>j < length (factories i). data_ptr (factories i ! j) \<noteq> None \<longrightarrow>
        data_ptr (factories i' ! j) = data_ptr (factories i ! j))"

lemma extends_refl [simp]: "extends i i"
  by (simp add: extends_def)

lemma extends_length: "extends i i' \<Longrightarrow> length (factories i') = length (factories i)"
  unfolding extends_def by (metis length_map)

lemma extends_trans: "extends i i' \<Longrightarrow> extends i' i'' \<Longrightarrow> extends i i''"
  using extends_length[of i i'] by (auto simp: extends_def)

lemma extends_factory:
  "extends i i' \<Longrightarrow> j < length (factories i) \<Longrightarrow> factory (factories i' ! j) = factory (factories i ! j)"
  using extends_length[of i i'] unfolding extends_def by (metis nth_map)

lemma extends_wf: "extends i i' \<Longrightarrow> inj_wf rank i \<Longrightarrow> inj_wf rank i'"
  using extends_length[of i i'] extends_factory[of i i'] by (auto simp: inj_wf_def extends_def)

lemma set_data_simps:
  "types (set_data j p i) = types i" "map factory (factories (set_data j p i)) = map factory (factories i)"
  "l < length (factories i) \<Longrightarrow> data_ptr (factories (set_data j p i) ! l) = (if l = j then p else data_ptr (factories i ! l))"
proof -
  show "map factory (factories (set_data j p i)) = map factory (factories i)"
  proof (cases "j < length (factories i)")
    case True
    then have "map factory (factories i) ! j = factory (factories i ! j)" by simp
    then show ?thesis by (simp add: set_data_def map_update list_update_same_conv True)
  next
    case False
    then show ?thesis by (simp add: set_data_def list_update_beyond)
  qed
qed (simp_all add: set_data_def nth_list_update)

lemma extends_set_data:
  assumes "extends i i'" "data_ptr (factories i ! j) = None"
  shows "extends i (set_data j p i')"
  using assms extends_length[OF assms(1)] unfolding extends_def by (auto simp: set_data_simps)

lemma inj_run_returns:
  "inj_wf rank i \<Longrightarrow> below rank n f \<Longrightarrow> \<exists>p i'. inj_run f i = Some (p, i') \<and> extends i i'"
proof (induction n arbitrary: f i rule: less_induct)
  case (less n)
  from less.prems show ?case
  proof (induction f arbitrary: i)
    case (Ask t k)
    have k: "\<exists>p' i'. inj_run (k p) i1 = Some (p', i') \<and> extends i i'" if "extends i i1" for p i1
      using Ask.IH[of "k p" i1] extends_wf[OF that Ask.prems(1)] Ask.prems(2) extends_trans[OF that]
      by (fastforce simp: range_eqI)
    show ?case
    proof (cases "types i t")
      case None
      then show ?thesis using k[of i None] by simp
    next
      case (Some j)
      show ?thesis
      proof (cases "data_ptr (factories i ! j)")
        case None
        have "rank t < n" "below rank (rank t) (factory (factories i ! j))"
          using Ask.prems Some by (auto simp: inj_wf_def)
        from less.IH[OF this(1) Ask.prems(1) this(2)] obtain p i1 where
          r: "inj_run (factory (factories i ! j)) i = Some (p, i1)" "extends i i1" by blast
        then show ?thesis using k[OF extends_set_data[OF r(2) None], of p p] Some None by simp
      next
        case (Some p)
        then show ?thesis using \<open>types i t = Some j\<close> k[of i "Some p"] by simp
      qed
    qed
  qed simp
qed

text \<open>
  When every factory asks only for types of a lower rank, \<open>get\<close> returns; the pointer of a type that is known is kept,
  so that a second request gives the same one.
\<close>

theorem injector_get:
  assumes "inj_wf rank i" "types i t = Some j"
  shows "\<exists>p i'. inj_get t i = Some (p, i') \<and> (p \<noteq> None \<longrightarrow> inj_get t i' = Some (p, i'))"
proof -
  have j: "j < length (factories i)" using assms by (auto simp: inj_wf_def)
  show ?thesis
  proof (cases "data_ptr (factories i ! j)")
    case None
    from assms have "below rank (rank t) (factory (factories i ! j))" by (auto simp: inj_wf_def)
    from inj_run_returns[OF assms(1) this] obtain p i1 where
      r: "inj_run (factory (factories i ! j)) i = Some (p, i1)" "extends i i1" by blast
    then have "types i1 = types i" "j < length (factories i1)" using extends_length[OF r(2)] j by (auto simp: extends_def)
    then show ?thesis
      using r None assms(2) by (intro exI[of _ p] exI[of _ "set_data j p i1"]) (auto simp: inj_get_def set_data_def)
  next
    case (Some p)
    then show ?thesis using assms(2) by (simp add: inj_get_def)
  qed
qed

text \<open>A factory that asks for its own type never returns.\<close>

definition asks_itself :: "'t \<Rightarrow> ('t prog \<Rightarrow> 't injector \<Rightarrow> nat option \<times> 't injector \<Rightarrow> bool)" where
  "asks_itself t f i r \<longleftrightarrow> \<not> (\<exists>j k. types i t = Some j \<and> data_ptr (factories i ! j) = None \<and> factory (factories i ! j) = Ask t k \<and> f = Ask t k)"

lemma inj_get_cycle:
  assumes "types i t = Some j" "data_ptr (factories i ! j) = None" "factory (factories i ! j) = Ask t k"
  shows "inj_get t i = None"
proof -
  have safe: "asks_itself t f i r" if "inj_run f i = Some r" for f i r
  proof (induction rule: inj_run.raw_induct[where P = "asks_itself t", OF _ that])
    case (1 run f i r)
    show ?case unfolding asks_itself_def
    proof
      assume "\<exists>j k. types i t = Some j \<and> data_ptr (factories i ! j) = None \<and> factory (factories i ! j) = Ask t k \<and> f = Ask t k"
      then obtain j k where c: "types i t = Some j" "data_ptr (factories i ! j) = None" "factory (factories i ! j) = Ask t k" "f = Ask t k"
        by blast
      with 1(2) obtain r' where "run (Ask t k) i = Some r'" by (auto simp: bind_eq_Some_conv)
      with 1(1) have "asks_itself t (Ask t k) i r'" by blast
      then show False using c by (auto simp: asks_itself_def)
    qed
  qed
  have n: "inj_run (Ask t k) i = None"
  proof (cases "inj_run (Ask t k) i")
    case (Some r)
    from safe[OF this] assms show ?thesis unfolding asks_itself_def by blast
  qed
  then show ?thesis using assms by (simp add: inj_get_def inj_run.simps[of "Ask t Ret"] del: inj_run_simps)
qed

end
