(* ===== verification/Files.thy ===== *)
theory Files
  imports SystemCalls
begin

text \<open>
  \<^verbatim>\<open>include/txl/file.h\<close>, \<^verbatim>\<open>sendfile.h\<close>, \<^verbatim>\<open>linux.h\<close> and \<^verbatim>\<open>memory_map.h\<close>: files as owned descriptors and memory maps. The system calls are
  arguments, with their C prototypes; the flags have their numbers on Linux. A call that fills a buffer answers with its result and the
  bytes it wrote.
\<close>

section \<open>Opening\<close>

definition O_RDONLY :: int where "O_RDONLY = 0"
definition O_WRONLY :: int where "O_WRONLY = 1"
definition O_RDWR :: int where "O_RDWR = 2"
definition O_CREAT :: int where "O_CREAT = 64"
definition O_TRUNC :: int where "O_TRUNC = 512"
definition O_APPEND :: int where "O_APPEND = 1024"

definition get_file_mode :: "string \<Rightarrow> int sysres" where
  "get_file_mode s =
     (if s = ''r'' then Inr O_RDONLY
      else if s = ''w'' then Inr (or (or O_WRONLY O_CREAT) O_TRUNC)
      else if s = ''a'' then Inr (or (or O_WRONLY O_CREAT) O_APPEND)
      else if s = ''r+'' then Inr O_RDWR
      else if s = ''w+'' then Inr (or (or O_RDWR O_CREAT) O_TRUNC)
      else if s = ''a+'' then Inr (or (or O_RDWR O_CREAT) O_APPEND)
      else Inl EINVAL)"

type_synonym 'k sys_open = "string \<Rightarrow> int \<Rightarrow> int \<Rightarrow> 'k \<Rightarrow> int \<times> 'k"

definition DEFAULT_FILE_PERMS :: int where "DEFAULT_FILE_PERMS = or (or 256 128) 32"

definition file_open :: "('k \<Rightarrow> int) \<Rightarrow> 'k sys_open \<Rightarrow> string \<Rightarrow> string \<Rightarrow> int \<Rightarrow> 'k \<Rightarrow> unit sysres \<times> int \<times> 'k" where
  "file_open errno opn name mode f k =
     (if fb_is_open f then (Inl EACCES, f, k)
      else case get_file_mode mode of
        Inl e \<Rightarrow> (Inl e, f, k)
      | Inr m \<Rightarrow> (case opn name m DEFAULT_FILE_PERMS k of (r, k') \<Rightarrow> (handle_system_error errno r () k', r, k')))"

text \<open>The constructor that opens: \<open>Inl\<close> is the error it throws.\<close>

definition file_new :: "('k \<Rightarrow> int) \<Rightarrow> 'k sys_open \<Rightarrow> string \<Rightarrow> string \<Rightarrow> 'k \<Rightarrow> int sysres \<times> 'k" where
  "file_new errno opn name mode k =
     (case file_open errno opn name mode fb_new k of (Inl e, f, k') \<Rightarrow> (Inl e, k') | (Inr u, f, k') \<Rightarrow> (Inr f, k'))"

lemma file_open_fb_open:
  "get_file_mode mode = Inr m \<Longrightarrow> file_open errno opn name mode = fb_open errno (opn name m DEFAULT_FILE_PERMS) EACCES"
  by (simp add: file_open_def fb_open_def fun_eq_iff)

section \<open>Reading and writing\<close>

definition size_of :: "int \<Rightarrow> nat" where "size_of r = nat (r mod 2 ^ 64)"

definition file_pread_impl :: "('k \<Rightarrow> int) \<Rightarrow> (int \<Rightarrow> nat \<Rightarrow> int \<Rightarrow> 'k \<Rightarrow> int \<times> 8 word list \<times> 'k) \<Rightarrow> int \<Rightarrow> int \<Rightarrow> nat \<Rightarrow> 'k \<Rightarrow>
    nat sysres \<times> 8 word list \<times> 'k" where
  "file_pread_impl errno prd f off n k =
     (case prd f n off k of (r, bs, k') \<Rightarrow> (handle_system_error errno r (size_of r) k', bs, k'))"

text \<open>\<open>reader::read\<close> on the buffer \<open>buf\<close>: the part of the buffer that was filled. The buffer is changed also when the call fails.\<close>

definition file_read :: "('k \<Rightarrow> int) \<Rightarrow> (int \<Rightarrow> nat \<Rightarrow> 'k \<Rightarrow> int \<times> 8 word list \<times> 'k) \<Rightarrow> int \<Rightarrow> 8 word list \<Rightarrow> 'k \<Rightarrow>
    8 word list sysres \<times> 8 word list \<times> 'k" where
  "file_read errno rd f buf k =
     (case fb_read errno rd f (length buf) k of (r, bs, k') \<Rightarrow>
        let buf' = bs @ drop (length bs) buf
        in (case r of Inl e \<Rightarrow> Inl e | Inr n \<Rightarrow> Inr (take n buf'), buf', k'))"

definition file_pread :: "('k \<Rightarrow> int) \<Rightarrow> (int \<Rightarrow> nat \<Rightarrow> int \<Rightarrow> 'k \<Rightarrow> int \<times> 8 word list \<times> 'k) \<Rightarrow> int \<Rightarrow> int \<Rightarrow> 8 word list \<Rightarrow> 'k \<Rightarrow>
    8 word list sysres \<times> 8 word list \<times> 'k" where
  "file_pread errno prd f off buf k =
     (case file_pread_impl errno prd f off (length buf) k of (r, bs, k') \<Rightarrow>
        let buf' = bs @ drop (length bs) buf
        in (case r of Inl e \<Rightarrow> Inl e | Inr n \<Rightarrow> Inr (take n buf'), buf', k'))"

definition file_pwrite :: "('k \<Rightarrow> int) \<Rightarrow> (int \<Rightarrow> 8 word list \<Rightarrow> int \<Rightarrow> 'k \<Rightarrow> int \<times> 'k) \<Rightarrow> int \<Rightarrow> int \<Rightarrow> 8 word list \<Rightarrow> 'k \<Rightarrow>
    8 word list sysres \<times> 'k" where
  "file_pwrite errno pwr f off buf k =
     (case pwr f buf off k of (r, k') \<Rightarrow>
        (case handle_system_error errno r (size_of r) k' of Inl e \<Rightarrow> (Inl e, k') | Inr n \<Rightarrow> (Inr (take n buf), k')))"

section \<open>The position\<close>

type_synonym 'k sys_lseek = "int \<Rightarrow> int \<Rightarrow> int \<Rightarrow> 'k \<Rightarrow> int \<times> 'k"

definition SEEK_SET :: int where "SEEK_SET = 0"
definition SEEK_CUR :: int where "SEEK_CUR = 1"
definition SEEK_END :: int where "SEEK_END = 2"

definition file_seek :: "('k \<Rightarrow> int) \<Rightarrow> 'k sys_lseek \<Rightarrow> int \<Rightarrow> int \<Rightarrow> int \<Rightarrow> 'k \<Rightarrow> int sysres \<times> 'k" where
  "file_seek errno lseek f off whence k = (case lseek f off whence k of (r, k') \<Rightarrow> (handle_system_error errno r r k', k'))"

definition file_tell :: "('k \<Rightarrow> int) \<Rightarrow> 'k sys_lseek \<Rightarrow> int \<Rightarrow> 'k \<Rightarrow> int sysres \<times> 'k" where
  "file_tell errno lseek f k = file_seek errno lseek f 0 SEEK_CUR k"

definition seekable_size :: "('k \<Rightarrow> int) \<Rightarrow> 'k sys_lseek \<Rightarrow> int \<Rightarrow> 'k \<Rightarrow> nat sysres \<times> 'k" where
  "seekable_size errno lseek f k =
     (case file_tell errno lseek f k of
        (Inl e, k1) \<Rightarrow> (Inl e, k1)
      | (Inr pos, k1) \<Rightarrow>
          (case file_seek errno lseek f 0 SEEK_END k1 of
             (Inl e, k2) \<Rightarrow> (Inl e, k2)
           | (Inr end_pos, k2) \<Rightarrow>
               (case file_seek errno lseek f pos SEEK_SET k2 of
                  (Inl e, k3) \<Rightarrow> (Inl e, k3)
                | (Inr r, k3) \<Rightarrow> (Inr (size_of end_pos), k3))))"

definition file_truncate :: "('k \<Rightarrow> int) \<Rightarrow> (int \<Rightarrow> nat \<Rightarrow> 'k \<Rightarrow> int \<times> 'k) \<Rightarrow> int \<Rightarrow> nat \<Rightarrow> 'k \<Rightarrow> unit sysres \<times> 'k" where
  "file_truncate errno ftruncate f n k = (case ftruncate f n k of (r, k') \<Rightarrow> (handle_system_error errno r () k', k'))"

definition as_off :: "nat \<Rightarrow> int" where "as_off n = signed_take_bit 63 (int n)"

definition punch_hole :: "('k \<Rightarrow> int) \<Rightarrow> (int \<Rightarrow> int \<Rightarrow> int \<Rightarrow> int \<Rightarrow> 'k \<Rightarrow> int \<times> 'k) \<Rightarrow> int \<Rightarrow> int \<Rightarrow> nat \<Rightarrow> 'k \<Rightarrow> unit sysres \<times> 'k" where
  "punch_hole errno fallocate f off n k =
     (case fallocate f (or 1 2) off (as_off n) k of (r, k') \<Rightarrow> (handle_system_error errno r () k', k'))"

definition collapse_range :: "('k \<Rightarrow> int) \<Rightarrow> (int \<Rightarrow> int \<Rightarrow> int \<Rightarrow> int \<Rightarrow> 'k \<Rightarrow> int \<times> 'k) \<Rightarrow> int \<Rightarrow> int \<Rightarrow> nat \<Rightarrow> 'k \<Rightarrow> unit sysres \<times> 'k" where
  "collapse_range errno fallocate f off n k =
     (case fallocate f 8 off (as_off n) k of (r, k') \<Rightarrow> (handle_system_error errno r () k', k'))"

definition file_sync :: "('k \<Rightarrow> int) \<Rightarrow> (int \<Rightarrow> 'k \<Rightarrow> int \<times> 'k) \<Rightarrow> int \<Rightarrow> 'k \<Rightarrow> unit sysres \<times> 'k" where
  "file_sync errno fsync f k = (case fsync f k of (r, k') \<Rightarrow> (handle_system_error errno r () k', k'))"

text \<open>\<open>get_vfs_info\<close>; the number of free blocks is the only field that is read.\<close>

definition get_vfs_info :: "('k \<Rightarrow> int) \<Rightarrow> (int \<Rightarrow> 'k \<Rightarrow> int \<times> nat \<times> 'k) \<Rightarrow> int \<Rightarrow> 'k \<Rightarrow> nat sysres \<times> 'k" where
  "get_vfs_info errno fstatvfs f k = (case fstatvfs f k of (r, free, k') \<Rightarrow> (handle_system_error errno r free k', k'))"

section \<open>Sending a file to another\<close>

type_synonym 'k sys_sendfile = "int \<Rightarrow> int \<Rightarrow> int option \<Rightarrow> nat \<Rightarrow> 'k \<Rightarrow> int \<times> 'k"

definition send_file :: "('k \<Rightarrow> int) \<Rightarrow> 'k sys_sendfile \<Rightarrow> int \<Rightarrow> int \<Rightarrow> nat \<Rightarrow> int option \<Rightarrow> 'k \<Rightarrow> nat sysres \<times> 'k" where
  "send_file errno sf src dst n off k = (case sf dst src off n k of (r, k') \<Rightarrow> (handle_system_error errno r (size_of r) k', k'))"

definition file_copy_from :: "('k \<Rightarrow> int) \<Rightarrow> 'k sys_sendfile \<Rightarrow> int \<Rightarrow> int \<Rightarrow> nat \<Rightarrow> int option \<Rightarrow> 'k \<Rightarrow> nat sysres \<times> 'k" where
  "file_copy_from errno sf this src = send_file errno sf src this"

definition file_copy_to :: "('k \<Rightarrow> int) \<Rightarrow> 'k sys_sendfile \<Rightarrow> int \<Rightarrow> int \<Rightarrow> nat \<Rightarrow> int option \<Rightarrow> 'k \<Rightarrow> nat sysres \<times> 'k" where
  "file_copy_to errno sf this dst = send_file errno sf this dst"

section \<open>Sizes and positions\<close>

text \<open>What is documented of \<^verbatim>\<open>lseek\<close> on a regular file: \<open>pos\<close> and \<open>len\<close> are its position and its length.\<close>

definition lseek_law :: "('k \<Rightarrow> int) \<Rightarrow> ('k \<Rightarrow> int) \<Rightarrow> (int \<Rightarrow> 'k \<Rightarrow> 'k) \<Rightarrow> 'k sys_lseek \<Rightarrow> bool" where
  "lseek_law pos len set_pos lseek \<longleftrightarrow> (\<forall>f k. lseek f 0 SEEK_CUR k = (pos k, k) \<and>
     lseek f 0 SEEK_END k = (len k, set_pos (len k) k) \<and> (\<forall>off. lseek f off SEEK_SET k = (off, set_pos off k)) \<and>
     set_pos (pos k) k = k \<and> (\<forall>p q. set_pos p (set_pos q k) = set_pos p k))"

text \<open>
  The size of a file is its length, and the position is where it was; the answers of \<^verbatim>\<open>lseek\<close> must not look like \<open>-1\<close> in their
  lower 32 bits.
\<close>

theorem seekable_size_correct:
  assumes "lseek_law pos len set_pos lseek" "0 \<le> len k" "len k < 2 ^ 63" "as_int (pos k) \<noteq> - 1" "as_int (len k) \<noteq> - 1"
  shows "seekable_size errno lseek f k = (Inr (nat (len k)), k)"
proof -
  have "lseek f 0 SEEK_CUR k = (pos k, k)" "lseek f 0 SEEK_END k = (len k, set_pos (len k) k)"
    "lseek f (pos k) SEEK_SET (set_pos (len k) k) = (pos k, k)"
    using assms(1) by (simp_all add: lseek_law_def)
  then show ?thesis
    using assms(2-5) by (simp add: seekable_size_def file_tell_def file_seek_def handle_system_error_def size_of_def)
qed

text \<open>A file of \<open>2^32 - 1\<close> bytes, or of that many more than a multiple of \<open>2^32\<close>: an error, and the position is at the end.\<close>

lemma seekable_size_narrowed:
  assumes "lseek_law pos len set_pos lseek" "as_int (pos k) \<noteq> - 1" "len k mod 2 ^ 32 = 2 ^ 32 - 1"
  shows "seekable_size errno lseek f k = (Inl (errno (set_pos (len k) k)), set_pos (len k) k)"
proof -
  have "lseek f 0 SEEK_CUR k = (pos k, k)" "lseek f 0 SEEK_END k = (len k, set_pos (len k) k)"
    using assms(1) by (simp_all add: lseek_law_def)
  moreover have "as_int (len k) = - 1" using assms(3) as_int_minus_one by blast
  ultimately show ?thesis
    using assms(2) by (simp add: seekable_size_def file_tell_def file_seek_def handle_system_error_def)
qed

text \<open>What is documented of \<^verbatim>\<open>read\<close>: it writes as many bytes as it answers. Then the caller sees just these bytes.\<close>

lemma file_read_bytes:
  assumes "rd f (length buf) k = (int (length bs), bs, k')" "length bs \<le> length buf" "length bs < 2 ^ 31"
  shows "file_read errno rd f buf k = (Inr bs, bs @ drop (length bs) buf, k')"
  using assms as_int_small[of "int (length bs)"]
  by (simp add: file_read_def fb_read_def handle_system_error_def)

lemma file_open_twice: "fb_is_open f \<Longrightarrow> file_open errno opn name mode f k = (Inl EACCES, f, k)"
  by (simp add: file_open_def)

section \<open>Memory maps\<close>

text \<open>An address of \<open>0\<close> is the null pointer; \<open>MAP_FAILED\<close> is the pointer \<open>-1\<close>.\<close>

record memory_map =
  map_addr :: nat
  map_size :: nat

definition MAP_FAILED :: nat where "MAP_FAILED = 2 ^ 64 - 1"

definition mm_new :: memory_map where "mm_new = \<lparr>map_addr = 0, map_size = 0\<rparr>"

definition mm_is_open :: "memory_map \<Rightarrow> bool" where
  "mm_is_open m \<longleftrightarrow> map_addr m \<noteq> 0 \<and> map_size m \<noteq> 0"

text \<open>The flags a caller can give, with their numbers, and their union.\<close>

definition prot_read :: int where "prot_read = 1"
definition prot_write :: int where "prot_write = 2"
definition map_anonymous :: int where "map_anonymous = 32"
definition map_uninitialized :: int where "map_uninitialized = 67108864"

definition prot_or :: "int \<Rightarrow> int \<Rightarrow> int" where "prot_or x y = or x y"
definition oflags_or :: "int \<Rightarrow> int \<Rightarrow> int" where "oflags_or x y = or x y"

text \<open>The move constructor and the move assignment exchange the members: what both objects are afterwards.\<close>

definition mm_move :: "memory_map \<Rightarrow> memory_map \<times> memory_map" where
  "mm_move m = (m, mm_new)"

definition mm_assign :: "memory_map \<Rightarrow> memory_map \<Rightarrow> memory_map \<times> memory_map" where
  "mm_assign this m = (m, this)"

type_synonym 'k sys_mmap = "nat \<Rightarrow> nat \<Rightarrow> int \<Rightarrow> int \<Rightarrow> int \<Rightarrow> int \<Rightarrow> 'k \<Rightarrow> nat \<times> 'k"

definition mm_open :: "('k \<Rightarrow> int) \<Rightarrow> 'k sys_mmap \<Rightarrow> nat \<Rightarrow> int \<Rightarrow> bool \<Rightarrow> int \<Rightarrow> nat option \<Rightarrow> int option \<Rightarrow> int option \<Rightarrow>
    memory_map \<Rightarrow> 'k \<Rightarrow> unit sysres \<times> memory_map \<times> 'k" where
  "mm_open errno mmap n p_flags shared o_flags hint fd off m k =
     (if mm_is_open m then (Inl EBUSY, m, k)
      else case mmap (case hint of None \<Rightarrow> 0 | Some a \<Rightarrow> a) n p_flags (or (if shared then 1 else 2) o_flags)
             (case fd of None \<Rightarrow> - 1 | Some f \<Rightarrow> f) (case off of None \<Rightarrow> 0 | Some i \<Rightarrow> i) k of
        (a, k') \<Rightarrow> if a = MAP_FAILED then (Inl (errno k'), m\<lparr>map_addr := a\<rparr>, k')
                  else (Inr (), m\<lparr>map_addr := a, map_size := n\<rparr>, k'))"

definition mm_close :: "('k \<Rightarrow> int) \<Rightarrow> (nat \<Rightarrow> nat \<Rightarrow> 'k \<Rightarrow> int \<times> 'k) \<Rightarrow> memory_map \<Rightarrow> 'k \<Rightarrow> unit sysres \<times> memory_map \<times> 'k" where
  "mm_close errno munmap m k =
     (case munmap (map_addr m) (map_size m) k of (r, k') \<Rightarrow>
        (case handle_system_error errno r () k' of Inl e \<Rightarrow> (Inl e, m, k') | Inr u \<Rightarrow> (Inr u, mm_new, k')))"

definition mm_destroy :: "('k \<Rightarrow> int) \<Rightarrow> (nat \<Rightarrow> nat \<Rightarrow> 'k \<Rightarrow> int \<times> 'k) \<Rightarrow> memory_map \<Rightarrow> 'k \<Rightarrow> 'k" where
  "mm_destroy errno munmap m k = (if mm_is_open m then snd (snd (mm_close errno munmap m k)) else k)"

text \<open>\<open>memory()\<close> as the pair of a pointer and a length.\<close>

definition mm_memory :: "memory_map \<Rightarrow> nat \<times> nat" where
  "mm_memory m = (map_addr m, map_size m)"

definition mm_sync :: "('k \<Rightarrow> int) \<Rightarrow> (nat \<Rightarrow> nat \<Rightarrow> int \<Rightarrow> 'k \<Rightarrow> int \<times> 'k) \<Rightarrow> nat \<times> nat \<Rightarrow> bool \<Rightarrow> bool \<Rightarrow> 'k \<Rightarrow> unit sysres \<times> 'k" where
  "mm_sync errno msync mem async inval k =
     (case msync (fst mem) (snd mem) (or (if inval then 2 else 0) (if async then 1 else 4)) k of
        (r, k') \<Rightarrow> (handle_system_error errno r () k', k'))"

text \<open>A map that could not be opened is closed, and can be opened again; one that is open is unmapped once.\<close>

lemma mm_open_failed:
  "map_size m = 0 \<Longrightarrow> mm_open errno mmap n p s fl h fd off m k = (Inl e, m', k') \<Longrightarrow> \<not> mm_is_open m'"
  by (auto simp: mm_open_def mm_is_open_def split: prod.splits if_splits)

lemma mm_open_close:
  assumes "mmap a0 n p fl f o0 k = (a, k1)" "a \<noteq> MAP_FAILED" "a \<noteq> 0" "n \<noteq> 0" "munmap a n k1 = (0, k2)"
    "a0 = (case h of None \<Rightarrow> 0 | Some a \<Rightarrow> a)" "fl = or (if s then 1 else 2) o_flags"
    "f = (case fd of None \<Rightarrow> - 1 | Some f \<Rightarrow> f)" "o0 = (case off of None \<Rightarrow> 0 | Some i \<Rightarrow> i)"
  shows "mm_open errno mmap n p s o_flags h fd off mm_new k = (Inr (), \<lparr>map_addr = a, map_size = n\<rparr>, k1)"
    "mm_destroy errno munmap \<lparr>map_addr = a, map_size = n\<rparr> k1 = k2"
  using assms by (simp_all add: mm_open_def mm_destroy_def mm_close_def mm_is_open_def mm_new_def
      handle_system_error_def as_int_def)

end
