(* ===== verification/Times.thy ===== *)
theory Times
  imports TxlPrelude "HOL-Library.Signed_Division"
begin

text \<open>
  \<^verbatim>\<open>include/txl/bitwise.h\<close>, \<^verbatim>\<open>backoff.h\<close> and the conversions of \<^verbatim>\<open>time.h\<close>. A duration is its count of nanoseconds or of
  microseconds, an integer that fits in 64 bits; C++ divides towards zero (\<open>sdiv\<close>). The calendar functions of C, which the other
  half of \<^verbatim>\<open>time.h\<close> calls, are not modelled.
\<close>

unbundle bit_operations_syntax

definition is_power_of_two :: "64 word \<Rightarrow> bool" where
  "is_power_of_two value \<longleftrightarrow> value \<noteq> 0 \<and> value AND (value - 1) = 0"

section \<open>Backoff\<close>

text \<open>The state is the next time to sleep, \<open>msk\<close> is the template argument; \<open>wait\<close> gives what the sleeper is called with.\<close>

definition backoff_new :: "64 word" where "backoff_new = 15"

definition backoff_wait :: "64 word \<Rightarrow> 64 word \<Rightarrow> 64 word \<times> 64 word" where
  "backoff_wait msk time = (time, (push_bit 1 time OR 1) AND msk)"

definition backoff_reset :: "64 word \<Rightarrow> 64 word" where "backoff_reset time = 15"

fun backoff_waits :: "64 word \<Rightarrow> nat \<Rightarrow> 64 word \<Rightarrow> 64 word list" where
  "backoff_waits msk 0 time = []"
| "backoff_waits msk (Suc n) time = (case backoff_wait msk time of (t, time') \<Rightarrow> t # backoff_waits msk n time')"

section \<open>Conversions\<close>

definition NANOS_PER_SECOND :: int where "NANOS_PER_SECOND = 1000000000"
definition MICROS_PER_SECOND :: int where "MICROS_PER_SECOND = 1000000"

record timespec =
  tv_sec :: int
  tv_nsec :: int

record timeval =
  tv_s :: int
  tv_usec :: int

definition to_timespec :: "int \<Rightarrow> timespec" where
  "to_timespec nanos = (let secs = nanos sdiv NANOS_PER_SECOND in \<lparr>tv_sec = secs, tv_nsec = nanos - secs * NANOS_PER_SECOND\<rparr>)"

text \<open>\<open>to_duration\<close> and \<open>to_time_point\<close>, to a unit of \<open>unit\<close> nanoseconds.\<close>

definition to_duration :: "int \<Rightarrow> timespec \<Rightarrow> int" where
  "to_duration unit ts = (tv_sec ts * NANOS_PER_SECOND + tv_nsec ts) sdiv unit"

definition to_time_point :: "int \<Rightarrow> timespec \<Rightarrow> int" where
  "to_time_point unit ts = to_duration unit ts"

definition seconds_to_time_point :: "int \<Rightarrow> int \<Rightarrow> int" where
  "seconds_to_time_point unit sec = sec * (NANOS_PER_SECOND sdiv unit)"

definition to_timeval :: "int \<Rightarrow> timeval" where
  "to_timeval micros = (let secs = micros sdiv MICROS_PER_SECOND in \<lparr>tv_s = secs, tv_usec = micros - secs * MICROS_PER_SECOND\<rparr>)"

section \<open>Powers of two\<close>

lemma and_pred_power_of_two: "0 < x \<Longrightarrow> (x :: nat) AND (x - 1) = 0 \<longleftrightarrow> (\<exists>n. x = 2 ^ n)"
proof (induction x rule: less_induct)
  case (less x)
  define m where "m = x div 2"
  show ?case
  proof (cases "odd x")
    case True
    then have x: "x = 2 * m + 1" by (simp add: m_def)
    have "x AND (x - 1) = 2 * m" unfolding x by (subst and_nat_rec) simp
    moreover have "(\<exists>n. 2 * m + 1 = 2 ^ n) \<longleftrightarrow> m = 0"
    proof
      assume "\<exists>n. 2 * m + 1 = 2 ^ n"
      then obtain n where n: "2 * m + 1 = 2 ^ n" ..
      then have "odd ((2 :: nat) ^ n)" by (metis odd_two_times_div_two_succ even_plus_one_iff dvd_triv_left)
      then show "m = 0" using n by (cases n) auto
    qed (auto intro: exI[of _ 0])
    ultimately show ?thesis using x by simp
  next
    case False
    then have x: "x = 2 * m" "0 < m" "m < x" using less.prems by (auto simp: m_def)
    have "x AND (x - 1) = 2 * (m AND (m - 1))"
    proof -
      have "x - 1 = 2 * (m - 1) + 1" using x by simp
      then show ?thesis unfolding x(1) by (simp add: and_nat_rec[of "2 * m"])
    qed
    moreover have "(\<exists>n. x = 2 ^ n) \<longleftrightarrow> (\<exists>n. m = 2 ^ n)"
    proof
      assume "\<exists>n. x = 2 ^ n"
      then obtain n where n: "x = 2 ^ n" ..
      then show "\<exists>n. m = 2 ^ n" using x False by (cases n) auto
    next
      assume "\<exists>n. m = 2 ^ n"
      then obtain n where "m = 2 ^ n" ..
      then show "\<exists>n. x = 2 ^ n" using x by (intro exI[of _ "Suc n"]) simp
    qed
    ultimately show ?thesis using less.IH[OF x(3,2)] by simp
  qed
qed

theorem is_power_of_two_iff: "is_power_of_two w \<longleftrightarrow> (\<exists>n < 64. unat w = 2 ^ n)"
proof (cases "w = 0")
  case False
  then have pos: "0 < unat w" by (simp add: unat_gt_0)
  have "unat (w AND (w - 1)) = unat w AND (unat w - 1)"
    using False by (simp add: unsigned_and_eq unat_minus_one)
  then have "w AND (w - 1) = 0 \<longleftrightarrow> unat w AND (unat w - 1) = 0" by (metis unat_eq_zero)
  also have "\<dots> \<longleftrightarrow> (\<exists>n. unat w = 2 ^ n)" by (rule and_pred_power_of_two[OF pos])
  also have "\<dots> \<longleftrightarrow> (\<exists>n < 64. unat w = 2 ^ n)"
  proof -
    have "n < 64" if "unat w = 2 ^ n" for n
    proof -
      have "unat w < 2 ^ 64" using unsigned_less[of w] by simp
      then have "(2 :: nat) ^ n < 2 ^ 64" using that by simp
      then show ?thesis using power_less_imp_less_exp[of "2 :: nat" n 64] by simp
    qed
    then show ?thesis by blast
  qed
  finally show ?thesis using False by (simp add: is_power_of_two_def)
qed (simp add: is_power_of_two_def)

section \<open>The times of a backoff\<close>

text \<open>With the default mask \<open>2^15 - 1\<close>: each time is one below a power of two, twice as long as the last one until the mask is
  reached.\<close>

lemma backoff_wait_step:
  assumes "4 \<le> k" "k \<le> 15"
  shows "snd (backoff_wait 0x7FFF (2 ^ k - 1)) = 2 ^ min (k + 1) 15 - 1"
proof -
  have "k \<in> {4, 5, 6, 7, 8, 9, 10, 11, 12, 13, 14, 15}"
    unfolding insert_iff empty_iff using assms by presburger
  then show ?thesis by (elim insertE) (simp_all add: backoff_wait_def)
qed

theorem backoff_times:
  "backoff_waits 0x7FFF n backoff_new = map (\<lambda>i. 2 ^ min (i + 4) 15 - 1) [0..<n]"
proof -
  have "backoff_waits 0x7FFF n (2 ^ min (j + 4) 15 - 1) = map (\<lambda>i. 2 ^ min (i + 4) 15 - 1) [j..<j + n]" for j
  proof (induction n arbitrary: j)
    case (Suc n)
    have "snd (backoff_wait 0x7FFF (2 ^ min (j + 4) 15 - 1)) = (2 ^ min (min (j + 4) 15 + 1) 15 - 1 :: 64 word)"
      by (rule backoff_wait_step) auto
    also have "min (min (j + 4) 15 + 1) 15 = min (Suc j + 4) 15" by auto
    finally have "snd (backoff_wait 0x7FFF (2 ^ min (j + 4) 15 - 1)) = 2 ^ min (Suc j + 4) 15 - 1" .
    moreover have "[j..<j + Suc n] = j # [Suc j..<Suc j + n]" by (simp add: upt_conv_Cons)
    ultimately show ?case using Suc.IH[of "Suc j"]
      by (simp add: split_beta) (simp add: backoff_wait_def)
  qed simp
  from this[of 0] show ?thesis by (simp add: backoff_new_def)
qed

section \<open>Durations\<close>

lemma sdiv_nonneg: "0 \<le> a \<Longrightarrow> 0 < b \<Longrightarrow> a sdiv b = (a :: int) div b"
  by (cases "a = 0") (simp_all add: signed_divide_int_def)

lemma to_timespec_nonneg:
  assumes "0 \<le> nanos"
  shows "to_timespec nanos = \<lparr>tv_sec = nanos div 1000000000, tv_nsec = nanos mod 1000000000\<rparr>"
  using assms by (simp add: to_timespec_def NANOS_PER_SECOND_def sdiv_nonneg Let_def minus_div_mult_eq_mod)

text \<open>Whatever its sign, a duration is what it was when it is converted back; its nanoseconds are less than a second.\<close>

theorem timespec_roundtrip: "to_duration 1 (to_timespec nanos) = nanos"
  by (simp add: to_duration_def to_timespec_def Let_def signed_divide_int_def sgn_if)

lemma timespec_bounds: "\<bar>tv_nsec (to_timespec nanos)\<bar> < 1000000000"
proof -
  have "nanos - nanos sdiv 1000000000 * 1000000000 = sgn nanos * (\<bar>nanos\<bar> mod 1000000000)"
    by (cases nanos "0 :: int" rule: linorder_cases)
      (simp_all add: signed_divide_int_def minus_div_mult_eq_mod[symmetric] algebra_simps)
  then show ?thesis
    by (simp add: to_timespec_def NANOS_PER_SECOND_def Let_def abs_mult sgn_if)
qed

lemma timeval_nonneg:
  "0 \<le> micros \<Longrightarrow> to_timeval micros = \<lparr>tv_s = micros div 1000000, tv_usec = micros mod 1000000\<rparr>"
  by (simp add: to_timeval_def MICROS_PER_SECOND_def sdiv_nonneg Let_def minus_div_mult_eq_mod)

text \<open>A time before the epoch has negative nanoseconds, which no system call accepts.\<close>

lemma timespec_negative: "to_timespec (- 1) = \<lparr>tv_sec = 0, tv_nsec = - 1\<rparr>"
  by (simp add: to_timespec_def NANOS_PER_SECOND_def signed_divide_int_def Let_def)

section \<open>Calendar dates\<close>

text \<open>
  The calls of the C library are arguments: \<open>localtime_r\<close> and its inverse \<open>mktime\<close>, \<open>timegm\<close>, and what \<open>put_time\<close> and
  \<open>get_time\<close> write and read with a format. \<open>get_time\<close> changes only the fields that its format names; the others
  keep what is in the structure, which the code does not initialize: it is the argument \<open>mem\<close>. A time point of the system clock counts nanoseconds.
\<close>

record tm =
  tm_sec :: int
  tm_min :: int
  tm_hour :: int
  tm_mday :: int
  tm_mon :: int
  tm_year :: int
  tm_wday :: int
  tm_yday :: int
  tm_isdst :: int

definition tm_zero :: tm where
  "tm_zero = \<lparr>tm_sec = 0, tm_min = 0, tm_hour = 0, tm_mday = 0, tm_mon = 0, tm_year = 0, tm_wday = 0, tm_yday = 0, tm_isdst = 0\<rparr>"

definition to_time_t :: "int \<Rightarrow> int" where "to_time_t tp = tp sdiv NANOS_PER_SECOND"
definition from_time_t :: "int \<Rightarrow> int" where "from_time_t t = t * NANOS_PER_SECOND"

definition to_tm :: "(int \<Rightarrow> tm option) \<Rightarrow> int \<Rightarrow> tm" where
  "to_tm localtime_r tp = (case localtime_r (to_time_t tp) of None \<Rightarrow> tm_zero | Some res \<Rightarrow> res)"

definition from_tm :: "(tm \<Rightarrow> int) \<Rightarrow> tm \<Rightarrow> int" where
  "from_tm mktime tp = from_time_t (mktime tp)"

definition parse_time_point :: "(string \<Rightarrow> string \<Rightarrow> tm \<Rightarrow> tm) \<Rightarrow> (tm \<Rightarrow> int) \<Rightarrow> tm \<Rightarrow> string \<Rightarrow> string \<Rightarrow> int" where
  "parse_time_point get_time mktime mem time format = from_tm mktime (get_time time format mem)"

definition parse_time_point_utc :: "(string \<Rightarrow> string \<Rightarrow> tm \<Rightarrow> tm) \<Rightarrow> (tm \<Rightarrow> int) \<Rightarrow> tm \<Rightarrow> string \<Rightarrow> string \<Rightarrow> int" where
  "parse_time_point_utc get_time timegm mem time format = from_time_t (timegm (get_time time format mem))"

definition time_format :: string where "time_format = ''%Y%m%d-%H:%M:%S''"

definition show_time_point :: "(tm \<Rightarrow> string \<Rightarrow> string) \<Rightarrow> (int \<Rightarrow> tm option) \<Rightarrow> int \<Rightarrow> string" where
  "show_time_point put_time localtime_r tp = put_time (to_tm localtime_r tp) time_format"

text \<open>What the library documents: \<open>mktime\<close> is the inverse of \<open>localtime_r\<close> and does not read the day of the week and of the year;
  \<open>get_time\<close> reads what \<open>put_time\<close> wrote, for a format of date and time.\<close>

definition local_clock :: "(int \<Rightarrow> tm option) \<Rightarrow> (tm \<Rightarrow> int) \<Rightarrow> bool" where
  "local_clock localtime_r mktime \<longleftrightarrow> (\<forall>t. \<exists>x. localtime_r t = Some x \<and> mktime x = t) \<and>
     (\<forall>x d y. mktime (x\<lparr>tm_wday := d, tm_yday := y\<rparr>) = mktime x)"

definition reads_back :: "(int \<Rightarrow> tm option) \<Rightarrow> (tm \<Rightarrow> string \<Rightarrow> string) \<Rightarrow> (string \<Rightarrow> string \<Rightarrow> tm \<Rightarrow> tm) \<Rightarrow> string \<Rightarrow> bool" where
  "reads_back localtime_r put_time get_time format \<longleftrightarrow> (\<forall>t x mem. localtime_r t = Some x \<longrightarrow> get_time (put_time x format) format mem =
     x\<lparr>tm_wday := tm_wday mem, tm_yday := tm_yday mem, tm_isdst := tm_isdst mem\<rparr>)"

lemma tm_roundtrip:
  assumes "local_clock localtime_r mktime"
  shows "from_tm mktime (to_tm localtime_r tp) = tp sdiv NANOS_PER_SECOND * NANOS_PER_SECOND"
proof -
  obtain x where "localtime_r (to_time_t tp) = Some x" "mktime x = to_time_t tp"
    using assms unfolding local_clock_def by blast
  then show ?thesis by (simp add: to_tm_def from_tm_def from_time_t_def to_time_t_def)
qed

text \<open>A time that is printed is read back to the second, provided that the uninitialized structure happens to hold the
  right flag of daylight saving.\<close>

lemma print_parse:
  assumes "local_clock localtime_r mktime" "reads_back localtime_r put_time get_time time_format"
    "tm_isdst mem = tm_isdst (to_tm localtime_r tp)"
  shows "parse_time_point get_time mktime mem (show_time_point put_time localtime_r tp) time_format =
    tp sdiv NANOS_PER_SECOND * NANOS_PER_SECOND"
proof -
  let ?x = "to_tm localtime_r tp"
  have "localtime_r (to_time_t tp) = Some ?x" using assms(1) by (auto simp: local_clock_def to_tm_def split: option.split)
  then have "get_time (put_time ?x time_format) time_format mem =
      ?x\<lparr>tm_wday := tm_wday mem, tm_yday := tm_yday mem, tm_isdst := tm_isdst ?x\<rparr>"
    using assms(2,3) unfolding reads_back_def by metis
  also have "\<dots> = ?x\<lparr>tm_wday := tm_wday mem, tm_yday := tm_yday mem\<rparr>" by simp
  finally have "mktime (get_time (put_time ?x time_format) time_format mem) = mktime ?x"
    using assms(1) by (simp add: local_clock_def)
  then show ?thesis using tm_roundtrip[OF assms(1), of tp]
    by (simp add: parse_time_point_def show_time_point_def from_tm_def)
qed

text \<open>With another flag the time depends on it: with a \<open>mktime\<close> that takes an hour off when daylight saving is said to be in effect, as it
  is documented to do, two contents of the structure give times an hour apart.\<close>

lemma parse_depends_on_memory:
  assumes "reads_back localtime_r put_time get_time format" "localtime_r t = Some x"
    "\<And>x. mktime (x\<lparr>tm_isdst := 1\<rparr>) = mktime (x\<lparr>tm_isdst := 0\<rparr>) - 3600"
  shows "parse_time_point get_time mktime (tm_zero\<lparr>tm_isdst := 0\<rparr>) (put_time x format) format =
    parse_time_point get_time mktime (tm_zero\<lparr>tm_isdst := 1\<rparr>) (put_time x format) format + 3600 * NANOS_PER_SECOND"
proof -
  let ?g = "\<lambda>d. get_time (put_time x format) format (tm_zero\<lparr>tm_isdst := d\<rparr>)"
  have "?g d = (x\<lparr>tm_wday := 0, tm_yday := 0\<rparr>)\<lparr>tm_isdst := d\<rparr>" for d
    using assms(1,2) by (simp add: reads_back_def tm_zero_def)
  then have "mktime (?g 0) = mktime (?g 1) + 3600" using assms(3)[of "x\<lparr>tm_wday := 0, tm_yday := 0\<rparr>"] by simp
  then show ?thesis unfolding parse_time_point_def from_tm_def from_time_t_def by (simp only: distrib_right)
qed

end
