(* ===== verification/EventPoller.thy ===== *)
theory EventPoller
  imports SystemCalls Times
begin

text \<open>
  \<^verbatim>\<open>include/txl/event_poller.h\<close> and \<^verbatim>\<open>event_timer.h\<close>: sets of events as 32-bit masks, the 8 bytes that go with an event, the buffers of
  events, and the wrappers of epoll and of the timer descriptors. The system calls are arguments.
\<close>

unbundle bit_operations_syntax

section \<open>Sets of events\<close>

definition ev_in :: "32 word" where "ev_in = 0x1"
definition ev_priority :: "32 word" where "ev_priority = 0x2"
definition ev_out :: "32 word" where "ev_out = 0x4"
definition ev_error :: "32 word" where "ev_error = 0x8"
definition ev_hangup :: "32 word" where "ev_hangup = 0x10"
definition ev_read_hangup :: "32 word" where "ev_read_hangup = 0x2000"
definition ev_exclusive :: "32 word" where "ev_exclusive = 0x10000000"
definition ev_wakeup :: "32 word" where "ev_wakeup = 0x20000000"
definition ev_one_shot :: "32 word" where "ev_one_shot = 0x40000000"
definition ev_edge :: "32 word" where "ev_edge = 0x80000000"

lemmas event_types = ev_in_def ev_priority_def ev_out_def ev_error_def ev_hangup_def ev_read_hangup_def
  ev_exclusive_def ev_wakeup_def ev_one_shot_def ev_edge_def

definition ev_or :: "32 word \<Rightarrow> 32 word \<Rightarrow> 32 word" where "ev_or x y = x OR y"
definition ev_and :: "32 word \<Rightarrow> 32 word \<Rightarrow> 32 word" where "ev_and x y = x AND y"

text \<open>One step of the printer: the text so far and whether a comma is due.\<close>

definition put_event :: "32 word \<Rightarrow> 32 word \<Rightarrow> string \<Rightarrow> string \<times> bool \<Rightarrow> string \<times> bool" where
  "put_event t e name s = (if ev_and t e \<noteq> 0 then (fst s @ (if snd s then '','' else []) @ name, True) else s)"

definition event_names :: "(32 word \<times> string) list" where
  "event_names = [(ev_in, ''in''), (ev_out, ''out''), (ev_read_hangup, ''read_hangup''), (ev_priority, ''priority''),
     (ev_error, ''error''), (ev_hangup, ''hangup''), (ev_edge, ''edge''), (ev_one_shot, ''one_shot''), (ev_wakeup, ''wakeup''),
     (ev_exclusive, ''exclusive'')]"

definition ev_print :: "32 word \<Rightarrow> string" where
  "ev_print t = fst (fold (\<lambda>(e, name). put_event t e name) event_names (''{'', False)) @ ''}''"

section \<open>Tags\<close>

text \<open>The union of a descriptor, a pointer, 32 and 64 bits; a smaller member writes the lower half.\<close>

definition tag_new :: "64 word" where "tag_new = 0"

definition tag_set_u32 :: "32 word \<Rightarrow> 64 word \<Rightarrow> 64 word" where
  "tag_set_u32 v tag = push_bit 32 (drop_bit 32 tag) OR ucast v"

definition tag_u32 :: "64 word \<Rightarrow> 32 word" where "tag_u32 tag = ucast tag"
definition tag_set_fd :: "int \<Rightarrow> 64 word \<Rightarrow> 64 word" where "tag_set_fd v tag = tag_set_u32 (word_of_int v) tag"
definition tag_fd :: "64 word \<Rightarrow> int" where "tag_fd tag = sint (tag_u32 tag)"
definition tag_set_u64 :: "64 word \<Rightarrow> 64 word \<Rightarrow> 64 word" where "tag_set_u64 v tag = v"
definition tag_u64 :: "64 word \<Rightarrow> 64 word" where "tag_u64 tag = tag"

definition tag_from_fd :: "int \<Rightarrow> 64 word" where "tag_from_fd v = tag_set_fd v tag_new"
definition tag_from_u32 :: "32 word \<Rightarrow> 64 word" where "tag_from_u32 v = tag_set_u32 v tag_new"
definition tag_from_u64 :: "64 word \<Rightarrow> 64 word" where "tag_from_u64 v = tag_set_u64 v tag_new"

section \<open>Events and their buffers\<close>

record event_data =
  events :: "32 word"
  edata :: "64 word"

definition has_one_of :: "32 word \<Rightarrow> event_data \<Rightarrow> bool" where "has_one_of t e \<longleftrightarrow> ev_and (events e) t \<noteq> 0"
definition has_all :: "32 word \<Rightarrow> event_data \<Rightarrow> bool" where "has_all t e \<longleftrightarrow> ev_and (events e) t = t"
definition ev_fd :: "event_data \<Rightarrow> int" where "ev_fd e = tag_fd (edata e)"

text \<open>Both buffers are lists of events; the address of the first one of an empty buffer is undefined.\<close>

definition epoll_buffer :: "event_data list \<Rightarrow> event_data list res" where
  "epoll_buffer buf = (if buf = [] then Inl UB else Inr buf)"

definition ev_at :: "event_data list \<Rightarrow> nat \<Rightarrow> event_data res" where
  "ev_at buf i = vec_get buf i"

definition ev_resize :: "nat \<Rightarrow> event_data list \<Rightarrow> event_data list" where
  "ev_resize n buf = take n buf @ replicate (n - length buf) \<lparr>events = 0, edata = 0\<rparr>"

section \<open>The poller\<close>

type_synonym 'k sys_epoll_ctl = "int \<Rightarrow> int \<Rightarrow> int \<Rightarrow> event_data option \<Rightarrow> 'k \<Rightarrow> int \<times> 'k"

definition EPOLL_CTL_ADD :: int where "EPOLL_CTL_ADD = 1"
definition EPOLL_CTL_DEL :: int where "EPOLL_CTL_DEL = 2"
definition EPOLL_CTL_MOD :: int where "EPOLL_CTL_MOD = 3"

definition ep_open :: "('k \<Rightarrow> int) \<Rightarrow> (int \<Rightarrow> 'k \<Rightarrow> int \<times> 'k) \<Rightarrow> int \<Rightarrow> 'k \<Rightarrow> unit sysres \<times> int \<times> 'k" where
  "ep_open errno create f k =
     (if fb_is_open f then (Inr (), f, k)
      else case create 0 k of (r, k') \<Rightarrow> (handle_system_error errno r () k', r, k'))"

definition ep_add_tag :: "('k \<Rightarrow> int) \<Rightarrow> 'k sys_epoll_ctl \<Rightarrow> int \<Rightarrow> int \<Rightarrow> 32 word \<Rightarrow> 64 word \<Rightarrow> 'k \<Rightarrow> unit sysres \<times> 'k" where
  "ep_add_tag errno ctl f fd flags tag k =
     (case ctl f EPOLL_CTL_ADD fd (Some \<lparr>events = flags, edata = tag\<rparr>) k of (r, k') \<Rightarrow> (handle_system_error errno r () k', k'))"

definition ep_add :: "('k \<Rightarrow> int) \<Rightarrow> 'k sys_epoll_ctl \<Rightarrow> int \<Rightarrow> int \<Rightarrow> 32 word \<Rightarrow> 'k \<Rightarrow> unit sysres \<times> 'k" where
  "ep_add errno ctl f fd flags = ep_add_tag errno ctl f fd flags (tag_set_fd fd tag_new)"

definition ep_modify_tag :: "('k \<Rightarrow> int) \<Rightarrow> 'k sys_epoll_ctl \<Rightarrow> int \<Rightarrow> int \<Rightarrow> 32 word \<Rightarrow> 64 word \<Rightarrow> 'k \<Rightarrow> unit sysres \<times> 'k" where
  "ep_modify_tag errno ctl f fd flags tag k =
     (case ctl f EPOLL_CTL_MOD fd (Some \<lparr>events = flags, edata = tag\<rparr>) k of (r, k') \<Rightarrow> (handle_system_error errno r () k', k'))"

definition ep_modify :: "('k \<Rightarrow> int) \<Rightarrow> 'k sys_epoll_ctl \<Rightarrow> int \<Rightarrow> int \<Rightarrow> 32 word \<Rightarrow> 'k \<Rightarrow> unit sysres \<times> 'k" where
  "ep_modify errno ctl f fd flags = ep_modify_tag errno ctl f fd flags (tag_set_fd fd tag_new)"

definition ep_remove :: "('k \<Rightarrow> int) \<Rightarrow> 'k sys_epoll_ctl \<Rightarrow> int \<Rightarrow> int \<Rightarrow> 'k \<Rightarrow> unit sysres \<times> 'k" where
  "ep_remove errno ctl f fd k = (case ctl f EPOLL_CTL_DEL fd None k of (r, k') \<Rightarrow> (handle_system_error errno r () k', k'))"

text \<open>\<^verbatim>\<open>epoll_pwait\<close> answers with its result and the events it wrote. The size of the buffer and the timeout in milliseconds are
  narrowed to an \<^verbatim>\<open>int\<close>; no timeout is \<open>-1\<close>.\<close>

type_synonym 'k sys_epoll_wait = "int \<Rightarrow> int \<Rightarrow> int \<Rightarrow> 'k \<Rightarrow> int \<times> event_data list \<times> 'k"

definition ep_poll_view :: "('k \<Rightarrow> int) \<Rightarrow> 'k sys_epoll_wait \<Rightarrow> int \<Rightarrow> event_data list \<Rightarrow> int option \<Rightarrow> 'k \<Rightarrow>
    int sysres \<times> event_data list \<times> 'k" where
  "ep_poll_view errno wait f buf timeout k =
     (case wait f (as_int (int (length buf))) (as_int (case timeout of None \<Rightarrow> - 1 | Some ms \<Rightarrow> ms)) k of
        (r, es, k') \<Rightarrow> (handle_system_error errno r r k', es @ drop (length es) buf, k'))"

definition ep_poll :: "('k \<Rightarrow> int) \<Rightarrow> 'k sys_epoll_wait \<Rightarrow> int \<Rightarrow> event_data list \<Rightarrow> int option \<Rightarrow> 'k \<Rightarrow>
    (int sysres \<times> event_data list \<times> 'k) res" where
  "ep_poll errno wait f buf timeout k = and_then (epoll_buffer buf) (\<lambda>b. Inr (ep_poll_view errno wait f b timeout k))"

section \<open>The timer\<close>

definition timer_system_clock :: int where "timer_system_clock = 0"
definition timer_steady_clock :: int where "timer_steady_clock = 1"

definition et_open :: "('k \<Rightarrow> int) \<Rightarrow> (int \<Rightarrow> int \<Rightarrow> 'k \<Rightarrow> int \<times> 'k) \<Rightarrow> int \<Rightarrow> int \<Rightarrow> 'k \<Rightarrow> unit sysres \<times> int \<times> 'k" where
  "et_open errno create clock = fb_open errno (create clock 0) EBUSY"

text \<open>\<open>set_time\<close> of a time and an interval in nanoseconds: an absolute time, that is cancelled when the clock is set.\<close>

definition et_set_time :: "('k \<Rightarrow> int) \<Rightarrow> (int \<Rightarrow> int \<Rightarrow> timespec \<times> timespec \<Rightarrow> 'k \<Rightarrow> int \<times> 'k) \<Rightarrow> int \<Rightarrow> int \<Rightarrow> int \<Rightarrow> 'k \<Rightarrow> unit sysres \<times> 'k" where
  "et_set_time errno settime f tp interval k =
     (case settime f (1 OR 2) (to_timespec interval, to_timespec tp) k of (r, k') \<Rightarrow> (handle_system_error errno r () k', k'))"

text \<open>The constructors; an error is thrown, after the descriptor has been closed by the destructor of the object under construction.\<close>

definition et_new :: "('k \<Rightarrow> int) \<Rightarrow> (int \<Rightarrow> int \<Rightarrow> 'k \<Rightarrow> int \<times> 'k) \<Rightarrow> int \<Rightarrow> 'k \<Rightarrow> int sysres \<times> 'k" where
  "et_new errno create clock k =
     (case et_open errno create clock fb_new k of (Inl e, f, k') \<Rightarrow> (Inl e, k') | (Inr u, f, k') \<Rightarrow> (Inr f, k'))"

definition et_new_at :: "('k \<Rightarrow> int) \<Rightarrow> (int \<Rightarrow> int \<Rightarrow> 'k \<Rightarrow> int \<times> 'k) \<Rightarrow> 'k sys_close \<Rightarrow>
    (int \<Rightarrow> int \<Rightarrow> timespec \<times> timespec \<Rightarrow> 'k \<Rightarrow> int \<times> 'k) \<Rightarrow> int \<Rightarrow> int \<Rightarrow> 'k \<Rightarrow> int sysres \<times> 'k" where
  "et_new_at errno create cl settime clock tp k =
     (case et_new errno create clock k of
        (Inl e, k1) \<Rightarrow> (Inl e, k1)
      | (Inr f, k1) \<Rightarrow>
          (case et_set_time errno settime f tp 0 k1 of
             (Inl e, k2) \<Rightarrow> (Inl e, fb_destroy errno cl f k2)
           | (Inr u, k2) \<Rightarrow> (Inr f, k2)))"

definition et_read :: "('k \<Rightarrow> int) \<Rightarrow> (int \<Rightarrow> nat \<Rightarrow> 'k \<Rightarrow> int \<times> nat \<times> 'k) \<Rightarrow> int \<Rightarrow> 'k \<Rightarrow> nat sysres \<times> 'k" where
  "et_read errno rd f k = (case rd f 8 k of (r, n, k') \<Rightarrow> (handle_system_error errno r n k', k'))"

section \<open>What goes in comes out\<close>

lemma tag_u32_set [simp]: "tag_u32 (tag_set_u32 v tag) = v"
  by (rule bit_word_eqI) (auto simp: tag_u32_def tag_set_u32_def bit_simps)

text \<open>A descriptor that is put into a tag is found in the event that comes with it; the upper half of the tag is kept.\<close>

lemma tag_fd_set: "- (2 ^ 31) \<le> v \<Longrightarrow> v < 2 ^ 31 \<Longrightarrow> tag_fd (tag_set_fd v tag) = v"
proof -
  assume "- (2 ^ 31) \<le> v" "v < 2 ^ 31"
  then have "sint (word_of_int v :: 32 word) = v" by transfer (simp add: signed_take_bit_int_eq_self)
  then show ?thesis by (simp add: tag_fd_def tag_set_fd_def)
qed

lemma tag_u64_u32: "drop_bit 32 (tag_u64 (tag_set_u32 v tag)) = drop_bit 32 tag"
  by (rule bit_word_eqI) (auto simp: tag_u64_def tag_set_u32_def bit_simps dest: bit_imp_le_length)

lemma has_all_or: "has_all (ev_or s t) e \<longleftrightarrow> has_all s e \<and> has_all t e"
  unfolding has_all_def ev_and_def ev_or_def by (auto simp: bit_eq_iff bit_simps)

lemma has_one_of_or: "has_one_of (ev_or s t) e \<longleftrightarrow> has_one_of s e \<or> has_one_of t e"
  unfolding has_one_of_def ev_and_def ev_or_def by (auto simp: bit_eq_iff bit_simps)

lemma has_all_one: "t \<noteq> 0 \<Longrightarrow> has_all t e \<Longrightarrow> has_one_of t e"
  by (simp add: has_all_def has_one_of_def)

text \<open>The printer puts the names of the events of the set between braces, with commas.\<close>

fun join_comma :: "string list \<Rightarrow> string" where
  "join_comma [] = []"
| "join_comma [s] = s"
| "join_comma (s # ss) = s @ '','' @ join_comma ss"

lemma join_comma_snoc: "join_comma (ss @ [s]) = (if ss = [] then s else join_comma ss @ '','' @ s)"
  by (induction ss rule: join_comma.induct) auto

lemma ev_print_names:
  "ev_print t = ''{'' @ join_comma (map snd (filter (\<lambda>(e, _). ev_and t e \<noteq> 0) event_names)) @ ''}''"
proof -
  let ?put = "\<lambda>(e, name). put_event t e name"
  let ?sel = "\<lambda>xs. map snd (filter (\<lambda>(e, _ :: string). ev_and t e \<noteq> 0) xs)"
  have "fold ?put xs (''{'', False) = (''{'' @ join_comma (?sel xs), ?sel xs \<noteq> [])" for xs
  proof (induction xs rule: rev_induct)
    case (snoc x xs)
    then show ?case by (cases x) (simp add: put_event_def join_comma_snoc)
  qed simp
  then show ?thesis by (simp add: ev_print_def)
qed

section \<open>Waiting\<close>

lemma ep_poll_empty: "ep_poll errno wait f [] timeout k = Inl UB"
  by (simp add: ep_poll_def epoll_buffer_def)

text \<open>\<^verbatim>\<open>epoll_pwait\<close> answers with the number of the events it wrote: they are the first ones of the buffer.\<close>

lemma ep_poll_events:
  assumes "wait f (int (length buf)) (case timeout of None \<Rightarrow> - 1 | Some ms \<Rightarrow> ms) k = (int (length es), es, k')"
    "buf \<noteq> []" "length buf < 2 ^ 31" "length es \<le> length buf" "\<And>ms. timeout = Some ms \<Longrightarrow> 0 \<le> ms \<and> ms < 2 ^ 31"
  shows "ep_poll errno wait f buf timeout k = Inr (Inr (int (length es)), es @ drop (length es) buf, k')"
proof -
  have "as_int (case timeout of None \<Rightarrow> - 1 | Some ms \<Rightarrow> ms) = (case timeout of None \<Rightarrow> - 1 | Some ms \<Rightarrow> ms)"
    using assms(5) by (cases timeout) (auto intro!: as_int_small)
  moreover have "as_int (int (length buf)) = int (length buf)" "as_int (int (length es)) = int (length es)"
    using assms(3,4) by (auto intro!: as_int_small)
  ultimately show ?thesis
    using assms(1,2) by (simp add: ep_poll_def ep_poll_view_def epoll_buffer_def handle_system_error_def)
qed

text \<open>A timeout of \<open>2^32 - 1\<close> milliseconds is narrowed to \<open>-1\<close>: the call waits without a limit.\<close>

lemma ep_poll_timeout_wraps:
  "ep_poll_view errno wait f buf (Some (2 ^ 32 - 1)) k = ep_poll_view errno wait f buf None k"
proof -
  have "as_int (2 ^ 32 - 1) = - 1" by (simp add: as_int_minus_one)
  then show ?thesis by (simp add: ep_poll_view_def as_int_small)
qed

text \<open>The timer is given seconds and nanoseconds below a second.\<close>

lemma et_set_time_args:
  assumes "0 \<le> tp"
  shows "et_set_time errno settime f tp 0 k =
    (case settime f 3 (\<lparr>tv_sec = 0, tv_nsec = 0\<rparr>, \<lparr>tv_sec = tp div 1000000000, tv_nsec = tp mod 1000000000\<rparr>) k of
       (r, k') \<Rightarrow> (handle_system_error errno r () k', k'))"
  using assms by (simp add: et_set_time_def to_timespec_nonneg)

lemma et_new_at_no_leak:
  assumes "et_new errno create clock k = (Inr f, k1)" "et_set_time errno settime f tp 0 k1 = (Inl e, k2)" "fb_is_open f"
  shows "et_new_at errno create cl settime clock tp k = (Inl e, snd (cl f k2))"
  using assms by (simp add: et_new_at_def fb_destroy_def fb_close_def split_beta)

section \<open>Buffers of events\<close>

text \<open>A tag may hold a pointer, which is its 64 bits.\<close>

definition tag_set_ptr :: "64 word \<Rightarrow> 64 word \<Rightarrow> 64 word" where "tag_set_ptr v tag = v"
definition tag_ptr :: "64 word \<Rightarrow> 64 word" where "tag_ptr tag = tag"
definition tag_from_ptr :: "64 word \<Rightarrow> 64 word" where "tag_from_ptr v = tag_set_ptr v tag_new"

text \<open>An array of \<open>s\<close> events starts with what is in its memory; a vector of \<open>s\<close> events with empty ones.\<close>

definition ea_new :: "nat \<Rightarrow> (nat \<Rightarrow> event_data) \<Rightarrow> event_data list" where "ea_new s mem = map mem [0..<s]"
definition ea_at :: "event_data list \<Rightarrow> nat \<Rightarrow> event_data res" where "ea_at buf i = vec_get buf i"
definition ea_epoll_buffer :: "event_data list \<Rightarrow> event_data list res" where
  "ea_epoll_buffer buf = and_then (vec_get buf 0) (\<lambda>_. Inr buf)"
definition ea_size :: "nat \<Rightarrow> event_data list \<Rightarrow> nat" where "ea_size s buf = s"
definition evec_new :: "nat \<Rightarrow> event_data list" where "evec_new s = ev_resize s []"
definition evec_size :: "event_data list \<Rightarrow> nat" where "evec_size buf = length buf"

text \<open>\<open>to_array_view\<close>, of either kind of buffer.\<close>

definition evbuf_view :: "event_data list res \<Rightarrow> nat \<Rightarrow> event_data list res" where
  "evbuf_view p n = and_then p (\<lambda>buf. if n \<le> length buf then Inr (take n buf) else Inl UB)"

text \<open>Both kinds hand the whole buffer to the kernel when they have room for an event; without room there is no first event to point at.\<close>

lemma ea_view:
  "0 < s \<Longrightarrow> evbuf_view (ea_epoll_buffer (ea_new s mem)) (ea_size s (ea_new s mem)) = Inr (ea_new s mem)"
  "evbuf_view (ea_epoll_buffer (ea_new 0 mem)) (ea_size 0 (ea_new 0 mem)) = Inl UB"
  by (simp_all add: evbuf_view_def ea_epoll_buffer_def ea_new_def ea_size_def vec_get_def)

lemma evec_view:
  "0 < s \<Longrightarrow> evbuf_view (epoll_buffer (evec_new s)) (evec_size (evec_new s)) = Inr (replicate s \<lparr>events = 0, edata = 0\<rparr>)"
  "evbuf_view (epoll_buffer (evec_new 0)) (evec_size (evec_new 0)) = Inl UB"
  by (simp_all add: evbuf_view_def epoll_buffer_def evec_new_def evec_size_def ev_resize_def)

text \<open>The event that the kernel writes at index \<open>i\<close> is the one that is read there.\<close>

lemma poll_event_at:
  assumes "wait f (as_int (int (length buf))) (as_int (- 1)) k = (r, es, k')" "i < length es" "length es \<le> length buf"
  shows "case ep_poll_view errno wait f buf None k of (_, buf', _) \<Rightarrow> ea_at buf' i = Inr (es ! i) \<and> length buf' = length buf"
  using assms by (simp add: ep_poll_view_def ea_at_def vec_get_def nth_append)

end
