(* ===== verification/IoReactor.thy ===== *)
theory IoReactor
  imports Files MemoryPool
begin

text \<open>
  \<^verbatim>\<open>include/txl/io_reactor.h\<close>: the reads and writes a reactor has been asked for, the processor that runs one of them at a time, and the
  completer a caller waits on. Readers are numbered by the order of the requests; \<open>log\<close> records the calls of \<open>on_data_\<close>, \<open>completed\<close>
  those of \<open>set_complete\<close>. The buffer of a transfer comes from the \<open>memory_pool\<close> of the reactor and goes back to it. An error of a
  transfer is thrown out of the thread (the inner \<open>Inl\<close>); \<open>None\<close> is a call that does not return.
\<close>

section \<open>One transfer\<close>

record read_event =
  rev_id :: nat
  rev_file :: int
  num_read :: nat
  num_total :: nat

definition to_transfer :: "nat \<Rightarrow> nat \<Rightarrow> nat" where
  "to_transfer moved n = min 4096 (n - moved)"

text \<open>What \<open>use\<close> does with a buffer of \<open>n\<close> bytes of the pool: \<open>buffer_ref{data, size}.slice(0, n)\<close> of a chunk that was not given is
  empty. The chunk is closed afterwards, also when an exception leaves the function.\<close>

definition with_pool :: "nat \<Rightarrow> mempool \<Rightarrow> (nat \<Rightarrow> 'b) \<Rightarrow> ('b \<times> mempool) res option" where
  "with_pool n m use =
     run_bind (mp_allocate n m) (\<lambda>(c, m1).
     let x = use (min n (csize c)) in
     run_bind (Some (chunk_close c m1)) (\<lambda>(_, m2). Some (Inr (x, m2))))"

text \<open>\<open>read_file_io_event::process\<close>: the event afterwards, the bytes handed to \<open>on_data_\<close> and whether there is more to read.\<close>

definition read_process :: "('k \<Rightarrow> int) \<Rightarrow> (int \<Rightarrow> nat \<Rightarrow> 'k \<Rightarrow> int \<times> 8 word list \<times> 'k) \<Rightarrow> read_event \<Rightarrow> mempool \<Rightarrow> 'k \<Rightarrow>
    (((read_event \<times> 8 word list \<times> bool) sysres \<times> 'k) \<times> mempool) res option" where
  "read_process errno rd ev m k =
     with_pool (to_transfer (num_read ev) (num_total ev)) m (\<lambda>n.
       case file_read errno rd (rev_file ev) (replicate n 0) k of
         (Inl e, _, k') \<Rightarrow> (Inl e, k')
       | (Inr bs, _, k') \<Rightarrow>
           (let ev' = ev\<lparr>num_read := num_read ev + length bs\<rparr> in (Inr (ev', bs, num_read ev' < num_total ev'), k')))"

record write_event =
  wev_file :: int
  num_written :: nat
  wnum_total :: nat

text \<open>\<open>write_file_io_event::process\<close>: \<open>get_data\<close> fills the buffer and says how much of it; \<open>buffer_ref::slice\<close> cuts that to the buffer.\<close>

definition write_process :: "('k \<Rightarrow> int) \<Rightarrow> (int \<Rightarrow> 8 word list \<Rightarrow> 'k \<Rightarrow> int \<times> 'k) \<Rightarrow> (nat \<Rightarrow> 8 word list \<times> nat) \<Rightarrow> write_event \<Rightarrow> mempool \<Rightarrow> 'k \<Rightarrow>
    (((write_event \<times> bool) sysres \<times> 'k) \<times> mempool) res option" where
  "write_process errno wr get_data ev m k =
     with_pool (to_transfer (num_written ev) (wnum_total ev)) m (\<lambda>size.
       case get_data size of (buf, n) \<Rightarrow>
       case fb_write errno wr (wev_file ev) (take n buf) k of
         (Inl e, k') \<Rightarrow> (Inl e, k')
       | (Inr w, k') \<Rightarrow>
           (let ev' = ev\<lparr>num_written := num_written ev + min w (length (take n buf))\<rparr>
            in (Inr (ev', num_written ev' < wnum_total ev'), k')))"

section \<open>The processor\<close>

text \<open>\<open>next_reader_\<close> is a place in the list of the readers, \<open>None\<close> for its end.\<close>

record file_processor =
  readers :: "read_event list"
  next_reader :: "nat option"
  next_id :: nat
  pool :: mempool
  log :: "(nat \<times> 8 word list) list"
  completed :: "nat list"

definition fp_new :: file_processor where
  "fp_new = \<lparr>readers = [], next_reader = None, next_id = 0, pool = mp_new 16 4096, log = [], completed = []\<rparr>"

definition add_file_reader :: "int \<Rightarrow> nat \<Rightarrow> file_processor \<Rightarrow> file_processor" where
  "add_file_reader f n p =
     p\<lparr>readers := readers p @ [\<lparr>rev_id = next_id p, rev_file = f, num_read = 0, num_total = n\<rparr>], next_id := next_id p + 1\<rparr>"

definition list_begin :: "'a list \<Rightarrow> nat option" where
  "list_begin xs = (if xs = [] then None else Some 0)"

definition list_place :: "'a list \<Rightarrow> nat \<Rightarrow> nat option" where
  "list_place xs i = (if i < length xs then Some i else None)"

definition process_one_reader :: "('k \<Rightarrow> int) \<Rightarrow> (int \<Rightarrow> nat \<Rightarrow> 'k \<Rightarrow> int \<times> 8 word list \<times> 'k) \<Rightarrow> file_processor \<Rightarrow> 'k \<Rightarrow>
    (file_processor sysres \<times> 'k) res option" where
  "process_one_reader errno rd p k =
     (case next_reader p of
        None \<Rightarrow> Some (Inr (Inr (p\<lparr>next_reader := list_begin (readers p)\<rparr>), k))
      | Some i \<Rightarrow>
          run_bind (read_process errno rd (readers p ! i) (pool p) k) (\<lambda>((r, k'), m).
          case r of
            Inl e \<Rightarrow> Some (Inr (Inl e, k'))
          | Inr (ev, bs, read_more) \<Rightarrow>
               (let p1 = p\<lparr>pool := m, log := log p @ [(rev_id ev, bs)], completed := completed p @ (if read_more then [] else [rev_id ev]),
                          readers := (if read_more then (readers p)[i := ev] else del_at i (readers p))\<rparr>;
                    n = list_place (readers p1) (if read_more then i + 1 else i)
                in Some (Inr (Inr (p1\<lparr>next_reader := (if n = None then list_begin (readers p1) else n)\<rparr>), k')))))"

text \<open>The loop of the thread: as long as the flag is set when it is read; \<open>runs\<close> is how often it is.\<close>

fun io_thread_loop :: "('k \<Rightarrow> int) \<Rightarrow> (int \<Rightarrow> nat \<Rightarrow> 'k \<Rightarrow> int \<times> 8 word list \<times> 'k) \<Rightarrow> nat \<Rightarrow> file_processor \<Rightarrow> 'k \<Rightarrow>
    (file_processor sysres \<times> 'k) res option" where
  "io_thread_loop errno rd 0 p k = Some (Inr (Inr p, k))"
| "io_thread_loop errno rd (Suc runs) p k =
     run_bind (process_one_reader errno rd p k) (\<lambda>(r, k').
       case r of Inl e \<Rightarrow> Some (Inr (Inl e, k')) | Inr p' \<Rightarrow> io_thread_loop errno rd runs p' k')"

section \<open>The pool of one reader\<close>

text \<open>The pages of a transfer when \<open>n\<close> bytes are left.\<close>

definition transfer_pages :: "nat \<Rightarrow> nat" where
  "transfer_pages n = (min 4096 n + 4107) div 4096"

lemma pages_needed_transfer: "unat (pages_needed (min 4096 n) 4096) = transfer_pages n"
proof -
  have "transfer_pages n \<le> 2" by (simp add: transfer_pages_def)
  then have "unat (of_nat (transfer_pages n) :: 32 word) = transfer_pages n" by (simp add: unat_of_nat)
  then show ?thesis by (simp add: pages_needed_def HEADER_SIZE_def transfer_pages_def add.commute)
qed

lemma transfer_pages_mono: "m \<le> n \<Longrightarrow> transfer_pages m \<le> transfer_pages n"
  unfolding transfer_pages_def by (intro div_le_mono) simp

text \<open>The pool is new, or its free list starts with the first page, whose chunk is large enough for transfers of \<open>n\<close> bytes.\<close>

definition pool_ready :: "nat \<Rightarrow> mempool \<Rightarrow> bool" where
  "pool_ready n m \<longleftrightarrow> bytes_per_page m = 4096 \<and> pool_pages m = 16 \<and>
     (next_alloc m = 0 \<and> free_list m = NO_CHUNK \<or> free_list m = 0 \<and> transfer_pages n \<le> unat (hpages (pages m 0)))"

lemma pool_ready_new: "pool_ready n (mp_new 16 4096)"
  by (simp add: pool_ready_def mp_new_def)

lemma pool_ready_less: "pool_ready n m \<Longrightarrow> m' \<le> n \<Longrightarrow> pool_ready m' m"
  using transfer_pages_mono[of m' n] by (auto simp: pool_ready_def)

lemma pool_transfer:
  assumes "pool_ready n m" "l \<le> n" "free_list m = 0 \<or> l = n"
  shows "\<exists>m'. with_pool (min 4096 l) m use = Some (Inr (use (min 4096 l), m')) \<and> pool_ready n m' \<and> free_list m' = 0"
proof -
  have pn: "unat (pages_needed (min 4096 l) (bytes_per_page m)) = transfer_pages l"
    using assms(1) pages_needed_transfer[of l] by (simp add: pool_ready_def)
  have le: "transfer_pages l \<le> transfer_pages n" by (rule transfer_pages_mono[OF assms(2)])
  have two: "transfer_pages n \<le> 2" by (simp add: transfer_pages_def)
  have page0: "0 < pool_pages m" using assms(1) by (simp add: pool_ready_def)
  obtain m1 where g: "get_free_chunk (min 4096 l) m = Some (Inr (Some 0, m1))"
    and m1: "bytes_per_page m1 = 4096" "pool_pages m1 = 16" "htype (pages m1 0) = MEM_CHUNK" "link_or_refs (pages m1 0) = 1"
      "transfer_pages n \<le> unat (hpages (pages m1 0))"
  proof (cases "free_list m = 0")
    case True
    then have h: "transfer_pages n \<le> unat (hpages (pages m 0))" using assms(1) by (auto simp: pool_ready_def NO_CHUNK_def)
    then have "find_free_list_chunk m (unat (pages_needed (min 4096 l) (bytes_per_page m))) (free_list m) = Some (Inr (Some 0))"
      unfolding pn using True le page0 by (subst find_free_list_chunk.simps) (simp add: NO_CHUNK_def get_page_def)
    then show ?thesis using assms(1) h that by (simp add: get_free_chunk_def Let_def set_page_def pool_ready_def)
  next
    case False
    then have f: "next_alloc m = 0" "free_list m = NO_CHUNK" "l = n" using assms(1,3) by (auto simp: pool_ready_def)
    then show ?thesis using assms(1) that pn two
      by (simp add: get_free_chunk_def Let_def set_page_def pool_ready_def find_free_list_none)
  qed
  then have "mp_allocate (min 4096 l) m = Some (Inr (\<lparr>cpool = True, cdata = Some 0, csize = min 4096 l\<rparr>, m1))"
    by (simp add: mp_allocate_def)
  then show ?thesis using m1
    by (simp add: with_pool_def Let_def chunk_close_def dec_ref_def get_page_def set_page_def pool_ready_def)
qed

section \<open>A read is delivered as a whole\<close>

text \<open>What is documented of \<^verbatim>\<open>read\<close> on a file: as long as there are bytes, some of them come, at most as many as were asked for.
  \<open>content f k\<close> is what is left to read of the file.\<close>

definition read_law :: "(int \<Rightarrow> 'k \<Rightarrow> 8 word list) \<Rightarrow> (int \<Rightarrow> nat \<Rightarrow> 'k \<Rightarrow> int \<times> 8 word list \<times> 'k) \<Rightarrow> bool" where
  "read_law content rd \<longleftrightarrow> (\<forall>f n k. case rd f n k of (r, bs, k') \<Rightarrow>
     r = int (length bs) \<and> length bs \<le> n \<and> content f k = bs @ content f k' \<and>
     (bs = [] \<longrightarrow> n = 0 \<or> content f k = []))"

lemma read_process_pool:
  assumes "pool_ready n m" "num_total ev - num_read ev \<le> n" "free_list m = 0 \<or> num_total ev - num_read ev = n"
  shows "\<exists>m'. read_process errno rd ev m k = Some (Inr (case file_read errno rd (rev_file ev) (replicate (to_transfer (num_read ev) (num_total ev)) 0) k of
      (Inl e, _, k') \<Rightarrow> (Inl e, k')
    | (Inr bs, _, k') \<Rightarrow> (let ev' = ev\<lparr>num_read := num_read ev + length bs\<rparr> in (Inr (ev', bs, num_read ev' < num_total ev'), k')), m')) \<and>
    pool_ready n m' \<and> free_list m' = 0"
  unfolding read_process_def to_transfer_def by (rule pool_transfer[OF assms])

lemma read_process_step:
  assumes "read_law content rd" "pool_ready n m" "num_total ev - num_read ev \<le> n" "free_list m = 0 \<or> num_total ev - num_read ev = n"
  obtains bs k' m' where
    "read_process errno rd ev m k = Some (Inr ((Inr (ev\<lparr>num_read := num_read ev + length bs\<rparr>, bs, num_read ev + length bs < num_total ev), k'), m'))"
    "pool_ready n m'" "free_list m' = 0"
    "length bs \<le> num_total ev - num_read ev" "content (rev_file ev) k = bs @ content (rev_file ev) k'"
    "bs = [] \<Longrightarrow> num_total ev \<le> num_read ev \<or> content (rev_file ev) k = []"
proof -
  let ?n = "to_transfer (num_read ev) (num_total ev)"
  obtain r bs k' where r: "rd (rev_file ev) ?n k = (r, bs, k')" by (cases "rd (rev_file ev) ?n k") auto
  have l: "r = int (length bs)" "length bs \<le> ?n" "content (rev_file ev) k = bs @ content (rev_file ev) k'"
    "bs = [] \<Longrightarrow> ?n = 0 \<or> content (rev_file ev) k = []"
    using assms(1) r unfolding read_law_def by (metis (mono_tags, lifting) case_prod_conv)+
  have "?n \<le> 4096" "?n \<le> num_total ev - num_read ev" by (simp_all add: to_transfer_def)
  with l have f: "file_read errno rd (rev_file ev) (replicate ?n 0) k = (Inr bs, bs @ drop (length bs) (replicate ?n 0), k')"
    using r by (intro file_read_bytes) simp_all
  from read_process_pool[OF assms(2-4), of errno rd k] obtain m' where
    m': "read_process errno rd ev m k = Some (Inr ((Inr (ev\<lparr>num_read := num_read ev + length bs\<rparr>, bs, num_read ev + length bs < num_total ev), k'), m'))"
      "pool_ready n m'" "free_list m' = 0"
    unfolding f by (auto simp: Let_def)
  show ?thesis
    by (rule that[OF m']) (use l \<open>?n \<le> num_total ev - num_read ev\<close> in \<open>auto simp: to_transfer_def split: if_splits\<close>)
qed

lemma only_reader_runs:
  assumes "read_law content rd"
  shows "readers p = [ev] \<Longrightarrow> next_reader p = Some 0 \<Longrightarrow> num_read ev < num_total ev \<Longrightarrow>
    num_total ev - num_read ev \<le> length (content (rev_file ev) k) \<Longrightarrow> pool_ready n (pool p) \<Longrightarrow> num_total ev - num_read ev \<le> n \<Longrightarrow>
    free_list (pool p) = 0 \<or> num_total ev - num_read ev = n \<Longrightarrow>
    \<exists>runs \<le> num_total ev - num_read ev. \<exists>p' k' chunks. io_thread_loop errno rd runs p k = Some (Inr (Inr p', k')) \<and>
      log p' = log p @ map (Pair (rev_id ev)) chunks \<and> concat chunks = take (num_total ev - num_read ev) (content (rev_file ev) k) \<and>
      completed p' = completed p @ [rev_id ev] \<and> readers p' = [] \<and> next_reader p' = None \<and> pool_ready n (pool p')"
proof (induction "num_total ev - num_read ev" arbitrary: ev p k rule: less_induct)
  case less
  obtain bs k1 m1 where s: "read_process errno rd ev (pool p) k =
      Some (Inr ((Inr (ev\<lparr>num_read := num_read ev + length bs\<rparr>, bs, num_read ev + length bs < num_total ev), k1), m1))"
    "pool_ready n m1" "free_list m1 = 0"
    "length bs \<le> num_total ev - num_read ev" "content (rev_file ev) k = bs @ content (rev_file ev) k1" "bs \<noteq> []"
    using read_process_step[OF assms less.prems(5,6,7), of errno k] less.prems(3,4)
    by (metis diff_is_0_eq le_zero_eq list.size(3) not_le)
  let ?ev = "ev\<lparr>num_read := num_read ev + length bs\<rparr>"
  show ?case
  proof (cases "num_read ev + length bs < num_total ev")
    case False
    then have "length bs = num_total ev - num_read ev" using s(4) by simp
    then have "io_thread_loop errno rd 1 p k = Some (Inr (Inr (p\<lparr>pool := m1, log := log p @ [(rev_id ev, bs)],
        completed := completed p @ [rev_id ev], readers := [], next_reader := None\<rparr>), k1))"
      "bs = take (num_total ev - num_read ev) (content (rev_file ev) k)"
      using s(1,5) less.prems(1,2) False
      by (simp_all add: process_one_reader_def del_at_def list_place_def list_begin_def Let_def)
    then show ?thesis using less.prems(3) s(2) by (intro exI[of _ 1]) (auto intro!: exI[of _ "[bs]"])
  next
    case True
    define p1 where "p1 = p\<lparr>pool := m1, log := log p @ [(rev_id ev, bs)], readers := [?ev], next_reader := Some 0\<rparr>"
    have one: "process_one_reader errno rd p k = Some (Inr (Inr p1, k1))"
      using s(1) less.prems(1,2) True
      by (simp add: process_one_reader_def p1_def list_place_def list_begin_def Let_def)
    have less1: "num_total ?ev - num_read ?ev < num_total ev - num_read ev" using s(6) True by (cases bs) auto
    have q: "readers p1 = [?ev]" "next_reader p1 = Some 0" "num_read ?ev < num_total ?ev"
      "num_total ?ev - num_read ?ev \<le> length (content (rev_file ?ev) k1)" "pool_ready n (pool p1)"
      "num_total ?ev - num_read ?ev \<le> n" "free_list (pool p1) = 0 \<or> num_total ?ev - num_read ?ev = n"
      using True less.prems(4,6) s(2,3,5) by (simp_all add: p1_def)
    from less.hyps[OF less1 q] have "\<exists>runs \<le> num_total ev - num_read ev - length bs. \<exists>p' k' chunks.
        io_thread_loop errno rd runs p1 k1 = Some (Inr (Inr p', k')) \<and> log p' = log p1 @ map (Pair (rev_id ev)) chunks \<and>
        concat chunks = take (num_total ev - num_read ev - length bs) (content (rev_file ev) k1) \<and>
        completed p' = completed p @ [rev_id ev] \<and> readers p' = [] \<and> next_reader p' = None \<and> pool_ready n (pool p')"
      by (simp add: p1_def)
    then obtain runs p' k' chunks where r:
      "runs \<le> num_total ev - num_read ev - length bs" "io_thread_loop errno rd runs p1 k1 = Some (Inr (Inr p', k'))"
      "log p' = log p1 @ map (Pair (rev_id ev)) chunks"
      "concat chunks = take (num_total ev - num_read ev - length bs) (content (rev_file ev) k1)"
      "completed p' = completed p @ [rev_id ev]" "readers p' = []" "next_reader p' = None" "pool_ready n (pool p')"
      by blast
    have "concat (bs # chunks) = take (num_total ev - num_read ev) (content (rev_file ev) k)"
      using r(4) s(4,5) by simp
    moreover have "Suc runs \<le> num_total ev - num_read ev" using r(1) s(6) True by (cases bs) auto
    ultimately show ?thesis
      using one r by (intro exI[of _ "Suc runs"]) (auto simp: p1_def intro!: exI[of _ "bs # chunks"])
  qed
qed

text \<open>C27: In a reactor that has nothing else to read, and whose pool is new or has served, one at a time, only reads that were not shorter, a
  read of \<open>n\<close> bytes of a file that has them is called back with exactly these bytes, in order, and is completed, after
  at most \<open>n\<close> rounds of the thread and one to find it; the reactor is then ready for another read that is not longer.\<close>

theorem read_async_delivers:
  assumes "read_law content rd" "0 < n" "n \<le> length (content f k)" "readers p0 = []" "next_reader p0 = None" "pool_ready n (pool p0)"
  shows "\<exists>runs \<le> n + 1. \<exists>p k' chunks. io_thread_loop errno rd runs (add_file_reader f n p0) k = Some (Inr (Inr p, k')) \<and>
    log p = log p0 @ map (Pair (next_id p0)) chunks \<and> concat chunks = take n (content f k) \<and>
    completed p = completed p0 @ [next_id p0] \<and> readers p = [] \<and> next_reader p = None \<and> pool_ready n (pool p)"
proof -
  let ?ev = "\<lparr>rev_id = next_id p0, rev_file = f, num_read = 0, num_total = n\<rparr>"
  let ?p = "(add_file_reader f n p0)\<lparr>next_reader := Some 0\<rparr>"
  have one: "process_one_reader errno rd (add_file_reader f n p0) k = Some (Inr (Inr ?p, k))"
    using assms(4,5) by (simp add: process_one_reader_def add_file_reader_def list_begin_def)
  have "readers ?p = [?ev]" "next_reader ?p = Some 0" using assms(4) by (simp_all add: add_file_reader_def)
  from only_reader_runs[OF assms(1) this, of k n errno] obtain runs p k' chunks where
    r: "runs \<le> n" "io_thread_loop errno rd runs ?p k = Some (Inr (Inr p, k'))" "log p = log ?p @ map (Pair (next_id p0)) chunks"
      "concat chunks = take n (content f k)" "completed p = completed ?p @ [next_id p0]" "readers p = []" "next_reader p = None"
      "pool_ready n (pool p)"
    using assms(2,3,6) by (auto simp: add_file_reader_def)
  then show ?thesis
    using one by (intro exI[of _ "Suc runs"]) (auto simp: add_file_reader_def)
qed

definition stream_read :: "int \<Rightarrow> nat \<Rightarrow> 8 word list \<Rightarrow> int \<times> 8 word list \<times> 8 word list" where
  "stream_read f n k = (int (length (take n k)), take n k, drop n k)"

lemma stream_read_law: "read_law (\<lambda>_ k. k) stream_read"
  by (simp add: read_law_def stream_read_def)

theorem read_async_delivers_witness:
  "\<exists>runs \<le> 3 + 1. \<exists>p k' chunks. io_thread_loop (\<lambda>_. 0) stream_read runs (add_file_reader 7 3 fp_new) [1, 2, 3, 4] = Some (Inr (Inr p, k')) \<and>
    log p = map (Pair 0) chunks \<and> concat chunks = take 3 [1, 2, 3, 4] \<and> completed p = [0] \<and> readers p = []"
proof -
  have "readers fp_new = []" "next_reader fp_new = None" "pool_ready 3 (pool fp_new)" "log fp_new = []" "completed fp_new = []" "next_id fp_new = 0"
    by (simp_all add: fp_new_def pool_ready_new)
  with read_async_delivers[OF stream_read_law, of 3 "[1, 2, 3, 4]" fp_new "\<lambda>_. 0" 7] show ?thesis by (simp only:) auto
qed

text \<open>At the end of the file no byte comes, and nothing is ever completed: the thread reads again and again.\<close>

lemma end_of_file_spins:
  assumes "\<And>k. rd f 4096 k = (0, [], k)" "readers p = [\<lparr>rev_id = i, rev_file = f, num_read = d, num_total = d + 4096\<rparr>]"
    "next_reader p = Some 0" "pool_ready 4096 (pool p)"
  shows "\<exists>p'. io_thread_loop errno rd runs p k = Some (Inr (Inr p', k)) \<and> completed p' = completed p \<and> readers p' = readers p"
  using assms(2-4)
proof (induction runs arbitrary: p)
  case (Suc runs)
  have f: "file_read errno rd f (replicate 4096 0) k = (Inr [], replicate 4096 0, k)"
    using assms(1) by (simp add: file_read_def fb_read_def handle_system_error_def as_int_def)
  from read_process_pool[OF Suc.prems(3), of "readers p ! 0" errno rd k] obtain m where
    m: "read_process errno rd (readers p ! 0) (pool p) k = Some (Inr ((Inr (readers p ! 0, [], True), k), m))" "pool_ready 4096 m"
    using f Suc.prems(1) by (auto simp: to_transfer_def Let_def)
  define p1 where "p1 = p\<lparr>pool := m, log := log p @ [(i, [])], next_reader := Some 0\<rparr>"
  have "process_one_reader errno rd p k = Some (Inr (Inr p1, k))"
    using Suc.prems m(1)
    by (simp add: process_one_reader_def list_place_def list_begin_def p1_def Let_def list_update_code)
  then show ?case using Suc.IH[of p1] Suc.prems m(2) by (auto simp: p1_def)
qed simp

text \<open>A chunk stays on the free list when it is rented from there; when it comes back it is its own successor, and the search for a
  larger one does not end: two reads of 10 bytes and one of 5000 hang the thread.\<close>

definition first_loop :: "mempool \<Rightarrow> nat \<Rightarrow> 32 word \<Rightarrow> bool" where
  "first_loop p n i \<longleftrightarrow> i = 0 \<and> 0 < pool_pages p \<and> link_or_refs (pages p 0) = 0 \<and> unat (hpages (pages p 0)) < n"

lemma find_first_loop:
  assumes "find_free_list_chunk p n i = Some r"
  shows "\<not> first_loop p n i"
proof (rule find_free_list_chunk.raw_induct[where P = "\<lambda>p n i _. \<not> first_loop p n i", OF _ assms])
  fix find p n i y
  assume IH: "\<And>p n i y. find p n i = Some y \<Longrightarrow> \<not> first_loop p n i"
    and e: "(if i = NO_CHUNK then Some (Inr None)
      else case get_page p (unat i) of Inl e \<Rightarrow> Some (Inl e)
        | Inr h \<Rightarrow> if n \<le> unat (hpages h) then Some (Inr (Some (unat i))) else find p n (link_or_refs h)) = Some (y :: nat option res)"
  show "\<not> first_loop p n i"
  proof
    assume l: "first_loop p n i"
    with e have "find p n i = Some y" by (simp add: first_loop_def get_page_def NO_CHUNK_def)
    with IH l show False by blast
  qed
qed

definition small_chunk :: "32 word \<Rightarrow> mempool" where
  "small_chunk l = \<lparr>pages = (\<lambda>_. \<lparr>link_or_refs = 0, hpages = 0, htype = 0\<rparr>)(0 := \<lparr>link_or_refs = l, hpages = 1, htype = FREE_CHUNK\<rparr>),
     pool_pages = 16, bytes_per_page = 4096, next_alloc = 1, free_list = 0\<rparr>"

lemma small_chunk_steps:
  "with_pool 10 (mp_new 16 4096) use = Some (Inr (use 10, small_chunk NO_CHUNK))"
  "with_pool 10 (small_chunk NO_CHUNK) use = Some (Inr (use 10, small_chunk 0))"
  "with_pool 4096 (small_chunk 0) use = None"
proof -
  show "with_pool 10 (mp_new 16 4096) use = Some (Inr (use 10, small_chunk NO_CHUNK))"
    by (simp add: with_pool_def mp_allocate_def get_free_chunk_def mp_new_def find_free_list_none pages_needed_def HEADER_SIZE_def
        set_page_def chunk_close_def dec_ref_def get_page_def small_chunk_def Let_def)
  have "find_free_list_chunk (small_chunk NO_CHUNK) 1 0 = Some (Inr (Some 0))"
    by (subst find_free_list_chunk.simps) (simp add: get_page_def small_chunk_def NO_CHUNK_def)
  then show "with_pool 10 (small_chunk NO_CHUNK) use = Some (Inr (use 10, small_chunk 0))"
    by (simp add: with_pool_def mp_allocate_def get_free_chunk_def pages_needed_def HEADER_SIZE_def
        set_page_def chunk_close_def dec_ref_def get_page_def small_chunk_def Let_def)
  have "find_free_list_chunk (small_chunk 0) 2 0 = None"
    using find_first_loop[of "small_chunk 0" 2 0] by (cases "find_free_list_chunk (small_chunk 0) 2 0") (auto simp: small_chunk_def first_loop_def)
  then show "with_pool 4096 (small_chunk 0) use = None"
    by (simp add: with_pool_def mp_allocate_def get_free_chunk_def pages_needed_def HEADER_SIZE_def small_chunk_def Let_def)
qed

lemma reactor_pool_hangs:
  "io_thread_loop errno stream_read 4 (add_file_reader f 5000 (add_file_reader f 10 (add_file_reader f 10 fp_new))) (replicate 6000 0) = None"
proof -
  have r: "file_read errno stream_read f (replicate 10 0) (replicate n 0) = (Inr (replicate 10 0), replicate 10 0, replicate (n - 10) 0)" if "10 \<le> n" for n
    using file_read_bytes[of stream_read f "replicate 10 0" "replicate n 0" "replicate 10 0" "replicate (n - 10) 0" errno] that
    by (simp add: stream_read_def min_def)
  show ?thesis
    by (simp add: numeral_eq_Suc(1)[of "num.Bit0 (num.Bit0 num.One)"] pred_numeral_simps numeral_3_eq_3 process_one_reader_def read_process_def to_transfer_def fp_new_def add_file_reader_def list_begin_def list_place_def
        del_at_def small_chunk_steps r Let_def)
qed

section \<open>The completer\<close>

text \<open>A condition variable without a flag: \<open>wait\<close> puts the caller to sleep, \<open>set_complete\<close> wakes those that sleep. The state is the
  list of the sleeping threads; a sleeper may also wake for no reason.\<close>

datatype completer_op = CWait nat | CSetComplete | CSpurious nat

fun completer_step :: "completer_op \<Rightarrow> nat list \<Rightarrow> nat list" where
  "completer_step (CWait t) sleeping = sleeping @ [t]"
| "completer_step CSetComplete sleeping = []"
| "completer_step (CSpurious t) sleeping = filter (\<lambda>u. u \<noteq> t) sleeping"

fun completer_run :: "completer_op list \<Rightarrow> nat list \<Rightarrow> nat list" where
  "completer_run [] sleeping = sleeping"
| "completer_run (x # xs) sleeping = completer_run xs (completer_step x sleeping)"

text \<open>A caller that waits after the only call of \<open>set_complete\<close> sleeps for ever, unless it wakes for no reason.\<close>

lemma completer_lost_wakeup:
  "CSetComplete \<notin> set xs \<Longrightarrow> CSpurious t \<notin> set xs \<Longrightarrow> t \<in> set sleeping \<Longrightarrow> t \<in> set (completer_run xs sleeping)"
proof (induction xs arbitrary: sleeping)
  case (Cons x xs)
  then show ?case by (cases x) auto
qed simp

lemma completer_late_wait: "CSetComplete \<notin> set xs \<Longrightarrow> CSpurious t \<notin> set xs \<Longrightarrow>
    t \<in> set (completer_run (CSetComplete # CWait t # xs) [])"
  using completer_lost_wakeup[of xs t "[t]"] by simp

end
