(* ===== verification/Pointers.thy ===== *)
theory Pointers
  imports Ownership "HOL-Library.Word"
begin

text \<open>
  \<^verbatim>\<open>include/txl/box.h\<close>, \<^verbatim>\<open>opaque_ptr.h\<close>, \<^verbatim>\<open>tiny_ptr.h\<close>, \<^verbatim>\<open>virtual_ptr.h\<close> and \<^verbatim>\<open>resource_pool.h\<close>. An address is a word of 64 bits, \<open>0\<close> is the null
  pointer. The heap is the list of the addresses that are allocated; to delete any other is undefined behaviour, to delete the null pointer
  does nothing.
\<close>

unbundle bit_operations_syntax

type_synonym heap = "64 word list"

definition heap_delete :: "64 word \<Rightarrow> heap \<Rightarrow> heap res" where
  "heap_delete p h = (if p = 0 then Inr h else if p \<in> set h then Inr (filter (\<lambda>q. q \<noteq> p) h) else Inl UB)"

section \<open>\<open>box\<close>\<close>

text \<open>The pointer, whose lowest bit says that the box owns it.\<close>

type_synonym box = "64 word"

definition PTR_MASK_ADD :: "64 word" where "PTR_MASK_ADD = 1"
definition PTR_MASK_RM :: "64 word" where "PTR_MASK_RM = NOT 1"

definition box_get :: "box \<Rightarrow> 64 word" where "box_get b = b AND PTR_MASK_RM"
definition box_set_mask :: "box \<Rightarrow> box" where "box_set_mask b = b OR PTR_MASK_ADD"
definition box_is_owned :: "box \<Rightarrow> bool" where "box_is_owned b \<longleftrightarrow> b AND PTR_MASK_ADD \<noteq> 0"
definition box_has_value :: "box \<Rightarrow> bool" where "box_has_value b \<longleftrightarrow> box_get b \<noteq> 0"

definition box_null :: box where "box_null = 0"

definition box_new :: "64 word \<Rightarrow> bool \<Rightarrow> box" where
  "box_new p owned = (if owned then box_set_mask p else p)"

definition box_from_unique :: "64 word \<Rightarrow> box" where "box_from_unique p = box_new p True"
definition box_from_ref :: "64 word \<Rightarrow> box" where "box_from_ref p = box_new p False"

text \<open>What both boxes hold after a move construction.\<close>

definition box_move :: "box \<Rightarrow> box \<times> box" where "box_move b = (b, 0)"

definition box_erase :: "box \<Rightarrow> heap \<Rightarrow> (box \<times> heap) res" where
  "box_erase b h = (if box_is_owned b then and_then (heap_delete (box_get b) h) (\<lambda>h'. Inr (0, h')) else Inr (b, h))"

definition box_destroy :: "box \<Rightarrow> heap \<Rightarrow> heap res" where
  "box_destroy b h = and_then (box_erase b h) (\<lambda>(_, h'). Inr h')"

definition box_assign :: "box \<Rightarrow> box \<Rightarrow> heap \<Rightarrow> ((box \<times> box) \<times> heap) res" where
  "box_assign this b h = and_then (box_erase this h) (\<lambda>(this', h'). Inr ((b, this'), h'))"

definition box_deref :: "box \<Rightarrow> 64 word res" where
  "box_deref b = (if box_has_value b then Inr (box_get b) else Inl UB)"

text \<open>An aligned pointer is even.\<close>

lemma box_bits:
  assumes "even p"
  shows "box_get (box_new p o1) = p" "box_is_owned (box_new p o1) \<longleftrightarrow> o1"
proof -
  have e: "p AND 1 = 0" using assms by (simp add: and_one_eq even_iff_mod_2_eq_zero)
  have "(p OR 1) AND NOT 1 = p"
    using e by (intro bit_word_eqI) (auto simp: bit_simps bit_eq_iff)
  moreover have "p AND NOT 1 = p" using e by (intro bit_word_eqI) (auto simp: bit_simps bit_eq_iff)
  ultimately show "box_get (box_new p o1) = p"
    by (simp add: box_get_def box_new_def box_set_mask_def PTR_MASK_ADD_def PTR_MASK_RM_def)
  have "(p OR 1) AND 1 = 1" by (intro bit_word_eqI) (auto simp: bit_simps)
  then show "box_is_owned (box_new p o1) \<longleftrightarrow> o1"
    using e by (simp add: box_is_owned_def box_new_def box_set_mask_def PTR_MASK_ADD_def)
qed

text \<open>A box that was to refer to an object at an odd address takes it for its own, and deletes the address before it.\<close>

lemma box_odd: "odd p \<Longrightarrow> box_is_owned (box_from_ref p) \<and> box_get (box_from_ref p) = p - 1"
proof -
  assume o: "odd p"
  then have "p AND 1 = 1" by (simp add: and_one_eq odd_iff_mod_2_eq_one)
  moreover have "NOT p AND 1 = 0"
    using \<open>p AND 1 = 1\<close> by (auto simp: bit_eq_iff bit_simps)
  then have "p AND NOT 1 = p - 1" by (simp add: disjunctive_diff_eq_and_not)
  ultimately show ?thesis
    by (simp add: box_is_owned_def box_get_def box_from_ref_def box_new_def PTR_MASK_ADD_def PTR_MASK_RM_def)
qed

text \<open>A program that makes boxes for new objects and for objects of others, moves, assigns, erases and destroys them. A new object has an
  even address that was not allocated.\<close>

datatype box_op =
    BNew "64 word"
  | BRef "64 word"
  | BMove nat
  | BAssign nat nat
  | BErase nat
  | BDestroy nat

fun box_step :: "box_op \<Rightarrow> box list \<times> heap \<Rightarrow> (box list \<times> heap) res" where
  "box_step (BNew p) (bs, h) = Inr (if even p \<and> p \<noteq> 0 \<and> p \<notin> set h then (bs @ [box_from_unique p], p # h) else (bs, h))"
| "box_step (BRef p) (bs, h) = Inr (if even p then (bs @ [box_from_ref p], h) else (bs, h))"
| "box_step (BMove i) (bs, h) =
     Inr (if i < length bs then case box_move (bs ! i) of (b, b') \<Rightarrow> (bs[i := b'] @ [b], h) else (bs, h))"
| "box_step (BAssign i j) (bs, h) =
     (if i < length bs \<and> j < length bs \<and> i \<noteq> j
      then and_then (box_assign (bs ! i) (bs ! j) h) (\<lambda>((a, b), h'). Inr (bs[i := a, j := b], h')) else Inr (bs, h))"
| "box_step (BErase i) (bs, h) =
     (if i < length bs then and_then (box_erase (bs ! i) h) (\<lambda>(b, h'). Inr (bs[i := b], h')) else Inr (bs, h))"
| "box_step (BDestroy i) (bs, h) =
     (if i < length bs then and_then (box_destroy (bs ! i) h) (\<lambda>h'. Inr (del_at i bs, h')) else Inr (bs, h))"

fun box_run :: "box_op list \<Rightarrow> box list \<times> heap \<Rightarrow> (box list \<times> heap) res" where
  "box_run [] s = Inr s"
| "box_run (x # xs) s = and_then (box_step x s) (box_run xs)"

definition box_res :: "box \<Rightarrow> 64 word option" where
  "box_res b = (if box_is_owned b \<and> box_get b \<noteq> 0 then Some (box_get b) else None)"

interpretation boxes: owner box_res .

lemma box_res_new: "even p \<Longrightarrow> box_res (box_new p o1) = (if o1 \<and> p \<noteq> 0 then Some p else None)"
  by (simp add: box_res_def box_bits)

lemma box_res_null [simp]: "box_res 0 = None"
  by (simp add: box_res_def box_is_owned_def)

text \<open>Erasing an owner gives its object back; erasing any other box leaves it as it is.\<close>

lemma box_erase_owned:
  assumes "boxes.owned others bs (set h)" "i < length bs"
  shows "\<exists>b h'. box_erase (bs ! i) h = Inr (b, h') \<and> box_res b = None \<and> boxes.owned others (bs[i := b]) (set h')"
proof (cases "box_res (bs ! i)")
  case None
  then have "box_erase (bs ! i) h = Inr (if box_is_owned (bs ! i) then 0 else bs ! i, h)"
    by (auto simp: box_erase_def box_res_def heap_delete_def split: if_splits)
  then show ?thesis using assms None boxes.owned_same[OF assms(2)] by auto
next
  case (Some p)
  then have p: "box_is_owned (bs ! i)" "box_get (bs ! i) = p" "p \<noteq> 0" by (auto simp: box_res_def split: if_splits)
  have "p \<in> set h" using assms Some by (rule boxes.owned_live)
  then have "box_erase (bs ! i) h = Inr (0, filter (\<lambda>q. q \<noteq> p) h)"
    using p by (simp add: box_erase_def heap_delete_def)
  moreover have "set (filter (\<lambda>q. q \<noteq> p) h) = set h - {p}" by auto
  ultimately show ?thesis using boxes.owned_release[OF assms(2) Some box_res_null assms(1)] by auto
qed

lemma box_step_owned:
  assumes "boxes.owned others bs (set h)"
  shows "\<exists>bs' h'. box_step x (bs, h) = Inr (bs', h') \<and> boxes.owned others bs' (set h')"
proof (cases x)
  case (BNew p)
  show ?thesis
  proof (cases "even p \<and> p \<noteq> 0 \<and> p \<notin> set h")
    case True
    have "boxes.owned others (bs @ [0]) (set h)" using assms by (simp add: boxes.owned_add)
    from boxes.owned_acquire[OF _ _ _ _ this, of "length bs" "box_from_unique p" p] True
    have "boxes.owned others (bs @ [box_from_unique p]) (insert p (set h))"
      by (simp add: box_from_unique_def box_res_new)
    then show ?thesis using BNew True by simp
  qed (use BNew assms in auto)
next
  case (BRef p)
  then show ?thesis using assms by (simp add: boxes.owned_add box_from_ref_def box_res_new)
next
  case (BMove i)
  show ?thesis
  proof (cases "i < length bs")
    case True
    have "boxes.owned others ((bs @ [0])[i := 0, length bs := bs ! i]) (set h)"
      using True assms by (subst boxes.owned_exchange) (simp_all add: nth_append boxes.owned_add)
    then show ?thesis using BMove True by (simp add: box_move_def list_update_append)
  qed (use BMove assms in auto)
next
  case (BAssign i j)
  show ?thesis
  proof (cases "i < length bs \<and> j < length bs \<and> i \<noteq> j")
    case True
    then obtain b h' where b: "box_erase (bs ! i) h = Inr (b, h')" "box_res b = None" "boxes.owned others (bs[i := b]) (set h')"
      using box_erase_owned[OF assms, of i] by blast
    have "boxes.owned others (bs[i := b, i := bs ! j, j := b]) (set h')"
      using True b by (subst boxes.owned_exchange) simp_all
    then show ?thesis using BAssign True b by (simp add: box_assign_def)
  qed (use BAssign assms in auto)
next
  case (BErase i)
  then show ?thesis using assms box_erase_owned[OF assms, of i] by auto
next
  case (BDestroy i)
  show ?thesis
  proof (cases "i < length bs")
    case True
    then obtain b h' where b: "box_erase (bs ! i) h = Inr (b, h')" "box_res b = None" "boxes.owned others (bs[i := b]) (set h')"
      using box_erase_owned[OF assms, of i] by blast
    have "boxes.owned others (del_at i (bs[i := b])) (set h')" using True b by (subst boxes.owned_remove) simp_all
    then show ?thesis using BDestroy True b by (simp add: box_destroy_def del_at_def)
  qed (use BDestroy assms in auto)
qed

text \<open>No box deletes what another one owns or what is not its own, and every object that is not deleted has its box.\<close>

theorem boxes_delete_once:
  "\<exists>bs h'. box_run xs ([], h) = Inr (bs, h') \<and> boxes.owned (set h) bs (set h')"
proof -
  have "boxes.owned (set h) bs (set h1) \<Longrightarrow> \<exists>bs' h'. box_run xs (bs, h1) = Inr (bs', h') \<and> boxes.owned (set h) bs' (set h')" for bs h1
  proof (induction xs arbitrary: bs h1)
    case (Cons x xs)
    then show ?case using box_step_owned[OF Cons.prems, of x] by fastforce
  qed simp
  then show ?thesis by (simp add: boxes.owned_nil)
qed

section \<open>\<open>opaque_ptr\<close>\<close>

text \<open>The two lowest bits say which member of the union lives: a unique or a shared pointer. The references to a shared object are
  counted in \<open>refs\<close>. An assertion that fails ends the program (\<open>UB\<close> here).\<close>

definition UNIQUE_PTR_MASK :: "64 word" where "UNIQUE_PTR_MASK = 1"
definition SHARED_PTR_MASK :: "64 word" where "SHARED_PTR_MASK = 2"
definition PTR_MASK :: "64 word" where "PTR_MASK = NOT (UNIQUE_PTR_MASK OR SHARED_PTR_MASK)"

datatype smart = NoSmart | Unique "64 word" | Shared "64 word"

record opaque_ptr =
  op_union :: smart
  op_bits :: "64 word"

definition op_get :: "opaque_ptr \<Rightarrow> 64 word" where "op_get o1 = op_bits o1 AND PTR_MASK"
definition op_is_unique :: "opaque_ptr \<Rightarrow> bool" where "op_is_unique o1 \<longleftrightarrow> op_bits o1 AND UNIQUE_PTR_MASK \<noteq> 0"
definition op_is_shared :: "opaque_ptr \<Rightarrow> bool" where "op_is_shared o1 \<longleftrightarrow> op_bits o1 AND SHARED_PTR_MASK \<noteq> 0"
definition op_has_value :: "opaque_ptr \<Rightarrow> bool" where "op_has_value o1 \<longleftrightarrow> op_get o1 \<noteq> 0"

definition op_apply_mask :: "64 word \<Rightarrow> opaque_ptr \<Rightarrow> opaque_ptr res" where
  "op_apply_mask m o1 = (if op_bits o1 AND m = 0 then Inr (o1\<lparr>op_bits := (op_bits o1 AND PTR_MASK) OR m\<rparr>) else Inl UB)"

definition op_from_unique :: "64 word \<Rightarrow> opaque_ptr res" where
  "op_from_unique p = op_apply_mask UNIQUE_PTR_MASK \<lparr>op_union = Unique p, op_bits = p\<rparr>"

definition op_from_shared :: "64 word \<Rightarrow> opaque_ptr res" where
  "op_from_shared p = op_apply_mask SHARED_PTR_MASK \<lparr>op_union = Shared p, op_bits = p\<rparr>"

definition op_from_ptr :: "64 word \<Rightarrow> opaque_ptr" where
  "op_from_ptr p = \<lparr>op_union = NoSmart, op_bits = p\<rparr>"

text \<open>The destructor: the unique pointer deletes its object, the shared pointer gives up its reference.\<close>

definition op_destroy :: "opaque_ptr \<Rightarrow> heap \<times> (64 word \<Rightarrow> nat) \<Rightarrow> (heap \<times> (64 word \<Rightarrow> nat)) res" where
  "op_destroy o1 s =
     (if op_is_unique o1
      then (case op_union o1 of Unique p \<Rightarrow> and_then (heap_delete p (fst s)) (\<lambda>h. Inr (h, snd s)) | _ \<Rightarrow> Inl UB)
      else if op_is_shared o1
      then (case op_union o1 of Shared p \<Rightarrow> Inr (fst s, if p = 0 then snd s else (snd s)(p := snd s p - 1)) | _ \<Rightarrow> Inl UB)
      else Inr s)"

lemma opaque_bits:
  assumes "p AND 3 = (0 :: 64 word)"
  shows "p AND 1 = 0" "p AND 2 = 0" "p AND NOT 3 = p" "(p OR 1) AND NOT 3 = p" "(p OR 2) AND NOT 3 = p"
    "(p OR 1) AND 1 = 1" "(p OR 2) AND 1 = 0" "(p OR 2) AND 2 = 2"
proof -
  have "p AND 1 = (p AND 3) AND 1" "p AND 2 = (p AND 3) AND 2" by (simp_all add: and.assoc)
  then show one: "p AND 1 = 0" and two: "p AND 2 = 0" unfolding assms by simp_all
  have "p = (p AND 3) OR (p AND NOT 3)" by (simp flip: bit.conj_disj_distrib)
  then show three': "p AND NOT 3 = p" unfolding assms by simp
  have d: "(1 :: 64 word) AND NOT 3 = 0" "(2 :: 64 word) AND NOT 3 = 0" "(2 :: 64 word) AND 1 = 0" by simp_all
  show "(p OR 1) AND NOT 3 = p" "(p OR 2) AND NOT 3 = p" "(p OR 1) AND 1 = 1" "(p OR 2) AND 1 = 0" "(p OR 2) AND 2 = 2"
    using one two three' d by (simp_all add: bit.conj_disj_distrib2)
qed

text \<open>Of an aligned pointer the bits find the member that lives, and the pointer.\<close>

lemma opaque_ptr_kinds:
  assumes "p AND 3 = 0"
  shows "\<exists>o1. op_from_unique p = Inr o1 \<and> op_get o1 = p \<and> (p \<in> set h \<longrightarrow> op_destroy o1 (h, r) = Inr (filter (\<lambda>q. q \<noteq> p) h, r) \<or> p = 0)"
    and "\<exists>o1. op_from_shared p = Inr o1 \<and> op_get o1 = p \<and> (p \<noteq> 0 \<longrightarrow> op_destroy o1 (h, r) = Inr (h, r(p := r p - 1)))"
    and "op_get (op_from_ptr p) = p" "op_destroy (op_from_ptr p) (h, r) = Inr (h, r)"
  using opaque_bits[OF assms]
  by (auto simp: op_from_unique_def op_from_shared_def op_from_ptr_def op_apply_mask_def op_get_def op_destroy_def
      op_is_unique_def op_is_shared_def UNIQUE_PTR_MASK_def SHARED_PTR_MASK_def PTR_MASK_def heap_delete_def)

section \<open>\<open>tiny_ptr\<close>\<close>

text \<open>An offset of 32 bits from a base that is fixed by the first pointer, to one byte before it. \<open>stride\<close> is the template argument.\<close>

type_synonym tiny_ptr = "32 word"

definition tp_init_once :: "64 word \<Rightarrow> 64 word \<Rightarrow> 64 word" where
  "tp_init_once p base = (if base = 0 then p - 1 else base)"

definition tp_base_of :: "64 word \<Rightarrow> 64 word" where "tp_base_of p = p"

text \<open>The new pointer and the base.\<close>

definition tp_new :: "64 word \<Rightarrow> 64 word \<Rightarrow> 64 word \<Rightarrow> tiny_ptr \<times> 64 word" where
  "tp_new stride base p = (let b = tp_init_once p base in (ucast ((p - b) div stride), b))"

definition tp_is_null :: "tiny_ptr \<Rightarrow> bool" where "tp_is_null t \<longleftrightarrow> t = 0"

definition tp_deref :: "64 word \<Rightarrow> 64 word \<Rightarrow> tiny_ptr \<Rightarrow> 64 word" where
  "tp_deref stride base t = base + scast t * stride"

definition tp_less :: "tiny_ptr \<Rightarrow> tiny_ptr \<Rightarrow> bool" where "tp_less s t \<longleftrightarrow> sint s < sint t"
definition tp_less_eq :: "tiny_ptr \<Rightarrow> tiny_ptr \<Rightarrow> bool" where "tp_less_eq s t \<longleftrightarrow> sint s \<le> sint t"

text \<open>The pointers of one type share a base.\<close>

definition to_tiny_ptr :: "64 word \<Rightarrow> 64 word \<Rightarrow> tiny_ptr \<times> 64 word" where "to_tiny_ptr base p = tp_new 1 base p"
definition from_tiny_ptr :: "64 word \<Rightarrow> tiny_ptr \<Rightarrow> 64 word" where "from_tiny_ptr base t = tp_deref 1 base t"

definition near :: "64 word \<Rightarrow> 64 word \<Rightarrow> bool" where
  "near base p \<longleftrightarrow> - (2 ^ 31) \<le> sint (p - base) \<and> sint (p - base) < 2 ^ 31"

lemma sint_ucast_near: "- (2 ^ 31) \<le> sint d \<Longrightarrow> sint d < 2 ^ 31 \<Longrightarrow> sint (ucast d :: 32 word) = sint (d :: 64 word)"
proof -
  assume d: "- (2 ^ 31) \<le> sint d" "sint d < 2 ^ 31"
  have "sint (ucast d :: 32 word) = signed_take_bit 31 (sint d)"
    by transfer (simp add: signed_take_bit_take_bit)
  then show ?thesis using d by (simp add: signed_take_bit_int_eq_self)
qed

lemma tp_new_near:
  assumes "near base p" "base \<noteq> 0"
  shows "tp_deref 1 base (fst (tp_new 1 base p)) = p" "snd (tp_new 1 base p) = base"
proof -
  define d where "d = p - base"
  have near_d: "sint (ucast d :: 32 word) = sint d" using assms(1) by (intro sint_ucast_near) (simp_all add: near_def d_def)
  have "scast (ucast d :: 32 word) = (word_of_int (sint (ucast d :: 32 word)) :: 64 word)" by (rule scast_eq)
  then have "scast (ucast d :: 32 word) = d" unfolding near_d by simp
  then show "tp_deref 1 base (fst (tp_new 1 base p)) = p"
    using assms(2) by (simp add: tp_new_def tp_deref_def tp_init_once_def d_def)
  show "snd (tp_new 1 base p) = base" using assms(2) by (simp add: tp_new_def tp_init_once_def Let_def)
qed

text \<open>Pointers within 2 GB of the base come back, and keep their order; the null pointer is the byte of the base.\<close>

theorem tiny_ptr_roundtrip:
  assumes "near base p" "base \<noteq> 0"
  shows "from_tiny_ptr base (fst (to_tiny_ptr base p)) = p"
  using tp_new_near(1)[OF assms] by (simp add: from_tiny_ptr_def to_tiny_ptr_def)

lemma tiny_ptr_order:
  assumes "near base p" "near base q" "base \<noteq> 0"
  shows "tp_less (fst (to_tiny_ptr base p)) (fst (to_tiny_ptr base q)) \<longleftrightarrow> sint (p - base) < sint (q - base)"
  using assms by (simp add: tp_less_def to_tiny_ptr_def tp_new_def tp_init_once_def near_def sint_ucast_near)

lemma tiny_ptr_null: "base \<noteq> 0 \<Longrightarrow> near base p \<Longrightarrow> tp_is_null (fst (to_tiny_ptr base p)) \<longleftrightarrow> p = base"
  using tiny_ptr_roundtrip[of base p]
  by (auto simp: tp_is_null_def from_tiny_ptr_def to_tiny_ptr_def tp_new_def tp_init_once_def tp_deref_def)

text \<open>With a stride of more than a byte the first pointer is null.\<close>

lemma tiny_ptr_stride: "1 < stride \<Longrightarrow> tp_is_null (fst (tp_new stride 0 p))"
  by (simp add: tp_is_null_def tp_new_def tp_init_once_def Let_def word_less_nat_alt word_arith_nat_div)


section \<open>\<open>virtual_ptr\<close> and \<open>heap_ptr\<close>\<close>

text \<open>A pointer to a holder, which has a pointer to the object of another or the object itself. The holders live in a memory of their own,
  each at the address \<open>new\<close> gave it.\<close>

datatype 'v holder = VHolder "64 word" | HHolder 'v

record 'v holders =
  hs_next :: nat
  hs_live :: "(nat \<times> 'v holder) list"

definition holder_new :: "'v holder \<Rightarrow> 'v holders \<Rightarrow> nat \<times> 'v holders" where
  "holder_new x m = (hs_next m, m\<lparr>hs_next := Suc (hs_next m), hs_live := (hs_next m, x) # hs_live m\<rparr>)"

definition holder_delete :: "nat \<Rightarrow> 'v holders \<Rightarrow> 'v holders res" where
  "holder_delete a m = (if a \<in> fst ` set (hs_live m) then Inr (m\<lparr>hs_live := filter (\<lambda>(b, _). b \<noteq> a) (hs_live m)\<rparr>) else Inl UB)"

definition holder_at :: "nat \<Rightarrow> 'v holders \<Rightarrow> 'v holder res" where
  "holder_at a m = (case map_of (hs_live m) a of None \<Rightarrow> Inl UB | Some x \<Rightarrow> Inr x)"

text \<open>What \<open>ptr\<close> returns: the object of another, or the one in this holder.\<close>

fun holder_ptr :: "'v holder \<Rightarrow> 64 word + 'v" where
  "holder_ptr (VHolder p) = Inl p"
| "holder_ptr (HHolder v) = Inr v"

fun holder_copy :: "'v holder \<Rightarrow> 'v holder res" where
  "holder_copy (VHolder p) = Inr (VHolder p)"
| "holder_copy (HHolder v) = Inl (RuntimeError ''cannot copy a heap-backed virtual_ptr'')"

type_synonym virtual_ptr = "nat option"

definition vp_new :: "64 word \<Rightarrow> 'v holders \<Rightarrow> virtual_ptr \<times> 'v holders" where
  "vp_new p m = (let (a, m') = holder_new (VHolder p) m in (Some a, m'))"

definition make_heap_ptr :: "'v \<Rightarrow> 'v holders \<Rightarrow> virtual_ptr \<times> 'v holders" where
  "make_heap_ptr v m = (let (a, m') = holder_new (HHolder v) m in (Some a, m'))"

definition vp_reset :: "virtual_ptr \<Rightarrow> 'v holders \<Rightarrow> (virtual_ptr \<times> 'v holders) res" where
  "vp_reset this m = (case this of None \<Rightarrow> Inr (None, m) | Some a \<Rightarrow> and_then (holder_delete a m) (\<lambda>m'. Inr (None, m')))"

definition vp_destroy :: "virtual_ptr \<Rightarrow> 'v holders \<Rightarrow> 'v holders res" where
  "vp_destroy this m = and_then (vp_reset this m) (\<lambda>(_, m'). Inr m')"

definition vp_assign :: "virtual_ptr \<Rightarrow> virtual_ptr \<Rightarrow> 'v holders \<Rightarrow> (virtual_ptr \<times> 'v holders) res" where
  "vp_assign this p m =
     (case p of
        None \<Rightarrow> vp_reset this m
      | Some a \<Rightarrow>
          and_then (holder_at a m) (\<lambda>x. and_then (holder_copy x) (\<lambda>y.
            let (b, m1) = holder_new y m in and_then (vp_reset this m1) (\<lambda>(_, m2). Inr (Some b, m2)))))"

definition vp_copy :: "virtual_ptr \<Rightarrow> 'v holders \<Rightarrow> (virtual_ptr \<times> 'v holders) res" where
  "vp_copy p m =
     (case p of
        None \<Rightarrow> vp_reset None m
      | Some a \<Rightarrow>
          and_then (holder_at a m) (\<lambda>x. and_then (holder_copy x) (\<lambda>y.
            let (b, m1) = holder_new y m in and_then (vp_reset None m1) (\<lambda>(_, m2). Inr (Some b, m2)))))"

definition vp_move :: "virtual_ptr \<Rightarrow> virtual_ptr \<times> virtual_ptr" where "vp_move p = (p, None)"

definition vp_move_assign :: "virtual_ptr \<Rightarrow> virtual_ptr \<Rightarrow> 'v holders \<Rightarrow> ((virtual_ptr \<times> virtual_ptr) \<times> 'v holders) res" where
  "vp_move_assign this p m =
     and_then (case this of None \<Rightarrow> Inr (this, m) | Some a \<Rightarrow> and_then (holder_delete a m) (\<lambda>m'. Inr (None, m')))
       (\<lambda>(this', m'). Inr ((p, this'), m'))"

text \<open>Each virtual pointer owns its holder.\<close>

interpretation vps: owner "\<lambda>p :: virtual_ptr. p" .

definition vps_ok :: "virtual_ptr list \<Rightarrow> 'v holders \<Rightarrow> bool" where
  "vps_ok ps m \<longleftrightarrow> vps.owned {} ps (fst ` set (hs_live m)) \<and> (\<forall>a \<in> fst ` set (hs_live m). a < hs_next m)"

lemma holder_delete_live:
  "a \<in> fst ` set (hs_live m) \<Longrightarrow>
    \<exists>m'. holder_delete a m = Inr m' \<and> fst ` set (hs_live m') = fst ` set (hs_live m) - {a} \<and> hs_next m' = hs_next m"
  unfolding holder_delete_def by force

lemma vps_reset:
  assumes "vps_ok ps m" "i < length ps"
  shows "\<exists>m'. vp_reset (ps ! i) m = Inr (None, m') \<and> vps_ok (ps[i := None]) m'"
proof (cases "ps ! i")
  case None
  then have "ps[i := None] = ps" by (metis list_update_id)
  then show ?thesis using assms None by (simp add: vp_reset_def)
next
  case (Some a)
  have o: "vps.owned {} ps (fst ` set (hs_live m))" using assms(1) by (simp add: vps_ok_def)
  obtain m' where m: "holder_delete a m = Inr m'" "fst ` set (hs_live m') = fst ` set (hs_live m) - {a}" "hs_next m' = hs_next m"
    using holder_delete_live[OF vps.owned_live[OF o assms(2) Some]] by blast
  have "vps_ok (ps[i := None]) m'"
    using assms(1) vps.owned_release[OF assms(2) Some refl o] unfolding vps_ok_def m(2,3) by blast
  then show ?thesis using m(1) Some by (simp add: vp_reset_def)
qed

text \<open>To make a pointer, to move, to reset and to copy: no holder is deleted twice or leaked. The copy of a pointer to a heap holder
  throws and changes nothing.\<close>

lemma vps_new:
  assumes "vps_ok ps m"
  shows "vps_ok (ps @ [fst (vp_new p m)]) (snd (vp_new p m))" "vps_ok (ps @ [fst (make_heap_ptr v m)]) (snd (make_heap_ptr v m))"
proof -
  have "vps.owned {} (ps @ [None]) (fst ` set (hs_live m))" "hs_next m \<notin> fst ` set (hs_live m)"
    using assms by (auto simp: vps_ok_def vps.owned_add)
  from vps.owned_acquire[OF _ _ _ this(2,1), of "length ps" "Some (hs_next m)"]
  show "vps_ok (ps @ [fst (vp_new p m)]) (snd (vp_new p m))" "vps_ok (ps @ [fst (make_heap_ptr v m)]) (snd (make_heap_ptr v m))"
    using assms by (auto simp: vps_ok_def vp_new_def make_heap_ptr_def holder_new_def)
qed

lemma vps_move: "vps_ok ps m \<Longrightarrow> i < length ps \<Longrightarrow> (case vp_move (ps ! i) of (q, p) \<Rightarrow> vps_ok (ps[i := p] @ [q]) m)"
proof -
  assume a: "vps_ok ps m" "i < length ps"
  have "vps.owned {} ((ps @ [None])[i := None, length ps := ps ! i]) (fst ` set (hs_live m))"
    using a by (subst vps.owned_exchange) (simp_all add: nth_append vps.owned_add vps_ok_def)
  then show ?thesis using a by (simp add: vps_ok_def vp_move_def list_update_append)
qed

lemma vps_move_assign:
  assumes "vps_ok ps m" "i < length ps" "j < length ps" "i \<noteq> j"
  shows "\<exists>m'. vp_move_assign (ps ! i) (ps ! j) m = Inr ((ps ! j, None), m') \<and> vps_ok (ps[i := ps ! j, j := None]) m'"
proof -
  obtain m' where m: "vp_reset (ps ! i) m = Inr (None, m')" "vps_ok (ps[i := None]) m'" using vps_reset assms by blast
  then have "vp_move_assign (ps ! i) (ps ! j) m = Inr ((ps ! j, None), m')"
    by (auto simp: vp_move_assign_def vp_reset_def and_then_eq_Inr split: option.splits)
  moreover have "vps.owned {} (ps[i := None, i := ps ! j, j := None]) (fst ` set (hs_live m'))"
    using assms m(2) by (subst vps.owned_exchange) (simp_all add: vps_ok_def)
  ultimately show ?thesis using m(2) by (simp add: vps_ok_def)
qed

lemma vp_copy_heap: "vp_copy (fst (make_heap_ptr v m)) (snd (make_heap_ptr v m)) = Inl (RuntimeError ''cannot copy a heap-backed virtual_ptr'')"
  by (simp add: vp_copy_def make_heap_ptr_def holder_new_def holder_at_def)

lemma vps_copy:
  assumes "vps_ok ps m" "i < length ps" "ps ! i = Some a" "holder_at a m = Inr (VHolder p)"
  shows "\<exists>q m'. vp_copy (ps ! i) m = Inr (q, m') \<and> vps_ok (ps @ [q]) m'"
  using assms vps_new(1)[OF assms(1), of p] by (simp add: vp_copy_def vp_new_def vp_reset_def Let_def split: prod.splits)


section \<open>\<open>resource_pool\<close>\<close>

text \<open>A resource is empty or has its value; the pool is the queue of the resources that are ready. The factory is a parameter, with its
  state.\<close>

type_synonym 'v resource = "'v option"

definition resource_empty :: "'v resource \<Rightarrow> bool" where "resource_empty r \<longleftrightarrow> r = None"
definition resource_deref :: "'v resource \<Rightarrow> 'v res" where "resource_deref r = (case r of None \<Rightarrow> Inl UB | Some v \<Rightarrow> Inr v)"

fun rp_new :: "('s \<Rightarrow> 'v resource \<times> 's) \<Rightarrow> nat \<Rightarrow> 's \<Rightarrow> 'v resource list \<times> 's" where
  "rp_new fac 0 s = ([], s)"
| "rp_new fac (Suc n) s = (let (r, s1) = fac s; (q, s2) = rp_new fac n s1 in (r # q, s2))"

definition rp_get :: "('s \<Rightarrow> 'v resource \<times> 's) \<Rightarrow> 'v resource list \<Rightarrow> 's \<Rightarrow> 'v resource \<times> 'v resource list \<times> 's" where
  "rp_get fac ready s = (if length ready \<noteq> 0 then (ready ! 0, del_at 0 ready, s) else (let (r, s') = fac s in (r, ready, s')))"

text \<open>The pool and what is left of the resource of the caller.\<close>

definition rp_put :: "'v resource \<Rightarrow> 'v resource list \<Rightarrow> 'v resource list \<times> 'v resource" where
  "rp_put r ready = (if \<not> resource_empty r then (ready @ [r], None) else (ready, r))"

datatype 'v rp_op = RpGet | RpPut nat

text \<open>A program keeps a list of resources: it takes one from the pool, or puts one back.\<close>

fun rp_step :: "('s \<Rightarrow> 'v resource \<times> 's) \<Rightarrow> 'v rp_op \<Rightarrow> 'v resource list \<times> 'v resource list \<times> 's \<Rightarrow> 'v resource list \<times> 'v resource list \<times> 's" where
  "rp_step fac RpGet (mine, ready, s) = (let (r, ready', s') = rp_get fac ready s in (mine @ [r], ready', s'))"
| "rp_step fac (RpPut i) (mine, ready, s) =
     (if i < length mine then let (ready', r) = rp_put (mine ! i) ready in (mine[i := r], ready', s) else (mine, ready, s))"

fun rp_run :: "('s \<Rightarrow> 'v resource \<times> 's) \<Rightarrow> 'v rp_op list \<Rightarrow> 'v resource list \<times> 'v resource list \<times> 's \<Rightarrow> 'v resource list \<times> 'v resource list \<times> 's" where
  "rp_run fac [] st = st"
| "rp_run fac (x # xs) st = rp_run fac xs (rp_step fac x st)"

text \<open>The state of a factory that counts what it has made; its values are \<open>0, 1, 2, \<dots>\<close>.\<close>

definition counting :: "nat \<Rightarrow> nat resource \<times> nat" where "counting n = (Some n, Suc n)"

text \<open>The resources owned by the program and the pool, without the empty ones.\<close>

abbreviation values_of :: "'v resource list \<Rightarrow> 'v multiset" where "values_of xs \<equiv> mset (List.map_filter (\<lambda>r. r) xs)"

lemma map_filter_append: "List.map_filter f (xs @ ys) = List.map_filter f xs @ List.map_filter f ys"
  by (simp add: List.map_filter_def)

lemma values_of_update:
  "i < length xs \<Longrightarrow> xs ! i = Some v \<Longrightarrow> values_of (xs[i := None]) + {#v#} = values_of xs"
proof (induction xs arbitrary: i)
  case (Cons x xs)
  then show ?case by (cases i) (auto simp: List.map_filter_simps split: option.split)
qed simp

lemma rp_new_counting: "rp_new counting n k = (map Some [k..<k + n], k + n)"
  by (induction n arbitrary: k) (auto simp: counting_def upt_conv_Cons simp del: upt_Suc)

lemma rp_step_values:
  assumes "rp_step counting x (mine, ready, n) = (mine', ready', n')" "values_of mine + values_of ready = mset [0..<n]" "None \<notin> set ready"
  shows "values_of mine' + values_of ready' = mset [0..<n'] \<and> None \<notin> set ready'"
proof (cases x)
  case RpGet
  with assms show ?thesis
    by (cases ready) (auto simp: rp_get_def counting_def del_at_def map_filter_append List.map_filter_simps atLeast0_lessThan_Suc
        split: option.splits)
next
  case (RpPut i)
  show ?thesis
  proof (cases "i < length mine \<and> mine ! i \<noteq> None")
    case True
    then obtain v where v: "mine ! i = Some v" "i < length mine" by auto
    have "values_of (mine[i := None]) + values_of (ready @ [Some v]) = mset [0..<n]"
      using values_of_update[OF v(2,1)] assms(2)
      by (simp add: map_filter_append List.map_filter_simps) (metis union_mset_add_mset_left)
    with v assms RpPut show ?thesis by (auto simp: rp_put_def resource_empty_def)
  next
    case False
    then have "mine[i := None] = mine" by (cases "i < length mine") (auto simp: list_eq_iff_nth_eq nth_list_update)
    with False assms RpPut show ?thesis by (auto simp: rp_put_def resource_empty_def split: if_splits)
  qed
qed

text \<open>Whatever the program does, every resource that was made is with the program or in the pool, once.\<close>

lemma rp_conserves:
  assumes "rp_run counting xs ([], fst (rp_new counting k 0), k) = (mine, ready, n)"
  shows "values_of mine + values_of ready = mset [0..<n]"
proof -
  have "rp_run counting xs (a, b, c) = (mine, ready, n) \<Longrightarrow> values_of a + values_of b = mset [0..<c] \<Longrightarrow> None \<notin> set b \<Longrightarrow>
      values_of mine + values_of ready = mset [0..<n]" for a b c
  proof (induction xs arbitrary: a b c)
    case (Cons x xs)
    obtain a' b' c' where s: "rp_step counting x (a, b, c) = (a', b', c')" by (metis prod_cases3)
    with Cons.prems(1) Cons.IH[of a' b' c'] rp_step_values[OF s Cons.prems(2,3)] show ?case by simp
  qed simp
  from this[OF assms] show ?thesis
    by (auto simp: rp_new_counting List.map_filter_def comp_def)
qed

section \<open>\<open>small_ptr\<close>\<close>

definition tp_greater :: "tiny_ptr \<Rightarrow> tiny_ptr \<Rightarrow> bool" where "tp_greater s t \<longleftrightarrow> sint s > sint t"
definition tp_greater_eq :: "tiny_ptr \<Rightarrow> tiny_ptr \<Rightarrow> bool" where "tp_greater_eq s t \<longleftrightarrow> sint s \<ge> sint t"
definition tp_eq :: "tiny_ptr \<Rightarrow> tiny_ptr \<Rightarrow> bool" where "tp_eq s t \<longleftrightarrow> s = t"
definition tp_neq :: "tiny_ptr \<Rightarrow> tiny_ptr \<Rightarrow> bool" where "tp_neq s t \<longleftrightarrow> s \<noteq> t"
definition tp_bool :: "tiny_ptr \<Rightarrow> bool" where "tp_bool t \<longleftrightarrow> \<not> tp_is_null t"

text \<open>The operators of a base and a pointer. The base of all pointers of one type starts as null.\<close>

definition tp_plus :: "64 word \<Rightarrow> 64 word \<Rightarrow> tiny_ptr \<Rightarrow> 64 word" where "tp_plus stride base t = tp_deref stride base t"
definition tp_minus :: "64 word \<Rightarrow> 64 word \<Rightarrow> tiny_ptr \<times> 64 word" where "tp_minus base p = tp_new 1 base p"
definition global_base :: "64 word" where "global_base = 0"

definition sp_new :: "64 word \<Rightarrow> 64 word \<Rightarrow> 64 word \<Rightarrow> tiny_ptr \<times> 64 word" where
  "sp_new stride base p = tp_new stride base p"
definition sp_deref :: "64 word \<Rightarrow> 64 word \<Rightarrow> tiny_ptr \<Rightarrow> 64 word" where
  "sp_deref stride base t = tp_deref stride base t"

text \<open>Small pointers made one after the other, on the base they share.\<close>

fun sp_news :: "64 word \<Rightarrow> 64 word list \<Rightarrow> tiny_ptr list \<times> 64 word" where
  "sp_news base [] = ([], base)"
| "sp_news base (p # ps) = (let (t, b) = sp_new 1 base p; (ts, b') = sp_news b ps in (t # ts, b'))"

lemma tp_order_laws: "tp_greater s t \<longleftrightarrow> tp_less t s" "tp_greater_eq s t \<longleftrightarrow> tp_less_eq t s"
  "tp_less_eq s t \<longleftrightarrow> tp_less s t \<or> tp_eq s t" "tp_neq s t \<longleftrightarrow> tp_less s t \<or> tp_less t s"
proof -
  have "sint s = sint t \<longleftrightarrow> s = t" by (auto intro: signed_word_eqI)
  then show "tp_less_eq s t \<longleftrightarrow> tp_less s t \<or> tp_eq s t" "tp_neq s t \<longleftrightarrow> tp_less s t \<or> tp_less t s"
    by (auto simp: tp_less_eq_def tp_less_def tp_eq_def tp_neq_def)
qed (simp_all add: tp_greater_def tp_greater_eq_def tp_less_def tp_less_eq_def)

lemma sp_news_roundtrip:
  assumes "base \<noteq> 0" "\<forall>p \<in> set ps. near base p"
  shows "snd (sp_news base ps) = base" "map (sp_deref 1 base) (fst (sp_news base ps)) = ps"
  using assms(2) by (induction ps) (simp_all add: sp_new_def sp_deref_def tp_new_near[OF _ assms(1)] split_beta)

text \<open>Whatever pointers are made, in whatever order: when all of them are within 2 GB of the first one, each of them gives its address back.\<close>

lemma small_ptrs_roundtrip:
  assumes "p \<noteq> 1" "\<forall>q \<in> set (p # ps). near (p - 1) q"
  shows "map (sp_deref 1 (snd (sp_news global_base (p # ps)))) (fst (sp_news global_base (p # ps))) = p # ps"
proof -
  have "sp_new 1 global_base p = sp_new 1 (p - 1) p" using assms(1) by (simp add: sp_new_def tp_new_def tp_init_once_def global_base_def)
  then have "sp_news global_base (p # ps) = sp_news (p - 1) (p # ps)" by simp
  moreover have "p - 1 \<noteq> 0" using assms(1) by simp
  ultimately show ?thesis using sp_news_roundtrip[of "p - 1" "p # ps"] assms(2) by presburger
qed

end
