(* ===== verification/Patterns.thy ===== *)
theory Patterns
  imports SortedSet "HOL-Library.Multiset"
begin

text \<open>
  \<^verbatim>\<open>include/txl/patterns.h\<close>: helpers over the containers of the standard library. The helpers are templates over the container, so
  here they take its operations as a record; what they rely on is the locale \<open>container\<close>, and \<^verbatim>\<open>std::map\<close> and
  \<^verbatim>\<open>std::unordered_map\<close> are its two interpretations. A function handed in may have effects: it runs on a state.
\<close>

section \<open>What the helpers call on a container\<close>

text \<open>\<open>None\<close> from \<open>c_find\<close> is the end; \<open>c_emplace\<close> answers the iterator and whether it inserted.\<close>

record ('c, 'k, 'v, 'i) container_ops =
  c_find :: "'c \<Rightarrow> 'k \<Rightarrow> 'i option"
  c_emplace :: "'c \<Rightarrow> 'k \<Rightarrow> 'v \<Rightarrow> ('i \<times> bool) \<times> 'c"
  c_assign :: "'c \<Rightarrow> 'i \<Rightarrow> 'v \<Rightarrow> 'c"
  c_deref :: "'c \<Rightarrow> 'i \<Rightarrow> 'k \<times> 'v"

text \<open>\<open>ValueOrFunc\<close>: a value, or a function that makes one from the key.\<close>

datatype ('k, 'v, 's) value_or_func = Value 'v | Func "'k \<Rightarrow> 's \<Rightarrow> 'v \<times> 's"

fun value_for :: "('k, 'v, 's) value_or_func \<Rightarrow> 'k \<Rightarrow> 's \<Rightarrow> 'v \<times> 's" where
  "value_for (Value v) k s = (v, s)"
| "value_for (Func f) k s = f k s"

section \<open>The helpers\<close>

definition emplace :: "('c, 'k, 'v, 'i) container_ops \<Rightarrow> 'c \<Rightarrow> 'k \<Rightarrow> ('k, 'v, 's) value_or_func \<Rightarrow> 's \<Rightarrow> ('i option \<times> bool) \<times> 'c \<times> 's" where
  "emplace ops c k vf s =
     (case c_find ops c k of
        Some _ \<Rightarrow> ((None, False), c, s)
      | None \<Rightarrow> (let (v, s') = value_for vf k s; ((it, b), c') = c_emplace ops c k v in ((Some it, b), c', s')))"

definition emplace_or_update :: "('c, 'k, 'v, 'i) container_ops \<Rightarrow> 'c \<Rightarrow> 'k \<Rightarrow> ('k, 'v, 's) value_or_func \<Rightarrow> 's \<Rightarrow> 'i \<times> 'c \<times> 's" where
  "emplace_or_update ops c k vf s =
     (case c_find ops c k of
        Some it \<Rightarrow> (let (v, s') = value_for vf k s in (it, c_assign ops c it v, s'))
      | None \<Rightarrow> (let (v, s') = value_for vf k s; ((it, _), c') = c_emplace ops c k v in (it, c', s')))"

definition find_or_emplace :: "('c, 'k, 'v, 'i) container_ops \<Rightarrow> 'c \<Rightarrow> 'k \<Rightarrow> ('k, 'v, 's) value_or_func \<Rightarrow> 's \<Rightarrow> 'i \<times> 'c \<times> 's" where
  "find_or_emplace ops c k vf s =
     (case c_find ops c k of
        Some it \<Rightarrow> (it, c, s)
      | None \<Rightarrow> (let (v, s') = value_for vf k s; ((it, _), c') = c_emplace ops c k v in (it, c', s')))"

definition try_emplace :: "('c, 'k, 'v, 'i) container_ops \<Rightarrow> 'c \<Rightarrow> 'k \<Rightarrow> ('k, 'v, 's) value_or_func \<Rightarrow> 's \<Rightarrow> bool \<times> 'c \<times> 's" where
  "try_emplace ops c k vf s = (let ((_, emplaced), c', s') = emplace ops c k vf s in (emplaced, c', s'))"

text \<open>\<open>if_found\<close> on a map and on a sequence.\<close>

definition if_found_map :: "('c, 'k, 'v, 'i) container_ops \<Rightarrow> 'c \<Rightarrow> 'k \<Rightarrow> ('i \<Rightarrow> 's \<Rightarrow> 's) \<Rightarrow> 's \<Rightarrow> bool \<times> 's" where
  "if_found_map ops c k f s = (case c_find ops c k of Some it \<Rightarrow> (True, f it s) | None \<Rightarrow> (False, s))"

definition std_find :: "'a list \<Rightarrow> 'a \<Rightarrow> nat" where "std_find xs x = length (takeWhile (\<lambda>y. y \<noteq> x) xs)"

definition if_found_seq :: "'a list \<Rightarrow> 'a \<Rightarrow> (nat \<Rightarrow> 's \<Rightarrow> 's) \<Rightarrow> 's \<Rightarrow> bool \<times> 's" where
  "if_found_seq xs x f s = (let it = std_find xs x in if it \<noteq> length xs then (True, f it s) else (False, s))"

function erase_if_loop :: "('a \<Rightarrow> 's \<Rightarrow> bool \<times> 's) \<Rightarrow> 'a list \<Rightarrow> nat \<Rightarrow> nat \<Rightarrow> 's \<Rightarrow> nat \<times> 'a list \<times> 's" where
  "erase_if_loop cond xs it num_erased s =
     (if it < length xs
      then let (b, s') = cond (xs ! it) s
           in if b then erase_if_loop cond (del_at it xs) it (num_erased + 1) s'
              else erase_if_loop cond xs (it + 1) num_erased s'
      else (num_erased, xs, s))"
  by pat_completeness auto
termination
  by (relation "measure (\<lambda>(cond, xs, it, n, s). length xs - it)") (auto simp: length_del_at)

declare erase_if_loop.simps [simp del]

definition erase_if :: "('a \<Rightarrow> 's \<Rightarrow> bool \<times> 's) \<Rightarrow> 'a list \<Rightarrow> 's \<Rightarrow> nat \<times> 'a list \<times> 's" where
  "erase_if cond xs s = erase_if_loop cond xs 0 0 s"

fun foreach_loop :: "('a \<Rightarrow> 's \<Rightarrow> 's) \<Rightarrow> 'a list \<Rightarrow> 's \<Rightarrow> 's" where
  "foreach_loop on_element [] s = s"
| "foreach_loop on_element (el # els) s = foreach_loop on_element els (on_element el s)"

definition to_vector :: "'a list \<Rightarrow> 'a list" where
  "to_vector xs = foreach_loop (\<lambda>item r. r @ [item]) xs []"

text \<open>\<open>to_map\<close> and \<open>to_unordered_map\<close>; \<open>e\<close> is the empty map.\<close>

definition to_map :: "('c, 'k, 'v, 'i) container_ops \<Rightarrow> 'c \<Rightarrow> ('k \<times> 'v) list \<Rightarrow> 'c" where
  "to_map ops e xs = foreach_loop (\<lambda>(k, v) r. snd (c_emplace ops r k v)) xs e"

text \<open>The pointer to the value of an optional: its address, or the null pointer.\<close>

definition optional_to_ptr :: "nat \<Rightarrow> 'a option \<Rightarrow> nat option" where
  "optional_to_ptr addr opt = (case opt of Some _ \<Rightarrow> Some addr | None \<Rightarrow> None)"

section \<open>Iterators behind an interface\<close>

text \<open>The wrapper of an iterator of \<open>xs\<close> at a position, with the element it remembers. \<open>end_addr\<close> says whether taking the address of
  the element at the end has a meaning: it has for pointers, a checked iterator refuses it.\<close>

record viter =
  vi_last :: "nat option"
  vi_it :: nat

definition viter_new :: "nat \<Rightarrow> viter" where "viter_new i = \<lparr>vi_last = None, vi_it = i\<rparr>"

definition get_ref :: "bool \<Rightarrow> 'a list \<Rightarrow> nat \<Rightarrow> nat res" where
  "get_ref end_addr xs i = (if i < length xs \<or> i = length xs \<and> end_addr then Inr i else Inl UB)"

definition vi_next :: "bool \<Rightarrow> 'a list \<Rightarrow> viter \<Rightarrow> (nat \<times> viter) res" where
  "vi_next end_addr xs v =
     (if vi_it v < length xs
      then and_then (get_ref end_addr xs (vi_it v + 1)) (\<lambda>r. Inr (r, v\<lparr>vi_it := vi_it v + 1\<rparr>)) else Inl UB)"

text \<open>\<open>get_ptr\<close>, the one that remembers and the one that does not.\<close>

definition get_ptr :: "bool \<Rightarrow> 'a list \<Rightarrow> viter \<Rightarrow> (nat \<times> viter) res" where
  "get_ptr end_addr xs v =
     (case vi_last v of
        Some r \<Rightarrow> Inr (r, v)
      | None \<Rightarrow> and_then (get_ref end_addr xs (vi_it v)) (\<lambda>r. Inr (r, v\<lparr>vi_last := Some r\<rparr>)))"

definition get_ptr_const :: "bool \<Rightarrow> 'a list \<Rightarrow> viter \<Rightarrow> nat res" where
  "get_ptr_const end_addr xs v = (case vi_last v of Some r \<Rightarrow> Inr r | None \<Rightarrow> get_ref end_addr xs (vi_it v))"

definition vi_deref :: "bool \<Rightarrow> 'a list \<Rightarrow> viter \<Rightarrow> 'a res" where
  "vi_deref end_addr xs v = and_then (get_ptr_const end_addr xs v) (vec_get xs)"

definition vi_eq :: "bool \<Rightarrow> 'a list \<Rightarrow> viter \<Rightarrow> viter \<Rightarrow> bool res" where
  "vi_eq end_addr xs v w = and_then (get_ptr_const end_addr xs v) (\<lambda>p. and_then (get_ptr_const end_addr xs w) (\<lambda>q. Inr (p = q)))"

definition vi_incr :: "bool \<Rightarrow> 'a list \<Rightarrow> viter \<Rightarrow> viter res" where
  "vi_incr end_addr xs v = and_then (vi_next end_addr xs v) (\<lambda>(r, v'). Inr (v'\<lparr>vi_last := Some r\<rparr>))"

text \<open>The \<^verbatim>\<open>for\<close> loop over a view. The iterators of the view refer to the two wrappers, so the loop moves the wrapper itself.\<close>

fun view_loop :: "bool \<Rightarrow> 'a list \<Rightarrow> ('a \<Rightarrow> 's \<Rightarrow> 's) \<Rightarrow> nat \<Rightarrow> viter \<Rightarrow> viter \<Rightarrow> 's \<Rightarrow> (viter \<times> 's) res option" where
  "view_loop end_addr xs f 0 b e s = None"
| "view_loop end_addr xs f (Suc n) b e s =
     run_bind (Some (vi_eq end_addr xs e b)) (\<lambda>same.
       if same then Some (Inr (b, s))
       else run_bind (Some (vi_deref end_addr xs b)) (\<lambda>x.
              run_bind (Some (vi_incr end_addr xs b)) (\<lambda>b'. view_loop end_addr xs f n b' e (f x s))))"

section \<open>What each helper does\<close>

text \<open>The loop of \<open>erase_if\<close> is one sweep: the condition sees every element once, in order, with its effects.\<close>

fun sweep :: "('a \<Rightarrow> 's \<Rightarrow> bool \<times> 's) \<Rightarrow> 'a list \<Rightarrow> 's \<Rightarrow> 'a list \<times> 's" where
  "sweep cond [] s = ([], s)"
| "sweep cond (x # xs) s = (let (b, s1) = cond x s; (ys, s2) = sweep cond xs s1 in (if b then ys else x # ys, s2))"

lemma length_sweep: "length (fst (sweep cond xs s)) \<le> length xs"
proof (induction xs arbitrary: s)
  case (Cons x xs)
  show ?case using Cons.IH[of "snd (cond x s)"] by (auto simp: Let_def le_Suc_eq split: prod.splits)
qed simp

lemma erase_if_loop_sweep:
  "erase_if_loop cond (us @ xs) (length us) n s =
     (n + (length xs - length (fst (sweep cond xs s))), us @ fst (sweep cond xs s), snd (sweep cond xs s))"
proof (induction xs arbitrary: us n s)
  case Nil
  show ?case by (simp add: erase_if_loop.simps)
next
  case (Cons x xs)
  obtain b s1 where c: "cond x s = (b, s1)" by fastforce
  obtain ys s2 where y: "sweep cond xs s1 = (ys, s2)" by fastforce
  have l: "length ys \<le> length xs" using length_sweep[of cond xs s1] by (simp add: y)
  show ?case
    using Cons.IH[of us "Suc n" s1] Cons.IH[of "us @ [x]" n s1] c y l
    by (subst erase_if_loop.simps) (simp add: del_at_def nth_append Suc_diff_le)
qed

lemma erase_if_sweep:
  "erase_if cond xs s = (length xs - length (fst (sweep cond xs s)), sweep cond xs s)"
  using erase_if_loop_sweep[of cond "[]" xs 0 s] by (simp add: erase_if_def)

lemma erase_if_filter:
  "erase_if (\<lambda>x s. (p x, s)) xs s = (length (filter p xs), filter (\<lambda>x. \<not> p x) xs, s)"
proof -
  have "sweep (\<lambda>x s. (p x, s)) xs s = (filter (\<lambda>x. \<not> p x) xs, s)" by (induction xs) auto
  then show ?thesis using sum_length_filter_compl[of p xs] by (simp add: erase_if_sweep)
qed

lemma foreach_loop_append: "foreach_loop f (xs @ ys) s = foreach_loop f ys (foreach_loop f xs s)"
  by (induction xs arbitrary: s) auto

lemma to_vector_id: "to_vector xs = xs"
proof -
  have "foreach_loop (\<lambda>item r. r @ [item]) xs ys = ys @ xs" for ys by (induction xs arbitrary: ys) auto
  then show ?thesis by (simp add: to_vector_def)
qed

lemma if_found_seq_found:
  "x \<in> set xs \<Longrightarrow> if_found_seq xs x f s = (True, f (std_find xs x) s) \<and> xs ! std_find xs x = x \<and> x \<notin> set (take (std_find xs x) xs)"
proof (induction xs)
  case (Cons y ys)
  then show ?case by (cases "y = x") (auto simp: if_found_seq_def std_find_def Let_def split: if_splits)
qed simp

lemma if_found_seq_absent: "x \<notin> set xs \<Longrightarrow> if_found_seq xs x f s = (False, s)"
proof -
  assume "x \<notin> set xs"
  then have "takeWhile (\<lambda>y. y \<noteq> x) xs = xs" by (auto simp: takeWhile_eq_all_conv)
  then show ?thesis by (simp add: if_found_seq_def std_find_def Let_def del: takeWhile_eq_all_conv)
qed

text \<open>Where the address of the end has a meaning, the loop over a view visits each element once and ends; elsewhere the first
  comparison with the end has none. The wrapper at the beginning is moved: a second loop over the view visits nothing.\<close>

lemma view_loop_all:
  assumes "b = viter_new i \<or> b = \<lparr>vi_last = Some i, vi_it = i\<rparr>" "i \<le> length xs" "length xs - i < n"
  shows "\<exists>b'. view_loop True xs f n b (viter_new (length xs)) s = Some (Inr (b', foreach_loop f (drop i xs) s)) \<and>
    (b' = viter_new (length xs) \<or> b' = \<lparr>vi_last = Some (length xs), vi_it = length xs\<rparr>)"
  using assms
proof (induction n arbitrary: i b s)
  case (Suc n)
  have b: "get_ptr_const True xs b = Inr i" "vi_it b = i"
    using Suc.prems by (auto simp: get_ptr_const_def viter_new_def get_ref_def)
  have e: "get_ptr_const True xs (viter_new (length xs)) = Inr (length xs)"
    by (simp add: get_ptr_const_def viter_new_def get_ref_def)
  show ?case
  proof (cases "i = length xs")
    case True
    then show ?thesis using Suc.prems b e by (auto simp: vi_eq_def)
  next
    case False
    have "vi_incr True xs b = Inr \<lparr>vi_last = Some (Suc i), vi_it = Suc i\<rparr>"
      using Suc.prems False b by (auto simp: vi_incr_def vi_next_def get_ref_def viter_new_def)
    moreover have "drop i xs = xs ! i # drop (Suc i) xs" using Suc.prems False by (simp add: Cons_nth_drop_Suc)
    moreover have "vi_deref True xs b = Inr (xs ! i)" using Suc.prems False b by (simp add: vi_deref_def vec_get_def)
    ultimately show ?thesis
      using Suc.IH[of "\<lparr>vi_last = Some (Suc i), vi_it = Suc i\<rparr>" "Suc i" "f (xs ! i) s"] Suc.prems False b e by (simp add: vi_eq_def)
  qed
qed simp

lemma view_loop_checked: "view_loop False xs f (Suc n) (viter_new i) (viter_new (length xs)) s = Some (Inl UB)"
  by (simp add: vi_eq_def get_ptr_const_def viter_new_def get_ref_def)


section \<open>The interface of a map\<close>

text \<open>\<open>lookup\<close> is what the container maps a key to, \<open>ok\<close> its invariant.\<close>

locale container =
  fixes ops :: "('c, 'k, 'v, 'i) container_ops"
    and ok :: "'c \<Rightarrow> bool"
    and lookup :: "'c \<Rightarrow> 'k \<Rightarrow> 'v option"
  assumes find_none: "ok c \<Longrightarrow> lookup c k = None \<Longrightarrow> c_find ops c k = None"
    and find_some: "ok c \<Longrightarrow> lookup c k = Some v \<Longrightarrow> \<exists>it. c_find ops c k = Some it \<and> c_deref ops c it = (k, v)"
    and emplace_new: "ok c \<Longrightarrow> lookup c k = None \<Longrightarrow> c_emplace ops c k v = ((it, b), c') \<Longrightarrow>
      b \<and> ok c' \<and> lookup c' = (lookup c)(k \<mapsto> v) \<and> c_deref ops c' it = (k, v)"
    and emplace_old: "ok c \<Longrightarrow> lookup c k = Some v' \<Longrightarrow> snd (c_emplace ops c k v) = c"
    and assign: "ok c \<Longrightarrow> c_find ops c k = Some it \<Longrightarrow>
      ok (c_assign ops c it v) \<and> lookup (c_assign ops c it v) = (lookup c)(k \<mapsto> v) \<and> c_deref ops (c_assign ops c it v) it = (k, v)"
begin

text \<open>Inserting into a map without the key.\<close>

lemma emplace_obtain:
  assumes "ok c" "lookup c k = None"
  obtains it c' where "c_emplace ops c k v = ((it, True), c')" "ok c'" "lookup c' = (lookup c)(k \<mapsto> v)" "c_deref ops c' it = (k, v)"
proof -
  obtain it b c' where e: "c_emplace ops c k v = ((it, b), c')" by (metis surj_pair)
  with emplace_new[OF assms e] that show thesis by simp
qed

text \<open>\<open>emplace\<close> and \<open>try_emplace\<close> insert when the key is new, and only then run the function.\<close>

lemma emplace_absent:
  assumes "ok c" "lookup c k = None"
  shows "\<exists>it c'. emplace ops c k vf s = ((Some it, True), c', snd (value_for vf k s)) \<and> ok c' \<and>
    lookup c' = (lookup c)(k \<mapsto> fst (value_for vf k s)) \<and> c_deref ops c' it = (k, fst (value_for vf k s))"
proof -
  obtain it c' where e: "c_emplace ops c k (fst (value_for vf k s)) = ((it, True), c')" "ok c'"
      "lookup c' = (lookup c)(k \<mapsto> fst (value_for vf k s))" "c_deref ops c' it = (k, fst (value_for vf k s))"
    by (rule emplace_obtain[OF assms])
  have "emplace ops c k vf s = ((Some it, True), c', snd (value_for vf k s))"
    using find_none[OF assms] e(1) by (simp add: emplace_def split_beta Let_def)
  with e show ?thesis by blast
qed

lemma emplace_present: "ok c \<Longrightarrow> lookup c k = Some v \<Longrightarrow> emplace ops c k vf s = ((None, False), c, s)"
  using find_some by (fastforce simp: emplace_def)

lemma try_emplace_iff:
  assumes "ok c" "try_emplace ops c k vf s = (b, c', s')"
  shows "(b \<longleftrightarrow> lookup c k = None) \<and> ok c' \<and>
    lookup c' = (if b then (lookup c)(k \<mapsto> fst (value_for vf k s)) else lookup c) \<and> s' = (if b then snd (value_for vf k s) else s)"
proof (cases "lookup c k")
  case None
  from emplace_absent[OF assms(1) None, of vf s] assms(2) show ?thesis using None by (auto simp: try_emplace_def)
next
  case (Some v)
  from emplace_present[OF assms(1) Some, of vf s] assms show ?thesis using Some by (auto simp: try_emplace_def)
qed

text \<open>\<open>emplace_or_update\<close> maps the key to the value in every case.\<close>

lemma emplace_or_update_maps:
  assumes "ok c" "emplace_or_update ops c k vf s = (it, c', s')"
  shows "ok c' \<and> lookup c' = (lookup c)(k \<mapsto> fst (value_for vf k s)) \<and> c_deref ops c' it = (k, fst (value_for vf k s)) \<and>
    s' = snd (value_for vf k s)"
proof (cases "lookup c k")
  case None
  obtain it1 c1 where e: "c_emplace ops c k (fst (value_for vf k s)) = ((it1, True), c1)" "ok c1"
      "lookup c1 = (lookup c)(k \<mapsto> fst (value_for vf k s))" "c_deref ops c1 it1 = (k, fst (value_for vf k s))"
    by (rule emplace_obtain[OF assms(1) None])
  then show ?thesis using find_none[OF assms(1) None] assms(2) by (auto simp: emplace_or_update_def split_beta Let_def)
next
  case (Some v)
  then obtain it1 where f: "c_find ops c k = Some it1" using find_some[OF assms(1)] by blast
  then show ?thesis using assign[OF assms(1) f] assms(2) by (auto simp: emplace_or_update_def split_beta Let_def)
qed

text \<open>\<open>find_or_emplace\<close> answers the entry of the key, and keeps a value that is there.\<close>

lemma find_or_emplace_finds:
  assumes "ok c" "find_or_emplace ops c k vf s = (it, c', s')"
  shows "ok c' \<and> c_deref ops c' it = (k, case lookup c k of Some v \<Rightarrow> v | None \<Rightarrow> fst (value_for vf k s)) \<and>
    lookup c' = (lookup c)(k \<mapsto> (case lookup c k of Some v \<Rightarrow> v | None \<Rightarrow> fst (value_for vf k s)))"
proof (cases "lookup c k")
  case None
  obtain it1 c1 where e: "c_emplace ops c k (fst (value_for vf k s)) = ((it1, True), c1)" "ok c1"
      "lookup c1 = (lookup c)(k \<mapsto> fst (value_for vf k s))" "c_deref ops c1 it1 = (k, fst (value_for vf k s))"
    by (rule emplace_obtain[OF assms(1) None])
  then show ?thesis using find_none[OF assms(1) None] assms(2) None by (auto simp: find_or_emplace_def split_beta Let_def)
next
  case (Some v)
  then obtain it1 where "c_find ops c k = Some it1" "c_deref ops c it1 = (k, v)" using find_some[OF assms(1)] by blast
  then show ?thesis using assms Some by (auto simp: find_or_emplace_def fun_upd_idem)
qed

lemma if_found_map_iff: "ok c \<Longrightarrow> fst (if_found_map ops c k f s) \<longleftrightarrow> lookup c k \<noteq> None"
  using find_none[of c k] find_some[of c k] by (cases "lookup c k") (auto simp: if_found_map_def)

text \<open>Of several entries with one key the first is kept.\<close>

lemma to_map_first:
  assumes "ok e"
  shows "ok (to_map ops e xs) \<and> lookup (to_map ops e xs) = map_of xs ++ lookup e"
  using assms
proof (induction xs arbitrary: e)
  case (Cons x xs)
  obtain k v where x: "x = (k, v)" by fastforce
  have t: "to_map ops e (x # xs) = to_map ops (snd (c_emplace ops e k v)) xs" by (simp add: to_map_def x)
  show ?case
  proof (cases "lookup e k")
    case None
    obtain it c' where "c_emplace ops e k v = ((it, True), c')" "ok c'" "lookup c' = (lookup e)(k \<mapsto> v)"
      by (rule emplace_obtain[OF Cons.prems None])
    moreover have "map_of xs ++ (lookup e)(k \<mapsto> v) = map_of (x # xs) ++ lookup e"
      using None by (auto simp: fun_eq_iff map_add_def x split: option.split)
    ultimately show ?thesis using Cons.IH[of c'] unfolding t by (simp only: snd_conv)
  next
    case (Some v')
    moreover from this have "map_of (x # xs) ++ lookup e = map_of xs ++ lookup e"
      by (auto simp: fun_eq_iff map_add_def x split: option.split)
    ultimately show ?thesis using Cons.IH[OF Cons.prems] emplace_old[OF Cons.prems] unfolding t by (simp only:)
  qed
qed (simp add: to_map_def)

end


section \<open>\<open>std::map\<close> and \<open>std::unordered_map\<close>\<close>

text \<open>Lists of entries: a \<^verbatim>\<open>map\<close> is sorted by its keys, an \<^verbatim>\<open>unordered_map\<close> has them in some order (here the order of insertion). An
  iterator is a position.\<close>

definition entry_pos :: "('k \<times> 'v) list \<Rightarrow> 'k \<Rightarrow> nat" where
  "entry_pos c k = length (takeWhile (\<lambda>(k', _). k' \<noteq> k) c)"

definition map_find :: "('k \<times> 'v) list \<Rightarrow> 'k \<Rightarrow> nat option" where
  "map_find c k = (if entry_pos c k < length c then Some (entry_pos c k) else None)"

definition map_assign :: "('k \<times> 'v) list \<Rightarrow> nat \<Rightarrow> 'v \<Rightarrow> ('k \<times> 'v) list" where
  "map_assign c it v = c[it := (fst (c ! it), v)]"

definition emplace_at :: "(('k \<times> 'v) list \<Rightarrow> 'k \<Rightarrow> nat) \<Rightarrow> ('k \<times> 'v) list \<Rightarrow> 'k \<Rightarrow> 'v \<Rightarrow> (nat \<times> bool) \<times> ('k \<times> 'v) list" where
  "emplace_at pos c k v =
     (case map_find c k of Some it \<Rightarrow> ((it, False), c) | None \<Rightarrow> ((pos c k, True), ins_at (pos c k) (k, v) c))"

definition sorted_pos :: "('k :: linorder \<times> 'v) list \<Rightarrow> 'k \<Rightarrow> nat" where
  "sorted_pos c k = length (takeWhile (\<lambda>(k', _). k' < k) c)"

definition std_map :: "(('k :: linorder \<times> 'v) list, 'k, 'v, nat) container_ops" where
  "std_map = \<lparr>c_find = map_find, c_emplace = emplace_at sorted_pos, c_assign = map_assign, c_deref = (!)\<rparr>"

definition std_unordered_map :: "(('k \<times> 'v) list, 'k, 'v, nat) container_ops" where
  "std_unordered_map = \<lparr>c_find = map_find, c_emplace = emplace_at (\<lambda>c k. length c), c_assign = map_assign, c_deref = (!)\<rparr>"

lemma entry_pos_none: "map_of c k = None \<longleftrightarrow> entry_pos c k = length c"
proof -
  have "map_of c k = None \<longleftrightarrow> (\<forall>x \<in> set c. case x of (k', _) \<Rightarrow> k' \<noteq> k)" by (force simp: map_of_eq_None_iff)
  also have "\<dots> \<longleftrightarrow> takeWhile (\<lambda>(k', _). k' \<noteq> k) c = c" by (simp add: takeWhile_eq_all_conv)
  also have "\<dots> \<longleftrightarrow> entry_pos c k = length c"
    unfolding entry_pos_def by (metis takeWhile_eq_take take_all_iff length_takeWhile_le order_antisym order_refl)
  finally show ?thesis .
qed

lemma map_find_none: "map_of c k = None \<Longrightarrow> map_find c k = None"
  by (simp add: map_find_def entry_pos_none)

lemma map_find_some: "map_of c k = Some v \<Longrightarrow> \<exists>it. map_find c k = Some it \<and> it < length c \<and> c ! it = (k, v)"
proof (induction c)
  case (Cons x c)
  obtain k' v' where x: "x = (k', v')" by fastforce
  show ?case
  proof (cases "k' = k")
    case True
    then show ?thesis using Cons.prems x by (simp add: map_find_def entry_pos_def)
  next
    case False
    then have "map_of c k = Some v" using Cons.prems x by simp
    from Cons.IH[OF this] show ?thesis using False x by (auto simp: map_find_def entry_pos_def split: if_splits)
  qed
qed simp

lemma map_find_fst: "map_find c k = Some it \<Longrightarrow> it < length c \<and> fst (c ! it) = k"
  using nth_length_takeWhile[of "\<lambda>(k', _). k' \<noteq> k" c] by (auto simp: map_find_def entry_pos_def split: if_splits prod.splits)

lemma map_of_ins_at:
  assumes "map_of c k = None"
  shows "map_of (ins_at i (k, v) c) = (map_of c)(k \<mapsto> v)"
proof -
  have "map_of c = map_of (drop i c) ++ map_of (take i c)" by (metis append_take_drop_id map_of_append)
  moreover from this have "map_of (take i c) k = None" using assms by (metis map_add_None)
  ultimately show ?thesis by (auto simp: ins_at_def fun_eq_iff map_add_def split: option.split)
qed

lemma map_of_assign:
  "distinct (map fst c) \<Longrightarrow> it < length c \<Longrightarrow> map_of (map_assign c it v) = (map_of c)(fst (c ! it) \<mapsto> v)"
proof (induction c arbitrary: it)
  case (Cons x c)
  show ?case
  proof (cases it)
    case 0
    then show ?thesis by (simp add: map_assign_def fun_eq_iff)
  next
    case (Suc i)
    then have "fst x \<noteq> fst (c ! i)" using Cons.prems by (auto simp: image_iff dest: nth_mem)
    then show ?thesis using Cons Suc by (auto simp: map_assign_def fun_eq_iff)
  qed
qed simp

lemma map_fst_assign [simp]: "map fst (map_assign c it v) = map fst c"
  by (cases "it < length c") (simp_all add: map_assign_def map_update list_update_same_conv list_update_beyond)

lemma map_ins_at: "map f (ins_at i x xs) = ins_at i (f x) (map f xs)"
  by (simp add: ins_at_def take_map drop_map)

lemma distinct_ins_at: "distinct (ins_at i x xs) \<longleftrightarrow> x \<notin> set xs \<and> distinct xs"
proof -
  have "mset (ins_at i x xs) = mset (x # xs)" by (simp add: ins_at_def union_code)
  from mset_eq_imp_distinct_iff[OF this] show ?thesis by simp
qed

text \<open>The new key goes where it keeps the order.\<close>

lemma sorted_ins_pos:
  assumes "sorted (map fst c)"
  shows "sorted (map fst (ins_at (sorted_pos c k) (k, v) c))"
proof -
  let ?t = "takeWhile (\<lambda>(k', _). k' < k) c" and ?d = "dropWhile (\<lambda>(k', _). k' < k) c"
  have i: "ins_at (sorted_pos c k) (k, v) c = ?t @ (k, v) # ?d"
    by (simp add: ins_at_def sorted_pos_def flip: takeWhile_eq_take dropWhile_eq_drop)
  have d: "k \<le> fst y" if y: "y \<in> set ?d" for y
  proof -
    obtain z zs where z: "?d = z # zs" using y by (cases ?d) auto
    have "k \<le> fst z" using z dropWhile_eq_Cons_conv[of "\<lambda>(k', _). k' < k" c z zs] by (auto simp: split_beta)
    moreover have "sorted (map fst ?d)" using assms by (metis map_append sorted_append takeWhile_dropWhile_id)
    ultimately show ?thesis using y unfolding z by fastforce
  qed
  have "sorted (map fst ?t)" "sorted (map fst ?d)" using assms by (metis map_append sorted_append takeWhile_dropWhile_id)+
  moreover have "fst y < k" if "y \<in> set ?t" for y using that by (auto dest: set_takeWhileD)
  ultimately show ?thesis unfolding i using d by (fastforce simp: sorted_append)
qed

lemma emplace_at_new:
  assumes "map_of c k = None" "pos c k \<le> length c" "emplace_at pos c k v = ((it, b), c')"
  shows "b \<and> c' = ins_at (pos c k) (k, v) c \<and> map_of c' = (map_of c)(k \<mapsto> v) \<and> c' ! it = (k, v)"
  using assms map_of_ins_at[OF assms(1)] by (auto simp: emplace_at_def map_find_none nth_ins_at)

definition map_ok :: "('k :: linorder \<times> 'v) list \<Rightarrow> bool" where
  "map_ok c \<longleftrightarrow> sorted (map fst c) \<and> distinct (map fst c)"

lemma map_laws:
  assumes "distinct (map fst c)"
  shows "map_of c k = Some v' \<Longrightarrow> snd (emplace_at pos c k v) = c"
    and "map_find c k = Some it \<Longrightarrow> map_of (map_assign c it v) = (map_of c)(k \<mapsto> v) \<and> map_assign c it v ! it = (k, v)"
  using map_find_some[of c k v'] map_find_fst[of c k it] map_of_assign[OF assms, of it v]
  by (auto simp: emplace_at_def map_assign_def)

interpretation std_map: container std_map map_ok map_of
proof unfold_locales
  fix c :: "('a \<times> 'b) list" and k v v' it b c'
  assume ok: "map_ok c"
  then have d: "distinct (map fst c)" by (simp add: map_ok_def)
  show "map_of c k = None \<Longrightarrow> c_find std_map c k = None" by (simp add: std_map_def map_find_none)
  show "map_of c k = Some v \<Longrightarrow> \<exists>it. c_find std_map c k = Some it \<and> c_deref std_map c it = (k, v)"
    using map_find_some[of c k v] by (auto simp: std_map_def)
  show "b \<and> map_ok c' \<and> map_of c' = (map_of c)(k \<mapsto> v) \<and> c_deref std_map c' it = (k, v)"
    if n: "map_of c k = None" and e: "c_emplace std_map c k v = ((it, b), c')"
  proof -
    have "sorted_pos c k \<le> length c" by (simp add: sorted_pos_def length_takeWhile_le)
    note r = emplace_at_new[of c k sorted_pos, OF n this, of v it b c']
    moreover have "map_ok (ins_at (sorted_pos c k) (k, v) c)"
      using ok n sorted_ins_pos by (auto simp: map_ok_def map_ins_at distinct_ins_at map_of_eq_None_iff)
    ultimately show ?thesis using e by (auto simp: std_map_def)
  qed
  show "map_of c k = Some v' \<Longrightarrow> snd (c_emplace std_map c k v) = c" using map_laws(1)[OF d] by (simp add: std_map_def)
  show "c_find std_map c k = Some it \<Longrightarrow> map_ok (c_assign std_map c it v) \<and> map_of (c_assign std_map c it v) = (map_of c)(k \<mapsto> v) \<and>
      c_deref std_map (c_assign std_map c it v) it = (k, v)"
    using ok map_laws(2)[OF d] by (simp add: std_map_def map_ok_def)
qed

interpretation std_unordered_map: container std_unordered_map "\<lambda>c. distinct (map fst c)" map_of
proof unfold_locales
  fix c :: "('a \<times> 'b) list" and k v v' it b c'
  assume d: "distinct (map fst c)"
  show "map_of c k = None \<Longrightarrow> c_find std_unordered_map c k = None" by (simp add: std_unordered_map_def map_find_none)
  show "map_of c k = Some v \<Longrightarrow> \<exists>it. c_find std_unordered_map c k = Some it \<and> c_deref std_unordered_map c it = (k, v)"
    using map_find_some[of c k v] by (auto simp: std_unordered_map_def)
  show "map_of c k = None \<Longrightarrow> c_emplace std_unordered_map c k v = ((it, b), c') \<Longrightarrow>
      b \<and> distinct (map fst c') \<and> map_of c' = (map_of c)(k \<mapsto> v) \<and> c_deref std_unordered_map c' it = (k, v)"
    using emplace_at_new[of c k "\<lambda>c k. length c" v it b c'] d
    by (auto simp: std_unordered_map_def map_ins_at distinct_ins_at map_of_eq_None_iff)
  show "map_of c k = Some v' \<Longrightarrow> snd (c_emplace std_unordered_map c k v) = c"
    using map_laws(1)[OF d] by (simp add: std_unordered_map_def)
  show "c_find std_unordered_map c k = Some it \<Longrightarrow> distinct (map fst (c_assign std_unordered_map c it v)) \<and>
      map_of (c_assign std_unordered_map c it v) = (map_of c)(k \<mapsto> v) \<and>
      c_deref std_unordered_map (c_assign std_unordered_map c it v) it = (k, v)"
    using d map_laws(2)[OF d] by (simp add: std_unordered_map_def)
qed

text \<open>A map written to a vector and read back.\<close>

lemma to_map_to_vector: "map_ok c \<Longrightarrow> map_of (to_map std_map [] (to_vector c)) = map_of c"
  using std_map.to_map_first[of "[]" "to_vector c"] by (simp add: to_vector_id map_ok_def)

end
