(* ===== verification/Views.thy ===== *)
theory Views
  imports ResultType Pointers "HOL-Library.Char_ord"
begin

text \<open>
  \<^verbatim>\<open>include/txl/iterator_view.h\<close>, \<^verbatim>\<open>foreach_result.h\<close>, \<^verbatim>\<open>string_builder.h\<close> and the objects that act at the end of their scope:
  \<^verbatim>\<open>exit_guard.h\<close>, \<^verbatim>\<open>free_guard.h\<close>, \<^verbatim>\<open>expect.h\<close>, with the features of \<^verbatim>\<open>feature_flag.h\<close>.
\<close>

section \<open>\<open>iterator_view\<close>\<close>

text \<open>Two positions in the container \<open>xs\<close>. To move a position out of the container is undefined behaviour, and so is to count an
  \<^verbatim>\<open>int\<close> past its largest value.\<close>

record iterator_view =
  iv_begin :: nat
  iv_end :: nat

definition make_iterator_view :: "nat \<Rightarrow> nat \<Rightarrow> iterator_view" where
  "make_iterator_view b e = \<lparr>iv_begin = b, iv_end = e\<rparr>"

definition iv_size :: "iterator_view \<Rightarrow> int" where "iv_size v = int (iv_end v) - int (iv_begin v)"
definition iv_empty :: "iterator_view \<Rightarrow> bool" where "iv_empty v \<longleftrightarrow> iv_begin v = iv_end v"

function iv_foreach_loop :: "'a list \<Rightarrow> ('a \<Rightarrow> 's \<Rightarrow> 's) \<Rightarrow> nat \<Rightarrow> nat \<Rightarrow> 's \<Rightarrow> 's res" where
  "iv_foreach_loop xs f it e s =
     (if it = e then Inr s
      else if it < length xs then iv_foreach_loop xs f (it + 1) e (f (xs ! it) s) else Inl UB)"
  by pat_completeness auto
termination
  by (relation "measure (\<lambda>(xs, f, it, e, s). length xs - it)") auto

declare iv_foreach_loop.simps [simp del]

definition iv_foreach :: "'a list \<Rightarrow> iterator_view \<Rightarrow> ('a \<Rightarrow> 's \<Rightarrow> 's) \<Rightarrow> 's \<Rightarrow> 's res" where
  "iv_foreach xs v f s = iv_foreach_loop xs f (iv_begin v) (iv_end v) s"

function from_begin_loop :: "'a list \<Rightarrow> nat \<Rightarrow> int \<Rightarrow> nat res" where
  "from_begin_loop xs b offset =
     (if offset \<noteq> 0 then if b < length xs then from_begin_loop xs (b + 1) (offset - 1) else Inl UB else Inr b)"
  by pat_completeness auto
termination
  by (relation "measure (\<lambda>(xs, b, offset). length xs - b)") auto

declare from_begin_loop.simps [simp del]

definition from_begin :: "'a list \<Rightarrow> iterator_view \<Rightarrow> int \<Rightarrow> iterator_view res" where
  "from_begin xs v offset = and_then (from_begin_loop xs (iv_begin v) offset) (\<lambda>b. Inr (make_iterator_view b (iv_end v)))"

definition INT_MAX :: int where "INT_MAX = 2147483647"

function trim_end_loop :: "nat \<Rightarrow> nat \<Rightarrow> int \<Rightarrow> nat res" where
  "trim_end_loop b e offset =
     (if offset \<noteq> 0 \<and> e \<noteq> b
      then if offset = INT_MAX \<or> e = 0 then Inl UB else trim_end_loop b (e - 1) (offset + 1)
      else Inr e)"
  by pat_completeness auto
termination
  by (relation "measure (\<lambda>(b, e, offset). e)") auto

declare trim_end_loop.simps [simp del]

definition trim_end :: "iterator_view \<Rightarrow> int \<Rightarrow> iterator_view res" where
  "trim_end v offset = and_then (trim_end_loop (iv_begin v) (iv_end v) offset) (\<lambda>e. Inr (make_iterator_view (iv_begin v) e))"

definition view_of :: "'a list \<Rightarrow> iterator_view \<Rightarrow> 'a list" where
  "view_of xs v = drop (iv_begin v) (take (iv_end v) xs)"

definition view_ok :: "'a list \<Rightarrow> iterator_view \<Rightarrow> bool" where
  "view_ok xs v \<longleftrightarrow> iv_begin v \<le> iv_end v \<and> iv_end v \<le> length xs"

lemma iv_foreach_fold:
  assumes "view_ok xs v"
  shows "iv_foreach xs v f s = Inr (fold f (view_of xs v) s)"
proof -
  have "it + k = iv_end v \<Longrightarrow> iv_foreach_loop xs f it (iv_end v) s = Inr (fold f (drop it (take (iv_end v) xs)) s)" for it k s
  proof (induction k arbitrary: it s)
    case (Suc k)
    then have "drop it (take (iv_end v) xs) = xs ! it # drop (Suc it) (take (iv_end v) xs)"
      using assms Cons_nth_drop_Suc[of it "take (iv_end v) xs"] by (simp add: view_ok_def)
    then show ?case using Suc.IH[of "Suc it"] Suc.prems assms
      by (simp add: iv_foreach_loop.simps[of xs f it] view_ok_def)
  qed (simp add: iv_foreach_loop.simps)
  from this[of "iv_begin v" "iv_end v - iv_begin v" s] assms show ?thesis by (simp add: iv_foreach_def view_ok_def view_of_def)
qed

lemma from_begin_loop_moves: "b + n \<le> length xs \<Longrightarrow> from_begin_loop xs b (int n) = Inr (b + n)"
proof (induction n arbitrary: b)
  case (Suc n)
  then show ?case using Suc.IH[of "Suc b"] by (subst from_begin_loop.simps) simp
qed (simp add: from_begin_loop.simps)

text \<open>\<open>from_begin\<close> drops the first elements; a negative offset runs off the container.\<close>

lemma from_begin_drops:
  assumes "view_ok xs v" "int n \<le> iv_size v"
  shows "\<exists>w. from_begin xs v (int n) = Inr w \<and> view_ok xs w \<and> view_of xs w = drop n (view_of xs v)"
  using assms from_begin_loop_moves[of "iv_begin v" n xs]
  by (auto simp: from_begin_def make_iterator_view_def view_of_def view_ok_def iv_size_def add.commute)

lemma from_begin_negative: "offset < 0 \<Longrightarrow> from_begin xs v offset = Inl UB"
proof -
  have "offset < 0 \<Longrightarrow> from_begin_loop xs b offset = Inl UB" for b
  proof (induction xs b offset rule: from_begin_loop.induct)
    case (1 xs b offset)
    then show ?case by (subst from_begin_loop.simps) simp
  qed
  then show "offset < 0 \<Longrightarrow> from_begin xs v offset = Inl UB" by (simp add: from_begin_def)
qed

text \<open>\<open>trim_end\<close> counts its offset up: any positive number of elements to trim empties the view, a negative one trims that many.\<close>

lemma trim_end_loop_up: "offset \<noteq> 0 \<Longrightarrow> 0 < offset \<Longrightarrow> int n + offset \<le> INT_MAX \<Longrightarrow> trim_end_loop b (b + n) offset = Inr b"
proof (induction n arbitrary: offset)
  case (Suc n)
  then show ?case using Suc.IH[of "offset + 1"] by (subst trim_end_loop.simps) simp
qed (simp add: trim_end_loop.simps)

lemma trim_end_loop_down: "k \<le> n \<Longrightarrow> trim_end_loop b (b + n) (- int k) = Inr (b + n - k)"
proof (induction k arbitrary: n)
  case (Suc k)
  then obtain m where "n = Suc m" by (cases n) auto
  then show ?case using Suc.IH[of m] Suc.prems by (subst trim_end_loop.simps) (simp add: INT_MAX_def)
qed (simp add: trim_end_loop.simps)

lemma trim_end_empties:
  assumes "view_ok xs v" "0 < offset" "iv_size v + offset \<le> INT_MAX"
  shows "\<exists>w. trim_end v offset = Inr w \<and> iv_empty w"
  using assms trim_end_loop_up[of offset "iv_end v - iv_begin v" "iv_begin v"]
  by (auto simp: trim_end_def make_iterator_view_def iv_empty_def view_ok_def iv_size_def)

lemma trim_end_negative:
  assumes "view_ok xs v" "int k \<le> iv_size v"
  shows "\<exists>w. trim_end v (- int k) = Inr w \<and> view_of xs w = take (nat (iv_size v) - k) (view_of xs v)"
  using assms trim_end_loop_down[of k "iv_end v - iv_begin v" "iv_begin v"]
  by (auto simp: trim_end_def make_iterator_view_def view_of_def view_ok_def iv_size_def take_drop nat_diff_distrib min_def)


section \<open>\<open>foreach_result\<close>\<close>

text \<open>The generator is a function on a state. The iterator at the end has no generator and no value; two iterators are equal when neither has
  a value.\<close>

definition fr_eq :: "'v option \<Rightarrow> 'v option \<Rightarrow> bool" where "fr_eq a b \<longleftrightarrow> a = None \<and> b = None"

definition fr_deref :: "'v option \<Rightarrow> 'v res" where "fr_deref cur = (case cur of Some v \<Rightarrow> Inr v | None \<Rightarrow> Inl UB)"

text \<open>The next value, or what \<open>or_throw\<close> throws.\<close>

definition fr_incr :: "('s \<Rightarrow> ('v, 'e) rslt \<times> 's) option \<Rightarrow> 's \<Rightarrow> (('v option, 'e) outcome \<times> 's) res" where
  "fr_incr iter s =
     (case iter of
        None \<Rightarrow> Inr (Returned None, s)
      | Some gen \<Rightarrow>
          (let (r, s') = gen s
           in if \<not> is_assigned r then Inr (Returned None, s')
              else and_then (or_throw r) (\<lambda>(out, _). case out of
                     Returned v \<Rightarrow> Inr (Returned (Some v), s') | ThrewEmpty \<Rightarrow> Inr (ThrewEmpty, s') | ThrewError e \<Rightarrow> Inr (ThrewError e, s'))))"

text \<open>The loop \<^verbatim>\<open>for (auto const & x : foreach_result(gen)) body\<close>, for at most \<open>n\<close> values.\<close>

fun fr_loop :: "('s \<Rightarrow> ('v, 'e) rslt \<times> 's) \<Rightarrow> ('v \<Rightarrow> 'a \<Rightarrow> 'a) \<Rightarrow> nat \<Rightarrow> 's \<Rightarrow> 'a \<Rightarrow> ((unit, 'e) outcome \<times> 's \<times> 'a) res option" where
  "fr_loop gen body 0 s a = None"
| "fr_loop gen body (Suc n) s a =
     run_bind (Some (fr_incr (Some gen) s)) (\<lambda>(out, s'). case out of
       ThrewEmpty \<Rightarrow> Some (Inr (ThrewEmpty, s', a))
     | ThrewError e \<Rightarrow> Some (Inr (ThrewError e, s', a))
     | Returned cur \<Rightarrow>
         (if fr_eq cur None then Some (Inr (Returned (), s', a))
          else run_bind (Some (fr_deref cur)) (\<lambda>v. fr_loop gen body n s' (body v a))))"

text \<open>The generator gives the values \<open>vs\<close>, and then is in the state \<open>s'\<close>.\<close>

fun yields :: "('s \<Rightarrow> ('v, 'e) rslt \<times> 's) \<Rightarrow> 's \<Rightarrow> 'v list \<Rightarrow> 's \<Rightarrow> bool" where
  "yields gen s [] s' \<longleftrightarrow> s' = s"
| "yields gen s (v # vs) s' \<longleftrightarrow> fst (gen s) = rs_value v \<and> yields gen (snd (gen s)) vs s'"

lemma fr_incr_value: "fst (gen s) = rs_value v \<Longrightarrow> fr_incr (Some gen) s = Inr (Returned (Some v), snd (gen s))"
  by (simp add: fr_incr_def split_beta Let_def or_throw_def rs_release_def rs_get_def) (simp add: rs_value_def)

text \<open>The body runs on the values in order; the loop ends at the first result that is empty, and throws the first error.\<close>

lemma fr_loop_values:
  assumes "yields gen s vs s'"
  shows "fr_loop gen body (length vs + n) s a = fr_loop gen body n s' (fold body vs a)"
  using assms
proof (induction vs arbitrary: s a)
  case (Cons v vs)
  then show ?case using fr_incr_value[of gen s v] by (simp add: fr_eq_def fr_deref_def)
qed simp

lemma fr_loop_ends:
  assumes "yields gen s vs s'" "\<not> is_assigned (fst (gen s'))"
  shows "fr_loop gen body (Suc (length vs)) s a = Some (Inr (Returned (), snd (gen s'), fold body vs a))"
  using fr_loop_values[OF assms(1), of body 1 a] assms(2) by (simp add: fr_incr_def fr_eq_def split_beta Let_def)

lemma fr_loop_throws:
  assumes "yields gen s vs s'" "fst (gen s') = rs_error e"
  shows "fr_loop gen body (Suc (length vs)) s a = Some (Inr (ThrewError e, snd (gen s'), fold body vs a))"
proof -
  have "or_throw (rs_error e :: ('b, 'c) rslt) = Inr (ThrewError e, rs_error e)"
    by (simp add: or_throw_def rs_get_error_def) (simp add: rs_error_def)
  then show ?thesis
    using fr_loop_values[OF assms(1), of body 1 a] assms(2) by (simp add: fr_incr_def split_beta Let_def)
qed

section \<open>\<open>string_builder\<close>\<close>

text \<open>The memory from \<^verbatim>\<open>realloc\<close> is a list of bytes, \<open>None\<close> for one that was not written; the builder has none when \<open>sb_data\<close> is
  \<open>None\<close>. Whether there is memory for a block of \<open>n\<close> bytes is the parameter \<open>mem n\<close>. The argument is the content of a C string up to its
  first NUL.\<close>

record string_builder =
  sb_data :: "char option list option"
  sb_used :: nat
  sb_size :: nat
  sb_block :: nat

definition sb_new :: "nat \<Rightarrow> string_builder" where
  "sb_new block_size = \<lparr>sb_data = None, sb_used = 0, sb_size = 0, sb_block = block_size\<rparr>"

definition strlen :: "string \<Rightarrow> nat" where "strlen s = length (takeWhile (\<lambda>c. c \<noteq> CHR 0x00) s)"

definition realloc :: "(nat \<Rightarrow> bool) \<Rightarrow> char option list option \<Rightarrow> nat \<Rightarrow> char option list option" where
  "realloc mem data n =
     (if mem n then Some (case data of None \<Rightarrow> replicate n None | Some d \<Rightarrow> take n d @ replicate (n - length d) None) else None)"

text \<open>\<^verbatim>\<open>memcpy\<close> to a position in a block; to copy nothing does nothing.\<close>

definition copy_bytes :: "char option list option \<Rightarrow> nat \<Rightarrow> string \<Rightarrow> char option list option res" where
  "copy_bytes data at s =
     (if s = [] then Inr data
      else case data of
        None \<Rightarrow> Inl UB
      | Some d \<Rightarrow> if at + length s \<le> length d then Inr (Some (take at d @ List.map Some s @ drop (at + length s) d)) else Inl UB)"

definition sb_append :: "(nat \<Rightarrow> bool) \<Rightarrow> string_builder \<Rightarrow> string \<Rightarrow> string_builder res" where
  "sb_append mem b s =
     (let size = strlen s;
          new_size = sb_size b + size + sb_block b;
          b1 = (if sb_used b + size > sb_size b
                then b\<lparr>sb_data := realloc mem (sb_data b) new_size, sb_size := new_size\<rparr> else b)
      in and_then (copy_bytes (sb_data b1) (sb_used b1) (take size s)) (\<lambda>d.
           Inr (b1\<lparr>sb_data := d, sb_used := sb_used b1 + size\<rparr>)))"

definition sb_free :: "string_builder \<Rightarrow> string_builder" where "sb_free b = b\<lparr>sb_data := None\<rparr>"
definition sb_clear :: "string_builder \<Rightarrow> string_builder" where "sb_clear b = b\<lparr>sb_used := 0\<rparr>"

text \<open>\<^verbatim>\<open>std::string{data, n}\<close>: the bytes must be there and written.\<close>

definition sb_to_string :: "string_builder \<Rightarrow> string res" where
  "sb_to_string b =
     (if sb_used b = 0 then Inr []
      else case sb_data b of
        None \<Rightarrow> Inl UB
      | Some d \<Rightarrow> if sb_used b \<le> length d \<and> None \<notin> set (take (sb_used b) d) then Inr (List.map the (take (sb_used b) d)) else Inl UB)"

text \<open>The builder holds the text \<open>str\<close>.\<close>

definition sb_holds :: "string_builder \<Rightarrow> string \<Rightarrow> bool" where
  "sb_holds b str \<longleftrightarrow> sb_used b = length str \<and>
     (case sb_data b of None \<Rightarrow> sb_size b = 0 \<and> str = [] | Some d \<Rightarrow> length d = sb_size b \<and> (\<exists>junk. d = List.map Some str @ junk))"

lemma sb_holds_string: "sb_holds b str \<Longrightarrow> sb_to_string b = Inr str"
  by (auto simp: sb_holds_def sb_to_string_def split: option.splits)

lemma sb_new_holds: "sb_holds (sb_new n) []"
  by (simp add: sb_new_def sb_holds_def)

lemma sb_clear_holds: "sb_holds b str \<Longrightarrow> sb_holds (sb_clear b) []"
  by (auto simp: sb_clear_def sb_holds_def split: option.splits)

lemma copy_bytes_holds:
  assumes "length d = n" "d = List.map Some str @ junk" "length str + length s \<le> n"
  shows "\<exists>junk'. copy_bytes (Some d) (length str) s = Inr (Some (List.map Some (str @ s) @ junk')) \<and> length (List.map Some (str @ s) @ junk') = n"
  using assms by (intro exI[of _ "drop (length s) junk"]) (auto simp: copy_bytes_def)

text \<open>While there is memory, \<open>append\<close> appends.\<close>

lemma sb_append_holds:
  assumes "sb_holds b str" "\<And>n. mem n"
  shows "\<exists>b'. sb_append mem b s = Inr b' \<and> sb_holds b' (str @ takeWhile (\<lambda>c. c \<noteq> CHR 0x00) s)"
proof -
  define t where "t = takeWhile (\<lambda>c. c \<noteq> CHR 0x00) s"
  have t: "strlen s = length t" "take (length t) s = t" by (simp_all add: strlen_def t_def flip: takeWhile_eq_take)
  have used: "sb_used b = length str" using assms(1) by (simp add: sb_holds_def)
  show ?thesis
  proof (cases "length str + length t > sb_size b")
    case True
    define n where "n = sb_size b + length t + sb_block b"
    obtain junk where d: "realloc mem (sb_data b) n = Some (List.map Some str @ junk)" "length (List.map Some str @ junk) = n"
      using assms by (cases "sb_data b") (auto simp: sb_holds_def realloc_def n_def)
    have "length str + length t \<le> n" using assms(1) by (auto simp: sb_holds_def n_def split: option.splits)
    from copy_bytes_holds[OF d(2) refl this] d True used t show ?thesis
      by (auto simp: sb_append_def Let_def sb_holds_def n_def t_def)
  next
    case False
    show ?thesis
    proof (cases "sb_data b")
      case None
      then have "t = []" "str = []" "sb_size b = 0" using False assms(1) by (auto simp: sb_holds_def)
      then show ?thesis using None used t False by (simp add: sb_append_def Let_def copy_bytes_def sb_holds_def t_def)
    next
      case (Some d)
      then obtain junk where d: "length d = sb_size b" "d = List.map Some str @ junk" using assms(1) by (auto simp: sb_holds_def)
      have "length str + length t \<le> sb_size b" using False by simp
      from copy_bytes_holds[OF d this] Some d False used t show ?thesis
        by (auto simp: sb_append_def Let_def sb_holds_def t_def)
    qed
  qed
qed

text \<open>After \<open>free\<close> the builder still counts its bytes: to read it, or to append what would have fitted, goes through the null pointer.\<close>

lemma sb_free_string: "sb_holds b str \<Longrightarrow> str \<noteq> [] \<Longrightarrow> sb_to_string (sb_free b) = Inl UB"
  by (simp add: sb_holds_def sb_to_string_def sb_free_def)

lemma sb_free_append:
  assumes "sb_used b + strlen s \<le> sb_size b" "strlen s \<noteq> 0"
  shows "sb_append mem (sb_free b) s = Inl UB"
proof -
  have "take (strlen s) s \<noteq> []" using assms(2) by (auto simp: strlen_def)
  then show ?thesis using assms by (simp add: sb_append_def sb_free_def Let_def copy_bytes_def)
qed

text \<open>Without memory the builder loses its text and writes through the null pointer.\<close>

lemma sb_append_no_memory:
  assumes "\<not> mem (sb_size b + strlen s + sb_block b)" "sb_used b + strlen s > sb_size b" "strlen s \<noteq> 0"
  shows "sb_append mem b s = Inl UB"
proof -
  have "take (strlen s) s \<noteq> []" using assms(3) by (auto simp: strlen_def)
  then show ?thesis using assms by (simp add: sb_append_def realloc_def Let_def copy_bytes_def)
qed

section \<open>At the end of a scope\<close>

text \<open>\<open>exit_guard\<close> runs its function, if it has one; the guards of a scope run from the last to the first.\<close>

definition exit_guard_destroy :: "('s \<Rightarrow> 's) option \<Rightarrow> 's \<Rightarrow> 's" where
  "exit_guard_destroy g s = (case g of None \<Rightarrow> s | Some f \<Rightarrow> f s)"

definition leave_scope :: "('s \<Rightarrow> 's) option list \<Rightarrow> 's \<Rightarrow> 's" where
  "leave_scope guards s = fold exit_guard_destroy (rev guards) s"

lemma leave_scope_order: "leave_scope (g # gs) s = exit_guard_destroy g (leave_scope gs s)"
  by (simp add: leave_scope_def)

definition free_guard_destroy :: "64 word \<Rightarrow> heap \<Rightarrow> heap res" where
  "free_guard_destroy owned h = (if owned \<noteq> 0 then heap_delete owned h else Inr h)"

text \<open>A \<open>free_guard\<close> can be copied, and both copies delete the object.\<close>

lemma free_guard_once: "p \<in> set h \<Longrightarrow> p \<noteq> 0 \<Longrightarrow> free_guard_destroy p h = Inr (filter (\<lambda>q. q \<noteq> p) h)"
  by (simp add: free_guard_destroy_def heap_delete_def)

lemma free_guard_copied: "p \<noteq> 0 \<Longrightarrow> p \<in> set h \<Longrightarrow> and_then (free_guard_destroy p h) (free_guard_destroy p) = Inl UB"
  by (simp add: free_guard_destroy_def heap_delete_def)

text \<open>\<open>expect\<close>: the callback hears of a scope that took longer than it should. \<open>now\<close> is the reading of the clock, in nanoseconds.\<close>

record expect_scope =
  ex_start :: int
  ex_limit :: int

definition expect_new :: "int \<Rightarrow> int \<Rightarrow> expect_scope" where
  "expect_new now duration = \<lparr>ex_start = now, ex_limit = now + duration\<rparr>"

definition expect_destroy :: "(expect_scope \<Rightarrow> int \<Rightarrow> 's \<Rightarrow> 's) option \<Rightarrow> int \<Rightarrow> expect_scope \<Rightarrow> 's \<Rightarrow> 's" where
  "expect_destroy on_at_most now e s = (if now > ex_limit e then case on_at_most of None \<Rightarrow> s | Some f \<Rightarrow> f e now s else s)"

definition expected_time :: "expect_scope \<Rightarrow> int" where "expected_time e = ex_limit e - ex_start e"
definition actual_time :: "int \<Rightarrow> expect_scope \<Rightarrow> int" where "actual_time now e = now - ex_start e"

lemma expect_reports_iff:
  "expect_destroy (Some (\<lambda>e now _. Some (expected_time e, actual_time now e))) t1 (expect_new t0 d) None =
     (if t1 - t0 > d then Some (d, t1 - t0) else None)"
  by (auto simp: expect_destroy_def expect_new_def expected_time_def actual_time_def)

text \<open>\<open>BIND_FEATURE\<close>: a feature that is not defined does nothing when it returns nothing, and throws otherwise.\<close>

definition call_void_feature :: "('s \<Rightarrow> 's) option \<Rightarrow> 's \<Rightarrow> 's" where
  "call_void_feature field s = (case field of None \<Rightarrow> s | Some f \<Rightarrow> f s)"

definition call_feature :: "string \<Rightarrow> ('s \<Rightarrow> 'r \<times> 's) option \<Rightarrow> 's \<Rightarrow> ('r \<times> 's) res" where
  "call_feature public_name field s =
     (case field of None \<Rightarrow> Inl (RuntimeError (''Feature '' @ [CHR 0x27] @ public_name @ [CHR 0x27] @ '' is not defined'')) | Some f \<Rightarrow> Inr (f s))"

end
