(* ===== verification/Promises.thy ===== *)
theory Promises
  imports Tasks
begin

text \<open>
  \<^verbatim>\<open>include/txl/tasks.h\<close> and \<^verbatim>\<open>threading.h\<close>, beside the theory Tasks: awaiters and promises that are moved, the futures that refer
  to them, and the task runners as values: the inline one and the one of a thread pool, which may refuse the work.
\<close>

section \<open>Awaiters that are moved\<close>

text \<open>An awaiter owns its mutex and condition variable; one that was moved from has none, and to lock it is undefined behaviour. Its flag
  is copied. \<open>None\<close> is a thread that is blocked.\<close>

record awaiter =
  aw_core :: bool
  aw_flag :: bool

definition awaiter_new :: awaiter where "awaiter_new = \<lparr>aw_core = True, aw_flag = False\<rparr>"

definition awaiter_move :: "awaiter \<Rightarrow> awaiter \<times> awaiter" where "awaiter_move a = (a, a\<lparr>aw_core := False\<rparr>)"

definition awaiter_assign :: "awaiter \<Rightarrow> awaiter \<Rightarrow> awaiter \<times> awaiter" where
  "awaiter_assign this a = (this\<lparr>aw_core := aw_core a, aw_flag := aw_flag a\<rparr>, a\<lparr>aw_core := False\<rparr>)"

definition awaiter_set :: "awaiter \<Rightarrow> awaiter res" where
  "awaiter_set a = (if aw_core a then Inr (a\<lparr>aw_flag := aw_set (aw_flag a)\<rparr>) else Inl UB)"

definition awaiter_reset :: "awaiter \<Rightarrow> awaiter res" where
  "awaiter_reset a = (if aw_core a then Inr (a\<lparr>aw_flag := aw_reset (aw_flag a)\<rparr>) else Inl UB)"

text \<open>\<open>wait\<close> answers whether it had to look under the mutex; here it goes on only when the flag is set.\<close>

definition awaiter_wait :: "awaiter \<Rightarrow> bool res option" where
  "awaiter_wait a = (if aw_flag a then Some (Inr False) else if aw_core a then None else Some (Inl UB))"

definition awaiter_wait_and_reset :: "awaiter \<Rightarrow> awaiter res option" where
  "awaiter_wait_and_reset a = run_bind (awaiter_wait a) (\<lambda>_. Some (awaiter_reset a))"

lemma awaiter_set_wait: "aw_core a \<Longrightarrow> run_bind (Some (awaiter_set a)) awaiter_wait = Some (Inr False)"
  by (simp add: awaiter_set_def awaiter_wait_def)

lemma awaiter_waits_again:
  "aw_core a \<Longrightarrow> aw_flag a \<Longrightarrow> run_bind (awaiter_wait_and_reset a) awaiter_wait = None"
  by (simp add: awaiter_wait_and_reset_def awaiter_reset_def awaiter_wait_def)

text \<open>The waiter of an awaiter that was moved away before it was set.\<close>

lemma awaiter_moved_wait: "\<not> aw_flag a \<Longrightarrow> awaiter_wait (snd (awaiter_move a)) = Some (Inl UB)"
  by (simp add: awaiter_move_def awaiter_wait_def)

section \<open>Promises that are moved\<close>

text \<open>Only \<open>promise<void>\<close> can be moved: the move of a \<open>promise<T>\<close> needs a move of its \<open>storage_union\<close>, which does not compile.
  \<open>pcore\<close> says whether the awaiter still has its core; \<open>moved\<close> is what is left of a value that was moved.\<close>

record ('v, 'e) promise_obj = "('v, 'e) promise" +
  pcore :: bool

definition promise_obj_new :: "('v, 'e) promise_obj" where
  "promise_obj_new = \<lparr>pres = su_new, paw = False, pcore = True\<rparr>"

definition void_move :: "((unit, 'e) pval \<Rightarrow> (unit, 'e) pval) \<Rightarrow> (unit, 'e) promise_obj \<Rightarrow> ((unit, 'e) promise_obj \<times> (unit, 'e) promise_obj) res" where
  "void_move moved p =
     and_then (su_swap moved void_types su_new (pres p)) (\<lambda>(u, v).
       Inr (\<lparr>pres = u, paw = paw p, pcore = pcore p\<rparr>, p\<lparr>pres := v, pcore := False\<rparr>))"

definition void_move_assign :: "((unit, 'e) pval \<Rightarrow> (unit, 'e) pval) \<Rightarrow> (unit, 'e) promise_obj \<Rightarrow> (unit, 'e) promise_obj \<Rightarrow>
    ((unit, 'e) promise_obj \<times> (unit, 'e) promise_obj) res" where
  "void_move_assign moved this p =
     and_then (su_swap moved void_types (pres this) (pres p)) (\<lambda>(u, v).
       Inr (this\<lparr>pres := u, paw := paw p, pcore := pcore p\<rparr>, p\<lparr>pres := v, pcore := False\<rparr>))"

definition promise_awaiter :: "('v, 'e) promise_obj \<Rightarrow> awaiter" where
  "promise_awaiter p = \<lparr>aw_core = pcore p, aw_flag = paw p\<rparr>"

text \<open>A future is a reference to the awaiter in the promise object.\<close>

definition future_obj_wait :: "('v, 'e) promise_obj \<Rightarrow> bool res option" where
  "future_obj_wait p = awaiter_wait (promise_awaiter p)"

text \<open>A promise that is moved takes its outcome along; the one it was moved from still says that it has an outcome, and a future that was
  taken before the move waits on a mutex that is gone.\<close>

lemma void_move_outcome:
  assumes "su_ok void_types (pres p)" "su_view (pres p) = Some (t, v)"
  shows "\<exists>q p'. void_move moved p = Inr (q, p') \<and> su_view (pres q) = Some (t, v) \<and> su_view (pres p') = Some (t, moved v) \<and>
    future_obj_wait q = future_obj_wait p"
proof -
  obtain u w where "su_swap moved void_types su_new (pres p) = Inr (u, w)" "su_view u = Some (t, v)" "su_view w = Some (t, moved v)"
    using su_swap_empty[OF promise_types_ok(2) su_ok_new(1) assms(1) su_ok_new(2) assms(2)] by blast
  then show ?thesis by (simp add: void_move_def future_obj_wait_def promise_awaiter_def)
qed

lemma future_of_moved:
  "void_move moved p = Inr (q, p') \<Longrightarrow> \<not> paw p \<Longrightarrow> future_obj_wait p' = Some (Inl UB)"
  by (auto simp: void_move_def and_then_eq_Inr future_obj_wait_def promise_awaiter_def awaiter_wait_def)

section \<open>Runners\<close>

text \<open>A runner takes the closure of a task: the address of its promise and its chain. The runner of a pool posts it; \<open>accepted\<close> says
  whether a worker takes it, and the answer is not looked at.\<close>

type_synonym ('v, 'e, 'w) runner = "nat \<Rightarrow> ('v, 'e, 'w) chain \<Rightarrow> ('v, 'e, 'w) tstate \<Rightarrow> ('v, 'e, 'w) tstate res option"

definition pool_runner :: "bool \<Rightarrow> 'e \<Rightarrow> ('v, 'e) promise_ops \<Rightarrow> (nat \<Rightarrow> bool) \<Rightarrow> ('v, 'e, 'w) runner" where
  "pool_runner accepted ex ops stopped a c s = (if accepted then run_on_worker ex ops stopped 0 a c s else Some (Inr s))"

definition task_run_on :: "('v, 'e, 'w) runner \<Rightarrow> ('v, 'e) promise_ops \<Rightarrow> ('v, 'e, 'w) task \<Rightarrow> ('v, 'e, 'w) tstate \<Rightarrow> ('v, 'e, 'w) tstate res option" where
  "task_run_on runner ops t s = run_bind (on_prom (tprom t) (op_reset ops) s) (runner (tprom t) (tchain t))"

definition rethrow_if_exception :: "('v, 'e) promise_ops \<Rightarrow> ('v, 'e) promise \<Rightarrow> 'e option res" where
  "rethrow_if_exception ops p = (if op_has_exception ops p then and_then (op_get_exception ops p) (\<lambda>e. Inr (Some e)) else Inr None)"

definition task_call_on :: "('v, 'e, 'w) runner \<Rightarrow> ('v, 'e) promise_ops \<Rightarrow> ('v, 'e, 'w) task \<Rightarrow> ('v, 'e, 'w) tstate \<Rightarrow> ('v, 'e, 'w) outcome" where
  "task_call_on runner ops t s = run_bind (task_run_on runner ops t s) (\<lambda>s'.
     run_bind (future_wait (tprom t) s') (\<lambda>_.
     run_bind (Some (rethrow_if_exception ops (proms s' (tprom t)))) (\<lambda>x. case x of
       Some e \<Rightarrow> Some (Inr (Inl e, s'))
     | None \<Rightarrow> run_bind (Some (op_get_value ops (proms s' (tprom t)))) (\<lambda>v. Some (Inr (Inr v, s'))))))"

text \<open>\<open>delay\<close>: a task that sleeps; \<open>sleep_for\<close> is what sleeping does to the world.\<close>

definition delay_task :: "nat \<Rightarrow> (nat \<Rightarrow> 'w \<Rightarrow> 'w) \<Rightarrow> nat \<Rightarrow> (unit, 'e, 'w) task" where
  "delay_task a sleep_for nanos =
     \<lparr>tprom = a, tchain = chain_of (\<lambda>_ s. Some (Inr (Inr (), s\<lparr>world := sleep_for nanos (world s)\<rparr>)))\<rparr>"

text \<open>On the inline runner a call is the call of the theory Tasks, and so it is on a worker that takes the work and does not stop.\<close>

lemma rethrow_or_value:
  "run_bind (Some (rethrow_if_exception ops p)) (\<lambda>x. case x of Some e \<Rightarrow> Some (Inr (Inl e, s'))
      | None \<Rightarrow> run_bind (Some (op_get_value ops p)) (\<lambda>v. Some (Inr (Inr v, s')))) =
    Some (if op_has_exception ops p then and_then (op_get_exception ops p) (\<lambda>e. Inr (Inl e, s'))
          else and_then (op_get_value ops p) (\<lambda>v. Inr (Inr v, s')))"
  by (cases "op_get_exception ops p"; cases "op_get_value ops p") (simp_all add: rethrow_if_exception_def)

lemma task_call_on_inline: "task_call_on (inline_run ex ops) ops t s = task_call ex ops t s"
  by (simp only: task_call_on_def task_call_def task_run_on_def task_run_def Let_def rethrow_or_value)

lemma run_on_worker_free: "run_on_worker ex ops (\<lambda>_. False) i a c s = inline_run ex ops a c s"
proof (induction c arbitrary: i s rule: works.induct)
  case (2 w n)
  then show ?case by simp
qed simp

lemma pool_runner_free: "pool_runner True ex ops (\<lambda>_. False) = inline_run ex ops"
  by (intro ext) (simp add: pool_runner_def run_on_worker_free)

lemma pool_call_accepted: "task_call_on (pool_runner True ex ops (\<lambda>_. False)) ops t s = task_call ex ops t s"
  by (simp add: pool_runner_free task_call_on_inline)

text \<open>When the pool refuses the work, because it is stopped, nobody completes the promise: the caller waits for ever.\<close>

lemma pool_call_refused: "task_call_on (pool_runner False ex value_ops stopped) value_ops t s = None"
  by (simp add: task_call_on_def task_run_on_def pool_runner_def on_prom_def value_ops_def value_reset_def future_wait_def)

text \<open>A call of \<open>delay\<close> sleeps once.\<close>

lemma delay_sleeps:
  assumes "all_ok void_ok s"
  shows "\<exists>s'. task_call ex void_ops (delay_task a sleep_for nanos) s = Some (Inr (Inr (), s')) \<and> world s' = sleep_for nanos (world s)"
proof -
  let ?t = "delay_task a sleep_for nanos :: (unit, 'a, 'b) task"
  have "list_all2 (rel_option (acts void_ok content {} (tprom ?t))) (works (tchain ?t)) [Some (\<lambda>_ w. Inr (Inr (), sleep_for nanos w))]"
    by (auto simp: delay_task_def chain_of_def acts_def all_ok_def changes_def)
  from void_call_outcome[OF assms this, of "Some (Inr ())" "sleep_for nanos (world s)" ex]
  show ?thesis by (auto simp: outcome_of_def)
qed

section \<open>The global runner\<close>

text \<open>The static pointer: what it holds is the runner of the calls that name none. It starts with the inline runner.\<close>

definition set_global :: "'r option \<Rightarrow> 'r option \<Rightarrow> 'r option" where
  "set_global runner glob = runner"

definition global_runner :: "'r option \<Rightarrow> 'r res" where
  "global_runner glob = (case glob of None \<Rightarrow> Inl UB | Some r \<Rightarrow> Inr r)"

definition global_start :: "'e \<Rightarrow> ('v, 'e) promise_ops \<Rightarrow> ('v, 'e, 'w) runner option" where
  "global_start ex ops = Some (inline_run ex ops)"

definition task_call_global :: "('v, 'e, 'w) runner option \<Rightarrow> ('v, 'e) promise_ops \<Rightarrow> ('v, 'e, 'w) task \<Rightarrow> ('v, 'e, 'w) tstate \<Rightarrow> ('v, 'e, 'w) outcome" where
  "task_call_global glob ops t s = run_bind (Some (global_runner glob)) (\<lambda>r. task_call_on r ops t s)"

text \<open>\<open>delay(duration)\<close>, for a duration of \<open>count\<close> times \<open>num / den\<close> seconds: the cast to nanoseconds rounds towards zero, and the
  argument of \<open>delay\<close> is unsigned. Both runners make the same task.\<close>

definition nanos_of :: "int \<Rightarrow> int \<Rightarrow> int \<Rightarrow> int" where
  "nanos_of num den count = (let n = count * (num * 1000000000) in if n < 0 then - (- n div den) else n div den)"

definition delay_global :: "'r option \<Rightarrow> nat \<Rightarrow> (nat \<Rightarrow> 'w \<Rightarrow> 'w) \<Rightarrow> int \<Rightarrow> int \<Rightarrow> int \<Rightarrow> (unit, 'e, 'w) task res" where
  "delay_global glob a sleep_for num den count =
     and_then (global_runner glob) (\<lambda>r. Inr (delay_task a sleep_for (nat (nanos_of num den count mod 2 ^ 64))))"

definition make_task :: "nat \<Rightarrow> (task_context \<Rightarrow> ('v, 'e, 'w) tstate \<Rightarrow> ('v, 'e, 'w) outcome) \<Rightarrow> ('v, 'e, 'w) task" where
  "make_task a f = \<lparr>tprom = a, tchain = chain_of f\<rparr>"

lemma global_call_start: "task_call_global (global_start ex ops) ops t s = task_call ex ops t s"
  by (simp add: task_call_global_def global_start_def global_runner_def task_call_on_inline)

lemma global_call_set: "task_call_global (set_global (Some r) glob) ops t s = task_call_on r ops t s"
  by (simp add: task_call_global_def set_global_def global_runner_def)

lemma global_call_null: "task_call_global (set_global None glob) ops t s = Some (Inl UB)"
  by (simp add: task_call_global_def set_global_def global_runner_def)

text \<open>A delay of \<open>count\<close> milliseconds on a runner that is there sleeps a million times as many nanoseconds, below 2^64.\<close>

lemma delay_millis:
  assumes "c < 2 ^ 64 div 1000000"
  shows "delay_global (Some r) a sleep_for 1 1000 (int c) = Inr (delay_task a sleep_for (c * 1000000))"
proof -
  have "nanos_of 1 1000 (int c) = int (c * 1000000)"
    by (simp add: nanos_of_def)
  moreover have "int (c * 1000000) < 2 ^ 64" using assms by simp
  ultimately show ?thesis by (simp add: delay_global_def global_runner_def del: of_nat_mult)
qed

section \<open>Tasks that are moved or destroyed while they run\<close>

text \<open>
  A closure has the addresses of the promise and of the first element of the chain, which are inside the task; the later elements are
  on the heap and belong to the task, or to the task it was moved into. \<open>ev 0\<close> says what became of the task before a worker started with it, \<open>ev i\<close>
  after the \<open>i\<close>-th function: it is still there, it was moved away, or it (or the task it was moved into) was destroyed. \<open>root\<close>: the
  closure is at the first element, which a move leaves empty.
\<close>

datatype fate = Stays | MovedAway | Destroyed

fun run_meddled :: "'e \<Rightarrow> ('v, 'e) promise_ops \<Rightarrow> (nat \<Rightarrow> fate) \<Rightarrow> nat \<Rightarrow> bool \<Rightarrow> nat \<Rightarrow> ('v, 'e, 'w) chain \<Rightarrow> ('v, 'e, 'w) tstate \<Rightarrow>
    ('v, 'e, 'w) tstate res option" where
  "run_meddled ex ops ev i root a (TaskChain w n) s =
     run_bind (closure_execute ops a (TaskChain w n) s) (\<lambda>s'.
       if ev i = Destroyed then Some (Inl UB)
       else case n of
         None \<Rightarrow> closure_complete ex ops a s'
       | Some c \<Rightarrow> if root \<and> ev i = MovedAway then closure_complete ex ops a s'
           else run_meddled ex ops ev (Suc i) False a c s')"

definition run_posted :: "'e \<Rightarrow> ('v, 'e) promise_ops \<Rightarrow> (nat \<Rightarrow> fate) \<Rightarrow> nat \<Rightarrow> ('v, 'e, 'w) chain \<Rightarrow> ('v, 'e, 'w) tstate \<Rightarrow>
    ('v, 'e, 'w) tstate res option" where
  "run_posted ex ops ev a c s = (case ev 0 of
       Destroyed \<Rightarrow> Some (Inl UB)
     | MovedAway \<Rightarrow> run_meddled ex ops ev 1 True a chain_none s
     | Stays \<Rightarrow> run_meddled ex ops ev 1 True a c s)"

text \<open>Once the closure has left the first element, moves of the task do not matter: the functions run and the outcome goes to the promise
  of the first task.\<close>

lemma meddled_node:
  "\<forall>j. ev j \<noteq> Destroyed \<Longrightarrow> \<not> root \<or> ev i \<noteq> MovedAway \<Longrightarrow> run_meddled ex ops ev i root a c s = inline_run ex ops a c s"
proof (induction ex ops ev i root a c s rule: run_meddled.induct)
  case (1 ex ops ev i root a w n s)
  then show ?case by (cases n) auto
qed

lemma moved_late:
  assumes "\<forall>j. ev j \<noteq> Destroyed" "ev 0 = Stays" "ev 1 = Stays"
  shows "run_posted ex ops ev a c s = inline_run ex ops a c s"
  using assms by (simp add: run_posted_def meddled_node)

text \<open>A move during the first function drops the others, and a move before it drops all of them: the promise gets the outcome of the
  first one, or the exception of an empty task.\<close>

lemma moved_during_first:
  assumes "ev 0 = Stays" "ev 1 = MovedAway"
  shows "run_posted ex ops ev a (TaskChain w n) s = inline_run ex ops a (TaskChain w None) s"
  using assms by (cases n) (simp_all add: run_posted_def closure_execute_def execute_top_def)

lemma moved_before_start:
  assumes "\<forall>j. ev j \<noteq> Destroyed" "ev 0 = MovedAway"
  shows "run_posted ex ops ev a c s = inline_run ex ops a chain_none s"
proof -
  have "closure_execute ops a (TaskChain None None) s = Some (Inr s)"
    by (simp add: closure_execute_def execute_top_def)
  then show ?thesis using assms by (simp add: run_posted_def chain_none_def)
qed

lemma destroyed_before_start: "ev 0 = Destroyed \<Longrightarrow> run_posted ex ops ev a c s = Some (Inl UB)"
  by (simp add: run_posted_def)

end
