(* ===== verification/ThreadTest.thy ===== *)
theory ThreadTest
  imports TxlPrelude "HOL-Library.Multiset"
begin

text \<open>
  \<^verbatim>\<open>include/txl/threading.h\<close>, \<open>threading_unit_test\<close>: \<open>n\<close> threads that start together. The main thread spawns them, waits until all
  run, does \<open>pre_test\<close>, opens the barrier, joins them and does \<open>post_test\<close>. A section under a mutex is one step, and so is the read of
  the counter outside of it; a wait may end without a notification. A step relation runs the threads in any order.
\<close>

section \<open>States and steps\<close>

datatype main_pc =
    MSpawn nat  \<comment> \<open>spawns the thread with this number\<close>
  | MCheck      \<comment> \<open>\<open>while (num_running != n)\<close>\<close>
  | MLock       \<comment> \<open>tests again, under the mutex\<close>
  | MWait
  | MPre
  | MReady
  | MNotify
  | MJoin nat
  | MPost
  | MDone

datatype thread_pc = TStart | TNotify | TBarrier | TWait | TMain | TDone

datatype event = PreTest | ThreadMain nat | PostTest

record test_state =
  ts_main :: main_pc
  ts_threads :: "thread_pc list"
  ts_running :: nat
  ts_ready :: bool
  ts_log :: "event list"

text \<open>\<open>run_n_threads\<close> after its first lines, which close the barrier.\<close>

definition run_n_threads_start :: test_state where
  "run_n_threads_start = \<lparr>ts_main = MSpawn 0, ts_threads = [], ts_running = 0, ts_ready = False, ts_log = []\<rparr>"

definition set_pc :: "nat \<Rightarrow> thread_pc \<Rightarrow> test_state \<Rightarrow> test_state" where
  "set_pc i pc s = s\<lparr>ts_threads := (ts_threads s)[i := pc]\<rparr>"

text \<open>\<open>barrier_.notify_all\<close>: the threads that wait will test again.\<close>

definition wake :: "thread_pc \<Rightarrow> thread_pc" where "wake pc = (if pc = TWait then TBarrier else pc)"

inductive main_step :: "nat \<Rightarrow> test_state \<Rightarrow> test_state \<Rightarrow> bool" for n where
  spawn: "ts_main s = MSpawn i \<Longrightarrow> i < n \<Longrightarrow> main_step n s (s\<lparr>ts_main := MSpawn (i + 1), ts_threads := ts_threads s @ [TStart]\<rparr>)"
| spawned: "ts_main s = MSpawn n \<Longrightarrow> main_step n s (s\<lparr>ts_main := MCheck\<rparr>)"
| check_more: "ts_main s = MCheck \<Longrightarrow> ts_running s \<noteq> n \<Longrightarrow> main_step n s (s\<lparr>ts_main := MLock\<rparr>)"
| check_all: "ts_main s = MCheck \<Longrightarrow> ts_running s = n \<Longrightarrow> main_step n s (s\<lparr>ts_main := MPre\<rparr>)"
| lock_wait: "ts_main s = MLock \<Longrightarrow> ts_running s \<noteq> n \<Longrightarrow> main_step n s (s\<lparr>ts_main := MWait\<rparr>)"
| lock_all: "ts_main s = MLock \<Longrightarrow> ts_running s = n \<Longrightarrow> main_step n s (s\<lparr>ts_main := MCheck\<rparr>)"
| pre: "ts_main s = MPre \<Longrightarrow> main_step n s (s\<lparr>ts_main := MReady, ts_log := ts_log s @ [PreTest]\<rparr>)"
| ready: "ts_main s = MReady \<Longrightarrow> main_step n s (s\<lparr>ts_main := MNotify, ts_ready := True\<rparr>)"
| notify: "ts_main s = MNotify \<Longrightarrow> main_step n s (s\<lparr>ts_main := MJoin 0, ts_threads := map wake (ts_threads s)\<rparr>)"
| join: "ts_main s = MJoin i \<Longrightarrow> i < n \<Longrightarrow> ts_threads s ! i = TDone \<Longrightarrow> main_step n s (s\<lparr>ts_main := MJoin (i + 1)\<rparr>)"
| joined: "ts_main s = MJoin n \<Longrightarrow> main_step n s (s\<lparr>ts_main := MPost\<rparr>)"
| post: "ts_main s = MPost \<Longrightarrow> main_step n s (s\<lparr>ts_main := MDone, ts_log := ts_log s @ [PostTest]\<rparr>)"

text \<open>The steps of thread \<open>i\<close>. Its notification finds the main thread waiting, or is lost.\<close>

inductive thread_step :: "nat \<Rightarrow> test_state \<Rightarrow> test_state \<Rightarrow> bool" for i where
  count: "i < length (ts_threads s) \<Longrightarrow> ts_threads s ! i = TStart \<Longrightarrow> thread_step i s (set_pc i TNotify (s\<lparr>ts_running := ts_running s + 1\<rparr>))"
| notify_main: "i < length (ts_threads s) \<Longrightarrow> ts_threads s ! i = TNotify \<Longrightarrow>
    thread_step i s (set_pc i TBarrier (s\<lparr>ts_main := if ts_main s = MWait then MCheck else ts_main s\<rparr>))"
| pass: "i < length (ts_threads s) \<Longrightarrow> ts_threads s ! i = TBarrier \<Longrightarrow> ts_ready s \<Longrightarrow> thread_step i s (set_pc i TMain s)"
| block: "i < length (ts_threads s) \<Longrightarrow> ts_threads s ! i = TBarrier \<Longrightarrow> \<not> ts_ready s \<Longrightarrow> thread_step i s (set_pc i TWait s)"
| body: "i < length (ts_threads s) \<Longrightarrow> ts_threads s ! i = TMain \<Longrightarrow>
    thread_step i s (set_pc i TDone (s\<lparr>ts_log := ts_log s @ [ThreadMain i]\<rparr>))"

text \<open>A wait that ends without a notification.\<close>

inductive spurious_step :: "test_state \<Rightarrow> test_state \<Rightarrow> bool" where
  main_wakes: "ts_main s = MWait \<Longrightarrow> spurious_step s (s\<lparr>ts_main := MCheck\<rparr>)"
| thread_wakes: "i < length (ts_threads s) \<Longrightarrow> ts_threads s ! i = TWait \<Longrightarrow> spurious_step s (set_pc i TBarrier s)"

inductive reachable :: "nat \<Rightarrow> test_state \<Rightarrow> bool" for n where
  init: "reachable n run_n_threads_start"
| main: "reachable n s \<Longrightarrow> main_step n s s' \<Longrightarrow> reachable n s'"
| thread: "reachable n s \<Longrightarrow> thread_step i s s' \<Longrightarrow> reachable n s'"
| spurious: "reachable n s \<Longrightarrow> spurious_step s s' \<Longrightarrow> reachable n s'"

section \<open>\<open>run\<close>\<close>

text \<open>The numbers of threads of the rounds, and the clamped scales.\<close>

function run_rounds :: "nat \<Rightarrow> nat \<Rightarrow> nat \<Rightarrow> nat list" where
  "run_rounds i max_scale n = (if i < max_scale then n # run_rounds (i + 1) max_scale (n * 2) else [])"
  by pat_completeness auto
termination
  by (relation "measure (\<lambda>(i, m, n). m - i)") auto

declare run_rounds.simps [simp del]

definition MAX_THREAD_SCALE :: nat where "MAX_THREAD_SCALE = 10"

definition test_run :: "nat \<Rightarrow> nat \<Rightarrow> nat list" where "test_run min_scale max_scale = run_rounds min_scale max_scale (2 ^ min_scale)"

definition clamp_scale :: "nat \<Rightarrow> nat" where "clamp_scale k = min (max k 1) MAX_THREAD_SCALE"

definition set_thread_scale :: "nat \<Rightarrow> nat \<Rightarrow> nat \<times> nat" where
  "set_thread_scale min_scale max_scale = (clamp_scale min_scale, clamp_scale max_scale)"

lemma run_rounds_powers: "run_rounds i m (2 ^ i) = map (\<lambda>j. 2 ^ j) [i..<m]"
proof (induction "m - i" arbitrary: i)
  case 0
  then show ?case by (simp add: run_rounds.simps)
next
  case (Suc k)
  then have "[i..<m] = i # [Suc i..<m]" by (simp add: upt_conv_Cons)
  then show ?case using Suc(1)[of "Suc i"] Suc(2) by (subst run_rounds.simps) (simp add: mult.commute)
qed

text \<open>After \<open>set_thread_scale\<close> a round has at least 2 and at most 512 threads.\<close>

lemma test_run_bounds:
  assumes "set_thread_scale a b = (lo, hi)" "n \<in> set (test_run lo hi)"
  shows "2 \<le> n \<and> n \<le> 512"
proof -
  obtain j where j: "n = 2 ^ j" "lo \<le> j" "j < hi" using assms(2) by (auto simp: test_run_def run_rounds_powers)
  have "1 \<le> j" "j \<le> 9" using assms(1) j by (auto simp: set_thread_scale_def clamp_scale_def MAX_THREAD_SCALE_def)
  then show ?thesis using j(1) power_increasing[of 1 j "2 :: nat"] power_increasing[of j 9 "2 :: nat"] by simp
qed


section \<open>The invariant\<close>

text \<open>How far the main thread is, and how many threads have counted themselves.\<close>

fun at_pre :: "main_pc \<Rightarrow> bool" where
  "at_pre (MSpawn i) = True"
| "at_pre MCheck = True"
| "at_pre MLock = True"
| "at_pre MWait = True"
| "at_pre MPre = True"
| "at_pre pc = False"

definition started :: "test_state \<Rightarrow> nat" where "started s = count_list (ts_threads s) TStart"

definition thread_count :: "nat \<Rightarrow> test_state \<Rightarrow> nat" where
  "thread_count n s = (case ts_main s of MSpawn i \<Rightarrow> i | _ \<Rightarrow> n)"

definition done_threads :: "test_state \<Rightarrow> nat set" where
  "done_threads s = {i. i < length (ts_threads s) \<and> ts_threads s ! i = TDone}"

definition log_ok :: "test_state \<Rightarrow> bool" where
  "log_ok s \<longleftrightarrow>
     (if at_pre (ts_main s) then ts_log s = [] \<and> done_threads s = {}
      else \<exists>is. ts_log s = PreTest # map ThreadMain is @ (if ts_main s = MDone then [PostTest] else []) \<and> distinct is \<and> set is = done_threads s)"

definition threads_ok :: "nat \<Rightarrow> test_state \<Rightarrow> bool" where
  "threads_ok n s \<longleftrightarrow>
     thread_count n s \<le> n \<and> length (ts_threads s) = thread_count n s \<and> ts_running s + started s = length (ts_threads s)"

definition barrier_ok :: "test_state \<Rightarrow> bool" where
  "barrier_ok s \<longleftrightarrow>
     (ts_ready s \<longleftrightarrow> \<not> at_pre (ts_main s) \<and> ts_main s \<noteq> MReady) \<and>
     (\<not> ts_ready s \<longrightarrow> TMain \<notin> set (ts_threads s) \<and> TDone \<notin> set (ts_threads s)) \<and>
     (ts_ready s \<and> ts_main s \<noteq> MNotify \<longrightarrow> TWait \<notin> set (ts_threads s))"

definition main_ok :: "nat \<Rightarrow> test_state \<Rightarrow> bool" where
  "main_ok n s \<longleftrightarrow>
     (ts_main s = MWait \<longrightarrow> TStart \<in> set (ts_threads s) \<or> TNotify \<in> set (ts_threads s)) \<and>
     (\<not> at_pre (ts_main s) \<or> ts_main s = MPre \<longrightarrow> ts_running s = n) \<and>
     (case ts_main s of
        MJoin j \<Rightarrow> j \<le> n \<and> (\<forall>i < j. ts_threads s ! i = TDone)
      | MPost \<Rightarrow> set (ts_threads s) \<subseteq> {TDone}
      | MDone \<Rightarrow> set (ts_threads s) \<subseteq> {TDone}
      | _ \<Rightarrow> True)"

definition inv :: "nat \<Rightarrow> test_state \<Rightarrow> bool" where
  "inv n s \<longleftrightarrow> threads_ok n s \<and> barrier_ok s \<and> main_ok n s \<and> log_ok s"

lemmas inv_defs = threads_ok_def barrier_ok_def main_ok_def thread_count_def started_def

lemma count_list_update:
  "i < length xs \<Longrightarrow> count_list (xs[i := x]) y + (if xs ! i = y then 1 else 0) = count_list xs y + (if x = y then 1 else 0)"
proof (induction xs arbitrary: i)
  case (Cons z zs)
  show ?case
  proof (cases i)
    case (Suc j)
    then show ?thesis using Cons.IH[of j] Cons.prems by (simp split: if_splits)
  qed auto
qed simp

lemma inv_init: "inv n run_n_threads_start"
  by (simp add: inv_def inv_defs run_n_threads_start_def log_ok_def done_threads_def)

lemma set_pc_fields [simp]:
  "ts_main (set_pc i pc s) = ts_main s" "ts_running (set_pc i pc s) = ts_running s" "ts_ready (set_pc i pc s) = ts_ready s"
  "ts_log (set_pc i pc s) = ts_log s" "ts_threads (set_pc i pc s) = (ts_threads s)[i := pc]"
  by (simp_all add: set_pc_def)

lemma count_list_wake: "count_list (map wake xs) TStart = count_list xs TStart"
  by (induction xs) (auto simp: wake_def)

lemma wake_simps [simp]: "wake x = TDone \<longleftrightarrow> x = TDone" "wake x = TMain \<longleftrightarrow> x = TMain" "wake x \<noteq> TWait" "TWait \<noteq> wake x"
  by (auto simp: wake_def)

lemma done_wake: "done_threads (s\<lparr>ts_main := m, ts_threads := map wake (ts_threads s)\<rparr>) = done_threads s"
  by (auto simp: done_threads_def)

lemma threads_step:
  assumes "threads_ok n s"
  shows "main_step n s s' \<Longrightarrow> threads_ok n s'" "thread_step i s s' \<Longrightarrow> threads_ok n s'" "spurious_step s s' \<Longrightarrow> threads_ok n s'"
proof -
  show "threads_ok n s'" if "main_step n s s'"
    using that assms by (cases rule: main_step.cases) (auto simp: inv_defs count_list_wake)
  show "threads_ok n s'" if "thread_step i s s'"
    using that
  proof (cases rule: thread_step.cases)
    case count
    then show ?thesis using assms count_list_update[of i "ts_threads s" TNotify TStart] by (auto simp: inv_defs split: main_pc.splits)
  next
    case notify_main
    then show ?thesis using assms count_list_update[of i "ts_threads s" TBarrier TStart] by (auto simp: inv_defs split: main_pc.splits)
  next
    case pass
    then show ?thesis using assms count_list_update[of i "ts_threads s" TMain TStart] by (auto simp: inv_defs split: main_pc.splits)
  next
    case block
    then show ?thesis using assms count_list_update[of i "ts_threads s" TWait TStart] by (auto simp: inv_defs split: main_pc.splits)
  next
    case body
    then show ?thesis using assms count_list_update[of i "ts_threads s" TDone TStart] by (auto simp: inv_defs split: main_pc.splits)
  qed
  show "threads_ok n s'" if "spurious_step s s'"
    using that
  proof (cases rule: spurious_step.cases)
    case (thread_wakes i)
    then show ?thesis using assms count_list_update[of i "ts_threads s" TBarrier TStart] by (auto simp: inv_defs split: main_pc.splits)
  qed (use assms in \<open>auto simp: inv_defs\<close>)
qed


lemma running_all: "ts_running s + started s = length (ts_threads s) \<Longrightarrow> length (ts_threads s) \<le> n \<Longrightarrow> ts_running s = n \<Longrightarrow> TStart \<notin> set (ts_threads s)"
  by (simp add: started_def flip: count_list_0_iff)

text \<open>The barrier opens after \<open>pre_test\<close>; no thread passes before, and none sleeps once the notification is out.\<close>

lemma barrier_step:
  assumes "barrier_ok s"
  shows "main_step n s s' \<Longrightarrow> barrier_ok s'" "thread_step i s s' \<Longrightarrow> barrier_ok s'" "spurious_step s s' \<Longrightarrow> barrier_ok s'"
proof -
  show "barrier_ok s'" if "main_step n s s'"
    using that assms by (cases rule: main_step.cases) (auto simp: barrier_ok_def image_iff)
  show "barrier_ok s'" if "thread_step i s s'"
    using that
  proof (cases rule: thread_step.cases)
    case body
    then have "TMain \<in> set (ts_threads s)" by (metis nth_mem)
    then show ?thesis using body assms by (auto simp: barrier_ok_def dest!: subsetD[OF set_update_subset_insert])
  qed (use assms in \<open>auto simp: barrier_ok_def dest!: subsetD[OF set_update_subset_insert]\<close>)
  show "barrier_ok s'" if "spurious_step s s'"
    using that assms by (cases rule: spurious_step.cases) (auto simp: barrier_ok_def dest!: subsetD[OF set_update_subset_insert])
qed

text \<open>The main thread waits only while a thread has its notification ahead.\<close>

lemma all_done_iff: "set xs \<subseteq> {TDone} \<longleftrightarrow> (\<forall>i < length xs. xs ! i = TDone)"
  by (auto simp: subset_iff in_set_conv_nth)

lemma main_main_step:
  assumes "main_step n s s'" "threads_ok n s" "barrier_ok s" "main_ok n s"
  shows "main_ok n s'"
  using assms(1)
proof (cases rule: main_step.cases)
  case lock_wait
  have "started s \<noteq> 0" using lock_wait assms(2) by (auto simp: inv_defs)
  then have "TStart \<in> set (ts_threads s)" unfolding started_def by (meson count_list_0_iff)
  then show ?thesis using lock_wait assms(4) by (auto simp: main_ok_def)
next
  case (join i)
  then show ?thesis using assms(4) by (auto simp: main_ok_def less_Suc_eq)
next
  case joined
  then have "length (ts_threads s) = n" using assms(2) by (simp add: inv_defs)
  then show ?thesis using joined assms(4) by (auto simp: main_ok_def subset_iff in_set_conv_nth)
next
  case post
  then show ?thesis using assms(4) by (auto simp: main_ok_def)
qed (use assms(4) in \<open>auto simp: main_ok_def\<close>)

lemma done_stays: "i < length xs \<Longrightarrow> xs ! i \<noteq> TDone \<Longrightarrow> (\<forall>k < j. xs ! k = TDone) \<Longrightarrow> (\<forall>k < j. xs[i := pc] ! k = TDone)"
  by (metis nth_list_update_neq)

lemma main_ok_cong:
  assumes "main_ok n s" "ts_main s' = ts_main s" "ts_running s' = ts_running s \<or> at_pre (ts_main s) \<and> ts_main s \<noteq> MPre"
    "i < length (ts_threads s)" "ts_threads s ! i \<noteq> TDone" "ts_threads s' = (ts_threads s)[i := pc]"
    "ts_main s \<noteq> MWait \<or> TStart \<in> set (ts_threads s') \<or> TNotify \<in> set (ts_threads s')"
  shows "main_ok n s'"
proof -
  have "ts_main s \<noteq> MPost" "ts_main s \<noteq> MDone" using assms(1,4,5) by (auto simp: main_ok_def all_done_iff)
  then show ?thesis using assms done_stays[OF assms(4,5)] by (auto simp: main_ok_def split: main_pc.splits)
qed

lemma other_stays: "x \<in> set xs \<Longrightarrow> xs ! i \<noteq> x \<Longrightarrow> x \<in> set (xs[i := pc])"
  by (metis in_set_conv_nth length_list_update nth_list_update_neq)

lemma main_thread_step:
  assumes "thread_step i s s'" "threads_ok n s" "main_ok n s"
  shows "main_ok n s'"
  using assms(1)
proof (cases rule: thread_step.cases)
  case count
  have "TStart \<in> set (ts_threads s)" using count by (metis nth_mem)
  moreover have "length (ts_threads s) \<le> n" "ts_running s + started s = length (ts_threads s)"
    using assms(2) by (auto simp: threads_ok_def)
  ultimately have "ts_running s \<noteq> n" using running_all by blast
  then have "at_pre (ts_main s) \<and> ts_main s \<noteq> MPre" using assms(3) by (auto simp: main_ok_def)
  moreover have "TNotify \<in> set ((ts_threads s)[i := TNotify])" using count by (simp add: set_update_memI)
  ultimately show ?thesis using count by (intro main_ok_cong[OF assms(3)]) auto
next
  case notify_main
  show ?thesis
  proof (cases "ts_main s = MWait")
    case False
    then show ?thesis using notify_main by (intro main_ok_cong[OF assms(3)]) auto
  qed (use notify_main in \<open>auto simp: main_ok_def\<close>)
next
  case pass
  then have "TStart \<in> set (ts_threads s) \<longrightarrow> TStart \<in> set (ts_threads s')" "TNotify \<in> set (ts_threads s) \<longrightarrow> TNotify \<in> set (ts_threads s')"
    by (auto intro: other_stays)
  then show ?thesis using pass assms(3) by (intro main_ok_cong[OF assms(3)]) (auto simp: main_ok_def)
next
  case block
  then have "TStart \<in> set (ts_threads s) \<longrightarrow> TStart \<in> set (ts_threads s')" "TNotify \<in> set (ts_threads s) \<longrightarrow> TNotify \<in> set (ts_threads s')"
    by (auto intro: other_stays)
  then show ?thesis using block assms(3) by (intro main_ok_cong[OF assms(3)]) (auto simp: main_ok_def)
next
  case body
  then have "TStart \<in> set (ts_threads s) \<longrightarrow> TStart \<in> set (ts_threads s')" "TNotify \<in> set (ts_threads s) \<longrightarrow> TNotify \<in> set (ts_threads s')"
    by (auto intro: other_stays)
  then show ?thesis using body assms(3) by (intro main_ok_cong[OF assms(3)]) (auto simp: main_ok_def)
qed


lemma main_spurious_step:
  assumes "spurious_step s s'" "main_ok n s"
  shows "main_ok n s'"
  using assms(1)
proof (cases rule: spurious_step.cases)
  case (thread_wakes i)
  then have "TStart \<in> set (ts_threads s) \<longrightarrow> TStart \<in> set (ts_threads s')" "TNotify \<in> set (ts_threads s) \<longrightarrow> TNotify \<in> set (ts_threads s')"
    by (auto intro: other_stays)
  then show ?thesis using thread_wakes assms(2) by (intro main_ok_cong[OF assms(2)]) (auto simp: main_ok_def)
qed (use assms(2) in \<open>auto simp: main_ok_def\<close>)

text \<open>The log: nothing before \<open>pre_test\<close>; then each thread that is done, once; at last \<open>post_test\<close>.\<close>

lemma done_set_pc:
  "i < length (ts_threads s) \<Longrightarrow> ts_threads s ! i \<noteq> TDone \<Longrightarrow>
    done_threads (set_pc i pc s) = (if pc = TDone then insert i (done_threads s) else done_threads s)"
  by (auto simp: done_threads_def nth_list_update)

lemma done_threads_update [simp]:
  "done_threads (s\<lparr>ts_main := m\<rparr>) = done_threads s" "done_threads (s\<lparr>ts_ready := b\<rparr>) = done_threads s"
  "done_threads (s\<lparr>ts_running := k\<rparr>) = done_threads s" "done_threads (s\<lparr>ts_log := l\<rparr>) = done_threads s"
  by (simp_all add: done_threads_def)

lemma log_main_step:
  assumes "main_step n s s'" "log_ok s"
  shows "log_ok s'"
  using assms(1)
proof (cases rule: main_step.cases)
  case (spawn i)
  then show ?thesis using assms(2) by (auto simp: log_ok_def done_threads_def nth_append split: if_splits)
next
  case pre
  then show ?thesis using assms(2) by (auto simp: log_ok_def)
next
  case notify
  have "done_threads s' = done_threads s" unfolding notify(1) by (rule done_wake)
  then show ?thesis using assms(2) notify by (auto simp: log_ok_def)
qed (use assms(2) in \<open>auto simp: log_ok_def\<close>)

lemma log_cong:
  "log_ok s \<Longrightarrow> at_pre (ts_main s') = at_pre (ts_main s) \<Longrightarrow> ts_main s' = MDone \<longleftrightarrow> ts_main s = MDone \<Longrightarrow> ts_log s' = ts_log s \<Longrightarrow>
    done_threads s' = done_threads s \<Longrightarrow> log_ok s'"
  by (simp add: log_ok_def)

lemma log_thread_step:
  assumes "thread_step i s s'" "barrier_ok s" "main_ok n s" "log_ok s"
  shows "log_ok s'"
  using assms(1)
proof (cases rule: thread_step.cases)
  case body
  then have "\<not> at_pre (ts_main s)" using assms(2) by (metis barrier_ok_def nth_mem)
  moreover have "ts_main s \<noteq> MDone" using body assms(3) by (auto simp: main_ok_def all_done_iff)
  moreover have "i \<notin> done_threads s" using body by (simp add: done_threads_def)
  ultimately obtain "is" where l: "ts_log s = PreTest # map ThreadMain is" "distinct is" "set is = done_threads s" "i \<notin> set is"
    using assms(4) by (auto simp: log_ok_def)
  have "ts_log s' = PreTest # map ThreadMain (is @ [i])" "distinct (is @ [i])" "set (is @ [i]) = done_threads s'"
    using body l by (simp_all add: done_set_pc)
  moreover have "\<not> at_pre (ts_main s')" "ts_main s' \<noteq> MDone" using body \<open>\<not> at_pre (ts_main s)\<close> \<open>ts_main s \<noteq> MDone\<close> by simp_all
  ultimately show ?thesis unfolding log_ok_def by (simp only: if_False append_Nil2) blast
qed (rule log_cong[OF assms(4)]; simp add: done_set_pc)+

lemma log_spurious_step: "spurious_step s s' \<Longrightarrow> log_ok s \<Longrightarrow> log_ok s'"
  by (erule spurious_step.cases) (erule log_cong; simp add: done_set_pc)+

lemma reachable_inv: "reachable n s \<Longrightarrow> inv n s"
proof (induction rule: reachable.induct)
  case init
  show ?case by (rule inv_init)
next
  case (main s s')
  then show ?case unfolding inv_def using threads_step(1) barrier_step(1) main_main_step log_main_step by blast
next
  case (thread s i s')
  then show ?case unfolding inv_def using threads_step(2) barrier_step(2) main_thread_step log_thread_step by blast
next
  case (spurious s s')
  then show ?case unfolding inv_def using threads_step(3) barrier_step(3) main_spurious_step log_spurious_step by blast
qed

section \<open>What a round does\<close>

text \<open>At the end \<open>pre_test\<close> came first, then the body of each of the \<open>n\<close> threads once, in some order, and \<open>post_test\<close> last.\<close>

theorem round_log:
  assumes "reachable n s" "ts_main s = MDone"
  shows "\<exists>is. ts_log s = [PreTest] @ map ThreadMain is @ [PostTest] \<and> mset is = mset [0..<n]"
proof -
  have i: "threads_ok n s" "main_ok n s" "log_ok s" using reachable_inv[OF assms(1)] by (auto simp: inv_def)
  then obtain "is" where l: "ts_log s = PreTest # map ThreadMain is @ [PostTest]" "distinct is" "set is = done_threads s"
    using assms(2) by (auto simp: log_ok_def)
  have "length (ts_threads s) = n" "\<forall>i < length (ts_threads s). ts_threads s ! i = TDone"
    using i assms(2) by (auto simp: inv_defs all_done_iff)
  then have "done_threads s = set [0..<n]" by (auto simp: done_threads_def)
  then have "mset is = mset [0..<n]" using l by (metis distinct_upt set_eq_iff_mset_eq_distinct)
  then show ?thesis using l(1) by auto
qed

text \<open>No notification is lost: until the round is over, the main thread or some thread has a step that is not a spurious wakeup.\<close>

theorem round_progress:
  assumes "reachable n s" "ts_main s \<noteq> MDone"
  shows "\<exists>s'. main_step n s s' \<or> (\<exists>i. thread_step i s s')"
proof -
  have i: "threads_ok n s" "barrier_ok s" "main_ok n s" using reachable_inv[OF assms(1)] by (auto simp: inv_def)
  have t: "\<exists>s'. thread_step i s s'" if "i < length (ts_threads s)" "ts_threads s ! i \<notin> {TDone, TWait}" for i
    using that by (cases "ts_threads s ! i"; cases "ts_ready s") (auto intro: thread_step.intros)
  show ?thesis
  proof (cases "ts_main s")
    case (MSpawn j)
    then have "j = n \<or> j < n" using i(1) by (auto simp: inv_defs)
    then show ?thesis using MSpawn by (auto intro: main_step.intros)
  next
    case MWait
    then obtain j where "j < length (ts_threads s)" "ts_threads s ! j = TStart \<or> ts_threads s ! j = TNotify"
      using i(3) by (auto simp: main_ok_def in_set_conv_nth)
    then show ?thesis using t[of j] by fastforce
  next
    case (MJoin j)
    show ?thesis
    proof (cases "j < n \<and> ts_threads s ! j \<noteq> TDone")
      case True
      have "TWait \<notin> set (ts_threads s)" "length (ts_threads s) = n" using MJoin i by (auto simp: barrier_ok_def inv_defs)
      then have "ts_threads s ! j \<notin> {TDone, TWait}" "j < length (ts_threads s)" using True by (metis insert_iff nth_mem singletonD, simp)
      then show ?thesis using t[of j] by blast
    next
      case False
      then have "j = n \<or> j < n \<and> ts_threads s ! j = TDone" using MJoin i(3) by (auto simp: main_ok_def)
      then show ?thesis using MJoin by (auto intro: main_step.intros)
    qed
  next
    case MCheck
    then show ?thesis by (metis main_step.check_all main_step.check_more)
  next
    case MLock
    then show ?thesis by (metis main_step.lock_all main_step.lock_wait)
  qed (use assms(2) in \<open>auto intro: main_step.intros\<close>)
qed

end
