(* ===== verification/GlobalDispatcher.thy ===== *)
theory GlobalDispatcher
  imports Observer
begin

text \<open>
  The global dispatcher of \<^verbatim>\<open>include/txl/observer.h\<close>: the dispatcher of the theory Observer and the observers it keeps alive, shared
  pointers in one set per type of observer. Every operation holds the mutex and is one step. An observer is alive while the program has it
  or the dispatcher holds a pointer to it; to call a dead one is undefined behaviour.
\<close>

section \<open>The operations\<close>

text \<open>\<open>'k\<close> is the type of the types of observers; \<open>owned\<close> is what the rest of the program keeps alive.\<close>

record ('o, 't, 'k) global_dispatcher =
  disp :: "('o, 't) dispatcher"
  observers :: "'k \<rightharpoonup> 'o set"
  owned :: "'o set"

definition gd_new :: "('o, 't, 'k) global_dispatcher" where
  "gd_new = \<lparr>disp = disp_new, observers = Map.empty, owned = {}\<rparr>"

definition gd_connect :: "('o \<Rightarrow> 'k) \<Rightarrow> 'o \<Rightarrow> ('o, 't, 'k) global_dispatcher \<Rightarrow> ('o, 't, 'k) global_dispatcher" where
  "gd_connect type_of ob g =
     g\<lparr>observers := (observers g)(type_of ob \<mapsto> insert ob (case observers g (type_of ob) of None \<Rightarrow> {} | Some s \<Rightarrow> s))\<rparr>"

definition gd_disconnect :: "('o \<Rightarrow> 'k) \<Rightarrow> 'o \<Rightarrow> ('o, 't, 'k) global_dispatcher \<Rightarrow> ('o, 't, 'k) global_dispatcher" where
  "gd_disconnect type_of ob g =
     (case observers g (type_of ob) of
        None \<Rightarrow> g
      | Some s \<Rightarrow> if ob \<in> s then g\<lparr>observers := (observers g)(type_of ob \<mapsto> s - {ob})\<rparr> else g)"

definition alive :: "('o, 't, 'k) global_dispatcher \<Rightarrow> 'o \<Rightarrow> bool" where
  "alive g ob \<longleftrightarrow> ob \<in> owned g \<or> (\<exists>s \<in> ran (observers g). ob \<in> s)"

definition gd_dispatch :: "('o \<Rightarrow> 'm \<Rightarrow> 'w \<Rightarrow> bool \<times> 'w) \<Rightarrow> 't \<Rightarrow> 'm \<Rightarrow> ('o, 't, 'k) global_dispatcher \<Rightarrow> 'w \<Rightarrow>
    (('o, 't, 'k) global_dispatcher \<times> 'w) res" where
  "gd_dispatch h t msg g w =
     (if \<forall>ob \<in> set (at_key (sub_map (disp g)) t). alive g ob
      then let (d, w') = dispatch h t msg (disp g) w in Inr (g\<lparr>disp := d\<rparr>, w') else Inl UB)"

definition gd_lazy_dispatch :: "('o \<Rightarrow> 'm \<Rightarrow> 'w \<Rightarrow> bool \<times> 'w) \<Rightarrow> 't \<Rightarrow> ('w \<Rightarrow> 'm \<times> 'w) \<Rightarrow> ('o, 't, 'k) global_dispatcher \<Rightarrow> 'w \<Rightarrow>
    (('o, 't, 'k) global_dispatcher \<times> 'w) res" where
  "gd_lazy_dispatch h t msg_func g w =
     (if \<forall>ob \<in> set (at_key (sub_map (disp g)) t). alive g ob
      then let (d, w') = lazy_dispatch h t msg_func (disp g) w in Inr (g\<lparr>disp := d\<rparr>, w') else Inl UB)"

definition gd_add :: "'t list \<Rightarrow> 'o \<Rightarrow> ('o, 't, 'k) global_dispatcher \<Rightarrow> ('o, 't, 'k) global_dispatcher" where
  "gd_add ts ob g = g\<lparr>disp := subscribe ts ob (disp g)\<rparr>"

definition gd_remove_all :: "'o \<Rightarrow> ('o, 't, 'k) global_dispatcher \<Rightarrow> ('o, 't, 'k) global_dispatcher" where
  "gd_remove_all ob g = g\<lparr>disp := unsubscribe_all ob (disp g)\<rparr>"

text \<open>The versions for a shared pointer.\<close>

definition gd_add_shared :: "('o \<Rightarrow> 'k) \<Rightarrow> 't list \<Rightarrow> 'o \<Rightarrow> ('o, 't, 'k) global_dispatcher \<Rightarrow> ('o, 't, 'k) global_dispatcher" where
  "gd_add_shared type_of ts ob g = gd_add ts ob (gd_connect type_of ob g)"

definition gd_remove_all_shared :: "('o \<Rightarrow> 'k) \<Rightarrow> 'o \<Rightarrow> ('o, 't, 'k) global_dispatcher \<Rightarrow> ('o, 't, 'k) global_dispatcher" where
  "gd_remove_all_shared type_of ob g = gd_disconnect type_of ob (gd_remove_all ob g)"

section \<open>Programs with shared pointers\<close>

text \<open>A program makes observers, gives them to the dispatcher and drops its own pointers. It can hand over only what it has.\<close>

datatype ('o, 't, 'm) gd_op = Make 'o | Observe "'t list" 'o | UnobserveAll 'o | Drop 'o | Emit 't 'm | Disconnect 'o

fun gd_step :: "('o \<Rightarrow> 'k) \<Rightarrow> ('o \<Rightarrow> 'm \<Rightarrow> 'w \<Rightarrow> bool \<times> 'w) \<Rightarrow> ('o, 't, 'm) gd_op \<Rightarrow> ('o, 't, 'k) global_dispatcher \<Rightarrow> 'w \<Rightarrow>
    (('o, 't, 'k) global_dispatcher \<times> 'w) res" where
  "gd_step type_of h (Make ob) g w = Inr (if alive g ob then g else g\<lparr>owned := insert ob (owned g)\<rparr>, w)"
| "gd_step type_of h (Observe ts ob) g w = Inr (if ob \<in> owned g then gd_add_shared type_of ts ob g else g, w)"
| "gd_step type_of h (UnobserveAll ob) g w = Inr (if ob \<in> owned g then gd_remove_all_shared type_of ob g else g, w)"
| "gd_step type_of h (Drop ob) g w = Inr (g\<lparr>owned := owned g - {ob}\<rparr>, w)"
| "gd_step type_of h (Emit t msg) g w = gd_dispatch h t msg g w"
| "gd_step type_of h (Disconnect ob) g w = Inr (if ob \<in> owned g then gd_disconnect type_of ob g else g, w)"

fun gd_run :: "('o \<Rightarrow> 'k) \<Rightarrow> ('o \<Rightarrow> 'm \<Rightarrow> 'w \<Rightarrow> bool \<times> 'w) \<Rightarrow> ('o, 't, 'm) gd_op list \<Rightarrow> ('o, 't, 'k) global_dispatcher \<Rightarrow> 'w \<Rightarrow>
    (('o, 't, 'k) global_dispatcher \<times> 'w) res" where
  "gd_run type_of h [] g w = Inr (g, w)"
| "gd_run type_of h (x # xs) g w = and_then (gd_step type_of h x g w) (\<lambda>(g', w'). gd_run type_of h xs g' w')"

section \<open>No call of a dead observer\<close>

text \<open>Every callback belongs to a connected observer and to a type that the observer has noted, once.\<close>

definition connected :: "('o \<Rightarrow> 'k) \<Rightarrow> ('o, 't, 'k) global_dispatcher \<Rightarrow> 'o \<Rightarrow> bool" where
  "connected type_of g ob \<longleftrightarrow> (\<exists>s. observers g (type_of ob) = Some s \<and> ob \<in> s)"

definition noted :: "('o, 't) dispatcher \<Rightarrow> bool" where
  "noted d \<longleftrightarrow> (\<forall>t. distinct (at_key (sub_map d) t) \<and> (\<forall>ob \<in> set (at_key (sub_map d) t). t \<in> set (at_key (observer_to_types d) ob))) \<and>
     (\<forall>ob. distinct (at_key (observer_to_types d) ob))"

definition has_callback :: "('o, 't) dispatcher \<Rightarrow> 'o \<Rightarrow> bool" where
  "has_callback d ob \<longleftrightarrow> (\<exists>t. ob \<in> set (at_key (sub_map d) t))"

lemma subscribe_one_noted: "noted d \<Longrightarrow> noted (subscribe_one t ob d)"
  by (auto simp: subscribe_one_def noted_def Let_def)

lemma subscribe_noted: "noted d \<Longrightarrow> noted (subscribe ts ob d)"
  unfolding subscribe_def by (induction ts arbitrary: d) (simp_all add: subscribe_one_noted)

lemma subscribe_callbacks: "has_callback (subscribe ts ob d) ob' \<Longrightarrow> has_callback d ob' \<or> ob' = ob"
  unfolding subscribe_def
proof (induction ts arbitrary: d)
  case (Cons t ts)
  then have "has_callback (subscribe_one t ob d) ob' \<or> ob' = ob" by simp
  then show ?case by (auto simp: subscribe_one_def has_callback_def Let_def split: if_splits)
qed simp

lemma unsubscribe_all_key:
  assumes "noted d"
  shows "at_key (sub_map (unsubscribe_all ob d)) t = remove1 ob (at_key (sub_map d) t)"
proof (cases "observer_to_types d ob")
  case None
  then have "ob \<notin> set (at_key (sub_map d) t)" using assms by (force simp: noted_def at_key_def)
  then show ?thesis using None by (simp add: unsubscribe_all_def remove1_idem)
next
  case (Some types)
  then have k: "at_key (observer_to_types d) ob = types" by (simp add: at_key_def)
  have "distinct types" "t \<notin> set types \<longrightarrow> ob \<notin> set (at_key (sub_map d) t)" using assms k by (auto simp: noted_def)
  then show ?thesis using Some fold_remove_callback[of types ob d t] by (auto simp: unsubscribe_all_def Let_def remove1_idem)
qed

lemma unsubscribe_all_types: "noted d \<Longrightarrow> observer_to_types (unsubscribe_all ob d) = (observer_to_types d)(ob := None)"
proof (cases "observer_to_types d ob")
  case None
  then show ?thesis by (auto simp: unsubscribe_all_def)
next
  case (Some types)
  assume "noted d"
  then have "distinct types" using Some by (metis at_key_def noted_def option.simps(5))
  then show ?thesis using Some fold_remove_callback[of types ob d] by (simp add: unsubscribe_all_def Let_def)
qed

lemma unsubscribe_all_noted:
  assumes "noted d"
  shows "noted (unsubscribe_all ob d)" "has_callback (unsubscribe_all ob d) ob' \<Longrightarrow> has_callback d ob' \<and> ob' \<noteq> ob"
  using assms unfolding noted_def has_callback_def unsubscribe_all_key[OF assms] unsubscribe_all_types[OF assms] by auto

lemma run_callbacks_subset:
  "distinct obs \<Longrightarrow> distinct (fst (run_callbacks h msg obs w)) \<and> set (fst (run_callbacks h msg obs w)) \<subseteq> set obs"
proof (induction obs arbitrary: w)
  case (Cons ob obs)
  then show ?case using Cons.IH[of "snd (h ob msg w)"] by (auto simp: split_beta Let_def)
qed simp

lemma dispatch_noted:
  assumes "noted d"
  shows "noted (fst (dispatch h t msg d w))" "has_callback (fst (dispatch h t msg d w)) ob \<Longrightarrow> has_callback d ob"
proof -
  have "noted (fst (dispatch h t msg d w)) \<and> (has_callback (fst (dispatch h t msg d w)) ob \<longrightarrow> has_callback d ob)"
  proof (cases "sub_map d t")
    case (Some subs)
    then have k: "at_key (sub_map d) t = subs" by (simp add: at_key_def)
    then have "distinct subs" using assms by (auto simp: noted_def)
    from run_callbacks_subset[OF this, of h msg w] k Some assms show ?thesis
      by (auto simp: dispatch_def noted_def has_callback_def split_beta Let_def)
  qed (use assms in \<open>simp add: dispatch_def\<close>)
  then show "noted (fst (dispatch h t msg d w))" "has_callback (fst (dispatch h t msg d w)) ob \<Longrightarrow> has_callback d ob" by auto
qed

definition gd_ok :: "('o \<Rightarrow> 'k) \<Rightarrow> ('o, 't, 'k) global_dispatcher \<Rightarrow> bool" where
  "gd_ok type_of g \<longleftrightarrow> noted (disp g) \<and> (\<forall>ob. has_callback (disp g) ob \<longrightarrow> connected type_of g ob)"

lemma connected_connect: "connected type_of (gd_connect type_of ob g) ob' \<longleftrightarrow> connected type_of g ob' \<or> ob' = ob"
  by (cases "observers g (type_of ob)"; cases "type_of ob' = type_of ob") (auto simp: connected_def gd_connect_def)

lemma connected_disconnect: "connected type_of (gd_disconnect type_of ob g) ob' \<longleftrightarrow> connected type_of g ob' \<and> ob' \<noteq> ob"
  by (cases "observers g (type_of ob)"; cases "type_of ob' = type_of ob") (auto simp: connected_def gd_disconnect_def)

lemma connected_disp [simp]: "connected type_of (g\<lparr>disp := d\<rparr>) ob = connected type_of g ob"
  by (simp add: connected_def)

lemma disp_connect [simp]: "disp (gd_connect type_of ob g) = disp g" "disp (gd_disconnect type_of ob g) = disp g"
  by (simp_all add: gd_connect_def gd_disconnect_def split: option.split)

lemma gd_ok_new: "gd_ok type_of gd_new"
  by (simp add: gd_ok_def gd_new_def noted_def has_callback_def disp_new_def at_key_def)

lemma gd_ok_step:
  assumes "gd_ok type_of g" "\<And>ob. x = Disconnect ob \<Longrightarrow> ob \<notin> owned g \<or> \<not> has_callback (disp g) ob"
  shows "\<exists>g' w'. gd_step type_of h x g w = Inr (g', w') \<and> gd_ok type_of g'"
proof (cases x)
  case (Observe ts ob)
  have "gd_ok type_of (gd_add_shared type_of ts ob g)"
    using assms(1) subscribe_noted[of "disp g" ts ob] subscribe_callbacks[of ts ob "disp g"]
    by (auto simp: gd_ok_def gd_add_shared_def gd_add_def connected_connect)
  then show ?thesis using Observe assms(1) by simp
next
  case (UnobserveAll ob)
  have "noted (disp g)" using assms(1) by (simp add: gd_ok_def)
  note n = unsubscribe_all_noted[OF this, of ob]
  have "gd_ok type_of (gd_remove_all_shared type_of ob g)"
    using assms(1) n by (auto simp: gd_ok_def gd_remove_all_shared_def gd_remove_all_def connected_disconnect)
  then show ?thesis using UnobserveAll assms(1) by simp
next
  case (Emit t msg)
  have n: "noted (disp g)" using assms(1) by (simp add: gd_ok_def)
  have "alive g ob" if "ob \<in> set (at_key (sub_map (disp g)) t)" for ob
    using assms(1) that by (fastforce simp: gd_ok_def has_callback_def connected_def alive_def ran_def)
  then have "gd_step type_of h x g w = Inr (g\<lparr>disp := fst (dispatch h t msg (disp g) w)\<rparr>, snd (dispatch h t msg (disp g) w))"
    using Emit by (simp add: gd_dispatch_def split_beta Let_def)
  moreover have "gd_ok type_of (g\<lparr>disp := fst (dispatch h t msg (disp g) w)\<rparr>)"
    using assms(1) dispatch_noted[OF n, of h t msg w] by (auto simp: gd_ok_def)
  ultimately show ?thesis by blast
next
  case (Disconnect ob)
  then show ?thesis using assms(2)[OF Disconnect] assms(1) by (auto simp: gd_ok_def connected_disconnect)
qed (use assms in \<open>auto simp: gd_ok_def connected_def\<close>)

text \<open>The condition on a program: it disconnects an observer only when the observer has no subscription.\<close>

fun disconnects_ok :: "('o \<Rightarrow> 'k) \<Rightarrow> ('o \<Rightarrow> 'm \<Rightarrow> 'w \<Rightarrow> bool \<times> 'w) \<Rightarrow> ('o, 't, 'm) gd_op list \<Rightarrow> ('o, 't, 'k) global_dispatcher \<Rightarrow> 'w \<Rightarrow> bool" where
  "disconnects_ok type_of h [] g w = True"
| "disconnects_ok type_of h (x # xs) g w =
     ((case x of Disconnect ob \<Rightarrow> ob \<notin> owned g \<or> \<not> has_callback (disp g) ob | _ \<Rightarrow> True) \<and>
      (case gd_step type_of h x g w of Inl e \<Rightarrow> True | Inr (g', w') \<Rightarrow> disconnects_ok type_of h xs g' w'))"

text \<open>C38: A program that observes through shared pointers, and disconnects an observer only when it has no subscription, never makes the
  dispatcher call a dead observer, even after it has dropped its own pointers and whatever the handlers answer.\<close>

theorem global_dispatcher_alive:
  assumes "disconnects_ok type_of h xs gd_new w"
  shows "gd_run type_of h xs gd_new w \<noteq> Inl UB"
proof -
  have "gd_ok type_of g \<Longrightarrow> disconnects_ok type_of h ys g w \<Longrightarrow> \<exists>r. gd_run type_of h ys g w = Inr r" for g ys w
  proof (induction ys arbitrary: g w)
    case (Cons y ys)
    have "ob \<notin> owned g \<or> \<not> has_callback (disp g) ob" if "y = Disconnect ob" for ob using Cons.prems(2) that by simp
    from gd_ok_step[OF Cons.prems(1) this, where h = h and w = w] obtain g' w' where "gd_step type_of h y g w = Inr (g', w')" "gd_ok type_of g'" by blast
    then show ?case using Cons.IH[of g' w'] Cons.prems by simp
  qed simp
  from this[OF gd_ok_new assms] show ?thesis by auto
qed

text \<open>An observer that has been dropped and is still called, and one that has unsubscribed and is disconnected.\<close>

definition shared_program :: "(nat, string, nat) gd_op list" where
  "shared_program = [Make 1, Observe [''a''] 1, Make 2, Observe [''a''] 2, UnobserveAll 2, Disconnect 2, Drop 2, Drop 1, Emit ''a'' 5]"

definition keep_log :: "nat \<Rightarrow> nat \<Rightarrow> (nat \<times> nat) list \<Rightarrow> bool \<times> (nat \<times> nat) list" where
  "keep_log ob msg w = (True, w @ [(ob, msg)])"

lemmas gd_eval = shared_program_def keep_log_def gd_new_def alive_def gd_add_shared_def gd_add_def gd_connect_def gd_disconnect_def gd_dispatch_def
  gd_remove_all_shared_def gd_remove_all_def subscribe_def unsubscribe_all_def remove_callback_def
  subscribe_one_def disp_new_def at_key_def dispatch_def Let_def ran_def has_callback_def

theorem global_dispatcher_alive_witness:
  "gd_run (\<lambda>_. ()) keep_log shared_program gd_new [] \<noteq> Inl UB \<and>
    map_sum id snd (gd_run (\<lambda>_. ()) keep_log shared_program gd_new []) = Inr [(1, 5)]"
proof
  show "gd_run (\<lambda>_. ()) keep_log shared_program gd_new [] \<noteq> Inl UB"
    by (rule global_dispatcher_alive) (simp add: gd_eval)
qed (simp add: gd_eval)

text \<open>An observer that is disconnected while it is subscribed, and then dropped.\<close>

lemma disconnect_leaves_dead:
  "gd_run (\<lambda>_. ()) h [Make (1 :: nat), Observe [''a''] 1, Disconnect 1, Drop 1, Emit ''a'' msg] gd_new w = Inl UB"
  by (simp add: gd_new_def alive_def gd_add_shared_def gd_add_def gd_connect_def gd_disconnect_def gd_dispatch_def subscribe_def
      subscribe_one_def disp_new_def at_key_def Let_def ran_def)

end
