(* ===== verification/UnitTest.thy ===== *)
theory UnitTest
  imports TxlPrelude
begin

text \<open>
  \<^verbatim>\<open>include/txl/unit_test.h\<close>: the assertions a test makes, the printer of values in their messages, and the runner of the tests.
  A test works on its error buffer and on a world of its own and may throw; an exception is known by its classes and its text. What
  is printed to the terminal is the list of reports. Registration by static constructors is the order of the lists.
\<close>

section \<open>Exceptions and assertions\<close>

datatype exn = Exn (exn_classes: "string list") (exn_what: string)

definition assertion_error :: "string \<Rightarrow> exn" where
  "assertion_error msg = Exn [''assertion_error'', ''runtime_error'', ''exception''] msg"

definition catches :: "string \<Rightarrow> exn \<Rightarrow> bool" where "catches c e \<longleftrightarrow> c \<in> set (exn_classes e)"

type_synonym 'w tst = "string \<times> 'w"
type_synonym 'w body = "'w tst \<Rightarrow> exn option \<times> 'w tst"

definition log_error :: "string \<Rightarrow> 'w tst \<Rightarrow> 'w tst" where "log_error msg st = (fst st @ msg, snd st)"

definition fail_with :: "string \<Rightarrow> 'w body" where
  "fail_with msg st = (Some (assertion_error ''assertion failed''), log_error msg st)"

text \<open>The comparisons: the actual value is converted to the type of the expected one (\<open>cast\<close>); \<open>pe\<close> and \<open>pa\<close> print the two.\<close>

definition assert_less_than :: "('a \<Rightarrow> string) \<Rightarrow> ('b \<Rightarrow> string) \<Rightarrow> ('a \<Rightarrow> 'b :: ord) \<Rightarrow> 'a \<Rightarrow> 'b \<Rightarrow> string \<Rightarrow> 'w body" where
  "assert_less_than pa pe cast actual expected msg st =
     (if \<not> cast actual < expected
      then fail_with (msg @ '': '' @ pa actual @ '' (actual) >= '' @ pe expected @ '' (expected)'') st else (None, st))"

definition assert_less_than_equal :: "('a \<Rightarrow> string) \<Rightarrow> ('b \<Rightarrow> string) \<Rightarrow> ('a \<Rightarrow> 'b :: ord) \<Rightarrow> 'a \<Rightarrow> 'b \<Rightarrow> string \<Rightarrow> 'w body" where
  "assert_less_than_equal pa pe cast actual expected msg st =
     (if \<not> cast actual \<le> expected
      then fail_with (msg @ '': '' @ pa actual @ '' (actual) > '' @ pe expected @ '' (expected)'') st else (None, st))"

definition assert_greater_than :: "('a \<Rightarrow> string) \<Rightarrow> ('b \<Rightarrow> string) \<Rightarrow> ('a \<Rightarrow> 'b :: ord) \<Rightarrow> 'a \<Rightarrow> 'b \<Rightarrow> string \<Rightarrow> 'w body" where
  "assert_greater_than pa pe cast actual expected msg st =
     (if \<not> cast actual > expected
      then fail_with (msg @ '': '' @ pa actual @ '' (actual) <= '' @ pe expected @ '' (expected)'') st else (None, st))"

definition assert_greater_than_equal :: "('a \<Rightarrow> string) \<Rightarrow> ('b \<Rightarrow> string) \<Rightarrow> ('a \<Rightarrow> 'b :: ord) \<Rightarrow> 'a \<Rightarrow> 'b \<Rightarrow> string \<Rightarrow> 'w body" where
  "assert_greater_than_equal pa pe cast actual expected msg st =
     (if \<not> cast actual \<ge> expected
      then fail_with (msg @ '': '' @ pa actual @ '' (actual) < '' @ pe expected @ '' (expected)'') st else (None, st))"

definition assert_equal :: "('a \<Rightarrow> string) \<Rightarrow> ('b \<Rightarrow> string) \<Rightarrow> ('b \<Rightarrow> 'a) \<Rightarrow> 'a \<Rightarrow> 'b \<Rightarrow> string \<Rightarrow> 'w body" where
  "assert_equal pe pa cast expected actual msg st =
     (if \<not> expected = cast actual
      then fail_with (msg @ '': '' @ pe expected @ '' (expected) != '' @ pa actual @ '' (actual)'') st else (None, st))"

definition assert_not_equal :: "('a \<Rightarrow> string) \<Rightarrow> ('b \<Rightarrow> string) \<Rightarrow> ('b \<Rightarrow> 'a) \<Rightarrow> 'a \<Rightarrow> 'b \<Rightarrow> string \<Rightarrow> 'w body" where
  "assert_not_equal pe pa cast expected actual msg st =
     (if expected = cast actual
      then fail_with (msg @ '': '' @ pe expected @ '' (expected) == '' @ pa actual @ '' (actual)'') st else (None, st))"

definition print_bool :: "bool \<Rightarrow> string" where "print_bool b = (if b then ''true'' else ''false'')"

definition assert_true :: "bool \<Rightarrow> string \<Rightarrow> 'w body" where "assert_true b msg = assert_equal print_bool print_bool id True b msg"
definition assert_false :: "bool \<Rightarrow> string \<Rightarrow> 'w body" where "assert_false b msg = assert_equal print_bool print_bool id False b msg"

text \<open>The handlers of \<open>assert_throws\<close> stand behind the throw of its own error as well.\<close>

definition assert_throws :: "string \<Rightarrow> 'w body \<Rightarrow> string \<Rightarrow> 'w body" where
  "assert_throws c func msg st =
     (let (thrown, st1) = (case func st of
             (None, st1) \<Rightarrow> fail_with (msg @ '': no exception thrown'') st1
           | (Some e, st1) \<Rightarrow> (Some e, st1))
      in case thrown of
        None \<Rightarrow> (None, st1)
      | Some e \<Rightarrow> if catches c e then (None, st1) else fail_with (msg @ '': different exception thrown'') st1)"

definition assert_no_throw :: "'w body \<Rightarrow> string \<Rightarrow> 'w body" where
  "assert_no_throw func msg st =
     (case func st of (None, st1) \<Rightarrow> (None, st1) | (Some _, st1) \<Rightarrow> fail_with (msg @ '': exception thrown'') st1)"

text \<open>The printers of the containers, over the printer of an element.\<close>

fun print_items :: "('a \<Rightarrow> string) \<Rightarrow> bool \<Rightarrow> 'a list \<Rightarrow> string" where
  "print_items p comma [] = []"
| "print_items p comma (x # xs) = (if comma then '', '' else []) @ p x @ print_items p True xs"

definition print_vector :: "('a \<Rightarrow> string) \<Rightarrow> 'a list \<Rightarrow> string" where "print_vector p xs = ''{'' @ print_items p False xs @ ''}''"

definition print_pair :: "('a \<Rightarrow> string) \<Rightarrow> ('b \<Rightarrow> string) \<Rightarrow> 'a \<times> 'b \<Rightarrow> string" where
  "print_pair p q x = ''{'' @ p (fst x) @ '', '' @ q (snd x) @ ''}''"

text \<open>\<open>num\<close> prints a number.\<close>

definition print_string :: "(nat \<Rightarrow> string) \<Rightarrow> bool \<Rightarrow> string \<Rightarrow> string" where
  "print_string num detail s =
     (if detail then [CHR 0x22] @ s @ [CHR 0x22] @ '' ('' @ num (length s) @ '' bytes)'' else s)"

section \<open>The runner\<close>

record 'w unit_test_data =
  test_name :: string
  test_body :: "'w body"
  num_loops :: nat
  max_time :: "int option"
  error_buf :: string

datatype report = BeginTest string string | Passed | Failed string

definition end_test :: "bool \<Rightarrow> 'w tst \<Rightarrow> 'w tst \<times> report" where
  "end_test success st = (if success then (st, Passed) else ((if fst st \<noteq> [] then ([], snd st) else st), Failed (fst st)))"

definition set_error :: "string \<Rightarrow> 'w tst \<Rightarrow> 'w tst" where "set_error msg st = log_error (''exception thrown: '' @ msg) st"

text \<open>One run of the body, with a limit on its time; \<open>now\<close> reads the clock, \<open>dur\<close> prints a duration.\<close>

definition timed_body :: "('w \<Rightarrow> int \<times> 'w) \<Rightarrow> (int \<Rightarrow> string) \<Rightarrow> int \<Rightarrow> 'w body \<Rightarrow> 'w body" where
  "timed_body now dur limit body st =
     (let (t0, w0) = now (snd st)
      in case body (fst st, w0) of
           (Some e, st1) \<Rightarrow> (Some e, st1)
         | (None, st1) \<Rightarrow>
             (let (t1, w1) = now (snd st1)
              in assert_less_than_equal dur dur id (t1 - t0) limit ''test duration exceeded'' (fst st1, w1)))"

fun run_loops :: "nat \<Rightarrow> 'w body \<Rightarrow> 'w body" where
  "run_loops 0 body st = (None, st)"
| "run_loops (Suc n) body st = (case body st of (Some e, st1) \<Rightarrow> (Some e, st1) | (None, st1) \<Rightarrow> run_loops n body st1)"

definition run_body :: "('w \<Rightarrow> int \<times> 'w) \<Rightarrow> (int \<Rightarrow> string) \<Rightarrow> 'w unit_test_data \<Rightarrow> 'w body" where
  "run_body now dur t = run_loops (num_loops t) (case max_time t of None \<Rightarrow> test_body t | Some m \<Rightarrow> timed_body now dur m (test_body t))"

text \<open>The handlers of the runner: an assertion, another exception of the standard library, anything else.\<close>

definition run_test :: "('w \<Rightarrow> int \<times> 'w) \<Rightarrow> (int \<Rightarrow> string) \<Rightarrow> 'w unit_test_data \<Rightarrow> 'w \<Rightarrow> bool \<times> 'w unit_test_data \<times> 'w \<times> report" where
  "run_test now dur t w =
     (let (success, st) = (case run_body now dur t (error_buf t, w) of
             (None, st) \<Rightarrow> (True, st)
           | (Some e, st) \<Rightarrow>
               (False, if catches ''assertion_error'' e then st
                       else if catches ''exception'' e then set_error (exn_what e) st
                       else set_error ''unknown exception type thrown'' st));
          ((buf, w'), r) = end_test success st
      in (success, t\<lparr>error_buf := buf\<rparr>, w', r))"

fun run_all_tests :: "('w \<Rightarrow> int \<times> 'w) \<Rightarrow> (int \<Rightarrow> string) \<Rightarrow> string \<Rightarrow> 'w unit_test_data list \<Rightarrow> 'w \<Rightarrow>
    bool \<times> 'w unit_test_data list \<times> 'w \<times> report list" where
  "run_all_tests now dur variation [] w = (True, [], w, [])"
| "run_all_tests now dur variation (t # ts) w =
     (let (ok1, t1, w1, r) = run_test now dur t w;
          (ok2, ts2, w2, rs) = run_all_tests now dur variation ts w1
      in (ok1 \<and> ok2, t1 # ts2, w2, BeginTest (test_name t) variation # r # rs))"

text \<open>A variation has a name and a function that sets it up.\<close>

fun run_variations :: "('w \<Rightarrow> int \<times> 'w) \<Rightarrow> (int \<Rightarrow> string) \<Rightarrow> (string \<times> ('w \<Rightarrow> 'w)) list \<Rightarrow> 'w unit_test_data list \<Rightarrow> nat \<Rightarrow> 'w \<Rightarrow>
    nat \<times> report list" where
  "run_variations now dur [] ts exit_code w = (exit_code, [])"
| "run_variations now dur (v # vs) ts exit_code w =
     (let (ok, ts1, w1, rs) = run_all_tests now dur (fst v) ts (snd v w);
          (code, rs') = run_variations now dur vs ts1 (if ok then exit_code else 1) w1
      in (code, rs @ rs'))"

definition run_tests :: "('w \<Rightarrow> int \<times> 'w) \<Rightarrow> (int \<Rightarrow> string) \<Rightarrow> (string \<times> ('w \<Rightarrow> 'w)) list \<Rightarrow> 'w unit_test_data list \<Rightarrow> 'w \<Rightarrow> nat \<times> report list" where
  "run_tests now dur variations tests w =
     (if variations = []
      then let (ok, _, _, rs) = run_all_tests now dur [] tests w in (if ok then 0 else 1, rs)
      else run_variations now dur variations tests 0 w)"

section \<open>What the runner reports\<close>

definition is_failure :: "report \<Rightarrow> bool" where "is_failure r \<longleftrightarrow> (\<exists>msg. r = Failed msg)"

definition begins :: "report list \<Rightarrow> (string \<times> string) list" where
  "begins rs = List.map_filter (\<lambda>r. case r of BeginTest n v \<Rightarrow> Some (n, v) | _ \<Rightarrow> None) rs"

lemma begins_simps [simp]:
  "begins [] = []" "begins (BeginTest n v # rs) = (n, v) # begins rs" "begins (Passed # rs) = begins rs"
  "begins (Failed m # rs) = begins rs" "begins (rs @ rs') = begins rs @ begins rs'"
  by (simp_all add: begins_def List.map_filter_def)

lemma run_test_report:
  assumes "run_test now dur t w = (ok, t', w', r)"
  shows "(ok \<longrightarrow> r = Passed) \<and> (\<not> ok \<longrightarrow> is_failure r) \<and> test_name t' = test_name t"
  using assms by (auto simp: run_test_def end_test_def is_failure_def Let_def split: prod.splits option.splits if_splits)

lemma run_all_tests_report:
  assumes "run_all_tests now dur v ts w = (ok, ts', w', rs)"
  shows "(ok \<longleftrightarrow> \<not> (\<exists>r \<in> set rs. is_failure r)) \<and> begins rs = map (\<lambda>t. (test_name t, v)) ts \<and> map test_name ts' = map test_name ts"
  using assms
proof (induction ts arbitrary: w ok ts' w' rs)
  case (Cons t ts)
  obtain ok1 t1 w1 r where 1: "run_test now dur t w = (ok1, t1, w1, r)" by (metis prod_cases4)
  obtain ok2 ts2 w2 rs2 where 2: "run_all_tests now dur v ts w1 = (ok2, ts2, w2, rs2)" by (metis prod_cases4)
  from run_test_report[OF 1] Cons.IH[OF 2] Cons.prems show ?case
    by (cases r) (auto simp: 1 2 is_failure_def)
qed simp

lemma run_variations_report:
  assumes "run_variations now dur vs ts code0 w = (code, rs)"
  shows "(code = 0 \<longleftrightarrow> code0 = 0 \<and> \<not> (\<exists>r \<in> set rs. is_failure r)) \<and>
    begins rs = concat (map (\<lambda>v. map (\<lambda>n. (n, fst v)) (map test_name ts)) vs)"
  using assms
proof (induction vs arbitrary: ts code0 w rs)
  case (Cons v vs)
  obtain ok ts1 w1 rs1 where 1: "run_all_tests now dur (fst v) ts (snd v w) = (ok, ts1, w1, rs1)" by (metis prod_cases4)
  obtain rs2 where 2: "run_variations now dur vs ts1 (if ok then code0 else 1) w1 = (code, rs2)" "rs = rs1 @ rs2"
    using Cons.prems by (auto simp: 1 split_beta Let_def prod_eq_iff)
  from run_all_tests_report[OF 1] Cons.IH[OF 2(1)] 2(2) show ?case by (auto simp: comp_def)
qed simp

text \<open>The runner starts every test once per variation, in the order of their registration, whatever fails on the way; it exits with 0
  exactly when nothing has failed.\<close>

theorem run_tests_reports:
  assumes "run_tests now dur vs ts w = (code, rs)"
  shows "(code = 0 \<longleftrightarrow> \<not> (\<exists>r \<in> set rs. is_failure r)) \<and>
    begins rs = (if vs = [] then map (\<lambda>t. (test_name t, [])) ts else concat (map (\<lambda>v. map (\<lambda>t. (test_name t, fst v)) ts) vs))"
proof (cases "vs = []")
  case True
  obtain ok ts1 w1 rs1 where "run_all_tests now dur [] ts w = (ok, ts1, w1, rs1)" by (metis prod_cases4)
  with run_all_tests_report[OF this] assms True show ?thesis by (cases ok) (auto simp: run_tests_def)
next
  case False
  then show ?thesis using run_variations_report[of now dur vs ts 0 w code rs] assms by (simp add: run_tests_def comp_def)
qed

section \<open>The assertions\<close>

lemma assertions_throw:
  "fst (assert_equal pe pa cast x y msg st) = None \<longleftrightarrow> x = cast y" "fst (assert_not_equal pe pa cast x y msg st) = None \<longleftrightarrow> x \<noteq> cast y"
  "fst (assert_true b msg st) = None \<longleftrightarrow> b" "fst (assert_false b msg st) = None \<longleftrightarrow> \<not> b"
  by (auto simp: assert_equal_def assert_not_equal_def assert_true_def assert_false_def fail_with_def)

text \<open>\<open>assert_throws\<close> of a class that an assertion error belongs to always passes: it catches its own error.\<close>

lemma assert_throws_catches_itself:
  "c \<in> {''assertion_error'', ''runtime_error'', ''exception''} \<Longrightarrow> fst (func st) = None \<Longrightarrow> fst (assert_throws c func msg st) = None"
  by (auto simp: assert_throws_def fail_with_def catches_def assertion_error_def split_beta split: option.split prod.splits)

text \<open>For any other class it passes exactly when the function throws one of that class.\<close>

lemma assert_throws_iff:
  assumes "c \<notin> {''assertion_error'', ''runtime_error'', ''exception''}"
  shows "fst (assert_throws c func msg st) = None \<longleftrightarrow> (\<exists>e. fst (func st) = Some e \<and> catches c e)"
  using assms by (cases "func st"; cases "fst (func st)") (auto simp: assert_throws_def fail_with_def catches_def assertion_error_def)

text \<open>A test that passes after such an assertion keeps the message, and shows it when it fails in a later variation.\<close>

lemma assert_throws_leaves_message:
  "fst (func st) = None \<Longrightarrow> fst (snd (assert_throws ''runtime_error'' func msg st)) = fst (snd (func st)) @ msg @ '': no exception thrown''"
  by (auto simp: assert_throws_def fail_with_def catches_def assertion_error_def log_error_def split_beta split: option.split prod.splits)

end
