(* ===== verification/RingOpen.thy ===== *)
theory RingOpen
  imports RingFile Files
begin

text \<open>
  Opening and closing of \<^verbatim>\<open>include/txl/ring_buffer_file.h\<close>, over the files and memory maps of the theory Files: the calls behind
  the state of a new ring. \<open>bytes a k\<close> is what the memory at the address \<open>a\<close> holds.
\<close>

section \<open>The members\<close>

record ring_handle =
  rh_storage :: int
  rh_map :: memory_map
  rh_cur :: cursors

definition rh_new :: ring_handle where
  "rh_new = \<lparr>rh_storage = fb_new, rh_map = mm_new, rh_cur = \<lparr>chead = 0, ctail = 0\<rparr>\<rparr>"

datatype open_mode = ReadOnly | ReadWrite

definition no_swap :: int where "no_swap = 16384"

text \<open>The cursors at the start of the file: two numbers of eight bytes, each with its padding of 64.\<close>

definition dec64 :: "8 word list \<Rightarrow> nat" where
  "dec64 bs = dec32 bs + 4294967296 * dec32 (drop 4 bs)"

definition file_cursor :: "8 word list \<Rightarrow> cursors res" where
  "file_cursor m = (if length m < CURSOR_BYTES then Inl UB else Inr \<lparr>chead = dec64 m, ctail = dec64 (drop 72 m)\<rparr>)"

text \<open>What the mapped bytes are to the operations of the theory RingFile.\<close>

definition ring_of :: "8 word list \<Rightarrow> ring_file" where
  "ring_of m = \<lparr>rmem = drop CURSOR_BYTES m, fhead = dec64 m, ftail = dec64 (drop 72 m)\<rparr>"

section \<open>Opening and closing\<close>

definition rh_is_open :: "ring_handle \<Rightarrow> bool" where
  "rh_is_open h \<longleftrightarrow> fb_is_open (rh_storage h) \<or> mm_is_open (rh_map h)"

definition rh_open :: "('k \<Rightarrow> int) \<Rightarrow> 'k sys_open \<Rightarrow> (int \<Rightarrow> nat \<Rightarrow> 'k \<Rightarrow> int \<times> 'k) \<Rightarrow> 'k sys_mmap \<Rightarrow> (nat \<Rightarrow> 'k \<Rightarrow> 8 word list) \<Rightarrow>
    string \<Rightarrow> open_mode \<Rightarrow> nat \<Rightarrow> ring_handle \<Rightarrow> 'k \<Rightarrow> (unit sysres \<times> ring_handle \<times> 'k) res" where
  "rh_open errno opn ftruncate mmap bytes name mode max_size h k =
     (let (str_mode, mm_mode) = (case mode of ReadOnly \<Rightarrow> (''r'', prot_read) | ReadWrite \<Rightarrow> (''w+'', prot_or prot_read prot_write));
          (r1, f, k1) = file_open errno opn name str_mode (rh_storage h) k;
          h1 = h\<lparr>rh_storage := f\<rparr>;
          (r2, k2) = (case r1 of
             Inr _ \<Rightarrow> if mode \<noteq> ReadOnly then file_truncate errno ftruncate f max_size k1 else (r1, k1)
           | Inl _ \<Rightarrow> (r1, k1))
      in case r2 of
           Inl e \<Rightarrow> Inr (Inl e, h1, k2)
         | Inr _ \<Rightarrow>
             (let (r3, m, k3) = mm_open errno mmap max_size mm_mode True no_swap (Some 0) (Some f) None (rh_map h1) k2;
                  h2 = h1\<lparr>rh_map := m\<rparr>
              in case r3 of
                   Inl e \<Rightarrow> Inr (Inl e, h2, k3)
                 | Inr _ \<Rightarrow> and_then (file_cursor (take (map_size m) (bytes (map_addr m) k3)))
                              (\<lambda>c. Inr (Inr (), h2\<lparr>rh_cur := c\<rparr>, k3))))"

definition rh_close :: "('k \<Rightarrow> int) \<Rightarrow> (nat \<Rightarrow> nat \<Rightarrow> 'k \<Rightarrow> int \<times> 'k) \<Rightarrow> 'k sys_close \<Rightarrow> ring_handle \<Rightarrow> 'k \<Rightarrow>
    unit sysres \<times> ring_handle \<times> 'k" where
  "rh_close errno munmap cl h k =
     (let (r1, m, k1) = mm_close errno munmap (rh_map h) k; h1 = h\<lparr>rh_map := m\<rparr>
      in case r1 of
           Inl e \<Rightarrow> (Inl e, h1, k1)
         | Inr _ \<Rightarrow> (let (r2, f, k2) = fb_close errno cl (rh_storage h1) k1 in (r2, h1\<lparr>rh_storage := f\<rparr>, k2)))"

section \<open>A new ring\<close>

lemma dec64_zeros: "8 \<le> n \<Longrightarrow> dec64 (replicate n 0) = 0"
  by (simp add: dec64_def dec32_def)

lemma ring_of_zeros: "CURSOR_BYTES \<le> n \<Longrightarrow> (ring_of (replicate n 0), \<lparr>chead = 0, ctail = 0\<rparr>) = rf_new n"
  by (simp add: ring_of_def rf_new_def dec64_zeros CURSOR_BYTES_def)

text \<open>When the calls succeed and the bytes of the file are fresh, a handle opened for writing has the state of a new ring.\<close>

lemma rh_open_new:
  assumes "opn name (or (or O_RDWR O_CREAT) O_TRUNC) DEFAULT_FILE_PERMS k = (f, k1)" "as_int f \<noteq> - 1"
    "ftruncate f n k1 = (0, k2)" "mmap 0 n (prot_or prot_read prot_write) (or 1 no_swap) f 0 k2 = (a, k3)" "a \<noteq> MAP_FAILED"
    "take n (bytes a k3) = replicate n 0" "CURSOR_BYTES \<le> n"
  shows "\<exists>h. rh_open errno opn ftruncate mmap bytes name ReadWrite n rh_new k = Inr (Inr (), h, k3) \<and>
    rh_storage h = f \<and> rh_map h = \<lparr>map_addr = a, map_size = n\<rparr> \<and> (ring_of (take n (bytes a k3)), rh_cur h) = rf_new n"
proof -
  have c: "file_cursor (take n (bytes a k3)) = Inr \<lparr>chead = 0, ctail = 0\<rparr>"
    using assms(7) unfolding assms(6) by (simp add: file_cursor_def dec64_zeros CURSOR_BYTES_def)
  show ?thesis
    using assms c ring_of_zeros[OF assms(7)]
    by (simp add: rh_open_def rh_new_def file_open_def get_file_mode_def fb_is_open_def fb_new_def handle_system_error_def
        file_truncate_def mm_open_def mm_new_def mm_is_open_def as_int_def Let_def)
qed

text \<open>A handle that opened its file but not the map does not close it: the unmapping that comes first fails.\<close>

lemma rh_close_half_open:
  assumes "munmap (map_addr (rh_map h)) 0 k = (- 1, k1)" "map_size (rh_map h) = 0"
  shows "rh_close errno munmap cl h k = (Inl (errno k1), h, k1)"
  using assms by (simp add: rh_close_def mm_close_def handle_system_error_def as_int_def Let_def)

text \<open>Otherwise both are closed.\<close>

lemma rh_close_both:
  assumes "munmap (map_addr (rh_map h)) (map_size (rh_map h)) k = (0, k1)" "cl (rh_storage h) k1 = (0, k2)"
  shows "\<exists>h'. rh_close errno munmap cl h k = (Inr (), h', k2) \<and> \<not> rh_is_open h'"
  using assms by (simp add: rh_close_def mm_close_def fb_close_def handle_system_error_def as_int_def Let_def rh_is_open_def
      mm_is_open_def mm_new_def fb_is_open_def)


section \<open>Cursors of 64 bits\<close>

text \<open>The comparisons of the cursors, as the code builds them from \<open><\<close>, and their distance.\<close>

definition cursor_less :: "64 word \<Rightarrow> 64 word \<Rightarrow> bool" where "cursor_less a b \<longleftrightarrow> a < b"
definition cursor_eq :: "64 word \<Rightarrow> 64 word \<Rightarrow> bool" where "cursor_eq a b \<longleftrightarrow> \<not> cursor_less a b \<and> \<not> cursor_less b a"
definition cursor_greater :: "64 word \<Rightarrow> 64 word \<Rightarrow> bool" where "cursor_greater a b \<longleftrightarrow> cursor_less b a"
definition cursor_greater_eq :: "64 word \<Rightarrow> 64 word \<Rightarrow> bool" where "cursor_greater_eq a b \<longleftrightarrow> cursor_greater a b \<or> cursor_eq a b"

definition cursor_distance :: "64 word \<Rightarrow> 64 word \<Rightarrow> int" where "cursor_distance a c = sint (c - a)"
definition cursor_inc :: "nat \<Rightarrow> 64 word \<Rightarrow> 64 word" where "cursor_inc n a = a + of_nat n"

lemma cursor_order: "cursor_eq a b \<longleftrightarrow> a = b" "cursor_greater_eq a b \<longleftrightarrow> b \<le> a"
  by (auto simp: cursor_greater_eq_def cursor_greater_def cursor_eq_def cursor_less_def)

text \<open>The distance after a step of less than \<open>2 ^ 63\<close> is the step, also when the cursor wraps round.\<close>

lemma cursor_distance_inc: "n < 2 ^ 63 \<Longrightarrow> cursor_distance a (cursor_inc n a) = int n"
proof -
  assume n: "n < 2 ^ 63"
  have "sint (of_nat n :: 64 word) = signed_take_bit 63 (int n)" by transfer simp
  also have "\<dots> = int n" using n by (simp add: signed_take_bit_int_eq_self)
  finally show ?thesis by (simp add: cursor_distance_def cursor_inc_def)
qed

end
