(* ===== verification/TcpProxy.thy ===== *)
theory TcpProxy
  imports Sockets EventPoller
begin

text \<open>
  The program \<^verbatim>\<open>src/tools/tcp_proxy/tcp_proxy.cpp\<close>: a loop over the events of an epoll descriptor that accepts clients, connects each of them
  to a remote host and passes bytes on. It composes \<open>Sockets\<close> and \<open>EventPoller\<close>; the system calls are the fields of
  \<open>proxy_calls\<close>. An exception of \<open>or_throw\<close> ends the program: it is the \<open>Inl\<close> of the result.
\<close>

section \<open>Clients\<close>

record 'k proxy_calls =
  px_errno :: "'k \<Rightarrow> int"
  px_inet_addr :: "string \<Rightarrow> 32 word"
  px_socket :: "int \<Rightarrow> int \<Rightarrow> int \<Rightarrow> 'k \<Rightarrow> int \<times> 'k"
  px_connect :: "int \<Rightarrow> socket_address \<Rightarrow> 'k \<Rightarrow> int \<times> 'k"
  px_bind :: "int \<Rightarrow> socket_address \<Rightarrow> 'k \<Rightarrow> int \<times> 'k"
  px_listen :: "int \<Rightarrow> int \<Rightarrow> 'k \<Rightarrow> int \<times> 'k"
  px_accept4 :: "int \<Rightarrow> int \<Rightarrow> 'k \<Rightarrow> int \<times> socket_address \<times> 'k"
  px_recv :: "int \<Rightarrow> nat \<Rightarrow> int \<Rightarrow> 'k \<Rightarrow> int \<times> 8 word list \<times> 'k"
  px_send :: "int \<Rightarrow> 8 word list \<Rightarrow> int \<Rightarrow> 'k \<Rightarrow> int \<times> 'k"
  px_fcntl :: "int \<Rightarrow> int \<Rightarrow> int \<Rightarrow> 'k \<Rightarrow> int \<times> 'k"
  px_shutdown :: "int \<Rightarrow> int \<Rightarrow> 'k \<Rightarrow> int \<times> 'k"
  px_close :: "'k sys_close"
  px_epoll_create :: "int \<Rightarrow> 'k \<Rightarrow> int \<times> 'k"
  px_epoll_ctl :: "'k sys_epoll_ctl"
  px_epoll_wait :: "'k sys_epoll_wait"

record proxy_client =
  pc_local :: int
  pc_remote :: int

definition proxy_client_new :: "'k proxy_calls \<Rightarrow> int \<Rightarrow> int \<Rightarrow> 'k \<Rightarrow> proxy_client sysres \<times> 'k" where
  "proxy_client_new nc loc remote k =
     sys_seq (set_nonblocking (px_errno nc) (px_fcntl nc) loc True k) (\<lambda>_ k1.
     sys_seq (set_nonblocking (px_errno nc) (px_fcntl nc) remote True k1) (\<lambda>_ k2.
       (Inr \<lparr>pc_local = loc, pc_remote = remote\<rparr>, k2)))"

text \<open>\<open>close\<close> does not look at the results of its calls.\<close>

definition pc_close :: "'k proxy_calls \<Rightarrow> proxy_client \<Rightarrow> 'k \<Rightarrow> 'k" where
  "pc_close nc c k =
     (let k1 = snd (so_shutdown (px_errno nc) (px_shutdown nc) (pc_remote c) k);
          k2 = snd (snd (fb_close (px_errno nc) (px_close nc) (pc_remote c) k1));
          k3 = snd (so_shutdown (px_errno nc) (px_shutdown nc) (pc_local c) k2)
      in snd (snd (fb_close (px_errno nc) (px_close nc) (pc_local c) k3)))"

text \<open>\<open>local_to_remote\<close> and \<open>remote_to_local\<close>. Of the shared buffer only the bytes that were read are written.\<close>

definition pc_forward :: "'k proxy_calls \<Rightarrow> int \<Rightarrow> int \<Rightarrow> 'k \<Rightarrow> 8 word list sysres \<times> 'k" where
  "pc_forward nc src dst k =
     (case so_read (px_errno nc) (px_recv nc) src (replicate 2048 0) 0 k of
        (Inl e, buf, k1) \<Rightarrow> (Inl e, k1)
      | (Inr bs, buf, k1) \<Rightarrow> so_write (px_errno nc) (px_send nc) dst bs 0 k1)"

section \<open>Events\<close>

type_synonym clients = "int \<rightharpoonup> proxy_client"

definition client_emplace :: "int \<Rightarrow> proxy_client \<Rightarrow> clients \<Rightarrow> clients" where
  "client_emplace f c m = (if m f = None then m(f \<mapsto> c) else m)"

definition drop_client :: "'k proxy_calls \<Rightarrow> int \<Rightarrow> proxy_client \<Rightarrow> clients \<Rightarrow> 'k \<Rightarrow> clients sysres \<times> 'k" where
  "drop_client nc ep c m k =
     (let k1 = snd (ep_remove (px_errno nc) (px_epoll_ctl nc) ep (pc_local c) k);
          k2 = snd (ep_remove (px_errno nc) (px_epoll_ctl nc) ep (pc_remote c) k1)
      in (Inr (m(pc_local c := None, pc_remote c := None)), pc_close nc c k2))"

definition relay :: "'k proxy_calls \<Rightarrow> int \<Rightarrow> proxy_client \<Rightarrow> int \<Rightarrow> int \<Rightarrow> clients \<Rightarrow> 'k \<Rightarrow> clients sysres \<times> 'k" where
  "relay nc ep c src dst m k = (case pc_forward nc src dst k of
       (Inl e, k1) \<Rightarrow> drop_client nc ep c m k1
     | (Inr bs, k1) \<Rightarrow> (Inr m, k1))"

definition client_events :: "32 word" where
  "client_events = ev_or (ev_or ev_in ev_error) ev_hangup"

definition accept_client :: "'k proxy_calls \<Rightarrow> int \<Rightarrow> int \<Rightarrow> string \<Rightarrow> clients \<Rightarrow> 'k \<Rightarrow> clients sysres \<times> 'k" where
  "accept_client nc ep listener host m k =
     sys_seq (case so_accept (px_errno nc) (px_accept4 nc) listener 0 k of (r, a, k1) \<Rightarrow> (r, k1)) (\<lambda>cl k1.
     sys_seq (ep_add_tag (px_errno nc) (px_epoll_ctl nc) ep cl client_events (tag_from_fd cl) k1) (\<lambda>_ k2.
     sys_seq (tcp_new (px_errno nc) (px_socket nc) True k2) (\<lambda>rm k3.
     sys_seq (so_connect (px_errno nc) (px_connect nc) rm (sa_of_ip (px_inet_addr nc) host 8000) k3) (\<lambda>_ k4.
     sys_seq (ep_add_tag (px_errno nc) (px_epoll_ctl nc) ep rm client_events (tag_from_fd rm) k4) (\<lambda>_ k5.
     sys_seq (proxy_client_new nc cl rm k5) (\<lambda>c k6.
       (Inr (client_emplace rm c (client_emplace cl c m)), k6)))))))"

definition proxy_event :: "'k proxy_calls \<Rightarrow> int \<Rightarrow> int \<Rightarrow> string \<Rightarrow> event_data \<Rightarrow> clients \<Rightarrow> 'k \<Rightarrow> clients sysres \<times> 'k" where
  "proxy_event nc ep listener host e m k =
     (if ev_fd e \<noteq> listener
      then (case m (ev_fd e) of
          None \<Rightarrow> (Inr m, k)
        | Some c \<Rightarrow>
            (let is_remote = (ev_fd e = pc_remote c); is_local = (ev_fd e = pc_local c)
             in if is_remote \<and> has_one_of ev_in e then relay nc ep c (pc_remote c) (pc_local c) m k
                else if is_local \<and> has_one_of ev_in e then relay nc ep c (pc_local c) (pc_remote c) m k
                else (Inr m, k)))
      else accept_client nc ep listener host m k)"

fun proxy_events :: "'k proxy_calls \<Rightarrow> int \<Rightarrow> int \<Rightarrow> string \<Rightarrow> event_data list \<Rightarrow> clients \<Rightarrow> 'k \<Rightarrow> clients sysres \<times> 'k" where
  "proxy_events nc ep listener host [] m k = (Inr m, k)"
| "proxy_events nc ep listener host (e # es) m k =
     sys_seq (proxy_event nc ep listener host e m k) (proxy_events nc ep listener host es)"

text \<open>The loop of \<open>main\<close>: an error of \<open>poll\<close> ends it. The array has 32 events.\<close>

partial_function (option) proxy_loop :: "'k proxy_calls \<Rightarrow> int \<Rightarrow> int \<Rightarrow> string \<Rightarrow> event_data list \<Rightarrow> clients \<Rightarrow> 'k \<Rightarrow> (clients sysres \<times> 'k) option" where
  "proxy_loop nc ep listener host evts m k =
     (case ep_poll_view (px_errno nc) (px_epoll_wait nc) ep evts None k of (r, evts', k1) \<Rightarrow>
        let num_evts = (case r of Inl e \<Rightarrow> - 1 | Inr n \<Rightarrow> n) in
        if num_evts = - 1 then Some (Inr m, k1)
        else (case proxy_events nc ep listener host (take (nat num_evts) evts') m k1 of
            (Inl e, k2) \<Rightarrow> Some (Inl e, k2)
          | (Inr m', k2) \<Rightarrow> proxy_loop nc ep listener host evts' m' k2))"

declare proxy_loop.simps [code]

definition proxy_main :: "'k proxy_calls \<Rightarrow> string \<Rightarrow> 'k \<Rightarrow> (clients sysres \<times> 'k) option" where
  "proxy_main nc host k =
     (case
       sys_seq (tcp_new (px_errno nc) (px_socket nc) True k) (\<lambda>listener k1.
       sys_seq (so_bind (px_errno nc) (px_bind nc) listener (sa_of_ip (px_inet_addr nc) ''0.0.0.0'' 8001) k1) (\<lambda>_ k2.
       sys_seq (so_listen (px_errno nc) (px_listen nc) listener 50 k2) (\<lambda>_ k3.
       sys_seq (case ep_open (px_errno nc) (px_epoll_create nc) fb_new k3 of (Inl e, f, k4) \<Rightarrow> (Inl e, k4) | (Inr u, f, k4) \<Rightarrow> (Inr f, k4)) (\<lambda>ep k4.
       sys_seq (ep_add_tag (px_errno nc) (px_epoll_ctl nc) ep listener ev_in (tag_from_fd listener) k4) (\<lambda>_ k5.
         (Inr (listener, ep), k5))))))
      of (Inl e, k1) \<Rightarrow> Some (Inl e, k1)
       | (Inr (listener, ep), k1) \<Rightarrow>
           proxy_loop nc ep listener host (replicate 32 \<lparr>events = 0, edata = 0\<rparr>) Map.empty k1)"

section \<open>What is documented of the calls\<close>

text \<open>\<open>fds k\<close> are the descriptors that are open. A new one was not open before, \<^verbatim>\<open>close\<close> frees its descriptor, and the other calls
  open and close none.\<close>

definition fresh_fd :: "('k \<Rightarrow> int set) \<Rightarrow> int \<times> 'k \<Rightarrow> 'k \<Rightarrow> bool" where
  "fresh_fd fds x k \<longleftrightarrow> (fst x = - 1 \<and> fds (snd x) = fds k) \<or>
     (0 \<le> fst x \<and> fst x < 2 ^ 31 \<and> fst x \<notin> fds k \<and> fds (snd x) = insert (fst x) (fds k))"

definition px_laws :: "('k \<Rightarrow> int set) \<Rightarrow> 'k proxy_calls \<Rightarrow> bool" where
  "px_laws fds nc \<longleftrightarrow>
     (\<forall>a t p k. fresh_fd fds (px_socket nc a t p k) k) \<and>
     (\<forall>f g k. fresh_fd fds (case px_accept4 nc f g k of (r, a, k') \<Rightarrow> (r, k')) k) \<and>
     close_law fds (px_close nc) \<and>
     (\<forall>f a k. fds (snd (px_connect nc f a k)) = fds k) \<and>
     (\<forall>f n g k. fds (snd (snd (px_recv nc f n g k))) = fds k) \<and>
     (\<forall>f bs g k. fds (snd (px_send nc f bs g k)) = fds k) \<and>
     (\<forall>f c v k. fds (snd (px_fcntl nc f c v k)) = fds k) \<and>
     (\<forall>f h k. fds (snd (px_shutdown nc f h k)) = fds k) \<and>
     (\<forall>f x g e k. fds (snd (px_epoll_ctl nc f x g e k)) = fds k)"

lemma px_keeps:
  assumes "px_laws fds nc"
  shows "fds (snd (so_connect err (px_connect nc) f a k)) = fds k"
    "fds (snd (ep_add_tag err (px_epoll_ctl nc) ep f flags tag k)) = fds k"
    "fds (snd (ep_remove err (px_epoll_ctl nc) ep f k)) = fds k"
    "fds (snd (so_shutdown err (px_shutdown nc) f k)) = fds k"
    "fds (snd (snd (so_read err (px_recv nc) f buf flg k))) = fds k"
    "fds (snd (so_write err (px_send nc) f bs flg k)) = fds k"
    "fds (snd (set_nonblocking err (px_fcntl nc) f v k)) = fds k"
    "fds (snd (snd (fb_close err (px_close nc) f k))) = fds k - {f}"
  using assms unfolding px_laws_def close_law_def
  by (simp_all add: so_connect_def ep_add_tag_def ep_remove_def so_shutdown_def so_read_def so_write_def
      set_nonblocking_def fb_close_def Let_def split_beta split: sum.split)

lemma px_keeps_eq:
  assumes "px_laws fds nc"
  shows "so_connect err (px_connect nc) f a k = (r, k') \<Longrightarrow> fds k' = fds k"
    "ep_add_tag err (px_epoll_ctl nc) ep f flags tag k = (r, k') \<Longrightarrow> fds k' = fds k"
    "set_nonblocking err (px_fcntl nc) f v k = (r, k') \<Longrightarrow> fds k' = fds k"
  using px_keeps(1,2,7)[OF assms] by (metis snd_conv)+

lemma px_new_fd:
  assumes "px_laws fds nc"
  shows "tcp_new err (px_socket nc) True k = (Inr f, k') \<Longrightarrow> f \<notin> fds k \<and> fds k' = insert f (fds k)"
    "so_accept err (px_accept4 nc) l g k = (Inr f, a, k') \<Longrightarrow> f \<notin> fds k \<and> fds k' = insert f (fds k)"
proof -
  have s: "fresh_fd fds (px_socket nc 2 1 0 k) k"
    and a: "fresh_fd fds (case px_accept4 nc l g k of (r, a, k') \<Rightarrow> (r, k')) k" using assms by (simp_all add: px_laws_def)
  have m: "as_int (- 1) = - 1" by (simp add: as_int_small)
  show "f \<notin> fds k \<and> fds k' = insert f (fds k)" if "tcp_new err (px_socket nc) True k = (Inr f, k')"
    using that s m
    by (auto simp: tcp_new_def tcp_open_def so_open_def fb_open_def fb_new_def fb_is_open_def fresh_fd_def
        handle_system_error_def split: prod.splits sum.splits if_splits)
  show "f \<notin> fds k \<and> fds k' = insert f (fds k)" if "so_accept err (px_accept4 nc) l g k = (Inr f, a, k')" for a
    using that a m as_int_small
    by (auto simp: so_accept_def fresh_fd_def handle_system_error_def split: prod.splits sum.splits if_splits)
qed

section \<open>The clients own their descriptors\<close>

text \<open>Every client is found under both of its descriptors, which are two, and nothing else is in the map.\<close>

definition clients_ok :: "clients \<Rightarrow> bool" where
  "clients_ok m \<longleftrightarrow> (\<forall>f c. m f = Some c \<longrightarrow> (f = pc_local c \<or> f = pc_remote c) \<and> pc_local c \<noteq> pc_remote c \<and>
     m (pc_local c) = Some c \<and> m (pc_remote c) = Some c)"

text \<open>The descriptors of the process are \<open>base\<close>, those of the program itself, and those of its clients.\<close>

definition proxy_inv :: "int set \<Rightarrow> clients \<Rightarrow> int set \<Rightarrow> bool" where
  "proxy_inv base m S \<longleftrightarrow> clients_ok m \<and> base \<inter> dom m = {} \<and> S = base \<union> dom m"

lemma drop_ok:
  assumes "clients_ok m" "m f = Some c"
  shows "clients_ok (m(pc_local c := None, pc_remote c := None))"
    "dom m = dom (m(pc_local c := None, pc_remote c := None)) \<union> {pc_local c, pc_remote c}"
proof -
  have c: "m (pc_local c) = Some c" "m (pc_remote c) = Some c" using assms unfolding clients_ok_def by blast+
  show "dom m = dom (m(pc_local c := None, pc_remote c := None)) \<union> {pc_local c, pc_remote c}" using c by auto
  show "clients_ok (m(pc_local c := None, pc_remote c := None))"
    unfolding clients_ok_def
  proof (intro allI impI)
    fix g d
    assume "(m(pc_local c := None, pc_remote c := None)) g = Some d"
    then have g: "m g = Some d" "g \<noteq> pc_local c" "g \<noteq> pc_remote c" by (auto split: if_splits)
    then have d: "g = pc_local d \<or> g = pc_remote d" "pc_local d \<noteq> pc_remote d" "m (pc_local d) = Some d" "m (pc_remote d) = Some d"
      using assms(1) unfolding clients_ok_def by blast+
    moreover have "d \<noteq> c" using d(1) g by auto
    ultimately show "(g = pc_local d \<or> g = pc_remote d) \<and> pc_local d \<noteq> pc_remote d \<and>
        (m(pc_local c := None, pc_remote c := None)) (pc_local d) = Some d \<and>
        (m(pc_local c := None, pc_remote c := None)) (pc_remote d) = Some d" using c by auto
  qed
qed

lemma drop_inv:
  assumes "proxy_inv base m S" "m f = Some c"
  shows "proxy_inv base (m(pc_local c := None, pc_remote c := None)) (S - {pc_local c, pc_remote c})"
proof -
  let ?m = "m(pc_local c := None, pc_remote c := None)"
  have m: "clients_ok m" "base \<inter> dom m = {}" "S = base \<union> dom m" using assms(1) by (simp_all add: proxy_inv_def)
  have "pc_local c \<notin> dom ?m" "pc_remote c \<notin> dom ?m" by simp_all
  with drop_ok(2)[OF m(1) assms(2)] have "S - {pc_local c, pc_remote c} = base \<union> dom ?m" "base \<inter> dom ?m = {}" using m(2,3) by blast+
  then show ?thesis using drop_ok(1)[OF m(1) assms(2)] by (simp add: proxy_inv_def)
qed

lemma emplace_ok:
  assumes "clients_ok m" "cl \<notin> dom m" "rm \<notin> dom m" "cl \<noteq> rm"
  defines "c \<equiv> \<lparr>pc_local = cl, pc_remote = rm\<rparr>"
  shows "clients_ok (client_emplace rm c (client_emplace cl c m))"
    "dom (client_emplace rm c (client_emplace cl c m)) = insert rm (insert cl (dom m))"
proof -
  have e: "client_emplace rm c (client_emplace cl c m) = m(cl \<mapsto> c, rm \<mapsto> c)"
    using assms(2-4) by (auto simp: client_emplace_def)
  show "dom (client_emplace rm c (client_emplace cl c m)) = insert rm (insert cl (dom m))" unfolding e by auto
  show "clients_ok (client_emplace rm c (client_emplace cl c m))"
    unfolding e clients_ok_def
  proof (intro allI impI)
    fix g d
    assume g: "(m(cl \<mapsto> c, rm \<mapsto> c)) g = Some d"
    show "(g = pc_local d \<or> g = pc_remote d) \<and> pc_local d \<noteq> pc_remote d \<and>
        (m(cl \<mapsto> c, rm \<mapsto> c)) (pc_local d) = Some d \<and> (m(cl \<mapsto> c, rm \<mapsto> c)) (pc_remote d) = Some d"
    proof (cases "g = cl \<or> g = rm")
      case True
      then have "d = c" using g by (auto split: if_splits)
      then show ?thesis using True assms(4) by (auto simp: c_def)
    next
      case False
      then have "m g = Some d" using g by simp
      then have "(g = pc_local d \<or> g = pc_remote d) \<and> pc_local d \<noteq> pc_remote d \<and> m (pc_local d) = Some d \<and> m (pc_remote d) = Some d"
        using assms(1) unfolding clients_ok_def by blast
      moreover from this have "pc_local d \<in> dom m" "pc_remote d \<in> dom m" by blast+
      ultimately show ?thesis using assms(2,3) by auto
    qed
  qed
qed

lemma pc_close_fds: "px_laws fds nc \<Longrightarrow> fds (pc_close nc c k) = fds k - {pc_local c, pc_remote c}"
  using px_keeps(4,8)[of fds nc] by (auto simp: pc_close_def Let_def)

lemma pc_forward_fds: "px_laws fds nc \<Longrightarrow> fds (snd (pc_forward nc src dst k)) = fds k"
  using px_keeps(5,6)[of fds nc] by (auto simp: pc_forward_def split: prod.split sum.split) (metis snd_conv)+

lemma drop_client_eq:
  assumes "px_laws fds nc"
  shows "fst (drop_client nc ep c m k) = Inr (m(pc_local c := None, pc_remote c := None))"
    "fds (snd (drop_client nc ep c m k)) = fds k - {pc_local c, pc_remote c}"
  by (simp_all add: drop_client_def Let_def pc_close_fds[OF assms] px_keeps(3)[OF assms])

lemma relay_inv:
  assumes "px_laws fds nc" "proxy_inv base m (fds k)" "m f = Some c" "relay nc ep c src dst m k = (Inr m', k')"
  shows "proxy_inv base m' (fds k')"
proof (cases "pc_forward nc src dst k")
  case (Pair r k1)
  then have k1: "fds k1 = fds k" using pc_forward_fds[OF assms(1), of src dst k] by simp
  show ?thesis
  proof (cases r)
    case (Inl e)
    then have "drop_client nc ep c m k1 = (Inr m', k')" using assms(4) Pair by (simp add: relay_def)
    then have "m' = m(pc_local c := None, pc_remote c := None)" "fds k' = fds k1 - {pc_local c, pc_remote c}"
      using drop_client_eq[OF assms(1), of ep c m k1] by (simp_all del: fun_upd_apply)
    then show ?thesis using drop_inv[OF assms(2,3)] k1 by simp
  next
    case (Inr bs)
    then show ?thesis using assms(2,4) Pair k1 by (simp add: relay_def)
  qed
qed

lemma accept_inv:
  assumes "px_laws fds nc" "proxy_inv base m (fds k)" "accept_client nc ep listener host m k = (Inr m', k')"
  shows "proxy_inv base m' (fds k')"
proof -
  obtain cl a k1 k2 rm k3 k4 k5 k6 k7 where
    1: "so_accept (px_errno nc) (px_accept4 nc) listener 0 k = (Inr cl, a, k1)" and
    2: "ep_add_tag (px_errno nc) (px_epoll_ctl nc) ep cl client_events (tag_from_fd cl) k1 = (Inr (), k2)" and
    3: "tcp_new (px_errno nc) (px_socket nc) True k2 = (Inr rm, k3)" and
    4: "so_connect (px_errno nc) (px_connect nc) rm (sa_of_ip (px_inet_addr nc) host 8000) k3 = (Inr (), k4)" and
    5: "ep_add_tag (px_errno nc) (px_epoll_ctl nc) ep rm client_events (tag_from_fd rm) k4 = (Inr (), k5)" and
    6: "set_nonblocking (px_errno nc) (px_fcntl nc) cl True k5 = (Inr (), k6)" and
    7: "set_nonblocking (px_errno nc) (px_fcntl nc) rm True k6 = (Inr (), k7)" and
    m': "m' = client_emplace rm \<lparr>pc_local = cl, pc_remote = rm\<rparr> (client_emplace cl \<lparr>pc_local = cl, pc_remote = rm\<rparr> m)" "k' = k7"
    using assms(3) by (auto simp: accept_client_def proxy_client_new_def sys_seq_Inr split: prod.splits)
  have k1: "cl \<notin> fds k" "fds k1 = insert cl (fds k)" using px_new_fd(2)[OF assms(1) 1] by blast+
  have k2: "fds k2 = insert cl (fds k)" using px_keeps_eq(2)[OF assms(1) 2] k1 by simp
  have k3: "rm \<notin> insert cl (fds k)" "fds k3 = insert rm (insert cl (fds k))" using px_new_fd(1)[OF assms(1) 3] k2 by auto
  have "fds k' = fds k3"
    using px_keeps_eq(1)[OF assms(1) 4] px_keeps_eq(2)[OF assms(1) 5] px_keeps_eq(3)[OF assms(1) 6]
      px_keeps_eq(3)[OF assms(1) 7] m'(2) by simp
  then show ?thesis
    using emplace_ok[of m cl rm] assms(2) k1(1) k3 m'(1) unfolding proxy_inv_def by auto
qed

lemma proxy_event_inv:
  assumes "px_laws fds nc" "proxy_inv base m (fds k)" "proxy_event nc ep listener host e m k = (Inr m', k')"
  shows "proxy_inv base m' (fds k')"
proof (cases "ev_fd e \<noteq> listener")
  case True
  then show ?thesis
    using assms(2,3) relay_inv[OF assms(1,2)]
    by (auto simp: proxy_event_def Let_def simp del: fun_upd_apply split: option.splits if_splits)
next
  case False
  then show ?thesis using assms(3) accept_inv[OF assms(1,2)] by (auto simp: proxy_event_def)
qed

text \<open>C36: Whatever events arrive, in any order and number, the descriptors that are open after them are those of the program and
  those of its clients, each client under both of its own: no descriptor of a client is leaked, and none of the program is closed.\<close>

theorem proxy_owns_descriptors:
  assumes "px_laws fds nc" "proxy_inv base m (fds k)" "proxy_events nc ep listener host es m k = (Inr m', k')"
  shows "proxy_inv base m' (fds k')"
  using assms(2,3)
proof (induction es arbitrary: m k)
  case (Cons e es)
  then obtain m1 k1 where "proxy_event nc ep listener host e m k = (Inr m1, k1)"
    "proxy_events nc ep listener host es m1 k1 = (Inr m', k')" by (auto simp: sys_seq_Inr)
  then show ?case using Cons.IH[of m1 k1] proxy_event_inv[OF assms(1) Cons.prems(1)] by blast
qed simp

text \<open>A kernel that is the list of its open descriptors, on which every read fails.\<close>

definition list_calls :: "int list proxy_calls" where
  "list_calls = \<lparr>px_errno = (\<lambda>k. 104), px_inet_addr = (\<lambda>ip. 0),
     px_socket = (\<lambda>a t p k. if foldr max k 2 < 1000 then (foldr max k 2 + 1, (foldr max k 2 + 1) # k) else (- 1, k)),
     px_connect = (\<lambda>f a k. (0, k)), px_bind = (\<lambda>f a k. (0, k)), px_listen = (\<lambda>f b k. (0, k)),
     px_accept4 = (\<lambda>f g k. if foldr max k 2 < 1000 then (foldr max k 2 + 1, sa_new, (foldr max k 2 + 1) # k) else (- 1, sa_new, k)),
     px_recv = (\<lambda>f n g k. (- 1, [], k)), px_send = (\<lambda>f bs g k. (int (length bs), k)), px_fcntl = (\<lambda>f c v k. (0, k)),
     px_shutdown = (\<lambda>f h k. (0, k)), px_close = list_close, px_epoll_create = (\<lambda>g k. (- 1, k)),
     px_epoll_ctl = (\<lambda>f x g e k. (0, k)), px_epoll_wait = (\<lambda>f n t k. (- 1, [], k))\<rparr>"

lemma list_calls_laws: "px_laws set list_calls"
proof -
  have "fresh_fd set (if foldr max k 2 < 1000 then (foldr max k 2 + 1, (foldr max k 2 + 1) # k) else (- 1, k)) k" for k
    using le_foldr_max(2)[of 2 k] le_foldr_max(1)[of "foldr max k 2 + 1" k 2] by (auto simp: fresh_fd_def)
  then show ?thesis
    using list_laws(2) by (simp add: px_laws_def list_calls_def if_distrib[of "\<lambda>x. case x of (r, a, k') \<Rightarrow> (r, k')"] cong: if_cong)
qed

definition readable :: "int \<Rightarrow> event_data" where "readable f = \<lparr>events = ev_in, edata = tag_from_fd f\<rparr>"

lemma ev_fd_readable: "- (2 ^ 31) \<le> f \<Longrightarrow> f < 2 ^ 31 \<Longrightarrow> ev_fd (readable f) = f"
  by (simp add: ev_fd_def readable_def tag_from_fd_def tag_fd_set)

text \<open>A client is accepted and connected; then its socket is readable, reading it fails, and it is dropped.\<close>

theorem proxy_owns_descriptors_witness:
  "\<exists>m' k'. proxy_events list_calls 4 3 ''h'' [readable 3, readable 5] Map.empty [4, 3] = (Inr m', k') \<and>
     proxy_inv {4, 3} m' (set k') \<and> m' 5 = None"
proof -
  let ?c = "\<lparr>pc_local = 5, pc_remote = 6\<rparr>"
  have 1: "proxy_event list_calls 4 3 ''h'' (readable 3) Map.empty [4, 3] = (Inr [5 \<mapsto> ?c, 6 \<mapsto> ?c], [6, 5, 4, 3])"
    by (simp add: proxy_event_def ev_fd_readable accept_client_def sys_seq_def so_accept_def list_calls_def
        handle_system_error_def as_int_small ep_add_tag_def tcp_new_def tcp_open_def so_open_def fb_open_def fb_new_def
        fb_is_open_def so_connect_def proxy_client_new_def set_nonblocking_def client_emplace_def)
  have h: "has_one_of ev_in (readable 5)" by (simp add: has_one_of_def readable_def ev_and_def ev_in_def)
  have 2: "proxy_event list_calls 4 3 ''h'' (readable 5) [5 \<mapsto> ?c, 6 \<mapsto> ?c] [6, 5, 4, 3] =
      (Inr (Map.empty(5 := None, 6 := None)), [4, 3])"
    by (simp add: proxy_event_def ev_fd_readable h relay_def pc_forward_def so_read_def sliced_def list_calls_def
        handle_system_error_def as_int_small drop_client_def ep_remove_def pc_close_def so_shutdown_def fb_close_def list_close_def)
  let ?m = "Map.empty(5 := None, 6 := None) :: clients"
  have e: "proxy_events list_calls 4 3 ''h'' [readable 3, readable 5] Map.empty [4, 3] = (Inr ?m, [4, 3])"
    by (simp only: proxy_events.simps sys_seq_def 1 2 prod.case sum.case)
  have "proxy_inv {4, 3} Map.empty (set [4, 3])" by (simp add: proxy_inv_def clients_ok_def)
  from proxy_owns_descriptors[OF list_calls_laws this e] e show ?thesis by auto
qed

section \<open>What is passed on\<close>

text \<open>The bytes that are received are the ones that are sent.\<close>

lemma forward_bytes:
  assumes "px_recv nc src 2048 0 k = (int (length bs), bs, k1)" "length bs \<le> 2048"
    "px_send nc dst bs 0 k1 = (int n, k2)" "n \<le> length bs"
  shows "pc_forward nc src dst k = (Inr (take n bs), k2)"
  using so_read_bytes[of "px_recv nc" src "replicate 2048 0" 0 k bs k1] so_write_bytes[of "px_send nc" dst bs 0 k1 n k2] assms
  by (simp add: pc_forward_def)

text \<open>Bytes that a short write does not take are lost (\<open>n < length bs\<close>), and so are those of a write that would block: the client is dropped.\<close>

lemma forward_blocked:
  assumes "px_recv nc src 2048 0 k = (int (length bs), bs, k1)" "length bs \<le> 2048" "px_send nc dst bs 0 k1 = (- 1, k2)"
  shows "relay nc ep c src dst m k = drop_client nc ep c m k2"
  using so_read_bytes[of "px_recv nc" src "replicate 2048 0" 0 k bs k1] assms
  by (simp add: relay_def pc_forward_def so_write_def sliced_def handle_system_error_def as_int_small)

text \<open>The end of a stream is not looked for: a client whose peer has closed its side stays, and its descriptor stays readable.\<close>

lemma eof_keeps_client:
  assumes "px_recv nc src 2048 0 k = (0, [], k1)" "px_send nc dst [] 0 k1 = (0, k2)"
  shows "relay nc ep c src dst m k = (Inr m, k2)"
  using forward_bytes[of nc src k "[]" k1 dst 0 k2] assms by (simp add: relay_def)

text \<open>An event without input on a descriptor of a client (an error or a hangup) changes nothing, nor does one of a client that is gone.\<close>

lemma no_input_ignored:
  assumes "ev_fd e \<noteq> listener" "\<not> has_one_of ev_in e \<or> m (ev_fd e) = None"
  shows "proxy_event nc ep listener host e m k = (Inr m, k)"
  using assms by (auto simp: proxy_event_def split: option.split)

end
