(* ===== verification/McEcho.thy ===== *)
theory McEcho
  imports Sockets EventPoller OptionParser
begin

text \<open>
  The program \<^verbatim>\<open>src/tools/mc_echo/mc_echo.cpp\<close>: it joins a multicast group, sends a payload to it on a timer and prints what it
  receives. It composes \<open>OptionParser\<close>, \<open>Sockets\<close> and \<open>EventPoller\<close>; the system calls and the clock are the fields of
  \<open>echo_calls\<close>, and what has been printed is a part of the state. An exception of \<open>or_throw\<close> ends the program: it
  is the \<open>Inl\<close> of the result.
\<close>

section \<open>The command line\<close>

text \<open>The variables are at the addresses 0 to 3: the group, the port, the payload and the delay. The port is not initialized
  (\<open>mem\<close>), the delay is 1000 before the flags are added.\<close>

definition mc_options :: "32 word \<Rightarrow> optparser" where
  "mc_options mem =
     (let p0 = \<lparr>opts = [], store = (\<lambda>_. VStr [])(1 := VInt mem, 3 := VInt 1000), unknown = []\<rparr>;
          p1 = snd (add_flag (CHR ''a'') StrValue 0 p0);
          p2 = snd (add_flag (CHR ''p'') Int32Value 1 p1);
          p3 = snd (add_flag (CHR ''s'') StrValue 2 p2)
      in snd (add_flag (CHR ''d'') Int32Value 3 p3))"

text \<open>The default of the delay is lost: adding its flag sets it to zero.\<close>

lemma mc_delay_default_lost: "store (mc_options mem) 3 = VInt 0" "store (mc_options mem) 1 = VInt 0"
  by (simp_all add: mc_options_def add_flag_def Let_def split_beta)

record mc_args =
  mc_addr :: string
  mc_port :: "32 word"
  mc_payload :: string
  mc_delay :: "32 word"

fun str_of :: "val \<Rightarrow> string" where "str_of (VStr s) = s" | "str_of _ = []"
fun int_of_val :: "val \<Rightarrow> 32 word" where "int_of_val (VInt w) = w" | "int_of_val _ = 0"

definition mc_args_of :: "optparser \<Rightarrow> mc_args" where
  "mc_args_of p = \<lparr>mc_addr = str_of (store p 0), mc_port = int_of_val (store p 1), mc_payload = str_of (store p 2),
     mc_delay = int_of_val (store p 3)\<rparr>"

section \<open>The program\<close>

record 'k echo_calls =
  mx_errno :: "'k \<Rightarrow> int"
  mx_inet_addr :: "string \<Rightarrow> 32 word"
  mx_now :: "'k \<Rightarrow> int"
  mx_epoll_create :: "int \<Rightarrow> 'k \<Rightarrow> int \<times> 'k"
  mx_epoll_ctl :: "'k sys_epoll_ctl"
  mx_epoll_wait :: "'k sys_epoll_wait"
  mx_timer_create :: "int \<Rightarrow> int \<Rightarrow> 'k \<Rightarrow> int \<times> 'k"
  mx_settime :: "int \<Rightarrow> int \<Rightarrow> timespec \<times> timespec \<Rightarrow> 'k \<Rightarrow> int \<times> 'k"
  mx_timer_read :: "int \<Rightarrow> nat \<Rightarrow> 'k \<Rightarrow> int \<times> nat \<times> 'k"
  mx_socket :: "int \<Rightarrow> int \<Rightarrow> int \<Rightarrow> 'k \<Rightarrow> int \<times> 'k"
  mx_setsockopt_int :: "int \<Rightarrow> int \<Rightarrow> int \<Rightarrow> int \<Rightarrow> 'k \<Rightarrow> int \<times> 'k"
  mx_setsockopt_mreq :: "int \<Rightarrow> int \<Rightarrow> int \<Rightarrow> 32 word \<times> 32 word \<Rightarrow> 'k \<Rightarrow> int \<times> 'k"
  mx_bind :: "int \<Rightarrow> socket_address \<Rightarrow> 'k \<Rightarrow> int \<times> 'k"
  mx_sendto :: "int \<Rightarrow> 8 word list \<Rightarrow> int \<Rightarrow> socket_address \<Rightarrow> 'k \<Rightarrow> int \<times> 'k"
  mx_recvfrom :: "int \<Rightarrow> nat \<Rightarrow> int \<Rightarrow> 'k \<Rightarrow> int \<times> 8 word list \<times> socket_address \<times> 'k"

text \<open>What is printed of a datagram; \<open>dec\<close> prints a number.\<close>

definition show_byte :: "8 word \<Rightarrow> char" where
  "show_byte c = (if unat c < 32 \<or> unat c > 127 then CHR ''.'' else char_of (unat c))"

definition show_recv :: "(int \<Rightarrow> string) \<Rightarrow> 8 word list \<Rightarrow> string" where
  "show_recv dec r = (if length r \<noteq> 0 then ''RECV ('' @ dec (int (length r)) @ '' bytes): '' @ map show_byte r @ [CHR 0x0A] else [])"

definition payload_bytes :: "string \<Rightarrow> 8 word list" where
  "payload_bytes s = map (\<lambda>c. of_nat (of_char c)) s"

text \<open>\<open>static_cast<uint16_t>(port)\<close>.\<close>

definition mc_dest :: "'k echo_calls \<Rightarrow> mc_args \<Rightarrow> socket_address" where
  "mc_dest mx a = sa_of_ip (mx_inet_addr mx) (mc_addr a) (ucast (mc_port a))"

text \<open>One event; the state is the output and the kernel.\<close>

definition mc_event :: "'k echo_calls \<Rightarrow> (int \<Rightarrow> string) \<Rightarrow> mc_args \<Rightarrow> int \<Rightarrow> int \<Rightarrow> event_data \<Rightarrow> string \<Rightarrow> 'k \<Rightarrow> string sysres \<times> 'k" where
  "mc_event mx dec a timer sock e out k =
     (if ev_fd e = timer
      then sys_seq (et_read (mx_errno mx) (mx_timer_read mx) timer k) (\<lambda>_ k1.
        if mc_payload a \<noteq> []
        then sys_seq (so_send_to (mx_errno mx) (mx_sendto mx) sock (payload_bytes (mc_payload a)) (mc_dest mx a) 0 k1) (\<lambda>_ k2. (Inr out, k2))
        else (Inr out, k1))
      else if ev_fd e = sock
      then sys_seq (case so_recv_from (mx_errno mx) (mx_recvfrom mx) sock (replicate 2000 0) 0 k of (r, buf, src, k1) \<Rightarrow> (r, k1))
        (\<lambda>r k1. (Inr (out @ show_recv dec r), k1))
      else (Inr out, k))"

fun mc_events :: "'k echo_calls \<Rightarrow> (int \<Rightarrow> string) \<Rightarrow> mc_args \<Rightarrow> int \<Rightarrow> int \<Rightarrow> event_data list \<Rightarrow> string \<Rightarrow> 'k \<Rightarrow> string sysres \<times> 'k" where
  "mc_events mx dec a timer sock [] out k = (Inr out, k)"
| "mc_events mx dec a timer sock (e # es) out k = sys_seq (mc_event mx dec a timer sock e out k) (mc_events mx dec a timer sock es)"

text \<open>The loop ends with an exception only; the array has 10 events.\<close>

partial_function (option) mc_loop :: "'k echo_calls \<Rightarrow> (int \<Rightarrow> string) \<Rightarrow> mc_args \<Rightarrow> int \<Rightarrow> int \<Rightarrow> int \<Rightarrow> event_data list \<Rightarrow> string \<Rightarrow> 'k \<Rightarrow> (int \<times> 'k) option" where
  "mc_loop mx dec a ep timer sock evts out k =
     (case ep_poll_view (mx_errno mx) (mx_epoll_wait mx) ep evts None k of
        (Inl e, evts', k1) \<Rightarrow> Some (e, k1)
      | (Inr n, evts', k1) \<Rightarrow>
          (case mc_events mx dec a timer sock (take (nat n) evts') out k1 of
             (Inl e, k2) \<Rightarrow> Some (e, k2)
           | (Inr out', k2) \<Rightarrow> mc_loop mx dec a ep timer sock evts' out' k2))"

declare mc_loop.simps [code]

text \<open>The timer is opened when there is a payload: the first time is \<open>send_delay\<close> milliseconds from now.\<close>

definition mc_timer :: "'k echo_calls \<Rightarrow> mc_args \<Rightarrow> int \<Rightarrow> 'k \<Rightarrow> int sysres \<times> 'k" where
  "mc_timer mx a ep k =
     (if mc_payload a = [] then (Inr fb_new, k)
      else sys_seq (et_new (mx_errno mx) (mx_timer_create mx) timer_steady_clock k) (\<lambda>timer k1.
        let delay = sint (mc_delay a) * 1000000 in
        sys_seq (et_set_time (mx_errno mx) (mx_settime mx) timer (mx_now mx k1 + delay) delay k1) (\<lambda>_ k2.
        sys_seq (ep_add (mx_errno mx) (mx_epoll_ctl mx) ep timer ev_in k2) (\<lambda>_ k3. (Inr timer, k3)))))"

definition mc_socket :: "'k echo_calls \<Rightarrow> mc_args \<Rightarrow> int \<Rightarrow> 'k \<Rightarrow> int sysres \<times> 'k" where
  "mc_socket mx a ep k =
     sys_seq (case multicast_open (mx_errno mx) (mx_socket mx) fb_new k of (Inl e, f, k1) \<Rightarrow> (Inl e, k1) | (Inr u, f, k1) \<Rightarrow> (Inr f, k1)) (\<lambda>sock k1.
     sys_seq (set_option (mx_errno mx) (mx_setsockopt_int mx) sock so_reuse_port 1 k1) (\<lambda>_ k2.
     sys_seq (set_option (mx_errno mx) (mx_setsockopt_int mx) sock so_reuse_address 1 k2) (\<lambda>_ k3.
     sys_seq (join_multicast (mx_errno mx) (mx_setsockopt_mreq mx) sock (sa_of_ip (mx_inet_addr mx) (mc_addr a) 0) k3) (\<lambda>_ k4.
     sys_seq (so_bind (mx_errno mx) (mx_bind mx) sock (sa_of_port (ucast (mc_port a))) k4) (\<lambda>_ k5.
     sys_seq (ep_add (mx_errno mx) (mx_epoll_ctl mx) ep sock ev_in k5) (\<lambda>_ k6. (Inr sock, k6)))))))"

definition mc_greeting :: "(int \<Rightarrow> string) \<Rightarrow> mc_args \<Rightarrow> string" where
  "mc_greeting dec a =
     (if mc_payload a = [] then []
      else ''Sending '' @ [CHR 0x22] @ mc_payload a @ [CHR 0x22] @ '' every '' @ dec (sint (mc_delay a)) @ ''ms to '' @ mc_addr a @
        '':'' @ dec (sint (mc_port a)) @ [CHR 0x0A])"

definition mc_main :: "'k echo_calls \<Rightarrow> (int \<Rightarrow> string) \<Rightarrow> mc_args \<Rightarrow> (nat \<Rightarrow> event_data) \<Rightarrow> 'k \<Rightarrow> (int \<times> 'k) option" where
  "mc_main mx dec a mem k =
     (case
       sys_seq (case ep_open (mx_errno mx) (mx_epoll_create mx) fb_new k of (Inl e, f, k1) \<Rightarrow> (Inl e, k1) | (Inr u, f, k1) \<Rightarrow> (Inr f, k1)) (\<lambda>ep k1.
       sys_seq (mc_timer mx a ep k1) (\<lambda>timer k2.
       sys_seq (mc_socket mx a ep k2) (\<lambda>sock k3. (Inr (ep, timer, sock), k3))))
      of (Inl e, k1) \<Rightarrow> Some (e, k1)
       | (Inr (ep, timer, sock), k1) \<Rightarrow> mc_loop mx dec a ep timer sock (ea_new 10 mem) (mc_greeting dec a) k1)"

section \<open>What it prints and sends\<close>

text \<open>What the program is asked for: a datagram is shown, and an expiration of the timer sends the payload.\<close>

lemma mc_event_datagram:
  assumes "ev_fd e = sock" "sock \<noteq> timer" "length d \<le> 2000" "mx_recvfrom mx sock 2000 0 k = (int (length d), d, src, k1)"
  shows "mc_event mx dec a timer sock e out k = (Inr (out @ show_recv dec d), k1)"
  using assms by (simp add: mc_event_def so_recv_from_def sliced_def handle_system_error_def as_int_small sys_seq_def)

lemma mc_event_expired:
  assumes "ev_fd e = timer" "mc_payload a \<noteq> []" "mx_timer_read mx timer 8 k = (8, n, k1)"
    "mx_sendto mx sock (payload_bytes (mc_payload a)) 0 (mc_dest mx a) k1 = (int m, k2)" "m < 2 ^ 31"
  shows "mc_event mx dec a timer sock e out k = (Inr out, k2)"
  using assms by (simp add: mc_event_def et_read_def so_send_to_def sliced_def handle_system_error_def as_int_small sys_seq_def)

text \<open>A printed line has a character for each byte, and only the codes 32 to 127 as they are: 127 is not a printable one.\<close>

lemma show_recv_length: "r \<noteq> [] \<Longrightarrow> length (show_recv dec r) = 16 + length (dec (int (length r))) + length r"
  by (simp add: show_recv_def)

lemma show_byte_cases:
  "show_byte c = CHR ''.'' \<or> (32 \<le> (of_char (show_byte c) :: nat) \<and> (of_char (show_byte c) :: nat) \<le> 127)"
proof -
  have "unat c < 256" using unsigned_less[of c, where ?'a = nat] by simp
  then show ?thesis by (auto simp: show_byte_def)
qed

lemma show_byte_del: "show_byte 127 = CHR 0x7F"
  by code_simp

text \<open>Without \<open>-d\<close> the timer is set to go off once, at the time it is set, and never again.\<close>

lemma mc_without_delay:
  assumes "3 < h"
  shows "\<exists>p. parse_or_exit atoi h [exe, ''-a'', addr, ''-p'', port, ''-s'', payload] (mc_options mem) = Inr (ParsedAll p) \<and>
    mc_args_of p = \<lparr>mc_addr = addr, mc_port = atoi port, mc_payload = payload, mc_delay = 0\<rparr>"
  using assms
  by (simp add: parse_or_exit_def parse_argv_def mc_options_def mc_args_of_def add_flag_def Let_def is_option_def process_option_def
      is_flag_def)

lemma mc_timer_without_delay:
  assumes "mc_payload a \<noteq> []" "mc_delay a = 0" "et_new (mx_errno mx) (mx_timer_create mx) timer_steady_clock k = (Inr timer, k1)"
  shows "mc_timer mx a ep k =
    sys_seq (et_set_time (mx_errno mx) (mx_settime mx) timer (mx_now mx k1) 0 k1) (\<lambda>_ k2.
    sys_seq (ep_add (mx_errno mx) (mx_epoll_ctl mx) ep timer ev_in k2) (\<lambda>_ k3. (Inr timer, k3)))"
  using assms by (simp add: mc_timer_def sys_seq_def)

text \<open>Datagrams that fit into the buffer are printed one after the other, in the order in which they arrived.\<close>

lemma mc_prints_in_order:
  assumes "sock \<noteq> timer" "\<forall>e \<in> set es. ev_fd e = sock" "length es \<le> length (queue k)" "\<forall>d \<in> set (queue k). length d \<le> 2000"
    "\<And>k d ds. queue k = d # ds \<Longrightarrow> \<exists>src k1. mx_recvfrom mx sock 2000 0 k = (int (length d), d, src, k1) \<and> queue k1 = ds"
  shows "\<exists>k'. mc_events mx dec a timer sock es out k =
      (Inr (out @ concat (map (show_recv dec) (take (length es) (queue k)))), k') \<and> queue k' = drop (length es) (queue k)"
  using assms(2-4)
proof (induction es arbitrary: out k)
  case (Cons e es)
  then obtain d ds where q: "queue k = d # ds" by (cases "queue k") auto
  from assms(5)[OF q] obtain src k1 where
    r: "mx_recvfrom mx sock 2000 0 k = (int (length d), d, src, k1)" "queue k1 = ds" by blast
  have "mc_event mx dec a timer sock e out k = (Inr (out @ show_recv dec d), k1)"
    by (rule mc_event_datagram[where src = src]) (use Cons.prems assms(1) q r in auto)
  then show ?case using Cons.IH[of k1 "out @ show_recv dec d"] Cons.prems q r by (auto simp: sys_seq_def)
qed simp

end
