(* ===== verification/Refs.thy ===== *)
theory Refs
  imports TxlPrelude
begin

text \<open>
  Small headers: references (\<^verbatim>\<open>include/txl/ref.h\<close>, \<open>optional_ref\<close> of \<^verbatim>\<open>optional.h\<close>) over a store of objects, the exception of a result
  (\<^verbatim>\<open>result_error.h\<close>), \<^verbatim>\<open>is_one_of.h\<close>, and the directory of the running program (\<^verbatim>\<open>app.h\<close>).
\<close>

section \<open>References\<close>

text \<open>An object lives at an address of the store or does not; an access to one that does not live is undefined.\<close>

type_synonym 'v store = "nat \<Rightarrow> 'v option"

definition store_get :: "'v store \<Rightarrow> nat \<Rightarrow> 'v res" where
  "store_get s a = (case s a of None \<Rightarrow> Inl UB | Some v \<Rightarrow> Inr v)"

definition store_put :: "'v store \<Rightarrow> nat \<Rightarrow> 'v \<Rightarrow> 'v store res" where
  "store_put s a v = (case s a of None \<Rightarrow> Inl UB | Some _ \<Rightarrow> Inr (s(a \<mapsto> v)))"

text \<open>\<open>ref\<close> of a variable, a constant or a temporary: its address.\<close>

definition ref_new :: "nat \<Rightarrow> nat" where "ref_new a = a"
definition ref_get :: "nat \<Rightarrow> 'v store \<Rightarrow> 'v res" where "ref_get r s = store_get s r"
definition ref_put :: "nat \<Rightarrow> 'v \<Rightarrow> 'v store \<Rightarrow> 'v store res" where "ref_put r v s = store_put s r v"
definition ref_arrow :: "nat \<Rightarrow> nat" where "ref_arrow r = r"
definition make_ref :: "nat \<Rightarrow> nat" where "make_ref a = ref_new a"

text \<open>An \<open>optional_ref\<close> to the value of a \<^verbatim>\<open>std::optional\<close>: the address of the value, or null. \<open>at\<close> is where the optional keeps its value.\<close>

definition oref_new :: "nat \<Rightarrow> bool \<Rightarrow> nat option" where "oref_new at has_value = (if has_value then Some at else None)"
definition oref_arrow :: "nat option \<Rightarrow> nat option" where "oref_arrow r = r"
definition oref_get :: "nat option \<Rightarrow> 'v store \<Rightarrow> 'v res" where
  "oref_get r s = (case r of None \<Rightarrow> Inl UB | Some a \<Rightarrow> store_get s a)"
definition oref_put :: "nat option \<Rightarrow> 'v \<Rightarrow> 'v store \<Rightarrow> 'v store res" where
  "oref_put r v s = (case r of None \<Rightarrow> Inl UB | Some a \<Rightarrow> store_put s a v)"

text \<open>What is written through one reference is read through every other one to the same object, and no other object changes. A
  reference to a temporary is dead once the temporary is.\<close>

lemma ref_put_get:
  assumes "ref_put (ref_new a) v s = Inr s'"
  shows "ref_get (make_ref b) s' = (if a = b then Inr v else ref_get (make_ref b) s)"
  using assms by (auto simp: ref_put_def ref_get_def ref_new_def make_ref_def store_put_def store_get_def split: option.splits if_splits)

lemma ref_defined: "ref_get (ref_new a) s = Inl UB \<longleftrightarrow> s a = None" "ref_put (ref_new a) v s = Inl UB \<longleftrightarrow> s a = None"
  by (simp_all add: ref_get_def ref_put_def ref_new_def store_get_def store_put_def split: option.split)

lemma oref_is_ref:
  "oref_get (oref_new a True) s = ref_get (ref_new a) s" "oref_put (oref_new a True) v s = ref_put (ref_new a) v s"
  "oref_get (oref_new a False) s = Inl UB"
  by (simp_all add: oref_get_def oref_put_def oref_new_def ref_get_def ref_put_def ref_new_def)

section \<open>The exception of a result\<close>

record 'e result_error =
  re_what :: string
  re_error :: 'e

definition re_new_msg :: "string \<Rightarrow> 'e \<Rightarrow> 'e result_error" where
  "re_new_msg msg err = \<lparr>re_what = msg, re_error = err\<rparr>"

definition re_new :: "'e \<Rightarrow> 'e result_error" where
  "re_new err = re_new_msg ''result yielded an error'' err"

section \<open>\<open>is_one_of\<close>\<close>

definition is_one_of :: "'a \<Rightarrow> 'a list \<Rightarrow> bool" where
  "is_one_of v vs \<longleftrightarrow> foldr (\<lambda>x b. v = x \<or> b) vs False"

lemma is_one_of_iff: "is_one_of v vs \<longleftrightarrow> v \<in> set vs"
  by (induction vs) (auto simp: is_one_of_def)

section \<open>The directory of the program\<close>

text \<open>\<open>parent_path\<close>: what is before the last separators, the root directory when nothing is, and the empty path when there is no
  separator; the link of the kernel is the argument.\<close>

definition parent_path :: "string \<Rightarrow> string" where
  "parent_path p = (let d = rev (dropWhile (\<lambda>c. c = CHR ''/'') (dropWhile (\<lambda>c. c \<noteq> CHR ''/'') (rev p)))
     in if d \<noteq> [] then d else if CHR ''/'' \<in> set p then ''/'' else [])"

definition get_application_path :: "(string \<Rightarrow> string) \<Rightarrow> string" where
  "get_application_path read_symlink = parent_path (read_symlink ''/proc/self/exe'')"

lemma dropWhile_rev_file: "CHR ''/'' \<notin> set f \<Longrightarrow> dropWhile (\<lambda>c. c \<noteq> CHR ''/'') (rev f @ CHR ''/'' # xs) = CHR ''/'' # xs"
  by (induction f arbitrary: xs rule: rev_induct) auto

lemma application_path:
  assumes "read_symlink ''/proc/self/exe'' = d @ ''/'' @ f" "CHR ''/'' \<notin> set f" "d \<noteq> []" "last d \<noteq> CHR ''/''"
  shows "get_application_path read_symlink = d"
proof -
  obtain d' c where d: "d = d' @ [c]" "c \<noteq> CHR ''/''" using assms(3,4) by (metis append_butlast_last_id)
  show ?thesis using assms(1,2) d by (simp add: get_application_path_def parent_path_def dropWhile_rev_file)
qed

end
