(* ===== verification/FixedIter.thy ===== *)
theory FixedIter
  imports FixedVector Iterators
begin

text \<open>
  The iterators of \<open>fixed_vector\<close> (\<^verbatim>\<open>include/txl/fixed_vector.h\<close>, \<open>basic_iterator\<close> of \<^verbatim>\<open>iterators.h\<close>), forwards and backwards, with the loops that
  walk over a vector, and what is left of \<^verbatim>\<open>iterators.h\<close>: the postfix operators of the circular iterator and the factories.
\<close>

section \<open>Positions\<close>

definition fv_pointer :: "'v fvec \<Rightarrow> nat res" where "fv_pointer v = fv_slot v 0"
definition fv_begin :: "'v fvec \<Rightarrow> nat res" where "fv_begin v = fv_slot v 0"
definition fv_end :: "'v fvec \<Rightarrow> nat res" where "fv_end v = fv_slot v (fv_count v)"
definition fv_rbegin :: "'v fvec \<Rightarrow> nat res" where "fv_rbegin v = fv_end v"
definition fv_rend :: "'v fvec \<Rightarrow> nat res" where "fv_rend v = fv_begin v"

definition bi_eq :: "nat \<Rightarrow> nat \<Rightarrow> bool" where "bi_eq i j \<longleftrightarrow> i = j"
definition bi_neq :: "nat \<Rightarrow> nat \<Rightarrow> bool" where "bi_neq i j \<longleftrightarrow> \<not> bi_eq i j"

text \<open>A reverse iterator refers to the place before its position.\<close>

definition rev_deref :: "'v fvec \<Rightarrow> nat \<Rightarrow> 'v res" where
  "rev_deref v i = (if i = 0 then Inl UB else st_get (fv_data v) (i - 1))"

text \<open>\<open>for (auto const & x : v)\<close> and the loop from \<open>rbegin()\<close> to \<open>rend()\<close>: what they visit. The bound on the rounds is the distance of the
  positions.\<close>

fun fv_walk :: "'v fvec \<Rightarrow> nat \<Rightarrow> nat \<Rightarrow> nat \<Rightarrow> 'v list res" where
  "fv_walk v i e 0 = (if bi_neq i e then Inl UB else Inr [])"
| "fv_walk v i e (Suc n) =
     (if bi_neq i e then and_then (st_get (fv_data v) i) (\<lambda>x. and_then (fv_walk v (Suc i) e n) (\<lambda>xs. Inr (x # xs))) else Inr [])"

fun fv_rwalk :: "'v fvec \<Rightarrow> nat \<Rightarrow> nat \<Rightarrow> nat \<Rightarrow> 'v list res" where
  "fv_rwalk v i e 0 = (if bi_neq i e then Inl UB else Inr [])"
| "fv_rwalk v i e (Suc n) =
     (if bi_neq i e then and_then (rev_deref v i) (\<lambda>x. and_then (fv_rwalk v (i - 1) e n) (\<lambda>xs. Inr (x # xs))) else Inr [])"

definition fv_visit :: "'v fvec \<Rightarrow> 'v list res" where
  "fv_visit v = and_then (fv_begin v) (\<lambda>b. and_then (fv_end v) (\<lambda>e. fv_walk v b e (fv_count v)))"

definition fv_rvisit :: "'v fvec \<Rightarrow> 'v list res" where
  "fv_rvisit v = and_then (fv_rbegin v) (\<lambda>b. and_then (fv_rend v) (\<lambda>e. fv_rwalk v b e (fv_count v)))"

lemma rep_get: "fv_rep v xs \<Longrightarrow> i < length xs \<Longrightarrow> st_get (fv_data v) i = Inr (xs ! i)"
  by (simp add: fv_rep_def st_get_def vec_get_def)

lemma walk_rep: "fv_rep v xs \<Longrightarrow> i + n = length xs \<Longrightarrow> fv_walk v i (length xs) n = Inr (drop i xs)"
proof (induction n arbitrary: i)
  case (Suc n)
  then have "fv_walk v (Suc i) (length xs) n = Inr (drop (Suc i) xs)" "st_get (fv_data v) i = Inr (xs ! i)"
    by (simp_all add: rep_get)
  then show ?case using Suc.prems by (simp add: bi_neq_def bi_eq_def Cons_nth_drop_Suc)
qed (simp add: bi_neq_def bi_eq_def)

lemma rwalk_rep: "fv_rep v xs \<Longrightarrow> i \<le> length xs \<Longrightarrow> fv_rwalk v i 0 i = Inr (rev (take i xs))"
proof (induction i)
  case (Suc i)
  then have "fv_rwalk v i 0 i = Inr (rev (take i xs))" "st_get (fv_data v) i = Inr (xs ! i)"
    by (simp_all add: rep_get)
  then show ?case using Suc.prems by (simp add: bi_neq_def bi_eq_def rev_deref_def take_Suc_conv_app_nth)
qed (simp add: bi_neq_def bi_eq_def)

text \<open>A vector with room left is visited from the first value to the last one and back.\<close>

lemma visit_rep:
  assumes "fv_rep v xs" "length xs < length (fv_data v)"
  shows "fv_visit v = Inr xs" "fv_rvisit v = Inr (rev xs)"
proof -
  have c: "fv_count v = length xs" "fv_begin v = Inr 0" "fv_end v = Inr (length xs)"
    using assms by (auto simp: fv_rep_def fv_begin_def fv_end_def fv_slot_def)
  show "fv_visit v = Inr xs" using walk_rep[OF assms(1), of 0 "length xs"] c by (simp add: fv_visit_def)
  show "fv_rvisit v = Inr (rev xs)" using rwalk_rep[OF assms(1), of "length xs"] c by (simp add: fv_rvisit_def fv_rbegin_def fv_rend_def)
qed

text \<open>The end of a full vector is the element behind the last one of the array, and \<open>data()\<close> of a vector without slots its first one: neither exists.\<close>

lemma full_end_ub: "fv_rep v xs \<Longrightarrow> length xs = length (fv_data v) \<Longrightarrow> fv_visit v = Inl UB \<and> fv_rvisit v = Inl UB"
  by (auto simp: fv_rep_def fv_visit_def fv_rvisit_def fv_rbegin_def fv_begin_def fv_end_def fv_slot_def)

lemma no_slots_ub: "fv_pointer (fv_new 0) = Inl UB"
  by (simp add: fv_pointer_def fv_slot_def fv_new_def)

section \<open>The circular iterator\<close>

text \<open>What \<open>it++\<close> and \<open>it--\<close> give and what they leave: a reference to the iterator itself, which has moved.\<close>

definition ci_post_incr :: "citer \<Rightarrow> citer \<times> citer" where "ci_post_incr it = (ci_next it, ci_next it)"
definition ci_post_decr :: "citer \<Rightarrow> citer \<times> citer" where "ci_post_decr it = (ci_prev it, ci_prev it)"
definition make_circular_iterator :: "int \<Rightarrow> int \<Rightarrow> citer" where "make_circular_iterator b e = ci_new b e"

text \<open>On a circle of more than one place the postfix operators do not give the old position.\<close>

lemma post_incr_moved:
  assumes "ci_ok it" "1 < ci_size it"
  shows "fst (ci_post_incr it) \<noteq> it" "fst (ci_post_decr it) \<noteq> it" "fst (ci_post_decr (snd (ci_post_incr it))) = it"
proof -
  have s: "1 < cend it - cbegin it" "cbegin it \<le> cnext it" "cnext it < cend it" using assms by (simp_all add: ci_ok_def ci_size_def)
  then have "cnext (ci_next it) \<noteq> cnext it" "cnext (ci_prev it) \<noteq> cnext it"
    by (auto simp: ci_next_def ci_prev_def Let_def)
  then show "fst (ci_post_incr it) \<noteq> it" "fst (ci_post_decr it) \<noteq> it" by (auto simp: ci_post_incr_def ci_post_decr_def)
  show "fst (ci_post_decr (snd (ci_post_incr it))) = it"
    using s by (cases it) (auto simp: ci_post_incr_def ci_post_decr_def ci_next_def ci_prev_def Let_def)
qed

end
