(* ===== verification/Spec2Isabelle.thy ===== *)
theory Spec2Isabelle
  imports RingBuffer CsvSplitter SortedSet HttpTermination HttpServer Buffers IoCopy FixedVector BTreeInsert FixedString AtomicList PoolWorkers MemoryPool SearchTree ResultType TarFile StorageUnion Tasks WorkList Atomics RingFile Iterators DeltaVector OptionParser Reentrant FlatMap TypeInfo Injector Files Sockets EventPoller IoReactor Pointers Patterns Views Promises ThreadTest GlobalDispatcher UnitTest RingOpen TcpProxy McEcho Refs FixedIter
begin

text \<open>
  A model of libtxl, a C++17 template library (\<^verbatim>\<open>src/include/txl/*.h\<close>), with the theorems that make its
  components correct and the ones that show where they are not.

  \<^bold>\<open>The program.\<close> libtxl is a set of headers. At the bottom are memory (\<^verbatim>\<open>storage.h\<close>, \<^verbatim>\<open>storage_union.h\<close>,
  \<^verbatim>\<open>memory_pool.h\<close>), views (\<^verbatim>\<open>buffer_ref.h\<close>, \<^verbatim>\<open>array_view.h\<close>) and \<^verbatim>\<open>result.h\<close>, the union of a value and an error
  that most calls return. On them stand containers (\<^verbatim>\<open>fixed_vector.h\<close>, \<^verbatim>\<open>fixed_string.h\<close>, \<^verbatim>\<open>set.h\<close>, \<^verbatim>\<open>sorted.h\<close>,
  \<^verbatim>\<open>vector.h\<close>, \<^verbatim>\<open>tree.h\<close>, \<^verbatim>\<open>btree.h\<close>, \<^verbatim>\<open>flat_map.h\<close>, \<^verbatim>\<open>ring_buffer.h\<close>, \<^verbatim>\<open>ring_buffer_file.h\<close>, \<^verbatim>\<open>delta_vector.h\<close>,
  \<^verbatim>\<open>linked_list.h\<close>), readers and writers with the copies between them (\<^verbatim>\<open>io.h\<close>, \<^verbatim>\<open>copy.h\<close>, \<^verbatim>\<open>size_policy.h\<close>,
  \<^verbatim>\<open>find.h\<close>), formats (\<^verbatim>\<open>csv.h\<close>, \<^verbatim>\<open>lexer.h\<close>, \<^verbatim>\<open>http.h\<close>, \<^verbatim>\<open>tar_file.h\<close>, \<^verbatim>\<open>option_parser.h\<close>) and the parts that run
  threads (\<^verbatim>\<open>atomic.h\<close>, \<^verbatim>\<open>linked_list.h\<close>, \<^verbatim>\<open>threading.h\<close>, \<^verbatim>\<open>tasks.h\<close>, \<^verbatim>\<open>work_list.h\<close>, \<^verbatim>\<open>io_reactor.h\<close>). Around them are the owners of
  system resources (\<^verbatim>\<open>file.h\<close>, \<^verbatim>\<open>pipe.h\<close>, \<^verbatim>\<open>socket.h\<close>, \<^verbatim>\<open>memory_map.h\<close>, \<^verbatim>\<open>event_poller.h\<close>, \<^verbatim>\<open>event_timer.h\<close>), pointer classes
  (\<^verbatim>\<open>box.h\<close>, \<^verbatim>\<open>opaque_ptr.h\<close>, \<^verbatim>\<open>tiny_ptr.h\<close>, \<^verbatim>\<open>virtual_ptr.h\<close>, \<^verbatim>\<open>resource_pool.h\<close>), maps keyed by types (\<^verbatim>\<open>type_info.h\<close>,
  \<^verbatim>\<open>polymorphic.h\<close>, \<^verbatim>\<open>injector.h\<close>), message dispatch (\<^verbatim>\<open>observer.h\<close>) and helpers (\<^verbatim>\<open>patterns.h\<close>, \<^verbatim>\<open>iterator_view.h\<close>, \<^verbatim>\<open>unit_test.h\<close>).

  \<^bold>\<open>How it is modelled.\<close> The embedding is shallow: a class is a \<^verbatim>\<open>record\<close> of its members, a method is a
  function from the record (and its arguments) to a result and the record afterwards. A call that can throw
  or do something without a meaning returns a sum, \<open>Inl\<close> of a \<open>fault\<close> (an exception by its class, or
  \<open>UB\<close>) or \<open>Inr\<close> of its value. A call that may not return gives an option around that, and \<open>None\<close> is a loop
  that never ends or a thread that is blocked for ever; such loops are \<^verbatim>\<open>partial_function (option)\<close>, so that
  a theorem that a call returns says that it is \<open>Some\<close>. Integers whose width matters are words or carry the
  modulus; other sizes are natural numbers, below \<open>2^64\<close> as every array is. Threads are step relations on
  labels whose steps are the atomic accesses of the code, with invariants of the reachable states.
  Memory whose contents matter is a list of slots that are raw, live or moved-from; a destructor on raw memory is \<open>UB\<close>.

  \<^bold>\<open>The theories.\<close>
  \<^item> \<open>TxlPrelude\<close>: faults, sequencing, the vector operations and the binary search of the standard library.
  \<^item> \<open>Storage\<close>, \<open>StorageUnion\<close>, \<open>MemoryPool\<close>, \<open>ResultType\<close>: \<^verbatim>\<open>storage.h\<close>, \<^verbatim>\<open>storage_union.h\<close>, \<^verbatim>\<open>memory_pool.h\<close>,
    \<^verbatim>\<open>result.h\<close>. A union refines an optional value of one of its types; the buffers rented from a pool are disjoint;
    a move of a result gives the target what the source held, and the theorems say when the source can still be destroyed: not when
    a value and an error have met (unless the value is scalar), which is what \<^verbatim>\<open>then\<close> does with a continuation that fails.
  \<^item> \<open>RingBuffer\<close>, \<open>RingFile\<close>, \<open>RingOpen\<close>: \<^verbatim>\<open>ring_buffer.h\<close> and \<^verbatim>\<open>ring_buffer_file.h\<close>. The first is a lossy queue of \<open>n - 1\<close>
    places, the second a queue of byte strings that are not empty, which every reader sees from its own cursor; \<open>keep_entry\<close> says
    exactly which old entries a write drops, and a reader that has not been overtaken loses none.
  \<^item> \<open>SortedSet\<close>, \<open>SearchTree\<close>, \<open>BTree\<close>, \<open>BTreeInsert\<close>, \<open>FlatMap\<close>: \<^verbatim>\<open>set.h\<close>, \<^verbatim>\<open>vector.h\<close>, \<^verbatim>\<open>sorted.h\<close>, \<^verbatim>\<open>tree.h\<close>, \<^verbatim>\<open>btree.h\<close>,
    \<^verbatim>\<open>flat_map.h\<close>. Each is a sorted list or a finite map: order and search are invariants of every operation,
    with the cases in which an operation loses a value stated as lemmas.
  \<^item> \<open>FixedVector\<close>, \<open>FixedIter\<close>, \<open>FixedString\<close>, \<open>DeltaVector\<close>, \<open>Iterators\<close>: \<^verbatim>\<open>fixed_vector.h\<close>, \<^verbatim>\<open>fixed_string.h\<close>, \<^verbatim>\<open>delta_vector.h\<close>, \<^verbatim>\<open>iterators.h\<close>.
    An index beyond an array or a vector is \<open>UB\<close> also where the code takes only the address: the theorems say how far the fixed vector
    can be filled, and that \<^verbatim>\<open>end()\<close> of a full one, and of any delta vector, is undefined.
  \<^item> \<open>Buffers\<close>, \<open>StreamFind\<close>, \<open>IoCopy\<close>: \<^verbatim>\<open>buffer_ref.h\<close>, \<^verbatim>\<open>array_view.h\<close>, \<^verbatim>\<open>find.h\<close>, \<^verbatim>\<open>io.h\<close>, \<^verbatim>\<open>size_policy.h\<close>, \<^verbatim>\<open>copy.h\<close>,
    \<^verbatim>\<open>stream_writer.h\<close>, \<^verbatim>\<open>read_string.h\<close>, \<^verbatim>\<open>io_buffer.h\<close>. \<open>StreamFind\<close> has the constructor of a search as the code has it (it is undefined for
    texts of three characters and more, and its table is not the one of Knuth, Morris and Pratt): the theorems say what it builds
    and what the searches that are built find. A copy moves exactly what its policy allows.
  \<^item> \<open>CsvSplitter\<close>, \<open>Lexer\<close>, \<open>HttpParser\<close>, \<open>HttpRequest\<close>, \<open>HttpTermination\<close>, \<open>HttpServer\<close>, \<open>TarFile\<close>, \<open>OptionParser\<close>: the formats. Round
    trips through a renderer written here, and termination; \<open>hp_fault\<close> of the HTTP parser records that \<^verbatim>\<open>back()\<close> of an empty
    list was taken. \<open>HttpServer\<close> composes the parser with \<open>Sockets\<close> and \<open>IoCopy\<close> into the rounds of \<^verbatim>\<open>test_server\<close>; the search it makes
    for each client is one whose constructor is undefined.
  \<^item> \<open>Simulation\<close>: the locales \<open>bounded_simulation\<close> and \<open>step_invariant\<close> for labelled step relations, interpreted in
    \<open>AtomicList\<close> (\<^verbatim>\<open>linked_list.h\<close>: linearizability of the lock-free stack, up to the one read of a freed node it can make,
    the event \<open>StaleRead\<close>), \<open>ThreadPool\<close> (\<^verbatim>\<open>threading.h\<close>: no wake-up is
    lost; \<open>PoolWorkers\<close> has the worker objects and the constructor of the pool) and \<open>Atomics\<close> (\<^verbatim>\<open>atomic.h\<close>: a lazy value is created once,
    the swap loops exchange one after the other). In \<open>Atomics\<close> a load may return an old value of the atomic (\<open>location\<close>); in the other
    theories the accesses to memory are sequentially consistent.
  \<^item> \<open>Awaiter\<close>, \<open>Tasks\<close>, \<open>Promises\<close>, \<open>WorkList\<close>: \<^verbatim>\<open>threading.h\<close>, \<^verbatim>\<open>tasks.h\<close>, \<^verbatim>\<open>work_list.h\<close>. The locale
    \<open>promise_class\<close> states what a promise owes to a task, and both promises of the code interpret it. \<open>Promises\<close> has the moves,
    the futures that refer to a promise, and the runners as values.
  \<^item> \<open>ThreadTest\<close>, \<open>UnitTest\<close>: the harness for threads of \<^verbatim>\<open>threading.h\<close> as a step relation (order of the bodies, no lost
    notification), and \<^verbatim>\<open>unit_test.h\<close> (what the runner reports, and its exit code).
  \<^item> \<open>Observer\<close>, \<open>Reentrant\<close>, \<open>GlobalDispatcher\<close>: \<^verbatim>\<open>observer.h\<close>. The dispatcher refines a list of subscriptions, also when
    handlers call it about other messages; the global one calls no dead observer as long as the program disconnects an
    observer only when it has no subscription.
  \<^item> \<open>Ownership\<close>: the locale \<open>owner\<close> of objects that own a resource, with the moves that keep one owner for each. It is interpreted for
    file descriptors in \<open>SystemCalls\<close> (\<^verbatim>\<open>handle_error.h\<close>, \<^verbatim>\<open>error.h\<close>, \<^verbatim>\<open>file_base.h\<close>, \<^verbatim>\<open>pipe.h\<close>), and for boxes and virtual pointers in
    \<open>Pointers\<close> (\<^verbatim>\<open>box.h\<close>, \<^verbatim>\<open>opaque_ptr.h\<close>, \<^verbatim>\<open>tiny_ptr.h\<close>, \<^verbatim>\<open>virtual_ptr.h\<close>, \<^verbatim>\<open>resource_pool.h\<close>).
  \<^item> \<open>Files\<close>, \<open>Sockets\<close>, \<open>Times\<close>, \<open>EventPoller\<close>, \<open>IoReactor\<close>: \<^verbatim>\<open>file.h\<close>, \<^verbatim>\<open>sendfile.h\<close>, \<^verbatim>\<open>linux.h\<close>, \<^verbatim>\<open>memory_map.h\<close>, the socket headers,
    \<^verbatim>\<open>bitwise.h\<close>, \<^verbatim>\<open>backoff.h\<close>, \<^verbatim>\<open>time.h\<close>, \<^verbatim>\<open>event_poller.h\<close>, \<^verbatim>\<open>event_timer.h\<close>, \<^verbatim>\<open>io_reactor.h\<close>, over the system calls as parameters. A reactor with
    one read at a time, none longer than those before, delivers it; its buffers come from \<open>MemoryPool\<close>, where a longer read after short ones can
    hang. \<open>TcpProxy\<close> is the program \<^verbatim>\<open>src/tools/tcp_proxy\<close>, which owns the descriptors of its clients, and
    \<open>McEcho\<close> is \<^verbatim>\<open>src/tools/mc_echo\<close>, with its command line, its timer and what it prints.
  \<^item> \<open>TypeInfo\<close>, \<open>Injector\<close>: \<^verbatim>\<open>type_info.h\<close>, \<^verbatim>\<open>polymorphic.h\<close>, \<^verbatim>\<open>injector.h\<close>. \<open>Refs\<close>: \<^verbatim>\<open>ref.h\<close>, \<^verbatim>\<open>optional.h\<close>, \<^verbatim>\<open>result_error.h\<close>, \<^verbatim>\<open>is_one_of.h\<close>, \<^verbatim>\<open>app.h\<close>.
  \<^item> \<open>Patterns\<close>: \<^verbatim>\<open>patterns.h\<close> over the locale \<open>container\<close>, the contract of the maps of the standard library, with both of them as
    interpretations. \<open>Views\<close>: \<^verbatim>\<open>iterator_view.h\<close>, \<^verbatim>\<open>foreach_result.h\<close>, \<^verbatim>\<open>string_builder.h\<close>, \<^verbatim>\<open>exit_guard.h\<close>, \<^verbatim>\<open>free_guard.h\<close>, \<^verbatim>\<open>expect.h\<close>,
    \<^verbatim>\<open>feature_flag.h\<close>.

  \<^bold>\<open>Bounds and fuel.\<close> Structural fuel appears only where a lemma shows that it is enough: one unit per slot in
  \<open>rb_clear\<close>, one per key in the tree walks, the distance of the positions in the loops over vectors. The counters of the lock-free list and of the pool
  have their width in the code; the simulations hold for executions of fewer steps than the counter can count.

  \<^bold>\<open>Parameters.\<close> What is outside the repository is an argument: the memory a file or a map starts with, the
  answers of readers and writers, the hash function, \<^verbatim>\<open>atoi\<close>, products with a \<^verbatim>\<open>double\<close>, the system calls and the scheduler.
  Hypotheses on them state documented behaviour only, such as that a reader returns at most what it was asked for.

  \<^bold>\<open>Not modelled.\<close> The tests themselves; printing of cursors and trees for people; compile-time helpers; headers that do not compile (\<^verbatim>\<open>exception.h\<close>, \<^verbatim>\<open>event_loop.h\<close>, \<^verbatim>\<open>experimental/\<close>), and the members that do not
  compile when they are used (they are findings of the manifest). Of threads, what happens when a pool is
  destroyed while it is used, and handlers that dispatch. The list of parts with the reason for each one is in the manifest of the development.
\<close>

end
